(* ===== verification/Prelude.thy ===== *)
theory Prelude
  imports Main "HOL-Library.Word"
begin

text \<open>
  What every component shares: C characters read as integers (signed as on the usual
  targets, or through an \<open>unsigned char\<close> cast), the bridge from the code's masks and
  shifts to \<open>div\<close> and \<open>mod\<close>, chaining of fallible steps, C strings, and the
  \<open>printf\<close> conversions the code uses.  A result is \<open>Inl f\<close> when the code leaves a fault
  and \<open>Inr x\<close> when it returns \<open>x\<close>.
\<close>

unbundle bit_operations_syntax

named_theorems char_bits \<open>masks and shifts of characters as arithmetic\<close>
named_theorems result_simps \<open>chaining of fallible steps\<close>

section \<open>Characters\<close>

abbreviation NUL :: char where "NUL \<equiv> CHR 0x00"
abbreviation TAB :: char where "TAB \<equiv> CHR 0x09"
abbreviation LF :: char where "LF \<equiv> CHR 0x0A"
abbreviation CR :: char where "CR \<equiv> CHR 0x0D"
abbreviation DEL :: char where "DEL \<equiv> CHR 0x7F"

abbreviation CRLF :: string where "CRLF \<equiv> [CR, LF]"

definition uchar :: "char \<Rightarrow> int" where
  "uchar c = of_char c"

definition schar :: "char \<Rightarrow> int" where
  "schar c = (if uchar c < 128 then uchar c else uchar c - 256)"

definition chr :: "int \<Rightarrow> char" where
  "chr i = char_of i"

lemma uchar_eq_int: "uchar c = int (of_char c)"
  by (simp add: uchar_def of_nat_of_char)

lemma uchar_range [simp]: "0 \<le> uchar c" "uchar c < 256"
  unfolding uchar_eq_int using nat_of_char_less_256 [of c] by linarith+

lemma uchar_chr [simp]: "uchar (chr i) = i mod 256"
  by (simp add: uchar_def chr_def)

lemma chr_uchar [simp]: "chr (uchar c) = c"
  by (simp add: uchar_def chr_def)

lemma uchar_inject [simp]: "uchar c = uchar d \<longleftrightarrow> c = d"
  by (simp add: uchar_def)

lemma uchar_eq_chr: "uchar c = i \<Longrightarrow> c = chr i"
  by (metis chr_uchar)

lemma chr_eq_iff: "chr i = c \<longleftrightarrow> i mod 256 = uchar c"
  by (metis uchar_chr uchar_inject)

lemma uchar_consts [simp]:
  "uchar NUL = 0" "uchar TAB = 9" "uchar LF = 10" "uchar CR = 13" "uchar DEL = 127"
  "uchar (CHR '' '') = 32"
  by (simp_all add: uchar_def)

lemma chr_consts [simp]:
  "chr 0 = NUL" "chr 9 = TAB" "chr 10 = LF" "chr 13 = CR" "chr 127 = DEL"
  "chr 32 = CHR '' ''"
  by (simp_all add: chr_eq_iff)

lemma uchar_eq_0 [simp]: "uchar c = 0 \<longleftrightarrow> c = NUL"
  by (metis uchar_consts(1) uchar_inject)

lemma schar_ascii [simp]: "uchar c < 128 \<Longrightarrow> schar c = uchar c"
  by (simp add: schar_def)

lemma schar_mod_256: "schar c mod 256 = uchar c"
  by (simp add: schar_def mod_diff_eq [symmetric])

section \<open>Masks and shifts as arithmetic\<close>

lemma and_mask_mod: "(2 :: int) ^ n - 1 = m \<Longrightarrow> x AND m = x mod 2 ^ n"
  using take_bit_eq_mask [of n x] by (simp add: take_bit_eq_mod mask_eq_exp_minus_1)

lemma and_low_mask [char_bits]:
  fixes x :: int
  shows "x AND 3 = x mod 4" and "x AND 0x0F = x mod 16" and "x AND 0x1F = x mod 32"
    and "x AND 0x3F = x mod 64" and "x AND 0x7F = x mod 128" and "x AND 0xFF = x mod 256"
  subgoal by (rule trans [OF and_mask_mod [of 2 3 x]]) simp_all
  subgoal by (rule trans [OF and_mask_mod [of 4 15 x]]) simp_all
  subgoal by (rule trans [OF and_mask_mod [of 5 31 x]]) simp_all
  subgoal by (rule trans [OF and_mask_mod [of 6 63 x]]) simp_all
  subgoal by (rule trans [OF and_mask_mod [of 7 127 x]]) simp_all
  subgoal by (rule trans [OF and_mask_mod [of 8 255 x]]) simp_all
  done

lemma schar_mod_dvd: "m dvd 256 \<Longrightarrow> schar c mod m = uchar c mod m"
  by (metis mod_mod_cancel schar_mod_256)

lemma schar_mod [char_bits]:
  "schar c mod 4 = uchar c mod 4" "schar c mod 16 = uchar c mod 16"
  "schar c mod 32 = uchar c mod 32" "schar c mod 64 = uchar c mod 64"
  "schar c mod 128 = uchar c mod 128"
  by (rule schar_mod_dvd, simp)+

lemma or_disjoint:
  fixes x y :: int
  assumes "0 \<le> y" "y < 2 ^ n"
  shows "push_bit n x OR y = x * 2 ^ n + y"
proof -
  have "take_bit n y = y"
    using assms by (simp add: take_bit_eq_mod)
  then have "\<not> bit (push_bit n x) k \<or> \<not> bit y k" for k
    by (metis bit_push_bit_iff bit_take_bit_iff leD)
  then show ?thesis
    by (metis disjunctive_add push_bit_eq_mult)
qed

lemma digit_div_mod:
  fixes x y b :: int
  assumes "0 \<le> y" "y < b"
  shows "(x * b + y) div b = x" "(x * b + y) mod b = y"
  using assms by (simp_all add: div_pos_pos_trivial)

section \<open>Chaining of fallible steps\<close>

definition bindE :: "'e + 'a \<Rightarrow> ('a \<Rightarrow> 'e + 'b) \<Rightarrow> 'e + 'b" where
  "bindE m k = (case m of Inl e \<Rightarrow> Inl e | Inr x \<Rightarrow> k x)"

lemma bindE_simps [simp, result_simps]:
  "bindE (Inl e) k = Inl e" "bindE (Inr x) k = k x"
  by (simp_all add: bindE_def)

lemma bindE_Inr_conv [result_simps]:
  "bindE m k = Inr y \<longleftrightarrow> (\<exists>x. m = Inr x \<and> k x = Inr y)"
  by (cases m) auto

lemma bindE_Inl_conv [result_simps]:
  "bindE m k = Inl e \<longleftrightarrow> m = Inl e \<or> (\<exists>x. m = Inr x \<and> k x = Inl e)"
  by (cases m) auto

lemma bindE_assoc: "bindE (bindE m f) g = bindE m (\<lambda>x. bindE (f x) g)"
  by (cases m) auto

text \<open>A loop that carries a state and leaves at the first fault.\<close>

fun foldE :: "('s \<Rightarrow> 'a \<Rightarrow> 'e + 's) \<Rightarrow> 's \<Rightarrow> 'a list \<Rightarrow> 'e + 's" where
  "foldE f s [] = Inr s"
| "foldE f s (x # xs) = bindE (f s x) (\<lambda>s'. foldE f s' xs)"

lemma foldE_cong [fundef_cong]:
  "xs = ys \<Longrightarrow> s = t \<Longrightarrow> (\<And>s x. x \<in> set ys \<Longrightarrow> f s x = g s x) \<Longrightarrow> foldE f s xs = foldE g t ys"
proof (induction xs arbitrary: s t ys)
  case (Cons x xs)
  then obtain zs where "ys = x # zs" "xs = zs" by auto
  with Cons show ?case by (auto simp: bindE_def split: sum.split)
qed simp

lemma foldE_append: "foldE f s (xs @ ys) = bindE (foldE f s xs) (\<lambda>s'. foldE f s' ys)"
  by (induction xs arbitrary: s) (simp_all add: bindE_assoc)

definition isOK :: "'e + 'a \<Rightarrow> bool" where
  "isOK m = (case m of Inl _ \<Rightarrow> False | Inr _ \<Rightarrow> True)"

lemma isOK_simps [simp, result_simps]: "\<not> isOK (Inl e)" "isOK (Inr x)"
  by (simp_all add: isOK_def)

lemma isOK_iff: "isOK m \<longleftrightarrow> (\<exists>x. m = Inr x)"
  by (cases m) auto

section \<open>C strings\<close>

text \<open>
  A C string is the list of the characters before its NUL.  \<open>peek s\<close> is the character
  the code reads at the front of such a string, the NUL at its end included.
\<close>

definition c_str :: "string \<Rightarrow> string" where
  "c_str s = takeWhile (\<lambda>c. c \<noteq> NUL) s"

definition peek :: "string \<Rightarrow> char" where
  "peek s = (case s of [] \<Rightarrow> NUL | c # _ \<Rightarrow> c)"

lemma peek_simps [simp]: "peek [] = NUL" "peek (c # s) = c"
  by (simp_all add: peek_def)

lemma c_str_id: "NUL \<notin> set s \<Longrightarrow> c_str s = s"
  unfolding c_str_def by (rule takeWhile_eq_all_conv [THEN iffD2]) auto

lemma NUL_not_in_c_str [simp]: "NUL \<notin> set (c_str s)"
  using set_takeWhileD unfolding c_str_def by fastforce

definition isdigit :: "char \<Rightarrow> bool" where
  "isdigit c \<longleftrightarrow> 48 \<le> uchar c \<and> uchar c \<le> 57"

definition isspace :: "char \<Rightarrow> bool" where
  "isspace c \<longleftrightarrow> uchar c = 32 \<or> (9 \<le> uchar c \<and> uchar c \<le> 13)"

definition isprint :: "char \<Rightarrow> bool" where
  "isprint c \<longleftrightarrow> 32 \<le> uchar c \<and> uchar c \<le> 126"

definition digit_val :: "char \<Rightarrow> nat" where
  "digit_val c = nat (uchar c - 48)"

definition digit_char :: "nat \<Rightarrow> char" where
  "digit_char d = chr (48 + int d)"

lemma isdigit_not_isspace: "isdigit c \<Longrightarrow> \<not> isspace c"
  by (auto simp: isdigit_def isspace_def)

lemma digit_val_less: "isdigit c \<Longrightarrow> digit_val c < 10"
  by (auto simp: isdigit_def digit_val_def)

lemma digit_char [simp]:
  assumes "d < 10"
  shows "isdigit (digit_char d)" "digit_val (digit_char d) = d"
  using assms by (auto simp: isdigit_def digit_val_def digit_char_def)

lemma NUL_not_digit [simp]: "\<not> isdigit NUL"
  by (simp add: isdigit_def)

end
