(* ===== verification/Utf8.thy ===== *)
theory Utf8
  imports Prelude
begin

text \<open>
  The tables of \<open>lib/libutil/utf8.c\<close> and the two routines that repair a C string in place,
  \<open>xmlrpc_force_to_utf8\<close> and \<open>xmlrpc_force_to_xml_chars\<close>, which every fault message goes
  through.  The specification they are measured against is \<open>utf8_text\<close>: the
  concatenation of the shortest encodings of legal UCS-2 characters.
\<close>

section \<open>Tables and constants\<close>

definition utf8SeqLength_table :: "nat list" where
  "utf8SeqLength_table =
     replicate 128 1 @ replicate 64 0 @ replicate 32 2 @ replicate 16 3 @
     [4, 4, 4, 4, 4, 4, 4, 4, 5, 5, 5, 5, 6, 6, 0, 0]"

definition utf8SeqLength :: "char \<Rightarrow> nat" where
  "utf8SeqLength c = utf8SeqLength_table ! nat (uchar c)"

definition utf8_min_char_for_length :: "int list" where
  "utf8_min_char_for_length = [0, 0x0000, 0x0080, 0x0800, 0x00010000, 0x00200000, 0x04000000]"

definition UCS2_MAX_LEGAL_CHARACTER :: int where
  "UCS2_MAX_LEGAL_CHARACTER = 0xFFFD"

definition UTF16_FIRST_SURROGATE :: int where
  "UTF16_FIRST_SURROGATE = 0xD800"

definition UTF16_LAST_SURROGATE :: int where
  "UTF16_LAST_SURROGATE = 0xDFFF"

definition IS_CONTINUATION :: "char \<Rightarrow> bool" where
  "IS_CONTINUATION c \<longleftrightarrow> schar c AND 0xC0 = 0x80"

lemmas ucs2_consts =
  UCS2_MAX_LEGAL_CHARACTER_def UTF16_FIRST_SURROGATE_def UTF16_LAST_SURROGATE_def

lemma IS_CONTINUATION_iff: "IS_CONTINUATION c \<longleftrightarrow> 128 \<le> uchar c \<and> uchar c < 192"
proof -
  have "\<forall>c. IS_CONTINUATION c \<longleftrightarrow> 128 \<le> uchar c \<and> uchar c < 192"
    by code_simp
  then show ?thesis by blast
qed

lemma utf8SeqLength_cases:
  "utf8SeqLength c =
     (if uchar c < 128 then 1 else if uchar c < 192 then 0 else if uchar c < 224 then 2
      else if uchar c < 240 then 3 else if uchar c < 248 then 4 else if uchar c < 252 then 5
      else if uchar c < 254 then 6 else 0)"
proof -
  have "\<forall>c. utf8SeqLength c =
     (if uchar c < 128 then 1 else if uchar c < 192 then 0 else if uchar c < 224 then 2
      else if uchar c < 240 then 3 else if uchar c < 248 then 4 else if uchar c < 252 then 5
      else if uchar c < 254 then 6 else 0)"
    by code_simp
  then show ?thesis by blast
qed

lemma utf8_min_char_simps [simp]:
  "utf8_min_char_for_length ! Suc 0 = 0" "utf8_min_char_for_length ! 2 = 0x80"
  "utf8_min_char_for_length ! 3 = 0x800"
  by (simp_all add: utf8_min_char_for_length_def)

section \<open>The specification: UTF-8 text\<close>

definition ucs2_legal :: "int \<Rightarrow> bool" where
  "ucs2_legal w \<longleftrightarrow> 0 \<le> w \<and> w \<le> 0xFFFD \<and> \<not> (0xD800 \<le> w \<and> w \<le> 0xDFFF)"

definition utf8_enc :: "int \<Rightarrow> string" where
  "utf8_enc w =
     (if w < 0x80 then [chr w]
      else if w < 0x800 then [chr (192 + w div 64), chr (128 + w mod 64)]
      else [chr (224 + w div 4096), chr (128 + w div 64 mod 64), chr (128 + w mod 64)])"

lemma utf8_enc_three:
  "0x800 \<le> w \<Longrightarrow>
   utf8_enc w = [chr (224 + w div 4096), chr (128 + w div 64 mod 64), chr (128 + w mod 64)]"
  by (simp add: utf8_enc_def)

definition utf8_encs :: "int list \<Rightarrow> string" where
  "utf8_encs ws = concat (map utf8_enc ws)"

definition utf8_text :: "string \<Rightarrow> bool" where
  "utf8_text s \<longleftrightarrow> (\<exists>ws. list_all ucs2_legal ws \<and> s = utf8_encs ws)"

lemma utf8_encs_simps [simp]:
  "utf8_encs [] = []" "utf8_encs (w # ws) = utf8_enc w @ utf8_encs ws"
  "utf8_encs (us @ ws) = utf8_encs us @ utf8_encs ws"
  by (simp_all add: utf8_encs_def)

lemma utf8_enc_nonempty [simp]: "utf8_enc w \<noteq> []"
  by (simp add: utf8_enc_def)

lemma utf8_text_Nil [simp]: "utf8_text []"
  unfolding utf8_text_def by (rule exI [of _ "[]"]) simp

lemma utf8_text_Cons:
  assumes "ucs2_legal w" "utf8_text s"
  shows "utf8_text (utf8_enc w @ s)"
proof -
  obtain ws where "list_all ucs2_legal ws" "s = utf8_encs ws"
    using assms(2) by (auto simp: utf8_text_def)
  then have "list_all ucs2_legal (w # ws)" "utf8_enc w @ s = utf8_encs (w # ws)"
    using assms(1) by simp_all
  then show ?thesis
    unfolding utf8_text_def by blast
qed

lemma utf8_text_induct [consumes 1, case_names Nil Cons]:
  assumes "utf8_text s" "P []"
    and "\<And>w s. ucs2_legal w \<Longrightarrow> utf8_text s \<Longrightarrow> P s \<Longrightarrow> P (utf8_enc w @ s)"
  shows "P s"
proof -
  obtain ws where "list_all ucs2_legal ws" "s = utf8_encs ws"
    using assms(1) by (auto simp: utf8_text_def)
  then show ?thesis
  proof (induction ws arbitrary: s)
    case Nil
    then show ?case using assms(2) by simp
  next
    case (Cons w ws)
    then have "utf8_text (utf8_encs ws)"
      by (auto simp: utf8_text_def)
    then show ?case using Cons assms(3) by simp
  qed
qed

lemma utf8_text_append: "utf8_text s \<Longrightarrow> utf8_text t \<Longrightarrow> utf8_text (s @ t)"
  by (induction rule: utf8_text_induct) (auto intro: utf8_text_Cons)

text \<open>The character at the front of a string, with its length, as arithmetic.\<close>

definition utf8_head :: "string \<Rightarrow> (int \<times> nat) option" where
  "utf8_head s =
     (case s of [] \<Rightarrow> None
      | c # s1 \<Rightarrow>
          if uchar c < 128 then Some (uchar c, 1)
          else if 192 \<le> uchar c \<and> uchar c < 224 then
            (case s1 of [] \<Rightarrow> None
             | d # _ \<Rightarrow>
                 let w = (uchar c - 192) * 64 + (uchar d - 128)
                 in if IS_CONTINUATION d \<and> 0x80 \<le> w then Some (w, 2) else None)
          else if 224 \<le> uchar c \<and> uchar c < 240 then
            (case s1 of d # e # _ \<Rightarrow>
                 let w = (uchar c - 224) * 4096 + (uchar d - 128) * 64 + (uchar e - 128)
                 in if IS_CONTINUATION d \<and> IS_CONTINUATION e \<and> 0x800 \<le> w \<and> ucs2_legal w
                    then Some (w, 3) else None
             | _ \<Rightarrow> None)
          else None)"

lemma utf8_head_enc:
  assumes "ucs2_legal w"
  shows "utf8_head (utf8_enc w @ s) = Some (w, length (utf8_enc w))"
proof -
  have "w < 0x10000" "0 \<le> w" using assms by (auto simp: ucs2_legal_def)
  consider "w < 0x80" | "0x80 \<le> w" "w < 0x800" | "0x800 \<le> w" by linarith
  then show ?thesis
  proof cases
    case 1
    with \<open>0 \<le> w\<close> show ?thesis by (simp add: utf8_enc_def utf8_head_def)
  next
    case 2
    then have "w div 64 < 32" "2 \<le> w div 64" by linarith+
    then have "(192 + w div 64) mod 256 = 192 + w div 64" "(128 + w mod 64) mod 256 = 128 + w mod 64"
      by (auto intro!: mod_pos_pos_trivial simp: add.commute pos_mod_bound order.strict_trans)
    moreover have "w div 64 * 64 + w mod 64 = w" by simp
    ultimately show ?thesis
      using 2 \<open>w div 64 < 32\<close> \<open>2 \<le> w div 64\<close>
      by (simp add: utf8_enc_def utf8_head_def IS_CONTINUATION_iff Let_def)
  next
    case 3
    let ?h = "w div 4096" and ?m = "w div 64 mod 64" and ?l = "w mod 64"
    have range: "?h < 16" "0 \<le> ?h" "?m < 64" "0 \<le> ?m" "?l < 64" "0 \<le> ?l"
      using \<open>w < 0x10000\<close> \<open>0 \<le> w\<close> by (linarith | simp)+
    have sum: "?h * 4096 + ?m * 64 + ?l = w"
    proof -
      have "w div 64 div 64 = w div 4096" by (simp add: zdiv_zmult2_eq [symmetric])
      then show ?thesis
        using div_mult_mod_eq [of w 64] div_mult_mod_eq [of "w div 64" 64] by linarith
    qed
    obtain c d e where cde: "utf8_enc w = [c, d, e]"
      "uchar c = 224 + ?h" "uchar d = 128 + ?m" "uchar e = 128 + ?l"
    proof
      show "utf8_enc w = [chr (224 + ?h), chr (128 + ?m), chr (128 + ?l)]"
        using 3 by (rule utf8_enc_three)
      show "uchar (chr (224 + ?h)) = 224 + ?h" "uchar (chr (128 + ?m)) = 128 + ?m"
        "uchar (chr (128 + ?l)) = 128 + ?l"
        unfolding uchar_chr using range by (intro mod_pos_pos_trivial; linarith)+
    qed
    have "(uchar c - 224) * 4096 + (uchar d - 128) * 64 + (uchar e - 128) = w"
      using sum cde by simp
    moreover have "224 \<le> uchar c" "uchar c < 240" "IS_CONTINUATION d" "IS_CONTINUATION e"
      unfolding IS_CONTINUATION_iff cde using range by linarith+
    ultimately show ?thesis
      using 3 assms cde(1) by (simp only: utf8_head_def) simp
  qed
qed

lemma utf8_head_SomeD:
  assumes "utf8_head s = Some (w, n)"
  shows "ucs2_legal w" "n = length (utf8_enc w)" "s = utf8_enc w @ drop n s" "0 < n"
proof -
  obtain c s1 where s: "s = c # s1"
    using assms by (cases s) (auto simp: utf8_head_def)
  consider (one) "w = uchar c" "n = 1" "uchar c < 128"
    | (two) d s2 where "s1 = d # s2" "w = (uchar c - 192) * 64 + (uchar d - 128)" "n = 2"
        "192 \<le> uchar c" "uchar c < 224" "128 \<le> uchar d" "uchar d < 192" "0x80 \<le> w"
    | (three) d e s2 where "s1 = d # e # s2" "n = 3"
        "w = (uchar c - 224) * 4096 + (uchar d - 128) * 64 + (uchar e - 128)"
        "224 \<le> uchar c" "uchar c < 240" "128 \<le> uchar d" "uchar d < 192"
        "128 \<le> uchar e" "uchar e < 192" "0x800 \<le> w" "ucs2_legal w"
    using assms
    by (auto simp: s utf8_head_def IS_CONTINUATION_iff Let_def split: if_splits list.splits)
  then have "ucs2_legal w \<and> n = length (utf8_enc w) \<and> s = utf8_enc w @ drop n s \<and> 0 < n"
  proof cases
    case one
    then show ?thesis by (simp add: s ucs2_legal_def utf8_enc_def)
  next
    case two
    then have "w div 64 = uchar c - 192" "w mod 64 = uchar d - 128"
      using digit_div_mod [of "uchar d - 128" 64 "uchar c - 192"] by simp_all
    moreover have "w < 0x800" using two by simp
    ultimately have "utf8_enc w = [c, d]"
      using two by (simp add: utf8_enc_def)
    with two show ?thesis by (simp add: s ucs2_legal_def utf8_enc_def)
  next
    case three
    let ?hi = "(uchar c - 224) * 64 + (uchar d - 128)"
    have w: "w = ?hi * 64 + (uchar e - 128)" using three by simp
    have "0 \<le> uchar e - 128" "uchar e - 128 < 64" using three by simp_all
    note low = digit_div_mod [OF this, of ?hi, folded w]
    have high: "?hi div 64 = uchar c - 224" "?hi mod 64 = uchar d - 128"
      using three digit_div_mod [of "uchar d - 128" 64 "uchar c - 224"] by simp_all
    have "w div 4096 = w div 64 div 64" by (simp add: zdiv_zmult2_eq [symmetric])
    then have "utf8_enc w = [c, d, e]"
      unfolding utf8_enc_three [OF \<open>0x800 \<le> w\<close>] low high by simp
    with three show ?thesis by (simp add: s)
  qed
  then show "ucs2_legal w" "n = length (utf8_enc w)" "s = utf8_enc w @ drop n s" "0 < n"
    by blast+
qed

lemma utf8_text_iff_head:
  "utf8_text s \<longleftrightarrow> s = [] \<or> (\<exists>w n. utf8_head s = Some (w, n) \<and> utf8_text (drop n s))"
proof
  assume "utf8_text s"
  then show "s = [] \<or> (\<exists>w n. utf8_head s = Some (w, n) \<and> utf8_text (drop n s))"
    by (cases rule: utf8_text_induct) (auto simp: utf8_head_enc)
next
  assume "s = [] \<or> (\<exists>w n. utf8_head s = Some (w, n) \<and> utf8_text (drop n s))"
  then show "utf8_text s"
    by (metis utf8_head_SomeD(1,3) utf8_text_Cons utf8_text_Nil)
qed

section \<open>Forcing a string to be UTF-8\<close>

text \<open>
  \<open>force_del\<close> is the switch of \<open>xmlrpc_force_to_utf8\<close> on the string at \<open>p\<close>, with the
  conditions as they are written there: \<open>!( *p+2)\<close> adds 2 to the first byte.
\<close>

definition utf8_join2 :: "char \<Rightarrow> char \<Rightarrow> int" where
  "utf8_join2 c d = push_bit 6 (schar c AND 0x1F) OR push_bit 0 (schar d AND 0x3F)"

definition utf8_join3 :: "char \<Rightarrow> char \<Rightarrow> char \<Rightarrow> int" where
  "utf8_join3 c d e =
     push_bit 12 (schar c AND 0x0F) OR push_bit 6 (schar d AND 0x3F) OR push_bit 0 (schar e AND 0x3F)"

definition force_decoded :: "string \<Rightarrow> int option" where
  "force_decoded p =
     (let p0 = schar (peek p); p1 = peek (tl p); p2 = peek (tl (tl p))
      in case utf8SeqLength (peek p) of
           Suc 0 \<Rightarrow> Some p0
         | Suc (Suc 0) \<Rightarrow>
             if p1 = NUL \<or> p0 + 2 = 0 then None
             else if \<not> IS_CONTINUATION p1 then None
             else Some (utf8_join2 (peek p) p1)
         | Suc (Suc (Suc 0)) \<Rightarrow>
             if p1 = NUL \<or> p0 + 2 = 0 \<or> p0 + 3 = 0 then None
             else if \<not> IS_CONTINUATION p1 \<or> \<not> IS_CONTINUATION p2 then None
             else Some (utf8_join3 (peek p) p1 p2)
         | _ \<Rightarrow> None)"

definition force_del :: "string \<Rightarrow> bool" where
  "force_del p =
     (case force_decoded p of
        None \<Rightarrow> True
      | Some decoded \<Rightarrow>
          if decoded > UCS2_MAX_LEGAL_CHARACTER then True
          else if UTF16_FIRST_SURROGATE \<le> decoded \<and> decoded \<le> UTF16_LAST_SURROGATE then True
          else decoded < utf8_min_char_for_length ! utf8SeqLength (peek p))"

lemma force_del_seqlength_0: "utf8SeqLength (peek p) = 0 \<Longrightarrow> force_del p"
  by (simp add: force_del_def force_decoded_def)

function force_to_utf8 :: "string \<Rightarrow> string" where
  "force_to_utf8 [] = []"
| "force_to_utf8 (c # s) =
     (if force_del (c # s) then DEL # force_to_utf8 s
      else take (utf8SeqLength c) (c # s) @ force_to_utf8 (drop (utf8SeqLength c) (c # s)))"
  by pat_completeness auto
termination
proof (relation "measure length")
  fix c s
  assume "\<not> force_del (c # s)"
  then have "0 < utf8SeqLength c"
    using force_del_seqlength_0 [of "c # s"] by auto
  then show "(drop (utf8SeqLength c) (c # s), c # s) \<in> measure length"
    by simp
qed simp_all

declare force_to_utf8.simps(2) [simp del]

text \<open>The bits of two and three bytes, put together.\<close>

lemma join_two:
  "utf8_join2 c d = uchar c mod 32 * 64 + uchar d mod 64"
  unfolding utf8_join2_def
  using or_disjoint [of "uchar d mod 64" 6 "uchar c mod 32"] by (simp add: char_bits)

lemma join_three:
  "utf8_join3 c d e = uchar c mod 16 * 4096 + (uchar d mod 64 * 64 + uchar e mod 64)"
proof -
  have low: "push_bit 6 (uchar d mod 64) OR uchar e mod 64 = uchar d mod 64 * 64 + uchar e mod 64"
    using or_disjoint [of "uchar e mod 64" 6 "uchar d mod 64"] by simp
  have "uchar d mod 64 < 64" "uchar e mod 64 < 64" "0 \<le> uchar d mod 64" "0 \<le> uchar e mod 64"
    by simp_all
  then have "uchar d mod 64 * 64 + uchar e mod 64 < 4096"
    "0 \<le> uchar d mod 64 * 64 + uchar e mod 64"
    by linarith+
  then show ?thesis
    using or_disjoint [of "uchar d mod 64 * 64 + uchar e mod 64" 12 "uchar c mod 16"]
    unfolding utf8_join3_def by (simp add: char_bits low)
qed

lemma lead_byte_mod:
  "192 \<le> x \<Longrightarrow> x < 224 \<Longrightarrow> x mod 32 = x - (192 :: int)"
  "224 \<le> x \<Longrightarrow> x < 240 \<Longrightarrow> x mod 16 = x - (224 :: int)"
  "128 \<le> x \<Longrightarrow> x < 192 \<Longrightarrow> x mod 64 = x - (128 :: int)"
  by presburger+

lemma force_del_iff:
  assumes "NUL \<notin> set p" "p \<noteq> []"
  shows "force_del p \<longleftrightarrow> utf8_head p = None"
proof -
  obtain c s where p: "p = c # s" using assms by (cases p) auto
  consider (one) "uchar c < 128" | (bad) "128 \<le> uchar c" "uchar c < 192"
    | (two) "192 \<le> uchar c" "uchar c < 224" | (three) "224 \<le> uchar c" "uchar c < 240"
    | (long) "240 \<le> uchar c"
    by linarith
  then show ?thesis
  proof cases
    case one
    then show ?thesis
      by (simp add: p force_del_def force_decoded_def utf8_head_def utf8SeqLength_cases
          ucs2_consts not_less)
  next
    case bad
    then show ?thesis
      by (simp add: p force_del_def force_decoded_def utf8_head_def utf8SeqLength_cases)
  next
    case two
    then have len: "utf8SeqLength c = Suc (Suc 0)" by (simp add: utf8SeqLength_cases)
    have "schar c + 2 \<noteq> 0" using two by (simp add: schar_def)
    with two assms len show ?thesis
      by (cases s)
        (auto simp: p force_del_def force_decoded_def utf8_head_def ucs2_consts join_two
          IS_CONTINUATION_iff lead_byte_mod Let_def numeral_2_eq_2 [symmetric])
  next
    case three
    then have len: "utf8SeqLength c = Suc (Suc (Suc 0))" by (simp add: utf8SeqLength_cases)
    have "schar c + 2 \<noteq> 0" "schar c + 3 \<noteq> 0" using three by (simp_all add: schar_def)
    with three assms len show ?thesis
      by (cases s; cases "tl s")
        (auto simp: p force_del_def force_decoded_def utf8_head_def ucs2_consts join_three
          IS_CONTINUATION_iff lead_byte_mod Let_def ucs2_legal_def numeral_3_eq_3 [symmetric])
  next
    case long
    then have "utf8SeqLength c \<notin> {Suc 0, Suc (Suc 0), Suc (Suc (Suc 0))}"
      by (simp add: utf8SeqLength_cases)
    then have "force_decoded p = None"
      by (auto simp: p force_decoded_def Let_def split: nat.splits)
    with long show ?thesis
      by (simp add: p force_del_def utf8_head_def)
  qed
qed

lemma utf8_head_length:
  "utf8_head (c # s) = Some (w, n) \<Longrightarrow> n = utf8SeqLength c"
  by (auto simp: utf8_head_def utf8SeqLength_cases Let_def split: if_splits list.splits)

lemma NUL_drop: "NUL \<notin> set s \<Longrightarrow> NUL \<notin> set (drop n s)"
  by (meson in_set_dropD)

lemma force_to_utf8_bad:
  "NUL \<notin> set (c # s) \<Longrightarrow> utf8_head (c # s) = None
   \<Longrightarrow> force_to_utf8 (c # s) = DEL # force_to_utf8 s"
  by (simp add: force_to_utf8.simps(2) force_del_iff)

lemma force_to_utf8_good:
  assumes "NUL \<notin> set p" "utf8_head p = Some (w, n)"
  shows "force_to_utf8 p = utf8_enc w @ force_to_utf8 (drop n p)"
proof -
  obtain c s where p: "p = c # s"
    using assms(2) by (cases p) (auto simp: utf8_head_def)
  have n: "n = utf8SeqLength c" "n = length (utf8_enc w)" "p = utf8_enc w @ drop n p"
    using assms(2) utf8_head_length utf8_head_SomeD p by blast+
  then have "take n p = utf8_enc w"
    by (metis append_eq_conv_conj)
  moreover have "\<not> force_del p"
    using assms p by (simp add: force_del_iff)
  ultimately show ?thesis
    using n(1) by (simp add: p force_to_utf8.simps(2))
qed

lemma force_to_utf8_induct [consumes 1, case_names Nil bad good]:
  assumes "NUL \<notin> set p" "P []"
    and "\<And>c s. NUL \<notin> set (c # s) \<Longrightarrow> utf8_head (c # s) = None \<Longrightarrow> P s \<Longrightarrow> P (c # s)"
    and "\<And>p w n. NUL \<notin> set p \<Longrightarrow> utf8_head p = Some (w, n) \<Longrightarrow> P (drop n p) \<Longrightarrow> P p"
  shows "P p"
  using assms(1)
proof (induction p rule: length_induct)
  case (1 p)
  show ?case
  proof (cases p)
    case Nil
    then show ?thesis using assms(2) by simp
  next
    case (Cons c s)
    show ?thesis
    proof (cases "utf8_head p")
      case None
      with 1 Cons show ?thesis using assms(3) [of c s] by auto
    next
      case (Some wn)
      then obtain w n where wn: "utf8_head p = Some (w, n)" by (cases wn) auto
      then have "0 < n" by (rule utf8_head_SomeD(4))
      with 1 Cons have "P (drop n p)" using NUL_drop [of p n] by auto
      with 1 wn show ?thesis using assms(4) by blast
    qed
  qed
qed

lemma force_to_utf8_text: "NUL \<notin> set s \<Longrightarrow> utf8_text (force_to_utf8 s)"
proof (induction rule: force_to_utf8_induct)
  case (bad c s)
  have "utf8_enc 127 = [DEL]" "ucs2_legal 127" by code_simp+
  with bad show ?case
    using utf8_text_Cons [of 127 "force_to_utf8 s"] by (simp add: force_to_utf8_bad)
next
  case (good p w n)
  then show ?case
    by (simp add: force_to_utf8_good utf8_text_Cons utf8_head_SomeD(1))
qed simp

lemma force_to_utf8_length: "NUL \<notin> set s \<Longrightarrow> length (force_to_utf8 s) = length s"
proof (induction rule: force_to_utf8_induct)
  case (good p w n)
  have "length p = length (utf8_enc w) + length (drop n p)"
    using arg_cong [OF utf8_head_SomeD(3) [OF good(2)], of length] by (simp only: length_append)
  then show ?case
    by (simp only: force_to_utf8_good [OF good(1,2)] length_append good(3))
qed (simp_all add: force_to_utf8_bad)

lemma force_to_utf8_id: "NUL \<notin> set s \<Longrightarrow> utf8_text s \<Longrightarrow> force_to_utf8 s = s"
proof (induction rule: force_to_utf8_induct)
  case (bad c s)
  have "utf8_head (c # s) \<noteq> None"
    using bad(4) unfolding utf8_text_iff_head [of "c # s"] by blast
  with bad(2) show ?case by simp
next
  case (good p w n)
  have "p \<noteq> []" using good(2) by (auto simp: utf8_head_def)
  then have "utf8_text (drop n p)"
    using good(2,4) utf8_text_iff_head [of p] by auto
  then have "force_to_utf8 p = utf8_enc w @ drop n p"
    using good by (simp add: force_to_utf8_good)
  then show ?case
    using utf8_head_SomeD(3) [OF good(2)] by (rule trans [OF _ sym])
qed simp

lemma NUL_not_in_force_to_utf8: "NUL \<notin> set s \<Longrightarrow> NUL \<notin> set (force_to_utf8 s)"
proof (induction rule: force_to_utf8_induct)
  case (good p w n)
  have "set p = set (utf8_enc w) \<union> set (drop n p)"
    using arg_cong [OF utf8_head_SomeD(3) [OF good(2)], of set] by (simp only: set_append)
  then have "NUL \<notin> set (utf8_enc w)" using good(1) by blast
  with good show ?case by (simp add: force_to_utf8_good)
qed (simp_all add: force_to_utf8_bad)

section \<open>Forcing a string to be XML text\<close>

text \<open>
  A byte that starts no UTF-8 sequence has length 0 in the table, so the code never moves
  past it: that loop is the value \<open>None\<close>.
\<close>

partial_function (option) force_to_xml_chars :: "string \<Rightarrow> string option" where
  "force_to_xml_chars p =
     (case p of
        [] \<Rightarrow> Some []
      | c # s \<Rightarrow>
          let length = utf8SeqLength c;
              p' = (if length = 1
                    then if schar c < 0x20 \<and> c \<noteq> CR \<and> c \<noteq> LF \<and> c \<noteq> TAB then DEL # s else c # s
                    else c # s)
          in Option.bind (force_to_xml_chars (drop length p'))
               (\<lambda>t. Some (take length p' @ t)))"

lemma force_to_xml_chars_Nil [simp]: "force_to_xml_chars [] = Some []"
  by (subst force_to_xml_chars.simps) simp

text \<open>What an XML document may hold: no control character but tab, LF and CR.\<close>

definition xml_char :: "int \<Rightarrow> bool" where
  "xml_char w \<longleftrightarrow> ucs2_legal w \<and> (0x20 \<le> w \<or> w = 9 \<or> w = 10 \<or> w = 13)"

definition xml_text :: "string \<Rightarrow> bool" where
  "xml_text s \<longleftrightarrow> (\<exists>ws. list_all xml_char ws \<and> s = utf8_encs ws)"

definition to_xml_char :: "int \<Rightarrow> int" where
  "to_xml_char w = (if xml_char w then w else 127)"

lemma xml_char_to_xml_char: "xml_char (to_xml_char w)"
  by (simp add: to_xml_char_def xml_char_def ucs2_legal_def)

lemma utf8_enc_ascii: "w < 0x80 \<Longrightarrow> utf8_enc w = [chr w]"
  by (simp add: utf8_enc_def)

lemma to_xml_char_ascii: "0 \<le> w \<Longrightarrow> w < 0x80 \<Longrightarrow> to_xml_char w < 0x80"
  by (simp add: to_xml_char_def)

lemma to_xml_char_wide: "ucs2_legal w \<Longrightarrow> 0x80 \<le> w \<Longrightarrow> to_xml_char w = w"
  by (simp add: to_xml_char_def xml_char_def)

lemma chr_to_xml_char:
  assumes "0 \<le> w" "w < 0x80"
  shows "(if schar (chr w) < 0x20 \<and> chr w \<noteq> CR \<and> chr w \<noteq> LF \<and> chr w \<noteq> TAB then DEL else chr w)
       = chr (to_xml_char w)"
proof -
  have "w mod 256 = w" using assms by simp
  then show ?thesis
    using assms
    by (auto simp: to_xml_char_def xml_char_def ucs2_legal_def chr_eq_iff schar_def)
qed

lemma force_to_xml_chars_enc:
  assumes "ucs2_legal w"
  shows "force_to_xml_chars (utf8_enc w @ s) =
         Option.bind (force_to_xml_chars s) (\<lambda>t. Some (utf8_enc (to_xml_char w) @ t))"
proof (cases "w < 0x80")
  case True
  then have w: "0 \<le> w" "w < 0x80" using assms by (auto simp: ucs2_legal_def)
  then have "utf8SeqLength (chr w) = 1" by (simp add: utf8SeqLength_cases)
  then have "force_to_xml_chars (chr w # s) =
      Option.bind (force_to_xml_chars s) (\<lambda>t. Some (chr (to_xml_char w) # t))"
    using chr_to_xml_char [OF w]
    by (subst force_to_xml_chars.simps) (auto simp: Let_def)
  then show ?thesis
    using w by (simp add: utf8_enc_ascii to_xml_char_ascii)
next
  case False
  obtain c r where e: "utf8_enc w = c # r" by (cases "utf8_enc w") auto
  have "utf8_head (c # r @ s) = Some (w, length (utf8_enc w))"
    using utf8_head_enc [OF assms, of s] e by simp
  then have len: "utf8SeqLength c = length (utf8_enc w)"
    using utf8_head_length by metis
  have "length (utf8_enc w) \<noteq> 1" using False by (simp add: utf8_enc_def)
  then have "force_to_xml_chars (utf8_enc w @ s) =
      Option.bind (force_to_xml_chars s) (\<lambda>t. Some (utf8_enc w @ t))"
    by (subst force_to_xml_chars.simps) (simp add: e len Let_def)
  then show ?thesis
    using False assms by (simp add: to_xml_char_wide)
qed

lemma force_to_xml_chars_encs:
  "list_all ucs2_legal ws \<Longrightarrow>
   force_to_xml_chars (utf8_encs ws) = Some (utf8_encs (map to_xml_char ws))"
  by (induction ws) (simp_all add: force_to_xml_chars_enc)

lemma xml_text_utf8_text: "xml_text s \<Longrightarrow> utf8_text s"
  unfolding xml_text_def utf8_text_def
  by (metis (mono_tags, lifting) list.pred_mono_strong xml_char_def)

lemma utf8_encs_to_xml_length:
  "list_all ucs2_legal ws \<Longrightarrow> length (utf8_encs (map to_xml_char ws)) = length (utf8_encs ws)"
proof (induction ws)
  case (Cons w ws)
  then have "length (utf8_enc (to_xml_char w)) = length (utf8_enc w)"
    by (cases "w < 0x80")
      (auto simp: utf8_enc_ascii to_xml_char_ascii to_xml_char_wide ucs2_legal_def)
  with Cons show ?case by simp
qed simp

lemma force_to_xml_chars_text:
  assumes "utf8_text s"
  obtains t where "force_to_xml_chars s = Some t" "xml_text t" "length t = length s"
proof -
  obtain ws where ws: "list_all ucs2_legal ws" "s = utf8_encs ws"
    using assms by (auto simp: utf8_text_def)
  have "list_all xml_char (map to_xml_char ws)"
    by (simp add: list_all_iff xml_char_to_xml_char)
  then have "xml_text (utf8_encs (map to_xml_char ws))"
    unfolding xml_text_def by blast
  then show thesis
    using that ws by (simp add: force_to_xml_chars_encs utf8_encs_to_xml_length)
qed

lemma xml_char_fixed: "list_all xml_char ws \<Longrightarrow> map to_xml_char ws = ws"
  by (induction ws) (simp_all add: to_xml_char_def)

lemma force_to_xml_chars_id: "xml_text s \<Longrightarrow> force_to_xml_chars s = Some s"
proof -
  assume "xml_text s"
  then obtain ws where "list_all xml_char ws" "s = utf8_encs ws"
    by (auto simp: xml_text_def)
  then show ?thesis
    using force_to_xml_chars_encs [of ws] xml_char_fixed [of ws]
    by (metis (mono_tags, lifting) list.pred_mono_strong xml_char_def)
qed

text \<open>A byte that starts no sequence: the loop does not end.\<close>

lemma force_to_xml_chars_returns:
  "force_to_xml_chars p = Some t \<Longrightarrow> p \<noteq> [] \<longrightarrow> utf8SeqLength (peek p) \<noteq> 0"
proof (rule force_to_xml_chars.raw_induct [of "\<lambda>p t. p \<noteq> [] \<longrightarrow> utf8SeqLength (peek p) \<noteq> 0"])
  fix f and p :: string and t
  assume IH: "\<And>p t. f p = Some t \<Longrightarrow> p \<noteq> [] \<longrightarrow> utf8SeqLength (peek p) \<noteq> 0"
    and body: "(case p of [] \<Rightarrow> Some []
      | c # s \<Rightarrow>
          let length = utf8SeqLength c;
              p' = (if length = 1
                    then if schar c < 0x20 \<and> c \<noteq> CR \<and> c \<noteq> LF \<and> c \<noteq> TAB then DEL # s else c # s
                    else c # s)
          in Option.bind (f (drop length p')) (\<lambda>t. Some (take length p' @ t))) = Some t"
  show "p \<noteq> [] \<longrightarrow> utf8SeqLength (peek p) \<noteq> 0"
  proof (intro impI notI)
    assume "p \<noteq> []" and zero: "utf8SeqLength (peek p) = 0"
    then obtain c s where "p = c # s" by (cases p) auto
    with body zero obtain t' where "f p = Some t'"
      by (auto simp: Let_def split: bind_splits)
    with IH zero \<open>p \<noteq> []\<close> show False by blast
  qed
qed

lemma force_to_xml_chars_stuck: "utf8SeqLength c = 0 \<Longrightarrow> force_to_xml_chars (c # s) = None"
  using force_to_xml_chars_returns [of "c # s"] by (cases "force_to_xml_chars (c # s)") auto

end
