(* ===== verification/Text_Format.thy ===== *)
theory Text_Format
  imports Prelude
begin

text \<open>
  The parts of the C library's text functions the code uses: the conversions of its
  \<open>printf\<close> formats (\<open>%u\<close>, \<open>%d\<close>, \<open>%0<w>u\<close>, \<open>%0<w>x\<close> of an
  \<open>int\<close> argument, \<open>%s\<close>, \<open>%c\<close>) and \<open>strtol\<close>.
  A format with its arguments is a list of pieces, so that a message is written in the
  order its format string has it.
\<close>

section \<open>Printing\<close>

fun dec_digits :: "nat \<Rightarrow> string" where
  "dec_digits n =
     (if n < 10 then [digit_char n] else dec_digits (n div 10) @ [digit_char (n mod 10)])"

declare dec_digits.simps [simp del]

definition show_d :: "int \<Rightarrow> string" where
  "show_d i = (if i < 0 then CHR ''-'' # dec_digits (nat (- i)) else dec_digits (nat i))"

definition pad_u :: "nat \<Rightarrow> nat \<Rightarrow> string" where
  "pad_u w n = replicate (w - length (dec_digits n)) (CHR ''0'') @ dec_digits n"

definition hex_char :: "nat \<Rightarrow> char" where
  "hex_char d = (if d < 10 then digit_char d else chr (87 + int d))"

fun hex_digits :: "nat \<Rightarrow> string" where
  "hex_digits n =
     (if n < 16 then [hex_char n] else hex_digits (n div 16) @ [hex_char (n mod 16)])"

declare hex_digits.simps [simp del]

definition pad_x :: "nat \<Rightarrow> int \<Rightarrow> string" where
  "pad_x w i = (let ds = hex_digits (nat (i mod 2 ^ 32))
                in replicate (w - length ds) (CHR ''0'') @ ds)"

datatype piece = Txt string | PctU nat | PctD int | PctS string | PctC char | PctX nat int

fun piece_text :: "piece \<Rightarrow> string" where
  "piece_text (Txt s) = s"
| "piece_text (PctU n) = dec_digits n"
| "piece_text (PctD i) = show_d i"
| "piece_text (PctS s) = s"
| "piece_text (PctC c) = [c]"
| "piece_text (PctX w i) = pad_x w i"

definition vformat :: "piece list \<Rightarrow> string" where
  "vformat ps = concat (map piece_text ps)"

lemma dec_digits_small [simp]: "n < 10 \<Longrightarrow> dec_digits n = [digit_char n]"
  by (subst dec_digits.simps) simp

lemma dec_digits_step: "10 \<le> n \<Longrightarrow> dec_digits n = dec_digits (n div 10) @ [digit_char (n mod 10)]"
  by (subst dec_digits.simps) simp

lemma dec_digits_nonempty [simp]: "dec_digits n \<noteq> []"
  by (subst dec_digits.simps) simp

lemma isdigit_dec_digits: "c \<in> set (dec_digits n) \<Longrightarrow> isdigit c"
proof (induction n rule: dec_digits.induct)
  case (1 n)
  show ?case
  proof (cases "n < 10")
    case True
    with "1.prems" show ?thesis by simp
  next
    case False
    with "1.prems" have "c \<in> set (dec_digits (n div 10)) \<or> c = digit_char (n mod 10)"
      by (auto simp: dec_digits_step)
    then show ?thesis
    proof
      assume "c \<in> set (dec_digits (n div 10))"
      with "1.IH" False show ?thesis by blast
    qed simp
  qed
qed

lemma isdigit_peek_dec_digits [simp]: "isdigit (peek (dec_digits n @ t))"
  using isdigit_dec_digits [of "peek (dec_digits n @ t)" n] by (cases "dec_digits n") auto

lemma length_dec_digits_le:
  "n < 10 ^ k \<Longrightarrow> 0 < k \<Longrightarrow> length (dec_digits n) \<le> k"
proof (induction n arbitrary: k rule: dec_digits.induct)
  case (1 n)
  show ?case
  proof (cases "n < 10")
    case True
    with "1.prems" show ?thesis by simp
  next
    case False
    obtain k' where k: "k = Suc k'"
      using "1.prems" by (cases k) auto
    with False "1.prems" have "0 < k'"
      by (cases k') auto
    have "n div 10 < 10 ^ k'"
      using "1.prems" k by (simp add: less_mult_imp_div_less mult.commute)
    with "1.IH" False k \<open>0 < k'\<close> show ?thesis by (simp add: dec_digits_step)
  qed
qed

lemma length_pad_u: "n < 10 ^ w \<Longrightarrow> 0 < w \<Longrightarrow> length (pad_u w n) = w"
  using length_dec_digits_le [of n w] by (simp add: pad_u_def)

lemma zero_char: "CHR ''0'' = digit_char 0"
  by code_simp

 
lemma isdigit_pad_u: "c \<in> set (pad_u w n) \<Longrightarrow> isdigit c"
  using isdigit_dec_digits by (auto simp: pad_u_def zero_char)

section \<open>Reading numbers: strtol\<close>

fun scan_digits :: "nat \<Rightarrow> string \<Rightarrow> nat \<times> string" where
  "scan_digits acc [] = (acc, [])"
| "scan_digits acc (c # s) =
     (if isdigit c then scan_digits (10 * acc + digit_val c) s else (acc, c # s))"

text \<open>
  \<open>strtol lo hi str\<close> is \<open>strtol\<close> in base ten for a type of range \<open>lo\<dots>hi\<close>: whether it
  sets \<open>ERANGE\<close>, the value it returns and where its tail starts.
\<close>

definition strtol :: "int \<Rightarrow> int \<Rightarrow> string \<Rightarrow> bool \<times> int \<times> string" where
  "strtol lo hi str =
     (let s = dropWhile isspace str;
          neg = (peek s = CHR ''-'');
          s1 = (if peek s = CHR ''-'' \<or> peek s = CHR ''+'' then tl s else s)
      in if \<not> isdigit (peek s1) then (False, 0, str)
         else let (n, tail) = scan_digits 0 s1;
                  v = (if neg then - int n else int n)
              in if v < lo then (True, lo, tail)
                 else if hi < v then (True, hi, tail)
                 else (False, v, tail))"

lemma scan_digits_append:
  "list_all isdigit ds \<Longrightarrow> scan_digits acc (ds @ t) = scan_digits (fst (scan_digits acc ds)) t"
  by (induction ds arbitrary: acc) auto

lemma scan_digits_stop: "\<not> isdigit (peek t) \<Longrightarrow> scan_digits acc t = (acc, t)"
  by (cases t) auto

lemma scan_dec_digits:
  "fst (scan_digits acc (dec_digits n)) = acc * 10 ^ length (dec_digits n) + n"
proof (induction n arbitrary: acc rule: dec_digits.induct)
  case (1 n)
  show ?case
  proof (cases "n < 10")
    case True
    then show ?thesis by simp
  next
    case False
    have all: "list_all isdigit (dec_digits (n div 10))"
      using isdigit_dec_digits by (auto simp: list_all_iff)
    have "scan_digits acc (dec_digits n)
        = scan_digits (fst (scan_digits acc (dec_digits (n div 10)))) [digit_char (n mod 10)]"
      using False by (simp add: dec_digits_step scan_digits_append [OF all])
    also have "fst \<dots> = 10 * (acc * 10 ^ length (dec_digits (n div 10)) + n div 10) + n mod 10"
      using "1.IH" False by simp
    also have "\<dots> = acc * 10 ^ length (dec_digits n) + n"
      using False by (simp add: dec_digits_step algebra_simps)
    finally show ?thesis .
  qed
qed

lemma scan_digits_dec:
  "\<not> isdigit (peek t) \<Longrightarrow> scan_digits 0 (dec_digits n @ t) = (n, t)"
  using isdigit_dec_digits
  by (subst scan_digits_append) (auto simp: list_all_iff scan_dec_digits scan_digits_stop)

lemma scan_replicate_zero: "scan_digits 0 (replicate k (CHR ''0'') @ s) = scan_digits 0 s"
  by (induction k) (auto simp: zero_char)

lemma scan_digits_pad_u:
  "\<not> isdigit (peek t) \<Longrightarrow> scan_digits 0 (pad_u w n @ t) = (n, t)"
  by (simp add: pad_u_def scan_replicate_zero scan_digits_dec)

lemma scan_digits_all: "list_all isdigit ds \<Longrightarrow> scan_digits acc ds = (fst (scan_digits acc ds), [])"
  by (induction ds arbitrary: acc) auto

lemma scan_digits_bound: "list_all isdigit ds \<Longrightarrow> fst (scan_digits acc ds) < (acc + 1) * 10 ^ length ds"
proof (induction ds arbitrary: acc)
  case (Cons c ds)
  then have "fst (scan_digits (10 * acc + digit_val c) ds) < (10 * acc + digit_val c + 1) * 10 ^ length ds"
    by simp
  also have "\<dots> \<le> (10 * (acc + 1)) * 10 ^ length ds"
    using Cons.prems digit_val_less [of c] by (intro mult_le_mono1) simp
  finally show ?case using Cons.prems by (simp add: algebra_simps)
qed simp

lemma strtol_digit_string:
  assumes "ds \<noteq> []" "list_all isdigit ds" "\<not> isdigit (peek t)"
    "lo \<le> int (fst (scan_digits 0 ds))" "int (fst (scan_digits 0 ds)) \<le> hi"
  shows "strtol lo hi (ds @ t) = (False, int (fst (scan_digits 0 ds)), t)"
proof -
  obtain c s where c: "ds @ t = c # s" "isdigit c"
    using assms(1,2) by (cases ds) auto
  then have "\<not> isspace c" "c \<noteq> CHR ''-''" "c \<noteq> CHR ''+''"
    by (auto simp: isdigit_def isspace_def uchar_def)
  moreover have "scan_digits 0 (ds @ t) = (fst (scan_digits 0 ds), t)"
    using assms by (simp add: scan_digits_append scan_digits_stop)
  ultimately show ?thesis
    using assms c by (simp add: strtol_def Let_def del: scan_digits.simps)
qed

lemma strtol_digits:
  assumes "\<not> isdigit (peek t)" "lo \<le> int n" "int n \<le> hi"
  shows "strtol lo hi (dec_digits n @ t) = (False, int n, t)"
proof -
  have "list_all isdigit (dec_digits n)"
    using isdigit_dec_digits by (auto simp: list_all_iff)
  moreover have "fst (scan_digits 0 (dec_digits n)) = n" by (simp add: scan_dec_digits)
  ultimately show ?thesis
    using strtol_digit_string [of "dec_digits n" t lo hi] assms by simp
qed

lemma strtol_show_d:
  assumes "\<not> isdigit (peek t)" "lo \<le> i" "i \<le> hi"
  shows "strtol lo hi (show_d i @ t) = (False, i, t)"
proof (cases "i < 0")
  case True
  with assms show ?thesis
    by (simp add: show_d_def strtol_def isspace_def uchar_def scan_digits_dec Let_def)
next
  case False
  with assms show ?thesis
    using strtol_digits [of t lo "nat i" hi] by (simp add: show_d_def)
qed

lemma peek_show_d: "peek (show_d i @ t) = CHR ''-'' \<or> isdigit (peek (show_d i @ t))"
  by (simp add: show_d_def)

lemma show_d_nonempty [simp]: "show_d i \<noteq> []"
  by (simp add: show_d_def)

lemma NUL_not_in_show_d [simp]: "NUL \<notin> set (show_d i)"
  using isdigit_dec_digits [of NUL] by (auto simp: show_d_def)

end
