(* ===== verification/Env_Fault.thy ===== *)
theory Env_Fault
  imports Utf8 Text_Format
begin

text \<open>
  The error environment of \<open>lib/libutil/error.c\<close>: \<open>xmlrpc_env\<close> with its initialisation,
  cleaning and the ways to set a fault.  A function of the library that reports through an
  environment is modelled as a result \<open>Inl f\<close> or \<open>Inr x\<close>, where \<open>f\<close> is what
  \<open>xmlrpc_env_set_fault\<close> leaves in the environment.
\<close>

section \<open>Fault codes\<close>

abbreviation XMLRPC_INTERNAL_ERROR :: int where "XMLRPC_INTERNAL_ERROR \<equiv> -500"
abbreviation XMLRPC_TYPE_ERROR :: int where "XMLRPC_TYPE_ERROR \<equiv> -501"
abbreviation XMLRPC_INDEX_ERROR :: int where "XMLRPC_INDEX_ERROR \<equiv> -502"
abbreviation XMLRPC_PARSE_ERROR :: int where "XMLRPC_PARSE_ERROR \<equiv> -503"
abbreviation XMLRPC_NETWORK_ERROR :: int where "XMLRPC_NETWORK_ERROR \<equiv> -504"
abbreviation XMLRPC_TIMEOUT_ERROR :: int where "XMLRPC_TIMEOUT_ERROR \<equiv> -505"
abbreviation XMLRPC_NO_SUCH_METHOD_ERROR :: int where "XMLRPC_NO_SUCH_METHOD_ERROR \<equiv> -506"
abbreviation XMLRPC_REQUEST_REFUSED_ERROR :: int where "XMLRPC_REQUEST_REFUSED_ERROR \<equiv> -507"
abbreviation XMLRPC_INTROSPECTION_DISABLED_ERROR :: int where
  "XMLRPC_INTROSPECTION_DISABLED_ERROR \<equiv> -508"
abbreviation XMLRPC_LIMIT_EXCEEDED_ERROR :: int where "XMLRPC_LIMIT_EXCEEDED_ERROR \<equiv> -509"
abbreviation XMLRPC_INVALID_UTF8_ERROR :: int where "XMLRPC_INVALID_UTF8_ERROR \<equiv> -510"

section \<open>The environment\<close>

datatype fault_ptr = Null_Ptr | Bad_Ptr | Default_String | Malloced string

record xmlrpc_env =
  fault_occurred :: bool
  fault_code :: int
  fault_string :: fault_ptr

definition default_fault_string :: string where
  "default_fault_string = ''Not enough memory for error message''"

definition xmlrpc_env_init :: xmlrpc_env where
  "xmlrpc_env_init = \<lparr>fault_occurred = False, fault_code = 0, fault_string = Null_Ptr\<rparr>"

text \<open>\<open>free\<close> of the string is the loss of the \<open>Malloced\<close> pointer to it.  An
  environment that has been cleaned already fails the assertion (or, without assertions, has the
  bad pointer freed): \<open>None\<close>.\<close>

definition xmlrpc_env_clean :: "xmlrpc_env \<Rightarrow> xmlrpc_env option" where
  "xmlrpc_env_clean env =
     (if fault_string env = Bad_Ptr then None else Some (env\<lparr>fault_string := Bad_Ptr\<rparr>))"

definition fault_ptr_text :: "fault_ptr \<Rightarrow> string option" where
  "fault_ptr_text p =
     (case p of Null_Ptr \<Rightarrow> None | Bad_Ptr \<Rightarrow> None
      | Default_String \<Rightarrow> Some default_fault_string | Malloced s \<Rightarrow> Some s)"

text \<open>\<open>mem_ok\<close> says whether \<open>strdup\<close> finds memory.\<close>

definition sanitized :: "string \<Rightarrow> string" where
  "sanitized s = the (force_to_xml_chars (force_to_utf8 s))"

definition xmlrpc_env_set_fault ::
  "bool \<Rightarrow> int \<Rightarrow> string \<Rightarrow> xmlrpc_env \<Rightarrow> xmlrpc_env option" where
  "xmlrpc_env_set_fault mem_ok faultCode faultDescription env =
     (case xmlrpc_env_clean env of
        None \<Rightarrow> None
      | Some env1 \<Rightarrow>
          let env2 = env1\<lparr>fault_occurred := True, fault_code := faultCode\<rparr>
          in Some (if \<not> mem_ok then env2\<lparr>fault_string := Default_String\<rparr>
                   else env2\<lparr>fault_string := Malloced (sanitized (c_str faultDescription))\<rparr>))"

section \<open>Faults as results\<close>

datatype fault = Fault (code_of: int) (text_of: string)

type_synonym 'a result = "fault + 'a"

definition set_fault :: "int \<Rightarrow> string \<Rightarrow> fault" where
  "set_fault code description = Fault code (sanitized (c_str description))"

definition set_fault_formatted :: "int \<Rightarrow> piece list \<Rightarrow> fault" where
  "set_fault_formatted code ps = set_fault code (vformat ps)"

definition faultf :: "piece list \<Rightarrow> fault" where
  "faultf ps = set_fault_formatted XMLRPC_INTERNAL_ERROR ps"

lemma code_of_set_fault [simp]: "code_of (set_fault c s) = c"
  by (simp add: set_fault_def)

lemma code_of_set_fault_formatted [simp]: "code_of (set_fault_formatted c ps) = c"
  by (simp add: set_fault_formatted_def)

lemma code_of_faultf [simp]: "code_of (faultf ps) = XMLRPC_INTERNAL_ERROR"
  by (simp add: faultf_def)

lemma force_to_xml_chars_force:
  assumes "NUL \<notin> set s"
  shows "force_to_xml_chars (force_to_utf8 s) = Some (sanitized s)" "xml_text (sanitized s)"
    "length (sanitized s) = length s"
proof -
  obtain t where t: "force_to_xml_chars (force_to_utf8 s) = Some t" "xml_text t"
    "length t = length (force_to_utf8 s)"
    using force_to_xml_chars_text [OF force_to_utf8_text [OF assms]] by metis
  then show "force_to_xml_chars (force_to_utf8 s) = Some (sanitized s)" "xml_text (sanitized s)"
    "length (sanitized s) = length s"
    using force_to_utf8_length [OF assms] by (simp_all add: sanitized_def)
qed

lemma NUL_not_in_xml_text: "xml_text s \<Longrightarrow> NUL \<notin> set s"
proof -
  have "NUL \<notin> set (utf8_enc w)" if "xml_char w" for w
    using that
    by (auto simp: utf8_enc_def xml_char_def ucs2_legal_def uchar_eq_0 [symmetric]
        simp del: uchar_eq_0 dest!: arg_cong [where f = uchar])
  moreover assume "xml_text s"
  ultimately show ?thesis
    by (auto simp: xml_text_def utf8_encs_def list_all_iff)
qed

lemma xml_text_NUL_free_utf8:
  assumes "xml_text s"
  shows "sanitized s = s"
  using assms force_to_utf8_id [of s] xml_text_utf8_text NUL_not_in_xml_text
  by (simp add: sanitized_def force_to_xml_chars_id)

text \<open>Plain ASCII messages are left alone.\<close>

definition plain_char :: "char \<Rightarrow> bool" where
  "plain_char c \<longleftrightarrow> 32 \<le> uchar c \<and> uchar c < 128"

lemma plain_xml_text: "list_all plain_char s \<Longrightarrow> xml_text s"
proof -
  assume "list_all plain_char s"
  then have "list_all xml_char (map uchar s)" "utf8_encs (map uchar s) = s"
    by (induction s) (auto simp: plain_char_def xml_char_def ucs2_legal_def utf8_enc_ascii)
  then show ?thesis unfolding xml_text_def by metis
qed

section \<open>Properties\<close>

text \<open>C31: setting a fault fails only on an environment that has been cleaned already (the
  assertion on the bad pointer).  On every other one, whatever the text and whether or not there
  is memory for it, the environment then holds the code and a string that is well-formed UTF-8
  with no control characters that XML forbids: the description after both repair passes, which
  return and do not change its length, or without memory the default string.\<close>
theorem env_set_fault_text_is_xml:
  "case xmlrpc_env_set_fault mem_ok code description env of
     None \<Rightarrow> fault_string env = Bad_Ptr
   | Some env' \<Rightarrow>
       fault_string env \<noteq> Bad_Ptr \<and> fault_occurred env' \<and> fault_code env' = code \<and>
       (\<exists>t. fault_ptr_text (fault_string env') = Some t \<and> xml_text t \<and> utf8_text t \<and>
            (if mem_ok then force_to_xml_chars (force_to_utf8 (c_str description)) = Some t \<and>
                            length t = length (c_str description)
             else t = default_fault_string))"
proof (cases mem_ok)
  case True
  then show ?thesis
    using force_to_xml_chars_force [OF NUL_not_in_c_str [of description]] xml_text_utf8_text
    by (simp add: xmlrpc_env_set_fault_def xmlrpc_env_clean_def fault_ptr_text_def Let_def)
next
  case False
  have "xml_text default_fault_string"
    by (rule plain_xml_text) code_simp
  with False show ?thesis
    using xml_text_utf8_text
    by (simp add: xmlrpc_env_set_fault_def xmlrpc_env_clean_def fault_ptr_text_def Let_def)
qed

text \<open>\<open>xmlrpc_force_to_utf8\<close> turns any C string into UTF-8 text of the same length with no NUL
  in it, and leaves a string that already is UTF-8 text alone.\<close>
theorem force_to_utf8_repairs:
  assumes "NUL \<notin> set s"
  shows "utf8_text (force_to_utf8 s) \<and> length (force_to_utf8 s) = length s \<and>
         NUL \<notin> set (force_to_utf8 s) \<and> (utf8_text s \<longleftrightarrow> force_to_utf8 s = s)"
  using force_to_utf8_text [OF assms] force_to_utf8_length [OF assms]
    NUL_not_in_force_to_utf8 [OF assms] force_to_utf8_id [OF assms] by metis

lemma force_to_utf8_repairs_witness:
  "utf8_text (force_to_utf8 [CHR ''a'', CHR 0xE9]) \<and>
   length (force_to_utf8 [CHR ''a'', CHR 0xE9]) = length [CHR ''a'', CHR 0xE9] \<and>
   NUL \<notin> set (force_to_utf8 [CHR ''a'', CHR 0xE9]) \<and>
   (utf8_text [CHR ''a'', CHR 0xE9] \<longleftrightarrow> force_to_utf8 [CHR ''a'', CHR 0xE9] = [CHR ''a'', CHR 0xE9])"
  by (rule force_to_utf8_repairs) simp

end
