(* ===== verification/Textutil.thy ===== *)
theory Textutil
  imports Env_Fault
begin

text \<open>
  Text utilities of \<open>lib/libutil\<close>: escaping for messages (\<open>make_printable.c\<close>) and reading a
  64-bit integer (\<open>string_number.c\<close>).
\<close>

section \<open>make_printable.c\<close>

definition printable_char :: "char \<Rightarrow> string" where
  "printable_char c =
     (if c = CHR 0x5C then [CHR 0x5C, CHR 0x5C]
      else if c = LF then [CHR 0x5C, CHR ''n'']
      else if c = TAB then [CHR 0x5C, CHR ''t'']
      else if c = CHR 0x07 then [CHR 0x5C, CHR ''a'']
      else if c = CR then [CHR 0x5C, CHR ''r'']
      else if isprint c then [c]
      else CHR 0x5C # CHR ''x'' # take 2 (pad_x 2 (uchar c)))"

fun xmlrpc_makePrintable_lp :: "string \<Rightarrow> string" where
  "xmlrpc_makePrintable_lp [] = []"
| "xmlrpc_makePrintable_lp (c # s) = printable_char c @ xmlrpc_makePrintable_lp s"

definition xmlrpc_makePrintable :: "string \<Rightarrow> string" where
  "xmlrpc_makePrintable input = xmlrpc_makePrintable_lp (c_str input)"

definition xmlrpc_makePrintableChar :: "char \<Rightarrow> string" where
  "xmlrpc_makePrintableChar input =
     (if input = NUL then [CHR 0x5C, CHR ''0''] else xmlrpc_makePrintable [input])"

lemma printable_char_facts:
  "list_all isprint (printable_char c)" "length (printable_char c) \<le> 4" "printable_char c \<noteq> []"
proof -
  have "\<forall>c. list_all isprint (printable_char c) \<and> length (printable_char c) \<le> 4 \<and> printable_char c \<noteq> []"
    by code_simp
  then show "list_all isprint (printable_char c)" "length (printable_char c) \<le> 4"
    "printable_char c \<noteq> []"
    by blast+
qed

lemma makePrintable_isprint: "list_all isprint (xmlrpc_makePrintable_lp s)"
  by (induction s) (simp_all add: printable_char_facts)

lemma makePrintable_length: "length (xmlrpc_makePrintable_lp s) \<le> 4 * length s"
proof (induction s)
  case (Cons c s)
  then show ?case using printable_char_facts(2) [of c] by simp
qed simp

text \<open>Reading the escapes back: no two texts print alike.\<close>

definition unprintable :: "string \<Rightarrow> (char \<times> nat) option" where
  "unprintable s =
     (case s of [] \<Rightarrow> None
      | c # r \<Rightarrow> if c \<noteq> CHR 0x5C then Some (c, 1)
        else if peek r = CHR 0x5C then Some (CHR 0x5C, 2)
        else if peek r = CHR ''n'' then Some (LF, 2)
        else if peek r = CHR ''t'' then Some (TAB, 2)
        else if peek r = CHR ''a'' then Some (CHR 0x07, 2)
        else if peek r = CHR ''r'' then Some (CR, 2)
        else (let v = (\<lambda>c. if isdigit c then digit_val c else nat (uchar c - 87))
              in Some (chr (16 * int (v (peek (tl r))) + int (v (peek (tl (tl r))))), 4)))"

lemma unprintable_printable: "unprintable (printable_char c @ s) = Some (c, length (printable_char c))"
proof -
  have *: "\<forall>c. unprintable (take 4 (printable_char c @ [NUL, NUL, NUL])) = Some (c, length (printable_char c))"
    by code_simp
  have "unprintable (printable_char c @ s) = unprintable (take 4 (printable_char c @ [NUL, NUL, NUL]))"
  proof -
    have "length (printable_char c) = 1 \<and> peek (printable_char c) \<noteq> CHR 0x5C
        \<or> length (printable_char c) = 2 \<and> peek (printable_char c) = CHR 0x5C
             \<and> peek (tl (printable_char c)) \<in> set [CHR 0x5C, CHR ''n'', CHR ''t'', CHR ''a'', CHR ''r'']
        \<or> length (printable_char c) = 4"
    proof -
      have "\<forall>c. length (printable_char c) = 1 \<and> peek (printable_char c) \<noteq> CHR 0x5C
        \<or> length (printable_char c) = 2 \<and> peek (printable_char c) = CHR 0x5C
             \<and> peek (tl (printable_char c)) \<in> set [CHR 0x5C, CHR ''n'', CHR ''t'', CHR ''a'', CHR ''r'']
        \<or> length (printable_char c) = 4"
        by code_simp
      then show ?thesis by blast
    qed
    then show ?thesis
      by (auto simp: unprintable_def length_Suc_conv numeral_eq_Suc)
  qed
  with * show ?thesis by simp
qed

lemma makePrintable_inject:
  "xmlrpc_makePrintable_lp s = xmlrpc_makePrintable_lp t \<Longrightarrow> s = t"
proof (induction s arbitrary: t)
  case Nil
  then show ?case using printable_char_facts(3) by (cases t) auto
next
  case (Cons c s)
  then obtain d t' where t: "t = d # t'" using printable_char_facts(3) by (cases t) auto
  have eq: "printable_char c @ xmlrpc_makePrintable_lp s = printable_char d @ xmlrpc_makePrintable_lp t'"
    using Cons.prems t by simp
  then have "c = d"
    using unprintable_printable [of c "xmlrpc_makePrintable_lp s"]
      unprintable_printable [of d "xmlrpc_makePrintable_lp t'"] by simp
  with eq Cons.IH t show ?case by simp
qed

section \<open>string_number.c\<close>

abbreviation XMLRPC_INT64_MIN :: int where "XMLRPC_INT64_MIN \<equiv> - (2 ^ 63)"
abbreviation XMLRPC_INT64_MAX :: int where "XMLRPC_INT64_MAX \<equiv> 2 ^ 63 - 1"

text \<open>
  \<open>strtoll\<close> sets no other \<open>errno\<close> than \<open>ERANGE\<close> in base 10, so the second branch of the
  code is not taken.
\<close>

definition xmlrpc_parse_int64 :: "string \<Rightarrow> int result" where
  "xmlrpc_parse_int64 str =
     (let (erange, i64val, tail) = strtol XMLRPC_INT64_MIN XMLRPC_INT64_MAX str in
      if erange
      then Inl (faultf [Txt ''Number cannot be represented in 64 bits.  '',
                        Txt ''Must be in the range '', Txt ''['', PctD XMLRPC_INT64_MIN,
                        Txt '' - '', PctD XMLRPC_INT64_MAX, Txt '']''])
      else if peek tail \<noteq> NUL
      then Inl (faultf [Txt ''contains non-numerical junk: '', Txt [CHR 0x27], PctS tail,
                        Txt [CHR 0x27]])
      else Inr i64val)"

lemma strtol_range: "lo \<le> 0 \<Longrightarrow> 0 \<le> hi \<Longrightarrow> strtol lo hi s = (e, v, t) \<Longrightarrow> lo \<le> v \<and> v \<le> hi"
  by (auto simp: strtol_def Let_def split: if_splits prod.splits)

lemma parse_int64_show:
  assumes "XMLRPC_INT64_MIN \<le> i" "i \<le> XMLRPC_INT64_MAX"
  shows "xmlrpc_parse_int64 (show_d i) = Inr i"
  using strtol_show_d [of "[]", OF _ assms] by (simp add: xmlrpc_parse_int64_def)

lemma parse_int64_range:
  assumes "xmlrpc_parse_int64 s = Inr i"
  shows "XMLRPC_INT64_MIN \<le> i" "i \<le> XMLRPC_INT64_MAX"
proof -
  obtain e v t where st: "strtol XMLRPC_INT64_MIN XMLRPC_INT64_MAX s = (e, v, t)"
    by (cases "strtol XMLRPC_INT64_MIN XMLRPC_INT64_MAX s") auto
  then have "i = v" using assms by (simp add: xmlrpc_parse_int64_def split: if_splits)
  then show "XMLRPC_INT64_MIN \<le> i" "i \<le> XMLRPC_INT64_MAX"
    using strtol_range [OF _ _ st] by simp_all
qed

section \<open>Properties\<close>

text \<open>The escaped form of any byte string is printable, at most four times as long, which is
  the size of the buffer the code allocates, and no two byte strings have the same form.\<close>
theorem makePrintable_safe_and_injective:
  "list_all isprint (xmlrpc_makePrintable_lp s) \<and>
   length (xmlrpc_makePrintable_lp s) \<le> 4 * length s \<and>
   inj xmlrpc_makePrintable_lp"
  using makePrintable_isprint makePrintable_length makePrintable_inject
  by (simp add: inj_def)

text \<open>\<open>xmlrpc_parse_int64\<close> reads back every 64-bit integer from its decimal text, and what it
  returns always is a 64-bit integer.\<close>
theorem parse_int64_inverts_printing:
  "(XMLRPC_INT64_MIN \<le> i \<and> i \<le> XMLRPC_INT64_MAX \<longrightarrow> xmlrpc_parse_int64 (show_d i) = Inr i) \<and>
   (xmlrpc_parse_int64 s = Inr j \<longrightarrow> XMLRPC_INT64_MIN \<le> j \<and> j \<le> XMLRPC_INT64_MAX)"
  using parse_int64_show [of i] parse_int64_range [of s j] by blast

lemma parse_int64_inverts_printing_witness:
  "xmlrpc_parse_int64 (show_d XMLRPC_INT64_MIN) = Inr XMLRPC_INT64_MIN \<and>
   XMLRPC_INT64_MIN \<le> (-42::int) \<and> (-42::int) \<le> XMLRPC_INT64_MAX"
proof -
  have "xmlrpc_parse_int64 ''-42'' = Inr (-42)" by code_simp
  then show ?thesis
    using parse_int64_inverts_printing [of XMLRPC_INT64_MIN "''-42''" "-42"] by simp
qed

end
