(* ===== verification/Memblock.thy ===== *)
theory Memblock
  imports Env_Fault "HOL-Library.While_Combinator"
begin

text \<open>
  The growable memory blocks of \<open>lib/libutil/memblock.c\<close>.  A block of elements of
  \<open>sizeof(type) = u\<close> bytes keeps its \<open>_size\<close> and \<open>_allocated\<close> in bytes, as the code does, and its
  memory as cells: \<open>None\<close> is an element that was never written.  A freed block has no memory
  (\<open>XMLRPC_BAD_POINTER\<close>).  \<open>mok n\<close> says whether \<open>malloc(n)\<close> finds memory.
\<close>

section \<open>Blocks\<close>

abbreviation BLOCK_ALLOC_MIN :: nat where "BLOCK_ALLOC_MIN \<equiv> 16"
abbreviation BLOCK_ALLOC_MAX :: nat where "BLOCK_ALLOC_MAX \<equiv> 134217728"

record 'a mem_block =
  blk_size :: nat
  blk_allocated :: nat
  blk_cells :: "'a option list option"

definition SIZEOF_MEM_BLOCK :: nat where "SIZEOF_MEM_BLOCK = 24"

definition mem_block_init :: "(nat \<Rightarrow> bool) \<Rightarrow> nat \<Rightarrow> nat \<Rightarrow> 'a mem_block result" where
  "mem_block_init mok u n =
     (let size = u * n;
          allocated = (if size < BLOCK_ALLOC_MIN then BLOCK_ALLOC_MIN else size)
      in if mok allocated
         then Inr \<lparr>blk_size = size, blk_allocated = allocated,
                   blk_cells = Some (replicate (allocated div u) None)\<rparr>
         else Inl (faultf [Txt ''Can't allocate '', PctU (allocated mod 2 ^ 32),
                           Txt ''-byte memory block'']))"

definition mem_block_new :: "(nat \<Rightarrow> bool) \<Rightarrow> nat \<Rightarrow> nat \<Rightarrow> 'a mem_block result" where
  "mem_block_new mok u n =
     (if \<not> mok SIZEOF_MEM_BLOCK then Inl (faultf [Txt ''Can't allocate memory block''])
      else mem_block_init mok u n)"

definition mem_block_clean :: "'a mem_block \<Rightarrow> 'a mem_block" where
  "mem_block_clean b = b\<lparr>blk_cells := None\<rparr>"

definition mem_block_size :: "nat \<Rightarrow> 'a mem_block \<Rightarrow> nat" where
  "mem_block_size u b = blk_size b div u"

definition mem_block_contents :: "'a mem_block \<Rightarrow> 'a option list" where
  "mem_block_contents b = (case blk_cells b of None \<Rightarrow> [] | Some cells \<Rightarrow> cells)"

text \<open>
  The doubling loop.  It starts at \<open>_allocated\<close>, at least \<open>BLOCK_ALLOC_MIN\<close>; from 0 it would not
  end, which the guard on 0 cuts short (\<open>grow_alloc_loop\<close> relates it to the loop itself).
\<close>

function grow_alloc :: "nat \<Rightarrow> nat \<Rightarrow> nat" where
  "grow_alloc sz proposed =
     (if proposed < sz \<and> proposed \<le> BLOCK_ALLOC_MAX \<and> 0 < proposed
      then grow_alloc sz (proposed * 2) else proposed)"
  by pat_completeness auto
termination
  by (relation "measure (\<lambda>(sz, proposed). sz - proposed)") auto

declare grow_alloc.simps [simp del]

definition grow_alloc_while :: "nat \<Rightarrow> nat \<Rightarrow> nat option" where
  "grow_alloc_while sz =
     while_option (\<lambda>p. p < sz \<and> p \<le> BLOCK_ALLOC_MAX) (\<lambda>p. p * 2)"

definition mem_block_resize ::
    "(nat \<Rightarrow> bool) \<Rightarrow> nat \<Rightarrow> 'a mem_block \<Rightarrow> nat \<Rightarrow> 'a mem_block result" where
  "mem_block_resize mok u b n =
     (let sz = u * n in
      if sz \<le> blk_allocated b then Inr (b\<lparr>blk_size := sz\<rparr>)
      else
        let proposed_alloc = grow_alloc sz (blk_allocated b) in
        if BLOCK_ALLOC_MAX < proposed_alloc
        then Inl (set_fault XMLRPC_INTERNAL_ERROR ''Memory block too large'')
        else if \<not> mok proposed_alloc
        then Inl (set_fault XMLRPC_INTERNAL_ERROR ''Can't resize memory block'')
        else
          let old = take (blk_size b div u) (mem_block_contents b);
              new_block = replicate (proposed_alloc div u) None
          in Inr \<lparr>blk_size = sz, blk_allocated = proposed_alloc,
                  blk_cells = Some (old @ drop (length old) new_block)\<rparr>)"

definition write_cells :: "nat \<Rightarrow> 'a list \<Rightarrow> 'a option list \<Rightarrow> 'a option list" where
  "write_cells i xs cells = take i cells @ map Some xs @ drop (i + length xs) cells"

definition mem_block_append ::
    "(nat \<Rightarrow> bool) \<Rightarrow> nat \<Rightarrow> 'a mem_block \<Rightarrow> 'a list \<Rightarrow> 'a mem_block result" where
  "mem_block_append mok u b data =
     (let originalSize = blk_size b div u in
      bindE (mem_block_resize mok u b (originalSize + length data))
        (\<lambda>b'. Inr (b'\<lparr>blk_cells := Some (write_cells originalSize data (mem_block_contents b'))\<rparr>)))"

section \<open>The invariant\<close>

definition mem_block_wf :: "nat \<Rightarrow> 'a mem_block \<Rightarrow> bool" where
  "mem_block_wf u b \<longleftrightarrow>
     0 < u \<and> u dvd blk_size b \<and> blk_size b \<le> blk_allocated b \<and>
     BLOCK_ALLOC_MIN \<le> blk_allocated b \<and>
     (\<exists>cells. blk_cells b = Some cells \<and> length cells = blk_allocated b div u)"

definition block_cells :: "nat \<Rightarrow> 'a mem_block \<Rightarrow> 'a option list" where
  "block_cells u b = take (blk_size b div u) (mem_block_contents b)"

definition block_ready :: "nat \<Rightarrow> 'a mem_block \<Rightarrow> bool" where
  "block_ready u b \<longleftrightarrow> mem_block_wf u b \<and> None \<notin> set (block_cells u b)"

definition block_data :: "nat \<Rightarrow> 'a mem_block \<Rightarrow> 'a list" where
  "block_data u b = map the (block_cells u b)"

lemma grow_alloc_le: "proposed \<le> grow_alloc sz proposed"
  by (induction sz proposed rule: grow_alloc.induct) (subst grow_alloc.simps, auto)

lemma grow_alloc_enough:
  "0 < proposed \<Longrightarrow> grow_alloc sz proposed \<le> BLOCK_ALLOC_MAX \<Longrightarrow> sz \<le> grow_alloc sz proposed"
proof (induction sz proposed rule: grow_alloc.induct)
  case (1 sz proposed)
  then show ?case
    by (cases "proposed < sz \<and> proposed \<le> BLOCK_ALLOC_MAX")
      (simp_all add: grow_alloc.simps [of sz proposed] not_less not_le)
qed

lemma grow_alloc_bound:
  "grow_alloc sz proposed \<le> max proposed (2 * (sz - 1))"
proof (induction sz proposed rule: grow_alloc.induct)
  case (1 sz proposed)
  show ?case
  proof (cases "proposed < sz \<and> proposed \<le> BLOCK_ALLOC_MAX \<and> 0 < proposed")
    case True
    then have "grow_alloc sz proposed = grow_alloc sz (proposed * 2)"
      by (simp add: grow_alloc.simps [of sz proposed])
    also have "\<dots> \<le> max (proposed * 2) (2 * (sz - 1))"
      using 1 True by simp
    also have "\<dots> \<le> max proposed (2 * (sz - 1))"
      using True by (simp add: max_def; linarith)
    finally show ?thesis .
  next
    case False
    then have "grow_alloc sz proposed = proposed"
      by (subst grow_alloc.simps) auto
    then show ?thesis by simp
  qed
qed

lemma grow_alloc_loop: "0 < proposed \<Longrightarrow> grow_alloc_while sz proposed = Some (grow_alloc sz proposed)"
  unfolding grow_alloc_while_def
proof (induction sz proposed rule: grow_alloc.induct)
  case (1 sz proposed)
  then show ?case
    by (subst while_option_unfold, subst grow_alloc.simps) simp
qed

lemma grow_alloc_pow2:
  assumes "sz \<le> 2 ^ k" "k \<le> 27"
  shows "j \<le> k \<Longrightarrow> grow_alloc sz (2 ^ j) \<le> 2 ^ k"
proof (induction "k - j" arbitrary: j)
  case 0
  then have "sz \<le> 2 ^ j" using assms by simp
  then show ?case using 0 by (subst grow_alloc.simps) (simp add: not_less)
next
  case (Suc d)
  then have "grow_alloc sz (2 ^ Suc j) \<le> 2 ^ k"
    using Suc.hyps(1) [of "Suc j"] by linarith
  moreover have "(2::nat) ^ j \<le> 2 ^ k" using Suc.prems by simp
  ultimately show ?case by (subst grow_alloc.simps) (simp add: mult.commute [of _ 2])
qed

lemma grow_alloc_is_pow2: "\<exists>k. grow_alloc sz (2 ^ j) = 2 ^ k"
proof (induction sz "(2::nat) ^ j" arbitrary: j rule: grow_alloc.induct)
  case (1 sz)
  then show ?case
    by (subst grow_alloc.simps) (metis power_Suc2)
qed

lemma mem_block_init_wf:
  assumes "0 < u" "mem_block_init mok u n = Inr b"
  shows "mem_block_wf u b" "blk_size b = u * n"
  using assms by (auto simp: mem_block_init_def mem_block_wf_def Let_def split: if_splits)

lemma mem_block_new_wf:
  assumes "0 < u" "mem_block_new mok u n = Inr b"
  shows "mem_block_wf u b" "blk_size b = u * n"
  using assms mem_block_init_wf by (auto simp: mem_block_new_def split: if_splits)

lemma mem_block_new_ok:
  assumes "0 < u" "mok SIZEOF_MEM_BLOCK" "mok (max BLOCK_ALLOC_MIN (u * n))"
  shows "\<exists>b :: 'a mem_block. mem_block_new mok u n = Inr b \<and> mem_block_wf u b \<and> blk_size b = u * n"
proof -
  have "mok (if u * n < BLOCK_ALLOC_MIN then BLOCK_ALLOC_MIN else u * n)"
    using assms(3) by (simp add: max_def split: if_splits)
  then obtain b :: "'a mem_block" where "mem_block_new mok u n = Inr b"
    using assms(2) by (simp add: mem_block_new_def mem_block_init_def Let_def)
  then show ?thesis
    using mem_block_new_wf [OF assms(1)] by blast
qed

lemma mem_block_init_empty:
  "0 < u \<Longrightarrow> mok BLOCK_ALLOC_MIN \<Longrightarrow>
   \<exists>b. mem_block_init mok u 0 = Inr b \<and> block_ready u b \<and> block_data u b = [] \<and> blk_allocated b = 2 ^ 4"
  by (simp add: mem_block_init_def block_ready_def mem_block_wf_def block_data_def block_cells_def
      mem_block_contents_def)

lemma mem_block_resize_wf:
  assumes "mem_block_wf u b" "mem_block_resize mok u b n = Inr b'"
  shows "mem_block_wf u b'" and "blk_size b' = u * n"
    and "take (min n (blk_size b div u)) (mem_block_contents b')
         = take (min n (blk_size b div u)) (mem_block_contents b)"
proof -
  obtain cells where cells: "blk_cells b = Some cells" "length cells = blk_allocated b div u"
    and u: "0 < u" "blk_size b \<le> blk_allocated b" "BLOCK_ALLOC_MIN \<le> blk_allocated b" "u dvd blk_size b"
    using assms(1) by (auto simp: mem_block_wf_def)
  have old: "blk_size b div u \<le> blk_allocated b div u"
    using u by (simp add: div_le_mono)
  have "mem_block_wf u b' \<and> blk_size b' = u * n \<and>
    take (min n (blk_size b div u)) (mem_block_contents b')
     = take (min n (blk_size b div u)) (mem_block_contents b)"
  proof (cases "u * n \<le> blk_allocated b")
    case True
    then have "b' = b\<lparr>blk_size := u * n\<rparr>"
      using assms(2) by (simp add: mem_block_resize_def Let_def)
    then show ?thesis
      using True cells u by (simp_all add: mem_block_wf_def mem_block_contents_def)
  next
    case False
    let ?p = "grow_alloc (u * n) (blk_allocated b)"
    let ?old = "take (blk_size b div u) cells"
    have p: "?p \<le> BLOCK_ALLOC_MAX" "b' = \<lparr>blk_size = u * n, blk_allocated = ?p,
        blk_cells = Some (?old @ drop (length ?old) (replicate (?p div u) None))\<rparr>"
      using assms(2) False cells
      by (auto simp: mem_block_resize_def mem_block_contents_def Let_def split: if_splits)
    have "blk_allocated b \<le> ?p" by (rule grow_alloc_le)
    then have "blk_allocated b div u \<le> ?p div u" by (rule div_le_mono)
    moreover have "u * n \<le> ?p"
      using grow_alloc_enough p(1) u(3) by simp
    ultimately show ?thesis
      using p(2) cells u old \<open>blk_allocated b \<le> ?p\<close>
      by (simp add: mem_block_wf_def mem_block_contents_def min_def)
  qed
  then show "mem_block_wf u b'" "blk_size b' = u * n"
    "take (min n (blk_size b div u)) (mem_block_contents b')
     = take (min n (blk_size b div u)) (mem_block_contents b)"
    by blast+
qed

lemma length_mem_block_contents:
  "mem_block_wf u b \<Longrightarrow> length (mem_block_contents b) = blk_allocated b div u"
  by (auto simp: mem_block_wf_def mem_block_contents_def)

lemma take_write_cells:
  "i + length xs \<le> length cells \<Longrightarrow>
   take (i + length xs) (write_cells i xs cells) = take i cells @ map Some xs"
  by (simp add: write_cells_def)

lemma mem_block_append_wf:
  assumes "mem_block_wf u b" "mem_block_append mok u b xs = Inr b'"
  shows "mem_block_wf u b'" and "block_cells u b' = block_cells u b @ map Some xs"
proof -
  let ?n = "blk_size b div u"
  obtain b1 where b1: "mem_block_resize mok u b (?n + length xs) = Inr b1"
    and b': "b' = b1\<lparr>blk_cells := Some (write_cells ?n xs (mem_block_contents b1))\<rparr>"
    using assms(2) by (auto simp: mem_block_append_def Let_def bindE_Inr_conv)
  note wf = mem_block_resize_wf [OF assms(1) b1]
  have u: "0 < u" using assms(1) by (simp add: mem_block_wf_def)
  have len: "?n + length xs \<le> length (mem_block_contents b1)"
  proof -
    have "?n + length xs = blk_size b1 div u" using wf(2) u by simp
    also have "\<dots> \<le> blk_allocated b1 div u"
      using wf(1) by (intro div_le_mono) (simp add: mem_block_wf_def)
    finally show ?thesis using length_mem_block_contents [OF wf(1)] by simp
  qed
  then have "length (write_cells ?n xs (mem_block_contents b1)) = length (mem_block_contents b1)"
    by (simp add: write_cells_def)
  then show "mem_block_wf u b'"
    using wf(1) length_mem_block_contents [OF wf(1)] by (simp add: b' mem_block_wf_def)
  have "take ?n (mem_block_contents b1) = take ?n (mem_block_contents b)"
    using wf(3) by simp
  then show "block_cells u b' = block_cells u b @ map Some xs"
    using take_write_cells [OF len] u wf(2)
    by (simp add: b' block_cells_def mem_block_contents_def [of "b1\<lparr>blk_cells := _\<rparr>"])
qed

lemma mem_block_append_data:
  assumes "block_ready u b" "mem_block_append mok u b xs = Inr b'"
  shows "block_ready u b'" "block_data u b' = block_data u b @ xs"
  using assms mem_block_append_wf [of u b mok xs b']
  by (auto simp: block_ready_def block_data_def comp_def)

lemma length_block_data:
  assumes "mem_block_wf u b"
  shows "length (block_data u b) = blk_size b div u"
proof -
  have "blk_size b div u \<le> blk_allocated b div u"
    using assms by (intro div_le_mono) (simp add: mem_block_wf_def)
  then show ?thesis
    using length_mem_block_contents [OF assms] by (simp add: block_data_def block_cells_def)
qed

text \<open>
  Blocks that began empty hold a power of two, so the doubling reaches the limit exactly:
  an append succeeds whenever the result fits \<open>BLOCK_ALLOC_MAX\<close> bytes and memory is there.
\<close>

definition grown_block :: "nat \<Rightarrow> 'a mem_block \<Rightarrow> bool" where
  "grown_block u b \<longleftrightarrow> block_ready u b \<and> (\<exists>k. 4 \<le> k \<and> k \<le> 27 \<and> blk_allocated b = 2 ^ k)"

lemma pow2_between:
  fixes j k :: nat
  assumes "(2::nat) ^ k \<le> 2 ^ j" "(2::nat) ^ j \<le> BLOCK_ALLOC_MAX"
  shows "k \<le> j" "j \<le> 27"
proof -
  show "k \<le> j" using assms(1) by simp
  have "(2::nat) ^ j \<le> 2 ^ 27" using assms(2) by simp
  then show "j \<le> 27" by (rule power_le_imp_le_exp [rotated]) simp
qed

lemma mem_block_resize_grown:
  assumes "grown_block u b" "mem_block_resize mok u b n = Inr b'"
  shows "\<exists>k. 4 \<le> k \<and> k \<le> 27 \<and> blk_allocated b' = 2 ^ k"
proof -
  obtain k where k: "4 \<le> k" "k \<le> 27" "blk_allocated b = 2 ^ k"
    using assms(1) by (auto simp: grown_block_def)
  show ?thesis
  proof (cases "u * n \<le> blk_allocated b")
    case True
    with k assms(2) show ?thesis by (auto simp: mem_block_resize_def Let_def)
  next
    case False
    let ?p = "grow_alloc (u * n) (2 ^ k)"
    have "?p \<le> BLOCK_ALLOC_MAX" and b': "blk_allocated b' = ?p"
      using assms(2) False k by (auto simp: mem_block_resize_def Let_def split: if_splits)
    moreover obtain j where j: "?p = 2 ^ j" using grow_alloc_is_pow2 by blast
    ultimately show ?thesis
      using pow2_between [of k j] grow_alloc_le [of "2 ^ k" "u * n"] k(1) by auto
  qed
qed

lemma mem_block_resize_ok:
  assumes "grown_block u b" "u * n \<le> BLOCK_ALLOC_MAX" "\<forall>k. mok (2 ^ k)"
  shows "\<exists>b'. mem_block_resize mok u b n = Inr b'"
proof -
  obtain k where k: "k \<le> 27" "blk_allocated b = 2 ^ k"
    using assms(1) by (auto simp: grown_block_def)
  have "grow_alloc (u * n) (2 ^ k) \<le> 2 ^ 27"
    using k(1) assms(2) by (intro grow_alloc_pow2) simp_all
  then have "grow_alloc (u * n) (2 ^ k) \<le> BLOCK_ALLOC_MAX" by simp
  moreover obtain j where "grow_alloc (u * n) (2 ^ k) = 2 ^ j"
    using grow_alloc_is_pow2 by blast
  ultimately show ?thesis
    using k assms(3) by (simp add: mem_block_resize_def Let_def)
qed

lemma mem_block_append_grown:
  assumes "grown_block u b" "mem_block_append mok u b xs = Inr b'"
  shows "grown_block u b'" "block_data u b' = block_data u b @ xs"
proof -
  have ready: "block_ready u b" using assms(1) by (simp add: grown_block_def)
  obtain b1 where "mem_block_resize mok u b (blk_size b div u + length xs) = Inr b1"
    "blk_allocated b' = blk_allocated b1"
    using assms(2) by (auto simp: mem_block_append_def Let_def bindE_Inr_conv)
  then show "grown_block u b'" "block_data u b' = block_data u b @ xs"
    using mem_block_append_data [OF ready assms(2)] mem_block_resize_grown [OF assms(1)]
    by (auto simp: grown_block_def)
qed

lemma mem_block_append_ok:
  assumes "grown_block u b" "u * (length (block_data u b) + length xs) \<le> BLOCK_ALLOC_MAX"
    and "\<forall>k. mok (2 ^ k)"
  shows "\<exists>b'. mem_block_append mok u b xs = Inr b'"
proof -
  have "length (block_data u b) = blk_size b div u"
    using assms(1) by (simp add: grown_block_def block_ready_def length_block_data)
  then show ?thesis
    using mem_block_resize_ok [OF assms(1) _ assms(3)] assms(2)
    by (fastforce simp: mem_block_append_def Let_def)
qed

text \<open>A block filled from its start and cut to a part of what was written.\<close>

lemma fill_and_resize:
  assumes "mem_block_wf u b" "length xs \<le> blk_size b div u" "n \<le> length xs"
  shows "\<exists>b'. mem_block_resize mok u
      (b\<lparr>blk_cells := Some (write_cells 0 xs (mem_block_contents b))\<rparr>) n = Inr b' \<and>
    block_ready u b' \<and> block_data u b' = take n xs"
proof -
  let ?cells = "write_cells 0 xs (mem_block_contents b)"
  let ?b = "b\<lparr>blk_cells := Some ?cells\<rparr>"
  let ?b' = "?b\<lparr>blk_size := u * n\<rparr>"
  have u: "0 < u" using assms(1) by (simp add: mem_block_wf_def)
  have len: "length (mem_block_contents b) = blk_allocated b div u"
    using assms(1) by (rule length_mem_block_contents)
  have "blk_size b div u \<le> blk_allocated b div u"
    using assms(1) by (intro div_le_mono) (simp add: mem_block_wf_def)
  with assms(2) have short: "length xs \<le> blk_allocated b div u" by simp
  with assms(3) have "u * n \<le> blk_allocated b"
    using u by (metis dual_order.trans mult_le_mono2 times_div_less_eq_dividend)
  then have resize: "mem_block_resize mok u ?b n = Inr ?b'"
    by (simp add: mem_block_resize_def Let_def)
  have cells: "block_cells u ?b' = map Some (take n xs)"
    using u assms(3) by (simp add: block_cells_def mem_block_contents_def write_cells_def take_map)
  have "mem_block_wf u ?b'"
    using assms(1) u short len \<open>u * n \<le> blk_allocated b\<close>
    by (simp add: mem_block_wf_def write_cells_def)
  then have "block_ready u ?b'"
    unfolding block_ready_def cells by auto
  moreover have "block_data u ?b' = take n xs"
    unfolding block_data_def cells by (simp add: comp_def)
  ultimately show ?thesis using resize by blast
qed

section \<open>The contract of an output buffer\<close>

text \<open>
  What a writer of text relies on: an append adds its text at the end or leaves a fault, and
  never faults while the text fits.
\<close>

locale out_buffer =
  fixes append :: "'b \<Rightarrow> 'a list \<Rightarrow> 'e + 'b"
    and contents :: "'b \<Rightarrow> 'a list"
    and good :: "'b \<Rightarrow> bool"
  assumes append_good: "good b \<Longrightarrow> append b xs = Inr b' \<Longrightarrow> good b'"
    and append_contents: "good b \<Longrightarrow> append b xs = Inr b' \<Longrightarrow> contents b' = contents b @ xs"
begin

fun append_all :: "'b \<Rightarrow> 'a list list \<Rightarrow> 'e + 'b" where
  "append_all b [] = Inr b"
| "append_all b (xs # xss) = bindE (append b xs) (\<lambda>b'. append_all b' xss)"

lemma append_all_contents:
  "good b \<Longrightarrow> append_all b xss = Inr b' \<Longrightarrow> good b' \<and> contents b' = contents b @ concat xss"
proof (induction xss arbitrary: b)
  case (Cons xs xss)
  then obtain b1 where b1: "append b xs = Inr b1" "append_all b1 xss = Inr b'"
    by (auto simp: bindE_Inr_conv)
  with Cons show ?case
    using append_good [of b xs b1] append_contents [of b xs b1] by simp
qed simp

lemma append_all_append:
  "append_all b (xss @ yss) = bindE (append_all b xss) (\<lambda>b'. append_all b' yss)"
  by (induction xss arbitrary: b) (simp_all add: bindE_assoc)

end

locale roomy_buffer = out_buffer append contents good
  for append :: "'b \<Rightarrow> 'a list \<Rightarrow> 'e + 'b"
    and contents :: "'b \<Rightarrow> 'a list"
    and good :: "'b \<Rightarrow> bool" +
  fixes capacity :: nat
  assumes append_fits: "good b \<Longrightarrow> length (contents b) + length xs \<le> capacity
                        \<Longrightarrow> \<exists>b'. append b xs = Inr b'"
begin

lemma append_all_fits:
  "good b \<Longrightarrow> length (contents b) + length (concat xss) \<le> capacity \<Longrightarrow> \<exists>b'. append_all b xss = Inr b'"
proof (induction xss arbitrary: b)
  case (Cons xs xss)
  then obtain b1 where b1: "append b xs = Inr b1"
    using append_fits [of b xs] by auto
  then have "good b1" "contents b1 = contents b @ xs"
    using Cons.prems(1) append_good append_contents by blast+
  with b1 Cons show ?case by simp
qed simp

end

text \<open>
  The blocks of characters satisfy the contract whatever memory there is; with memory at hand they
  have room up to the limit of a block.
\<close>

definition always :: "nat \<Rightarrow> bool" where
  "always n = True"

interpretation memblock_buffer: out_buffer
  "mem_block_append mok 1" "block_data 1" "grown_block 1" for mok
  by unfold_locales (auto simp: mem_block_append_grown)

interpretation memblock_roomy: roomy_buffer
  "mem_block_append always 1" "block_data 1" "grown_block 1" BLOCK_ALLOC_MAX
  by unfold_locales (auto simp: always_def intro: mem_block_append_ok)

lemma mem_block_new_empty:
  assumes "mem_block_new mok 1 0 = Inr b"
  shows "grown_block 1 b" "block_data 1 b = []"
proof -
  have wf: "mem_block_wf 1 b" "blk_size b = 0"
    using mem_block_new_wf [OF _ assms] by simp_all
  moreover have "blk_allocated b = 2 ^ 4"
    using assms by (auto simp: mem_block_new_def mem_block_init_def split: if_splits)
  ultimately show "grown_block 1 b" "block_data 1 b = []"
    by (auto simp: grown_block_def block_ready_def block_data_def block_cells_def intro!: exI [of _ 4])
qed

section \<open>Faults for lack of memory\<close>

text \<open>
  A memory fault is one that the data did not cause.  \<open>agrees r r0\<close>: with the memory there is, the
  result is that of unlimited memory, or a memory fault.
\<close>

definition memory_fault :: "fault \<Rightarrow> bool" where
  "memory_fault f \<longleftrightarrow> code_of f = XMLRPC_INTERNAL_ERROR"

definition agrees :: "'a result \<Rightarrow> 'a result \<Rightarrow> bool" where
  "agrees r r0 \<longleftrightarrow> r = r0 \<or> (\<exists>f. r = Inl f \<and> memory_fault f)"

lemma agrees_refl [simp, intro]: "agrees r r"
  by (simp add: agrees_def)

lemma agrees_faultf [intro]: "agrees (Inl (faultf ps)) r"
  by (simp add: agrees_def memory_fault_def)

lemma agrees_bind:
  "agrees m m0 \<Longrightarrow> (\<And>x. m0 = Inr x \<Longrightarrow> agrees (k x) (k0 x)) \<Longrightarrow> agrees (bindE m k) (bindE m0 k0)"
  by (cases m0) (auto simp: agrees_def)

lemma agrees_init: "agrees (mem_block_init mok u n) (mem_block_init always u n)"
  by (auto simp: mem_block_init_def always_def Let_def)

lemma agrees_new: "agrees (mem_block_new mok u n) (mem_block_new always u n)"
  using agrees_init [of mok u n] by (auto simp: mem_block_new_def always_def)

lemma agrees_resize: "agrees (mem_block_resize mok u b n) (mem_block_resize always u b n)"
  by (auto simp: mem_block_resize_def always_def Let_def agrees_def memory_fault_def)

lemma append_fault_memory: "mem_block_append mok u b xs = Inl f \<Longrightarrow> memory_fault f"
  by (auto simp: mem_block_append_def mem_block_resize_def Let_def memory_fault_def split: if_splits)

section \<open>Properties\<close>

text \<open>C23: an append to a well-formed block leaves it well-formed, keeps every byte that was in it
  and adds the new bytes at the end; if it faults instead, the cause is the limit of 128 MB or
  \<open>malloc\<close>, with the code \<open>XMLRPC_INTERNAL_ERROR\<close>.\<close>
theorem mem_block_append_correct:
  assumes "mem_block_wf u b"
  shows "(\<exists>b'. mem_block_append mok u b xs = Inr b' \<and> mem_block_wf u b' \<and>
            block_cells u b' = block_cells u b @ map Some xs) \<or>
         (\<exists>f n. mem_block_append mok u b xs = Inl f \<and> code_of f = XMLRPC_INTERNAL_ERROR \<and>
            n = grow_alloc (u * (blk_size b div u + length xs)) (blk_allocated b) \<and>
            (BLOCK_ALLOC_MAX < n \<or> \<not> mok n))"
proof (cases "mem_block_append mok u b xs")
  case (Inr b')
  then show ?thesis using mem_block_append_wf [OF assms] by blast
next
  case (Inl f)
  then show ?thesis
    by (auto simp: mem_block_append_def mem_block_resize_def bindE_Inl_conv Let_def split: if_splits)
qed

definition empty_block :: "char mem_block" where
  "empty_block = \<lparr>blk_size = 0, blk_allocated = 16, blk_cells = Some (replicate 16 None)\<rparr>"

lemma mem_block_append_correct_witness:
  "(\<exists>b'. mem_block_append always 1 empty_block ''abc'' = Inr b' \<and> mem_block_wf 1 b' \<and>
        block_cells 1 b' = block_cells 1 empty_block @ map Some ''abc'') \<or>
   (\<exists>f n. mem_block_append always 1 empty_block ''abc'' = Inl f \<and> code_of f = XMLRPC_INTERNAL_ERROR \<and>
        n = grow_alloc (1 * (blk_size empty_block div 1 + length ''abc'')) (blk_allocated empty_block) \<and>
        (BLOCK_ALLOC_MAX < n \<or> \<not> always n))"
  by (rule mem_block_append_correct) (simp add: mem_block_wf_def empty_block_def)

text \<open>The doubling loop of \<open>xmlrpc_mem_block_resize\<close> ends from every allocation a block can
  have, and it at most doubles what is needed.\<close>
theorem grow_loop_terminates:
  assumes "BLOCK_ALLOC_MIN \<le> allocated"
  shows "\<exists>p. grow_alloc_while sz allocated = Some p \<and> p = grow_alloc sz allocated \<and>
             allocated \<le> p \<and> p \<le> max allocated (2 * (sz - 1)) \<and> (sz \<le> p \<or> BLOCK_ALLOC_MAX < p)"
proof -
  have "0 < allocated" using assms by simp
  then show ?thesis
    using grow_alloc_loop grow_alloc_le grow_alloc_bound grow_alloc_enough
    by (metis not_le)
qed

lemma grow_loop_terminates_witness:
  "\<exists>p. grow_alloc_while 1000 16 = Some p \<and> p = grow_alloc 1000 16 \<and>
       16 \<le> p \<and> p \<le> max 16 (2 * (1000 - 1)) \<and> (1000 \<le> p \<or> BLOCK_ALLOC_MAX < p)"
  by (rule grow_loop_terminates) simp

end
