(* ===== verification/Method.thy ===== *)
theory Method
  imports Memblock
begin

text \<open>
  The method objects of a server's registry (\<open>src/method.c\<close>): the signature strings that say how a
  method may be called, method descriptors and the list of methods by name.  \<open>None\<close> is a use of a
  null pointer.  The function a method runs is of a type of its own, \<open>'f\<close>; releasing a descriptor
  has no effect that the model can see.
\<close>

section \<open>Signatures\<close>

record xmlrpc_signature =
  retType :: string
  argList :: "string list"

abbreviation SIZEOF_SIGNATURE :: nat where "SIZEOF_SIGNATURE \<equiv> 32"
abbreviation SIZEOF_SIGNATURE_LIST :: nat where "SIZEOF_SIGNATURE_LIST \<equiv> 8"
abbreviation SIZEOF_METHOD_INFO :: nat where "SIZEOF_METHOD_INFO \<equiv> 48"
abbreviation SIZEOF_METHOD_NODE :: nat where "SIZEOF_METHOD_NODE \<equiv> 24"
abbreviation SIZEOF_METHOD_LIST :: nat where "SIZEOF_METHOD_LIST \<equiv> 16"

definition translateTypeSpecifierToName :: "char \<Rightarrow> string result" where
  "translateTypeSpecifierToName typeSpecifier =
     (if typeSpecifier = CHR ''i'' then Inr ''int''
      else if typeSpecifier = CHR ''b'' then Inr ''boolean''
      else if typeSpecifier = CHR ''d'' then Inr ''double''
      else if typeSpecifier = CHR ''s'' then Inr ''string''
      else if typeSpecifier = CHR ''8'' then Inr ''dateTime.iso8601''
      else if typeSpecifier = CHR ''6'' then Inr ''base64''
      else if typeSpecifier = CHR ''S'' then Inr ''struct''
      else if typeSpecifier = CHR ''A'' then Inr ''array''
      else if typeSpecifier = CHR ''n'' then Inr ''nil''
      else if typeSpecifier = CHR ''I'' then Inr ''i8''
      else Inl (faultf [Txt ''Method registry contains invalid signature '',
                        Txt ''data.  It contains the type specifier '', Txt [CHR 0x27],
                        PctC typeSpecifier, Txt [CHR 0x27]]))"

text \<open>
  \<open>argListSpace\<close> is never raised from 0, so the argument list is reallocated for each argument.
  When there is no memory for it the new type is stored through the null pointer all the same.
\<close>

definition makeRoomInArgList :: "(nat \<Rightarrow> bool) \<Rightarrow> nat \<Rightarrow> unit result" where
  "makeRoomInArgList mok minArgCount =
     (if mok (8 * minArgCount) then Inr ()
      else Inl (faultf [Txt ''Couldn'', Txt [CHR 0x27], Txt ''t get memory for a argument list for '',
                        Txt ''a method signature with '', PctU minArgCount, Txt '' arguments'']))"

fun argument_types :: "(nat \<Rightarrow> bool) \<Rightarrow> string list \<Rightarrow> string \<Rightarrow> (string list \<times> string) result option" where
  "argument_types mok args [] = Some (Inr (args, []))"
| "argument_types mok args (c # s) =
     (if c = CHR '','' then Some (Inr (args, c # s))
      else case translateTypeSpecifierToName c of
             Inl f \<Rightarrow> Some (Inl f)
           | Inr typeName \<Rightarrow>
               (case makeRoomInArgList mok (length args + 1) of
                  Inl f \<Rightarrow> None
                | Inr _ \<Rightarrow> argument_types mok (args @ [typeName]) s))"

definition parseArgumentTypeSpecifiers ::
    "(nat \<Rightarrow> bool) \<Rightarrow> string \<Rightarrow> (string list \<times> string) result option" where
  "parseArgumentTypeSpecifiers mok startP =
     (case argument_types mok [] startP of
        Some (Inr (args, cursorP)) \<Rightarrow> Some (Inr (args, if cursorP = [] then [] else tl cursorP))
      | r \<Rightarrow> r)"

text \<open>
  A bad type of the result does not stop the parsing at once: when the colon is missing too, that
  is what is reported.  The strings are C strings, without the NUL.
\<close>

definition parseOneSignature ::
    "(nat \<Rightarrow> bool) \<Rightarrow> string \<Rightarrow> (xmlrpc_signature \<times> string) result option" where
  "parseOneSignature mok startP =
     (if \<not> mok SIZEOF_SIGNATURE
      then Some (Inl (faultf [Txt ''Couldn'', Txt [CHR 0x27], Txt ''t get memory for signature'']))
      else case startP of
        [] \<Rightarrow> Some (Inl (faultf [Txt ''empty signature (a signature '',
                                  Txt ''must have at least  return value type)'']))
      | c # cursorP \<Rightarrow>
          if c = CHR '',''
          then Some (Inl (faultf [Txt ''empty signature (a signature '',
                                  Txt ''must have at least  return value type)'']))
          else if peek cursorP \<noteq> CHR '':''
          then Some (Inl (faultf [Txt ''No colon ('', Txt [CHR 0x27], Txt '':'', Txt [CHR 0x27],
                                  Txt '') after '', Txt ''the result type specifier'']))
          else case translateTypeSpecifierToName c of
                 Inl f \<Rightarrow> Some (Inl f)
               | Inr ret \<Rightarrow>
                   (case parseArgumentTypeSpecifiers mok (tl cursorP) of
                      None \<Rightarrow> None
                    | Some (Inl f) \<Rightarrow> Some (Inl f)
                    | Some (Inr (args, nextP)) \<Rightarrow> Some (Inr (\<lparr>retType = ret, argList = args\<rparr>, nextP))))"

lemma argument_types_shorter:
  "argument_types mok args s = Some (Inr (args', r)) \<Longrightarrow> length r \<le> length s"
  by (induction mok args s rule: argument_types.induct) (auto split: if_splits sum.splits)

lemma parseOneSignature_shorter:
  assumes "parseOneSignature mok s = Some (Inr (sig, r))"
  shows "length r < length s"
  using assms argument_types_shorter
  by (fastforce simp: parseOneSignature_def parseArgumentTypeSpecifiers_def peek_def
      split: if_splits list.splits sum.splits option.splits)

function list_signatures ::
    "(nat \<Rightarrow> bool) \<Rightarrow> xmlrpc_signature list \<Rightarrow> string \<Rightarrow> xmlrpc_signature list result option" where
  "list_signatures mok sigs cursorP =
     (if cursorP = [] then Some (Inr sigs)
      else case parseOneSignature mok cursorP of
             None \<Rightarrow> None
           | Some (Inl f) \<Rightarrow> Some (Inl f)
           | Some (Inr (signatureP, nextP)) \<Rightarrow> list_signatures mok (sigs @ [signatureP]) nextP)"
  by pat_completeness auto
termination
  by (relation "measure (\<lambda>(mok, sigs, cursorP). length cursorP)") (auto dest: parseOneSignature_shorter)

declare list_signatures.simps [simp del]

definition listSignatures :: "(nat \<Rightarrow> bool) \<Rightarrow> string \<Rightarrow> xmlrpc_signature list result option" where
  "listSignatures mok sigListString = list_signatures mok [] sigListString"

text \<open>No string, or a question mark: the registry does not say how the method is called.\<close>

definition signatureListCreate :: "(nat \<Rightarrow> bool) \<Rightarrow> string option \<Rightarrow> xmlrpc_signature list result option" where
  "signatureListCreate mok sigListString =
     (if \<not> mok SIZEOF_SIGNATURE_LIST
      then Some (Inl (faultf [Txt ''Could not allocate memory for signature list'']))
      else case sigListString of
        None \<Rightarrow> Some (Inr [])
      | Some s \<Rightarrow>
          if s = ''?'' then Some (Inr [])
          else case listSignatures mok s of
                 Some (Inr []) \<Rightarrow> Some (Inl (faultf [Txt ''Signature string is empty.'']))
               | r \<Rightarrow> r)"

definition makeSignatureList :: "(nat \<Rightarrow> bool) \<Rightarrow> string option \<Rightarrow> xmlrpc_signature list result option" where
  "makeSignatureList mok signatureString =
     (case signatureListCreate mok signatureString of
        Some (Inl f) \<Rightarrow>
          (case signatureString of
             None \<Rightarrow> None
           | Some s \<Rightarrow> Some (Inl (faultf [Txt ''Can'', Txt [CHR 0x27], Txt ''t interpret signature string '',
                                     Txt [CHR 0x27], PctS s, Txt [CHR 0x27], Txt ''.  '', PctS (text_of f)])))
      | r \<Rightarrow> r)"

section \<open>Methods\<close>

record 'f xmlrpc_methodInfo =
  methodFn :: 'f
  stackSize :: nat
  signatureListP :: "xmlrpc_signature list"
  helpText :: string

definition xmlrpc_strsol :: string where
  "xmlrpc_strsol = ''[Insufficient memory to build string]''"

definition xmlrpc_strdupsol :: "(nat \<Rightarrow> bool) \<Rightarrow> string \<Rightarrow> string" where
  "xmlrpc_strdupsol mok s = (if mok (length s + 1) then s else xmlrpc_strsol)"

definition xmlrpc_methodCreate ::
    "(nat \<Rightarrow> bool) \<Rightarrow> 'f \<Rightarrow> string option \<Rightarrow> string \<Rightarrow> nat \<Rightarrow> 'f xmlrpc_methodInfo result option" where
  "xmlrpc_methodCreate mok fn signatureString help stack =
     (if \<not> mok SIZEOF_METHOD_INFO
      then Some (Inl (faultf [Txt ''Unable to allocate storage for a method '', Txt ''descriptor'']))
      else case makeSignatureList mok signatureString of
             None \<Rightarrow> None
           | Some (Inl f) \<Rightarrow> Some (Inl f)
           | Some (Inr sigs) \<Rightarrow>
               Some (Inr \<lparr>methodFn = fn, stackSize = stack, signatureListP = sigs,
                          helpText = xmlrpc_strdupsol mok help\<rparr>))"

text \<open>The name in a node is what \<open>strdup\<close> gave, which the code does not check.\<close>

record 'f xmlrpc_methodNode =
  methodName :: "string option"
  methodP :: "'f xmlrpc_methodInfo"

definition xmlrpc_methodListCreate :: "(nat \<Rightarrow> bool) \<Rightarrow> 'f xmlrpc_methodNode list result" where
  "xmlrpc_methodListCreate mok =
     (if mok SIZEOF_METHOD_LIST then Inr []
      else Inl (faultf [Txt ''Couldn'', Txt [CHR 0x27], Txt ''t allocate method list descriptor'']))"

fun xmlrpc_methodListLookupByName ::
    "'f xmlrpc_methodNode list \<Rightarrow> string \<Rightarrow> 'f xmlrpc_methodInfo option option" where
  "xmlrpc_methodListLookupByName [] name = Some None"
| "xmlrpc_methodListLookupByName (p # ps) name =
     (case methodName p of
        None \<Rightarrow> None
      | Some n \<Rightarrow> if n = name then Some (Some (methodP p)) else xmlrpc_methodListLookupByName ps name)"

definition xmlrpc_methodListAdd ::
    "(nat \<Rightarrow> bool) \<Rightarrow> 'f xmlrpc_methodNode list \<Rightarrow> string \<Rightarrow> 'f xmlrpc_methodInfo \<Rightarrow>
     'f xmlrpc_methodNode list result option" where
  "xmlrpc_methodListAdd mok ml name m =
     (case xmlrpc_methodListLookupByName ml name of
        None \<Rightarrow> None
      | Some (Some _) \<Rightarrow>
          Some (Inl (faultf [Txt ''Method named '', Txt [CHR 0x27], PctS name, Txt [CHR 0x27],
                             Txt '' already registered'']))
      | Some None \<Rightarrow>
          if \<not> mok SIZEOF_METHOD_NODE then Some (Inl (faultf [Txt ''Couldn'', Txt [CHR 0x27], Txt ''t allocate method node'']))
          else Some (Inr (ml @ [\<lparr>methodName = (if mok (length name + 1) then Some name else None), methodP = m\<rparr>])))"

section \<open>Signature strings\<close>

text \<open>What a signature string says: the letters of the types, a comma between two signatures.\<close>

definition type_letters :: "(char \<times> string) list" where
  "type_letters =
     [(CHR ''i'', ''int''), (CHR ''b'', ''boolean''), (CHR ''d'', ''double''), (CHR ''s'', ''string''),
      (CHR ''8'', ''dateTime.iso8601''), (CHR ''6'', ''base64''), (CHR ''S'', ''struct''), (CHR ''A'', ''array''),
      (CHR ''n'', ''nil''), (CHR ''I'', ''i8'')]"

definition letter_of :: "string \<Rightarrow> char" where
  "letter_of n = the (map_of (map prod.swap type_letters) n)"

definition type_names :: "string set" where
  "type_names = set (map snd type_letters)"

definition sig_ok :: "xmlrpc_signature \<Rightarrow> bool" where
  "sig_ok sig \<longleftrightarrow> retType sig \<in> type_names \<and> set (argList sig) \<subseteq> type_names"

definition sig_text :: "xmlrpc_signature \<Rightarrow> string" where
  "sig_text sig = letter_of (retType sig) # CHR '':'' # map letter_of (argList sig)"

fun sigs_text :: "xmlrpc_signature list \<Rightarrow> string" where
  "sigs_text [] = []"
| "sigs_text [sig] = sig_text sig"
| "sigs_text (sig # sigs) = sig_text sig @ '','' @ sigs_text sigs"

lemma translate_Inr:
  "translateTypeSpecifierToName c = Inr n \<longleftrightarrow> n \<in> type_names \<and> c = letter_of n"
  by (auto simp: translateTypeSpecifierToName_def type_names_def letter_of_def type_letters_def)

lemma letter_not_comma: "n \<in> type_names \<Longrightarrow> letter_of n \<noteq> CHR '',''"
  by (auto simp: type_names_def letter_of_def type_letters_def)

lemma translate_letter [simp]: "n \<in> type_names \<Longrightarrow> translateTypeSpecifierToName (letter_of n) = Inr n"
  by (simp add: translate_Inr)

lemma argument_types_letters:
  "set ts \<subseteq> type_names \<Longrightarrow> r = [] \<or> hd r = CHR '','' \<Longrightarrow>
   argument_types always args (map letter_of ts @ r) = Some (Inr (args @ ts, r))"
proof (induction ts arbitrary: args)
  case Nil
  then show ?case by (cases r) auto
next
  case (Cons n ts)
  then show ?case using letter_not_comma [of n] by (simp add: makeRoomInArgList_def always_def)
qed

lemma argument_types_read:
  "argument_types mok args s = Some (Inr (args', r)) \<Longrightarrow>
   \<exists>ts. args' = args @ ts \<and> set ts \<subseteq> type_names \<and> s = map letter_of ts @ r \<and> (r = [] \<or> hd r = CHR '','')"
proof (induction mok args s rule: argument_types.induct)
  case (2 mok args c s)
  show ?case
  proof (cases "c = CHR '',''")
    case True
    then show ?thesis using 2 by auto
  next
    case False
    then obtain n u where n: "translateTypeSpecifierToName c = Inr n" "makeRoomInArgList mok (length args + 1) = Inr u"
        "argument_types mok (args @ [n]) s = Some (Inr (args', r))"
      using 2(2) by (auto split: sum.splits)
    obtain ts where "args' = args @ n # ts" "set ts \<subseteq> type_names" "s = map letter_of ts @ r" "r = [] \<or> hd r = CHR '',''"
      using 2(1) [OF False n(1,2)] n(3) by auto
    then show ?thesis using n(1) unfolding translate_Inr by (intro exI [of _ "n # ts"]) simp
  qed
qed simp

lemma parse_one_text:
  assumes "sig_ok sig"
  shows "parseOneSignature always (sig_text sig) = Some (Inr (sig, []))"
    "parseOneSignature always (sig_text sig @ '','' @ r) = Some (Inr (sig, r))"
proof -
  have sig: "retType sig \<in> type_names" "set (argList sig) \<subseteq> type_names" using assms by (simp_all add: sig_ok_def)
  show "parseOneSignature always (sig_text sig) = Some (Inr (sig, []))"
    using argument_types_letters [OF sig(2), of "[]" "[]"] sig(1) letter_not_comma [OF sig(1)]
    by (simp add: parseOneSignature_def sig_text_def parseArgumentTypeSpecifiers_def peek_def always_def)
  show "parseOneSignature always (sig_text sig @ '','' @ r) = Some (Inr (sig, r))"
    using argument_types_letters [OF sig(2), of "'','' @ r" "[]"] sig(1) letter_not_comma [OF sig(1)]
    by (simp add: parseOneSignature_def sig_text_def parseArgumentTypeSpecifiers_def peek_def always_def)
qed

lemma parse_one_read:
  assumes "parseOneSignature mok s = Some (Inr (sig, r))"
  shows "sig_ok sig \<and> (s = sig_text sig \<and> r = [] \<or> s = sig_text sig @ '','' @ r)"
proof -
  obtain c u n where s: "s = c # CHR '':'' # u" "translateTypeSpecifierToName c = Inr n" "retType sig = n"
      "parseArgumentTypeSpecifiers mok u = Some (Inr (argList sig, r))"
    using assms by (fastforce simp: parseOneSignature_def peek_def split: if_splits list.splits sum.splits option.splits)
  then obtain q where q: "argument_types mok [] u = Some (Inr (argList sig, q))" "r = (if q = [] then [] else tl q)"
    by (auto simp: parseArgumentTypeSpecifiers_def split: option.splits sum.splits)
  from argument_types_read [OF q(1)]
  have "set (argList sig) \<subseteq> type_names" "u = map letter_of (argList sig) @ q" "q = [] \<or> hd q = CHR '',''" by auto
  moreover from this(3) have "q = [] \<or> q = '','' @ tl q" by (cases q) auto
  ultimately show ?thesis using s q(2) translate_Inr by (auto simp: sig_ok_def sig_text_def)
qed

lemma sigs_text_Cons: "sigs_text (sig # sigs) = sig_text sig @ (if sigs = [] then [] else '','' @ sigs_text sigs)"
  by (cases sigs) auto

lemma sig_text_nonempty: "sig_text sig \<noteq> []" by (simp add: sig_text_def)

lemma list_signatures_text:
  "list_all sig_ok new \<Longrightarrow> list_signatures always sigs (sigs_text new) = Some (Inr (sigs @ new))"
proof (induction new arbitrary: sigs)
  case Nil
  then show ?case by (simp add: list_signatures.simps)
next
  case (Cons sig new)
  then show ?case using parse_one_text [of sig] sig_text_nonempty [of sig]
    by (subst list_signatures.simps) (simp add: sigs_text_Cons, simp add: list_signatures.simps)
qed

lemma list_signatures_comma:
  "list_all sig_ok new \<Longrightarrow> new \<noteq> [] \<Longrightarrow> list_signatures always sigs (sigs_text new @ '','') = Some (Inr (sigs @ new))"
proof (induction new arbitrary: sigs)
  case (Cons sig new)
  then show ?case using parse_one_text(2) [of sig "[]"] parse_one_text(2) [of sig "sigs_text new @ '',''"]
    by (subst list_signatures.simps) (simp add: sigs_text_Cons, simp add: list_signatures.simps)
qed simp

lemma list_signatures_read:
  "list_signatures mok sigs s = Some (Inr sigs') \<Longrightarrow>
   \<exists>new. sigs' = sigs @ new \<and> list_all sig_ok new \<and> (s = sigs_text new \<or> new \<noteq> [] \<and> s = sigs_text new @ '','')"
proof (induction mok sigs s rule: list_signatures.induct)
  case (1 mok sigs s)
  show ?case
  proof (cases "s = []")
    case True
    then show ?thesis using 1(2) by (simp add: list_signatures.simps exI [of _ "[]"])
  next
    case False
    then obtain sig r where r: "parseOneSignature mok s = Some (Inr (sig, r))"
        "list_signatures mok (sigs @ [sig]) r = Some (Inr sigs')"
      using 1(2) by (subst (asm) list_signatures.simps) (auto split: option.splits sum.splits)
    obtain new where new: "sigs' = sigs @ sig # new" "list_all sig_ok new"
        "r = sigs_text new \<or> new \<noteq> [] \<and> r = sigs_text new @ '',''"
      using 1(1) [OF False r(1) refl] r(2) by auto
    have "new = [] \<Longrightarrow> r = []" using new(3) by simp
    moreover have "sigs_text new = [] \<Longrightarrow> new = []" by (cases new) (simp_all add: sigs_text_Cons sig_text_nonempty)
    ultimately show ?thesis
      using parse_one_read [OF r(1)] new by (intro exI [of _ "sig # new"]) (auto simp: sigs_text_Cons)
  qed
qed

section \<open>The list of methods as a map\<close>

definition methods_ok :: "'f xmlrpc_methodNode list \<Rightarrow> bool" where
  "methods_ok ml \<longleftrightarrow> None \<notin> set (map methodName ml) \<and> distinct (map methodName ml)"

definition method_map :: "'f xmlrpc_methodNode list \<Rightarrow> string \<Rightarrow> 'f xmlrpc_methodInfo option" where
  "method_map ml name = map_option methodP (find (\<lambda>p. methodName p = Some name) ml)"

lemma lookup_method: "methods_ok ml \<Longrightarrow> xmlrpc_methodListLookupByName ml name = Some (method_map ml name)"
  by (induction ml) (auto simp: methods_ok_def method_map_def split: option.split)

lemma method_map_None: "method_map ml name = None \<longleftrightarrow> Some name \<notin> set (map methodName ml)"
  by (induction ml) (auto simp: method_map_def)

lemma method_map_append:
  "method_map (ml @ ml') name = (case method_map ml name of None \<Rightarrow> method_map ml' name | m \<Rightarrow> m)"
  by (induction ml) (auto simp: method_map_def)

lemma method_list_add:
  assumes "methods_ok ml"
  shows "xmlrpc_methodListAdd mok ml name m =
    (if method_map ml name \<noteq> None
     then Some (Inl (faultf [Txt ''Method named '', Txt [CHR 0x27], PctS name, Txt [CHR 0x27], Txt '' already registered'']))
     else if \<not> mok SIZEOF_METHOD_NODE then Some (Inl (faultf [Txt ''Couldn'', Txt [CHR 0x27], Txt ''t allocate method node'']))
     else Some (Inr (ml @ [\<lparr>methodName = (if mok (length name + 1) then Some name else None), methodP = m\<rparr>])))"
  using lookup_method [OF assms] by (auto simp: xmlrpc_methodListAdd_def)

lemma method_added:
  assumes "methods_ok ml" "method_map ml name = None"
  shows "methods_ok (ml @ [\<lparr>methodName = Some name, methodP = m\<rparr>])"
    "method_map (ml @ [\<lparr>methodName = Some name, methodP = m\<rparr>]) = (method_map ml)(name \<mapsto> m)"
proof -
  have new: "method_map [\<lparr>methodName = Some name, methodP = m\<rparr>] n = (if n = name then Some m else None)" for n
    by (simp add: method_map_def)
  show "method_map (ml @ [\<lparr>methodName = Some name, methodP = m\<rparr>]) = (method_map ml)(name \<mapsto> m)"
    using assms(2) by (auto simp: method_map_append new fun_eq_iff split: option.split)
  show "methods_ok (ml @ [\<lparr>methodName = Some name, methodP = m\<rparr>])"
    using assms method_map_None [of ml name] by (auto simp: methods_ok_def)
qed

section \<open>Properties\<close>

text \<open>With memory at hand, the reader of signature strings accepts exactly the strings that list
  signatures with a comma between two of them, and perhaps one at the end, and it returns the
  signatures the string lists.\<close>
theorem list_signatures_exact:
  "listSignatures always s = Some (Inr sigs) \<longleftrightarrow>
   list_all sig_ok sigs \<and> (s = sigs_text sigs \<or> sigs \<noteq> [] \<and> s = sigs_text sigs @ '','')"
  using list_signatures_read [of always "[]" s sigs] list_signatures_text [of sigs "[]"] list_signatures_comma [of sigs "[]"]
  by (auto simp: listSignatures_def)

text \<open>C37: adding a method to a list of distinct, known names either faults, because the name is taken or
  there is no memory, or gives such a list again, in which the name has the new method and every
  other name what it had; only when memory ends in the copy of the name is the list broken.\<close>
theorem method_list_add_exact:
  assumes "methods_ok ml" "xmlrpc_methodListAdd mok ml name m = Some r" "mok (length name + 1)"
  shows "case r of
      Inl f \<Rightarrow> method_map ml name \<noteq> None \<or> \<not> mok SIZEOF_METHOD_NODE
    | Inr ml' \<Rightarrow> method_map ml name = None \<and> methods_ok ml' \<and>
        (\<forall>n. xmlrpc_methodListLookupByName ml' n = Some (((method_map ml)(name \<mapsto> m)) n))"
proof (cases "method_map ml name = None \<and> mok SIZEOF_METHOD_NODE")
  case True
  note added = method_added [OF assms(1), of name m]
  show ?thesis
    using True assms(2,3) added lookup_method [OF added(1)] unfolding method_list_add [OF assms(1)] by auto
next
  case False
  then show ?thesis using assms(2) unfolding method_list_add [OF assms(1)] by (auto split: if_splits)
qed

lemma method_list_add_exact_witness:
  "xmlrpc_methodListLookupByName [\<lparr>methodName = Some ''f'', methodP = \<lparr>methodFn = (), stackSize = 0, signatureListP = [], helpText = ''h''\<rparr>\<rparr>] ''g''
     = Some None"
proof -
  let ?m = "\<lparr>methodFn = (), stackSize = 0, signatureListP = [], helpText = ''h''\<rparr>"
  have "xmlrpc_methodListAdd always [] ''f'' ?m = Some (Inr [\<lparr>methodName = Some ''f'', methodP = ?m\<rparr>])"
    by (simp add: xmlrpc_methodListAdd_def always_def)
  moreover have "method_map [] n = None" for n :: string by (simp add: method_map_def)
  ultimately show ?thesis
    using method_list_add_exact [of "[]" always "''f''" ?m] by (simp add: methods_ok_def always_def)
qed

end
