(* ===== verification/Time_Util.thy ===== *)
theory Time_Util
  imports Env_Fault
begin

text \<open>
  The calendar routines of \<open>lib/libutil/time.c\<close>: \<open>xmlrpc_timegm\<close>, whose arithmetic is in 32-bit
  unsigned integers, and \<open>xmlrpc_gmtime\<close>, a call of the C library's \<open>gmtime_r\<close>, which is
  given here by its meaning: the Gregorian calendar counted from 1 January 1970.
\<close>

section \<open>The calendar of the code\<close>

record tm =
  tm_sec :: int
  tm_min :: int
  tm_hour :: int
  tm_mday :: int
  tm_mon :: int
  tm_year :: int

definition isLeapYear :: "nat \<Rightarrow> bool" where
  "isLeapYear yearOfAd \<longleftrightarrow>
     yearOfAd mod 4 = 0 \<and> (yearOfAd mod 100 \<noteq> 0 \<or> yearOfAd mod 400 = 0)"

definition monthDaysNonLeap :: "nat list" where
  "monthDaysNonLeap = [31, 28, 31, 30, 31, 30, 31, 31, 30, 31, 30, 31]"

text \<open>The loops of \<open>xmlrpc_timegm\<close>: the days of the years from 1970 and of the months before.\<close>

function year_loop :: "nat \<Rightarrow> nat \<Rightarrow> nat \<Rightarrow> nat" where
  "year_loop year bound totalDays =
     (if year < bound
      then year_loop (year + 1) bound (totalDays + (if isLeapYear (1900 + year) then 366 else 365))
      else totalDays)"
  by pat_completeness auto
termination
  by (relation "measure (\<lambda>(year, bound, totalDays). bound - year)") auto

declare year_loop.simps [simp del]

function month_loop :: "nat \<Rightarrow> nat \<Rightarrow> nat \<Rightarrow> nat" where
  "month_loop month bound totalDays =
     (if month < bound
      then month_loop (month + 1) bound (totalDays + monthDaysNonLeap ! month)
      else totalDays)"
  by pat_completeness auto
termination
  by (relation "measure (\<lambda>(month, bound, totalDays). bound - month)") auto

declare month_loop.simps [simp del]

definition xmlrpc_timegm :: "tm \<Rightarrow> string + int" where
  "xmlrpc_timegm t =
     (if tm_year t < 70 \<or> tm_mon t > 11 \<or> tm_mon t < 0 \<or> tm_mday t > 31 \<or>
         tm_min t > 60 \<or> tm_sec t > 60 \<or> tm_hour t > 24
      then Inl (''Invalid time specification; a member '' @ ''of struct tm is out of range'')
      else
        let totalDays = year_loop 70 (nat (tm_year t)) 0;
            totalDays = month_loop 0 (nat (tm_mon t)) totalDays;
            totalDays = (if tm_mon t > 1 \<and> isLeapYear (1900 + nat (tm_year t))
                         then totalDays + 1 else totalDays);
            totalDays = (int totalDays + tm_mday t - 1) mod 2 ^ 32
        in Inr ((((totalDays * 24 + tm_hour t) * 60 + tm_min t) * 60 + tm_sec t) mod 2 ^ 32))"

section \<open>gmtime\<close>

definition year_len :: "int \<Rightarrow> int" where
  "year_len y = (if y mod 4 = 0 \<and> (y mod 100 \<noteq> 0 \<or> y mod 400 = 0) then 366 else 365)"

definition month_len :: "int \<Rightarrow> nat \<Rightarrow> int" where
  "month_len y m = int (monthDaysNonLeap ! m) + (if m = 1 \<and> year_len y = 366 then 1 else 0)"

lemma year_len_cases: "year_len y = 365 \<or> year_len y = 366"
  by (simp add: year_len_def)

text \<open>The year a day number falls in, and the day within it.\<close>

function find_year :: "int \<Rightarrow> int \<Rightarrow> int \<times> int" where
  "find_year y d =
     (if d < 0 then find_year (y - 1) (d + year_len (y - 1))
      else if year_len y \<le> d then find_year (y + 1) (d - year_len y)
      else (y, d))"
  by pat_completeness auto
termination
proof (relation "measure (\<lambda>(y, d). if d < 0 then nat (1000 - d) else nat d)")
  fix y d :: int
  show "d < 0 \<Longrightarrow> ((y - 1, d + year_len (y - 1)), y, d)
      \<in> measure (\<lambda>(y, d). if d < 0 then nat (1000 - d) else nat d)"
    using year_len_cases [of "y - 1"] by auto
  show "\<not> d < 0 \<Longrightarrow> year_len y \<le> d \<Longrightarrow> ((y + 1, d - year_len y), y, d)
      \<in> measure (\<lambda>(y, d). if d < 0 then nat (1000 - d) else nat d)"
    using year_len_cases [of y] by auto
qed simp

declare find_year.simps [simp del]

function find_month :: "int \<Rightarrow> nat \<Rightarrow> int \<Rightarrow> nat \<times> int" where
  "find_month y m d =
     (if m < 11 \<and> month_len y m \<le> d then find_month y (m + 1) (d - month_len y m) else (m, d))"
  by pat_completeness auto
termination
  by (relation "measure (\<lambda>(y, m, d). 11 - m)") auto

declare find_month.simps [simp del]

definition xmlrpc_gmtime :: "int \<Rightarrow> tm" where
  "xmlrpc_gmtime secs =
     (let days = secs div 86400; rest = secs mod 86400;
          (y, yday) = find_year 1970 days;
          (m, mday) = find_month y 0 yday
      in \<lparr>tm_sec = rest mod 60, tm_min = rest div 60 mod 60, tm_hour = rest div 3600,
          tm_mday = mday + 1, tm_mon = int m, tm_year = y - 1900\<rparr>)"

section \<open>Day counts\<close>

lemma isLeapYear_len:
  assumes "0 \<le> y"
  shows "isLeapYear (nat y) \<longleftrightarrow> year_len y = 366"
proof -
  have "nat y mod n = 0 \<longleftrightarrow> y mod int n = 0" for n
    using assms zmod_int [of "nat y" n] by auto
  from this [of 4] this [of 100] this [of 400] show ?thesis
    by (simp add: isLeapYear_def year_len_def)
qed

definition days_of_years :: "int \<Rightarrow> int \<Rightarrow> int" where
  "days_of_years y0 y = (\<Sum>k\<in>{y0..<y}. year_len k)"

lemma days_of_years_simps:
  "days_of_years y y = 0"
  "y0 < y \<Longrightarrow> days_of_years y0 y = year_len y0 + days_of_years (y0 + 1) y"
proof -
  show "days_of_years y y = 0" by (simp add: days_of_years_def)
  assume "y0 < y"
  then have "{y0..<y} = insert y0 {y0 + 1..<y}" by auto
  then show "days_of_years y0 y = year_len y0 + days_of_years (y0 + 1) y"
    by (simp add: days_of_years_def)
qed

lemma find_year_spec:
  assumes "0 \<le> d" "find_year y0 d = (y, r)"
  shows "y0 \<le> y \<and> 0 \<le> r \<and> r < year_len y \<and> d = days_of_years y0 y + r"
  using assms
proof (induction y0 d arbitrary: y r rule: find_year.induct)
  case (1 y0 d)
  show ?case
  proof (cases "year_len y0 \<le> d")
    case True
    then have rec: "find_year (y0 + 1) (d - year_len y0) = (y, r)"
      using "1.prems" by (simp add: find_year.simps [of y0 d])
    have "y0 + 1 \<le> y \<and> 0 \<le> r \<and> r < year_len y \<and> d - year_len y0 = days_of_years (y0 + 1) y + r"
      using "1.IH"(2) [OF _ True _ rec] "1.prems"(1) True by simp
    then show ?thesis
      using days_of_years_simps(2) [of y0 y] by simp
  next
    case False
    with "1.prems" have "y = y0" "r = d"
      by (simp_all add: find_year.simps [of y0 d])
    with False "1.prems" show ?thesis by (simp add: days_of_years_simps)
  qed
qed

definition days_of_months :: "int \<Rightarrow> nat \<Rightarrow> nat \<Rightarrow> int" where
  "days_of_months y m0 m = (\<Sum>k\<in>{m0..<m}. month_len y k)"

lemma find_month_spec:
  assumes "0 \<le> d" "d < days_of_months y m0 12" "m0 \<le> 11" "find_month y m0 d = (m, r)"
  shows "m0 \<le> m \<and> m \<le> 11 \<and> 0 \<le> r \<and> r < month_len y m \<and> d = days_of_months y m0 m + r"
  using assms
proof (induction y m0 d arbitrary: m r rule: find_month.induct)
  case (1 y m0 d)
  have split: "days_of_months y m0 k = month_len y m0 + days_of_months y (m0 + 1) k" if "m0 < k" for k
    using that by (simp add: days_of_months_def sum.atLeast_Suc_lessThan)
  show ?case
  proof (cases "m0 < 11 \<and> month_len y m0 \<le> d")
    case True
    then have rec: "find_month y (m0 + 1) (d - month_len y m0) = (m, r)"
      using "1.prems" by (simp add: find_month.simps [of y m0 d])
    have "m0 + 1 \<le> m \<and> m \<le> 11 \<and> 0 \<le> r \<and> r < month_len y m
        \<and> d - month_len y m0 = days_of_months y (m0 + 1) m + r"
      using "1.IH" [OF True _ _ _ rec] "1.prems" split [of 12] True by simp
    then show ?thesis using split [of m] by simp
  next
    case False
    with "1.prems" have mr: "m = m0" "r = d"
      by (auto simp: find_month.simps [of y m0 d])
    have "d < month_len y m0"
    proof (cases "m0 < 11")
      case True
      with False show ?thesis by simp
    next
      case False
      with "1.prems" have "m0 = 11" by simp
      moreover have "{11..<12 :: nat} = {11}" by auto
      ultimately show ?thesis using "1.prems"(2) by (simp add: days_of_months_def)
    qed
    with mr "1.prems" show ?thesis by (simp add: days_of_months_def)
  qed
qed

lemma days_of_months_year: "days_of_months y 0 12 = year_len y"
  using year_len_cases [of y]
  by (auto simp: days_of_months_def month_len_def monthDaysNonLeap_def eval_nat_numeral)

lemma year_loop_days:
  "y \<le> y' \<Longrightarrow> int (year_loop y y' acc) = int acc + days_of_years (1900 + int y) (1900 + int y')"
proof (induction y y' acc rule: year_loop.induct)
  case (1 y y' acc)
  show ?case
  proof (cases "y < y'")
    case True
    let ?n = "if isLeapYear (1900 + y) then 366 else 365 :: nat"
    have "int ?n = year_len (1900 + int y)"
      using isLeapYear_len [of "1900 + int y"] year_len_cases [of "1900 + int y"]
      by (auto simp: nat_add_distrib)
    moreover have "int (year_loop (y + 1) y' (acc + ?n))
        = int (acc + ?n) + days_of_years (1900 + int (y + 1)) (1900 + int y')"
      using 1 True by simp
    ultimately show ?thesis
      using True days_of_years_simps(2) [of "1900 + int y" "1900 + int y'"]
      by (simp add: year_loop.simps [of y] algebra_simps)
  next
    case False
    with 1 have "y = y'" by simp
    then show ?thesis by (simp add: year_loop.simps [of y'] days_of_years_simps)
  qed
qed

lemma month_loop_days:
  "m \<le> m' \<Longrightarrow> m' \<le> 12 \<Longrightarrow> month_loop m m' acc = acc + (\<Sum>k\<in>{m..<m'}. monthDaysNonLeap ! k)"
proof (induction m m' acc rule: month_loop.induct)
  case (1 m m' acc)
  show ?case
  proof (cases "m < m'")
    case True
    with 1 show ?thesis
      by (simp add: month_loop.simps [of m] sum.atLeast_Suc_lessThan)
  next
    case False
    with 1 show ?thesis by (subst month_loop.simps) simp
  qed
qed

lemma days_of_months_loop:
  assumes "m \<le> 12"
  shows "days_of_months y 0 m = int (\<Sum>k\<in>{0..<m}. monthDaysNonLeap ! k)
           + (if 1 < m \<and> year_len y = 366 then 1 else 0)"
proof -
  have "days_of_months y 0 m = (\<Sum>k\<in>{0..<m}. int (monthDaysNonLeap ! k))
      + (\<Sum>k\<in>{0..<m}. if k = 1 \<and> year_len y = 366 then 1 else 0)"
    by (simp add: days_of_months_def month_len_def sum.distrib)
  moreover have "(\<Sum>k\<in>{0..<m}. if k = 1 \<and> year_len y = 366 then 1 else 0 :: int)
      = (if 1 < m \<and> year_len y = 366 then 1 else 0)"
    by (cases "year_len y = 366") (simp_all add: sum.delta)
  ultimately show ?thesis by simp
qed

section \<open>The two conversions\<close>

text \<open>The seconds since 1970 that a broken-down time stands for, as the calendar has it.\<close>

definition epoch_secs :: "tm \<Rightarrow> int" where
  "epoch_secs t =
     (days_of_years 1970 (1900 + tm_year t) + days_of_months (1900 + tm_year t) 0 (nat (tm_mon t))
      + tm_mday t - 1) * 86400 + tm_hour t * 3600 + tm_min t * 60 + tm_sec t"

definition tm_accepted :: "tm \<Rightarrow> bool" where
  "tm_accepted t \<longleftrightarrow>
     70 \<le> tm_year t \<and> 0 \<le> tm_mon t \<and> tm_mon t \<le> 11 \<and> tm_mday t \<le> 31 \<and>
     tm_min t \<le> 60 \<and> tm_sec t \<le> 60 \<and> tm_hour t \<le> 24"

lemma seconds_mod:
  "((((a mod M) * 24 + h) * 60 + m) * 60 + s) mod M = (a * 86400 + h * 3600 + m * 60 + s) mod M"
  for a M :: int
proof -
  have "((((a mod M) * 24 + h) * 60 + m) * 60 + s) mod M
      = ((a mod M) * 86400 + (h * 3600 + m * 60 + s)) mod M"
    by (simp add: algebra_simps)
  also have "\<dots> = (a * 86400 + (h * 3600 + m * 60 + s)) mod M"
    by (metis mod_add_left_eq mod_mult_left_eq)
  finally show ?thesis by (simp add: add.assoc)
qed

lemma timegm_accepted:
  assumes "tm_accepted t"
  shows "xmlrpc_timegm t = Inr (epoch_secs t mod 2 ^ 32)"
proof -
  let ?y = "nat (tm_year t)" let ?m = "nat (tm_mon t)"
  let ?days = "month_loop 0 ?m (year_loop 70 ?y 0)"
  let ?total = "if tm_mon t > 1 \<and> isLeapYear (1900 + ?y) then ?days + 1 else ?days"
  have y: "1900 + int ?y = 1900 + tm_year t" "70 \<le> ?y" and m: "?m \<le> 12"
    using assms by (simp_all add: tm_accepted_def nat_le_iff le_nat_iff)
  have leap: "isLeapYear (1900 + ?y) \<longleftrightarrow> year_len (1900 + tm_year t) = 366"
    using isLeapYear_len [of "1900 + int ?y"] y by (simp add: nat_add_distrib)
  have "int ?days = days_of_years 1970 (1900 + tm_year t) + int (\<Sum>k\<in>{0..<?m}. monthDaysNonLeap ! k)"
    using month_loop_days [of 0 ?m] year_loop_days [OF y(2), of 0] m y(1) by simp
  then have total: "int ?total = days_of_years 1970 (1900 + tm_year t) + days_of_months (1900 + tm_year t) 0 ?m"
    using days_of_months_loop [OF m, of "1900 + tm_year t"] leap assms
    by (auto simp: tm_accepted_def)
  have "xmlrpc_timegm t = Inr (((((int ?total + tm_mday t - 1) mod 2 ^ 32 * 24 + tm_hour t) * 60 + tm_min t) * 60
      + tm_sec t) mod 2 ^ 32)" (is "_ = Inr ?r")
    using assms by (simp only: xmlrpc_timegm_def tm_accepted_def Let_def) auto
  also have "?r = epoch_secs t mod 2 ^ 32"
    unfolding seconds_mod total by (simp add: epoch_secs_def)
  finally show ?thesis .
qed

lemma timegm_rejected: "\<not> tm_accepted t \<Longrightarrow> \<exists>e. xmlrpc_timegm t = Inl e"
  by (auto simp: xmlrpc_timegm_def tm_accepted_def not_le)

lemma gmtime_fields:
  assumes "0 \<le> secs"
  shows "epoch_secs (xmlrpc_gmtime secs) = secs"
    and "70 \<le> tm_year (xmlrpc_gmtime secs)"
    and "0 \<le> tm_mon (xmlrpc_gmtime secs)" "tm_mon (xmlrpc_gmtime secs) \<le> 11"
    and "1 \<le> tm_mday (xmlrpc_gmtime secs)" "tm_mday (xmlrpc_gmtime secs) \<le> 31"
    and "0 \<le> tm_hour (xmlrpc_gmtime secs)" "tm_hour (xmlrpc_gmtime secs) \<le> 23"
    and "0 \<le> tm_min (xmlrpc_gmtime secs)" "tm_min (xmlrpc_gmtime secs) \<le> 59"
    and "0 \<le> tm_sec (xmlrpc_gmtime secs)" "tm_sec (xmlrpc_gmtime secs) \<le> 59"
proof -
  obtain y yd where fy: "find_year 1970 (secs div 86400) = (y, yd)" by force
  obtain m md where fm: "find_month y 0 yd = (m, md)" by force
  have "0 \<le> secs div 86400" using assms by (simp add: pos_imp_zdiv_nonneg_iff)
  from find_year_spec [OF this fy]
  have year: "1970 \<le> y" "0 \<le> yd" "yd < year_len y" "secs div 86400 = days_of_years 1970 y + yd"
    by simp_all
  have month: "m \<le> 11" "0 \<le> md" "md < month_len y m" "yd = days_of_months y 0 m + md"
    using find_month_spec [OF year(2) _ _ fm] year(3) by (simp_all add: days_of_months_year)
  have "month_len y m \<le> 31"
  proof -
    have "\<forall>m \<in> set [0..<12]. monthDaysNonLeap ! m \<le> 31 \<and> (m = 1 \<longrightarrow> monthDaysNonLeap ! m \<le> 30)"
      by code_simp
    then show ?thesis using month(1) by (force simp: month_len_def)
  qed
  with month have md: "md + 1 \<le> 31" by simp
  let ?r = "secs mod 86400"
  have r: "0 \<le> ?r" "?r < 86400" by simp_all
  have gm: "xmlrpc_gmtime secs = \<lparr>tm_sec = ?r mod 60, tm_min = ?r div 60 mod 60, tm_hour = ?r div 3600,
      tm_mday = md + 1, tm_mon = int m, tm_year = y - 1900\<rparr>"
    by (simp add: xmlrpc_gmtime_def fy fm Let_def)
  have clock: "?r div 3600 * 3600 + ?r div 60 mod 60 * 60 + ?r mod 60 = ?r"
  proof -
    have "?r div 60 div 60 = ?r div 3600" by (simp add: zdiv_zmult2_eq [symmetric])
    then show ?thesis
      using div_mult_mod_eq [of ?r 60] div_mult_mod_eq [of "?r div 60" 60] by linarith
  qed
  have "days_of_years 1970 y + days_of_months y 0 m + (md + 1) - 1 = secs div 86400"
    using year(4) month(4) by simp
  then have "epoch_secs (xmlrpc_gmtime secs)
      = secs div 86400 * 86400 + ?r div 3600 * 3600 + ?r div 60 mod 60 * 60 + ?r mod 60"
    by (simp add: gm epoch_secs_def)
  then show "epoch_secs (xmlrpc_gmtime secs) = secs"
    using clock div_mult_mod_eq [of secs 86400] by linarith
  show "70 \<le> tm_year (xmlrpc_gmtime secs)" "0 \<le> tm_mon (xmlrpc_gmtime secs)"
    "tm_mon (xmlrpc_gmtime secs) \<le> 11" "1 \<le> tm_mday (xmlrpc_gmtime secs)"
    "tm_mday (xmlrpc_gmtime secs) \<le> 31"
    "0 \<le> tm_min (xmlrpc_gmtime secs)" "tm_min (xmlrpc_gmtime secs) \<le> 59"
    "0 \<le> tm_sec (xmlrpc_gmtime secs)" "tm_sec (xmlrpc_gmtime secs) \<le> 59"
    using year month md by (simp_all add: gm)
  show "0 \<le> tm_hour (xmlrpc_gmtime secs)" "tm_hour (xmlrpc_gmtime secs) \<le> 23"
    using r by (simp_all add: gm pos_imp_zdiv_nonneg_iff)
qed

lemma timegm_gmtime: "0 \<le> secs \<Longrightarrow> xmlrpc_timegm (xmlrpc_gmtime secs) = Inr (secs mod 2 ^ 32)"
proof -
  assume "0 \<le> secs"
  note g = gmtime_fields [OF this]
  have "tm_accepted (xmlrpc_gmtime secs)"
    using g by (simp add: tm_accepted_def)
  from timegm_accepted [OF this] show ?thesis by (simp add: g(1))
qed

lemma days_of_years_ge: "y0 \<le> y \<Longrightarrow> 365 * (y - y0) \<le> days_of_years y0 y"
proof -
  assume "y0 \<le> y"
  then have "365 * (y - y0) = (\<Sum>k\<in>{y0..<y}. 365)" by simp
  also have "\<dots> \<le> days_of_years y0 y"
    unfolding days_of_years_def
  proof (rule sum_mono)
    show "365 \<le> year_len k" for k using year_len_cases [of k] by auto
  qed
  finally show ?thesis .
qed

lemma days_of_months_nonneg: "0 \<le> days_of_months y a b"
  unfolding days_of_months_def by (rule sum_nonneg) (simp add: month_len_def)

lemma gmtime_year_bound:
  assumes "0 \<le> secs" "secs < 2 ^ 32"
  shows "tm_year (xmlrpc_gmtime secs) \<le> 206"
proof -
  let ?t = "xmlrpc_gmtime secs"
  note g = gmtime_fields [OF assms(1)]
  obtain Y M where Y: "days_of_years 1970 (1900 + tm_year ?t) = Y"
    and M: "days_of_months (1900 + tm_year ?t) 0 (nat (tm_mon ?t)) = M" by simp
  have "0 \<le> M" using days_of_months_nonneg M by metis
  moreover have "365 * (tm_year ?t - 70) \<le> Y"
    using g(2) days_of_years_ge [of 1970 "1900 + tm_year ?t"] unfolding Y by simp
  ultimately have days: "365 * (tm_year ?t - 70) \<le> Y + M + tm_mday ?t - 1"
    using g(5) by simp
  define D where "D = Y + M + tm_mday ?t - 1"
  have "secs = D * 86400 + tm_hour ?t * 3600 + tm_min ?t * 60 + tm_sec ?t"
    using g(1) by (simp add: epoch_secs_def Y M D_def)
  then have "D * 86400 \<le> secs"
    using g(7,9,11) by simp
  then have "D \<le> 49710" using assms(2) by simp
  with days show ?thesis by (simp add: D_def [symmetric])
qed

end
