(* ===== verification/Datetime.thy ===== *)
theory Datetime
  imports Time_Util
begin

text \<open>
  Dates and times: \<open>xmlrpc_datetime\<close> (unsigned fields, possibly no real date), its parsing from
  a \<open>dateTime.iso8601\<close> element (\<open>src/parse_datetime.c\<close>, with and without a regex library) and
  from the legacy string form, and its conversions to and from Unix time
  (\<open>src/xmlrpc_datetime.c\<close>).  A failed \<open>assert\<close> aborts the program: the value \<open>None\<close>.
\<close>

record xmlrpc_datetime =
  dt_Y :: nat
  dt_M :: nat
  dt_D :: nat
  dt_h :: nat
  dt_m :: nat
  dt_s :: nat
  dt_u :: nat

section \<open>Validation of the fixed format\<close>

definition parse_fault :: "piece list \<Rightarrow> fault" where
  "parse_fault = set_fault_formatted XMLRPC_PARSE_ERROR"

text \<open>
  Both source files have the same checks, with another fault code.  The environment is passed
  along because a later check overrides the fault of an earlier one.
\<close>

definition not_digit :: "(piece list \<Rightarrow> fault) \<Rightarrow> char \<Rightarrow> fault option \<Rightarrow> fault option" where
  "not_digit mk c env =
     (if \<not> isdigit c then Some (mk [Txt ''Not a digit: '', Txt [CHR 0x27], PctC c, Txt [CHR 0x27]])
      else env)"

definition not_colon :: "(piece list \<Rightarrow> fault) \<Rightarrow> char \<Rightarrow> fault option \<Rightarrow> fault option" where
  "not_colon mk c env =
     (if c \<noteq> CHR '':'' then Some (mk [Txt ''Not a colon: '', Txt [CHR 0x27], PctC c, Txt [CHR 0x27]])
      else env)"

fun first_eight :: "(piece list \<Rightarrow> fault) \<Rightarrow> string \<Rightarrow> fault option \<Rightarrow> fault option" where
  "first_eight mk [] env = env"
| "first_eight mk (c # s) env =
     (case env of Some f \<Rightarrow> Some f | None \<Rightarrow> first_eight mk s (not_digit mk c env))"

definition check_first17 :: "(piece list \<Rightarrow> fault) \<Rightarrow> string \<Rightarrow> fault option \<Rightarrow> fault option" where
  "check_first17 mk dt env =
     (let env = first_eight mk (take 8 dt) env;
          env = (if dt ! 8 \<noteq> CHR ''T''
                 then Some (mk [Txt ''9th character is '', Txt [CHR 0x27], PctC (dt ! 8), Txt [CHR 0x27],
                                Txt '', not '', Txt [CHR 0x27], Txt ''T'', Txt [CHR 0x27]])
                 else env);
          env = not_digit mk (dt ! 9) env;
          env = not_digit mk (dt ! 10) env;
          env = not_colon mk (dt ! 11) env;
          env = not_digit mk (dt ! 12) env;
          env = not_digit mk (dt ! 13) env;
          env = not_colon mk (dt ! 14) env;
          env = not_digit mk (dt ! 15) env
      in not_digit mk (dt ! 16) env)"

fun fraction_digits :: "(piece list \<Rightarrow> fault) \<Rightarrow> string \<Rightarrow> fault option \<Rightarrow> fault option" where
  "fraction_digits mk [] env = env"
| "fraction_digits mk (c # s) env =
     (case env of Some f \<Rightarrow> Some f
      | None \<Rightarrow> fraction_digits mk s
          (if \<not> isdigit c
           then Some (mk [Txt ''Non-digit in fractional seconds: '', Txt [CHR 0x27], PctC c,
                          Txt [CHR 0x27]])
           else None))"

definition check_fraction :: "(piece list \<Rightarrow> fault) \<Rightarrow> string \<Rightarrow> fault option \<Rightarrow> fault option" where
  "check_fraction mk dt env =
     (if 17 < length dt then
        if dt ! 17 \<noteq> CHR ''.''
        then Some (mk [Txt [CHR 0x27], PctC (dt ! 17), Txt [CHR 0x27],
                       Txt '' where only a period is valid''])
        else if drop 18 dt = [] then Some (mk [Txt ''Nothing after decimal point''])
        else fraction_digits mk (drop 18 dt) env
      else env)"

definition validateFirst17 :: "string \<Rightarrow> fault option \<Rightarrow> fault option" where
  "validateFirst17 = check_first17 faultf"

definition validateFractionalSeconds :: "string \<Rightarrow> fault option \<Rightarrow> fault option" where
  "validateFractionalSeconds = check_fraction faultf"

definition validateFormat :: "string \<Rightarrow> fault option" where
  "validateFormat dt =
     (if length dt < 17
      then Some (faultf [Txt ''Invalid length of '', PctU (length dt), Txt '' of datetime string.  '',
                         Txt ''Must be at least 17 characters''])
      else case validateFirst17 dt None of
             Some f \<Rightarrow> Some f
           | None \<Rightarrow> validateFractionalSeconds dt None)"

definition parse_validateFirst17 :: "string \<Rightarrow> fault option \<Rightarrow> fault option" where
  "parse_validateFirst17 = check_first17 parse_fault"

definition parse_validateFractionalSeconds :: "string \<Rightarrow> fault option \<Rightarrow> fault option" where
  "parse_validateFractionalSeconds = check_fraction parse_fault"

definition validateFormatNoRegex :: "string \<Rightarrow> fault option" where
  "validateFormatNoRegex dt =
     (if length dt < 17
      then Some (parse_fault [Txt ''Invalid length of '', PctU (length dt), Txt '' of datetime.  '',
                              Txt ''Must be at least 17 characters''])
      else parse_validateFractionalSeconds dt (parse_validateFirst17 dt None))"

section \<open>Parsing the fixed format\<close>

text \<open>\<open>atoi\<close>, its \<open>int\<close> stored in an \<open>unsigned int\<close>.\<close>

definition atoi :: "string \<Rightarrow> nat" where
  "atoi s = nat (fst (snd (strtol (- (2 ^ 63)) (2 ^ 63 - 1) s)) mod 2 ^ 32)"

definition substr :: "nat \<Rightarrow> nat \<Rightarrow> string \<Rightarrow> string" where
  "substr i n s = take n (drop i s)"

definition fixed_fields :: "string \<Rightarrow> xmlrpc_datetime" where
  "fixed_fields s =
     \<lparr>dt_Y = atoi (substr 0 4 s), dt_M = atoi (substr 4 2 s), dt_D = atoi (substr 6 2 s),
      dt_h = atoi (substr 9 2 s), dt_m = atoi (substr 12 2 s), dt_s = atoi (substr 15 2 s),
      dt_u = (if 17 < length s
              then atoi (drop 18 s) * 10 ^ (24 - length s) mod 2 ^ 32 else 0)\<rparr>"

definition parseDatetimeString :: "string \<Rightarrow> xmlrpc_datetime option" where
  "parseDatetimeString datetimeString =
     (let dtStrlen = length datetimeString in
      if \<not> (17 \<le> dtStrlen \<and> dtStrlen \<noteq> 18 \<and> dtStrlen \<le> 24) then None
      else if datetimeString ! 8 \<noteq> CHR ''T'' then None
      else if datetimeString ! 11 \<noteq> CHR '':'' then None
      else if datetimeString ! 14 \<noteq> CHR '':'' then None
      else Some (fixed_fields datetimeString))"

definition parseDtNoRegex :: "string \<Rightarrow> xmlrpc_datetime result option" where
  "parseDtNoRegex datetimeString =
     (let dtStrlen = length datetimeString in
      if dtStrlen < 17 \<or> dtStrlen = 18 \<or> 24 < dtStrlen
      then Some (Inl (faultf [Txt ''could not parse date, size incompatible: '', Txt [CHR 0x27],
                              PctD (int dtStrlen), Txt [CHR 0x27]]))
      else if datetimeString ! 8 \<noteq> CHR ''T'' then None
      else if datetimeString ! 11 \<noteq> CHR '':'' then None
      else if datetimeString ! 14 \<noteq> CHR '':'' then None
      else Some (Inr (fixed_fields datetimeString)))"

section \<open>Parsing with regular expressions\<close>

text \<open>
  The items of the two expressions of the table, with the matching \<open>regexec\<close> gives them:
  \<open>Digs n\<close> is \<open>([0-9]{n})\<close>, \<open>Opt c\<close> is \<open>c?\<close>, \<open>Cls cs\<close> one character of \<open>cs\<close>, \<open>OptDigs lo hi\<close> an
  optional group of digits at the end.  Both expressions are anchored at both ends, and
  \<open>REG_ICASE\<close> lets letters match in either case.
\<close>

datatype ritem = Digs nat | Opt char | Cls string | OptDigs nat "nat option"

fun re_match :: "ritem list \<Rightarrow> string \<Rightarrow> string option list option" where
  "re_match [] s = (if s = [] then Some [] else None)"
| "re_match (Digs n # r) s =
     (if n \<le> length s \<and> list_all isdigit (take n s)
      then map_option ((#) (Some (take n s))) (re_match r (drop n s)) else None)"
| "re_match (Opt c # r) s =
     (if peek s = c
      then case re_match r (tl s) of Some m \<Rightarrow> Some m | None \<Rightarrow> re_match r s
      else re_match r s)"
| "re_match (Cls cs # r) s = (if s \<noteq> [] \<and> hd s \<in> set cs then re_match r (tl s) else None)"
| "re_match (OptDigs lo hi # r) s =
     (let ds = takeWhile isdigit s in
      if lo \<le> length ds \<and> (case hi of None \<Rightarrow> True | Some h \<Rightarrow> length ds \<le> h)
      then map_option ((#) (Some ds)) (re_match r (drop (length ds) s))
      else map_option ((#) None) (re_match r s))"

definition iso8601_standard :: "ritem list" where
  "iso8601_standard =
     [Digs 4, Opt (CHR ''-''), Digs 2, Opt (CHR ''-''), Digs 2, Cls ''Tt'',
      Digs 2, Opt (CHR '':''), Digs 2, Opt (CHR '':''), Digs 2, Opt (CHR ''.''), OptDigs 1 None]"

definition iso8601_standardtzd :: "ritem list" where
  "iso8601_standardtzd =
     [Digs 4, Opt (CHR ''-''), Digs 2, Opt (CHR ''-''), Digs 2, Cls ''Tt'',
      Digs 2, Opt (CHR '':''), Digs 2, Opt (CHR '':''), Digs 2,
      Cls [CHR ''Z'', CHR ''z'', CHR 0x5C, CHR ''+'', CHR ''-''], OptDigs 2 (Some 4)]"

definition digitStringValue :: "string option \<Rightarrow> nat" where
  "digitStringValue match =
     fold (\<lambda>c accum. (accum * 10 + nat (uchar c - 48)) mod 2 ^ 32) (the match) 0"

text \<open>Six rounds, whatever the length of the group.\<close>

definition digitStringMillionths :: "string option \<Rightarrow> nat" where
  "digitStringMillionths match =
     fold (\<lambda>i accum. if i < length (the match)
                     then accum * 10 + nat (uchar (the match ! i) - 48) else accum * 10) [0..<6] 0"

definition subParseDtRegex_standard :: "string option list \<Rightarrow> xmlrpc_datetime" where
  "subParseDtRegex_standard matches =
     \<lparr>dt_Y = digitStringValue (matches ! 0), dt_M = digitStringValue (matches ! 1),
      dt_D = digitStringValue (matches ! 2), dt_h = digitStringValue (matches ! 3),
      dt_m = digitStringValue (matches ! 4), dt_s = digitStringValue (matches ! 5),
      dt_u = (if matches ! 6 = None then 0 else digitStringMillionths (matches ! 6))\<rparr>"

definition subParseDtRegex_standardtzd :: "string option list \<Rightarrow> xmlrpc_datetime" where
  "subParseDtRegex_standardtzd matches =
     \<lparr>dt_Y = digitStringValue (matches ! 0), dt_M = digitStringValue (matches ! 1),
      dt_D = digitStringValue (matches ! 2), dt_h = digitStringValue (matches ! 3),
      dt_m = digitStringValue (matches ! 4), dt_s = digitStringValue (matches ! 5), dt_u = 0\<rparr>"

definition iso8601Regex :: "(ritem list \<times> (string option list \<Rightarrow> xmlrpc_datetime)) list" where
  "iso8601Regex =
     [(iso8601_standard, subParseDtRegex_standard), (iso8601_standardtzd, subParseDtRegex_standardtzd)]"

fun parse_first_match ::
    "(ritem list \<times> (string option list \<Rightarrow> xmlrpc_datetime)) list \<Rightarrow> string \<Rightarrow> xmlrpc_datetime option" where
  "parse_first_match [] s = None"
| "parse_first_match ((re, func) # ps) s =
     (case re_match re s of Some matches \<Rightarrow> Some (func matches) | None \<Rightarrow> parse_first_match ps s)"

definition parseDtRegex :: "string \<Rightarrow> xmlrpc_datetime result" where
  "parseDtRegex datetimeString =
     (case parse_first_match iso8601Regex datetimeString of
        Some dt \<Rightarrow> Inr dt
      | None \<Rightarrow> Inl (parse_fault [Txt ''value '', Txt [CHR 0x27], PctS datetimeString, Txt [CHR 0x27],
                  Txt '' is not of any form we recognize '', Txt ''for a <dateTime.iso8601> element'']))"

section \<open>Parsing an element\<close>

definition validateXmlrpcDatetimeSome :: "xmlrpc_datetime \<Rightarrow> unit result" where
  "validateXmlrpcDatetimeSome dt =
     (if dt_M dt < 1 \<or> dt_M dt > 12
      then Inl (parse_fault [Txt ''Month of year value '', PctU (dt_M dt),
                             Txt '' is not in the range 1-12''])
      else if dt_D dt < 1 \<or> dt_D dt > 31
      then Inl (parse_fault [Txt ''Day of month value '', PctU (dt_D dt),
                             Txt '' is not in the range 1-31''])
      else if dt_h dt > 23
      then Inl (parse_fault [Txt ''Hour of day value '', PctU (dt_h dt),
                             Txt '' is not in the range 0-23''])
      else if dt_m dt > 59
      then Inl (parse_fault [Txt ''Minute of hour value '', PctU (dt_m dt),
                             Txt '' is not in the range 0-59''])
      else if dt_s dt > 59
      then Inl (parse_fault [Txt ''Second of minute value '', PctU (dt_s dt),
                             Txt '' is not in the range 0-59''])
      else if dt_u dt > 999999
      then Inl (parse_fault [Txt ''Microsecond of second value '', PctU (dt_u dt),
                             Txt '' is not in the range 0-1M''])
      else Inr ())"

definition xmlrpc_parseDatetime :: "bool \<Rightarrow> string \<Rightarrow> xmlrpc_datetime result option" where
  "xmlrpc_parseDatetime have_regex datetimeString =
     map_option (\<lambda>r. bindE r (\<lambda>dt. bindE (validateXmlrpcDatetimeSome dt) (\<lambda>_. Inr dt)))
       (if have_regex then Some (parseDtRegex datetimeString)
        else case validateFormatNoRegex datetimeString of
               Some f \<Rightarrow> Some (Inl f)
             | None \<Rightarrow> parseDtNoRegex datetimeString)"

section \<open>Construction and Unix time\<close>

definition xmlrpc_datetime_new_str :: "string \<Rightarrow> xmlrpc_datetime result option" where
  "xmlrpc_datetime_new_str datetimeString =
     (case validateFormat datetimeString of
        Some f \<Rightarrow> Some (Inl f)
      | None \<Rightarrow> map_option Inr (parseDatetimeString datetimeString))"

definition xmlrpc_datetime_new_usec :: "int \<Rightarrow> nat \<Rightarrow> xmlrpc_datetime result" where
  "xmlrpc_datetime_new_usec secs usecs =
     (if 1000000 \<le> usecs
      then Inl (faultf [Txt ''Number of fractional microseconds must be less '',
                        Txt ''than one million.  You specified '', PctU usecs])
      else
        let brokenTime = xmlrpc_gmtime secs in
        Inr \<lparr>dt_Y = nat ((1900 + tm_year brokenTime) mod 2 ^ 32),
             dt_M = nat ((tm_mon brokenTime + 1) mod 2 ^ 32), dt_D = nat (tm_mday brokenTime mod 2 ^ 32),
             dt_h = nat (tm_hour brokenTime mod 2 ^ 32), dt_m = nat (tm_min brokenTime mod 2 ^ 32),
             dt_s = nat (tm_sec brokenTime mod 2 ^ 32), dt_u = usecs\<rparr>)"

definition xmlrpc_datetime_new_sec :: "int \<Rightarrow> xmlrpc_datetime result" where
  "xmlrpc_datetime_new_sec secs = xmlrpc_datetime_new_usec secs 0"

definition xmlrpc_datetime_new_timeval :: "int \<times> nat \<Rightarrow> xmlrpc_datetime result" where
  "xmlrpc_datetime_new_timeval tv = xmlrpc_datetime_new_usec (fst tv) (snd tv)"

definition xmlrpc_datetime_new_timespec :: "int \<times> nat \<Rightarrow> xmlrpc_datetime result" where
  "xmlrpc_datetime_new_timespec ts = xmlrpc_datetime_new_usec (fst ts) (snd ts div 1000)"

text \<open>An \<open>unsigned int\<close> stored in an \<open>int\<close>.\<close>

definition to_int :: "int \<Rightarrow> int" where
  "to_int i = (if i mod 2 ^ 32 < 2 ^ 31 then i mod 2 ^ 32 else i mod 2 ^ 32 - 2 ^ 32)"

definition broken_time :: "xmlrpc_datetime \<Rightarrow> tm" where
  "broken_time dt =
     \<lparr>tm_sec = to_int (int (dt_s dt)), tm_min = to_int (int (dt_m dt)), tm_hour = to_int (int (dt_h dt)),
      tm_mday = to_int (int (dt_D dt)), tm_mon = to_int (int (dt_M dt) - 1),
      tm_year = to_int (int (dt_Y dt) - 1900)\<rparr>"

definition datetime_to_usec :: "xmlrpc_datetime \<Rightarrow> (int \<times> nat) result" where
  "datetime_to_usec dt =
     (if dt_Y dt < 1970
      then Inl (faultf [Txt ''Year ('', PctU (dt_Y dt), Txt '') is too early to represent as '',
                        Txt ''a standard Unix time''])
      else case xmlrpc_timegm (broken_time dt) of
             Inl error \<Rightarrow> Inl (set_fault_formatted XMLRPC_PARSE_ERROR
               [Txt ''A datetime received in an XML-RPC message '',
                Txt ''or generated with legacy Xmlrpc-c facilities '',
                Txt ''does not validly describe a datetime.  '', PctS error])
           | Inr secs \<Rightarrow> Inr (secs, dt_u dt))"

text \<open>The ISO 8601 text, and the hybrid text of \<open>strftime\<close>.\<close>

definition datetime_8601 :: "xmlrpc_datetime \<Rightarrow> string result" where
  "datetime_8601 dt =
     (if dt_Y dt > 9999
      then Inl (faultf [Txt ''Too far in future (year '', PctU (dt_Y dt), Txt '').  '', Txt ''ISO 8601 cannot '',
                        Txt ''represent years after AD 9999''])
      else Inr (pad_u 4 (dt_Y dt) @ pad_u 2 (dt_M dt) @ pad_u 2 (dt_D dt) @ ''T'' @
                pad_u 2 (dt_h dt) @ pad_u 2 (dt_m dt) @ pad_u 2 (dt_s dt) @ '','' @
                pad_u 6 (dt_u dt) @ ''Z''))"

definition datetime_str :: "xmlrpc_datetime \<Rightarrow> string result" where
  "datetime_str dt =
     bindE (datetime_to_usec dt) (\<lambda>(secs, usecs).
       let t = xmlrpc_gmtime secs in
       Inr (show_d (1900 + tm_year t) @ pad_u 2 (nat (tm_mon t + 1)) @ pad_u 2 (nat (tm_mday t)) @ ''T'' @
            pad_u 2 (nat (tm_hour t)) @ '':'' @ pad_u 2 (nat (tm_min t)) @ '':'' @ pad_u 2 (nat (tm_sec t)) @
            (if usecs \<noteq> 0 then ''.'' @ pad_u 6 usecs else [])))"

text \<open>The text the serializer writes; it asserts that the microseconds are below a million.\<close>

definition datetime_wire :: "xmlrpc_datetime \<Rightarrow> string option" where
  "datetime_wire dt =
     (if dt_u dt \<noteq> 0 \<and> \<not> dt_u dt < 1000000 then None
      else Some (dec_digits (dt_Y dt) @ pad_u 2 (dt_M dt) @ pad_u 2 (dt_D dt) @ ''T'' @
                 pad_u 2 (dt_h dt) @ '':'' @ pad_u 2 (dt_m dt) @ '':'' @ pad_u 2 (dt_s dt) @
                 (if dt_u dt \<noteq> 0 then ''.'' @ pad_u 6 (dt_u dt) else [])))"

section \<open>What the validation accepts\<close>

definition dt_format :: "string \<Rightarrow> bool" where
  "dt_format dt \<longleftrightarrow>
     17 \<le> length dt \<and> list_all isdigit (take 8 dt) \<and> dt ! 8 = CHR ''T'' \<and>
     isdigit (dt ! 9) \<and> isdigit (dt ! 10) \<and> dt ! 11 = CHR '':'' \<and>
     isdigit (dt ! 12) \<and> isdigit (dt ! 13) \<and> dt ! 14 = CHR '':'' \<and>
     isdigit (dt ! 15) \<and> isdigit (dt ! 16) \<and>
     (17 < length dt \<longrightarrow> dt ! 17 = CHR ''.'' \<and> drop 18 dt \<noteq> [] \<and> list_all isdigit (drop 18 dt))"

lemma not_digit_None [simp]: "not_digit mk c env = None \<longleftrightarrow> isdigit c \<and> env = None"
  by (simp add: not_digit_def)

lemma not_colon_None [simp]: "not_colon mk c env = None \<longleftrightarrow> c = CHR '':'' \<and> env = None"
  by (simp add: not_colon_def)

lemma first_eight_Some: "first_eight mk s (Some f) = Some f"
  by (cases s) simp_all

lemma first_eight_None: "first_eight mk s env = None \<longleftrightarrow> env = None \<and> list_all isdigit s"
proof (induction s arbitrary: env)
  case (Cons c s)
  then show ?case by (cases env) auto
qed simp

lemma fraction_digits_None: "fraction_digits mk s env = None \<longleftrightarrow> env = None \<and> list_all isdigit s"
proof (induction s arbitrary: env)
  case (Cons c s)
  then show ?case by (cases env) auto
qed simp

lemma check_first17_None:
  "check_first17 mk dt env = None \<longleftrightarrow>
     env = None \<and> list_all isdigit (take 8 dt) \<and> dt ! 8 = CHR ''T'' \<and>
     isdigit (dt ! 9) \<and> isdigit (dt ! 10) \<and> dt ! 11 = CHR '':'' \<and>
     isdigit (dt ! 12) \<and> isdigit (dt ! 13) \<and> dt ! 14 = CHR '':'' \<and>
     isdigit (dt ! 15) \<and> isdigit (dt ! 16)"
  by (auto simp: check_first17_def first_eight_None Let_def)

lemma check_fraction_None:
  "check_fraction mk dt env = None \<longleftrightarrow>
     env = None \<and>
     (17 < length dt \<longrightarrow> dt ! 17 = CHR ''.'' \<and> drop 18 dt \<noteq> [] \<and> list_all isdigit (drop 18 dt)) \<or>
     False"
  by (auto simp: check_fraction_def fraction_digits_None)

lemma validateFormat_exact: "validateFormat dt = None \<longleftrightarrow> dt_format dt"
  unfolding validateFormat_def validateFirst17_def validateFractionalSeconds_def dt_format_def
  using check_first17_None [of faultf dt None] check_fraction_None [of faultf dt None]
  by (auto split: option.splits)

lemma validateFormatNoRegex_exact: "validateFormatNoRegex dt = None \<longleftrightarrow> dt_format dt"
  unfolding validateFormatNoRegex_def parse_validateFirst17_def parse_validateFractionalSeconds_def
    dt_format_def
  using check_first17_None [of parse_fault dt None]
    check_fraction_None [of parse_fault dt "check_first17 parse_fault dt None"]
  by auto

lemma dt_format_length: "dt_format dt \<Longrightarrow> length dt \<noteq> 18"
  by (auto simp: dt_format_def)

lemma datetime_new_str_aborts:
  "xmlrpc_datetime_new_str s = None \<longleftrightarrow> dt_format s \<and> 24 < length s"
proof (cases "validateFormat s")
  case None
  then have "dt_format s" by (simp add: validateFormat_exact)
  then show ?thesis
    using None dt_format_length [of s]
    by (auto simp: xmlrpc_datetime_new_str_def parseDatetimeString_def dt_format_def not_le)
next
  case (Some f)
  then have "\<not> dt_format s" using validateFormat_exact [of s] by simp
  with Some show ?thesis by (simp add: xmlrpc_datetime_new_str_def)
qed

lemma parseDatetime_returns: "\<exists>r. xmlrpc_parseDatetime have_regex s = Some r"
proof (cases "have_regex \<or> validateFormatNoRegex s \<noteq> None")
  case False
  then have "dt_format s" using validateFormatNoRegex_exact by blast
  with False show ?thesis
    by (auto simp: xmlrpc_parseDatetime_def parseDtNoRegex_def dt_format_def Let_def)
qed (auto simp: xmlrpc_parseDatetime_def)

section \<open>Ranges of what is parsed\<close>

definition datetime_ok :: "xmlrpc_datetime \<Rightarrow> bool" where
  "datetime_ok dt \<longleftrightarrow>
     1 \<le> dt_M dt \<and> dt_M dt \<le> 12 \<and> 1 \<le> dt_D dt \<and> dt_D dt \<le> 31 \<and> dt_h dt \<le> 23 \<and> dt_m dt \<le> 59 \<and>
     dt_s dt \<le> 59 \<and> dt_u dt \<le> 999999"

lemma validateXmlrpcDatetimeSome_exact: "validateXmlrpcDatetimeSome dt = Inr () \<longleftrightarrow> datetime_ok dt"
  by (auto simp: validateXmlrpcDatetimeSome_def datetime_ok_def)

lemma mod_horner: "(acc mod M * 10 + d) mod M = (10 * acc + d) mod M" for acc M d :: nat
proof -
  have "(acc mod M * 10) mod M = (acc * 10) mod M" by (rule mod_mult_left_eq)
  then have "(acc mod M * 10 + d) mod M = (acc * 10 + d) mod M" by (rule mod_add_cong) simp
  then show ?thesis by (simp add: mult.commute)
qed

lemma digitStringValue_scan:
  "list_all isdigit ds \<Longrightarrow> digitStringValue (Some ds) = fst (scan_digits 0 ds) mod 2 ^ 32"
proof -
  have "fold (\<lambda>c accum. (accum * 10 + nat (uchar c - 48)) mod 2 ^ 32) ds (acc mod 2 ^ 32)
      = fst (scan_digits acc ds) mod 2 ^ 32" if "list_all isdigit ds" for acc ds
    using that
  proof (induction ds arbitrary: acc)
    case (Cons c ds)
    have "(acc mod 2 ^ 32 * 10 + nat (uchar c - 48)) mod 2 ^ 32 = (10 * acc + digit_val c) mod 2 ^ 32"
      unfolding digit_val_def by (rule mod_horner)
    with Cons show ?case by simp
  qed simp
  from this [of ds 0] show "list_all isdigit ds \<Longrightarrow> ?thesis"
    by (simp add: digitStringValue_def)
qed

lemma re_match_Digs:
  "length ds = n \<Longrightarrow> list_all isdigit ds \<Longrightarrow>
   re_match (Digs n # r) (ds @ t) = map_option ((#) (Some ds)) (re_match r t)"
  by simp

lemma re_match_DigsD:
  assumes "re_match (Digs n # r) s = Some m"
  obtains ds m' where "m = Some ds # m'" "length ds = n" "list_all isdigit ds"
    "re_match r (drop n s) = Some m'"
  using assms by (auto split: if_splits)

lemma re_match_OptD:
  assumes "re_match (Opt c # r) s = Some m"
  obtains s' where "re_match r s' = Some m"
  using assms by (auto split: if_splits option.splits)

lemma re_match_ClsD:
  assumes "re_match (Cls cs # r) s = Some m"
  obtains s' where "re_match r s' = Some m"
  using assms by (auto split: if_splits)

lemma value_of_four: "length ds = 4 \<Longrightarrow> list_all isdigit ds \<Longrightarrow> digitStringValue (Some ds) \<le> 9999"
  using scan_digits_bound [of ds 0] by (simp add: digitStringValue_scan)

lemma re_match_year:
  assumes "re_match (Digs 4 # r) s = Some m"
  shows "digitStringValue (m ! 0) \<le> 9999"
  using assms by (elim re_match_DigsD) (simp add: value_of_four)

lemma parseDtRegex_year: "parseDtRegex s = Inr dt \<Longrightarrow> dt_Y dt \<le> 9999"
  using re_match_year [of _ s]
  by (auto simp: parseDtRegex_def iso8601Regex_def iso8601_standard_def iso8601_standardtzd_def
      subParseDtRegex_standard_def subParseDtRegex_standardtzd_def
      simp del: re_match.simps split: option.splits)

lemma atoi_digits:
  assumes "ds \<noteq> []" "list_all isdigit ds" "length ds \<le> 9"
  shows "atoi ds = fst (scan_digits 0 ds)"
proof -
  have "fst (scan_digits 0 ds) < 10 ^ length ds"
    using scan_digits_bound [OF assms(2), of 0] by simp
  also have "\<dots> \<le> 10 ^ 9" using assms(3) by (intro power_increasing) simp_all
  finally have bound: "fst (scan_digits 0 ds) < 1000000000" by simp
  then show ?thesis
    using strtol_digit_string [of ds "[]" "- (2 ^ 63)" "2 ^ 63 - 1"] assms
    by (simp add: atoi_def)
qed

lemma pad_digits:
  assumes "n < 10 ^ w" "0 < w"
  shows "length (pad_u w n) = w" "list_all isdigit (pad_u w n)" "fst (scan_digits 0 (pad_u w n)) = n"
    and "pad_u w n \<noteq> []"
proof -
  show "length (pad_u w n) = w" using assms by (rule length_pad_u)
  then show "pad_u w n \<noteq> []" using assms by auto
  show "list_all isdigit (pad_u w n)" using isdigit_pad_u by (auto simp: list_all_iff)
  show "fst (scan_digits 0 (pad_u w n)) = n" using scan_digits_pad_u [of "[]" w n] by simp
qed

lemma pad_atoi: "n < 10 ^ w \<Longrightarrow> 0 < w \<Longrightarrow> w \<le> 9 \<Longrightarrow> atoi (pad_u w n) = n"
  by (simp add: atoi_digits pad_digits)

lemma pad_value: "n < 10 ^ w \<Longrightarrow> 0 < w \<Longrightarrow> w \<le> 9 \<Longrightarrow> digitStringValue (Some (pad_u w n)) = n"
proof -
  assume "n < 10 ^ w" "0 < w" "w \<le> 9"
  moreover from this have "n < 10 ^ 9"
    using power_increasing [of w 9 "10::nat"] by linarith
  ultimately show ?thesis by (simp add: digitStringValue_scan pad_digits)
qed

lemma millionths_six:
  assumes "length ds = 6" "list_all isdigit ds"
  shows "digitStringMillionths (Some ds) = fst (scan_digits 0 ds)"
proof -
  obtain a b c d e f where "ds = [a, b, c, d, e, f]"
    using assms(1) by (auto simp: length_Suc_conv eval_nat_numeral)
  with assms(2) show ?thesis
    by (simp add: digitStringMillionths_def upt_rec digit_val_def)
qed

section \<open>Printing and parsing again\<close>

definition datetime_printable :: "xmlrpc_datetime \<Rightarrow> bool" where
  "datetime_printable dt \<longleftrightarrow> datetime_ok dt \<and> 1000 \<le> dt_Y dt \<and> dt_Y dt \<le> 9999"

lemma four_digit_year: "1000 \<le> y \<Longrightarrow> y \<le> 9999 \<Longrightarrow> dec_digits y = pad_u 4 y"
proof -
  assume y: "1000 \<le> y" "y \<le> 9999"
  have "length (dec_digits y) = 4"
    using y by (simp add: dec_digits_step)
  then show ?thesis by (simp add: pad_u_def)
qed

definition wire_text :: "string \<Rightarrow> string \<Rightarrow> string \<Rightarrow> string \<Rightarrow> string \<Rightarrow> string \<Rightarrow> string \<Rightarrow> string" where
  "wire_text y mo d h mi se fr = y @ mo @ d @ ''T'' @ h @ '':'' @ mi @ '':'' @ se @ fr"

definition fraction_text :: "nat \<Rightarrow> string" where
  "fraction_text u = (if u \<noteq> 0 then ''.'' @ pad_u 6 u else [])"

lemma datetime_wire_text:
  assumes "datetime_printable dt"
  shows "datetime_wire dt = Some (wire_text (pad_u 4 (dt_Y dt)) (pad_u 2 (dt_M dt)) (pad_u 2 (dt_D dt))
           (pad_u 2 (dt_h dt)) (pad_u 2 (dt_m dt)) (pad_u 2 (dt_s dt)) (fraction_text (dt_u dt)))"
  using assms four_digit_year [of "dt_Y dt"]
  by (auto simp: datetime_wire_def datetime_printable_def datetime_ok_def wire_text_def fraction_text_def)

lemma re_match_sep:
  "re_match r t = Some m \<Longrightarrow> re_match (Opt c # r) (c # t) = Some m"
  "peek t \<noteq> c \<Longrightarrow> re_match (Opt c # r) t = re_match r t"
  "c \<in> set cs \<Longrightarrow> re_match (Cls cs # r) (c # t) = re_match r t"
  by simp_all

lemma re_match_fraction:
  assumes "u < 1000000"
  shows "re_match [Opt (CHR ''.''), OptDigs 1 None] (fraction_text u)
       = Some [if u = 0 then None else Some (pad_u 6 u)]"
proof (cases "u = 0")
  case False
  have d: "length (pad_u 6 u) = 6" "list_all isdigit (pad_u 6 u)"
    using pad_digits [of u 6] assms by simp_all
  then have all: "takeWhile isdigit (pad_u 6 u) = pad_u 6 u"
    by (simp add: takeWhile_eq_all_conv list_all_iff)
  have "pad_u 6 u \<noteq> []" using d by auto
  then show ?thesis using False d(1) by (simp add: fraction_text_def Let_def all)
qed (simp add: fraction_text_def)

lemma digit_not_sep:
  "ds \<noteq> [] \<Longrightarrow> list_all isdigit ds \<Longrightarrow> peek (ds @ t) \<noteq> CHR ''-''"
  "ds \<noteq> [] \<Longrightarrow> list_all isdigit ds \<Longrightarrow> peek (ds @ t) \<noteq> CHR '':''"
  by (cases ds; auto simp: isdigit_def uchar_def)+

lemma re_match_wire:
  assumes "length y = 4" "length mo = 2" "length d = 2" "length h = 2" "length mi = 2" "length se = 2"
    "list_all isdigit y" "list_all isdigit mo" "list_all isdigit d" "list_all isdigit h"
    "list_all isdigit mi" "list_all isdigit se" "u < 1000000"
  shows "re_match iso8601_standard (wire_text y mo d h mi se (fraction_text u)) =
     Some [Some y, Some mo, Some d, Some h, Some mi, Some se, if u = 0 then None else Some (pad_u 6 u)]"
proof -
  note digs = re_match_Digs [OF assms(1,7)] re_match_Digs [OF assms(2,8)] re_match_Digs [OF assms(3,9)]
    re_match_Digs [OF assms(4,10)] re_match_Digs [OF assms(5,11)] re_match_Digs [OF assms(6,12)]
  have nonempty: "mo \<noteq> []" "d \<noteq> []" using assms(2,3) by auto
  have "re_match [Digs 2, Opt (CHR ''.''), OptDigs 1 None] (se @ fraction_text u)
      = Some [Some se, if u = 0 then None else Some (pad_u 6 u)]"
    by (simp only: digs re_match_fraction [OF assms(13)]) simp
  note step1 = re_match_sep(1) [OF this]
  have "re_match [Digs 2, Opt (CHR '':''), Digs 2, Opt (CHR ''.''), OptDigs 1 None]
      (mi @ CHR '':'' # se @ fraction_text u)
      = Some [Some mi, Some se, if u = 0 then None else Some (pad_u 6 u)]"
    by (simp only: digs step1) simp
  note step2 = re_match_sep(1) [OF this]
  show ?thesis
    unfolding iso8601_standard_def wire_text_def append.simps
    by (simp only: digs step2 re_match_sep(2) [OF digit_not_sep(1) [OF nonempty(1) assms(8)]]
        re_match_sep(2) [OF digit_not_sep(1) [OF nonempty(2) assms(9)]]
        re_match_sep(3) [of "CHR ''T''" "''Tt''"] list.set insert_iff simp_thms option.map)
qed

lemma parse_wire_regex:
  assumes "datetime_printable dt" "datetime_wire dt = Some s"
  shows "xmlrpc_parseDatetime True s = Some (Inr dt)"
proof -
  have ok: "datetime_ok dt" and ranges: "dt_Y dt < 10 ^ 4" "dt_M dt < 10 ^ 2" "dt_D dt < 10 ^ 2"
      "dt_h dt < 10 ^ 2" "dt_m dt < 10 ^ 2" "dt_s dt < 10 ^ 2" "dt_u dt < 1000000"
    using assms(1) by (simp_all add: datetime_printable_def datetime_ok_def)
  have s: "s = wire_text (pad_u 4 (dt_Y dt)) (pad_u 2 (dt_M dt)) (pad_u 2 (dt_D dt))
           (pad_u 2 (dt_h dt)) (pad_u 2 (dt_m dt)) (pad_u 2 (dt_s dt)) (fraction_text (dt_u dt))"
    using datetime_wire_text [OF assms(1)] assms(2) by simp
  have "re_match iso8601_standard s =
     Some [Some (pad_u 4 (dt_Y dt)), Some (pad_u 2 (dt_M dt)), Some (pad_u 2 (dt_D dt)),
           Some (pad_u 2 (dt_h dt)), Some (pad_u 2 (dt_m dt)), Some (pad_u 2 (dt_s dt)),
           if dt_u dt = 0 then None else Some (pad_u 6 (dt_u dt))]"
    unfolding s using ranges by (intro re_match_wire pad_digits) simp_all
  moreover have "dt_u dt \<noteq> 0 \<Longrightarrow> digitStringMillionths (Some (pad_u 6 (dt_u dt))) = dt_u dt"
    using ranges(7) pad_digits [of "dt_u dt" 6] by (simp add: millionths_six)
  moreover have "digitStringValue (Some (pad_u 4 (dt_Y dt))) = dt_Y dt"
    "digitStringValue (Some (pad_u 2 (dt_M dt))) = dt_M dt" "digitStringValue (Some (pad_u 2 (dt_D dt))) = dt_D dt"
    "digitStringValue (Some (pad_u 2 (dt_h dt))) = dt_h dt" "digitStringValue (Some (pad_u 2 (dt_m dt))) = dt_m dt"
    "digitStringValue (Some (pad_u 2 (dt_s dt))) = dt_s dt"
    by (rule pad_value; use ranges in simp)+
  ultimately have "parseDtRegex s = Inr dt"
    by (simp add: parseDtRegex_def iso8601Regex_def subParseDtRegex_standard_def)
  then show ?thesis
    using ok validateXmlrpcDatetimeSome_exact [of dt] by (simp add: xmlrpc_parseDatetime_def)
qed

section \<open>Unix time and back\<close>

lemma to_int_small: "0 \<le> i \<Longrightarrow> i < 2 ^ 31 \<Longrightarrow> to_int i = i"
  by (simp add: to_int_def)

lemma datetime_usec_roundtrip:
  assumes "0 \<le> secs" "secs < 2 ^ 32" "usecs < 1000000"
  shows "\<exists>dt. xmlrpc_datetime_new_usec secs usecs = Inr dt \<and> datetime_to_usec dt = Inr (secs, usecs) \<and>
           datetime_ok dt"
proof -
  let ?t = "xmlrpc_gmtime secs"
  note g = gmtime_fields [OF assms(1)]
  have year: "tm_year ?t \<le> 206" by (rule gmtime_year_bound [OF assms(1,2)])
  let ?dt = "\<lparr>dt_Y = nat (1900 + tm_year ?t), dt_M = nat (tm_mon ?t + 1), dt_D = nat (tm_mday ?t),
    dt_h = nat (tm_hour ?t), dt_m = nat (tm_min ?t), dt_s = nat (tm_sec ?t), dt_u = usecs\<rparr>"
  have dt: "xmlrpc_datetime_new_usec secs usecs = Inr ?dt"
    using g year assms(3) by (simp add: xmlrpc_datetime_new_usec_def Let_def)
  have "broken_time ?dt = ?t"
  proof -
    have "to_int (int (nat (tm_sec ?t))) = tm_sec ?t" "to_int (int (nat (tm_min ?t))) = tm_min ?t"
      "to_int (int (nat (tm_hour ?t))) = tm_hour ?t" "to_int (int (nat (tm_mday ?t))) = tm_mday ?t"
      "to_int (int (nat (tm_mon ?t + 1)) - 1) = tm_mon ?t"
      "to_int (int (nat (1900 + tm_year ?t)) - 1900) = tm_year ?t"
      using g year by (simp_all add: to_int_small)
    then show ?thesis by (simp add: broken_time_def)
  qed
  then have "datetime_to_usec ?dt = Inr (secs, usecs)"
    using g year assms by (simp add: datetime_to_usec_def timegm_gmtime)
  moreover have "datetime_ok ?dt"
    using g assms(3) by (simp add: datetime_ok_def nat_le_iff le_nat_iff)
  ultimately show ?thesis using dt by blast
qed

lemma datetime_to_usec_exact:
  assumes "datetime_ok dt" "1970 \<le> dt_Y dt" "dt_Y dt \<le> 9999"
  shows "datetime_to_usec dt = Inr (epoch_secs (broken_time dt) mod 2 ^ 32, dt_u dt)"
proof -
  have "tm_accepted (broken_time dt)"
    using assms by (simp add: tm_accepted_def broken_time_def datetime_ok_def to_int_small)
  from timegm_accepted [OF this] assms show ?thesis by (simp add: datetime_to_usec_def)
qed

text \<open>Every datetime that is parsed can be written as ISO 8601.\<close>

lemma fixed_fields_year: "dt_format s \<Longrightarrow> dt_Y (fixed_fields s) \<le> 9999"
proof -
  assume f: "dt_format s"
  have d: "list_all isdigit (take 4 s)" "length (take 4 s) = 4"
  proof -
    have "take 4 s = take 4 (take 8 s)" by simp
    moreover have "list_all isdigit (take 8 s)" using f by (simp add: dt_format_def)
    ultimately show "list_all isdigit (take 4 s)"
      by (metis in_set_takeD list_all_iff)
    show "length (take 4 s) = 4" using f by (simp add: dt_format_def)
  qed
  then have "take 4 s \<noteq> []" by auto
  with d have "atoi (take 4 s) = fst (scan_digits 0 (take 4 s))" by (intro atoi_digits) simp_all
  then show ?thesis
    using scan_digits_bound [OF d(1), of 0] d(2) by (simp add: fixed_fields_def substr_def)
qed

lemma parsed_datetime_ranges:
  assumes "xmlrpc_parseDatetime have_regex s = Some (Inr dt)"
  shows "datetime_ok dt \<and> dt_Y dt \<le> 9999"
proof -
  have v: "validateXmlrpcDatetimeSome dt = Inr ()"
    using assms by (auto simp: xmlrpc_parseDatetime_def bindE_Inr_conv)
  have "dt_Y dt \<le> 9999"
  proof (cases have_regex)
    case True
    then have "parseDtRegex s = Inr dt"
      using assms by (auto simp: xmlrpc_parseDatetime_def bindE_Inr_conv)
    then show ?thesis by (rule parseDtRegex_year)
  next
    case False
    then have none: "validateFormatNoRegex s = None"
      using assms by (auto simp: xmlrpc_parseDatetime_def split: option.splits)
    then have "parseDtNoRegex s = Some (Inr dt)"
      using assms False by (auto simp: xmlrpc_parseDatetime_def bindE_Inr_conv split: option.splits)
    then have "dt = fixed_fields s" by (auto simp: parseDtNoRegex_def Let_def split: if_splits)
    then show ?thesis using fixed_fields_year none validateFormatNoRegex_exact by simp
  qed
  with v show ?thesis using validateXmlrpcDatetimeSome_exact [of dt] by simp
qed

section \<open>Properties\<close>

text \<open>C26: a datetime from year 1000 to 9999 with its fields in range is parsed back exactly from
  the text the serializer writes for it, microseconds included.\<close>
theorem datetime_wire_roundtrip:
  assumes "datetime_printable dt"
  shows "\<exists>s. datetime_wire dt = Some s \<and> xmlrpc_parseDatetime True s = Some (Inr dt)"
  using datetime_wire_text [OF assms] parse_wire_regex [OF assms] by blast

lemma datetime_wire_roundtrip_witness:
  "\<exists>s. datetime_wire \<lparr>dt_Y = 1998, dt_M = 7, dt_D = 17, dt_h = 14, dt_m = 8, dt_s = 55, dt_u = 250\<rparr>
         = Some s \<and>
       xmlrpc_parseDatetime True s = Some (Inr
         \<lparr>dt_Y = 1998, dt_M = 7, dt_D = 17, dt_h = 14, dt_m = 8, dt_s = 55, dt_u = 250\<rparr>)"
  by (rule datetime_wire_roundtrip) (simp add: datetime_printable_def datetime_ok_def)

text \<open>C28: a Unix time before the year 2106, made into a datetime and read back, is the same time
  with the same microseconds.\<close>
theorem datetime_unix_time_roundtrip:
  assumes "0 \<le> secs" "secs < 2 ^ 32" "usecs < 1000000"
  shows "bindE (xmlrpc_datetime_new_usec secs usecs) datetime_to_usec = Inr (secs, usecs)"
  using datetime_usec_roundtrip [OF assms] by auto

lemma datetime_unix_time_roundtrip_witness:
  "bindE (xmlrpc_datetime_new_usec 1234567890 42) datetime_to_usec = Inr (1234567890, 42)"
  by (rule datetime_unix_time_roundtrip) simp_all

text \<open>C33: for every datetime in range from 1970 to 9999, the Unix time that is read is the number
  of seconds of the Gregorian calendar, reduced modulo 2^32: right until 2106, wrapped around after.\<close>
theorem datetime_to_unix_time_exact:
  assumes "datetime_ok dt" "1970 \<le> dt_Y dt" "dt_Y dt \<le> 9999"
  shows "datetime_to_usec dt = Inr (epoch_secs (broken_time dt) mod 2 ^ 32, dt_u dt)"
  using assms by (rule datetime_to_usec_exact)

lemma datetime_to_unix_time_exact_witness:
  "datetime_to_usec \<lparr>dt_Y = 2106, dt_M = 2, dt_D = 7, dt_h = 6, dt_m = 28, dt_s = 16, dt_u = 0\<rparr>
   = Inr (epoch_secs (broken_time
       \<lparr>dt_Y = 2106, dt_M = 2, dt_D = 7, dt_h = 6, dt_m = 28, dt_s = 16, dt_u = 0\<rparr>) mod 2 ^ 32, 0)"
  using datetime_to_unix_time_exact
    [of "\<lparr>dt_Y = 2106, dt_M = 2, dt_D = 7, dt_h = 6, dt_m = 28, dt_s = 16, dt_u = 0\<rparr>"]
  by (simp add: datetime_ok_def)

text \<open>The legacy constructor aborts on exactly the strings its validation passes that have more
  than six fractional digits; on any other string it returns or faults.\<close>
theorem datetime_new_str_aborts_exactly:
  "xmlrpc_datetime_new_str s = None \<longleftrightarrow> dt_format s \<and> 24 < length s"
  by (rule datetime_new_str_aborts)

text \<open>Parsing a datetime element always returns, with or without regular expressions, and a
  datetime it returns has its fields in range and a four-digit year.\<close>
theorem parseDatetime_total_and_in_range:
  "\<exists>r. xmlrpc_parseDatetime have_regex s = Some r \<and>
       (case r of Inl f \<Rightarrow> True | Inr dt \<Rightarrow> datetime_ok dt \<and> dt_Y dt \<le> 9999)"
  using parseDatetime_returns [of have_regex s] parsed_datetime_ranges [of have_regex s]
  by (auto split: sum.splits)

end
