(* ===== verification/Utf8_Codec.thy ===== *)
theory Utf8_Codec
  imports Memblock
begin

text \<open>
  The strict UTF-8 decoder, validator and encoder of \<open>lib/libutil/utf8.c\<close>.  A \<open>wchar_t\<close> is a
  signed 32-bit value, here an \<open>int\<close>; \<open>utf8_data[utf8Cursor]\<close> and what follows is the string
  the loop runs on.
\<close>

section \<open>Decoding\<close>

definition utf8_fault :: "piece list \<Rightarrow> fault" where
  "utf8_fault = set_fault_formatted XMLRPC_INVALID_UTF8_ERROR"

definition validateContinuation :: "char \<Rightarrow> unit result" where
  "validateContinuation c =
     (if \<not> IS_CONTINUATION c
      then Inl (utf8_fault [Txt ''UTF-8 multibyte sequence contains character 0x'',
                            PctX 2 (schar c), Txt '', which does not indicate continuation.''])
      else Inr ())"

definition validateUtf16 :: "int \<Rightarrow> unit result" where
  "validateUtf16 wc =
     (if wc > UCS2_MAX_LEGAL_CHARACTER
      then Inl (utf8_fault
        [Txt ''Xmlrpc-c is not capable of handling UTF16 character encodings '',
         Txt ''longer than 16 bits, which means you can't have a code point '',
         Txt ''> U+FFFD.  '', Txt ''This string contains 0x'', PctX 4 wc])
      else if UTF16_FIRST_SURROGATE \<le> wc \<and> wc \<le> UTF16_LAST_SURROGATE
      then Inl (utf8_fault
        [Txt ''UTF-16 surrogates may not appear in UTF-8 data.  '',
         Txt ''String contains '', PctX 4 wc])
      else Inr ())"

definition decodeMultibyte :: "string \<Rightarrow> nat \<Rightarrow> int result" where
  "decodeMultibyte utf8_seq len =
     bindE
       (if len = 2 then
          bindE (validateContinuation (utf8_seq ! 1)) (\<lambda>_.
          Inr (utf8_join2 (utf8_seq ! 0) (utf8_seq ! 1)))
        else if len = 3 then
          bindE (validateContinuation (utf8_seq ! 1)) (\<lambda>_.
          bindE (validateContinuation (utf8_seq ! 2)) (\<lambda>_.
          Inr (utf8_join3 (utf8_seq ! 0) (utf8_seq ! 1) (utf8_seq ! 2))))
        else if len = 4 \<or> len = 5 \<or> len = 6 then
          Inl (utf8_fault [Txt ''UTF-8 string contains a character not in the '',
                           Txt ''Basic Multilingual Plane (first byte 0x'',
                           PctX 2 (schar (utf8_seq ! 0)), Txt '')''])
        else
          Inl (faultf [Txt ''Internal error: Impossible UTF-8 sequence length '', PctU len]))
       (\<lambda>wc. bindE (validateUtf16 wc) (\<lambda>_.
          if wc < utf8_min_char_for_length ! len
          then Inl (utf8_fault [Txt ''Overlong UTF-8 sequence not allowed''])
          else Inr wc))"

text \<open>One iteration of the loop: the character and the bytes it took.\<close>

definition decode_step :: "string \<Rightarrow> (int \<times> nat) result" where
  "decode_step data =
     (let init = peek data in
      if schar init AND 0x80 = 0 then Inr (schar init, 1)
      else
        let length = utf8SeqLength init in
        if length = 0
        then Inl (utf8_fault [Txt ''Unrecognized UTF-8 initial byte value 0x'', PctX 2 (uchar init)])
        else if List.length data < length
        then Inl (utf8_fault [Txt ''Invalid UTF-8 sequence indicates a '', PctU length,
               Txt ''-byte sequence '', Txt ''when only '', PctU (List.length data mod 2 ^ 32),
               Txt '' bytes are left in the string''])
        else bindE (decodeMultibyte data length) (\<lambda>wc. Inr (wc, length)))"

lemma high_bit_iff: "schar c AND 0x80 = 0 \<longleftrightarrow> uchar c < 128"
proof -
  have "\<forall>c. schar c AND 0x80 = 0 \<longleftrightarrow> uchar c < 128" by code_simp
  then show ?thesis by blast
qed

lemma decode_step_advances: "decode_step data = Inr (wc, n) \<Longrightarrow> 0 < n"
  by (auto simp: decode_step_def Let_def bindE_Inr_conv split: if_splits)

function decodeUtf8 :: "string \<Rightarrow> int list result" where
  "decodeUtf8 [] = Inr []"
| "decodeUtf8 (c # s) =
     (case decode_step (c # s) of
        Inl f \<Rightarrow> Inl f
      | Inr (wc, n) \<Rightarrow> bindE (decodeUtf8 (drop n (c # s))) (\<lambda>wcs. Inr (wc # wcs)))"
  by pat_completeness auto
termination
  by (relation "measure length") (auto dest!: decode_step_advances)

declare decodeUtf8.simps(2) [simp del]

definition xmlrpc_utf8_to_wcs :: "(nat \<Rightarrow> bool) \<Rightarrow> string \<Rightarrow> int mem_block result" where
  "xmlrpc_utf8_to_wcs mok utf8_data =
     bindE (mem_block_new mok 4 (length utf8_data)) (\<lambda>wcs.
     bindE (decodeUtf8 utf8_data) (\<lambda>buff.
     mem_block_resize mok 4
       (wcs\<lparr>blk_cells := Some (write_cells 0 buff (mem_block_contents wcs))\<rparr>) (length buff)))"

definition xmlrpc_validate_utf8 :: "string \<Rightarrow> unit result" where
  "xmlrpc_validate_utf8 utf8_data =
     (case decodeUtf8 utf8_data of
        Inl f \<Rightarrow> Inl (utf8_fault [PctD (int (length utf8_data)), Txt ''-byte '',
                  Txt ''supposed UTF-8 string is not valid UTF-8.  '', PctS (text_of f)])
      | Inr _ \<Rightarrow> Inr ())"

section \<open>Encoding\<close>

definition MAX_ENCODED_BYTES :: nat where "MAX_ENCODED_BYTES = 3"

definition encode_wchar :: "int \<Rightarrow> string result" where
  "encode_wchar wc =
     (if wc \<le> 0x007F then Inr [chr (wc AND 0x7F)]
      else if wc \<le> 0x07FF then Inr [chr (0xC0 OR drop_bit 6 wc), chr (0x80 OR (wc AND 0x3F))]
      else if wc \<le> 0xFFFF then
        Inr [chr (0xE0 OR drop_bit 12 wc), chr (0x80 OR (drop_bit 6 wc AND 0x3F)),
             chr (0x80 OR (wc AND 0x3F))]
      else Inl (faultf [Txt ''Don't know how to encode UCS-4 characters yet'']))"

fun encode_wchars :: "int list \<Rightarrow> string result" where
  "encode_wchars [] = Inr []"
| "encode_wchars (wc # wcs) =
     bindE (encode_wchar wc) (\<lambda>b. bindE (encode_wchars wcs) (\<lambda>bs. Inr (b @ bs)))"

definition xmlrpc_wcs_to_utf8 :: "(nat \<Rightarrow> bool) \<Rightarrow> int list \<Rightarrow> char mem_block result" where
  "xmlrpc_wcs_to_utf8 mok wcs =
     (let estimate = length wcs * MAX_ENCODED_BYTES in
      bindE (mem_block_new mok 1 estimate) (\<lambda>utf8.
      bindE (encode_wchars wcs) (\<lambda>buffer.
      mem_block_resize mok 1
        (utf8\<lparr>blk_cells := Some (write_cells 0 buffer (mem_block_contents utf8))\<rparr>) (length buffer))))"

section \<open>The decoder reads exactly the UTF-8 texts\<close>

lemma decode_step_head:
  "data \<noteq> [] \<Longrightarrow> decode_step data = Inr (w, n) \<longleftrightarrow> utf8_head data = Some (w, n)"
proof -
  assume "data \<noteq> []"
  then obtain c s where p: "data = c # s" by (cases data) auto
  consider (one) "uchar c < 128" | (bad) "128 \<le> uchar c" "uchar c < 192"
    | (two) "192 \<le> uchar c" "uchar c < 224" | (three) "224 \<le> uchar c" "uchar c < 240"
    | (long) "240 \<le> uchar c"
    by linarith
  then show ?thesis
  proof cases
    case one
    then show ?thesis by (auto simp: p decode_step_def utf8_head_def high_bit_iff)
  next
    case bad
    then show ?thesis
      by (simp add: p decode_step_def utf8_head_def high_bit_iff utf8SeqLength_cases)
  next
    case two
    then have len: "utf8SeqLength c = 2" by (simp add: utf8SeqLength_cases)
    show ?thesis
    proof (cases s)
      case Nil
      with two len show ?thesis by (simp add: p decode_step_def utf8_head_def high_bit_iff)
    next
      case (Cons d r)
      show ?thesis
      proof (cases "IS_CONTINUATION d")
        case True
        let ?w = "(uchar c - 192) * 64 + (uchar d - 128)"
        have w: "utf8_join2 c d = ?w" "?w < 0x800"
          using True two by (simp_all add: join_two lead_byte_mod IS_CONTINUATION_iff)
        have "decodeMultibyte data 2 =
            (if ?w < 0x80 then Inl (utf8_fault [Txt ''Overlong UTF-8 sequence not allowed'']) else Inr ?w)"
          using True w(2)
          by (simp add: p Cons decodeMultibyte_def validateContinuation_def validateUtf16_def
              ucs2_consts w(1))
        with two len True Cons show ?thesis
          by (auto simp: p decode_step_def utf8_head_def high_bit_iff Let_def)
      next
        case False
        with two len Cons show ?thesis
          by (simp add: p decode_step_def utf8_head_def high_bit_iff Let_def decodeMultibyte_def
              validateContinuation_def)
      qed
    qed
  next
    case three
    then have len: "utf8SeqLength c = 3" by (simp add: utf8SeqLength_cases)
    show ?thesis
    proof (cases "3 \<le> length data")
      case False
      with three len show ?thesis
        by (cases s; cases "tl s") (auto simp: p decode_step_def utf8_head_def high_bit_iff)
    next
      case True
      then obtain d e r where s: "s = d # e # r" by (cases s; cases "tl s") (auto simp: p)
      show ?thesis
      proof (cases "IS_CONTINUATION d \<and> IS_CONTINUATION e")
        case True
        let ?w = "(uchar c - 224) * 4096 + (uchar d - 128) * 64 + (uchar e - 128)"
        have w: "utf8_join3 c d e = ?w"
          using True three by (simp add: join_three lead_byte_mod IS_CONTINUATION_iff)
        have "decodeMultibyte data 3 =
            bindE (validateUtf16 ?w) (\<lambda>_. if ?w < 0x800
              then Inl (utf8_fault [Txt ''Overlong UTF-8 sequence not allowed'']) else Inr ?w)"
          using True by (simp add: p s decodeMultibyte_def validateContinuation_def w)
        moreover have "0 \<le> ?w" using three True by (simp add: IS_CONTINUATION_iff)
        moreover have "isOK (validateUtf16 ?w) \<longleftrightarrow> ucs2_legal ?w"
          using \<open>0 \<le> ?w\<close> by (auto simp: validateUtf16_def ucs2_legal_def ucs2_consts)
        ultimately show ?thesis
          using three len True
          by (cases "validateUtf16 ?w")
            (auto simp: p s decode_step_def utf8_head_def high_bit_iff Let_def)
      next
        case False
        with three len show ?thesis
          by (auto simp: p s decode_step_def utf8_head_def high_bit_iff Let_def decodeMultibyte_def
              validateContinuation_def)
      qed
    qed
  next
    case long
    then have "utf8SeqLength c = 0 \<or> utf8SeqLength c \<in> {4, 5, 6}"
      by (simp add: utf8SeqLength_cases)
    with long show ?thesis
      by (auto simp: p decode_step_def utf8_head_def high_bit_iff Let_def decodeMultibyte_def)
  qed
qed

lemma decodeUtf8_step:
  assumes "utf8_head data = Some (w, n)"
  shows "decodeUtf8 data = bindE (decodeUtf8 (drop n data)) (\<lambda>ws. Inr (w # ws))"
proof -
  obtain c s where data: "data = c # s" using assms by (cases data) (auto simp: utf8_head_def)
  then have "decode_step (c # s) = Inr (w, n)"
    using assms decode_step_head [of data w n] by simp
  then show ?thesis by (simp add: data decodeUtf8.simps(2))
qed

lemma decodeUtf8_encs: "list_all ucs2_legal ws \<Longrightarrow> decodeUtf8 (utf8_encs ws) = Inr ws"
proof (induction ws)
  case (Cons w ws)
  then show ?case
    using decodeUtf8_step [of "utf8_enc w @ utf8_encs ws" w "length (utf8_enc w)"]
    by (simp add: utf8_head_enc)
qed simp

lemma decodeUtf8_sound:
  "decodeUtf8 data = Inr ws \<Longrightarrow> list_all ucs2_legal ws \<and> data = utf8_encs ws"
proof (induction data arbitrary: ws rule: decodeUtf8.induct)
  case 1
  then show ?case by simp
next
  case (2 c s)
  obtain w n where step: "decode_step (c # s) = Inr (w, n)"
    using "2.prems" by (auto simp: decodeUtf8.simps(2) split: sum.splits)
  then obtain ws' where ws: "decodeUtf8 (drop n (c # s)) = Inr ws'" "ws = w # ws'"
    using "2.prems" by (auto simp: decodeUtf8.simps(2) bindE_Inr_conv)
  have "utf8_head (c # s) = Some (w, n)"
    using step decode_step_head by blast
  note head = utf8_head_SomeD [OF this]
  have IH: "list_all ucs2_legal ws' \<and> drop n (c # s) = utf8_encs ws'"
    using "2.IH" step ws(1) by blast
  then have "c # s = utf8_enc w @ utf8_encs ws'"
    using head(3) by metis
  with IH head(1) show ?case by (simp only: ws list.pred_inject utf8_encs_simps simp_thms)
qed

text \<open>
  C: the decoder accepts exactly the concatenations of shortest encodings of legal UCS-2
  characters, and then returns those characters.
\<close>

lemma decodeUtf8_exact:
  "decodeUtf8 data = Inr ws \<longleftrightarrow> list_all ucs2_legal ws \<and> data = utf8_encs ws"
  using decodeUtf8_sound decodeUtf8_encs by blast

lemma utf8_encs_inject:
  "list_all ucs2_legal us \<Longrightarrow> list_all ucs2_legal ws \<Longrightarrow> utf8_encs us = utf8_encs ws \<longleftrightarrow> us = ws"
  by (metis decodeUtf8_encs sum.inject(2))

lemma isOK_decodeUtf8: "isOK (decodeUtf8 data) \<longleftrightarrow> utf8_text data"
  by (auto simp: isOK_iff decodeUtf8_exact utf8_text_def)

lemma decodeUtf8_fault_code:
  "decodeUtf8 data = Inl f \<Longrightarrow> code_of f = XMLRPC_INVALID_UTF8_ERROR"
proof (induction data rule: decodeUtf8.induct)
  case (2 c s)
  show ?case
  proof (cases "decode_step (c # s)")
    case (Inl g)
    have "utf8SeqLength c \<in> {0, 1, 2, 3, 4, 5, 6}" by (simp add: utf8SeqLength_cases)
    moreover have "utf8SeqLength c = 1 \<Longrightarrow> uchar c < 128"
      by (simp add: utf8SeqLength_cases split: if_splits)
    ultimately have "code_of g = XMLRPC_INVALID_UTF8_ERROR"
      using Inl
      by (auto simp: decode_step_def decodeMultibyte_def validateContinuation_def
          validateUtf16_def bindE_Inl_conv utf8_fault_def high_bit_iff Let_def split: if_splits)
    with 2 Inl show ?thesis by (simp add: decodeUtf8.simps(2))
  next
    case (Inr wn)
    with 2 show ?thesis
      by (cases wn) (auto simp: decodeUtf8.simps(2) bindE_Inl_conv)
  qed
qed simp

lemma length_utf8_encs: "length ws \<le> length (utf8_encs ws)"
  by (induction ws) (auto simp: utf8_enc_def)

section \<open>The encoder\<close>

lemma encode_wchar_legal: "ucs2_legal w \<Longrightarrow> encode_wchar w = Inr (utf8_enc w)"
proof -
  assume "ucs2_legal w"
  then have w: "0 \<le> w" "w < 0x10000" by (auto simp: ucs2_legal_def)
  have cont: "0x80 OR (x AND 0x3F) = 128 + x mod 64" for x :: int
    using or_disjoint [of "x mod 64" 6 2] by (simp add: char_bits)
  have low: "w < 0x800 \<Longrightarrow> 0xC0 OR drop_bit 6 w = 192 + w div 64"
    using or_disjoint [of "w div 64" 5 6] w by (simp add: drop_bit_eq_div)
  have high: "0xE0 OR drop_bit 12 w = 224 + w div 4096"
    using or_disjoint [of "w div 4096" 4 14] w by (simp add: drop_bit_eq_div)
  have six: "drop_bit 6 w = w div 64" by (simp add: drop_bit_eq_div)
  consider "w < 0x80" | "0x80 \<le> w" "w < 0x800" | "0x800 \<le> w" by linarith
  then show ?thesis
  proof cases
    case 1
    then have "w AND 0x7F = w" using w by (simp add: char_bits)
    with 1 show ?thesis by (simp add: encode_wchar_def utf8_enc_def)
  next
    case 2
    then show ?thesis by (simp add: encode_wchar_def utf8_enc_def cont low)
  next
    case 3
    have "encode_wchar w = Inr [chr (0xE0 OR drop_bit 12 w), chr (0x80 OR (drop_bit 6 w AND 0x3F)),
             chr (0x80 OR (w AND 0x3F))]"
      using 3 w by (simp add: encode_wchar_def)
    then show ?thesis using 3 by (simp only: cont high six utf8_enc_three)
  qed
qed

lemma encode_wchars_legal: "list_all ucs2_legal ws \<Longrightarrow> encode_wchars ws = Inr (utf8_encs ws)"
  by (induction ws) (simp_all add: encode_wchar_legal)

lemma length_encode_wchar: "encode_wchar w = Inr b \<Longrightarrow> length b \<le> MAX_ENCODED_BYTES"
  by (auto simp: encode_wchar_def MAX_ENCODED_BYTES_def split: if_splits)

lemma length_encode_wchars: "encode_wchars ws = Inr b \<Longrightarrow> length b \<le> length ws * MAX_ENCODED_BYTES"
proof (induction ws arbitrary: b)
  case (Cons w ws)
  then obtain b1 b2 where "encode_wchar w = Inr b1" "encode_wchars ws = Inr b2" "b = b1 @ b2"
    by (auto simp: bindE_Inr_conv)
  with Cons.IH show ?case
    using length_encode_wchar by fastforce
qed simp

lemma xmlrpc_utf8_to_wcs_text:
  assumes "list_all ucs2_legal ws" "mok SIZEOF_MEM_BLOCK"
    and "mok (max BLOCK_ALLOC_MIN (4 * length (utf8_encs ws)))"
  shows "\<exists>b. xmlrpc_utf8_to_wcs mok (utf8_encs ws) = Inr b \<and> block_ready 4 b \<and> block_data 4 b = ws"
proof -
  obtain b :: "int mem_block" where b: "mem_block_new mok 4 (length (utf8_encs ws)) = Inr b"
    "mem_block_wf 4 b" "blk_size b = 4 * length (utf8_encs ws)"
    using mem_block_new_ok [of 4 mok "length (utf8_encs ws)"] assms(2,3) by auto
  have "length ws \<le> blk_size b div 4" using b(3) length_utf8_encs [of ws] by simp
  from fill_and_resize [OF b(2) this order_refl] show ?thesis
    using b(1) assms(1) by (auto simp: xmlrpc_utf8_to_wcs_def decodeUtf8_encs)
qed

lemma xmlrpc_wcs_to_utf8_text:
  assumes "list_all ucs2_legal ws" "mok SIZEOF_MEM_BLOCK"
    and "mok (max BLOCK_ALLOC_MIN (3 * length ws))"
  shows "\<exists>b. xmlrpc_wcs_to_utf8 mok ws = Inr b \<and> block_ready 1 b \<and> block_data 1 b = utf8_encs ws"
proof -
  obtain b :: "char mem_block" where b: "mem_block_new mok 1 (3 * length ws) = Inr b"
    "mem_block_wf 1 b" "blk_size b = 3 * length ws"
    using mem_block_new_ok [of 1 mok "3 * length ws"] assms(2,3) by auto
  have "length (utf8_encs ws) \<le> blk_size b div 1"
    using length_encode_wchars [OF encode_wchars_legal [OF assms(1)]] b(3)
    by (simp add: MAX_ENCODED_BYTES_def mult.commute)
  from fill_and_resize [OF b(2) this order_refl] show ?thesis
    using b(1) assms(1)
    by (auto simp: xmlrpc_wcs_to_utf8_def encode_wchars_legal MAX_ENCODED_BYTES_def mult.commute)
qed

lemma isOK_validate_utf8: "isOK (xmlrpc_validate_utf8 s) \<longleftrightarrow> utf8_text s"
  using isOK_decodeUtf8 [of s] by (auto simp: xmlrpc_validate_utf8_def split: sum.splits)

section \<open>Properties\<close>

text \<open>C20: the decoder accepts exactly the concatenations of shortest encodings of legal
  UCS-2 characters (no overlong form, no surrogate, nothing above U+FFFD), returning exactly those
  characters; any other byte string leaves the fault \<open>XMLRPC_INVALID_UTF8_ERROR\<close>.\<close>
theorem decodeUtf8_accepts_exactly_utf8:
  "(decodeUtf8 data = Inr ws \<longleftrightarrow> list_all ucs2_legal ws \<and> data = utf8_encs ws) \<and>
   (isOK (decodeUtf8 data) \<or>
    (\<exists>f. decodeUtf8 data = Inl f \<and> code_of f = XMLRPC_INVALID_UTF8_ERROR))"
  using decodeUtf8_exact [of data ws] decodeUtf8_fault_code [of data]
  by (cases "decodeUtf8 data") auto

text \<open>C27: encoding a wide string and decoding the bytes gives the same wide string, in blocks
  whose every cell was written, whenever memory for the two buffers is there.\<close>
theorem wcs_utf8_roundtrip:
  assumes "list_all ucs2_legal ws" "mok SIZEOF_MEM_BLOCK"
    and "mok (max BLOCK_ALLOC_MIN (3 * length ws))"
    and "mok (max BLOCK_ALLOC_MIN (4 * length (utf8_encs ws)))"
  shows "\<exists>utf8 wcs. xmlrpc_wcs_to_utf8 mok ws = Inr utf8 \<and> block_ready 1 utf8 \<and>
           xmlrpc_utf8_to_wcs mok (block_data 1 utf8) = Inr wcs \<and> block_ready 4 wcs \<and>
           block_data 4 wcs = ws"
  using xmlrpc_wcs_to_utf8_text [OF assms(1-3)] xmlrpc_utf8_to_wcs_text [OF assms(1,2,4)] by metis

lemma wcs_utf8_roundtrip_witness:
  "\<exists>utf8 wcs. xmlrpc_wcs_to_utf8 always [0x41, 0xE9, 0x20AC] = Inr utf8 \<and> block_ready 1 utf8 \<and>
     xmlrpc_utf8_to_wcs always (block_data 1 utf8) = Inr wcs \<and> block_ready 4 wcs \<and>
     block_data 4 wcs = [0x41, 0xE9, 0x20AC]"
  by (rule wcs_utf8_roundtrip) (simp_all add: ucs2_legal_def always_def)

text \<open>\<open>xmlrpc_validate_utf8\<close> accepts a string exactly when it is UTF-8 text.\<close>
theorem validate_utf8_exact: "isOK (xmlrpc_validate_utf8 s) = utf8_text s"
  using isOK_validate_utf8 .

end
