(* ===== verification/Values.thy ===== *)
theory Values
  imports Datetime Utf8_Codec
begin

text \<open>
  XML-RPC values as trees: the types, construction and reading of simple values
  (\<open>src/xmlrpc_data.c\<close>) and of datetimes (\<open>src/xmlrpc_datetime.c\<close>).  Reference counts and
  sharing are the subject of \<open>Value_Heap\<close>.  A \<open>double\<close> is a value of the type variable
  \<open>'d\<close>: the code never looks inside one.  \<open>XString s\<close> is a value whose \<open>_block\<close> holds \<open>s\<close>
  followed by a NUL; the cached wide copy of it is computed on each use.
\<close>

section \<open>Types and values\<close>

datatype xmlrpc_type =
    TYPE_INT | TYPE_BOOL | TYPE_DOUBLE | TYPE_DATETIME | TYPE_STRING | TYPE_BASE64
  | TYPE_ARRAY | TYPE_STRUCT | TYPE_C_PTR | TYPE_NIL | TYPE_I8 | TYPE_DEAD

datatype 'd xvalue =
    XInt "32 word"
  | XBool "32 word"
  | XDouble 'd
  | XDatetime xmlrpc_datetime
  | XString string
  | XBase64 "char list"
  | XArray "'d xvalue list"
  | XStruct "(string \<times> 'd xvalue) list"
  | XCptr nat
  | XNil
  | XI8 "64 word"

fun value_type :: "'d xvalue \<Rightarrow> xmlrpc_type" where
  "value_type (XInt _) = TYPE_INT"
| "value_type (XBool _) = TYPE_BOOL"
| "value_type (XDouble _) = TYPE_DOUBLE"
| "value_type (XDatetime _) = TYPE_DATETIME"
| "value_type (XString _) = TYPE_STRING"
| "value_type (XBase64 _) = TYPE_BASE64"
| "value_type (XArray _) = TYPE_ARRAY"
| "value_type (XStruct _) = TYPE_STRUCT"
| "value_type (XCptr _) = TYPE_C_PTR"
| "value_type XNil = TYPE_NIL"
| "value_type (XI8 _) = TYPE_I8"

fun xmlrpc_type_name :: "xmlrpc_type \<Rightarrow> string" where
  "xmlrpc_type_name TYPE_INT = ''INT''"
| "xmlrpc_type_name TYPE_BOOL = ''BOOL''"
| "xmlrpc_type_name TYPE_DOUBLE = ''DOUBLE''"
| "xmlrpc_type_name TYPE_DATETIME = ''DATETIME''"
| "xmlrpc_type_name TYPE_STRING = ''STRING''"
| "xmlrpc_type_name TYPE_BASE64 = ''BASE64''"
| "xmlrpc_type_name TYPE_ARRAY = ''ARRAY''"
| "xmlrpc_type_name TYPE_STRUCT = ''STRUCT''"
| "xmlrpc_type_name TYPE_C_PTR = ''C_PTR''"
| "xmlrpc_type_name TYPE_NIL = ''NIL''"
| "xmlrpc_type_name TYPE_I8 = ''I8''"
| "xmlrpc_type_name TYPE_DEAD = ''DEAD''"

definition type_fault :: "piece list \<Rightarrow> fault" where
  "type_fault = set_fault_formatted XMLRPC_TYPE_ERROR"

definition validateType :: "'d xvalue \<Rightarrow> xmlrpc_type \<Rightarrow> unit result" where
  "validateType value expectedType =
     (if value_type value \<noteq> expectedType
      then Inl (type_fault [Txt ''Value of type '', PctS (xmlrpc_type_name (value_type value)),
                            Txt '' supplied where '', Txt ''type '', PctS (xmlrpc_type_name expectedType),
                            Txt '' was expected.''])
      else Inr ())"

section \<open>Reading simple values\<close>

text \<open>What the union member holds, once the type has been checked.\<close>

fun int_of :: "'d xvalue \<Rightarrow> 32 word" where "int_of (XInt i) = i" | "int_of _ = 0"
fun bool_of :: "'d xvalue \<Rightarrow> 32 word" where "bool_of (XBool b) = b" | "bool_of _ = 0"
fun i8_of :: "'d xvalue \<Rightarrow> 64 word" where "i8_of (XI8 i) = i" | "i8_of _ = 0"
fun bytes_of :: "'d xvalue \<Rightarrow> char list" where "bytes_of (XBase64 b) = b" | "bytes_of _ = []"
fun cptr_of :: "'d xvalue \<Rightarrow> nat" where "cptr_of (XCptr p) = p" | "cptr_of _ = 0"

fun double_of :: "'d xvalue \<Rightarrow> 'd option" where
  "double_of (XDouble d) = Some d" | "double_of _ = None"

fun datetime_of :: "'d xvalue \<Rightarrow> xmlrpc_datetime option" where
  "datetime_of (XDatetime dt) = Some dt" | "datetime_of _ = None"

definition xmlrpc_read_int :: "'d xvalue \<Rightarrow> 32 word result" where
  "xmlrpc_read_int value = bindE (validateType value TYPE_INT) (\<lambda>_. Inr (int_of value))"

definition xmlrpc_read_bool :: "'d xvalue \<Rightarrow> 32 word result" where
  "xmlrpc_read_bool value = bindE (validateType value TYPE_BOOL) (\<lambda>_. Inr (bool_of value))"

definition xmlrpc_read_double :: "'d xvalue \<Rightarrow> 'd result" where
  "xmlrpc_read_double value = bindE (validateType value TYPE_DOUBLE) (\<lambda>_. Inr (the (double_of value)))"

definition xmlrpc_read_base64 :: "(nat \<Rightarrow> bool) \<Rightarrow> 'd xvalue \<Rightarrow> (nat \<times> char list) result" where
  "xmlrpc_read_base64 mok value =
     bindE (validateType value TYPE_BASE64) (\<lambda>_.
       let contents = bytes_of value; size = length contents in
       if \<not> mok size
       then Inl (faultf [Txt ''Unable to allocate '', PctU (size mod 2 ^ 32),
                         Txt '' bytes for byte string.''])
       else Inr (size, contents))"

definition xmlrpc_read_base64_old :: "'d xvalue \<Rightarrow> (nat \<times> char list) result" where
  "xmlrpc_read_base64_old value =
     bindE (validateType value TYPE_BASE64) (\<lambda>_. Inr (length (bytes_of value), bytes_of value))"

definition xmlrpc_read_base64_size :: "'d xvalue \<Rightarrow> nat result" where
  "xmlrpc_read_base64_size value =
     bindE (validateType value TYPE_BASE64) (\<lambda>_. Inr (length (bytes_of value)))"

definition xmlrpc_read_cptr :: "'d xvalue \<Rightarrow> nat result" where
  "xmlrpc_read_cptr value = bindE (validateType value TYPE_C_PTR) (\<lambda>_. Inr (cptr_of value))"

definition xmlrpc_read_nil :: "'d xvalue \<Rightarrow> unit result" where
  "xmlrpc_read_nil value = validateType value TYPE_NIL"

definition xmlrpc_read_i8 :: "'d xvalue \<Rightarrow> 64 word result" where
  "xmlrpc_read_i8 value = bindE (validateType value TYPE_I8) (\<lambda>_. Inr (i8_of value))"

section \<open>Making simple values\<close>

text \<open>The lock of a value is taken to be created; \<open>mok\<close> is asked for the value itself.\<close>

definition SIZEOF_XMLRPC_VALUE :: nat where "SIZEOF_XMLRPC_VALUE = 96"

definition xmlrpc_createXmlrpcValue :: "(nat \<Rightarrow> bool) \<Rightarrow> unit result" where
  "xmlrpc_createXmlrpcValue mok =
     (if \<not> mok SIZEOF_XMLRPC_VALUE
      then Inl (faultf [Txt ''Could not allocate memory for xmlrpc_value'']) else Inr ())"

definition xmlrpc_int_new :: "(nat \<Rightarrow> bool) \<Rightarrow> 32 word \<Rightarrow> 'd xvalue result" where
  "xmlrpc_int_new mok value = bindE (xmlrpc_createXmlrpcValue mok) (\<lambda>_. Inr (XInt value))"

definition xmlrpc_i8_new :: "(nat \<Rightarrow> bool) \<Rightarrow> 64 word \<Rightarrow> 'd xvalue result" where
  "xmlrpc_i8_new mok value = bindE (xmlrpc_createXmlrpcValue mok) (\<lambda>_. Inr (XI8 value))"

definition xmlrpc_bool_new :: "(nat \<Rightarrow> bool) \<Rightarrow> 32 word \<Rightarrow> 'd xvalue result" where
  "xmlrpc_bool_new mok value = bindE (xmlrpc_createXmlrpcValue mok) (\<lambda>_. Inr (XBool value))"

definition xmlrpc_double_new :: "(nat \<Rightarrow> bool) \<Rightarrow> 'd \<Rightarrow> 'd xvalue result" where
  "xmlrpc_double_new mok value = bindE (xmlrpc_createXmlrpcValue mok) (\<lambda>_. Inr (XDouble value))"

definition xmlrpc_base64_new :: "(nat \<Rightarrow> bool) \<Rightarrow> char list \<Rightarrow> 'd xvalue result" where
  "xmlrpc_base64_new mok value =
     bindE (xmlrpc_createXmlrpcValue mok) (\<lambda>_.
     bindE (mem_block_init mok 1 (length value)) (\<lambda>block.
       let block' = block\<lparr>blk_cells := Some (write_cells 0 value (mem_block_contents block))\<rparr>
       in Inr (XBase64 (block_data 1 block'))))"

definition xmlrpc_cptr_new :: "(nat \<Rightarrow> bool) \<Rightarrow> nat \<Rightarrow> 'd xvalue result" where
  "xmlrpc_cptr_new mok value = bindE (xmlrpc_createXmlrpcValue mok) (\<lambda>_. Inr (XCptr value))"

definition xmlrpc_nil_new :: "(nat \<Rightarrow> bool) \<Rightarrow> 'd xvalue result" where
  "xmlrpc_nil_new mok = bindE (xmlrpc_createXmlrpcValue mok) (\<lambda>_. Inr XNil)"

section \<open>Datetimes\<close>

definition SIZEOF_POINTER :: nat where "SIZEOF_POINTER = 8"

definition xmlrpc_datetime_new :: "(nat \<Rightarrow> bool) \<Rightarrow> xmlrpc_datetime \<Rightarrow> 'd xvalue result" where
  "xmlrpc_datetime_new mok dt =
     (if \<not> mok SIZEOF_POINTER
      then Inl (faultf [Txt ''Couldn't get memory for the cache part of the '',
                        Txt ''XML-RPC datetime value object''])
      else bindE (xmlrpc_createXmlrpcValue mok) (\<lambda>_. Inr (XDatetime dt)))"

definition validateDatetimeType :: "'d xvalue \<Rightarrow> unit result" where
  "validateDatetimeType value =
     (if value_type value \<noteq> TYPE_DATETIME
      then Inl (type_fault [Txt ''Value of type '', PctS (xmlrpc_type_name (value_type value)),
                            Txt '' supplied where '', Txt ''type '', PctS (xmlrpc_type_name TYPE_DATETIME),
                            Txt '' was expected.''])
      else Inr ())"

definition xmlrpc_read_datetime :: "'d xvalue \<Rightarrow> xmlrpc_datetime result" where
  "xmlrpc_read_datetime value =
     bindE (validateDatetimeType value) (\<lambda>_. Inr (the (datetime_of value)))"

definition xmlrpc_read_datetime_usec :: "'d xvalue \<Rightarrow> (int \<times> nat) result" where
  "xmlrpc_read_datetime_usec value =
     bindE (validateDatetimeType value) (\<lambda>_. datetime_to_usec (the (datetime_of value)))"

definition xmlrpc_read_datetime_sec :: "'d xvalue \<Rightarrow> int result" where
  "xmlrpc_read_datetime_sec value =
     bindE (xmlrpc_read_datetime_usec value) (\<lambda>(secs, usecs). Inr secs)"

definition xmlrpc_read_datetime_str :: "'d xvalue \<Rightarrow> string result" where
  "xmlrpc_read_datetime_str value =
     bindE (validateDatetimeType value) (\<lambda>_. datetime_str (the (datetime_of value)))"

definition xmlrpc_read_datetime_8601 :: "'d xvalue \<Rightarrow> string result" where
  "xmlrpc_read_datetime_8601 value =
     bindE (validateDatetimeType value) (\<lambda>_. bindE (xmlrpc_read_datetime value) datetime_8601)"

definition xmlrpc_read_datetime_timeval :: "'d xvalue \<Rightarrow> (int \<times> nat) result" where
  "xmlrpc_read_datetime_timeval value = xmlrpc_read_datetime_usec value"

definition xmlrpc_read_datetime_timespec :: "'d xvalue \<Rightarrow> (int \<times> nat) result" where
  "xmlrpc_read_datetime_timespec value =
     bindE (xmlrpc_read_datetime_usec value) (\<lambda>(secs, usecs). Inr (secs, usecs * 1000 mod 2 ^ 32))"

section \<open>Readers and constructors agree\<close>

lemma validateType_ok [simp]: "validateType value t = Inr () \<longleftrightarrow> value_type value = t"
  by (simp add: validateType_def)

lemma validateType_cases:
  "validateType value t = (if value_type value = t then Inr () else validateType value t)"
  by simp

lemma validateType_fault:
  "validateType value t = Inl f \<Longrightarrow> value_type value \<noteq> t \<and> code_of f = XMLRPC_TYPE_ERROR"
  by (auto simp: validateType_def type_fault_def split: if_splits)

lemma base64_new_value:
  "xmlrpc_base64_new mok bytes = Inr v \<Longrightarrow> v = XBase64 bytes"
proof -
  assume "xmlrpc_base64_new mok bytes = Inr v"
  then obtain b where b: "mem_block_init mok 1 (length bytes) = Inr b"
    and v: "v = XBase64 (block_data 1 (b\<lparr>blk_cells := Some (write_cells 0 bytes (mem_block_contents b))\<rparr>))"
    by (auto simp: xmlrpc_base64_new_def bindE_Inr_conv Let_def)
  have wf: "mem_block_wf 1 b" "blk_size b = length bytes"
    using mem_block_init_wf [OF _ b] by simp_all
  have "block_data 1 (b\<lparr>blk_cells := Some (write_cells 0 bytes (mem_block_contents b))\<rparr>) = bytes"
    using wf by (simp add: block_data_def block_cells_def mem_block_contents_def write_cells_def comp_def)
  with v show ?thesis by simp
qed

end
