(* ===== verification/Strings.thy ===== *)
theory Strings
  imports Values
begin

text \<open>
  String values (\<open>src/xmlrpc_string.c\<close>): construction with the line-end conversions, and the
  readers in their length-pointer, CRLF and wide forms.  A read past the checks of an assertion is
  the value \<open>None\<close>.
\<close>

section \<open>Access\<close>

fun chars_of :: "'d xvalue \<Rightarrow> string" where "chars_of (XString s) = s" | "chars_of _ = []"

text \<open>The block of a string value, its NUL included.\<close>

definition string_block :: "'d xvalue \<Rightarrow> string" where
  "string_block value = chars_of value @ [NUL]"

fun verifyNoNulls :: "string \<Rightarrow> unit result" where
  "verifyNoNulls [] = Inr ()"
| "verifyNoNulls (c # s) =
     (if c = NUL then Inl (type_fault [Txt ''String must not contain NUL characters''])
      else verifyNoNulls s)"

fun verifyNoNullsW :: "int list \<Rightarrow> unit result" where
  "verifyNoNullsW [] = Inr ()"
| "verifyNoNullsW (w # s) =
     (if w = 0 then Inl (type_fault [Txt ''String must not contain NUL characters''])
      else verifyNoNullsW s)"

definition validateStringType :: "'d xvalue \<Rightarrow> unit result" where
  "validateStringType value =
     (if value_type value \<noteq> TYPE_STRING
      then Inl (type_fault [Txt ''Value of type '', PctS (xmlrpc_type_name (value_type value)),
                            Txt '' supplied where '', Txt ''string type was expected.''])
      else Inr ())"

definition accessStringValue :: "'d xvalue \<Rightarrow> (nat \<times> string) result" where
  "accessStringValue value =
     bindE (validateStringType value) (\<lambda>_.
       let contents = string_block value; len = length contents - 1
       in bindE (verifyNoNulls (take len contents)) (\<lambda>_. Inr (len, contents)))"

definition no_space :: "nat \<Rightarrow> string \<Rightarrow> fault" where
  "no_space n what = faultf [Txt ''Unable to allocate space '', Txt ''for '', PctU (n mod 2 ^ 32), Txt what]"

definition xmlrpc_read_string :: "(nat \<Rightarrow> bool) \<Rightarrow> 'd xvalue \<Rightarrow> string result" where
  "xmlrpc_read_string mok value =
     bindE (accessStringValue value) (\<lambda>(len, contents).
       if \<not> mok (len + 1) then Inl (no_space len ''-character string'')
       else Inr (take len contents))"

definition xmlrpc_read_string_old :: "'d xvalue \<Rightarrow> string result" where
  "xmlrpc_read_string_old value =
     bindE (accessStringValue value) (\<lambda>(len, contents). Inr (take len contents))"

definition xmlrpc_read_string_lp :: "(nat \<Rightarrow> bool) \<Rightarrow> 'd xvalue \<Rightarrow> (nat \<times> string) result" where
  "xmlrpc_read_string_lp mok value =
     bindE (validateStringType value) (\<lambda>_.
       let contents = string_block value; size = length contents in
       if \<not> mok size
       then Inl (faultf [Txt ''Unable to allocate '', PctU (size mod 2 ^ 32), Txt '' bytes for string.''])
       else Inr (size - 1, contents))"

definition xmlrpc_read_string_lp_old :: "'d xvalue \<Rightarrow> (nat \<times> string) result" where
  "xmlrpc_read_string_lp_old value =
     bindE (validateStringType value) (\<lambda>_. Inr (length (string_block value) - 1, string_block value))"

section \<open>LF to CRLF\<close>

function lineDelimCount :: "string \<Rightarrow> nat" where
  "lineDelimCount s =
     (case dropWhile (\<lambda>c. c \<noteq> LF) s of [] \<Rightarrow> 0 | nl # r \<Rightarrow> 1 + lineDelimCount r)"
  by pat_completeness auto
termination
proof (relation "measure length")
  show "dropWhile (\<lambda>c. c \<noteq> LF) s = nl # r \<Longrightarrow> (r, s) \<in> measure length" for s nl r
    using length_dropWhile_le [of "\<lambda>c. c \<noteq> LF" s] by simp
qed simp

declare lineDelimCount.simps [simp del]

fun convert_lf :: "string \<Rightarrow> string" where
  "convert_lf [] = []"
| "convert_lf (c # s) = (if c = LF then [CR] else []) @ c # convert_lf s"

definition copyAndConvertLfToCrlf :: "(nat \<Rightarrow> bool) \<Rightarrow> string \<Rightarrow> (nat \<times> string) result option" where
  "copyAndConvertLfToCrlf mok src =
     (let dstLen = length src + lineDelimCount src in
      if \<not> mok (dstLen + 1) then Some (Inl (no_space (dstLen + 1) ''-character string''))
      else if length (convert_lf src) \<noteq> dstLen then None
      else Some (Inr (dstLen, convert_lf src)))"

definition xmlrpc_read_string_crlf :: "(nat \<Rightarrow> bool) \<Rightarrow> 'd xvalue \<Rightarrow> string result option" where
  "xmlrpc_read_string_crlf mok value =
     (case accessStringValue value of
        Inl f \<Rightarrow> Some (Inl f)
      | Inr (len, contents) \<Rightarrow>
          map_option (\<lambda>r. bindE r (\<lambda>(n, s). Inr s)) (copyAndConvertLfToCrlf mok (take len contents)))"

definition xmlrpc_read_string_lp_crlf ::
    "(nat \<Rightarrow> bool) \<Rightarrow> 'd xvalue \<Rightarrow> (nat \<times> string) result option" where
  "xmlrpc_read_string_lp_crlf mok value =
     (case validateStringType value of
        Inl f \<Rightarrow> Some (Inl f)
      | Inr _ \<Rightarrow>
          (let contents = string_block value; size = length contents
           in copyAndConvertLfToCrlf mok (take (size - 1) contents)))"

section \<open>Wide strings\<close>

definition setupWcsBlock :: "(nat \<Rightarrow> bool) \<Rightarrow> 'd xvalue \<Rightarrow> int list result" where
  "setupWcsBlock mok value =
     (let contents = string_block value; len = length contents - 1
      in bindE (xmlrpc_utf8_to_wcs mok (take (len + 1) contents)) (\<lambda>block. Inr (block_data 4 block)))"

definition accessStringValueW :: "(nat \<Rightarrow> bool) \<Rightarrow> 'd xvalue \<Rightarrow> (nat \<times> int list) result" where
  "accessStringValueW mok value =
     bindE (validateStringType value) (\<lambda>_.
     bindE (setupWcsBlock mok value) (\<lambda>wcontents.
       let len = length wcontents - 1
       in bindE (verifyNoNullsW (take len wcontents)) (\<lambda>_. Inr (len, wcontents))))"

definition xmlrpc_read_string_w :: "(nat \<Rightarrow> bool) \<Rightarrow> 'd xvalue \<Rightarrow> int list result" where
  "xmlrpc_read_string_w mok value =
     bindE (accessStringValueW mok value) (\<lambda>(len, wcontents).
       if \<not> mok (4 * (len + 1)) then Inl (no_space len ''-byte string'')
       else Inr (take len wcontents))"

definition xmlrpc_read_string_w_old :: "(nat \<Rightarrow> bool) \<Rightarrow> 'd xvalue \<Rightarrow> int list result" where
  "xmlrpc_read_string_w_old mok value =
     bindE (accessStringValueW mok value) (\<lambda>(len, wcontents). Inr (take len wcontents))"

definition xmlrpc_read_string_w_lp :: "(nat \<Rightarrow> bool) \<Rightarrow> 'd xvalue \<Rightarrow> (nat \<times> int list) result" where
  "xmlrpc_read_string_w_lp mok value =
     bindE (validateStringType value) (\<lambda>_.
     bindE (setupWcsBlock mok value) (\<lambda>wcontents.
       let size = length wcontents in
       if \<not> mok (4 * size) then Inl (no_space size ''-byte string'')
       else Inr (size - 1, wcontents)))"

definition xmlrpc_read_string_w_lp_old :: "(nat \<Rightarrow> bool) \<Rightarrow> 'd xvalue \<Rightarrow> (nat \<times> int list) result" where
  "xmlrpc_read_string_w_lp_old mok value =
     bindE (validateStringType value) (\<lambda>_.
     bindE (setupWcsBlock mok value) (\<lambda>wcontents. Inr (length wcontents - 1, wcontents)))"

text \<open>
  The wide count searches with \<open>wcsstr\<close>, which stops at the first NUL, where the copy loop goes on
  to the end; the buffer has the size that was counted.
\<close>

function lineDelimCountW :: "int list \<Rightarrow> nat" where
  "lineDelimCountW s =
     (case dropWhile (\<lambda>w. w \<noteq> 10 \<and> w \<noteq> 0) s of
        [] \<Rightarrow> 0
      | w # r \<Rightarrow> if w = 10 then 1 + lineDelimCountW r else 0)"
  by pat_completeness auto
termination
proof (relation "measure length")
  show "dropWhile (\<lambda>w. w \<noteq> 10 \<and> w \<noteq> 0) s = w # r \<Longrightarrow> w = 10 \<Longrightarrow> (r, s) \<in> measure length"
    for s w and r :: "int list"
    using length_dropWhile_le [of "\<lambda>w. w \<noteq> 10 \<and> w \<noteq> 0" s] by simp
qed simp

declare lineDelimCountW.simps [simp del]

fun convert_lf_w :: "int list \<Rightarrow> int list" where
  "convert_lf_w [] = []"
| "convert_lf_w (w # s) = (if w = 10 then [13] else []) @ w # convert_lf_w s"

definition wCopyAndConvertLfToCrlf ::
    "(nat \<Rightarrow> bool) \<Rightarrow> int list \<Rightarrow> (nat \<times> int list) result option" where
  "wCopyAndConvertLfToCrlf mok src =
     (let dstLen = length src + lineDelimCountW src in
      if \<not> mok (4 * (dstLen + 1)) then Some (Inl (no_space (dstLen + 1) ''-character string''))
      else if length (convert_lf_w src) \<noteq> dstLen then None
      else Some (Inr (dstLen, convert_lf_w src)))"

definition xmlrpc_read_string_w_crlf :: "(nat \<Rightarrow> bool) \<Rightarrow> 'd xvalue \<Rightarrow> int list result option" where
  "xmlrpc_read_string_w_crlf mok value =
     (case accessStringValueW mok value of
        Inl f \<Rightarrow> Some (Inl f)
      | Inr (len, contents) \<Rightarrow>
          map_option (\<lambda>r. bindE r (\<lambda>(n, s). Inr s)) (wCopyAndConvertLfToCrlf mok (take len contents)))"

definition xmlrpc_read_string_w_lp_crlf ::
    "(nat \<Rightarrow> bool) \<Rightarrow> 'd xvalue \<Rightarrow> (nat \<times> int list) result option" where
  "xmlrpc_read_string_w_lp_crlf mok value =
     (case bindE (validateStringType value) (\<lambda>_. setupWcsBlock mok value) of
        Inl f \<Rightarrow> Some (Inl f)
      | Inr wcontents \<Rightarrow> wCopyAndConvertLfToCrlf mok (take (length wcontents - 1) wcontents))"

section \<open>Construction\<close>

function copy_lines :: "string \<Rightarrow> string" where
  "copy_lines src =
     (case dropWhile (\<lambda>c. c \<noteq> CR) src of
        [] \<Rightarrow> src
      | cr # r \<Rightarrow>
          takeWhile (\<lambda>c. c \<noteq> CR) src @ LF # copy_lines (if peek r = LF then tl r else r))"
  by pat_completeness auto
termination
proof (relation "measure length")
  show "dropWhile (\<lambda>c. c \<noteq> CR) src = cr # r \<Longrightarrow> (if peek r = LF then tl r else r, src) \<in> measure length"
    for src cr r
    using length_dropWhile_le [of "\<lambda>c. c \<noteq> CR" src] by (cases r) auto
qed simp

declare copy_lines.simps [simp del]

definition copyLines :: "(nat \<Rightarrow> bool) \<Rightarrow> string \<Rightarrow> char mem_block result" where
  "copyLines mok src =
     bindE (mem_block_init mok 1 (length src + 1)) (\<lambda>dst.
       let contents = copy_lines src @ [NUL]
       in mem_block_resize mok 1
            (dst\<lparr>blk_cells := Some (write_cells 0 contents (mem_block_contents dst))\<rparr>)
            (length contents))"

definition copySimple :: "(nat \<Rightarrow> bool) \<Rightarrow> string \<Rightarrow> char mem_block result" where
  "copySimple mok src =
     bindE (mem_block_init mok 1 (length src + 1)) (\<lambda>dst.
       Inr (dst\<lparr>blk_cells := Some (write_cells 0 (src @ [NUL]) (mem_block_contents dst))\<rparr>))"

datatype crTreatment = CR_IS_LINEDELIM | CR_IS_CHAR

definition stringNew :: "(nat \<Rightarrow> bool) \<Rightarrow> string \<Rightarrow> crTreatment \<Rightarrow> 'd xvalue result" where
  "stringNew mok value crTreatment =
     bindE (xmlrpc_validate_utf8 value) (\<lambda>_.
     bindE (xmlrpc_createXmlrpcValue mok) (\<lambda>_.
     bindE (if CR \<in> set value \<and> crTreatment = CR_IS_LINEDELIM then copyLines mok value
            else copySimple mok value) (\<lambda>block.
     Inr (XString (butlast (block_data 1 block))))))"

definition xmlrpc_string_new_lp :: "(nat \<Rightarrow> bool) \<Rightarrow> string \<Rightarrow> 'd xvalue result" where
  "xmlrpc_string_new_lp mok value = stringNew mok value CR_IS_LINEDELIM"

definition xmlrpc_string_new_lp_cr :: "(nat \<Rightarrow> bool) \<Rightarrow> string \<Rightarrow> 'd xvalue result" where
  "xmlrpc_string_new_lp_cr mok value = stringNew mok value CR_IS_CHAR"

definition xmlrpc_string_new :: "(nat \<Rightarrow> bool) \<Rightarrow> string \<Rightarrow> 'd xvalue result" where
  "xmlrpc_string_new mok value = stringNew mok (c_str value) CR_IS_LINEDELIM"

definition xmlrpc_string_new_cr :: "(nat \<Rightarrow> bool) \<Rightarrow> string \<Rightarrow> 'd xvalue result" where
  "xmlrpc_string_new_cr mok value = stringNew mok (c_str value) CR_IS_CHAR"

definition xmlrpc_string_new_f :: "(nat \<Rightarrow> bool) \<Rightarrow> piece list \<Rightarrow> 'd xvalue result" where
  "xmlrpc_string_new_f mok format = xmlrpc_string_new mok (vformat format)"

definition stringWNew :: "(nat \<Rightarrow> bool) \<Rightarrow> int list \<Rightarrow> crTreatment \<Rightarrow> 'd xvalue result" where
  "stringWNew mok value crTreatment =
     bindE (xmlrpc_wcs_to_utf8 mok value) (\<lambda>utf8. stringNew mok (block_data 1 utf8) crTreatment)"

definition xmlrpc_string_w_new_lp :: "(nat \<Rightarrow> bool) \<Rightarrow> int list \<Rightarrow> 'd xvalue result" where
  "xmlrpc_string_w_new_lp mok value = stringWNew mok value CR_IS_LINEDELIM"

definition xmlrpc_string_w_new_lp_cr :: "(nat \<Rightarrow> bool) \<Rightarrow> int list \<Rightarrow> 'd xvalue result" where
  "xmlrpc_string_w_new_lp_cr mok value = stringWNew mok value CR_IS_CHAR"

definition wcs_str :: "int list \<Rightarrow> int list" where
  "wcs_str ws = takeWhile (\<lambda>w. w \<noteq> 0) ws"

definition xmlrpc_string_w_new :: "(nat \<Rightarrow> bool) \<Rightarrow> int list \<Rightarrow> 'd xvalue result" where
  "xmlrpc_string_w_new mok value = stringWNew mok (wcs_str value) CR_IS_LINEDELIM"

definition xmlrpc_string_w_new_cr :: "(nat \<Rightarrow> bool) \<Rightarrow> int list \<Rightarrow> 'd xvalue result" where
  "xmlrpc_string_w_new_cr mok value = stringWNew mok (wcs_str value) CR_IS_CHAR"

section \<open>Line ends\<close>

text \<open>What construction should do: each CRLF, CR or LF becomes one LF.\<close>

definition skip_lf :: "'a \<Rightarrow> 'a list \<Rightarrow> 'a list" where
  "skip_lf lf s = (case s of [] \<Rightarrow> [] | d # r \<Rightarrow> if d = lf then r else s)"

lemma skip_lf_facts: "length (skip_lf lf s) \<le> length s" "set (skip_lf lf s) \<subseteq> set s"
  by (auto simp: skip_lf_def split: list.split)

lemma skip_lf_simps [simp]:
  "skip_lf lf [] = []" "skip_lf lf (d # r) = (if d = lf then r else d # r)"
  by (simp_all add: skip_lf_def)

function norm_lines :: "'a \<Rightarrow> 'a \<Rightarrow> 'a list \<Rightarrow> 'a list" where
  "norm_lines cr lf [] = []"
| "norm_lines cr lf (c # s) =
     (if c = cr then lf # norm_lines cr lf (skip_lf lf s)
      else c # norm_lines cr lf s)"
  by pat_completeness auto
termination
  by (relation "measure (\<lambda>(cr, lf, s). length s)") (auto simp: less_Suc_eq_le skip_lf_facts)

abbreviation normalize_lines :: "string \<Rightarrow> string" where
  "normalize_lines \<equiv> norm_lines CR LF"

lemma norm_lines_id: "cr \<notin> set s \<Longrightarrow> norm_lines cr lf s = s"
  by (induction s) auto

lemma norm_lines_no_cr: "cr \<noteq> lf \<Longrightarrow> cr \<notin> set (norm_lines cr lf s)"
  by (induction cr lf s rule: norm_lines.induct) auto

lemma norm_lines_set: "set (norm_lines cr lf s) \<subseteq> insert lf (set s)"
proof (induction cr lf s rule: norm_lines.induct)
  case (2 cr lf c s)
  then show ?case using skip_lf_facts(2) [of lf s] by (cases "c = cr") auto
qed simp

lemma length_norm_lines: "length (norm_lines cr lf s) \<le> length s"
proof (induction cr lf s rule: norm_lines.induct)
  case (2 cr lf c s)
  then show ?case using skip_lf_facts(1) [of lf s] by (cases "c = cr") auto
qed simp

lemma norm_lines_append: "cr \<notin> set s \<Longrightarrow> norm_lines cr lf (s @ t) = s @ norm_lines cr lf t"
  by (induction s) auto

lemma copy_lines_normalize: "copy_lines s = normalize_lines s"
proof (induction s rule: copy_lines.induct)
  case (1 s)
  show ?case
  proof (cases "dropWhile (\<lambda>c. c \<noteq> CR) s")
    case Nil
    then have "CR \<notin> set s" by (auto simp: dropWhile_eq_Nil_conv)
    then show ?thesis by (subst copy_lines.simps, subst Nil) (simp add: norm_lines_id)
  next
    case (Cons cr r)
    have cr: "cr = CR" using Cons by (metis (mono_tags, lifting) dropWhile_eq_Cons_conv)
    let ?pre = "takeWhile (\<lambda>c. c \<noteq> CR) s"
    have s: "s = ?pre @ CR # r" using Cons cr takeWhile_dropWhile_id by metis
    have "CR \<notin> set ?pre" using set_takeWhileD by fastforce
    then have "normalize_lines (?pre @ CR # r) = ?pre @ LF # normalize_lines (skip_lf LF r)"
      by (simp add: norm_lines_append)
    also have "skip_lf LF r = (if peek r = LF then tl r else r)"
      by (cases r) auto
    finally have "normalize_lines s = ?pre @ LF # normalize_lines (if peek r = LF then tl r else r)"
      using s by simp
    moreover have "copy_lines s = ?pre @ LF # copy_lines (if peek r = LF then tl r else r)"
      using Cons by (simp add: copy_lines.simps [of s])
    ultimately show ?thesis using 1 [OF Cons] by simp
  qed
qed

lemma lineDelimCount_count: "lineDelimCount s = count_list s LF"
proof (induction s rule: lineDelimCount.induct)
  case (1 s)
  show ?case
  proof (cases "dropWhile (\<lambda>c. c \<noteq> LF) s")
    case Nil
    then have "LF \<notin> set s" by (auto simp: dropWhile_eq_Nil_conv)
    then show ?thesis by (subst lineDelimCount.simps, subst Nil) (simp add: count_notin)
  next
    case (Cons nl r)
    have "nl = LF" using Cons by (metis (mono_tags, lifting) dropWhile_eq_Cons_conv)
    then have s: "s = takeWhile (\<lambda>c. c \<noteq> LF) s @ LF # r"
      using Cons takeWhile_dropWhile_id by metis
    have "LF \<notin> set (takeWhile (\<lambda>c. c \<noteq> LF) s)" using set_takeWhileD by fastforce
    then have "count_list s LF = 1 + count_list r LF"
      by (subst s) (simp add: count_notin)
    with 1 Cons show ?thesis by (simp add: lineDelimCount.simps [of s])
  qed
qed

lemma length_convert_lf: "length (convert_lf s) = length s + count_list s LF"
  by (induction s) auto

lemma length_convert_lf_w: "length (convert_lf_w s) = length s + count_list s 10"
  by (induction s) auto

lemma copyAndConvert_returns:
  "copyAndConvertLfToCrlf mok src =
     Some (if mok (length (convert_lf src) + 1) then Inr (length (convert_lf src), convert_lf src)
           else Inl (no_space (length (convert_lf src) + 1) ''-character string''))"
  by (simp add: copyAndConvertLfToCrlf_def lineDelimCount_count length_convert_lf Let_def)

text \<open>Written with CRLF and normalised again.\<close>

lemma normalize_convert_lf: "CR \<notin> set s \<Longrightarrow> normalize_lines (convert_lf s) = s"
  by (induction s) auto

section \<open>Construction, then reading\<close>

lemma verifyNoNulls_ok: "verifyNoNulls s = (if NUL \<in> set s then verifyNoNulls [NUL] else Inr ())"
  by (induction s) auto

lemma verifyNoNullsW_ok: "verifyNoNullsW s = (if 0 \<in> set s then verifyNoNullsW [0] else Inr ())"
  by (induction s) auto

lemma block_written:
  assumes "mem_block_init mok 1 (length xs) = Inr b"
  shows "block_data 1 (b\<lparr>blk_cells := Some (write_cells 0 xs (mem_block_contents b))\<rparr>) = xs"
  using mem_block_init_wf [OF _ assms]
  by (simp add: block_data_def block_cells_def mem_block_contents_def write_cells_def comp_def)

lemma copySimple_data: "copySimple mok s = Inr b \<Longrightarrow> block_data 1 b = s @ [NUL]"
  using block_written [of mok "s @ [NUL]"] by (auto simp: copySimple_def bindE_Inr_conv)

lemma copyLines_data:
  assumes "copyLines mok s = Inr b"
  shows "block_data 1 b = normalize_lines s @ [NUL]"
proof -
  obtain d where d: "mem_block_init mok 1 (length s + 1) = Inr d"
    and b: "mem_block_resize mok 1 (d\<lparr>blk_cells := Some (write_cells 0 (copy_lines s @ [NUL]) (mem_block_contents d))\<rparr>)
        (length (copy_lines s @ [NUL])) = Inr b"
    using assms by (auto simp: copyLines_def bindE_Inr_conv Let_def)
  have wf: "mem_block_wf 1 d" "blk_size d = length s + 1"
    using mem_block_init_wf [OF _ d] by simp_all
  then have "length (copy_lines s @ [NUL]) \<le> blk_size d div 1"
    using length_norm_lines [of CR LF s] by (simp add: copy_lines_normalize)
  from fill_and_resize [OF wf(1) this order_refl, of mok] b
  show ?thesis by (auto simp: copy_lines_normalize)
qed

lemma copyLines_ok: "copyLines mok s = Inl f \<Longrightarrow> \<not> mok (max BLOCK_ALLOC_MIN (length s + 1))"
proof -
  assume fault: "copyLines mok s = Inl f"
  show "\<not> mok (max BLOCK_ALLOC_MIN (length s + 1))"
  proof (cases "mem_block_init mok 1 (length s + 1) :: char mem_block result")
    case (Inl g)
    then show ?thesis
      by (auto simp: mem_block_init_def Let_def max_def split: if_splits)
  next
    case (Inr d)
    have wf: "mem_block_wf 1 d" "blk_size d = length s + 1"
      using mem_block_init_wf [OF _ Inr] by simp_all
    then have "length (copy_lines s @ [NUL]) \<le> blk_size d div 1"
      using length_norm_lines [of CR LF s] by (simp add: copy_lines_normalize)
    from fill_and_resize [OF wf(1) this order_refl, of mok] fault Inr
    show ?thesis by (auto simp: copyLines_def Let_def)
  qed
qed

lemma stringNew_value:
  assumes "stringNew mok s t = Inr v"
  shows "utf8_text s" "v = XString (if t = CR_IS_LINEDELIM then normalize_lines s else s)"
proof -
  obtain block where valid: "xmlrpc_validate_utf8 s = Inr ()"
    and block: "(if CR \<in> set s \<and> t = CR_IS_LINEDELIM then copyLines mok s else copySimple mok s) = Inr block"
    and v: "v = XString (butlast (block_data 1 block))"
    using assms by (auto simp: stringNew_def bindE_Inr_conv)
  show "utf8_text s" using isOK_validate_utf8 [of s] valid by simp
  show "v = XString (if t = CR_IS_LINEDELIM then normalize_lines s else s)"
  proof (cases "CR \<in> set s \<and> t = CR_IS_LINEDELIM")
    case True
    with block v copyLines_data [of mok s block] show ?thesis by simp
  next
    case False
    with block have "block_data 1 block = s @ [NUL]" using copySimple_data [of mok s block] by simp
    with v False show ?thesis by (cases t) (auto simp: norm_lines_id)
  qed
qed

lemma stringNew_always:
  assumes "utf8_text s"
  shows "(stringNew always s t :: 'd xvalue result)
    = Inr (XString (if t = CR_IS_LINEDELIM then normalize_lines s else s))"
proof (cases "stringNew always s t :: 'd xvalue result")
  case (Inr v)
  from stringNew_value(2) [OF Inr] show ?thesis unfolding Inr by (rule arg_cong)
next
  case (Inl f)
  have "copyLines always s \<noteq> Inl g" for g
    using copyLines_ok [of always s g] by (auto simp: always_def)
  moreover have "copySimple always s \<noteq> Inl g" for g
    by (auto simp: copySimple_def mem_block_init_def always_def bindE_Inl_conv Let_def)
  moreover have "xmlrpc_createXmlrpcValue always \<noteq> Inl g" for g
    by (simp add: xmlrpc_createXmlrpcValue_def always_def)
  ultimately have "\<not> isOK (xmlrpc_validate_utf8 s)"
    using Inl by (auto simp: stringNew_def bindE_Inl_conv split: if_splits)
  then show ?thesis using isOK_validate_utf8 [of s] assms by simp
qed

lemma read_string_value:
  "xmlrpc_read_string always (XString s) = (if NUL \<in> set s then Inl (type_fault [Txt ''String must not contain NUL characters'']) else Inr s)"
  using verifyNoNulls_ok [of s]
  by (simp add: xmlrpc_read_string_def accessStringValue_def string_block_def validateStringType_def always_def)

lemma read_string_crlf_value:
  "NUL \<notin> set s \<Longrightarrow> xmlrpc_read_string_crlf always (XString s) = Some (Inr (convert_lf s))"
  using verifyNoNulls_ok [of s]
  by (simp add: xmlrpc_read_string_crlf_def accessStringValue_def string_block_def validateStringType_def
      copyAndConvert_returns always_def)

section \<open>Wide strings\<close>

lemma utf8_enc_bytes:
  assumes "ucs2_legal w" "c \<in> set (utf8_enc w)"
  shows "w < 0x80 \<and> c = chr w \<or> 0x80 \<le> w \<and> 128 \<le> uchar c"
proof (cases "w < 0x80")
  case True
  with assms show ?thesis by (simp add: utf8_enc_ascii)
next
  case False
  have w: "0x80 \<le> w" "w < 0x10000" using False assms(1) by (auto simp: ucs2_legal_def)
  have cont: "128 \<le> uchar (chr (128 + x mod 64))" for x
  proof -
    have "0 \<le> x mod 64" "x mod 64 < 64" by simp_all
    then have "(128 + x mod 64) mod 256 = 128 + x mod 64" by (intro mod_pos_pos_trivial) linarith+
    with \<open>0 \<le> x mod 64\<close> show ?thesis by simp
  qed
  have lead: "128 \<le> uchar (chr (k + w div d))"
    if "128 \<le> k" "0 < d" "k + w div d < 256" for k d
  proof -
    have "0 \<le> w div d" using w that by (simp add: pos_imp_zdiv_nonneg_iff)
    moreover from this have "(k + w div d) mod 256 = k + w div d"
      using that by (intro mod_pos_pos_trivial) linarith+
    ultimately show ?thesis using that by simp
  qed
  show ?thesis
  proof (cases "w < 0x800")
    case True
    then have "c = chr (192 + w div 64) \<or> c = chr (128 + w mod 64)"
      using assms(2) w by (simp add: utf8_enc_def)
    moreover have "192 + w div 64 < 256" using True by linarith
    ultimately show ?thesis using lead [of 192 64] cont [of w] w by force
  next
    case False
    then have "c = chr (224 + w div 4096) \<or> c = chr (128 + w div 64 mod 64) \<or> c = chr (128 + w mod 64)"
      using assms(2) w by (simp add: utf8_enc_def)
    moreover have "224 + w div 4096 < 256" using w by linarith
    ultimately show ?thesis using lead [of 224 4096] cont [of w] cont [of "w div 64"] w by force
  qed
qed

lemma utf8_enc_control:
  assumes "ucs2_legal w" "0 \<le> a" "a < 0x80"
  shows "chr a \<in> set (utf8_enc w) \<longleftrightarrow> w = a"
proof -
  have "uchar (chr a) = a" using assms by simp
  moreover have "0 \<le> w" using assms by (simp add: ucs2_legal_def)
  ultimately show ?thesis
    using utf8_enc_bytes [OF assms(1), of "chr a"] assms
    by (auto simp: utf8_enc_ascii chr_eq_iff)
qed

lemma skip_lf_encs:
  "list_all ucs2_legal ws \<Longrightarrow> skip_lf LF (utf8_encs ws) = utf8_encs (skip_lf 10 ws)"
proof (cases ws)
  case (Cons w ws')
  assume "list_all ucs2_legal ws"
  then have w: "ucs2_legal w" using Cons by simp
  obtain c r where e: "utf8_enc w = c # r" by (cases "utf8_enc w") auto
  have "c = LF \<longleftrightarrow> w = 10"
  proof
    assume "c = LF"
    then have "chr 10 \<in> set (utf8_enc w)" using e by simp
    then show "w = 10" using utf8_enc_control [OF w, of 10] by simp
  next
    assume "w = 10"
    with e show "c = LF" by (simp add: utf8_enc_ascii)
  qed
  then show ?thesis using Cons e by (cases "w = 10") (auto simp: utf8_enc_ascii)
qed simp

lemma list_all_skip_lf: "list_all P ws \<Longrightarrow> list_all P (skip_lf lf ws)"
  using skip_lf_facts(2) by (fastforce simp: list_all_iff)

lemma normalize_encs:
  "list_all ucs2_legal ws \<Longrightarrow> normalize_lines (utf8_encs ws) = utf8_encs (norm_lines 13 10 ws)"
proof (induction "13 :: int" "10 :: int" ws rule: norm_lines.induct)
  case (2 w ws)
  then have w: "ucs2_legal w" "list_all ucs2_legal ws" by simp_all
  show ?case
  proof (cases "w = 13")
    case True
    then have "normalize_lines (utf8_encs (w # ws)) = LF # normalize_lines (skip_lf LF (utf8_encs ws))"
      by (simp add: utf8_enc_ascii)
    also have "normalize_lines (skip_lf LF (utf8_encs ws)) = utf8_encs (norm_lines 13 10 (skip_lf 10 ws))"
      using "2.hyps"(1) [OF True] w(2) by (simp add: skip_lf_encs list_all_skip_lf)
    finally show ?thesis using True by (simp add: utf8_enc_ascii)
  next
    case False
    then have "CR \<notin> set (utf8_enc w)"
      using utf8_enc_control [OF w(1), of 13] by simp
    then show ?thesis using "2.hyps"(2) False w by (simp add: norm_lines_append)
  qed
qed simp

lemma norm_lines_legal: "list_all ucs2_legal ws \<Longrightarrow> list_all ucs2_legal (norm_lines 13 10 ws)"
  using norm_lines_set [of 13 10 ws] by (auto simp: list_all_iff ucs2_legal_def)

lemma utf8_encs_text: "list_all ucs2_legal ws \<Longrightarrow> utf8_text (utf8_encs ws)"
  by (auto simp: utf8_text_def)

lemma setupWcsBlock_encs:
  assumes "list_all ucs2_legal ws"
  shows "setupWcsBlock always (XString (utf8_encs ws)) = Inr (ws @ [0])"
proof -
  have "utf8_encs (ws @ [0]) = utf8_encs ws @ [NUL]" by (simp add: utf8_enc_ascii)
  moreover have "list_all ucs2_legal (ws @ [0])" using assms by (simp add: ucs2_legal_def)
  ultimately obtain b where "xmlrpc_utf8_to_wcs always (utf8_encs ws @ [NUL]) = Inr b" "block_data 4 b = ws @ [0]"
    using xmlrpc_utf8_to_wcs_text [of "ws @ [0]" always] by (auto simp: always_def)
  then show ?thesis by (simp add: setupWcsBlock_def string_block_def Let_def)
qed

lemma stringWNew_always:
  assumes "list_all ucs2_legal ws"
  shows "stringWNew always ws t =
    Inr (XString (utf8_encs (if t = CR_IS_LINEDELIM then norm_lines 13 10 ws else ws)))"
proof -
  obtain b where "xmlrpc_wcs_to_utf8 always ws = Inr b" "block_data 1 b = utf8_encs ws"
    using xmlrpc_wcs_to_utf8_text [OF assms, of always] by (auto simp: always_def)
  then have "stringWNew always ws t = stringNew always (utf8_encs ws) t"
    by (simp add: stringWNew_def)
  also have "\<dots> = Inr (XString (if t = CR_IS_LINEDELIM then normalize_lines (utf8_encs ws) else utf8_encs ws))"
    by (rule stringNew_always [OF utf8_encs_text [OF assms]])
  finally show ?thesis unfolding normalize_encs [OF assms] by (simp only: if_distrib [of utf8_encs])
qed

lemma read_string_w_encs:
  assumes "list_all ucs2_legal ws" "0 \<notin> set ws"
  shows "xmlrpc_read_string_w always (XString (utf8_encs ws) :: 'd xvalue) = Inr ws"
  using setupWcsBlock_encs [OF assms(1), where 'a = 'd] verifyNoNullsW_ok [of ws] assms(2)
  by (simp add: xmlrpc_read_string_w_def accessStringValueW_def validateStringType_def always_def)

text \<open>The wide CRLF conversion overruns its buffer exactly when a line ends after a NUL.\<close>

lemma lineDelimCountW_count: "lineDelimCountW s = count_list (takeWhile (\<lambda>w. w \<noteq> 0) s) 10"
proof (induction s rule: lineDelimCountW.induct)
  case (1 s)
  let ?P = "\<lambda>w. w \<noteq> 10 \<and> w \<noteq> (0 :: int)"
  show ?case
  proof (cases "dropWhile ?P s")
    case Nil
    then have "\<forall>w \<in> set s. ?P w" by (auto simp: dropWhile_eq_Nil_conv)
    then have "count_list (takeWhile (\<lambda>w. w \<noteq> 0) s) 10 = 0"
      using set_takeWhileD by (fastforce simp: count_list_0_iff)
    moreover have "lineDelimCountW s = 0"
      by (subst lineDelimCountW.simps, subst Nil) simp
    ultimately show ?thesis by simp
  next
    case (Cons w r)
    have w: "w = 10 \<or> w = 0" using Cons by (metis (mono_tags, lifting) dropWhile_eq_Cons_conv)
    let ?pre = "takeWhile ?P s"
    have s: "?pre @ w # r = s" using Cons takeWhile_dropWhile_id [of ?P s] by simp
    have pre: "\<forall>x \<in> set ?pre. ?P x" using set_takeWhileD by fastforce
    then have "takeWhile (\<lambda>w. w \<noteq> 0) (?pre @ w # r) = ?pre @ takeWhile (\<lambda>w. w \<noteq> 0) (w # r)"
      by (intro takeWhile_append2) blast
    then have "takeWhile (\<lambda>w. w \<noteq> 0) s = ?pre @ takeWhile (\<lambda>w. w \<noteq> 0) (w # r)"
      unfolding s .
    then have "count_list (takeWhile (\<lambda>w. w \<noteq> 0) s) 10
        = count_list ?pre 10 + count_list (takeWhile (\<lambda>w. w \<noteq> 0) (w # r)) 10"
      by (simp only: count_list_append)
    also have "count_list ?pre 10 = 0" unfolding count_list_0_iff using pre by blast
    also have "count_list (takeWhile (\<lambda>w. w \<noteq> 0) (w # r)) 10
        = (if w = 10 then 1 + count_list (takeWhile (\<lambda>w. w \<noteq> 0) r) 10 else 0)"
      using w by (elim disjE) simp_all
    finally have "count_list (takeWhile (\<lambda>w. w \<noteq> 0) s) 10
        = (if w = 10 then 1 + count_list (takeWhile (\<lambda>w. w \<noteq> 0) r) 10 else 0)"
      by simp
    moreover have "lineDelimCountW s = (if w = 10 then 1 + lineDelimCountW r else 0)"
      by (subst lineDelimCountW.simps, subst Cons) simp
    ultimately show ?thesis using 1 [OF Cons] by simp
  qed
qed

lemma wCopyAndConvert_overrun:
  "wCopyAndConvertLfToCrlf always ws = None \<longleftrightarrow> 10 \<in> set (dropWhile (\<lambda>w. w \<noteq> 0) ws)"
proof -
  have "count_list ws 10 = count_list (takeWhile (\<lambda>w. w \<noteq> 0) ws) 10 + count_list (dropWhile (\<lambda>w. w \<noteq> 0) ws) 10"
    by (metis count_list_append takeWhile_dropWhile_id)
  then have "length (convert_lf_w ws) \<noteq> length ws + lineDelimCountW ws
      \<longleftrightarrow> count_list (dropWhile (\<lambda>w. w \<noteq> 0) ws) 10 \<noteq> 0"
    by (simp add: length_convert_lf_w lineDelimCountW_count)
  then show ?thesis
    by (simp add: wCopyAndConvertLfToCrlf_def always_def count_list_0_iff Let_def)
qed

section \<open>Properties\<close>

text \<open>A string value made from NUL-free UTF-8 text reads back as that text with every CRLF, CR
  and LF turned into one LF; no CR is left, and with \<open>_cr\<close> construction the text is unchanged.\<close>
theorem string_new_read:
  assumes "utf8_text s" "NUL \<notin> set s"
  shows "bindE (xmlrpc_string_new always s :: 'd xvalue result) (xmlrpc_read_string always) = Inr (normalize_lines s) \<and>
         CR \<notin> set (normalize_lines s) \<and>
         bindE (xmlrpc_string_new_cr always s :: 'd xvalue result) (xmlrpc_read_string always) = Inr s"
proof -
  have "NUL \<notin> set (normalize_lines s)"
    using norm_lines_set [of CR LF s] assms(2) by auto
  then show ?thesis
    using assms norm_lines_no_cr [of CR LF s] c_str_id [of s]
      stringNew_always [of s CR_IS_LINEDELIM, where 'd = 'd] stringNew_always [of s CR_IS_CHAR, where 'd = 'd]
    by (simp add: xmlrpc_string_new_def xmlrpc_string_new_cr_def read_string_value)
qed

lemma string_new_read_witness:
  "bindE (xmlrpc_string_new always (''a'' @ CRLF @ ''b'') :: unit xvalue result) (xmlrpc_read_string always)
     = Inr (''a'' @ [LF] @ ''b'')"
proof -
  have "xml_text (''a'' @ CRLF @ ''b'')"
    unfolding xml_text_def
    by (rule exI [of _ "map uchar (''a'' @ CRLF @ ''b'')"]) code_simp
  then show ?thesis
    using string_new_read [of "''a'' @ CRLF @ ''b''", where 'd = unit] xml_text_utf8_text by simp
qed

text \<open>Text with CRLF line ends survives construction and \<open>xmlrpc_read_string_crlf\<close> unchanged;
  the buffer of that reader always has the right size.\<close>
theorem crlf_text_roundtrip:
  assumes "utf8_text (convert_lf s)" "CR \<notin> set s" "NUL \<notin> set s"
  shows "\<exists>v. xmlrpc_string_new always (convert_lf s) = Inr v \<and>
             xmlrpc_read_string_crlf always v = Some (Inr (convert_lf s))"
proof -
  have "NUL \<notin> set (convert_lf s)" using assms(3) by (induction s) auto
  then have "xmlrpc_string_new always (convert_lf s) = Inr (XString s)"
    using assms(1,2) stringNew_always [of "convert_lf s" CR_IS_LINEDELIM] c_str_id
    by (simp add: xmlrpc_string_new_def normalize_convert_lf)
  with read_string_crlf_value [OF assms(3)] show ?thesis by blast
qed

lemma crlf_text_roundtrip_witness:
  "\<exists>v. xmlrpc_string_new always (convert_lf ''x'') = Inr v \<and>
       xmlrpc_read_string_crlf always v = Some (Inr (convert_lf ''x''))"
  by (rule crlf_text_roundtrip)
    (simp_all add: xml_text_utf8_text plain_xml_text plain_char_def uchar_def)

text \<open>C34: a wide string of legal characters without NUL is read back from the value made of it, its
  line ends normalised.\<close>
theorem wide_string_roundtrip:
  assumes "list_all ucs2_legal ws" "0 \<notin> set ws"
  shows "bindE (xmlrpc_string_w_new always ws :: 'd xvalue result) (xmlrpc_read_string_w always) = Inr (norm_lines 13 10 ws)"
proof -
  have "0 \<notin> set (norm_lines 13 10 ws)" using norm_lines_set [of 13 10 ws] assms(2) by auto
  moreover have "wcs_str ws = ws"
    unfolding wcs_str_def using assms(2) by (auto simp: takeWhile_eq_all_conv)
  ultimately show ?thesis
    using assms(1) norm_lines_legal read_string_w_encs [where 'd = 'd]
    by (simp add: xmlrpc_string_w_new_def stringWNew_always)
qed

lemma wide_string_roundtrip_witness:
  "bindE (xmlrpc_string_w_new always [0x20AC, 13, 10, 0x41] :: unit xvalue result) (xmlrpc_read_string_w always)
     = Inr (norm_lines 13 10 [0x20AC, 13, 10, 0x41])"
  by (rule wide_string_roundtrip) (simp_all add: ucs2_legal_def)

text \<open>C35: \<open>xmlrpc_read_string_w_lp_crlf\<close> overruns the buffer it allocates on exactly the string
  values that have a line end after a NUL: it counts line ends with a search that stops at the NUL.\<close>
theorem read_string_w_lp_crlf_overrun:
  assumes "list_all ucs2_legal ws"
  shows "xmlrpc_read_string_w_lp_crlf always (XString (utf8_encs ws) :: 'd xvalue) = None \<longleftrightarrow>
         10 \<in> set (dropWhile (\<lambda>w. w \<noteq> 0) ws)"
  using setupWcsBlock_encs [OF assms, where 'a = 'd] wCopyAndConvert_overrun [of ws]
  by (simp add: xmlrpc_read_string_w_lp_crlf_def validateStringType_def)

lemma read_string_w_lp_crlf_overrun_witness:
  "xmlrpc_read_string_w_lp_crlf always (XString (utf8_encs [0x41, 0, 10]) :: unit xvalue) = None"
  using read_string_w_lp_crlf_overrun [of "[0x41, 0, 10]", where 'd = unit] by (simp add: ucs2_legal_def)

end
