(* ===== verification/Base64.thy ===== *)
theory Base64
  imports Memblock
begin

text \<open>
  The base64 routines of \<open>lib/libutil/base64.c\<close>: the encoder on memory blocks with and
  without line breaks, the decoder, and the encoder Abyss uses on C strings.  Shift registers are
  \<open>unsigned int\<close>: 32 bits, the wrap-around of the left shift written out.
\<close>

section \<open>Tables\<close>

definition table_a2b_base64 :: "int list" where
  "table_a2b_base64 =
    [-1,-1,-1,-1, -1,-1,-1,-1, -1,-1,-1,-1, -1,-1,-1,-1,
     -1,-1,-1,-1, -1,-1,-1,-1, -1,-1,-1,-1, -1,-1,-1,-1,
     -1,-1,-1,-1, -1,-1,-1,-1, -1,-1,-1,62, -1,-1,-1,63,
     52,53,54,55, 56,57,58,59, 60,61,-1,-1, -1, 0,-1,-1,
     -1, 0, 1, 2,  3, 4, 5, 6,  7, 8, 9,10, 11,12,13,14,
     15,16,17,18, 19,20,21,22, 23,24,25,-1, -1,-1,-1,-1,
     -1,26,27,28, 29,30,31,32, 33,34,35,36, 37,38,39,40,
     41,42,43,44, 45,46,47,48, 49,50,51,-1, -1,-1,-1,-1]"

definition BASE64_PAD :: char where "BASE64_PAD = CHR ''=''"

definition BASE64_MAXBIN :: nat where "BASE64_MAXBIN = 57"

definition BASE64_LINE_SZ :: nat where "BASE64_LINE_SZ = 128"

definition table_b2a_base64 :: string where
  "table_b2a_base64 = ''ABCDEFGHIJKLMNOPQRSTUVWXYZabcdefghijklmnopqrstuvwxyz0123456789+/''"

definition b2a :: "int \<Rightarrow> char" where
  "b2a i = table_b2a_base64 ! nat i"

section \<open>Encoding to a memory block\<close>

text \<open>The inner loop: the 6-bit groups that are ready.\<close>

fun emit_groups :: "nat \<Rightarrow> int \<Rightarrow> string \<times> nat" where
  "emit_groups leftbits leftchar =
     (if 6 \<le> leftbits
      then let thisCh = drop_bit (leftbits - 6) leftchar AND 0x3f;
               (out, lb) = emit_groups (leftbits - 6) leftchar
           in (b2a thisCh # out, lb)
      else ([], leftbits))"

declare emit_groups.simps [simp del]

fun encode_bytes :: "nat \<Rightarrow> int \<Rightarrow> char list \<Rightarrow> string \<times> nat \<times> int" where
  "encode_bytes leftbits leftchar [] = ([], leftbits, leftchar)"
| "encode_bytes leftbits leftchar (c # cs) =
     (let leftchar = (push_bit 8 leftchar OR uchar c) mod 2 ^ 32;
          (out, lb) = emit_groups (leftbits + 8) leftchar;
          (out', lb', lc') = encode_bytes lb leftchar cs
      in (out @ out', lb', lc'))"

definition encode_line :: "bool \<Rightarrow> char list \<Rightarrow> string" where
  "encode_line wantNewlines chunk =
     (let (out, leftbits, leftchar) = encode_bytes 0 0 chunk;
          tail = (if leftbits = 2 then [b2a (push_bit 4 (leftchar AND 3)), BASE64_PAD, BASE64_PAD]
                  else if leftbits = 4 then [b2a (push_bit 2 (leftchar AND 0xf)), BASE64_PAD]
                  else [])
      in out @ tail @ (if wantNewlines then CRLF else []))"

function encode_chunks ::
    "(nat \<Rightarrow> bool) \<Rightarrow> bool \<Rightarrow> char list \<Rightarrow> char mem_block \<Rightarrow> char mem_block result" where
  "encode_chunks mok wantNewlines data output =
     (if data = [] then Inr output
      else bindE (mem_block_append mok 1 output (encode_line wantNewlines (take BASE64_MAXBIN data)))
             (encode_chunks mok wantNewlines (drop BASE64_MAXBIN data)))"
  by pat_completeness auto
termination
  by (relation "measure (\<lambda>(mok, w, data, output). length data)") (auto simp: BASE64_MAXBIN_def)

declare encode_chunks.simps [simp del]

definition base64Encode :: "(nat \<Rightarrow> bool) \<Rightarrow> char list \<Rightarrow> bool \<Rightarrow> char mem_block result" where
  "base64Encode mok binData wantNewlines =
     bindE (mem_block_new mok 1 0) (\<lambda>output.
       if length binData = 0
       then if wantNewlines then mem_block_append mok 1 output CRLF else Inr output
       else encode_chunks mok wantNewlines binData output)"

definition xmlrpc_base64_encode :: "(nat \<Rightarrow> bool) \<Rightarrow> char list \<Rightarrow> char mem_block result" where
  "xmlrpc_base64_encode mok binData = base64Encode mok binData True"

definition xmlrpc_base64_encode_without_newlines ::
    "(nat \<Rightarrow> bool) \<Rightarrow> char list \<Rightarrow> char mem_block result" where
  "xmlrpc_base64_encode_without_newlines mok binData = base64Encode mok binData False"

section \<open>Decoding\<close>

record decode_state =
  ds_leftbits :: nat
  ds_leftchar :: int
  ds_npad :: nat
  ds_out :: "char list"

definition a2b :: "char \<Rightarrow> int" where
  "a2b c = (table_a2b_base64 ! nat (schar c AND 0x7f)) mod 256"

definition decode_char :: "char \<Rightarrow> decode_state \<Rightarrow> decode_state" where
  "decode_char c st =
     (let thisCh = chr (schar c AND 0x7f) in
      if thisCh = CR \<or> thisCh = LF \<or> thisCh = CHR '' '' then st
      else
        let npad = (if thisCh = BASE64_PAD then ds_npad st + 1 else ds_npad st);
            thisCh = a2b c
        in if thisCh = 255 then st\<lparr>ds_npad := npad\<rparr>
           else
             let leftchar = push_bit 6 (ds_leftchar st) mod 2 ^ 32 OR thisCh;
                 leftbits = ds_leftbits st + 6
             in if 8 \<le> leftbits
                then \<lparr>ds_leftbits = leftbits - 8,
                      ds_leftchar = leftchar AND (push_bit (leftbits - 8) 1 - 1),
                      ds_npad = npad,
                      ds_out = ds_out st @ [chr (drop_bit (leftbits - 8) leftchar AND 0xFF)]\<rparr>
                else \<lparr>ds_leftbits = leftbits, ds_leftchar = leftchar, ds_npad = npad,
                      ds_out = ds_out st\<rparr>)"

definition decode_chars :: "string \<Rightarrow> decode_state \<Rightarrow> decode_state" where
  "decode_chars ascii = fold decode_char ascii"

definition decode_init :: decode_state where
  "decode_init = \<lparr>ds_leftbits = 0, ds_leftchar = 0, ds_npad = 0, ds_out = []\<rparr>"

definition xmlrpc_base64_decode :: "(nat \<Rightarrow> bool) \<Rightarrow> string \<Rightarrow> char mem_block result" where
  "xmlrpc_base64_decode mok asciiData =
     (let bufferSize = ((length asciiData + 3) div 4) * 3 in
      bindE (mem_block_new mok 1 bufferSize) (\<lambda>output.
      let st = decode_chars asciiData decode_init;
          binLen = length (ds_out st);
          npad = ds_npad st;
          output' = output\<lparr>blk_cells := Some (write_cells 0 (ds_out st) (mem_block_contents output))\<rparr>
      in if ds_leftbits st \<noteq> 0
         then Inl (set_fault XMLRPC_PARSE_ERROR ''Incorrect Base64 padding'')
         else if npad > binLen \<or> npad > 2
         then Inl (set_fault XMLRPC_PARSE_ERROR ''Malformed Base64 data'')
         else mem_block_resize mok 1 output' (binLen - npad)))"

section \<open>The encoder on C strings\<close>

text \<open>
  \<open>xmlrpc_base64Encode\<close> indexes its table with signed characters; an index outside the
  table is \<open>None\<close>.  The loop reads three characters at a time: \<open>beyond\<close> is what the memory
  after the terminating NUL holds.
\<close>

definition tbl :: "int \<Rightarrow> char option" where
  "tbl i = (if 0 \<le> i \<and> i < 64 then Some (b2a i) else None)"

definition encode_three :: "char \<Rightarrow> char \<Rightarrow> char \<Rightarrow> char option list" where
  "encode_three s0 s1 s2 =
     [tbl (drop_bit 2 (schar s0)),
      tbl (push_bit 4 (schar s0 AND 3) + drop_bit 4 (schar s1)),
      tbl (push_bit 2 (schar s1 AND 0xf) + drop_bit 6 (schar s2)),
      tbl (schar s2 AND 0x3f)]"

fun encode_threes :: "char \<Rightarrow> string \<Rightarrow> char option list" where
  "encode_threes beyond [] = []"
| "encode_threes beyond [a] = encode_three a NUL beyond"
| "encode_threes beyond [a, b] = encode_three a b NUL"
| "encode_threes beyond (a # b # c # s) = encode_three a b c @ encode_threes beyond s"

definition xmlrpc_base64Encode :: "char \<Rightarrow> string \<Rightarrow> char option list" where
  "xmlrpc_base64Encode beyond chars =
     (let p = encode_threes beyond chars;
          i = 3 * ((length chars + 2) div 3)
      in if i = length chars + 1 then butlast p @ [Some (CHR ''='')]
         else if i = length chars + 2 then butlast (butlast p) @ [Some (CHR ''=''), Some (CHR ''='')]
         else p)"

section \<open>The specification: RFC 4648\<close>

definition sextets :: "int \<Rightarrow> int \<Rightarrow> int \<Rightarrow> int list" where
  "sextets x y z = [x div 4, x mod 4 * 16 + y div 16, y mod 16 * 4 + z div 64, z mod 64]"

fun b64 :: "char list \<Rightarrow> string" where
  "b64 [] = []"
| "b64 [a] = map b2a (take 2 (sextets (uchar a) 0 0)) @ [BASE64_PAD, BASE64_PAD]"
| "b64 [a, b] = map b2a (take 3 (sextets (uchar a) (uchar b) 0)) @ [BASE64_PAD]"
| "b64 (a # b # c # s) = map b2a (sextets (uchar a) (uchar b) (uchar c)) @ b64 s"

lemma b64_append: "3 dvd length xs \<Longrightarrow> b64 (xs @ ys) = b64 xs @ b64 ys"
proof (induction xs rule: b64.induct)
  case (4 a b c s)
  then have "3 dvd length s" by (simp add: dvd_def) presburger
  with 4 show ?case by simp
qed (auto dest: dvd_imp_le)

lemma length_b64: "length (b64 xs) = 4 * ((length xs + 2) div 3)"
proof (induction xs rule: b64.induct)
  case (4 a b c s)
  have "(5 + length s) div 3 = Suc ((length s + 2) div 3)" by presburger
  with 4 show ?case by (simp add: sextets_def)
qed (simp_all add: sextets_def)

section \<open>The encoder writes the specified text\<close>

lemma drop_bit_group: "drop_bit k lc AND 0x3f = lc mod 2 ^ (k + 6) div 2 ^ k" for lc :: int
proof -
  have "lc mod (2 ^ k * 2 ^ 6) div 2 ^ k = lc div 2 ^ k mod 2 ^ 6"
    by (subst zmod_zmult2_eq) simp_all
  then show ?thesis
    using and_low_mask(4) [of "lc div 2 ^ k"] by (simp add: drop_bit_eq_div power_add)
qed

lemma emit_groups_few: "n < 6 \<Longrightarrow> emit_groups n lc = ([], n)"
  by (subst emit_groups.simps) simp

lemma emit_groups_more:
  "emit_groups n lc = (out, lb) \<Longrightarrow> emit_groups (n + 6) lc = (b2a (lc mod 2 ^ (n + 6) div 2 ^ n) # out, lb)"
  by (subst emit_groups.simps) (simp add: drop_bit_group)

lemma emit_groups_ready:
  "emit_groups 8 lc = ([b2a (lc mod 256 div 4)], 2)"
  "emit_groups 10 lc = ([b2a (lc mod 1024 div 16)], 4)"
  "emit_groups 12 lc = ([b2a (lc mod 4096 div 64), b2a (lc mod 64)], 0)"
  using emit_groups_more [OF emit_groups_few [of 2 lc]] emit_groups_more [OF emit_groups_few [of 4 lc]]
    emit_groups_more [OF emit_groups_more [OF emit_groups_few [of 0 lc]]]
  by simp_all

definition shift_in :: "int \<Rightarrow> char \<Rightarrow> int" where
  "shift_in lc c = (push_bit 8 lc OR uchar c) mod 2 ^ 32"

lemma shift_in_eq: "shift_in lc c = (lc * 256 + uchar c) mod 2 ^ 32"
  using or_disjoint [of "uchar c" 8 lc] by (simp add: shift_in_def)

lemma mod_shift: "(lc * 256 + y) mod (m * 256) = lc mod m * 256 + y"
  if "0 \<le> y" "y < 256" "0 < m" for lc y m :: int
proof -
  have "(lc * 256 + y) mod (256 * m) = 256 * ((lc * 256 + y) div 256 mod m) + (lc * 256 + y) mod 256"
    using that(3) by (simp add: zmod_zmult2_eq)
  then show ?thesis using digit_div_mod [OF that(1,2), of lc] by (simp add: mult.commute)
qed

lemma shift_in_mod:
  "shift_in lc c mod 256 = uchar c"
  "shift_in lc c mod 1024 = lc mod 4 * 256 + uchar c"
  "shift_in lc c mod 4096 = lc mod 16 * 256 + uchar c"
proof -
  have *: "shift_in lc c mod (m * 256) = lc mod m * 256 + uchar c" if "m * 256 dvd 2 ^ 32" "0 < m" for m
    unfolding shift_in_eq by (subst mod_mod_cancel [OF that(1)], rule mod_shift) (simp_all add: that)
  show "shift_in lc c mod 256 = uchar c" using * [of 1] by simp
  show "shift_in lc c mod 1024 = lc mod 4 * 256 + uchar c" using * [of 4] by simp
  show "shift_in lc c mod 4096 = lc mod 16 * 256 + uchar c" using * [of 16] by simp
qed

lemma shift_in_low: "m dvd 256 \<Longrightarrow> shift_in lc c mod m = uchar c mod m"
  by (metis mod_mod_cancel shift_in_mod(1))

lemma encode_bytes_step:
  "encode_bytes leftbits lc (c # cs) =
     (let (out, lb) = emit_groups (leftbits + 8) (shift_in lc c);
          (out', lb', lc') = encode_bytes lb (shift_in lc c) cs
      in (out @ out', lb', lc'))"
  by (simp add: shift_in_def Let_def)

declare encode_bytes.simps(2) [simp del]

lemma group_of_three:
  fixes p y :: int
  shows "(p * 256 + y) div 16 = p * 16 + y div 16"
    and "(p * 256 + y) div 64 = p * 4 + y div 64"
  using div_mult_self3 [of 16 "p * 16" y] div_mult_self3 [of 64 "p * 4" y] by simp_all

lemma encode_bytes_three:
  "encode_bytes 0 lc (a # b # c # cs) =
     (let (out, lb', lc') = encode_bytes 0 (shift_in (shift_in (shift_in lc a) b) c) cs
      in (map b2a (sextets (uchar a) (uchar b) (uchar c)) @ out, lb', lc'))"
proof -
  let ?l1 = "shift_in lc a" let ?l2 = "shift_in ?l1 b" let ?l3 = "shift_in ?l2 c"
  have "?l2 mod 1024 div 16 = uchar a mod 4 * 16 + uchar b div 16"

    by (simp add: shift_in_mod shift_in_low group_of_three)
  moreover have "?l3 mod 4096 div 64 = uchar b mod 16 * 4 + uchar c div 64"
    by (simp add: shift_in_mod shift_in_low group_of_three)
  moreover have "?l3 mod 64 = uchar c mod 64"
    by (simp add: shift_in_low)
  moreover have "encode_bytes 0 lc (a # b # c # cs) =
    (let (out, lb', lc') = encode_bytes 0 ?l3 cs
     in ([b2a (?l1 mod 256 div 4)] @ [b2a (?l2 mod 1024 div 16)]
         @ [b2a (?l3 mod 4096 div 64), b2a (?l3 mod 64)] @ out, lb', lc'))"
    using emit_groups_ready
    by (cases "encode_bytes 0 ?l3 cs") (simp add: encode_bytes_step)
  ultimately show ?thesis
    by (simp only: shift_in_mod(1) sextets_def list.map append.simps)
qed

definition line_tail :: "nat \<Rightarrow> int \<Rightarrow> string" where
  "line_tail leftbits leftchar =
     (if leftbits = 2 then [b2a (push_bit 4 (leftchar AND 3)), BASE64_PAD, BASE64_PAD]
      else if leftbits = 4 then [b2a (push_bit 2 (leftchar AND 0xf)), BASE64_PAD]
      else [])"

lemma encode_bytes_b64:
  "(case encode_bytes 0 lc cs of (out, lb, lc') \<Rightarrow> out @ line_tail lb lc') = b64 cs"
proof (induction cs arbitrary: lc rule: b64.induct)
  case 1
  then show ?case by (simp add: line_tail_def)
next
  case (2 a)
  show ?case
    by (simp add: encode_bytes_step emit_groups_ready line_tail_def sextets_def and_low_mask
        shift_in_low shift_in_mod push_bit_eq_mult)
next
  case (3 a b)
  have "shift_in (shift_in lc a) b mod 1024 div 16 = uchar a mod 4 * 16 + uchar b div 16"
    by (simp add: shift_in_mod shift_in_low group_of_three)
  then show ?case
    using emit_groups_ready(1) [of "shift_in lc a"]
      emit_groups_ready(2) [of "shift_in (shift_in lc a) b"]
    by (simp add: encode_bytes_step line_tail_def sextets_def and_low_mask shift_in_low
        shift_in_mod(1) push_bit_eq_mult)
next
  case (4 a b c s)
  let ?l3 = "shift_in (shift_in (shift_in lc a) b) c"
  show ?case
    using "4" [of ?l3] by (cases "encode_bytes 0 ?l3 s") (simp add: encode_bytes_three)
qed

lemma encode_line_b64: "encode_line w chunk = b64 chunk @ (if w then CRLF else [])"
proof -
  have "encode_line w chunk =
      (case encode_bytes 0 0 chunk of (out, lb, lc') \<Rightarrow> out @ line_tail lb lc')
      @ (if w then CRLF else [])"
    by (cases "encode_bytes 0 0 chunk") (simp add: encode_line_def line_tail_def)
  then show ?thesis by (simp only: encode_bytes_b64)
qed

declare BASE64_MAXBIN_def [termination_simp]

fun chunk_texts :: "bool \<Rightarrow> char list \<Rightarrow> string list" where
  "chunk_texts w data =
     (if data = [] then []
      else encode_line w (take BASE64_MAXBIN data) # chunk_texts w (drop BASE64_MAXBIN data))"

declare chunk_texts.simps [simp del]

lemma chunk_texts_Nil [simp]: "chunk_texts w [] = []"
  by (subst chunk_texts.simps) simp

lemma chunk_texts_step:
  "data \<noteq> [] \<Longrightarrow> chunk_texts w data =
     encode_line w (take BASE64_MAXBIN data) # chunk_texts w (drop BASE64_MAXBIN data)"
  by (subst chunk_texts.simps) simp

lemma encode_chunks_append_all:
  "encode_chunks mok w data b = memblock_buffer.append_all mok b (chunk_texts w data)"
proof (induction w data arbitrary: b rule: chunk_texts.induct)
  case (1 w data)
  show ?case
  proof (cases "data = []")
    case True
    then show ?thesis by (subst encode_chunks.simps) (simp del: One_nat_def)
  next
    case False
    then have "encode_chunks mok w (drop BASE64_MAXBIN data)
        = (\<lambda>b. memblock_buffer.append_all mok b (chunk_texts w (drop BASE64_MAXBIN data)))"
      using 1 by blast
    with False show ?thesis
      by (subst encode_chunks.simps) (simp add: chunk_texts_step del: One_nat_def)
  qed
qed

definition b64_chars :: string where
  "b64_chars = BASE64_PAD # table_b2a_base64"

definition is_break :: "char \<Rightarrow> bool" where
  "is_break c \<longleftrightarrow> c = CR \<or> c = LF \<or> c = CHR '' ''"

lemma b2a_in_chars: "0 \<le> i \<Longrightarrow> i < 64 \<Longrightarrow> b2a i \<in> set b64_chars"
proof -
  assume "0 \<le> i" "i < 64"
  then have "nat i < length table_b2a_base64"
    by (simp add: table_b2a_base64_def)
  then show ?thesis by (simp add: b2a_def b64_chars_def)
qed

lemma sextets_range:
  assumes "0 \<le> x" "x < 256" "0 \<le> y" "y < 256" "0 \<le> z" "z < 256" "d \<in> set (sextets x y z)"
  shows "0 \<le> d" "d < 64"
proof -
  have "x div 4 < 64" "x mod 4 < 4" "y div 16 < 16" "y mod 16 < 16" "z div 64 < 4" "z mod 64 < 64"
    "0 \<le> x div 4" "0 \<le> y div 16" "0 \<le> z div 64" "0 \<le> x mod 4" "0 \<le> y mod 16" "0 \<le> z mod 64"
    using assms(1-6) by (simp_all add: pos_imp_zdiv_nonneg_iff; linarith)+
  moreover have "d = x div 4 \<or> d = x mod 4 * 16 + y div 16 \<or> d = y mod 16 * 4 + z div 64 \<or> d = z mod 64"
    using assms(7) by (auto simp: sextets_def)
  ultimately show "0 \<le> d" "d < 64"
    by (elim disjE; linarith)+
qed

lemma sextets_in_chars:
  "set (map b2a (take n (sextets (uchar a) (uchar b) (uchar c)))) \<subseteq> set b64_chars"
  using sextets_range [of "uchar a" "uchar b" "uchar c"] b2a_in_chars
  by (auto dest!: in_set_takeD)

lemma b64_in_chars: "set (b64 xs) \<subseteq> set b64_chars"
proof (induction xs rule: b64.induct)
  case (2 a)
  show ?case using sextets_in_chars [of 2 a NUL NUL] by (simp add: b64_chars_def)
next
  case (3 a b)
  show ?case using sextets_in_chars [of 3 a b NUL] by (simp add: b64_chars_def)
next
  case (4 a b c s)
  then show ?case using sextets_in_chars [of 4 a b c] by (simp add: sextets_def)
qed simp

lemma no_break_in_chars: "c \<in> set b64_chars \<Longrightarrow> \<not> is_break c"
proof -
  have "\<forall>c \<in> set b64_chars. \<not> is_break c" by code_simp
  then show "c \<in> set b64_chars \<Longrightarrow> \<not> is_break c" by blast
qed

lemma filter_b64: "filter (\<lambda>c. \<not> is_break c) (b64 xs) = b64 xs"
  using b64_in_chars no_break_in_chars by (auto simp: filter_id_conv)

text \<open>A line holds 57 bytes, a multiple of three: the lines without breaks make up the whole.\<close>

lemma b64_split: "b64 (take BASE64_MAXBIN data) @ b64 (drop BASE64_MAXBIN data) = b64 data"
proof (cases "length data < BASE64_MAXBIN")
  case False
  then have "3 dvd length (take BASE64_MAXBIN data)" by (simp add: BASE64_MAXBIN_def)
  then show ?thesis by (metis append_take_drop_id b64_append)
qed simp

lemma concat_chunk_texts: "concat (chunk_texts False data) = b64 data"
proof (induction "False" data rule: chunk_texts.induct)
  case (1 data)
  then show ?case
    using b64_split [of data] by (cases "data = []") (simp_all add: chunk_texts_step encode_line_b64)
qed

lemma filter_chunk_texts:
  "filter (\<lambda>c. \<not> is_break c) (concat (chunk_texts w data)) = b64 data"
proof (induction w data rule: chunk_texts.induct)
  case (1 w data)
  have "is_break CR" "is_break LF" by (simp_all add: is_break_def)
  with 1 show ?case
    using b64_split [of data]
    by (cases "data = []") (simp_all add: chunk_texts_step encode_line_b64 filter_b64)
qed

lemma base64Encode_chunks:
  assumes "base64Encode mok data w = Inr b"
  shows "block_ready 1 b"
    and "block_data 1 b = (if data = [] then (if w then CRLF else []) else concat (chunk_texts w data))"
proof -
  obtain b0 where b0: "mem_block_new mok 1 0 = Inr b0"
    and b: "(if length data = 0 then if w then mem_block_append mok 1 b0 CRLF else Inr b0
             else encode_chunks mok w data b0) = Inr b"
    using assms by (auto simp: base64Encode_def bindE_Inr_conv)
  note empty = mem_block_new_empty [OF b0]
  have "grown_block 1 b \<and> block_data 1 b =
    (if data = [] then (if w then CRLF else []) else concat (chunk_texts w data))"
  proof (cases "data = []")
    case True
    with b empty show ?thesis
      using mem_block_append_grown [of 1 b0 mok CRLF b] by (cases w) auto
  next
    case False
    with b have "memblock_buffer.append_all mok b0 (chunk_texts w data) = Inr b"
      by (simp add: encode_chunks_append_all)
    then show ?thesis
      using memblock_buffer.append_all_contents [OF empty(1)] empty(2) False by simp
  qed
  then show "block_ready 1 b"
    "block_data 1 b = (if data = [] then (if w then CRLF else []) else concat (chunk_texts w data))"
    by (simp_all add: grown_block_def)
qed

text \<open>Up to line breaks the encoder writes the text of RFC 4648.\<close>

lemma base64Encode_text:
  assumes "base64Encode mok data w = Inr b"
  shows "filter (\<lambda>c. \<not> is_break c) (block_data 1 b) = b64 data"
  using base64Encode_chunks(2) [OF assms] filter_chunk_texts [of w data]
  by (simp add: is_break_def split: if_splits)

lemma base64Encode_no_newlines:
  "base64Encode mok data False = Inr b \<Longrightarrow> block_data 1 b = b64 data"
  using base64Encode_chunks(2) [of mok data False b] concat_chunk_texts by simp

text \<open>A line never overruns the line buffer.\<close>

lemma encode_line_fits: "length chunk \<le> BASE64_MAXBIN \<Longrightarrow> length (encode_line w chunk) \<le> BASE64_LINE_SZ"
proof -
  assume "length chunk \<le> BASE64_MAXBIN"
  then have "(length chunk + 2) div 3 \<le> 19" by (simp add: BASE64_MAXBIN_def)
  then show ?thesis by (simp add: encode_line_b64 length_b64 BASE64_LINE_SZ_def)
qed

section \<open>The decoder inverts the encoder\<close>

lemma decode_char_break: "is_break c \<Longrightarrow> decode_char c st = st"
proof -
  assume "is_break c"
  then have "chr (schar c AND 0x7f) = c"
    by (auto simp: is_break_def and_low_mask schar_def uchar_def)
  with \<open>is_break c\<close> show ?thesis by (auto simp: decode_char_def is_break_def Let_def)
qed

lemma decode_chars_filter: "decode_chars (filter (\<lambda>c. \<not> is_break c) s) st = decode_chars s st"
  by (induction s arbitrary: st) (simp_all add: decode_chars_def decode_char_break)

text \<open>A pad is read as the digit 0, and counted.\<close>

definition digit_step :: "bool \<Rightarrow> int \<Rightarrow> decode_state \<Rightarrow> decode_state" where
  "digit_step pad d st =
     (let lc = ds_leftchar st * 64 + d;
          n = (if pad then ds_npad st + 1 else ds_npad st)
      in if 2 \<le> ds_leftbits st
         then \<lparr>ds_leftbits = ds_leftbits st - 2, ds_leftchar = lc mod 2 ^ (ds_leftbits st - 2),
               ds_npad = n, ds_out = ds_out st @ [chr (lc div 2 ^ (ds_leftbits st - 2))]\<rparr>
         else \<lparr>ds_leftbits = ds_leftbits st + 6, ds_leftchar = lc, ds_npad = n, ds_out = ds_out st\<rparr>)"

definition decode_inv :: "decode_state \<Rightarrow> bool" where
  "decode_inv st \<longleftrightarrow> ds_leftbits st < 8 \<and> 0 \<le> ds_leftchar st \<and> ds_leftchar st < 2 ^ ds_leftbits st"

lemma chr_mod_256 [simp]: "chr (x mod 256) = chr x"
  by (simp add: chr_eq_iff)

lemma decode_char_step:
  assumes "decode_inv st" "0 \<le> a2b c" "a2b c < 64" "\<not> is_break (chr (schar c AND 0x7f))"
  shows "decode_char c st = digit_step (chr (schar c AND 0x7f) = BASE64_PAD) (a2b c) st"
proof -
  have lc: "0 \<le> ds_leftchar st" "ds_leftchar st < 128"
  proof -
    have "(2::int) ^ ds_leftbits st \<le> 2 ^ 7"
      using assms(1) by (intro power_increasing) (simp_all add: decode_inv_def)
    then show "0 \<le> ds_leftchar st" "ds_leftchar st < 128"
      using assms(1) by (simp_all add: decode_inv_def)
  qed
  then have "push_bit 6 (ds_leftchar st) mod 2 ^ 32 = push_bit 6 (ds_leftchar st)"
    by (simp add: push_bit_eq_mult)
  then have shift: "push_bit 6 (ds_leftchar st) mod 2 ^ 32 OR a2b c = ds_leftchar st * 64 + a2b c"
    using or_disjoint [of "a2b c" 6 "ds_leftchar st"] assms by simp
  have mask: "x AND (push_bit n 1 - 1) = x mod 2 ^ n" for x :: int and n
    by (rule and_mask_mod) (simp add: push_bit_eq_mult)
  have "a2b c \<noteq> 255" using assms(3) by simp
  then show ?thesis
    using assms(4)
    by (simp add: decode_char_def digit_step_def is_break_def shift [simplified] mask drop_bit_eq_div
        and_low_mask Let_def del: push_bit_of_1)
qed

lemma a2b_b2a:
  assumes "0 \<le> d" "d < 64"
  shows "a2b (b2a d) = d" "\<not> is_break (chr (schar (b2a d) AND 0x7f))"
    "chr (schar (b2a d) AND 0x7f) \<noteq> BASE64_PAD"
proof -
  have "\<forall>d \<in> set [0..63]. a2b (b2a d) = d \<and> \<not> is_break (chr (schar (b2a d) AND 0x7f))
      \<and> chr (schar (b2a d) AND 0x7f) \<noteq> BASE64_PAD"
    by code_simp
  then show "a2b (b2a d) = d" "\<not> is_break (chr (schar (b2a d) AND 0x7f))"
    "chr (schar (b2a d) AND 0x7f) \<noteq> BASE64_PAD"
    using assms by auto
qed

lemma decode_char_b2a:
  "decode_inv st \<Longrightarrow> 0 \<le> d \<Longrightarrow> d < 64 \<Longrightarrow> decode_char (b2a d) st = digit_step False d st"
  using decode_char_step [of st "b2a d"] by (simp add: a2b_b2a)

lemma decode_char_pad: "decode_inv st \<Longrightarrow> decode_char BASE64_PAD st = digit_step True 0 st"
proof -
  have "a2b BASE64_PAD = 0" "\<not> is_break (chr (schar BASE64_PAD AND 0x7f))"
    "chr (schar BASE64_PAD AND 0x7f) = BASE64_PAD"
    by code_simp+
  then show "decode_inv st \<Longrightarrow> decode_char BASE64_PAD st = digit_step True 0 st"
    using decode_char_step [of st BASE64_PAD] by simp
qed

text \<open>A group of four digits gives three bytes back.\<close>

lemma decode_inv_aligned: "decode_inv \<lparr>ds_leftbits = 0, ds_leftchar = 0, ds_npad = n, ds_out = out\<rparr>"
  by (simp add: decode_inv_def)

lemma digit_steps_group:
  fixes x y z :: int and n :: nat and out :: "char list" and p q :: bool
  assumes "0 \<le> x" "x < 256" "0 \<le> y" "y < 256" "0 \<le> z" "z < 256"
  defines "st0 \<equiv> \<lparr>ds_leftbits = 0, ds_leftchar = 0, ds_npad = n, ds_out = out\<rparr>"
  defines "st1 \<equiv> digit_step False (x div 4) st0"
  defines "st2 \<equiv> digit_step False (x mod 4 * 16 + y div 16) st1"
  defines "st3 \<equiv> digit_step p (y mod 16 * 4 + z div 64) st2"
  shows "decode_inv st1 \<and> decode_inv st2 \<and> decode_inv st3 \<and>
         digit_step q (z mod 64) st3 =
         \<lparr>ds_leftbits = 0, ds_leftchar = 0, ds_npad = n + of_bool p + of_bool q,
          ds_out = out @ [chr x, chr y, chr z]\<rparr>"
proof -
  have st1: "st1 = \<lparr>ds_leftbits = 6, ds_leftchar = x div 4, ds_npad = n, ds_out = out\<rparr>"
    by (simp add: st1_def st0_def digit_step_def)
  have sum2: "x div 4 * 64 + (x mod 4 * 16 + y div 16) = x * 16 + y div 16"
    using div_mult_mod_eq [of x 4] by linarith
  have "0 \<le> y div 16" "y div 16 < 16" using assms by (simp_all add: pos_imp_zdiv_nonneg_iff)
  note cut2 = digit_div_mod [OF this, of x] mod_pos_pos_trivial [OF this]
  have st2: "st2 = \<lparr>ds_leftbits = 4, ds_leftchar = y div 16, ds_npad = n, ds_out = out @ [chr x]\<rparr>"
    unfolding st2_def st1 digit_step_def decode_state.simps Let_def sum2 by (simp add: cut2)
  have sum3: "y div 16 * 64 + (y mod 16 * 4 + z div 64) = y * 4 + z div 64"
    using div_mult_mod_eq [of y 16] by linarith
  have "0 \<le> z div 64" "z div 64 < 4" using assms by (simp_all add: pos_imp_zdiv_nonneg_iff)
  note cut3 = digit_div_mod [OF this, of y] mod_pos_pos_trivial [OF this]
  have st3: "st3 = \<lparr>ds_leftbits = 2, ds_leftchar = z div 64, ds_npad = n + of_bool p,
      ds_out = out @ [chr x, chr y]\<rparr>"
    unfolding st3_def st2 digit_step_def decode_state.simps Let_def sum3 by (simp add: cut3)
  have "x div 4 < 64" "0 \<le> x div 4" using assms by (simp_all add: pos_imp_zdiv_nonneg_iff)
  then show ?thesis
    using \<open>0 \<le> y div 16\<close> \<open>y div 16 < 16\<close> \<open>0 \<le> z div 64\<close> \<open>z div 64 < 4\<close>
    by (simp add: st1 st2 st3 decode_inv_def digit_step_def)
qed

lemma decode_chars_simps [simp]:
  "decode_chars [] st = st" "decode_chars (c # s) st = decode_chars s (decode_char c st)"
  "decode_chars (s @ t) st = decode_chars t (decode_chars s st)"
  by (simp_all add: decode_chars_def)

lemma decode_char_digit:
  assumes "decode_inv st" "0 \<le> d" "d < 64" "p \<Longrightarrow> d = 0"
  shows "decode_char (if p then BASE64_PAD else b2a d) st = digit_step p d st"
  using assms decode_char_b2a decode_char_pad by (cases p) simp_all

lemma decode_four:
  fixes x y z :: int
  assumes xyz: "0 \<le> x" "x < 256" "0 \<le> y" "y < 256" "0 \<le> z" "z < 256"
    and "p \<Longrightarrow> y mod 16 * 4 + z div 64 = 0" "q \<Longrightarrow> z mod 64 = 0"
  shows "decode_chars
      [b2a (x div 4), b2a (x mod 4 * 16 + y div 16),
       if p then BASE64_PAD else b2a (y mod 16 * 4 + z div 64),
       if q then BASE64_PAD else b2a (z mod 64)]
      \<lparr>ds_leftbits = 0, ds_leftchar = 0, ds_npad = n, ds_out = out\<rparr>
    = \<lparr>ds_leftbits = 0, ds_leftchar = 0, ds_npad = n + of_bool p + of_bool q,
       ds_out = out @ [chr x, chr y, chr z]\<rparr>"
proof -
  have range: "0 \<le> d \<and> d < 64" if "d \<in> set (sextets x y z)" for d
    using sextets_range [OF xyz that] by simp
  have d: "0 \<le> x div 4 \<and> x div 4 < 64"
    "0 \<le> x mod 4 * 16 + y div 16 \<and> x mod 4 * 16 + y div 16 < 64"
    "0 \<le> y mod 16 * 4 + z div 64 \<and> y mod 16 * 4 + z div 64 < 64"
    "0 \<le> z mod 64 \<and> z mod 64 < 64"
    by (rule range, simp only: sextets_def list.set insert_iff simp_thms)+
  note inv = digit_steps_group [OF xyz, where n = n and out = out and p = p and q = q]
  let ?st0 = "\<lparr>ds_leftbits = 0, ds_leftchar = 0, ds_npad = n, ds_out = out\<rparr>"
  let ?st1 = "digit_step False (x div 4) ?st0"
  let ?st2 = "digit_step False (x mod 4 * 16 + y div 16) ?st1"
  let ?st3 = "digit_step p (y mod 16 * 4 + z div 64) ?st2"
  have "decode_char (b2a (x div 4)) ?st0 = ?st1"
    using d(1) decode_inv_aligned by (intro decode_char_b2a) blast+
  moreover have "decode_char (b2a (x mod 4 * 16 + y div 16)) ?st1 = ?st2"
    using d(2) inv by (intro decode_char_b2a) blast+
  moreover have "decode_char (if p then BASE64_PAD else b2a (y mod 16 * 4 + z div 64)) ?st2 = ?st3"
    using d(3) inv assms(7) by (intro decode_char_digit) blast+
  moreover have "decode_char (if q then BASE64_PAD else b2a (z mod 64)) ?st3 = digit_step q (z mod 64) ?st3"
    using d(4) inv assms(8) by (intro decode_char_digit) blast+
  ultimately show ?thesis
    using inv by (simp only: decode_chars_simps)
qed

lemma decode_group:
  "decode_chars (map b2a (sextets (uchar a) (uchar b) (uchar c)))
     \<lparr>ds_leftbits = 0, ds_leftchar = 0, ds_npad = n, ds_out = out\<rparr>
   = \<lparr>ds_leftbits = 0, ds_leftchar = 0, ds_npad = n, ds_out = out @ [a, b, c]\<rparr>"
  using decode_four [of "uchar a" "uchar b" "uchar c" False False n out]
  by (simp add: sextets_def del: decode_chars_simps)

lemma decode_group_two:
  "decode_chars (map b2a (take 3 (sextets (uchar a) (uchar b) 0)) @ [BASE64_PAD])
     \<lparr>ds_leftbits = 0, ds_leftchar = 0, ds_npad = n, ds_out = out\<rparr>
   = \<lparr>ds_leftbits = 0, ds_leftchar = 0, ds_npad = n + 1, ds_out = out @ [a, b, NUL]\<rparr>"
  using decode_four [of "uchar a" "uchar b" 0 False True n out]
  by (simp add: sextets_def del: decode_chars_simps)

lemma decode_group_one:
  "decode_chars (map b2a (take 2 (sextets (uchar a) 0 0)) @ [BASE64_PAD, BASE64_PAD])
     \<lparr>ds_leftbits = 0, ds_leftchar = 0, ds_npad = n, ds_out = out\<rparr>
   = \<lparr>ds_leftbits = 0, ds_leftchar = 0, ds_npad = n + 2, ds_out = out @ [a, NUL, NUL]\<rparr>"
  using decode_four [of "uchar a" 0 0 True True n out]
  by (simp add: sextets_def del: decode_chars_simps)

lemma decode_b64:
  "\<exists>k. decode_chars (b64 xs) \<lparr>ds_leftbits = 0, ds_leftchar = 0, ds_npad = 0, ds_out = out\<rparr>
     = \<lparr>ds_leftbits = 0, ds_leftchar = 0, ds_npad = k, ds_out = out @ xs @ replicate k NUL\<rparr>
     \<and> k \<le> 2"
proof (induction xs arbitrary: out rule: b64.induct)
  case 1
  then show ?case by simp
next
  case (2 a)
  show ?case
    unfolding b64.simps decode_group_one by (rule exI [of _ 2]) (simp add: numeral_2_eq_2)
next
  case (3 a b)
  show ?case
    unfolding b64.simps decode_group_two by (rule exI [of _ 1]) simp
next
  case (4 a b c s)
  then show ?case
    using "4" [of "out @ [a, b, c]"] by (simp add: decode_group)
qed

text \<open>The decoder never writes past its buffer.\<close>

lemma decode_char_bits:
  "8 * length (ds_out (decode_char c st)) + ds_leftbits (decode_char c st)
     \<le> 8 * length (ds_out st) + ds_leftbits st + 6"
  by (simp add: decode_char_def Let_def)

lemma decode_chars_bits:
  "8 * length (ds_out (decode_chars s st)) + ds_leftbits (decode_chars s st)
     \<le> 8 * length (ds_out st) + ds_leftbits st + 6 * length s"
proof (induction s arbitrary: st)
  case (Cons c s)
  show ?case
    using Cons [of "decode_char c st"] decode_char_bits [of c st] by simp
qed simp

lemma decode_output_fits: "length (ds_out (decode_chars s decode_init)) \<le> (length s + 3) div 4 * 3"
proof -
  have "8 * length (ds_out (decode_chars s decode_init)) \<le> 6 * length s"
    using decode_chars_bits [of s decode_init] by (simp add: decode_init_def)
  then show ?thesis by presburger
qed

lemma base64_decode_text:
  assumes "filter (\<lambda>c. \<not> is_break c) ascii = b64 data"
    and "mok SIZEOF_MEM_BLOCK" "mok (max BLOCK_ALLOC_MIN ((length ascii + 3) div 4 * 3))"
  shows "\<exists>b. xmlrpc_base64_decode mok ascii = Inr b \<and> block_ready 1 b \<and> block_data 1 b = data"
proof -
  have "decode_chars ascii decode_init = decode_chars (b64 data) decode_init"
    using decode_chars_filter assms(1) by metis
  then obtain k where st: "decode_chars ascii decode_init
      = \<lparr>ds_leftbits = 0, ds_leftchar = 0, ds_npad = k, ds_out = data @ replicate k NUL\<rparr>" "k \<le> 2"
    using decode_b64 [of data "[]"] by (auto simp: decode_init_def)
  obtain b :: "char mem_block" where b: "mem_block_new mok 1 ((length ascii + 3) div 4 * 3) = Inr b"
    "mem_block_wf 1 b" "blk_size b = (length ascii + 3) div 4 * 3"
    using mem_block_new_ok [of 1 mok "(length ascii + 3) div 4 * 3"] assms(2,3) by auto
  have "length (data @ replicate k NUL) \<le> blk_size b div 1"
    using decode_output_fits [of ascii] st b(3) by simp
  from fill_and_resize [OF b(2) this, of "length data" mok] st b(1) show ?thesis
    by (simp add: xmlrpc_base64_decode_def Let_def)
qed

section \<open>The encoder on C strings\<close>

lemma length_encode_threes: "length (encode_threes beyond s) = 4 * ((length s + 2) div 3)"
proof (induction beyond s rule: encode_threes.induct)
  case (4 beyond a b c s)
  have "(5 + length s) div 3 = Suc ((length s + 2) div 3)" by presburger
  with 4 show ?case by (simp add: encode_three_def)
qed (simp_all add: encode_three_def)

lemma xmlrpc_base64Encode_step:
  "xmlrpc_base64Encode beyond (a # b # c # s) = encode_three a b c @ xmlrpc_base64Encode beyond s"
proof -
  have i: "(5 + length s) div 3 = Suc (Suc (Suc (length s)) div 3)" by presburger
  have long: "2 \<le> length (encode_threes beyond s)" if "s \<noteq> []"
    using that by (cases s) (simp_all add: length_encode_threes)
  have two: "butlast (xs @ ys) = xs @ butlast ys \<and> butlast (xs @ butlast ys) = xs @ butlast (butlast ys)"
    if "2 \<le> length ys" for xs ys :: "char option list"
  proof -
    have "butlast ys \<noteq> []" "ys \<noteq> []"
      using that by (auto dest: arg_cong [where f = length])
    then show ?thesis by (simp add: butlast_append)
  qed
  show ?thesis
  proof (cases "s = []")
    case True
    then show ?thesis by (simp add: xmlrpc_base64Encode_def)
  next
    case False
    with two [OF long, of "encode_three a b c"] show ?thesis
      by (simp add: xmlrpc_base64Encode_def Let_def i)
  qed
qed

lemma tbl_ascii:
  assumes "uchar a < 128" "uchar b < 128" "uchar c < 128"
  shows "encode_three a b c = map (Some \<circ> b2a) (sextets (uchar a) (uchar b) (uchar c))"
proof -
  have range: "0 \<le> d \<and> d < 64" if "d \<in> set (sextets (uchar a) (uchar b) (uchar c))" for d
    using sextets_range [of "uchar a" "uchar b" "uchar c" d] that by simp
  have "0 \<le> uchar a div 4 \<and> uchar a div 4 < 64"
    "0 \<le> uchar a mod 4 * 16 + uchar b div 16 \<and> uchar a mod 4 * 16 + uchar b div 16 < 64"
    "0 \<le> uchar b mod 16 * 4 + uchar c div 64 \<and> uchar b mod 16 * 4 + uchar c div 64 < 64"
    "0 \<le> uchar c mod 64 \<and> uchar c mod 64 < 64"
    by (rule range, simp only: sextets_def list.set insert_iff simp_thms)+
  then show ?thesis
    using assms
    by (simp only: encode_three_def tbl_def schar_ascii and_low_mask drop_bit_eq_div push_bit_eq_mult
        sextets_def list.map comp_apply power_numeral) simp
qed

lemma xmlrpc_base64Encode_ascii:
  "list_all (\<lambda>c. uchar c < 128) s \<Longrightarrow> xmlrpc_base64Encode beyond s = map Some (b64 s)"
proof (induction s rule: b64.induct)
  case 1
  then show ?case by (simp add: xmlrpc_base64Encode_def)
next
  case (2 a)
  then show ?case
    using tbl_ascii [of a NUL NUL]
    by (simp add: xmlrpc_base64Encode_def encode_three_def sextets_def BASE64_PAD_def)
next
  case (3 a b)
  then show ?case
    using tbl_ascii [of a b NUL]
    by (simp add: xmlrpc_base64Encode_def encode_three_def sextets_def BASE64_PAD_def)
next
  case (4 a b c s)
  then show ?case
    using tbl_ascii [of a b c] by (simp add: xmlrpc_base64Encode_step comp_def)
qed

text \<open>Bytes with the high bit set index the table below its start.\<close>

lemma xmlrpc_base64Encode_high: "128 \<le> uchar c \<Longrightarrow> hd (xmlrpc_base64Encode beyond (c # s)) = None"
proof -
  assume "128 \<le> uchar c"
  then have "schar c < 0" by (simp add: schar_def)
  then have "drop_bit 2 (schar c) < 0" by simp
  then have "tbl (drop_bit 2 (schar c)) = None" by (simp add: tbl_def)
  then show ?thesis
    by (cases "(beyond, c # s)" rule: encode_threes.cases)
      (simp_all add: xmlrpc_base64Encode_def encode_three_def Let_def)
qed

section \<open>Properties\<close>

text \<open>C21: decoding what \<open>xmlrpc_base64_encode\<close> or \<open>xmlrpc_base64_encode_without_newlines\<close> wrote
  gives the bytes back, for every byte string that was encoded.\<close>
theorem base64_roundtrip:
  assumes "base64Encode mok data newlines = Inr b"
    and "mok (max BLOCK_ALLOC_MIN ((length (block_data 1 b) + 3) div 4 * 3))"
  shows "\<exists>b'. xmlrpc_base64_decode mok (block_data 1 b) = Inr b' \<and> block_ready 1 b' \<and>
              block_data 1 b' = data"
proof -
  have "mok SIZEOF_MEM_BLOCK"
    using assms(1) by (auto simp: base64Encode_def mem_block_new_def split: if_splits)
  then show ?thesis
    using base64_decode_text [of "block_data 1 b" data mok] base64Encode_text [OF assms(1)] assms(2)
    by blast
qed

lemma base64_roundtrip_witness:
  "\<exists>b b'. base64Encode always ''ab'' False = Inr b \<and>
     xmlrpc_base64_decode always (block_data 1 b) = Inr b' \<and> block_ready 1 b' \<and> block_data 1 b' = ''ab''"
proof -
  have "isOK (base64Encode always ''ab'' False)" by code_simp
  then obtain b where b: "base64Encode always ''ab'' False = Inr b" by (auto simp: isOK_iff)
  show ?thesis
    using base64_roundtrip [OF b] b by (auto simp: always_def)
qed

text \<open>C32: the encoder writes RFC 4648 base64: without line breaks exactly that text, with them that
  text once the breaks are taken out; each line fits the code's 128-byte line buffer.\<close>
theorem base64_encode_rfc4648:
  assumes "base64Encode mok data newlines = Inr b"
  shows "filter (\<lambda>c. \<not> is_break c) (block_data 1 b) = b64 data \<and>
         (\<not> newlines \<longrightarrow> block_data 1 b = b64 data) \<and>
         length (encode_line newlines (take BASE64_MAXBIN data)) \<le> BASE64_LINE_SZ"
  using base64Encode_text [OF assms] base64Encode_no_newlines [of mok data b] assms
    encode_line_fits [of "take BASE64_MAXBIN data" newlines]
  by auto

lemma base64_encode_rfc4648_witness:
  "\<exists>b. base64Encode always ''Man'' False = Inr b \<and> block_data 1 b = ''TWFu''"
proof -
  have "isOK (base64Encode always ''Man'' False)" "b64 ''Man'' = ''TWFu''" by code_simp+
  then obtain b where b: "base64Encode always ''Man'' False = Inr b" by (auto simp: isOK_iff)
  show ?thesis using base64_encode_rfc4648 [OF b] b \<open>b64 ''Man'' = ''TWFu''\<close> by simp
qed

text \<open>On any input at all the decoder writes no byte past the buffer it allocated, so its
  assertion holds.\<close>
theorem base64_decode_stays_in_buffer:
  "length (ds_out (decode_chars s decode_init)) \<le> (length s + 3) div 4 * 3"
  by (rule decode_output_fits)

text \<open>The encoder for C strings writes RFC 4648 base64 for ASCII, whatever byte follows the
  string in memory, and for a string that starts with a byte above 127 it reads outside its table.\<close>
theorem base64Encode_c_string:
  "(list_all (\<lambda>c. uchar c < 128) s \<longrightarrow> xmlrpc_base64Encode beyond s = map Some (b64 s)) \<and>
   (128 \<le> uchar c \<longrightarrow> hd (xmlrpc_base64Encode beyond (c # s)) = None)"
  using xmlrpc_base64Encode_ascii xmlrpc_base64Encode_high by blast

lemma base64Encode_c_string_witness:
  "xmlrpc_base64Encode NUL ''user:pass'' = map Some (b64 ''user:pass'') \<and>
   hd (xmlrpc_base64Encode NUL (CHR 0xE9 # ''user:pass'')) = None"
proof -
  have "list_all (\<lambda>c. uchar c < 128) ''user:pass''" "128 \<le> uchar (CHR 0xE9)" by code_simp+
  then show ?thesis using base64Encode_c_string [of "''user:pass''" NUL "CHR 0xE9"] by blast
qed

end
