(* ===== verification/Parse_Scalar.thy ===== *)
theory Parse_Scalar
  imports Strings Textutil Base64
begin

text \<open>
  Reading the simple values of \<open>src/parse_value.c\<close>: what stands between the tags of \<open>int\<close>,
  \<open>boolean\<close>, \<open>double\<close>, \<open>dateTime.iso8601\<close>, \<open>string\<close>, \<open>base64\<close>, \<open>nil\<close> and
  \<open>i8\<close>.  \<open>None\<close> is behaviour the C language does not define.
\<close>

section \<open>What the machine provides\<close>

text \<open>
  The arithmetic of \<open>double\<close> and \<open>strtod\<close> (whether it sets \<open>errno\<close>, its value and its
  tail) are the platform's, as is the presence of POSIX regular expressions.
\<close>

record 'd platform =
  have_regex :: bool
  d_int :: "int \<Rightarrow> 'd"
  d_tenth :: 'd
  d_add :: "'d \<Rightarrow> 'd \<Rightarrow> 'd"
  d_mul :: "'d \<Rightarrow> 'd \<Rightarrow> 'd"
  d_neg :: "'d \<Rightarrow> 'd"
  d_above_max :: "'d \<Rightarrow> bool"
  strtod :: "string \<Rightarrow> bool \<times> 'd \<times> string"

definition setParseFault :: "piece list \<Rightarrow> fault" where
  "setParseFault format = set_fault_formatted XMLRPC_PARSE_ERROR format"

abbreviation quoted :: "string \<Rightarrow> piece list" where
  "quoted s \<equiv> [Txt [CHR 0x27], PctS s, Txt [CHR 0x27]]"

section \<open>Integers and booleans\<close>

abbreviation XMLRPC_INT32_MIN :: int where "XMLRPC_INT32_MIN \<equiv> - (2 ^ 31)"
abbreviation XMLRPC_INT32_MAX :: int where "XMLRPC_INT32_MAX \<equiv> 2 ^ 31 - 1"

text \<open>A \<open>long\<close> has 64 bits; in base ten \<open>strtol\<close> sets no other \<open>errno\<close> than \<open>ERANGE\<close>.\<close>

definition parseInt :: "(nat \<Rightarrow> bool) \<Rightarrow> string \<Rightarrow> 'd xvalue result" where
  "parseInt mok str =
     (if peek str = NUL then Inl (setParseFault [Txt ''<int> XML element content is empty''])
      else if isspace (peek str)
      then Inl (setParseFault ([Txt ''<int> content ''] @ quoted str @ [Txt '' starts with white space'']))
      else
        let (erange, i, tail) = strtol XMLRPC_INT64_MIN XMLRPC_INT64_MAX str in
        if erange
        then Inl (setParseFault ([Txt ''<int> XML element value ''] @ quoted str @
                    [Txt '' represents a number beyond the range that XML-RPC allows ('',
                     PctD XMLRPC_INT32_MIN, Txt '' - '', PctD XMLRPC_INT32_MAX, Txt '')'']))
        else if i < XMLRPC_INT32_MIN
        then Inl (setParseFault [Txt ''<int> value '', PctD i, Txt '' is below the range allowed '',
                    Txt ''by XML-RPC (minimum is '', PctD XMLRPC_INT32_MIN, Txt '')''])
        else if i > XMLRPC_INT32_MAX
        then Inl (setParseFault [Txt ''<int> value '', PctD i, Txt '' is above the range allowed '',
                    Txt ''by XML-RPC (maximum is '', PctD XMLRPC_INT32_MAX, Txt '')''])
        else if peek tail \<noteq> NUL
        then Inl (setParseFault ([Txt ''<int> value ''] @ quoted str @
                    [Txt '' contains non-numerical junk: ''] @ quoted tail))
        else xmlrpc_int_new mok (word_of_int i))"

definition parseBoolean :: "(nat \<Rightarrow> bool) \<Rightarrow> string \<Rightarrow> 'd xvalue result" where
  "parseBoolean mok str =
     (if str = ''0'' \<or> str = ''1''
      then xmlrpc_bool_new mok (if str = ''1'' then 1 else 0)
      else Inl (setParseFault ([Txt ''<boolean> XML element content must be either '',
                  Txt [CHR 0x27], Txt ''0'', Txt [CHR 0x27], Txt '' or '', Txt [CHR 0x27], Txt ''1'',
                  Txt [CHR 0x27], Txt '' according to XML-RPC.  This one has ''] @ quoted str)))"

text \<open>
  The message for an \<open>i8\<close> that is no 64-bit integer has two string conversions and only one
  argument: the second one reads an argument that was not passed.
\<close>

definition parseI8 :: "(nat \<Rightarrow> bool) \<Rightarrow> string \<Rightarrow> 'd xvalue result option" where
  "parseI8 mok str =
     (if peek str = NUL then Some (Inl (setParseFault [Txt ''<i8> XML element content is empty'']))
      else if isspace (peek str)
      then Some (Inl (setParseFault ([Txt ''<i8> content ''] @ quoted str @ [Txt '' starts with white space''])))
      else
        (case xmlrpc_parse_int64 str of
           Inl f \<Rightarrow> None
         | Inr i \<Rightarrow> Some (xmlrpc_i8_new mok (word_of_int i))))"

section \<open>Doubles\<close>

text \<open>
  The scan gives the offset of the decimal point from the start of the mantissa, where there is
  one; the digits before and after it are the ranges the code points to.
\<close>

fun scan_double :: "nat \<Rightarrow> nat option \<Rightarrow> string \<Rightarrow> nat option result" where
  "scan_double i dp [] = Inr dp"
| "scan_double i dp (c # p) =
     (if c = CHR ''.''
      then (if dp \<noteq> None then Inl (setParseFault [Txt ''Two decimal points''])
            else scan_double (i + 1) (Some i) p)
      else if schar c < 48 \<or> 57 < schar c
      then Inl (setParseFault ([Txt ''Garbage (not sign, digit, or period) starting at ''] @ quoted (c # p)))
      else scan_double (i + 1) dp p)"

definition scanAndValidateDoubleString :: "string \<Rightarrow> (string \<times> string) result" where
  "scanAndValidateDoubleString string =
     (let mantissa = (if peek string = CHR ''-'' \<or> peek string = CHR ''+'' then tl string else string) in
      bindE (scan_double 0 None mantissa) (\<lambda>dp.
        case dp of
          Some i \<Rightarrow> Inr (take i mantissa, drop (i + 1) mantissa)
        | None \<Rightarrow> Inr (mantissa, [])))"

fun whole_part :: "('d, 'a) platform_scheme \<Rightarrow> 'd \<Rightarrow> string \<Rightarrow> 'd" where
  "whole_part pf accum [] = accum"
| "whole_part pf accum (c # p) =
     whole_part pf (d_add pf (d_mul pf accum (d_int pf 10)) (d_int pf (schar c - 48))) p"

fun fractional_part :: "('d, 'a) platform_scheme \<Rightarrow> 'd \<Rightarrow> 'd \<Rightarrow> string \<Rightarrow> 'd" where
  "fractional_part pf significance accum [] = accum"
| "fractional_part pf significance accum (c # p) =
     fractional_part pf (d_mul pf significance (d_tenth pf))
       (d_add pf accum (d_mul pf (d_int pf (schar c - 48)) significance)) p"

definition isInfinite :: "('d, 'a) platform_scheme \<Rightarrow> 'd \<Rightarrow> bool" where
  "isInfinite pf value = d_above_max pf value"

definition parseDoubleString :: "('d, 'a) platform_scheme \<Rightarrow> string \<Rightarrow> 'd result" where
  "parseDoubleString pf string =
     bindE (scanAndValidateDoubleString string) (\<lambda>(mantissa, fraction).
       if mantissa = [] \<and> fraction = [] then Inl (setParseFault [Txt ''No digits''])
       else
         let accum = fractional_part pf (d_tenth pf) (whole_part pf (d_int pf 0) mantissa) fraction in
         if isInfinite pf accum
         then Inl (setParseFault [Txt ''Value exceeds the size allowed by XML-RPC''])
         else Inr (if peek string = CHR ''-'' then d_neg pf accum else accum))"

definition parseDoubleStringStrtod :: "('d, 'a) platform_scheme \<Rightarrow> string \<Rightarrow> 'd option" where
  "parseDoubleStringStrtod pf str =
     (if length str = 0 then None
      else let (errno, value, tail) = strtod pf str in
           if errno then None else if peek tail \<noteq> NUL then None else Some value)"

definition parseDouble :: "(nat \<Rightarrow> bool) \<Rightarrow> ('d, 'a) platform_scheme \<Rightarrow> string \<Rightarrow> 'd xvalue result" where
  "parseDouble mok pf str =
     (case parseDoubleString pf str of
        Inr valueDouble \<Rightarrow> xmlrpc_double_new mok valueDouble
      | Inl parseEnv \<Rightarrow>
          (case parseDoubleStringStrtod pf str of
             None \<Rightarrow> Inl (setParseFault ([Txt ''<double> element value ''] @ quoted str @
                       [Txt '' is not a valid floating point number.  '', PctS (text_of parseEnv)]))
           | Some valueDouble \<Rightarrow> xmlrpc_double_new mok valueDouble))"

section \<open>Base64 data and the choice by element name\<close>

definition parseBase64 :: "(nat \<Rightarrow> bool) \<Rightarrow> string \<Rightarrow> 'd xvalue result" where
  "parseBase64 mok str =
     bindE (xmlrpc_base64_decode mok str) (\<lambda>decoded. xmlrpc_base64_new mok (block_data 1 decoded))"

definition parseSimpleValueCdata ::
    "(nat \<Rightarrow> bool) \<Rightarrow> ('d, 'a) platform_scheme \<Rightarrow> string \<Rightarrow> string \<Rightarrow> 'd xvalue result option" where
  "parseSimpleValueCdata mok pf elementName cdata =
     (if elementName = ''int'' \<or> elementName = ''i4'' \<or> elementName = ''i1'' \<or> elementName = ''i2'' \<or>
         elementName = ''ex:i1'' \<or> elementName = ''ex:i2''
      then Some (parseInt mok (c_str cdata))
      else if elementName = ''boolean'' then Some (parseBoolean mok (c_str cdata))
      else if elementName = ''double'' then Some (parseDouble mok pf (c_str cdata))
      else if elementName = ''dateTime.iso8601''
      then map_option (\<lambda>r. bindE r (xmlrpc_datetime_new mok))
             (xmlrpc_parseDatetime (have_regex pf) (c_str cdata))
      else if elementName = ''string'' then Some (xmlrpc_string_new_lp mok cdata)
      else if elementName = ''base64'' then Some (parseBase64 mok cdata)
      else if elementName = ''nil'' \<or> elementName = ''ex:nil'' then Some (xmlrpc_nil_new mok)
      else if elementName = ''i8'' \<or> elementName = ''ex:i8'' then parseI8 mok (c_str cdata)
      else Some (Inl (setParseFault [Txt ''Unknown value type -- XML element is named '',
                        Txt ''<'', PctS elementName, Txt ''>''])))"

section \<open>With less memory\<close>

lemma agrees_createXmlrpcValue: "agrees (xmlrpc_createXmlrpcValue mok) (xmlrpc_createXmlrpcValue always)"
  by (auto simp: xmlrpc_createXmlrpcValue_def always_def)

lemma agrees_simple_new:
  "agrees (xmlrpc_int_new mok i) (xmlrpc_int_new always i)"
  "agrees (xmlrpc_bool_new mok i) (xmlrpc_bool_new always i)"
  "agrees (xmlrpc_i8_new mok j) (xmlrpc_i8_new always j)"
  "agrees (xmlrpc_double_new mok d) (xmlrpc_double_new always d)"
  "agrees (xmlrpc_nil_new mok) (xmlrpc_nil_new always)"
  unfolding xmlrpc_int_new_def xmlrpc_bool_new_def xmlrpc_i8_new_def xmlrpc_double_new_def xmlrpc_nil_new_def
  by (rule agrees_bind [OF agrees_createXmlrpcValue agrees_refl])+

lemma agrees_datetime_new: "agrees (xmlrpc_datetime_new mok dt) (xmlrpc_datetime_new always dt)"
  using agrees_bind [OF agrees_createXmlrpcValue agrees_refl, of mok "\<lambda>_. Inr (XDatetime dt)"]
  by (auto simp: xmlrpc_datetime_new_def always_def)

lemma agrees_base64_new: "agrees (xmlrpc_base64_new mok bytes) (xmlrpc_base64_new always bytes)"
  unfolding xmlrpc_base64_new_def
  by (rule agrees_bind [OF agrees_createXmlrpcValue]) (rule agrees_bind [OF agrees_init agrees_refl])

lemma agrees_string_new_lp: "agrees (xmlrpc_string_new_lp mok s) (xmlrpc_string_new_lp always s)"
proof -
  have lines: "agrees (copyLines mok s) (copyLines always s)"
    unfolding copyLines_def Let_def by (rule agrees_bind [OF agrees_init]) (rule agrees_resize)
  have simple: "agrees (copySimple mok s) (copySimple always s)"
    unfolding copySimple_def Let_def by (rule agrees_bind [OF agrees_init agrees_refl])
  show ?thesis
    unfolding xmlrpc_string_new_lp_def stringNew_def
    by (rule agrees_bind agrees_refl agrees_createXmlrpcValue lines simple | simp add: lines simple)+
qed

lemma agrees_parseBase64: "agrees (parseBase64 mok s) (parseBase64 always s)"
  unfolding parseBase64_def xmlrpc_base64_decode_def Let_def
  by (rule agrees_bind agrees_new agrees_base64_new agrees_resize | simp add: agrees_resize)+

lemma agrees_parseInt: "agrees (parseInt mok s) (parseInt always s)"
  by (auto simp: parseInt_def agrees_simple_new split: prod.split)

lemma agrees_parseBoolean: "agrees (parseBoolean mok s) (parseBoolean always s)"
  by (simp add: parseBoolean_def agrees_simple_new)

lemma agrees_parseDouble: "agrees (parseDouble mok pf s) (parseDouble always pf s)"
  by (auto simp: parseDouble_def agrees_simple_new split: sum.split option.split)

definition agrees_option :: "'a result option \<Rightarrow> 'a result option \<Rightarrow> bool" where
  "agrees_option r r0 \<longleftrightarrow> (case (r, r0) of (Some x, Some y) \<Rightarrow> agrees x y | (None, None) \<Rightarrow> True | _ \<Rightarrow> False)"

lemma agrees_option_Some [simp]: "agrees_option (Some r) (Some r0) = agrees r r0"
  by (simp add: agrees_option_def)

lemma agrees_parseSimple:
  "agrees_option (parseSimpleValueCdata mok pf name cdata) (parseSimpleValueCdata always pf name cdata)"
proof -
  have i8: "agrees_option (parseI8 mok s) (parseI8 always s)" for s
    by (auto simp: parseI8_def agrees_simple_new agrees_option_def split: sum.split)
  have dt: "agrees_option (map_option (\<lambda>r. bindE r (xmlrpc_datetime_new mok)) r)
      (map_option (\<lambda>r. bindE r (xmlrpc_datetime_new always)) r)" for r
    by (cases r) (auto simp: agrees_option_def intro: agrees_bind agrees_datetime_new)
  show ?thesis
    unfolding parseSimpleValueCdata_def
    by (simp add: i8 dt agrees_parseInt agrees_parseBoolean agrees_parseDouble agrees_string_new_lp
        agrees_parseBase64 agrees_simple_new)
qed

definition scalar :: "'d xvalue \<Rightarrow> bool" where
  "scalar v \<longleftrightarrow> value_type v \<notin> {TYPE_ARRAY, TYPE_STRUCT, TYPE_C_PTR}"

lemma simple_new_scalar:
  "xmlrpc_int_new mok i = Inr v \<Longrightarrow> scalar v" "xmlrpc_bool_new mok i = Inr v \<Longrightarrow> scalar v"
  "xmlrpc_i8_new mok j = Inr v \<Longrightarrow> scalar v" "xmlrpc_double_new mok d = Inr v \<Longrightarrow> scalar v"
  "xmlrpc_nil_new mok = Inr v \<Longrightarrow> scalar v" "xmlrpc_datetime_new mok dt = Inr v \<Longrightarrow> scalar v"
  "xmlrpc_base64_new mok bytes = Inr v \<Longrightarrow> scalar v" "xmlrpc_string_new_lp mok s = Inr v \<Longrightarrow> scalar v"
  using stringNew_value(2) [of mok s CR_IS_LINEDELIM v]
  by (auto simp: xmlrpc_int_new_def xmlrpc_bool_new_def xmlrpc_i8_new_def xmlrpc_double_new_def xmlrpc_nil_new_def
      xmlrpc_datetime_new_def xmlrpc_base64_new_def xmlrpc_string_new_lp_def scalar_def bindE_Inr_conv Let_def split: if_splits)

lemma parse_scalar:
  "parseInt mok s = Inr v \<Longrightarrow> scalar v" "parseBoolean mok s = Inr v \<Longrightarrow> scalar v"
  "parseI8 mok s = Some (Inr v) \<Longrightarrow> scalar v" "parseDouble mok pf s = Inr v \<Longrightarrow> scalar v"
  "parseBase64 mok s = Inr v \<Longrightarrow> scalar v"
  subgoal by (simp add: parseInt_def Let_def split: if_splits prod.splits) (erule simple_new_scalar)
  subgoal by (simp add: parseBoolean_def split: if_splits) (erule simple_new_scalar)+
  subgoal by (simp add: parseI8_def split: if_splits sum.splits) (erule simple_new_scalar)
  subgoal by (simp add: parseDouble_def split: sum.splits option.splits) (erule simple_new_scalar)+
  subgoal by (simp add: parseBase64_def bindE_Inr_conv) (elim exE conjE, erule simple_new_scalar)
  done

lemma parseSimple_scalar:
  assumes "parseSimpleValueCdata mok pf name cdata = Some (Inr v)"
  shows "scalar v"
proof -
  define yields where "yields r \<longleftrightarrow> (\<forall>v. r = Some (Inr v) \<longrightarrow> scalar v)" for r :: "'a xvalue result option"
  have "yields (Some (Inl f))" for f by (simp add: yields_def)
  moreover have "yields (Some (parseInt mok s))" "yields (Some (parseBoolean mok s))" "yields (parseI8 mok s)"
    "yields (Some (parseDouble mok pf s))" "yields (Some (parseBase64 mok s))" for s
    by (simp_all add: yields_def parse_scalar)
  moreover have "yields (map_option (\<lambda>r. bindE r (xmlrpc_datetime_new mok)) r)" for r
    using simple_new_scalar(6) by (auto simp: yields_def bindE_Inr_conv)
  moreover have "yields (Some (xmlrpc_string_new_lp mok s))" "yields (Some (xmlrpc_nil_new mok))" for s
    by (simp_all add: yields_def simple_new_scalar)
  ultimately have "yields (parseSimpleValueCdata mok pf name cdata)"
    unfolding parseSimpleValueCdata_def by simp
  with assms show ?thesis by (simp add: yields_def)
qed

end
