(* ===== verification/Xml_Element.thy ===== *)
theory Xml_Element
  imports Strings
begin

text \<open>
  The element tree that the handlers of \<open>src/xmlrpc_expat.c\<close> build from what Expat reports.  Expat
  itself is a parameter: for a text it gives the calls of the handlers, in order, and its own error
  message when it rejects the text.  Elements live in a store; \<open>None\<close> is an abort or a use of an
  element that was freed.
\<close>

section \<open>Elements\<close>

record xml_element =
  el_parent :: "nat option"
  el_name :: string
  el_cdata :: "char mem_block"
  el_children :: "nat mem_block"

record xml_store =
  elements :: "nat \<Rightarrow> xml_element option"
  next_element :: nat

definition SIZEOF_XML_ELEMENT :: nat where "SIZEOF_XML_ELEMENT = 64"

abbreviation SIZEOF_ELEMENT_PTR :: nat where "SIZEOF_ELEMENT_PTR \<equiv> 8"

definition put_element :: "nat \<Rightarrow> xml_element option \<Rightarrow> xml_store \<Rightarrow> xml_store" where
  "put_element p e s = s\<lparr>elements := (elements s)(p := e)\<rparr>"

definition no_element_memory :: fault where
  "no_element_memory = set_fault XMLRPC_INTERNAL_ERROR ''Couldn't allocate memory for XML element''"

definition xml_element_new :: "(nat \<Rightarrow> bool) \<Rightarrow> string \<Rightarrow> xml_store \<Rightarrow> (nat \<times> xml_store) result" where
  "xml_element_new mok name s =
     (if \<not> mok SIZEOF_XML_ELEMENT then Inl no_element_memory
      else if \<not> mok (length name + 1) then Inl no_element_memory
      else
        bindE (mem_block_init mok 1 0) (\<lambda>cdata.
        bindE (mem_block_init mok SIZEOF_ELEMENT_PTR 0) (\<lambda>children.
          let p = next_element s;
              e = \<lparr>el_parent = None, el_name = name, el_cdata = cdata, el_children = children\<rparr>
          in Inr (p, (put_element p (Some e) s)\<lparr>next_element := p + 1\<rparr>))))"

text \<open>An element is freed after all its children, one by one.\<close>

partial_function (option) free_elements :: "nat list \<Rightarrow> xml_store \<Rightarrow> xml_store option" where
  "free_elements ps s =
     (case ps of [] \<Rightarrow> Some s
      | p # rest \<Rightarrow>
          (case elements s p of None \<Rightarrow> None
           | Some e \<Rightarrow>
               Option.bind (free_elements (block_data SIZEOF_ELEMENT_PTR (el_children e)) s)
                 (\<lambda>s1. free_elements rest (put_element p None s1))))"

definition xml_element_free :: "nat \<Rightarrow> xml_store \<Rightarrow> xml_store option" where
  "xml_element_free p s = free_elements [p] s"

definition xml_element_append_cdata ::
    "(nat \<Rightarrow> bool) \<Rightarrow> nat \<Rightarrow> string \<Rightarrow> xml_store \<Rightarrow> (unit result \<times> xml_store) option" where
  "xml_element_append_cdata mok p cdata s =
     (case elements s p of None \<Rightarrow> None
      | Some e \<Rightarrow>
          (case mem_block_append mok 1 (el_cdata e) cdata of
             Inl f \<Rightarrow> Some (Inl f, s)
           | Inr b \<Rightarrow> Some (Inr (), put_element p (Some (e\<lparr>el_cdata := b\<rparr>)) s)))"

text \<open>On failure the child is freed, here.\<close>

definition xml_element_append_child ::
    "(nat \<Rightarrow> bool) \<Rightarrow> nat \<Rightarrow> nat \<Rightarrow> xml_store \<Rightarrow> (unit result \<times> xml_store) option" where
  "xml_element_append_child mok p child s =
     (case (elements s p, elements s child) of
        (Some e, Some c) \<Rightarrow>
          if el_parent c \<noteq> None then None
          else
            (case mem_block_append mok SIZEOF_ELEMENT_PTR (el_children e) [child] of
               Inl f \<Rightarrow> map_option (\<lambda>s'. (Inl f, s')) (xml_element_free child s)
             | Inr b \<Rightarrow>
                 Some (Inr (), put_element child (Some (c\<lparr>el_parent := Some p\<rparr>))
                                 (put_element p (Some (e\<lparr>el_children := b\<rparr>)) s)))
      | _ \<Rightarrow> None)"

section \<open>The handlers\<close>

record parse_context =
  ctx_env :: "fault option"
  rootP :: "nat option"
  currentP :: "nat option"
  ctx_store :: xml_store

definition free_root :: "parse_context \<Rightarrow> parse_context option" where
  "free_root c =
     (case rootP c of None \<Rightarrow> Some c
      | Some r \<Rightarrow> map_option (\<lambda>s. c\<lparr>ctx_store := s\<rparr>) (xml_element_free r (ctx_store c)))"

text \<open>
  When the new element cannot be added to its parent, \<open>xml_element_append_child\<close> has freed it
  already; the handler frees it once more.
\<close>

definition startElement :: "(nat \<Rightarrow> bool) \<Rightarrow> string \<Rightarrow> parse_context \<Rightarrow> parse_context option" where
  "startElement mok name c =
     (if ctx_env c \<noteq> None then Some c
      else
        (case xml_element_new mok name (ctx_store c) of
           Inl f \<Rightarrow> free_root (c\<lparr>ctx_env := Some f\<rparr>)
         | Inr (elemP, s) \<Rightarrow>
             (case rootP c of
                None \<Rightarrow> Some (c\<lparr>rootP := Some elemP, currentP := Some elemP, ctx_store := s\<rparr>)
              | Some r \<Rightarrow>
                  (case currentP c of None \<Rightarrow> None
                   | Some cur \<Rightarrow>
                       (case xml_element_append_child mok cur elemP s of
                          None \<Rightarrow> None
                        | Some (Inr _, s') \<Rightarrow> Some (c\<lparr>currentP := Some elemP, ctx_store := s'\<rparr>)
                        | Some (Inl f, s') \<Rightarrow>
                            Option.bind (xml_element_free elemP s')
                              (\<lambda>s''. free_root (c\<lparr>ctx_env := Some f, ctx_store := s''\<rparr>)))))))"

definition endElement :: "(nat \<Rightarrow> bool) \<Rightarrow> string \<Rightarrow> parse_context \<Rightarrow> parse_context option" where
  "endElement mok name c =
     (if ctx_env c \<noteq> None then Some c
      else
        (case currentP c of None \<Rightarrow> None
         | Some cur \<Rightarrow>
             (case elements (ctx_store c) cur of None \<Rightarrow> None
              | Some e \<Rightarrow>
                  if name \<noteq> el_name e \<or> el_parent e = None \<and> Some cur \<noteq> rootP c then None
                  else
                    (case xml_element_append_cdata mok cur [NUL] (ctx_store c) of
                       None \<Rightarrow> None
                     | Some (Inr _, s) \<Rightarrow> Some (c\<lparr>currentP := el_parent e, ctx_store := s\<rparr>)
                     | Some (Inl f, s) \<Rightarrow> free_root (c\<lparr>ctx_env := Some f, ctx_store := s\<rparr>)))))"

definition characterData :: "(nat \<Rightarrow> bool) \<Rightarrow> string \<Rightarrow> parse_context \<Rightarrow> parse_context option" where
  "characterData mok s c =
     (if ctx_env c \<noteq> None then Some c
      else
        (case currentP c of None \<Rightarrow> None
         | Some cur \<Rightarrow>
             (case xml_element_append_cdata mok cur s (ctx_store c) of
                None \<Rightarrow> None
              | Some (Inr _, st) \<Rightarrow> Some (c\<lparr>ctx_store := st\<rparr>)
              | Some (Inl f, st) \<Rightarrow> Some (c\<lparr>ctx_env := Some f, ctx_store := st\<rparr>))))"

datatype xml_event = StartElement string | EndElement string | CharacterData string

fun handle :: "(nat \<Rightarrow> bool) \<Rightarrow> xml_event \<Rightarrow> parse_context \<Rightarrow> parse_context option" where
  "handle mok (StartElement name) c = startElement mok name c"
| "handle mok (EndElement name) c = endElement mok name c"
| "handle mok (CharacterData s) c = characterData mok s c"

fun handle_all :: "(nat \<Rightarrow> bool) \<Rightarrow> xml_event list \<Rightarrow> parse_context \<Rightarrow> parse_context option" where
  "handle_all mok [] c = Some c"
| "handle_all mok (ev # evs) c = Option.bind (handle mok ev c) (handle_all mok evs)"

section \<open>Parsing\<close>

text \<open>\<open>expat\<close> gives \<open>None\<close> when it cannot create a parser.\<close>

type_synonym expat = "string \<Rightarrow> (xml_event list \<times> string option) option"

definition empty_store :: xml_store where
  "empty_store = \<lparr>elements = Map.empty, next_element = 1\<rparr>"

definition initial_context :: parse_context where
  "initial_context = \<lparr>ctx_env = None, rootP = None, currentP = None, ctx_store = empty_store\<rparr>"

definition xml_parse :: "expat \<Rightarrow> (nat \<Rightarrow> bool) \<Rightarrow> string \<Rightarrow> (nat \<times> xml_store) result option" where
  "xml_parse expat mok xmlData =
     (case expat xmlData of
        None \<Rightarrow> Some (Inl (faultf [Txt ''Could not create expat parser'']))
      | Some (evs, err) \<Rightarrow>
          (case handle_all mok evs initial_context of
             None \<Rightarrow> None
           | Some c \<Rightarrow>
               (case err of
                  Some msg \<Rightarrow>
                    map_option (\<lambda>_. Inl (set_fault XMLRPC_PARSE_ERROR msg))
                      (if ctx_env c = None then free_root c else Some c)
                | None \<Rightarrow>
                    (case ctx_env c of
                       Some f \<Rightarrow>
                         Some (Inl (set_fault_formatted (code_of f)
                                      [Txt ''XML doesn't parse.  '', PctS (text_of f)]))
                     | None \<Rightarrow>
                         (case (rootP c, currentP c) of
                            (Some r, None) \<Rightarrow> Some (Inr (r, ctx_store c))
                          | _ \<Rightarrow> None)))))"

text \<open>
  What the accessors show of an element and its children, as a tree: its name, its character data
  without the NUL at its end, and its children.  The fuel is the depth; children are made after their
  parent, so the number of elements is enough (\<open>tree_of_span\<close>).
\<close>

datatype xml_tree = Elem (xml_element_name: string) (xml_element_cdata: string)
  (xml_element_children: "xml_tree list")

fun tree_of :: "nat \<Rightarrow> xml_store \<Rightarrow> nat \<Rightarrow> xml_tree option" where
  "tree_of 0 s p = None"
| "tree_of (Suc n) s p =
     (case elements s p of None \<Rightarrow> None
      | Some e \<Rightarrow>
          map_option (Elem (el_name e) (butlast (block_data 1 (el_cdata e))))
            (those (map (tree_of n s) (block_data SIZEOF_ELEMENT_PTR (el_children e)))))"

definition xml_parse_tree :: "expat \<Rightarrow> (nat \<Rightarrow> bool) \<Rightarrow> string \<Rightarrow> xml_tree result option" where
  "xml_parse_tree expat mok xmlData =
     (case xml_parse expat mok xmlData of
        None \<Rightarrow> None
      | Some (Inl f) \<Rightarrow> Some (Inl f)
      | Some (Inr (r, s)) \<Rightarrow> map_option Inr (tree_of (next_element s) s r))"

section \<open>The tree of a sequence of events\<close>

text \<open>The open elements, innermost first, each with its data so far; and the root once it is closed.\<close>

type_synonym open_element = "string \<times> string \<times> xml_tree list"

fun grow :: "xml_event \<Rightarrow> open_element list \<times> xml_tree option \<Rightarrow> (open_element list \<times> xml_tree option) option" where
  "grow (StartElement name) (stack, None) = Some ((name, [], []) # stack, None)"
| "grow (CharacterData s) ((n, cd, ks) # stack, None) = Some ((n, cd @ s, ks) # stack, None)"
| "grow (EndElement name) ((n, cd, ks) # (n', cd', ks') # stack, None) =
     (if name = n then Some ((n', cd', ks' @ [Elem n cd ks]) # stack, None) else None)"
| "grow (EndElement name) ([(n, cd, ks)], None) =
     (if name = n then Some ([], Some (Elem n cd ks)) else None)"
| "grow _ _ = None"

fun grow_all :: "xml_event list \<Rightarrow> open_element list \<times> xml_tree option \<Rightarrow>
    (open_element list \<times> xml_tree option) option" where
  "grow_all [] st = Some st"
| "grow_all (ev # evs) st = Option.bind (grow ev st) (grow_all evs)"

definition document_tree :: "xml_event list \<Rightarrow> xml_tree option" where
  "document_tree evs =
     (case grow_all evs ([], None) of Some ([], Some t) \<Rightarrow> Some t | _ \<Rightarrow> None)"

text \<open>An element and its closed children take up an interval of addresses.\<close>

inductive elem_span :: "xml_store \<Rightarrow> nat \<Rightarrow> nat \<Rightarrow> xml_tree \<Rightarrow> bool"
  and forest_span :: "xml_store \<Rightarrow> nat \<Rightarrow> nat \<Rightarrow> nat list \<Rightarrow> xml_tree list \<Rightarrow> bool" for s where
  elem_node: "elements s p = Some e \<Longrightarrow> block_data 1 (el_cdata e) = cd @ [NUL] \<Longrightarrow>
         forest_span s (p + 1) q (block_data SIZEOF_ELEMENT_PTR (el_children e)) ks \<Longrightarrow>
         elem_span s p q (Elem (el_name e) cd ks)"
| forest_Nil: "forest_span s p p [] []"
| forest_Cons: "elem_span s p q t \<Longrightarrow> forest_span s q r cs ts \<Longrightarrow> forest_span s p r (p # cs) (t # ts)"

inductive_cases elem_spanE: "elem_span s p q t"
inductive_cases forest_ConsE: "forest_span s p q (c # cs) ts"
inductive_simps forest_Nil_simp [simp]: "forest_span s p q [] ts"

lemma span_le:
  "elem_span s p q t \<Longrightarrow> p < q" "forest_span s p q cs ts \<Longrightarrow> p \<le> q"
  by (induction rule: elem_span_forest_span.inducts) auto

lemma span_frame:
  "elem_span s p q t \<Longrightarrow> (\<And>x. p \<le> x \<Longrightarrow> x < q \<Longrightarrow> elements s' x = elements s x) \<Longrightarrow> elem_span s' p q t"
  "forest_span s p q cs ts \<Longrightarrow> (\<And>x. p \<le> x \<Longrightarrow> x < q \<Longrightarrow> elements s' x = elements s x) \<Longrightarrow>
     forest_span s' p q cs ts"
proof (induction rule: elem_span_forest_span.inducts)
  case (elem_node p e cd q ks)
  have "p < q" using span_le(2) [OF elem_node.IH(2)] by simp
  with elem_node show ?case by (intro elem_span_forest_span.elem_node) auto
next
  case (forest_Cons p q t r cs ts)
  have "q \<le> r" "p < q" using span_le(1) [OF forest_Cons.IH(1)] span_le(2) [OF forest_Cons.IH(3)] by simp_all
  with forest_Cons show ?case by (intro elem_span_forest_span.forest_Cons) auto
qed (rule elem_span_forest_span.forest_Nil)

lemma forest_span_append:
  "forest_span s p q cs ts \<Longrightarrow> elem_span s q r t \<Longrightarrow> forest_span s p r (cs @ [q]) (ts @ [t])"
proof (induction cs arbitrary: p ts)
  case Nil
  then show ?case by (auto intro: elem_span_forest_span.intros)
next
  case (Cons c cs)
  from Cons.prems(1) show ?case
    by (rule forest_ConsE) (use Cons in \<open>auto intro: elem_span_forest_span.intros\<close>)
qed

lemma forest_span_length: "forest_span s p q cs ts \<Longrightarrow> length cs = length ts"
proof (induction cs arbitrary: p ts)
  case (Cons c cs)
  from Cons.prems show ?case by (rule forest_ConsE) (use Cons.IH in auto)
qed simp

lemma tree_of_span:
  "elem_span s p q t \<Longrightarrow> q - p \<le> n \<Longrightarrow> tree_of n s p = Some t"
  "forest_span s p q cs ts \<Longrightarrow> q - p \<le> n \<Longrightarrow> those (map (tree_of n s) cs) = Some ts"
proof (induction arbitrary: n and n rule: elem_span_forest_span.inducts)
  case (elem_node p e cd q ks)
  have "p < q" using span_le(2) [OF elem_node.IH(2)] by simp
  with elem_node show ?case by (cases n) auto
next
  case (forest_Cons p q t r cs ts)
  have "q \<le> r" "p < q" using span_le(1) [OF forest_Cons.IH(1)] span_le(2) [OF forest_Cons.IH(3)] by simp_all
  with forest_Cons show ?case by simp
qed simp

section \<open>The handlers build the tree\<close>

text \<open>
  The open elements in the store, innermost first: \<open>q\<close> is where the addresses below the innermost
  one end, \<open>extra\<close> the children that are still open.
\<close>

fun open_ok :: "xml_store \<Rightarrow> nat \<Rightarrow> nat list \<Rightarrow> nat list \<Rightarrow> open_element list \<Rightarrow> bool" where
  "open_ok s q extra [] [] \<longleftrightarrow> True"
| "open_ok s q extra (p # ps) ((n, cd, ks) # stack) \<longleftrightarrow>
     (\<exists>e cs. elements s p = Some e \<and> el_name e = n \<and>
        grown_block 1 (el_cdata e) \<and> block_data 1 (el_cdata e) = cd \<and>
        grown_block SIZEOF_ELEMENT_PTR (el_children e) \<and>
        block_data SIZEOF_ELEMENT_PTR (el_children e) = cs @ extra \<and>
        forest_span s (p + 1) q cs ks \<and>
        el_parent e = (case ps of [] \<Rightarrow> None | r # _ \<Rightarrow> Some r) \<and>
        open_ok s p [p] ps stack)"
| "open_ok s q extra _ _ \<longleftrightarrow> False"

lemma open_ok_frame:
  "open_ok s q extra ps stack \<Longrightarrow> (\<And>x. x < q \<Longrightarrow> elements s' x = elements s x) \<Longrightarrow>
   open_ok s' q extra ps stack"
proof (induction s q extra ps stack rule: open_ok.induct)
  case (2 s q extra p ps n cd ks stack)
  obtain e cs where e: "elements s p = Some e" "el_name e = n" "grown_block 1 (el_cdata e)"
    "block_data 1 (el_cdata e) = cd" "grown_block SIZEOF_ELEMENT_PTR (el_children e)"
    "block_data SIZEOF_ELEMENT_PTR (el_children e) = cs @ extra" "forest_span s (p + 1) q cs ks"
    "el_parent e = (case ps of [] \<Rightarrow> None | r # _ \<Rightarrow> Some r)" "open_ok s p [p] ps stack"
    using "2.prems"(1) by auto
  have "p < q" using span_le(2) [OF e(7)] by simp
  then have "open_ok s' p [p] ps stack" using "2.IH" e "2.prems"(2) by simp
  moreover have "forest_span s' (p + 1) q cs ks"
    by (rule span_frame(2) [OF e(7)]) (use "2.prems"(2) in simp)
  ultimately show ?case using e "2.prems"(2) \<open>p < q\<close> by auto
qed auto

definition context_ok :: "parse_context \<Rightarrow> open_element list \<times> xml_tree option \<Rightarrow> bool" where
  "context_ok c st \<longleftrightarrow>
     ctx_env c = None \<and>
     (case st of
        ([], None) \<Rightarrow> rootP c = None \<and> currentP c = None
      | ([], Some t) \<Rightarrow>
          currentP c = None \<and>
          (\<exists>r. rootP c = Some r \<and> elem_span (ctx_store c) r (next_element (ctx_store c)) t)
      | (stack, None) \<Rightarrow>
          (\<exists>p ps. open_ok (ctx_store c) (next_element (ctx_store c)) [] (p # ps) stack \<and>
                  currentP c = Some p \<and> rootP c = Some (last (p # ps)))
      | _ \<Rightarrow> False)"

lemma context_okI:
  "ctx_env c = None \<Longrightarrow> open_ok (ctx_store c) (next_element (ctx_store c)) [] (p # ps) (el # stack) \<Longrightarrow>
   currentP c = Some p \<Longrightarrow> rootP c = Some (last (p # ps)) \<Longrightarrow> context_ok c (el # stack, None)"
  unfolding context_ok_def by (cases el) (simp del: open_ok.simps, blast)

lemma context_ok_openE:
  assumes "context_ok c (el # stack, None)"
  obtains p ps where "open_ok (ctx_store c) (next_element (ctx_store c)) [] (p # ps) (el # stack)"
    "currentP c = Some p" "rootP c = Some (last (p # ps))"
  using assms unfolding context_ok_def by (auto simp del: open_ok.simps)

fun event_size :: "xml_event \<Rightarrow> nat" where
  "event_size (CharacterData s) = length s"
| "event_size _ = 8"

definition stack_small :: "nat \<Rightarrow> open_element list \<Rightarrow> bool" where
  "stack_small k = list_all (\<lambda>(n, cd, ks). length cd \<le> k \<and> 8 * length ks \<le> k)"

lemma stack_small_simps [simp]:
  "stack_small k []"
  "stack_small k ((n, cd, ks) # stack) \<longleftrightarrow> length cd \<le> k \<and> 8 * length ks \<le> k \<and> stack_small k stack"
  by (simp_all add: stack_small_def)

lemma stack_small_mono: "stack_small k stack \<Longrightarrow> k \<le> k' \<Longrightarrow> stack_small k' stack"
  unfolding stack_small_def by (erule list.pred_mono_strong) auto

lemma grow_small:
  "stack_small k stack \<Longrightarrow> grow ev (stack, d) = Some (stack', d') \<Longrightarrow> stack_small (k + event_size ev) stack'"
  by (induction ev "(stack, d)" rule: grow.induct)
    (auto split: if_splits elim!: stack_small_mono)

lemma open_okI:
  "elements s p = Some e \<Longrightarrow> grown_block 1 (el_cdata e) \<Longrightarrow> grown_block SIZEOF_ELEMENT_PTR (el_children e) \<Longrightarrow>
   block_data SIZEOF_ELEMENT_PTR (el_children e) = cs @ extra \<Longrightarrow> forest_span s (p + 1) q cs ks \<Longrightarrow>
   el_parent e = (case ps of [] \<Rightarrow> None | r # _ \<Rightarrow> Some r) \<Longrightarrow> open_ok s p [p] ps stack \<Longrightarrow>
   open_ok s q extra (p # ps) ((el_name e, block_data 1 (el_cdata e), ks) # stack)"
  by auto

lemma append_always:
  assumes "grown_block u b" "u * (length (block_data u b) + length xs) \<le> BLOCK_ALLOC_MAX"
  obtains b' where "mem_block_append always u b xs = Inr b'" "grown_block u b'"
    "block_data u b' = block_data u b @ xs"
proof -
  obtain b' where "mem_block_append always u b xs = Inr b'"
    using mem_block_append_ok [OF assms, of always] by (auto simp: always_def)
  with mem_block_append_grown [OF assms(1)] that show ?thesis by blast
qed

lemma init_always:
  assumes "0 < u"
  obtains b :: "'a mem_block" where "mem_block_init always u 0 = Inr b" "grown_block u b" "block_data u b = []"
proof -
  obtain b :: "'a mem_block" where "mem_block_init always u 0 = Inr b" "block_ready u b" "block_data u b = []"
    "blk_allocated b = 2 ^ 4"
    using mem_block_init_empty [of u always] assms by (auto simp: always_def)
  moreover from this have "grown_block u b"
    unfolding grown_block_def by (intro conjI exI [of _ 4]) simp_all
  ultimately show thesis by (intro that) simp_all
qed

lemma put_element_simps [simp]:
  "elements (put_element p e s) x = (if x = p then e else elements s x)"
  "next_element (put_element p e s) = next_element s"
  by (simp_all add: put_element_def)

lemma new_element_always:
  obtains e where "xml_element_new always name s
      = Inr (next_element s, (put_element (next_element s) (Some e) s)\<lparr>next_element := next_element s + 1\<rparr>)"
    "el_name e = name" "el_parent e = None" "grown_block 1 (el_cdata e)" "block_data 1 (el_cdata e) = []"
    "grown_block SIZEOF_ELEMENT_PTR (el_children e)" "block_data SIZEOF_ELEMENT_PTR (el_children e) = []"
proof -
  obtain b1 :: "char mem_block" where b1: "mem_block_init always 1 0 = Inr b1" "grown_block 1 b1" "block_data 1 b1 = []"
    by (rule init_always [of 1]) simp
  obtain b2 :: "nat mem_block" where b2: "mem_block_init always SIZEOF_ELEMENT_PTR 0 = Inr b2"
    "grown_block SIZEOF_ELEMENT_PTR b2" "block_data SIZEOF_ELEMENT_PTR b2 = []"
    by (rule init_always [of SIZEOF_ELEMENT_PTR]) simp
  show thesis
    by (rule that [of "\<lparr>el_parent = None, el_name = name, el_cdata = b1, el_children = b2\<rparr>"])
      (use b1 b2 in \<open>simp_all add: xml_element_new_def always_def [of SIZEOF_XML_ELEMENT] always_def [of "Suc n" for n] Let_def\<close>)
qed

lemma handle_grows:
  assumes ok: "context_ok c (stack, d)" and small: "stack_small k stack"
    and step: "grow ev (stack, d) = Some st'" and fits: "k + event_size ev \<le> BLOCK_ALLOC_MAX"
  shows "\<exists>c'. handle always ev c = Some c' \<and> context_ok c' st'"
proof -
  let ?s = "ctx_store c"
  have d: "d = None" using step by (cases ev; cases d; cases stack) auto
  have env: "ctx_env c = None" using ok by (simp add: context_ok_def)
  show ?thesis
  proof (cases ev)
    case (StartElement name)
    then have st': "st' = ((name, [], []) # stack, None)" using step d by simp
    obtain e where new: "xml_element_new always name ?s
        = Inr (next_element ?s, (put_element (next_element ?s) (Some e) ?s)\<lparr>next_element := next_element ?s + 1\<rparr>)"
      and e: "el_name e = name" "el_parent e = None" "grown_block 1 (el_cdata e)" "block_data 1 (el_cdata e) = []"
      "grown_block SIZEOF_ELEMENT_PTR (el_children e)" "block_data SIZEOF_ELEMENT_PTR (el_children e) = []"
      by (rule new_element_always)
    let ?n = "next_element ?s"
    let ?s1 = "(put_element ?n (Some e) ?s)\<lparr>next_element := ?n + 1\<rparr>"
    show ?thesis
    proof (cases stack)
      case Nil
      then have "rootP c = None" using ok d by (simp add: context_ok_def)
      then show ?thesis
        using StartElement env new e st' Nil
        by (auto simp: startElement_def context_ok_def)
    next
      case (Cons top stack1)
      obtain nm cd ks where top: "top = (nm, cd, ks)" by (cases top)
      obtain p ps where open': "open_ok ?s ?n [] (p # ps) stack" and cur: "currentP c = Some p"
        and root: "rootP c = Some (last (p # ps))"
        using ok d Cons by (auto elim: context_ok_openE)
      obtain f cs where f: "elements ?s p = Some f" "el_name f = nm" "grown_block 1 (el_cdata f)"
        "block_data 1 (el_cdata f) = cd" "grown_block SIZEOF_ELEMENT_PTR (el_children f)"
        "block_data SIZEOF_ELEMENT_PTR (el_children f) = cs" "forest_span ?s (p + 1) ?n cs ks"
        "el_parent f = (case ps of [] \<Rightarrow> None | r # _ \<Rightarrow> Some r)" "open_ok ?s p [p] ps stack1"
        using open' Cons top by auto
      have p: "p < ?n" using span_le(2) [OF f(7)] by simp
      have len: "length cs = length ks" using f(7) forest_span_length by blast
      have "8 * length ks \<le> k" using small Cons top by (simp add: stack_small_def)
      then have room: "SIZEOF_ELEMENT_PTR * (length (block_data SIZEOF_ELEMENT_PTR (el_children f)) + length [?n]) \<le> BLOCK_ALLOC_MAX"
        using fits StartElement f(6) len by simp
      obtain b where b: "mem_block_append always SIZEOF_ELEMENT_PTR (el_children f) [?n] = Inr b"
        "grown_block SIZEOF_ELEMENT_PTR b" "block_data SIZEOF_ELEMENT_PTR b = cs @ [?n]"
        using append_always [OF f(5) room] f(6) by metis
      let ?s2 = "put_element ?n (Some (e\<lparr>el_parent := Some p\<rparr>)) (put_element p (Some (f\<lparr>el_children := b\<rparr>)) ?s1)"
      have app: "xml_element_append_child always p ?n ?s1 = Some (Inr (), ?s2)"
        using f(1) p e(2) b(1) by (simp add: xml_element_append_child_def)
      let ?c = "c\<lparr>currentP := Some ?n, ctx_store := ?s2\<rparr>"
      have "handle always ev c = Some ?c"
        using StartElement env new root cur app by (simp add: startElement_def)
      moreover have "open_ok ?s2 (?n + 1) [] (?n # p # ps) ((name, [], []) # stack)"
      proof -
        have "forest_span ?s2 (p + 1) ?n cs ks" by (rule span_frame(2) [OF f(7)]) simp
        moreover have "open_ok ?s2 p [p] ps stack1" by (rule open_ok_frame [OF f(9)]) (use p in simp)
        ultimately have "open_ok ?s2 ?n [?n] (p # ps) ((nm, cd, ks) # stack1)"
          using open_okI [of ?s2 p "f\<lparr>el_children := b\<rparr>" cs "[?n]" ?n ks ps stack1] f b p by simp
        then have top_open: "open_ok ?s2 ?n [?n] (p # ps) stack" by (simp only: Cons top)
        have "open_ok ?s2 (?n + 1) [] (?n # p # ps) ((el_name (e\<lparr>el_parent := Some p\<rparr>),
            block_data 1 (el_cdata (e\<lparr>el_parent := Some p\<rparr>)), []) # stack)"
        proof (rule open_okI [where cs = "[]"])
          show "elements ?s2 ?n = Some (e\<lparr>el_parent := Some p\<rparr>)" by simp
          show "grown_block 1 (el_cdata (e\<lparr>el_parent := Some p\<rparr>))" using e(3) by simp
          show "grown_block SIZEOF_ELEMENT_PTR (el_children (e\<lparr>el_parent := Some p\<rparr>))" using e(5) by simp
          show "block_data SIZEOF_ELEMENT_PTR (el_children (e\<lparr>el_parent := Some p\<rparr>)) = [] @ []" using e(6) by simp
          show "forest_span ?s2 (?n + 1) (?n + 1) [] []" by simp
          show "el_parent (e\<lparr>el_parent := Some p\<rparr>) = (case p # ps of [] \<Rightarrow> None | r # _ \<Rightarrow> Some r)" by simp
          show "open_ok ?s2 ?n [?n] (p # ps) stack" by (rule top_open)
        qed
        then show ?thesis using e by simp
      qed
      moreover from this have "context_ok ?c st'"
        unfolding st' by (intro context_okI [of _ ?n "p # ps"]) (use env root in simp_all)
      ultimately show ?thesis by blast
    qed
  next
    case (CharacterData t)
    then obtain nm cd ks stack1 where stack: "stack = (nm, cd, ks) # stack1"
      and st': "st' = ((nm, cd @ t, ks) # stack1, None)"
      using step d by (cases stack) auto
    obtain p ps where open': "open_ok ?s (next_element ?s) [] (p # ps) stack" and cur: "currentP c = Some p"
      and root: "rootP c = Some (last (p # ps))"
      using ok d stack by (auto elim: context_ok_openE)
    obtain f cs where f: "elements ?s p = Some f" "el_name f = nm" "grown_block 1 (el_cdata f)"
      "block_data 1 (el_cdata f) = cd" "grown_block SIZEOF_ELEMENT_PTR (el_children f)"
      "block_data SIZEOF_ELEMENT_PTR (el_children f) = cs" "forest_span ?s (p + 1) (next_element ?s) cs ks"
      "el_parent f = (case ps of [] \<Rightarrow> None | r # _ \<Rightarrow> Some r)" "open_ok ?s p [p] ps stack1"
      using open' stack by auto
    have "1 * (length (block_data 1 (el_cdata f)) + length t) \<le> BLOCK_ALLOC_MAX"
      using fits small stack CharacterData f(4) by (simp add: stack_small_def)
    from append_always [OF f(3) this] obtain b where b: "mem_block_append always 1 (el_cdata f) t = Inr b"
      "grown_block 1 b" "block_data 1 b = cd @ t" using f(4) by metis
    let ?s2 = "put_element p (Some (f\<lparr>el_cdata := b\<rparr>)) ?s"
    have "handle always ev c = Some (c\<lparr>ctx_store := ?s2\<rparr>)"
      using CharacterData env cur f(1) b(1) by (simp add: characterData_def xml_element_append_cdata_def)
    moreover have "open_ok ?s2 (next_element ?s) [] (p # ps) ((nm, cd @ t, ks) # stack1)"
    proof -
      have "forest_span ?s2 (p + 1) (next_element ?s) cs ks" by (rule span_frame(2) [OF f(7)]) simp
      moreover have "open_ok ?s2 p [p] ps stack1" by (rule open_ok_frame [OF f(9)]) simp
      ultimately show ?thesis
        using open_okI [of ?s2 p "f\<lparr>el_cdata := b\<rparr>" cs "[]" "next_element ?s" ks ps stack1] f b by simp
    qed
    moreover from this have "context_ok (c\<lparr>ctx_store := ?s2\<rparr>) st'"
      unfolding st' by (intro context_okI [of _ p ps]) (use env cur root in simp_all)
    ultimately show ?thesis by blast
  next
    case (EndElement name)
    then obtain nm cd ks stack1 where stack: "stack = (nm, cd, ks) # stack1" and name: "name = nm"
      using step d by (cases stack; cases "tl stack") (auto split: if_splits)
    obtain p ps where open': "open_ok ?s (next_element ?s) [] (p # ps) stack" and cur: "currentP c = Some p"
      and root: "rootP c = Some (last (p # ps))"
      using ok d stack by (auto elim: context_ok_openE)
    obtain f cs where f: "elements ?s p = Some f" "el_name f = nm" "grown_block 1 (el_cdata f)"
      "block_data 1 (el_cdata f) = cd" "grown_block SIZEOF_ELEMENT_PTR (el_children f)"
      "block_data SIZEOF_ELEMENT_PTR (el_children f) = cs" "forest_span ?s (p + 1) (next_element ?s) cs ks"
      "el_parent f = (case ps of [] \<Rightarrow> None | r # _ \<Rightarrow> Some r)" "open_ok ?s p [p] ps stack1"
      using open' stack by auto
    have "1 * (length (block_data 1 (el_cdata f)) + length [NUL]) \<le> BLOCK_ALLOC_MAX"
      using fits small stack EndElement f(4) by (simp add: stack_small_def)
    from append_always [OF f(3) this] obtain b where b: "mem_block_append always 1 (el_cdata f) [NUL] = Inr b"
      "grown_block 1 b" "block_data 1 b = cd @ [NUL]" using f(4) by metis
    let ?s2 = "put_element p (Some (f\<lparr>el_cdata := b\<rparr>)) ?s"
    have parent: "el_parent f = None \<Longrightarrow> Some p = rootP c" using f(8) root by (cases ps) auto
    have handled: "handle always ev c = Some (c\<lparr>currentP := el_parent f, ctx_store := ?s2\<rparr>)"
      using EndElement env cur f(1,2) b(1) name parent
      by (auto simp: endElement_def xml_element_append_cdata_def)
    have closed: "elem_span ?s2 p (next_element ?s) (Elem nm cd ks)"
    proof -
      have "forest_span ?s2 (p + 1) (next_element ?s) cs ks" by (rule span_frame(2) [OF f(7)]) simp
      then have "elem_span ?s2 p (next_element ?s) (Elem (el_name (f\<lparr>el_cdata := b\<rparr>)) cd ks)"
        by (intro elem_span_forest_span.elem_node) (use f b in simp_all)
      then show ?thesis using f(2) by simp
    qed
    show ?thesis
    proof (cases stack1)
      case Nil
      then have "ps = []" using f(9) by (cases ps) auto
      moreover have "st' = ([], Some (Elem nm cd ks))" using step stack Nil EndElement name d by simp
      ultimately show ?thesis
        using handled closed env root f(8) by (auto simp: context_ok_def)
    next
      case (Cons top stack2)
      obtain nm' cd' ks' where top: "top = (nm', cd', ks')" by (cases top)
      obtain r rs where ps: "ps = r # rs" using f(9) Cons top by (cases ps) auto
      have st': "st' = ((nm', cd', ks' @ [Elem nm cd ks]) # stack2, None)"
        using step stack Cons top EndElement name d by simp
      obtain g ds where g: "elements ?s r = Some g" "el_name g = nm'" "grown_block 1 (el_cdata g)"
        "block_data 1 (el_cdata g) = cd'" "grown_block SIZEOF_ELEMENT_PTR (el_children g)"
        "block_data SIZEOF_ELEMENT_PTR (el_children g) = ds @ [p]" "forest_span ?s (r + 1) p ds ks'"
        "el_parent g = (case rs of [] \<Rightarrow> None | x # _ \<Rightarrow> Some x)" "open_ok ?s r [r] rs stack2"
        using f(9) Cons top ps by auto
      have r: "r < p" using span_le(2) [OF g(7)] by simp
      have "forest_span ?s2 (r + 1) p ds ks'" by (rule span_frame(2) [OF g(7)]) simp
      then have "forest_span ?s2 (r + 1) (next_element ?s) (ds @ [p]) (ks' @ [Elem nm cd ks])"
        using closed by (rule forest_span_append)
      moreover have "open_ok ?s2 r [r] rs stack2" by (rule open_ok_frame [OF g(9)]) (use r in simp)
      ultimately have "open_ok ?s2 (next_element ?s) [] (r # rs) ((nm', cd', ks' @ [Elem nm cd ks]) # stack2)"
        using open_okI [of ?s2 r g "ds @ [p]" "[]" "next_element ?s" "ks' @ [Elem nm cd ks]" rs stack2] g r by simp
      then have "context_ok (c\<lparr>currentP := el_parent f, ctx_store := ?s2\<rparr>) st'"
        unfolding st' by (intro context_okI [of _ r rs]) (use env root f(8) ps in simp_all)
      with handled show ?thesis by blast
    qed
  qed
qed

lemma handle_all_grows:
  assumes "context_ok c st" "stack_small k (fst st)" "grow_all evs st = Some st'"
    and "k + sum_list (map event_size evs) \<le> BLOCK_ALLOC_MAX"
  shows "\<exists>c'. handle_all always evs c = Some c' \<and> context_ok c' st'"
  using assms
proof (induction evs arbitrary: c st k)
  case (Cons ev evs)
  obtain stack d where st: "st = (stack, d)" by force
  obtain stack1 d1 where st1: "grow ev (stack, d) = Some (stack1, d1)" "grow_all evs (stack1, d1) = Some st'"
    using Cons.prems(3) st by (auto simp: bind_eq_Some_conv)
  obtain c1 where c1: "handle always ev c = Some c1" "context_ok c1 (stack1, d1)"
    using handle_grows [of c stack d k ev "(stack1, d1)"] Cons.prems st st1 by auto
  have "stack_small (k + event_size ev) stack1"
    using grow_small [OF _ st1(1)] Cons.prems(2) st by simp
  with Cons.IH [OF c1(2) _ st1(2), of "k + event_size ev"] Cons.prems(4) c1(1) show ?case by auto
qed simp

lemma xml_parse_builds:
  assumes "expat xml = Some (evs, None)" "document_tree evs = Some t"
    and "sum_list (map event_size evs) \<le> BLOCK_ALLOC_MAX"
  shows "\<exists>r s. xml_parse expat always xml = Some (Inr (r, s)) \<and> elem_span s r (next_element s) t"
proof -
  have "grow_all evs ([], None) = Some ([], Some t)"
    using assms(2) by (auto simp: document_tree_def split: option.splits list.splits prod.splits)
  moreover have "context_ok initial_context ([], None)" by (simp add: context_ok_def initial_context_def)
  ultimately obtain c where c: "handle_all always evs initial_context = Some c" "context_ok c ([], Some t)"
    using handle_all_grows [of initial_context "([], None)" 0 evs "([], Some t)"] assms(3) by auto
  with assms(1) show ?thesis by (auto simp: xml_parse_def context_ok_def)
qed

lemma xml_parse_tree_builds:
  assumes "expat xml = Some (evs, None)" "document_tree evs = Some t"
    and "sum_list (map event_size evs) \<le> BLOCK_ALLOC_MAX"
  shows "xml_parse_tree expat always xml = Some (Inr t)"
proof -
  obtain r s where rs: "xml_parse expat always xml = Some (Inr (r, s))" "elem_span s r (next_element s) t"
    using xml_parse_builds [of expat xml evs t, OF assms] by blast
  with tree_of_span(1) [OF rs(2), of "next_element s"] show ?thesis by (simp add: xml_parse_tree_def)
qed

subsection \<open>Freeing\<close>

definition erase :: "nat \<Rightarrow> nat \<Rightarrow> xml_store \<Rightarrow> xml_store" where
  "erase p q s = s\<lparr>elements := (\<lambda>x. if p \<le> x \<and> x < q then None else elements s x)\<rparr>"

lemma erase_empty: "erase p p s = s"
proof -
  have "(\<lambda>x. if p \<le> x \<and> x < p then None else elements s x) = elements s" by (rule ext) auto
  then show ?thesis by (simp add: erase_def)
qed

lemma erase_append: "p \<le> q \<Longrightarrow> q \<le> r \<Longrightarrow> erase q r (erase p q s) = erase p r s"
  by (auto simp: erase_def fun_eq_iff)

lemma erase_put: "p < q \<Longrightarrow> put_element p None (erase (p + 1) q s) = erase p q s"
  by (auto simp: erase_def put_element_def fun_eq_iff)

lemma free_elements_simps:
  "free_elements [] s = Some s"
  "elements s p = Some e \<Longrightarrow> free_elements (p # rest) s =
     Option.bind (free_elements (block_data SIZEOF_ELEMENT_PTR (el_children e)) s)
       (\<lambda>s1. free_elements rest (put_element p None s1))"
  "elements s p = None \<Longrightarrow> free_elements (p # rest) s = None"
  by (subst free_elements.simps, simp)+

lemma free_span:
  "elem_span s p q t \<Longrightarrow>
     \<forall>(s' :: xml_store) rest. (\<forall>x. p \<le> x \<and> x < q \<longrightarrow> elements s' x = elements s x) \<longrightarrow>
       free_elements (p # rest) s' = free_elements rest (erase p q s')"
  "forest_span s p q cs ts \<Longrightarrow>
     \<forall>s' :: xml_store. (\<forall>x. p \<le> x \<and> x < q \<longrightarrow> elements s' x = elements s x) \<longrightarrow>
       free_elements cs s' = Some (erase p q s')"
proof (induction rule: elem_span_forest_span.inducts)
  case (elem_node p e cd q ks)
  have pq: "p < q" using span_le(2) elem_node by fastforce
  show ?case
  proof (intro allI impI)
    fix s' :: xml_store and rest
    assume agree: "\<forall>x. p \<le> x \<and> x < q \<longrightarrow> elements s' x = elements s x"
    then have "elements s' p = Some e" using elem_node pq by simp
    moreover have "free_elements (block_data SIZEOF_ELEMENT_PTR (el_children e)) s' = Some (erase (p + 1) q s')"
      using elem_node agree by simp
    ultimately show "free_elements (p # rest) s' = free_elements rest (erase p q s')"
      using erase_put [OF pq] by (simp add: free_elements_simps)
  qed
next
  case (forest_Nil p)
  show ?case by (simp add: free_elements_simps erase_empty)
next
  case (forest_Cons p q t r cs ts)
  have le: "p \<le> q" "q \<le> r" using span_le forest_Cons by (fastforce, fastforce)
  show ?case
  proof (intro allI impI)
    fix s' :: xml_store
    assume agree: "\<forall>x. p \<le> x \<and> x < r \<longrightarrow> elements s' x = elements s x"
    then have "free_elements (p # cs) s' = free_elements cs (erase p q s')"
      using forest_Cons le by simp
    also have "\<dots> = Some (erase q r (erase p q s'))"
      using forest_Cons agree le by (simp add: erase_def)
    finally show "free_elements (p # cs) s' = Some (erase p r s')" using erase_append [OF le] by simp
  qed
qed

section \<open>Properties\<close>

text \<open>C16: when Expat accepts a text and there is memory, the handlers build exactly the element tree of
  the events it reports, with the pieces of character data of an element put together, and
  \<open>xml_element_free\<close> then frees every element once and touches nothing else.\<close>
theorem xml_parse_builds_tree:
  assumes "expat xml = Some (evs, None)" "document_tree evs = Some t"
    and "sum_list (map event_size evs) \<le> BLOCK_ALLOC_MAX"
  shows "xml_parse_tree expat always xml = Some (Inr t) \<and>
    (\<exists>r s. xml_parse expat always xml = Some (Inr (r, s)) \<and>
           xml_element_free r s = Some (erase r (next_element s) s))"
proof -
  obtain r s where rs: "xml_parse expat always xml = Some (Inr (r, s))" "elem_span s r (next_element s) t"
    using xml_parse_builds [of expat xml evs t, OF assms] by blast
  from free_span(1) [OF rs(2)] have "xml_element_free r s = Some (erase r (next_element s) s)"
    by (simp add: xml_element_free_def free_elements_simps)
  with rs(1) xml_parse_tree_builds [of expat xml evs t, OF assms] show ?thesis by blast
qed

lemma xml_parse_builds_tree_witness:
  "xml_parse_tree (\<lambda>_. Some ([StartElement ''a'', CharacterData ''x'', StartElement ''b'', EndElement ''b'',
      CharacterData ''y'', EndElement ''a''], None)) always ''<a>x<b/>y</a>''
     = Some (Inr (Elem ''a'' ''xy'' [Elem ''b'' [] []]))"
  using xml_parse_builds_tree [of "\<lambda>_. Some ([StartElement ''a'', CharacterData ''x'', StartElement ''b'',
      EndElement ''b'', CharacterData ''y'', EndElement ''a''], None)" "''<a>x<b/>y</a>''"
      "[StartElement ''a'', CharacterData ''x'', StartElement ''b'', EndElement ''b'', CharacterData ''y'', EndElement ''a'']"
      "Elem ''a'' ''xy'' [Elem ''b'' [] []]"]
  by (simp add: document_tree_def)

text \<open>When there is no memory to add a new element to its parent, the start handler frees that element
  twice: it is undefined what happens then.\<close>
theorem start_element_double_free:
  assumes "ctx_env c = None" "rootP c \<noteq> None" "currentP c = Some cur"
    and "elements (ctx_store c) cur = Some e" "elements (ctx_store c) (next_element (ctx_store c)) = None"
    and "xml_element_new mok name (ctx_store c) = Inr (p, s)"
    and "mem_block_append mok SIZEOF_ELEMENT_PTR (el_children e) [p] = Inl f"
  shows "startElement mok name c = None"
proof -
  obtain b1 :: "char mem_block" and b2 :: "nat mem_block"
    where new: "mem_block_init mok 1 0 = Inr b1" "mem_block_init mok SIZEOF_ELEMENT_PTR 0 = Inr b2"
      "p = next_element (ctx_store c)"
      "s = (put_element p (Some \<lparr>el_parent = None, el_name = name, el_cdata = b1, el_children = b2\<rparr>) (ctx_store c))
             \<lparr>next_element := p + 1\<rparr>"
    using assms(6) by (auto simp: xml_element_new_def bindE_Inr_conv Let_def split: if_splits)
  have "block_data SIZEOF_ELEMENT_PTR b2 = []"
    using mem_block_init_wf(2) [OF _ new(2)] by (simp add: block_data_def block_cells_def)
  then have "xml_element_free p s = Some (put_element p None s)"
    using new(4) by (simp add: xml_element_free_def free_elements_simps)
  moreover have "elements s cur = Some e" using assms(4,5) new(3,4) by auto
  ultimately have "xml_element_append_child mok cur p s = Some (Inl f, put_element p None s)"
    using new(4) assms(7) by (simp add: xml_element_append_child_def)
  moreover have "xml_element_free p (put_element p None s) = None"
    by (simp add: xml_element_free_def free_elements_simps)
  ultimately show ?thesis
    using assms(1,2,3,6) by (auto simp: startElement_def)
qed

definition full_context :: parse_context where
  "full_context =
     \<lparr>ctx_env = None, rootP = Some 2, currentP = Some 2,
      ctx_store = \<lparr>elements = [2 \<mapsto> \<lparr>el_parent = None, el_name = ''a'', el_cdata = empty_block,
                    el_children = \<lparr>blk_size = 16, blk_allocated = 16, blk_cells = Some [Some 3, Some 4]\<rparr>\<rparr>],
                   next_element = 5\<rparr>\<rparr>"

lemma start_element_double_free_witness:
  "startElement (\<lambda>n. n \<noteq> 32) ''b'' full_context = None"
proof -
  obtain p s where new: "xml_element_new (\<lambda>n. n \<noteq> 32) ''b'' (ctx_store full_context) = Inr (p, s)"
    by (simp add: xml_element_new_def SIZEOF_XML_ELEMENT_def mem_block_init_def Let_def)
  have "grow_alloc 24 16 = 32" by (subst grow_alloc.simps, simp, subst grow_alloc.simps, simp)
  then obtain f where "mem_block_append (\<lambda>n. n \<noteq> 32) SIZEOF_ELEMENT_PTR
      \<lparr>blk_size = 16, blk_allocated = 16, blk_cells = Some [Some 3, Some 4]\<rparr> [p] = Inl f"
    by (simp add: mem_block_append_def mem_block_resize_def)
  then show ?thesis
    by (intro start_element_double_free [where e = "\<lparr>el_parent = None, el_name = ''a'', el_cdata = empty_block,
          el_children = \<lparr>blk_size = 16, blk_allocated = 16, blk_cells = Some [Some 3, Some 4]\<rparr>\<rparr>",
          OF _ _ _ _ _ new]) (simp_all add: full_context_def)
qed

end
