(* ===== verification/Value_Heap.thy ===== *)
theory Value_Heap
  imports Strings "HOL-Library.Multiset"
begin

text \<open>
  Values as the code keeps them: reference-counted cells that arrays and structs share
  (\<open>struct _xmlrpc_value\<close>, \<open>src/xmlrpc_data.c\<close>, \<open>src/xmlrpc_array.c\<close>, \<open>src/xmlrpc_struct.c\<close>).
  An operation takes the heap and gives \<open>None\<close> where the code would abort on an assertion, use
  memory it does not own or not return, and otherwise a result (a value or the fault left in the
  environment) and the new heap.  An address that was freed is not handed out again.
\<close>

section \<open>Cells\<close>

record struct_member =
  keyHash :: "32 word"
  mkey :: nat
  mvalue :: nat

datatype 'd body =
    Scalar "'d xvalue"
  | Pointer nat "(nat \<times> nat) option"
  | ArrayBody "nat mem_block"
  | StructBody "struct_member mem_block"

record 'd value_cell =
  refcount :: nat
  body :: "'d body"

record 'd heap =
  cells :: "nat \<Rightarrow> 'd value_cell option"
  fresh :: nat
  dtor_calls :: "(nat \<times> nat \<times> nat) list"

abbreviation SIZEOF_VALUE_PTR :: nat where "SIZEOF_VALUE_PTR \<equiv> 8"
abbreviation SIZEOF_STRUCT_MEMBER :: nat where "SIZEOF_STRUCT_MEMBER \<equiv> 24"

fun body_type :: "'d body \<Rightarrow> xmlrpc_type" where
  "body_type (Scalar v) = value_type v"
| "body_type (Pointer _ _) = TYPE_C_PTR"
| "body_type (ArrayBody _) = TYPE_ARRAY"
| "body_type (StructBody _) = TYPE_STRUCT"

fun is_array_body :: "'d body \<Rightarrow> bool" where
  "is_array_body (ArrayBody _) = True"
| "is_array_body _ = False"

fun type_number :: "xmlrpc_type \<Rightarrow> int" where
  "type_number TYPE_INT = 0"
| "type_number TYPE_BOOL = 1"
| "type_number TYPE_DOUBLE = 2"
| "type_number TYPE_DATETIME = 3"
| "type_number TYPE_STRING = 4"
| "type_number TYPE_BASE64 = 5"
| "type_number TYPE_ARRAY = 6"
| "type_number TYPE_STRUCT = 7"
| "type_number TYPE_C_PTR = 8"
| "type_number TYPE_NIL = 9"
| "type_number TYPE_I8 = 10"
| "type_number TYPE_DEAD = 0xDEAD"

definition set_cell :: "nat \<Rightarrow> 'd value_cell option \<Rightarrow> 'd heap \<Rightarrow> 'd heap" where
  "set_cell p c h = h\<lparr>cells := (cells h)(p := c)\<rparr>"

definition set_refcount :: "nat \<Rightarrow> nat \<Rightarrow> 'd heap \<Rightarrow> 'd heap" where
  "set_refcount p n h = set_cell p (map_option (\<lambda>c. c\<lparr>refcount := n\<rparr>) (cells h p)) h"

definition set_body :: "nat \<Rightarrow> 'd body \<Rightarrow> 'd heap \<Rightarrow> 'd heap" where
  "set_body p b h = set_cell p (map_option (\<lambda>c. c\<lparr>body := b\<rparr>) (cells h p)) h"

text \<open>Operations on a state, most of the time the heap: undefined, faulted or done.\<close>

type_synonym ('a, 's) op = "'s \<Rightarrow> ('a result \<times> 's) option"
type_synonym ('a, 'd) heap_op = "('a, 'd heap) op"

definition hret :: "'a \<Rightarrow> ('a, 's) op" where
  "hret x h = Some (Inr x, h)"

definition hfail :: "fault \<Rightarrow> ('a, 's) op" where
  "hfail f h = Some (Inl f, h)"

definition hbind :: "('a, 's) op \<Rightarrow> ('a \<Rightarrow> ('b, 's) op) \<Rightarrow> ('b, 's) op" where
  "hbind m k h =
     (case m h of None \<Rightarrow> None
      | Some (Inl f, h') \<Rightarrow> Some (Inl f, h')
      | Some (Inr x, h') \<Rightarrow> k x h')"

definition hresult :: "'a result \<Rightarrow> ('a, 's) op" where
  "hresult r h = Some (r, h)"

definition hstep :: "('d heap \<Rightarrow> 'd heap option) \<Rightarrow> (unit, 'd) heap_op" where
  "hstep f h = map_option (\<lambda>h'. (Inr (), h')) (f h)"

definition get_body :: "nat \<Rightarrow> ('d body, 'd) heap_op" where
  "get_body p h = map_option (\<lambda>c. (Inr (body c), h)) (cells h p)"

section \<open>Reference counts\<close>

definition xmlrpc_INCREF :: "nat \<Rightarrow> 'd heap \<Rightarrow> 'd heap option" where
  "xmlrpc_INCREF p h =
     (case cells h p of None \<Rightarrow> None
      | Some c \<Rightarrow> if refcount c = 0 then None
                  else Some (set_refcount p ((refcount c + 1) mod 2 ^ 32) h))"

definition member_refs :: "struct_member \<Rightarrow> nat list" where
  "member_refs m = [mkey m, mvalue m]"

fun body_refs :: "'d body \<Rightarrow> nat list" where
  "body_refs (Scalar _) = []"
| "body_refs (Pointer _ _) = []"
| "body_refs (ArrayBody b) = block_data SIZEOF_VALUE_PTR b"
| "body_refs (StructBody b) = concat (map member_refs (block_data SIZEOF_STRUCT_MEMBER b))"

definition xmlrpc_abort_if_array_bad :: "nat \<Rightarrow> 'd heap \<Rightarrow> bool" where
  "xmlrpc_abort_if_array_bad p h =
     (case cells h p of None \<Rightarrow> False
      | Some c \<Rightarrow>
          (case body c of
             ArrayBody b \<Rightarrow>
               list_all (\<lambda>q. case cells h q of None \<Rightarrow> False | Some d \<Rightarrow> 1 \<le> refcount d) (body_refs (body c))
           | _ \<Rightarrow> False))"

definition destroyCptr :: "'d body \<Rightarrow> 'd heap \<Rightarrow> 'd heap" where
  "destroyCptr b h =
     (case b of
        Pointer obj (Some (dtor, context)) \<Rightarrow> h\<lparr>dtor_calls := dtor_calls h @ [(dtor, context, obj)]\<rparr>
      | _ \<Rightarrow> h)"

text \<open>
  \<open>xmlrpc_DECREF\<close> of several values in turn.  A value that dies is destroyed: first its contents
  (the references an array or a struct holds, given back in order; the destructor of a C pointer),
  then the cell itself is freed.  \<open>None\<close> is an abort, a use of dead memory or a recursion with no
  end.
\<close>

partial_function (option) DECREF_all :: "nat list \<Rightarrow> 'd heap \<Rightarrow> 'd heap option" where
  "DECREF_all ps h =
     (case ps of [] \<Rightarrow> Some h
      | p # rest \<Rightarrow>
          (case cells h p of None \<Rightarrow> None
           | Some c \<Rightarrow>
               if refcount c = 0 then None
               else
                 let h1 = set_refcount p (refcount c - 1) h in
                 if refcount c - 1 \<noteq> 0 then DECREF_all rest h1
                 else if is_array_body (body c) \<and> \<not> xmlrpc_abort_if_array_bad p h1 then None
                 else
                   Option.bind (DECREF_all (body_refs (body c)) (destroyCptr (body c) h1))
                     (\<lambda>h2. DECREF_all rest (set_cell p None h2))))"

definition xmlrpc_DECREF :: "nat \<Rightarrow> 'd heap \<Rightarrow> 'd heap option" where
  "xmlrpc_DECREF p h = DECREF_all [p] h"

definition xmlrpc_destroyArrayContents :: "nat \<Rightarrow> 'd heap \<Rightarrow> 'd heap option" where
  "xmlrpc_destroyArrayContents p h =
     (case cells h p of None \<Rightarrow> None
      | Some c \<Rightarrow> if xmlrpc_abort_if_array_bad p h then DECREF_all (body_refs (body c)) h else None)"

definition xmlrpc_destroyStruct :: "nat \<Rightarrow> 'd heap \<Rightarrow> 'd heap option" where
  "xmlrpc_destroyStruct p h =
     (case cells h p of None \<Rightarrow> None
      | Some c \<Rightarrow> DECREF_all (body_refs (body c)) h)"

definition destroyValue :: "nat \<Rightarrow> 'd heap \<Rightarrow> 'd heap option" where
  "destroyValue p h =
     (case cells h p of None \<Rightarrow> None
      | Some c \<Rightarrow>
          map_option (set_cell p None)
            (case body c of
               Scalar _ \<Rightarrow> Some h
             | Pointer _ _ \<Rightarrow> Some (destroyCptr (body c) h)
             | ArrayBody _ \<Rightarrow> xmlrpc_destroyArrayContents p h
             | StructBody _ \<Rightarrow> xmlrpc_destroyStruct p h))"

section \<open>New values\<close>

text \<open>A simple value made as in \<open>Values\<close> or \<open>Strings\<close> is put in a cell with one reference.\<close>

definition new_cell :: "'d body \<Rightarrow> (nat, 'd) heap_op" where
  "new_cell b h =
     Some (Inr (fresh h),
           (set_cell (fresh h) (Some \<lparr>refcount = 1, body = b\<rparr>) h)\<lparr>fresh := fresh h + 1\<rparr>)"

definition new_scalar :: "'d xvalue result \<Rightarrow> (nat, 'd) heap_op" where
  "new_scalar r = hbind (hresult r) (\<lambda>v. new_cell (Scalar v))"

definition cptr_new_dtor :: "(nat \<Rightarrow> bool) \<Rightarrow> nat \<Rightarrow> (nat \<times> nat) option \<Rightarrow> (nat, 'd) heap_op" where
  "cptr_new_dtor mok obj dtor =
     hbind (hresult (xmlrpc_createXmlrpcValue mok)) (\<lambda>_. new_cell (Pointer obj dtor))"

definition xmlrpc_array_new :: "(nat \<Rightarrow> bool) \<Rightarrow> (nat, 'd) heap_op" where
  "xmlrpc_array_new mok =
     hbind (hresult (xmlrpc_createXmlrpcValue mok)) (\<lambda>_.
     hbind (hresult (mem_block_init mok SIZEOF_VALUE_PTR 0)) (\<lambda>b. new_cell (ArrayBody b)))"

definition xmlrpc_struct_new :: "(nat \<Rightarrow> bool) \<Rightarrow> (nat, 'd) heap_op" where
  "xmlrpc_struct_new mok =
     hbind (hresult (xmlrpc_createXmlrpcValue mok)) (\<lambda>_.
     hbind (hresult (mem_block_init mok SIZEOF_STRUCT_MEMBER 0)) (\<lambda>b. new_cell (StructBody b)))"

section \<open>Arrays\<close>

definition xmlrpc_array_size :: "nat \<Rightarrow> (nat, 'd) heap_op" where
  "xmlrpc_array_size arrayP =
     hbind (get_body arrayP) (\<lambda>v.
       case v of
         ArrayBody b \<Rightarrow>
           let size = mem_block_size SIZEOF_VALUE_PTR b
           in if size < 2 ^ 31 then hret size else (\<lambda>h. None)
       | _ \<Rightarrow> hfail (type_fault [Txt ''Value is not an array'']))"

definition xmlrpc_array_append_item :: "(nat \<Rightarrow> bool) \<Rightarrow> nat \<Rightarrow> nat \<Rightarrow> (unit, 'd) heap_op" where
  "xmlrpc_array_append_item mok arrayP valueP =
     hbind (get_body arrayP) (\<lambda>v.
       case v of
         ArrayBody b \<Rightarrow>
           let size = mem_block_size SIZEOF_VALUE_PTR b in
           hbind (hresult (mem_block_resize mok SIZEOF_VALUE_PTR b (size + 1))) (\<lambda>b'.
             hstep (\<lambda>h.
               map_option
                 (set_body arrayP (ArrayBody
                    (b'\<lparr>blk_cells := Some (write_cells size [valueP] (mem_block_contents b'))\<rparr>)))
                 (xmlrpc_INCREF valueP (set_body arrayP (ArrayBody b') h))))
       | _ \<Rightarrow> hfail (type_fault [Txt ''Value is not an array'']))"

definition xmlrpc_array_read_item :: "nat \<Rightarrow> nat \<Rightarrow> (nat, 'd) heap_op" where
  "xmlrpc_array_read_item arrayP index =
     hbind (get_body arrayP) (\<lambda>v.
       case v of
         ArrayBody b \<Rightarrow>
           let contents = block_data SIZEOF_VALUE_PTR b; size = mem_block_size SIZEOF_VALUE_PTR b in
           if size \<le> index
           then hfail (set_fault_formatted XMLRPC_INDEX_ERROR
                         [Txt ''Array index '', PctU index, Txt '' is beyond end '',
                          Txt ''of '', PctU (size mod 2 ^ 32), Txt ''-item array''])
           else hbind (hstep (xmlrpc_INCREF (contents ! index))) (\<lambda>_. hret (contents ! index))
       | _ \<Rightarrow> hfail (type_fault [Txt ''Attempt to read array item from '',
                                 Txt ''a value that is not an array'']))"

definition xmlrpc_array_get_item :: "nat \<Rightarrow> int \<Rightarrow> (nat, 'd) heap_op" where
  "xmlrpc_array_get_item arrayP index =
     (if index < 0
      then hfail (set_fault_formatted XMLRPC_INDEX_ERROR
                    [Txt ''Index '', PctD index, Txt '' is negative.''])
      else hbind (xmlrpc_array_read_item arrayP (nat index)) (\<lambda>valueP.
           hbind (hstep (xmlrpc_DECREF valueP)) (\<lambda>_. hret valueP)))"

section \<open>Structs\<close>

text \<open>The hash adds each byte as a signed \<open>char\<close> promoted to 32 bits.\<close>

definition hash_char :: "32 word \<Rightarrow> char \<Rightarrow> 32 word" where
  "hash_char hash c = hash + word_of_int (schar c) + push_bit 5 hash"

definition hashStructKey :: "string \<Rightarrow> 32 word" where
  "hashStructKey key = foldl hash_char 0 key"

definition key_string :: "'d heap \<Rightarrow> nat \<Rightarrow> string option" where
  "key_string h p =
     (case cells h p of None \<Rightarrow> None
      | Some c \<Rightarrow> (case body c of Scalar v \<Rightarrow> Some (butlast (string_block v)) | _ \<Rightarrow> Some []))"

text \<open>
  The search goes by hash first and looks into the key only where the hash agrees; \<open>None\<close> is a key
  that is no longer live.
\<close>

fun find_from :: "'d heap \<Rightarrow> 32 word \<Rightarrow> string \<Rightarrow> nat \<Rightarrow> struct_member list \<Rightarrow> nat option option" where
  "find_from h searchHash key i [] = Some None"
| "find_from h searchHash key i (m # ms) =
     (if keyHash m = searchHash
      then (case key_string h (mkey m) of None \<Rightarrow> None
            | Some keystr \<Rightarrow> if keystr = key then Some (Some i) else find_from h searchHash key (i + 1) ms)
      else find_from h searchHash key (i + 1) ms)"

definition findMember :: "struct_member mem_block \<Rightarrow> string \<Rightarrow> (nat option, 'd) heap_op" where
  "findMember b key h =
     map_option (\<lambda>r. (Inr r, h))
       (find_from h (hashStructKey key) key 0 (block_data SIZEOF_STRUCT_MEMBER b))"

definition not_a_struct :: "xmlrpc_type \<Rightarrow> fault" where
  "not_a_struct t = type_fault [Txt ''Value is not a struct.  It is type #'', PctD (type_number t)]"

definition xmlrpc_struct_size :: "nat \<Rightarrow> (nat, 'd) heap_op" where
  "xmlrpc_struct_size structP =
     hbind (get_body structP) (\<lambda>v.
       case v of
         StructBody b \<Rightarrow>
           let size = mem_block_size SIZEOF_STRUCT_MEMBER b
           in if size < 2 ^ 31 then hret size else (\<lambda>h. None)
       | _ \<Rightarrow> hfail (not_a_struct (body_type v)))"

definition xmlrpc_struct_has_key_n :: "nat \<Rightarrow> string \<Rightarrow> (bool, 'd) heap_op" where
  "xmlrpc_struct_has_key_n structP key =
     hbind (get_body structP) (\<lambda>v.
       case v of
         StructBody b \<Rightarrow> hbind (findMember b key) (\<lambda>r. hret (r \<noteq> None))
       | _ \<Rightarrow> hfail (set_fault XMLRPC_TYPE_ERROR ''Value is not a struct''))"

definition xmlrpc_struct_has_key :: "nat \<Rightarrow> string \<Rightarrow> (bool, 'd) heap_op" where
  "xmlrpc_struct_has_key structP key = xmlrpc_struct_has_key_n structP (c_str key)"

text \<open>A found member's value is returned with a reference of the caller's own.\<close>

definition member_value :: "struct_member mem_block \<Rightarrow> string \<Rightarrow> (nat option, 'd) heap_op" where
  "member_value b key =
     hbind (findMember b key) (\<lambda>r.
       case r of
         None \<Rightarrow> hret None
       | Some index \<Rightarrow>
           let valueP = mvalue (block_data SIZEOF_STRUCT_MEMBER b ! index)
           in hbind (hstep (xmlrpc_INCREF valueP)) (\<lambda>_. hret (Some valueP)))"

definition xmlrpc_struct_find_value :: "nat \<Rightarrow> string \<Rightarrow> (nat option, 'd) heap_op" where
  "xmlrpc_struct_find_value structP key =
     hbind (get_body structP) (\<lambda>v.
       case v of
         StructBody b \<Rightarrow> member_value b (c_str key)
       | _ \<Rightarrow> hfail (not_a_struct (body_type v)))"

definition xmlrpc_struct_find_value_v :: "nat \<Rightarrow> nat \<Rightarrow> (nat option, 'd) heap_op" where
  "xmlrpc_struct_find_value_v structP keyP =
     hbind (get_body structP) (\<lambda>v.
       case v of
         StructBody b \<Rightarrow>
           hbind (get_body keyP) (\<lambda>k.
             case k of
               Scalar (XString s) \<Rightarrow> member_value b (butlast (string_block (XString s :: 'd xvalue)))
             | _ \<Rightarrow> hfail (type_fault [Txt ''Key value is not a string.  '', Txt ''It is type #'',
                                       PctD (type_number (body_type k))]))
       | _ \<Rightarrow> hfail (not_a_struct (body_type v)))"

definition no_member :: "string \<Rightarrow> fault" where
  "no_member key =
     set_fault_formatted XMLRPC_INDEX_ERROR
       [Txt ''No member of struct has key '', Txt [CHR 0x27], PctS (c_str key), Txt [CHR 0x27]]"

definition xmlrpc_struct_read_value_v :: "nat \<Rightarrow> nat \<Rightarrow> (nat, 'd) heap_op" where
  "xmlrpc_struct_read_value_v structP keyP =
     hbind (xmlrpc_struct_find_value_v structP keyP) (\<lambda>r.
       case r of
         Some valueP \<Rightarrow> hret valueP
       | None \<Rightarrow> hbind (get_body keyP) (\<lambda>k.
           case k of Scalar v \<Rightarrow> hfail (no_member (string_block v)) | _ \<Rightarrow> hfail (no_member [])))"

definition xmlrpc_struct_read_value :: "nat \<Rightarrow> string \<Rightarrow> (nat, 'd) heap_op" where
  "xmlrpc_struct_read_value structP key =
     hbind (xmlrpc_struct_find_value structP key) (\<lambda>r.
       case r of Some valueP \<Rightarrow> hret valueP | None \<Rightarrow> hfail (no_member key))"

text \<open>
  The code has the key value released on the way out also when the lookup has faulted, and goes on
  with the fault; it never reaches the release when the key could not be made.
\<close>

definition xmlrpc_struct_get_value_n :: "(nat \<Rightarrow> bool) \<Rightarrow> nat \<Rightarrow> string \<Rightarrow> (nat, 'd) heap_op" where
  "xmlrpc_struct_get_value_n mok structP key =
     hbind (new_scalar (xmlrpc_string_new_lp mok key)) (\<lambda>keyP h.
       case hbind (xmlrpc_struct_find_value_v structP keyP) (\<lambda>r.
              case r of
                None \<Rightarrow> hfail (no_member key)
              | Some valueP \<Rightarrow> hbind (hstep (xmlrpc_DECREF valueP)) (\<lambda>_. hret valueP)) h of
         None \<Rightarrow> None
       | Some (r, h') \<Rightarrow> map_option (\<lambda>h2. (r, h2)) (xmlrpc_DECREF keyP h'))"

definition xmlrpc_struct_get_value :: "(nat \<Rightarrow> bool) \<Rightarrow> nat \<Rightarrow> string \<Rightarrow> (nat, 'd) heap_op" where
  "xmlrpc_struct_get_value mok structP key = xmlrpc_struct_get_value_n mok structP (c_str key)"

definition changeMemberValue ::
    "nat \<Rightarrow> struct_member mem_block \<Rightarrow> nat \<Rightarrow> nat \<Rightarrow> 'd heap \<Rightarrow> 'd heap option" where
  "changeMemberValue structP b mbrIndex newValueP h =
     (let memberP = block_data SIZEOF_STRUCT_MEMBER b ! mbrIndex;
          oldValueP = mvalue memberP;
          b' = b\<lparr>blk_cells := Some (write_cells mbrIndex [memberP\<lparr>mvalue := newValueP\<rparr>]
                                        (mem_block_contents b))\<rparr>
      in Option.bind (xmlrpc_INCREF newValueP (set_body structP (StructBody b') h))
           (xmlrpc_DECREF oldValueP))"

definition addNewMember ::
    "(nat \<Rightarrow> bool) \<Rightarrow> nat \<Rightarrow> struct_member mem_block \<Rightarrow> nat \<Rightarrow> string \<Rightarrow> nat \<Rightarrow> (unit, 'd) heap_op" where
  "addNewMember mok structP b keyvalP key valueP =
     (let newMember = \<lparr>keyHash = hashStructKey key, mkey = keyvalP, mvalue = valueP\<rparr> in
      hbind (hresult (mem_block_append mok SIZEOF_STRUCT_MEMBER b [newMember])) (\<lambda>b'.
        hstep (\<lambda>h. Option.bind (xmlrpc_INCREF keyvalP (set_body structP (StructBody b') h))
                     (xmlrpc_INCREF valueP))))"

definition xmlrpc_struct_set_value_v :: "(nat \<Rightarrow> bool) \<Rightarrow> nat \<Rightarrow> nat \<Rightarrow> nat \<Rightarrow> (unit, 'd) heap_op" where
  "xmlrpc_struct_set_value_v mok structP keyvalP valueP =
     hbind (get_body structP) (\<lambda>v.
       case v of
         StructBody b \<Rightarrow>
           hbind (get_body keyvalP) (\<lambda>k.
             case k of
               Scalar (XString s) \<Rightarrow>
                 let key = butlast (string_block (XString s :: 'd xvalue)) in
                 hbind (get_body valueP) (\<lambda>_.
                 hbind (findMember b key) (\<lambda>r.
                   case r of
                     Some index \<Rightarrow> hstep (changeMemberValue structP b index valueP)
                   | None \<Rightarrow> addNewMember mok structP b keyvalP key valueP))
             | _ \<Rightarrow> hfail (set_fault XMLRPC_TYPE_ERROR ''Key value is not a string''))
       | _ \<Rightarrow> hfail (set_fault XMLRPC_TYPE_ERROR ''Value is not a struct''))"

text \<open>
  The key is released whether or not it was made: after a failed \<open>xmlrpc_string_new_lp\<close> the
  pointer is not set, so the release uses memory the code does not own.
\<close>

definition xmlrpc_struct_set_value_n ::
    "(nat \<Rightarrow> bool) \<Rightarrow> nat \<Rightarrow> string \<Rightarrow> nat \<Rightarrow> (unit, 'd) heap_op" where
  "xmlrpc_struct_set_value_n mok strctP key valueP =
     hbind (get_body strctP) (\<lambda>v.
       case v of
         StructBody _ \<Rightarrow> (\<lambda>h.
           case new_scalar (xmlrpc_string_new_lp mok key) h of
             None \<Rightarrow> None
           | Some (Inl f, h1) \<Rightarrow> None
           | Some (Inr keyvalP, h1) \<Rightarrow>
               (case xmlrpc_struct_set_value_v mok strctP keyvalP valueP h1 of
                  None \<Rightarrow> None
                | Some (r, h2) \<Rightarrow> map_option (\<lambda>h3. (r, h3)) (xmlrpc_DECREF keyvalP h2)))
       | _ \<Rightarrow> hfail (type_fault [Txt ''Trying to set value in something not a struct.  '',
                                 Txt ''Type is '', PctD (type_number (body_type v)),
                                 Txt ''; struct is '', PctD (type_number TYPE_STRUCT)]))"

definition xmlrpc_struct_set_value ::
    "(nat \<Rightarrow> bool) \<Rightarrow> nat \<Rightarrow> string \<Rightarrow> nat \<Rightarrow> (unit, 'd) heap_op" where
  "xmlrpc_struct_set_value mok strctP key valueP = xmlrpc_struct_set_value_n mok strctP (c_str key) valueP"

definition xmlrpc_struct_read_member :: "nat \<Rightarrow> nat \<Rightarrow> (nat \<times> nat, 'd) heap_op" where
  "xmlrpc_struct_read_member structP index =
     hbind (get_body structP) (\<lambda>v.
       case v of
         StructBody b \<Rightarrow>
           let members = block_data SIZEOF_STRUCT_MEMBER b; size = mem_block_size SIZEOF_STRUCT_MEMBER b in
           if size \<le> index
           then hfail (set_fault_formatted XMLRPC_INDEX_ERROR
                         [Txt ''Index '', PctU index, Txt '' is beyond the end of '',
                          Txt ''the '', PctU (size mod 2 ^ 32), Txt ''-member structure''])
           else let memberP = members ! index in
             hbind (hstep (xmlrpc_INCREF (mkey memberP))) (\<lambda>_.
             hbind (hstep (xmlrpc_INCREF (mvalue memberP))) (\<lambda>_.
             hret (mkey memberP, mvalue memberP)))
       | _ \<Rightarrow> hfail (type_fault [Txt ''Attempt to read a struct member '',
                                 Txt ''of something that is not a struct'']))"

definition xmlrpc_struct_get_key_and_value :: "nat \<Rightarrow> int \<Rightarrow> (nat \<times> nat, 'd) heap_op" where
  "xmlrpc_struct_get_key_and_value structP index =
     (if index < 0
      then hfail (set_fault_formatted XMLRPC_INDEX_ERROR
                    [Txt ''Index '', PctD index, Txt '' is negative.''])
      else hbind (xmlrpc_struct_read_member structP (nat index)) (\<lambda>(keyP, valueP).
           hbind (hstep (xmlrpc_DECREF keyP)) (\<lambda>_.
           hbind (hstep (xmlrpc_DECREF valueP)) (\<lambda>_. hret (keyP, valueP)))))"

section \<open>The reference-count invariant\<close>

text \<open>
  \<open>E\<close> holds the references owned from outside the heap (a program variable, or one a running
  operation still has to give back), \<open>D\<close> the cells under destruction, whose contents have been
  handed to \<open>E\<close>.  Each count is exactly the number of references that exist.
\<close>

definition rc :: "'d heap \<Rightarrow> nat \<Rightarrow> nat" where
  "rc h p = (case cells h p of None \<Rightarrow> 0 | Some c \<Rightarrow> refcount c)"

definition body_at :: "'d heap \<Rightarrow> nat \<Rightarrow> 'd body option" where
  "body_at h p = map_option body (cells h p)"

definition refs_at :: "'d heap \<Rightarrow> nat \<Rightarrow> nat multiset" where
  "refs_at h p = (case body_at h p of None \<Rightarrow> {#} | Some b \<Rightarrow> mset (body_refs b))"

definition held :: "'d heap \<Rightarrow> nat set \<Rightarrow> nat multiset" where
  "held h D = (\<Sum>p \<in> dom (cells h) - D. refs_at h p)"

fun dtor_of :: "'d body \<Rightarrow> (nat \<times> nat \<times> nat) multiset" where
  "dtor_of (Pointer obj (Some (dtor, context))) = {#(dtor, context, obj)#}"
| "dtor_of _ = {#}"

definition pending_at :: "'d heap \<Rightarrow> nat \<Rightarrow> (nat \<times> nat \<times> nat) multiset" where
  "pending_at h p = (case body_at h p of None \<Rightarrow> {#} | Some b \<Rightarrow> dtor_of b)"

definition dtor_balance :: "'d heap \<Rightarrow> nat set \<Rightarrow> (nat \<times> nat \<times> nat) multiset" where
  "dtor_balance h D = mset (dtor_calls h) + (\<Sum>p \<in> dom (cells h) - D. pending_at h p)"

definition member_ok :: "'d heap \<Rightarrow> struct_member \<Rightarrow> bool" where
  "member_ok h m \<longleftrightarrow>
     (\<exists>s. body_at h (mkey m) = Some (Scalar (XString s)) \<and> keyHash m = hashStructKey s)"

fun body_ok :: "'d heap \<Rightarrow> 'd body \<Rightarrow> bool" where
  "body_ok h (Scalar v) \<longleftrightarrow> value_type v \<notin> {TYPE_ARRAY, TYPE_STRUCT, TYPE_C_PTR}"
| "body_ok h (Pointer _ _) \<longleftrightarrow> True"
| "body_ok h (ArrayBody b) \<longleftrightarrow> block_ready SIZEOF_VALUE_PTR b"
| "body_ok h (StructBody b) \<longleftrightarrow>
     block_ready SIZEOF_STRUCT_MEMBER b \<and>
     (\<forall>m \<in> set (block_data SIZEOF_STRUCT_MEMBER b). member_ok h m) \<and>
     distinct (map (\<lambda>m. key_string h (mkey m)) (block_data SIZEOF_STRUCT_MEMBER b))"

definition heap_ok :: "'d heap \<Rightarrow> nat set \<Rightarrow> nat multiset \<Rightarrow> bool" where
  "heap_ok h D E \<longleftrightarrow>
     finite (dom (cells h)) \<and> (\<forall>p \<in> dom (cells h). p < fresh h) \<and> D \<subseteq> dom (cells h) \<and>
     (\<forall>p \<in> dom (cells h) - D. 0 < rc h p \<and> body_ok h (the (body_at h p))) \<and>
     (\<forall>p. rc h p = count (E + held h D) p) \<and> (\<forall>p \<in> D. rc h p = 0)"

definition total_rc :: "'d heap \<Rightarrow> nat" where
  "total_rc h = (\<Sum>p \<in> dom (cells h). rc h p)"

text \<open>What a release keeps: it makes no cell and changes no body.\<close>

definition shrunk :: "'d heap \<Rightarrow> 'd heap \<Rightarrow> bool" where
  "shrunk h h' \<longleftrightarrow>
     fresh h' = fresh h \<and> dom (cells h') \<subseteq> dom (cells h) \<and>
     (\<forall>p \<in> dom (cells h'). body_at h' p = body_at h p)"

lemma shrunk_trans: "shrunk h1 h2 \<Longrightarrow> shrunk h2 h3 \<Longrightarrow> shrunk h1 h3"
  unfolding shrunk_def by (metis subset_iff order_trans)

subsection \<open>Updates of a cell\<close>

lemma set_cell_simps [simp]:
  "cells (set_cell p c h) = (cells h)(p := c)" "fresh (set_cell p c h) = fresh h"
  "dtor_calls (set_cell p c h) = dtor_calls h"
  by (simp_all add: set_cell_def)

lemma set_refcount_simps [simp]:
  "dom (cells (set_refcount p n h)) = dom (cells h)" "fresh (set_refcount p n h) = fresh h"
  "dtor_calls (set_refcount p n h) = dtor_calls h"
  "body_at (set_refcount p n h) q = body_at h q"
  "rc (set_refcount p n h) q = (if q = p \<and> p \<in> dom (cells h) then n else rc h q)"
  by (auto simp: set_refcount_def body_at_def rc_def option.map_comp comp_def split: option.splits if_splits)

lemma set_body_simps [simp]:
  "dom (cells (set_body p b h)) = dom (cells h)" "fresh (set_body p b h) = fresh h"
  "dtor_calls (set_body p b h) = dtor_calls h"
  "body_at (set_body p b h) q = (if q = p \<and> p \<in> dom (cells h) then Some b else body_at h q)"
  "rc (set_body p b h) q = rc h q"
  by (cases "cells h p"; force simp: set_body_def body_at_def rc_def)+

lemma free_cell_simps [simp]:
  "body_at (set_cell p None h) q = (if q = p then None else body_at h q)"
  "rc (set_cell p None h) q = (if q = p then 0 else rc h q)"
  by (simp_all add: body_at_def rc_def)

lemma destroyCptr_simps [simp]:
  "cells (destroyCptr b h) = cells h" "fresh (destroyCptr b h) = fresh h"
  "mset (dtor_calls (destroyCptr b h)) = mset (dtor_calls h) + dtor_of b"
  by (cases b rule: dtor_of.cases; simp add: destroyCptr_def)+

lemma live_iff_body: "p \<in> dom (cells h) \<longleftrightarrow> body_at h p \<noteq> None"
  by (auto simp: body_at_def)

lemma key_string_body_at:
  "key_string h p = map_option (\<lambda>b. case b of Scalar v \<Rightarrow> butlast (string_block v) | _ \<Rightarrow> []) (body_at h p)"
  by (auto simp: key_string_def body_at_def split: option.splits body.splits)

text \<open>What depends on the bodies only.\<close>

lemma same_bodies:
  assumes "dom (cells h') = dom (cells h)" "\<And>p. body_at h' p = body_at h p"
  shows "refs_at h' = refs_at h" "held h' = held h" "body_ok h' = body_ok h"
    "pending_at h' = pending_at h"
proof -
  show refs: "refs_at h' = refs_at h" using assms(2) by (simp add: refs_at_def fun_eq_iff)
  show "held h' = held h" using assms(1) refs by (simp add: held_def fun_eq_iff)
  have "body_ok h' b = body_ok h b" for b
    by (cases b) (simp_all add: assms(2) member_ok_def key_string_body_at)
  then show "body_ok h' = body_ok h" by (simp add: fun_eq_iff)
  show "pending_at h' = pending_at h" using assms(2) by (simp add: pending_at_def fun_eq_iff)
qed

lemma cells_only:
  assumes "cells h' = cells h"
  shows "rc h' = rc h" "body_at h' = body_at h"
  using assms by (simp_all add: rc_def body_at_def fun_eq_iff)

lemma held_insert:
  assumes "finite (dom (cells h))" "p \<in> dom (cells h) - D"
  shows "held h D = refs_at h p + held h (insert p D)"
  unfolding held_def by (subst Diff_insert, rule sum.remove) (use assms in auto)

lemma balance_insert:
  assumes "finite (dom (cells h))" "p \<in> dom (cells h) - D"
  shows "dtor_balance h D = pending_at h p + dtor_balance h (insert p D)"
proof -
  have "(\<Sum>p \<in> dom (cells h) - D. pending_at h p)
      = pending_at h p + (\<Sum>p \<in> dom (cells h) - insert p D. pending_at h p)"
    by (subst Diff_insert, rule sum.remove) (use assms in auto)
  then show ?thesis unfolding dtor_balance_def by (simp only: add.left_commute)
qed

lemma total_rc_single:
  assumes "finite (dom (cells h))" "p \<in> dom (cells h)"
  shows "total_rc h = rc h p + (\<Sum>q \<in> dom (cells h) - {p}. rc h q)"
  using assms by (simp add: total_rc_def sum.remove)

lemma total_rc_set_refcount:
  assumes "finite (dom (cells h))" "p \<in> dom (cells h)"
  shows "total_rc (set_refcount p n h) + rc h p = total_rc h + n"
proof -
  have "(\<Sum>q \<in> dom (cells h) - {p}. rc (set_refcount p n h) q) = (\<Sum>q \<in> dom (cells h) - {p}. rc h q)"
    by (rule sum.cong) auto
  then show ?thesis
    using assms by (simp add: total_rc_single [of h p] total_rc_single [of "set_refcount p n h" p])
qed

subsection \<open>One release\<close>

lemma heap_okD:
  assumes "heap_ok h D E"
  shows "finite (dom (cells h))" "D \<subseteq> dom (cells h)" "rc h p = count (E + held h D) p"
    "p \<in> dom (cells h) \<Longrightarrow> p < fresh h"
    "p \<in> dom (cells h) - D \<Longrightarrow> 0 < rc h p \<and> body_ok h (the (body_at h p))"
    "p \<in> D \<Longrightarrow> rc h p = 0"
  using assms by (auto simp: heap_ok_def)

lemma heap_okI:
  assumes "finite (dom (cells h))" "\<And>p. p \<in> dom (cells h) \<Longrightarrow> p < fresh h" "D \<subseteq> dom (cells h)"
    and "\<And>p. p \<in> dom (cells h) - D \<Longrightarrow> 0 < rc h p \<and> body_ok h (the (body_at h p))"
    and "\<And>p. rc h p = count (E + held h D) p" "\<And>p. p \<in> D \<Longrightarrow> rc h p = 0"
  shows "heap_ok h D E"
  using assms unfolding heap_ok_def by blast

lemma rc_live: "0 < rc h p \<Longrightarrow> p \<in> dom (cells h)"
  by (auto simp: rc_def split: option.splits)

lemma owned_live:
  assumes "heap_ok h D E" "p \<in># E"
  shows "p \<in> dom (cells h) - D" "0 < rc h p"
proof -
  show "0 < rc h p" using heap_okD(3) [OF assms(1), of p] assms(2) by simp
  then show "p \<in> dom (cells h) - D" using heap_okD(6) [OF assms(1), of p] rc_live [of h p] by auto
qed

lemma heap_ok_count_down:
  assumes ok: "heap_ok h D (add_mset p E)" and more: "rc h p \<noteq> 1"
  shows "heap_ok (set_refcount p (rc h p - 1) h) D E"
proof -
  let ?h = "set_refcount p (rc h p - 1) h"
  note p = owned_live [OF ok, of p, simplified]
  have same: "held ?h = held h" "body_ok ?h = body_ok h" by (rule same_bodies; simp)+
  have "rc ?h q = count (E + held ?h D) q" for q
    using heap_okD(3) [OF ok, of q] p unfolding same by auto
  moreover have "rc ?h q = 0" if "q \<in> D" for q
    using heap_okD(6) [OF ok that] p that by auto
  moreover have "0 < rc ?h q \<and> body_ok ?h (the (body_at ?h q))" if "q \<in> dom (cells h) - D" for q
    using heap_okD(5) [OF ok that] more unfolding same by auto
  ultimately show ?thesis
    using heap_okD(1,2,4) [OF ok] by (intro heap_okI) simp_all
qed

lemma heap_ok_dying:
  assumes ok: "heap_ok h D (add_mset p E)" and last: "rc h p = 1"
    and cells: "cells h1 = cells (set_refcount p 0 h)" and fresh: "fresh h1 = fresh h"
  shows "heap_ok h1 (insert p D) (E + refs_at h p)"
proof -
  note p = owned_live [OF ok, of p, simplified]
  have dom: "dom (cells h1) = dom (cells h)" and body: "body_at h1 q = body_at h q"
    and rc: "rc h1 q = (if q = p then 0 else rc h q)" for q
    using cells_only [OF cells] p cells by auto
  note same = same_bodies [OF dom body]
  have "held h D = refs_at h p + held h (insert p D)"
    using held_insert [OF heap_okD(1) [OF ok]] p(1) by simp
  then have "rc h1 q = count (E + refs_at h p + held h1 (insert p D)) q" for q
    using heap_okD(3) [OF ok, of q] last rc [of q] by (auto simp: same)
  moreover have "rc h1 q = 0" if "q \<in> insert p D" for q
    using heap_okD(6) [OF ok, of q] that rc [of q] by auto
  moreover have "0 < rc h1 q \<and> body_ok h1 (the (body_at h1 q))" if "q \<in> dom (cells h) - insert p D" for q
    using heap_okD(5) [OF ok, of q] that rc [of q] body same by auto
  ultimately show ?thesis
    using ok p(1) fresh dom by (simp add: heap_ok_def)
qed

lemma heap_ok_freed:
  assumes ok: "heap_ok h (insert p D) E" and p: "p \<notin> D"
  shows "heap_ok (set_cell p None h) D E"
proof -
  let ?h = "set_cell p None h"
  have dom: "dom (cells ?h) = dom (cells h) - {p}" by simp
  then have dom': "dom (cells ?h) - D = dom (cells h) - insert p D" by auto
  have refs: "refs_at ?h q = refs_at h q" if "q \<noteq> p" for q
    using that by (simp add: refs_at_def)
  have held: "held ?h D = held h (insert p D)"
    unfolding held_def dom' by (rule sum.cong) (auto intro: refs)
  have zero: "rc h p = 0" using heap_okD(6) [OF ok] by simp
  have body: "body_ok ?h (the (body_at ?h q))" if q: "q \<in> dom (cells h) - insert p D" for q
  proof -
    have unused: "p \<notin># held h (insert p D)"
      using heap_okD(3) [OF ok, of p] zero by (simp add: count_eq_zero_iff)
    have "set_mset (refs_at h q) \<subseteq> set_mset (held h (insert p D))"
      using q heap_okD(1) [OF ok] held_insert [of h q "insert p D"] by auto
    then have unref: "p \<notin># refs_at h q" using unused by auto
    obtain b where b: "body_at h q = Some b" "body_ok h b" "b = the (body_at ?h q)"
      using heap_okD(5) [OF ok q] q live_iff_body [of q h] by auto
    have "body_ok ?h b"
    proof (cases b)
      case (StructBody mb)
      then have keys: "mkey m \<noteq> p" if "m \<in> set (block_data SIZEOF_STRUCT_MEMBER mb)" for m
        using unref that b(1) by (force simp: refs_at_def member_refs_def)
      then have "map (\<lambda>m. key_string ?h (mkey m)) (block_data SIZEOF_STRUCT_MEMBER mb)
          = map (\<lambda>m. key_string h (mkey m)) (block_data SIZEOF_STRUCT_MEMBER mb)"
        by (simp add: key_string_body_at)
      then have "distinct (map (\<lambda>m. key_string ?h (mkey m)) (block_data SIZEOF_STRUCT_MEMBER mb))"
        using b(2) StructBody by (simp only: body_ok.simps)
      with b(2) StructBody keys show ?thesis by (simp add: member_ok_def)
    qed (use b(2) in simp_all)
    with b(3) show ?thesis by simp
  qed
  have "0 < rc ?h q \<and> body_ok ?h (the (body_at ?h q))" if "q \<in> dom (cells ?h) - D" for q
  proof -
    have "q \<in> dom (cells h) - insert p D" using that dom' by simp
    then show ?thesis using body [of q] heap_okD(5) [OF ok, of q] by auto
  qed
  moreover have "rc ?h q = count (E + held ?h D) q" for q
    using heap_okD(3) [OF ok, of q] zero held by auto
  moreover have "D \<subseteq> dom (cells ?h)" using heap_okD(2) [OF ok] p by auto
  moreover have "rc ?h q = 0" if "q \<in> D" for q using heap_okD(6) [OF ok] that by simp
  ultimately show ?thesis
    using heap_okD(1,4) [OF ok] unfolding heap_ok_def by (metis DiffD1 dom finite_Diff set_cell_simps(2))
qed

subsection \<open>Releasing\<close>

text \<open>
  With the invariant, a release always returns: no dead or foreign memory is used and no assertion
  fails, whatever the sharing.  Each released reference lowers the total of the counts.
\<close>

lemma abort_if_array_bad_ok:
  assumes "heap_ok h D (E + refs_at h0 p)" "body_at h0 p = Some b" "body_at h p = Some b"
  shows "is_array_body b \<Longrightarrow> body_ok h b \<Longrightarrow> xmlrpc_abort_if_array_bad p h"
proof -
  assume arr: "is_array_body b" "body_ok h b"
  then obtain mb where mb: "b = ArrayBody mb" by (cases b) auto
  have "list_all (\<lambda>q. case cells h q of None \<Rightarrow> False | Some d \<Rightarrow> 1 \<le> refcount d) (body_refs b)"
    unfolding list_all_iff
  proof
    fix q assume "q \<in> set (body_refs b)"
    then have "q \<in># E + refs_at h0 p" using assms(2) by (simp add: refs_at_def)
    then have "0 < rc h q" using owned_live(2) [OF assms(1)] by blast
    then show "case cells h q of None \<Rightarrow> False | Some d \<Rightarrow> 1 \<le> refcount d"
      by (auto simp: rc_def split: option.splits)
  qed
  then show ?thesis
    using assms(3) mb by (auto simp: xmlrpc_abort_if_array_bad_def body_at_def)
qed

lemma DECREF_all_simps:
  "DECREF_all [] h = Some h"
  "cells h p = Some c \<Longrightarrow> DECREF_all (p # rest) h =
     (if refcount c = 0 then None
      else if refcount c \<noteq> 1 then DECREF_all rest (set_refcount p (refcount c - 1) h)
      else if is_array_body (body c) \<and> \<not> xmlrpc_abort_if_array_bad p (set_refcount p 0 h) then None
      else Option.bind (DECREF_all (body_refs (body c)) (destroyCptr (body c) (set_refcount p 0 h)))
             (\<lambda>h2. DECREF_all rest (set_cell p None h2)))"
  by (subst DECREF_all.simps, simp add: Let_def)+

lemma freed_total:
  assumes "heap_ok h (insert p D) E"
  shows "total_rc (set_cell p None h) = total_rc h"
proof -
  have p: "p \<in> dom (cells h)" "rc h p = 0" using heap_okD(2,6) [OF assms] by auto
  have "(\<Sum>q \<in> dom (cells h) - {p}. rc (set_cell p None h) q) = (\<Sum>q \<in> dom (cells h) - {p}. rc h q)"
    by (rule sum.cong) auto
  then show ?thesis
    using total_rc_single [OF heap_okD(1) [OF assms] p(1)] p(2) by (simp add: total_rc_def)
qed

lemma freed_balance:
  assumes "heap_ok h (insert p D) E" "p \<notin> D"
  shows "dtor_balance (set_cell p None h) D = dtor_balance h (insert p D)"
proof -
  have dom: "dom (cells (set_cell p None h)) - D = dom (cells h) - insert p D" by auto
  have "(\<Sum>q \<in> dom (cells h) - insert p D. pending_at (set_cell p None h) q)
      = (\<Sum>q \<in> dom (cells h) - insert p D. pending_at h q)"
    by (rule sum.cong) (auto simp: pending_at_def)
  then show ?thesis unfolding dtor_balance_def dom by simp
qed

lemma dying_balance:
  assumes "finite (dom (cells h))" "cells h p = Some c" "p \<notin> D"
  shows "dtor_balance (destroyCptr (body c) (set_refcount p n h)) (insert p D) = dtor_balance h D"
proof -
  let ?h = "destroyCptr (body c) (set_refcount p n h)"
  have "cells ?h = cells (set_refcount p n h)" by simp
  note only = cells_only [OF this]
  have dom: "dom (cells ?h) = dom (cells h)" by simp
  have pend: "pending_at ?h = pending_at h" by (rule same_bodies) (simp_all add: only)
  have "pending_at h p = dtor_of (body c)" using assms(2) by (simp add: pending_at_def body_at_def)
  moreover have "dtor_balance h D = pending_at h p + dtor_balance h (insert p D)"
    using balance_insert [OF assms(1)] assms(2,3) by blast
  ultimately show ?thesis unfolding dtor_balance_def dom pend by simp
qed

lemma DECREF_all_ok:
  assumes "heap_ok h D (E + mset ps)"
  shows "\<exists>h'. DECREF_all ps h = Some h' \<and> heap_ok h' D E \<and> shrunk h h' \<and>
              total_rc h' + length ps \<le> total_rc h \<and> dtor_balance h' D = dtor_balance h D"
  using assms
proof (induction "total_rc h" arbitrary: h D E ps rule: less_induct)
  case less
  show ?case
  proof (cases ps)
    case Nil
    with less.prems show ?thesis by (simp add: DECREF_all_simps shrunk_def)
  next
    case (Cons p rest)
    let ?E = "E + mset rest"
    have ok: "heap_ok h D (add_mset p ?E)" using less.prems Cons by simp
    have p: "p \<in> dom (cells h) - D" "0 < rc h p" using owned_live [OF ok, of p] by simp_all
    then obtain c where c: "cells h p = Some c" by auto
    have rcc: "rc h p = refcount c" and bc: "body_at h p = Some (body c)"
      using c by (simp_all add: rc_def body_at_def)
    note fin = heap_okD(1) [OF ok]
    show ?thesis
    proof (cases "refcount c = 1")
      case False
      let ?h1 = "set_refcount p (refcount c - 1) h"
      have ok1: "heap_ok ?h1 D ?E" using heap_ok_count_down [OF ok] rcc False by simp
      have total: "total_rc ?h1 + 1 = total_rc h"
        using total_rc_set_refcount [OF fin, of p "refcount c - 1"] c rcc p by auto
      have pend: "pending_at ?h1 = pending_at h" by (rule same_bodies) simp_all
      then have bal: "dtor_balance ?h1 D = dtor_balance h D" by (simp add: dtor_balance_def)
      obtain h' where h': "DECREF_all rest ?h1 = Some h'" "heap_ok h' D E" "shrunk ?h1 h'"
        "total_rc h' + length rest \<le> total_rc ?h1" "dtor_balance h' D = dtor_balance ?h1 D"
        using less.hyps [OF _ ok1] total by auto
      have "shrunk h ?h1" by (simp add: shrunk_def)
      then have "shrunk h h'" using h'(3) by (rule shrunk_trans)
      then show ?thesis
        using h' total bal Cons c p rcc False by (simp add: DECREF_all_simps)
    next
      case True
      let ?h1 = "set_refcount p 0 h"
      let ?h1' = "destroyCptr (body c) ?h1"
      have cells1: "cells ?h1' = cells ?h1" by simp
      have ok1: "heap_ok ?h1' (insert p D) (?E + refs_at h p)"
        using heap_ok_dying [OF ok _ cells1] True rcc by simp
      have refs: "refs_at h p = mset (body_refs (body c))" using bc by (simp add: refs_at_def)
      have "total_rc ?h1' = total_rc ?h1" by (simp only: total_rc_def cells_only [OF cells1] cells1)
      then have total: "total_rc ?h1' + 1 = total_rc h"
        using total_rc_set_refcount [OF fin p(1) [THEN DiffD1], of 0] rcc True by simp
      have good: "\<not> (is_array_body (body c) \<and> \<not> xmlrpc_abort_if_array_bad p ?h1)"
      proof -
        have "heap_ok ?h1 (insert p D) (?E + refs_at h p)"
          using heap_ok_dying [OF ok] True rcc by simp
        moreover have "body_ok ?h1 (body c)"
        proof -
          have "body_ok ?h1 = body_ok h" by (rule same_bodies; simp)
          then show ?thesis using heap_okD(5) [OF ok p(1)] p bc by auto
        qed
        ultimately show ?thesis using abort_if_array_bad_ok bc by fastforce
      qed
      obtain h2 where h2: "DECREF_all (body_refs (body c)) ?h1' = Some h2" "heap_ok h2 (insert p D) ?E"
        "shrunk ?h1' h2" "total_rc h2 \<le> total_rc ?h1'"
        "dtor_balance h2 (insert p D) = dtor_balance ?h1' (insert p D)"
        using less.hyps [OF _ ok1 [unfolded refs]] total by force
      let ?h3 = "set_cell p None h2"
      have ok3: "heap_ok ?h3 D ?E" using heap_ok_freed [OF h2(2)] p by blast
      obtain h' where h': "DECREF_all rest ?h3 = Some h'" "heap_ok h' D E" "shrunk ?h3 h'"
        "total_rc h' + length rest \<le> total_rc ?h3" "dtor_balance h' D = dtor_balance ?h3 D"
        using less.hyps [OF _ ok3] freed_total [OF h2(2)] h2(4) total by auto
      have "shrunk h ?h1'" by (simp add: shrunk_def cells_only [OF cells1])
      moreover have "shrunk h2 ?h3" by (auto simp: shrunk_def)
      ultimately have "shrunk h h'" using h2(3) h'(3) by (blast intro: shrunk_trans)
      moreover have "dtor_balance h' D = dtor_balance h D"
        using h'(5) freed_balance [OF h2(2)] p h2(5) dying_balance [OF fin] c by simp
      ultimately show ?thesis
        using h' h2 freed_total [OF h2(2)] total good Cons c True by (simp add: DECREF_all_simps)
    qed
  qed
qed

lemma xmlrpc_DECREF_ok:
  assumes "heap_ok h D (add_mset p E)"
  shows "\<exists>h'. xmlrpc_DECREF p h = Some h' \<and> heap_ok h' D E \<and> shrunk h h' \<and>
              dtor_balance h' D = dtor_balance h D"
  using DECREF_all_ok [of h D E "[p]"] assms by (auto simp: xmlrpc_DECREF_def)

text \<open>The two functions of the code: a release that is not the last only counts, the last one destroys.\<close>

lemma xmlrpc_DECREF_destroyValue:
  "xmlrpc_DECREF p h =
     (case cells h p of None \<Rightarrow> None
      | Some c \<Rightarrow>
          if refcount c = 0 then None
          else if refcount c \<noteq> 1 then Some (set_refcount p (refcount c - 1) h)
          else destroyValue p (set_refcount p 0 h))"
proof (cases "cells h p")
  case None
  then show ?thesis unfolding xmlrpc_DECREF_def by (subst DECREF_all.simps) simp
next
  case (Some c)
  have at: "cells (set_refcount p 0 h) p = Some (c\<lparr>refcount := 0\<rparr>)"
    using Some by (simp add: set_refcount_def)
  have keep: "Option.bind m (\<lambda>h2. Some (set_cell p None h2)) = map_option (set_cell p None) m" for m :: "'a heap option"
    by (cases m) simp_all
  show ?thesis
    using Some at
    by (cases "body c")
      (auto simp: xmlrpc_DECREF_def DECREF_all_simps destroyValue_def xmlrpc_destroyArrayContents_def
        xmlrpc_destroyStruct_def keep destroyCptr_def)
qed

lemma DECREF_all_Cons:
  "DECREF_all (p # ps) h = Option.bind (xmlrpc_DECREF p h) (DECREF_all ps)"
proof (cases "cells h p")
  case None
  then show ?thesis unfolding xmlrpc_DECREF_def by (subst (1 2) DECREF_all.simps) simp
next
  case (Some c)
  then show ?thesis by (simp add: xmlrpc_DECREF_def DECREF_all_simps bind_assoc)
qed

lemma xmlrpc_INCREF_ok:
  assumes ok: "heap_ok h D E" and p: "p \<in> dom (cells h) - D" and room: "rc h p + 1 < 2 ^ 32"
  shows "xmlrpc_INCREF p h = Some (set_refcount p (rc h p + 1) h)"
    and "heap_ok (set_refcount p (rc h p + 1) h) D (add_mset p E)"
proof -
  let ?h = "set_refcount p (rc h p + 1) h"
  have rcp: "0 < rc h p" using heap_okD(5) [OF ok p] by blast
  then show "xmlrpc_INCREF p h = Some ?h"
    using p room by (auto simp: xmlrpc_INCREF_def rc_def)
  have same: "held ?h = held h" "body_ok ?h = body_ok h" by (rule same_bodies; simp)+
  have "rc ?h q = count (add_mset p E + held ?h D) q" for q
    using heap_okD(3) [OF ok, of q] p unfolding same by auto
  moreover have "rc ?h q = 0" if "q \<in> D" for q
    using heap_okD(6) [OF ok that] p that by auto
  moreover have "0 < rc ?h q \<and> body_ok ?h (the (body_at ?h q))" if "q \<in> dom (cells h) - D" for q
    using heap_okD(5) [OF ok that] unfolding same by auto
  ultimately show "heap_ok ?h D (add_mset p E)"
    using heap_okD(1,2,4) [OF ok] by (intro heap_okI) simp_all
qed

subsection \<open>Changing a container\<close>

lemma set_body_refcount: "set_body p b (set_refcount q n h) = set_refcount q n (set_body p b h)"
  by (cases "p = q"; cases "cells h p"; cases "cells h q")
    (auto simp: set_body_def set_refcount_def set_cell_def fun_eq_iff)

lemma set_body_twice: "set_body p b (set_body p b' h) = set_body p b h"
  by (cases "cells h p") (auto simp: set_body_def set_cell_def fun_eq_iff)

lemma INCREF_set_body: "xmlrpc_INCREF q (set_body p b h) = map_option (set_body p b) (xmlrpc_INCREF q h)"
  by (cases "q = p"; cases "cells h q")
    (auto simp: xmlrpc_INCREF_def set_body_refcount, simp_all add: set_body_def)

fun is_container :: "'d body \<Rightarrow> bool" where
  "is_container (ArrayBody _) = True"
| "is_container (StructBody _) = True"
| "is_container _ = False"

lemma heap_ok_set_body:
  assumes ok: "heap_ok h {} E1" and old: "body_at h p = Some old" "is_container old" "is_container new"
    and new: "body_ok h new" and refs: "E1 + mset (body_refs old) = E2 + mset (body_refs new)"
  shows "heap_ok (set_body p new h) {} E2"
proof -
  let ?h = "set_body p new h"
  have p: "p \<in> dom (cells h)" using old(1) live_iff_body by fastforce
  have not_key: "mkey m \<noteq> p" if "member_ok h m" for m
    using that old(1,2) by (auto simp: member_ok_def)
  have key: "member_ok ?h m = member_ok h m \<and> key_string ?h (mkey m) = key_string h (mkey m)"
    if "member_ok h m" for m
    using not_key [OF that] by (simp add: member_ok_def key_string_body_at)
  have body: "body_ok ?h b" if b: "body_ok h b" for b
  proof (cases b)
    case (StructBody mb)
    then have "map (\<lambda>m. key_string ?h (mkey m)) (block_data SIZEOF_STRUCT_MEMBER mb)
        = map (\<lambda>m. key_string h (mkey m)) (block_data SIZEOF_STRUCT_MEMBER mb)"
      using key b by simp
    then have "distinct (map (\<lambda>m. key_string ?h (mkey m)) (block_data SIZEOF_STRUCT_MEMBER mb))"
      using b StructBody by (simp only: body_ok.simps)
    with StructBody b key show ?thesis by simp
  qed (use b in simp_all)
  have fin: "finite (dom (cells h))" by (rule heap_okD(1) [OF ok])
  have "held ?h {p} = held h {p}"
    unfolding held_def by (rule sum.cong) (auto simp: refs_at_def)
  moreover have "held h {} = mset (body_refs old) + held h {p}"
    using held_insert [OF fin, of p "{}"] p old(1) by (simp add: refs_at_def)
  moreover have "held ?h {} = mset (body_refs new) + held ?h {p}"
    using held_insert [of ?h p "{}"] fin p by (simp add: refs_at_def)
  ultimately have "E2 + held ?h {} = E1 + held h {}"
    using refs by (metis union_assoc)
  then have "rc ?h q = count (E2 + held ?h {}) q" for q
    using heap_okD(3) [OF ok, of q] by simp
  moreover have "0 < rc ?h q \<and> body_ok ?h (the (body_at ?h q))" if "q \<in> dom (cells h)" for q
    using heap_okD(5) [OF ok, of q] that body new by auto
  ultimately show ?thesis
    using heap_okD(1,4) [OF ok] by (intro heap_okI) simp_all
qed

section \<open>What a cell stands for\<close>

definition refs_rel :: "'d heap \<Rightarrow> (nat \<times> nat) set" where
  "refs_rel h = {(q, p). q \<in># refs_at h p}"

inductive repr :: "'d heap \<Rightarrow> nat \<Rightarrow> 'd xvalue \<Rightarrow> bool" for h where
  repr_scalar: "body_at h p = Some (Scalar v) \<Longrightarrow> value_type v \<notin> {TYPE_ARRAY, TYPE_STRUCT, TYPE_C_PTR}
                \<Longrightarrow> repr h p v"
| repr_pointer: "body_at h p = Some (Pointer obj d) \<Longrightarrow> repr h p (XCptr obj)"
| repr_array: "body_at h p = Some (ArrayBody b) \<Longrightarrow> list_all2 (repr h) (block_data SIZEOF_VALUE_PTR b) vs
                \<Longrightarrow> repr h p (XArray vs)"
| repr_struct: "body_at h p = Some (StructBody b) \<Longrightarrow>
                list_all2 (\<lambda>m kv. key_string h (mkey m) = Some (fst kv) \<and> repr h (mvalue m) (snd kv))
                  (block_data SIZEOF_STRUCT_MEMBER b) kvs
                \<Longrightarrow> repr h p (XStruct kvs)"

inductive_cases repr_arrayE: "repr h p (XArray vs)"
inductive_cases repr_structE: "repr h p (XStruct kvs)"

lemma repr_array_body:
  assumes "repr h p (XArray vs)"
  obtains b where "body_at h p = Some (ArrayBody b)" "list_all2 (repr h) (block_data SIZEOF_VALUE_PTR b) vs"
  using assms by (rule repr_arrayE) auto

lemma refs_array:
  "body_at h p = Some (ArrayBody b) \<Longrightarrow> q \<in> set (block_data SIZEOF_VALUE_PTR b) \<Longrightarrow> (q, p) \<in> refs_rel h"
  by (simp add: refs_rel_def refs_at_def)

lemma refs_struct:
  "body_at h p = Some (StructBody b) \<Longrightarrow> m \<in> set (block_data SIZEOF_STRUCT_MEMBER b) \<Longrightarrow>
   (mkey m, p) \<in> refs_rel h \<and> (mvalue m, p) \<in> refs_rel h"
  by (force simp: refs_rel_def refs_at_def member_refs_def)

text \<open>A value depends only on the cells it reaches.\<close>

lemma repr_reached:
  assumes "repr h p t" "\<And>q. (q, p) \<in> (refs_rel h)\<^sup>* \<Longrightarrow> body_at h' q = body_at h q"
  shows "repr h' p t"
  using assms
proof (induction rule: repr.induct)
  case (repr_scalar p v)
  then show ?case by (auto intro: repr.repr_scalar)
next
  case (repr_pointer p obj d)
  then show ?case by (auto intro: repr.repr_pointer)
next
  case (repr_array p b vs)
  have "list_all2 (repr h') (block_data SIZEOF_VALUE_PTR b) vs"
  proof (rule list.rel_mono_strong [OF repr_array.IH])
    fix q t
    assume q: "q \<in> set (block_data SIZEOF_VALUE_PTR b)"
      and t: "repr h q t \<and> ((\<forall>x. (x, q) \<in> (refs_rel h)\<^sup>* \<longrightarrow> body_at h' x = body_at h x) \<longrightarrow> repr h' q t)"
    have "(x, p) \<in> (refs_rel h)\<^sup>*" if "(x, q) \<in> (refs_rel h)\<^sup>*" for x
      using that refs_array [OF repr_array.hyps(1) q] by simp
    then show "repr h' q t" using t repr_array.prems by blast
  qed
  then show ?case using repr_array.hyps(1) repr_array.prems by (auto intro: repr.repr_array)
next
  case (repr_struct p b kvs)
  have "list_all2 (\<lambda>m kv. key_string h' (mkey m) = Some (fst kv) \<and> repr h' (mvalue m) (snd kv))
      (block_data SIZEOF_STRUCT_MEMBER b) kvs"
  proof (rule list.rel_mono_strong [OF repr_struct.IH])
    fix m kv
    assume m: "m \<in> set (block_data SIZEOF_STRUCT_MEMBER b)"
      and t: "key_string h (mkey m) = Some (fst kv) \<and> repr h (mvalue m) (snd kv) \<and>
        ((\<forall>x. (x, mvalue m) \<in> (refs_rel h)\<^sup>* \<longrightarrow> body_at h' x = body_at h x) \<longrightarrow> repr h' (mvalue m) (snd kv))"
    note refs = refs_struct [OF repr_struct.hyps(1) m]
    have "(x, p) \<in> (refs_rel h)\<^sup>*" if "(x, mvalue m) \<in> (refs_rel h)\<^sup>*" for x
      using that refs by (blast intro: rtrancl_into_rtrancl)
    moreover have "body_at h' (mkey m) = body_at h (mkey m)" using refs repr_struct.prems by blast
    ultimately show "key_string h' (mkey m) = Some (fst kv) \<and> repr h' (mvalue m) (snd kv)"
      using t repr_struct.prems by (simp add: key_string_body_at)
  qed
  then show ?case using repr_struct.hyps(1) repr_struct.prems by (auto intro: repr.repr_struct)
qed

text \<open>A cell that stands for a value is not part of itself.\<close>

lemma scalar_acc: "body_at h p = Some (Scalar v) \<Longrightarrow> p \<in> Wellfounded.acc (refs_rel h)"
  by (rule accI) (simp add: refs_rel_def refs_at_def)

lemma repr_acc:
  assumes "heap_ok h {} E" "repr h p t"
  shows "p \<in> Wellfounded.acc (refs_rel h)"
  using assms(2)
proof (induction rule: repr.induct)
  case (repr_pointer p obj d)
  then show ?case by - (rule accI, simp add: refs_rel_def refs_at_def)
next
  case (repr_array p b vs)
  show ?case
  proof (rule accI)
    fix q assume "(q, p) \<in> refs_rel h"
    then have "q \<in> set (block_data SIZEOF_VALUE_PTR b)"
      using repr_array.hyps(1) by (simp add: refs_rel_def refs_at_def)
    then show "q \<in> Wellfounded.acc (refs_rel h)"
      using repr_array.IH by (auto simp: list_all2_conv_all_nth in_set_conv_nth)
  qed
next
  case (repr_struct p b kvs)
  have "body_ok h (StructBody b)"
    using heap_okD(5) [OF assms(1), of p] repr_struct.hyps(1) live_iff_body [of p h] by simp
  then have mem: "member_ok h m" if "m \<in> set (block_data SIZEOF_STRUCT_MEMBER b)" for m
    using that by simp
  show ?case
  proof (rule accI)
    fix q assume "(q, p) \<in> refs_rel h"
    then obtain m where m: "m \<in> set (block_data SIZEOF_STRUCT_MEMBER b)" "q = mkey m \<or> q = mvalue m"
      using repr_struct.hyps(1) by (auto simp: refs_rel_def refs_at_def member_refs_def)
    then show "q \<in> Wellfounded.acc (refs_rel h)"
      using repr_struct.IH mem scalar_acc
      by (fastforce simp: list_all2_conv_all_nth in_set_conv_nth member_ok_def)
  qed
qed (rule scalar_acc)

lemma acc_not_self: "p \<in> Wellfounded.acc R \<Longrightarrow> (p, p) \<notin> R\<^sup>+"
proof (induction rule: acc.induct)
  case (accI x)
  show ?case
  proof
    assume "(x, x) \<in> R\<^sup>+"
    then obtain y where y: "(y, x) \<in> R" "(x, y) \<in> R\<^sup>*" by (meson tranclD2)
    then have "(y, y) \<in> R\<^sup>+" by (meson rtrancl_into_trancl2)
    then show False using accI y(1) by blast
  qed
qed

lemma child_not_reaching:
  assumes "heap_ok h {} E" "repr h p t" "(q, p) \<in> refs_rel h"
  shows "(p, q) \<notin> (refs_rel h)\<^sup>*"
  using acc_not_self [OF repr_acc [OF assms(1,2)]] assms(3) by (meson rtrancl_into_trancl1)

subsection \<open>Arrays\<close>

lemma array_append_step:
  assumes ok: "heap_ok h {} E" and a: "body_at h a = Some (ArrayBody b)"
    and v: "v \<in> dom (cells h)" "rc h v + 1 < 2 ^ 32"
  shows "mem_block_append mok SIZEOF_VALUE_PTR b [v] = Inl f \<Longrightarrow>
           xmlrpc_array_append_item mok a v h = Some (Inl f, h)"
    and "mem_block_append mok SIZEOF_VALUE_PTR b [v] = Inr b' \<Longrightarrow>
           xmlrpc_array_append_item mok a v h
             = Some (Inr (), set_body a (ArrayBody b') (set_refcount v (rc h v + 1) h)) \<and>
           heap_ok (set_body a (ArrayBody b') (set_refcount v (rc h v + 1) h)) {} E \<and>
           block_data SIZEOF_VALUE_PTR b' = block_data SIZEOF_VALUE_PTR b @ [v]"
proof -
  obtain c where c: "cells h a = Some c" "body c = ArrayBody b" using a by (auto simp: body_at_def)
  let ?size = "mem_block_size SIZEOF_VALUE_PTR b"
  have app: "mem_block_append mok SIZEOF_VALUE_PTR b [v] =
      bindE (mem_block_resize mok SIZEOF_VALUE_PTR b (?size + 1))
        (\<lambda>b1. Inr (b1\<lparr>blk_cells := Some (write_cells ?size [v] (mem_block_contents b1))\<rparr>))"
    by (simp add: mem_block_append_def mem_block_size_def Let_def)
  have op: "xmlrpc_array_append_item mok a v h =
      hbind (hresult (mem_block_resize mok SIZEOF_VALUE_PTR b (?size + 1)))
        (\<lambda>b'. hstep (\<lambda>h. map_option
           (set_body a (ArrayBody (b'\<lparr>blk_cells := Some (write_cells ?size [v] (mem_block_contents b'))\<rparr>)))
           (xmlrpc_INCREF v (set_body a (ArrayBody b') h)))) h"
    using c by (simp add: xmlrpc_array_append_item_def hbind_def get_body_def Let_def)
  show "mem_block_append mok SIZEOF_VALUE_PTR b [v] = Inl f \<Longrightarrow>
      xmlrpc_array_append_item mok a v h = Some (Inl f, h)"
    unfolding app op by (cases "mem_block_resize mok SIZEOF_VALUE_PTR b (?size + 1)")
      (simp_all add: hbind_def hresult_def)
  assume app': "mem_block_append mok SIZEOF_VALUE_PTR b [v] = Inr b'"
  let ?h1 = "set_refcount v (rc h v + 1) h"
  have inc: "xmlrpc_INCREF v h = Some ?h1" "heap_ok ?h1 {} (add_mset v E)"
    using xmlrpc_INCREF_ok [OF ok, of v] v by simp_all
  obtain b1 where b1: "mem_block_resize mok SIZEOF_VALUE_PTR b (?size + 1) = Inr b1"
    "b' = b1\<lparr>blk_cells := Some (write_cells ?size [v] (mem_block_contents b1))\<rparr>"
    using app' unfolding app by (auto simp: bindE_Inr_conv)
  have ready: "block_ready SIZEOF_VALUE_PTR b"
    using heap_okD(5) [OF ok, of a] a live_iff_body [of a h] by simp
  note data = mem_block_append_data [OF ready app']
  have "heap_ok (set_body a (ArrayBody b') ?h1) {} E"
    by (rule heap_ok_set_body [OF inc(2), of _ "ArrayBody b"]) (use a data in simp_all)
  moreover have "xmlrpc_array_append_item mok a v h = Some (Inr (), set_body a (ArrayBody b') ?h1)"
    unfolding op using b1 inc(1) by (simp add: hbind_def hresult_def hstep_def INCREF_set_body set_body_twice)
  ultimately show "xmlrpc_array_append_item mok a v h = Some (Inr (), set_body a (ArrayBody b') ?h1) \<and>
      heap_ok (set_body a (ArrayBody b') ?h1) {} E \<and>
      block_data SIZEOF_VALUE_PTR b' = block_data SIZEOF_VALUE_PTR b @ [v]"
    using data(2) by simp
qed

subsection \<open>Structs as maps\<close>

definition member_map :: "'d heap \<Rightarrow> struct_member list \<Rightarrow> string \<Rightarrow> nat option" where
  "member_map h ms key =
     map_option mvalue (find (\<lambda>m. key_string h (mkey m) = Some key) ms)"

fun struct_members :: "'d body \<Rightarrow> struct_member list" where
  "struct_members (StructBody b) = block_data SIZEOF_STRUCT_MEMBER b"
| "struct_members _ = []"

definition struct_map :: "'d heap \<Rightarrow> nat \<Rightarrow> string \<Rightarrow> nat option" where
  "struct_map h p =
     (case body_at h p of None \<Rightarrow> (\<lambda>key. None) | Some b \<Rightarrow> member_map h (struct_members b))"

lemma member_ok_key:
  assumes "member_ok h m"
  shows "\<exists>s. key_string h (mkey m) = Some s \<and> keyHash m = hashStructKey s"
  using assms by (auto simp: member_ok_def key_string_body_at string_block_def)

text \<open>The hash decides nothing: the search finds the first member with the key.\<close>

lemma find_from_spec:
  assumes "\<forall>m \<in> set ms. member_ok h m"
  shows "find_from h (hashStructKey key) key i ms =
    Some (if \<exists>m \<in> set ms. key_string h (mkey m) = Some key
          then Some (i + length (takeWhile (\<lambda>m. key_string h (mkey m) \<noteq> Some key) ms)) else None)"
  using assms
proof (induction ms arbitrary: i)
  case (Cons m ms)
  obtain s where "key_string h (mkey m) = Some s" "keyHash m = hashStructKey s"
    using member_ok_key [of h m] Cons.prems by auto
  with Cons show ?case by (cases "s = key") auto
qed simp

lemma length_takeWhile_nth:
  assumes "\<exists>x \<in> set xs. P x"
  shows "length (takeWhile (\<lambda>x. \<not> P x) xs) < length xs"
    and "P (xs ! length (takeWhile (\<lambda>x. \<not> P x) xs))"
    and "find P xs = Some (xs ! length (takeWhile (\<lambda>x. \<not> P x) xs))"
  using assms by (induction xs) auto

lemma findMember_spec:
  assumes "body_ok h (StructBody b)"
  shows "findMember b key h =
    Some (Inr (if member_map h (block_data SIZEOF_STRUCT_MEMBER b) key = None then None
      else Some (length (takeWhile (\<lambda>m. key_string h (mkey m) \<noteq> Some key)
                          (block_data SIZEOF_STRUCT_MEMBER b)))), h)"
proof -
  have "member_map h ms key = None \<longleftrightarrow> \<not> (\<exists>m \<in> set ms. key_string h (mkey m) = Some key)" for ms
    by (auto simp: member_map_def find_None_iff)
  then show ?thesis
    using assms find_from_spec [of "block_data SIZEOF_STRUCT_MEMBER b" h key 0]
    by (auto simp: findMember_def)
qed

lemma member_map_append:
  "member_map h (ms @ [m]) key =
     (case member_map h ms key of
        None \<Rightarrow> if key_string h (mkey m) = Some key then Some (mvalue m) else None
      | Some v \<Rightarrow> Some v)"
  by (induction ms) (auto simp: member_map_def)

lemma member_map_cong:
  "(\<And>m. m \<in> set ms \<Longrightarrow> key_string h' (mkey m) = key_string h (mkey m)) \<Longrightarrow>
   member_map h' ms = member_map h ms"
  by (induction ms) (auto simp: member_map_def fun_eq_iff)

lemma member_map_update:
  assumes "distinct (map (\<lambda>m. key_string h (mkey m)) ms)" "i < length ms"
    and "key_string h (mkey (ms ! i)) = Some key"
  shows "member_map h (ms[i := (ms ! i)\<lparr>mvalue := v\<rparr>]) = (member_map h ms)(key \<mapsto> v)"
  using assms
proof (induction ms arbitrary: i)
  case (Cons m ms)
  show ?case
  proof (cases i)
    case 0
    with Cons.prems show ?thesis by (auto simp: member_map_def fun_eq_iff)
  next
    case (Suc j)
    then have "key_string h (mkey m) \<noteq> Some key"
      using Cons.prems by (auto simp: image_iff) (metis nth_mem)
    moreover have "member_map h (ms[j := (ms ! j)\<lparr>mvalue := v\<rparr>]) = (member_map h ms)(key \<mapsto> v)"
      using Cons.IH [of j] Cons.prems Suc by (simp add: fun_eq_iff)
    ultimately show ?thesis
      using Suc by (auto simp: member_map_def fun_eq_iff)
  qed
qed simp

lemma block_update:
  assumes "block_ready u b" "i < length (block_data u b)"
  shows "block_ready u (b\<lparr>blk_cells := Some (write_cells i [x] (mem_block_contents b))\<rparr>)"
    and "block_data u (b\<lparr>blk_cells := Some (write_cells i [x] (mem_block_contents b))\<rparr>) = (block_data u b)[i := x]"
proof -
  let ?n = "blk_size b div u" and ?cells = "mem_block_contents b"
  let ?b = "b\<lparr>blk_cells := Some (write_cells i [x] ?cells)\<rparr>"
  have wf: "mem_block_wf u b" using assms(1) by (simp add: block_ready_def)
  have i: "i < ?n" using assms(2) length_block_data [OF wf] by simp
  have len: "?n \<le> length ?cells"
    unfolding length_mem_block_contents [OF wf] using wf by (simp add: mem_block_wf_def div_le_mono)
  have upd: "write_cells i [x] ?cells = ?cells[i := Some x]"
    using i len by (simp add: write_cells_def upd_conv_take_nth_drop)
  have cells: "block_cells u ?b = (block_cells u b)[i := Some x]"
    unfolding block_cells_def upd by (simp add: mem_block_contents_def take_update_swap)
  then show "block_data u ?b = (block_data u b)[i := x]"
    by (simp add: block_data_def map_update)
  have "mem_block_wf u ?b"
    using wf unfolding upd by (auto simp: mem_block_wf_def mem_block_contents_def)
  moreover have "None \<notin> set (block_cells u ?b)"
    using assms(1) set_update_subset_insert [of "block_cells u b" i "Some x"]
    unfolding cells block_ready_def by auto
  ultimately show "block_ready u ?b" by (simp add: block_ready_def)
qed

lemma member_refs_update:
  assumes "i < length ms"
  shows "mset (concat (map member_refs (ms[i := m]))) + mset (member_refs (ms ! i))
       = mset (concat (map member_refs ms)) + mset (member_refs m)"
proof -
  have "ms = take i ms @ ms ! i # drop (Suc i) ms" using assms by (rule id_take_nth_drop)
  then have "mset (concat (map member_refs ms))
      = mset (concat (map member_refs (take i ms @ ms ! i # drop (Suc i) ms)))" by simp
  then show ?thesis
    using assms by (simp add: upd_conv_take_nth_drop ac_simps)
qed

lemma shrunk_struct_map:
  assumes "heap_ok h' D E" "shrunk h h'" "s \<in> dom (cells h') - D"
  shows "struct_map h' s = struct_map h s"
proof (cases "body_at h' s")
  case None
  with assms(3) show ?thesis by (simp add: live_iff_body)
next
  case (Some b)
  have same: "body_at h p = body_at h' p" if "p \<in> dom (cells h')" for p
    using assms(2) that by (simp add: shrunk_def)
  have "member_map h' (struct_members b) = member_map h (struct_members b)"
  proof (rule member_map_cong)
    fix m assume m: "m \<in> set (struct_members b)"
    have "body_ok h' b" using heap_okD(5) [OF assms(1,3)] Some by simp
    with m have "member_ok h' m" by (cases b) simp_all
    then have "mkey m \<in> dom (cells h')" by (auto simp: member_ok_def live_iff_body)
    then show "key_string h' (mkey m) = key_string h (mkey m)"
      using same by (simp add: key_string_body_at)
  qed
  then show ?thesis using Some same [of s] assms(3) by (simp add: struct_map_def)
qed

lemma changeMemberValue_step:
  assumes ok: "heap_ok h {} E" and s: "body_at h s = Some (StructBody b)" "s \<in># E"
    and i: "i < length (block_data SIZEOF_STRUCT_MEMBER b)"
    and v: "v \<in> dom (cells h)" "rc h v + 1 < 2 ^ 32"
  obtains b' where "changeMemberValue s b i v h =
      xmlrpc_DECREF (mvalue (block_data SIZEOF_STRUCT_MEMBER b ! i))
        (set_body s (StructBody b') (set_refcount v (rc h v + 1) h))"
    and "heap_ok (set_body s (StructBody b') (set_refcount v (rc h v + 1) h)) {}
           (add_mset (mvalue (block_data SIZEOF_STRUCT_MEMBER b ! i)) E)"
    and "block_ready SIZEOF_STRUCT_MEMBER b'" "blk_allocated b' = blk_allocated b"
    and "block_data SIZEOF_STRUCT_MEMBER b' = (block_data SIZEOF_STRUCT_MEMBER b)
           [i := (block_data SIZEOF_STRUCT_MEMBER b ! i)\<lparr>mvalue := v\<rparr>]"
    and "\<forall>m \<in> set (block_data SIZEOF_STRUCT_MEMBER b'). member_ok h m"
proof -
  let ?ms = "block_data SIZEOF_STRUCT_MEMBER b"
  let ?new = "(?ms ! i)\<lparr>mvalue := v\<rparr>"
  define b' where "b' = b\<lparr>blk_cells := Some (write_cells i [?new] (mem_block_contents b))\<rparr>"
  let ?h1 = "set_refcount v (rc h v + 1) h"
  let ?h2 = "set_body s (StructBody b') ?h1"
  have bok: "body_ok h (StructBody b)" using heap_okD(5) [OF ok owned_live(1) [OF ok s(2)]] s(1) by simp
  have data: "block_ready SIZEOF_STRUCT_MEMBER b'" "block_data SIZEOF_STRUCT_MEMBER b' = ?ms[i := ?new]"
    using bok block_update [OF _ i(1)] by (simp_all add: b'_def)
  have inc: "xmlrpc_INCREF v h = Some ?h1" "heap_ok ?h1 {} (add_mset v E)"
    using xmlrpc_INCREF_ok [OF ok, of v] v by simp_all
  have keys: "map (\<lambda>m. key_string h (mkey m)) (?ms[i := ?new]) = map (\<lambda>m. key_string h (mkey m)) ?ms"
    using i(1) by (simp add: map_update list_update_same_conv)
  have members: "\<forall>m \<in> set (?ms[i := ?new]). member_ok h m"
  proof -
    have "member_ok h ?new" using bok i(1) by (simp add: member_ok_def)
    then show ?thesis using bok set_update_subset_insert [of ?ms i ?new] by auto
  qed
  moreover have "distinct (map (\<lambda>m. key_string h (mkey m)) (?ms[i := ?new]))"
    unfolding keys using bok by simp
  ultimately have "body_ok h (StructBody b')" using data by simp
  moreover have same: "body_ok ?h1 = body_ok h" by (rule same_bodies; simp)
  ultimately have "body_ok ?h1 (StructBody b')" by simp
  moreover have "mset (concat (map member_refs ?ms)) + {#v#}
      = mset (concat (map member_refs (?ms[i := ?new]))) + {#mvalue (?ms ! i)#}"
    using member_refs_update [OF i(1), of ?new] by (simp add: member_refs_def)
  ultimately have ok2: "heap_ok ?h2 {} (add_mset (mvalue (?ms ! i)) E)"
    using s(1) data(2) by (intro heap_ok_set_body [OF inc(2), of s "StructBody b"]) (simp_all add: ac_simps)
  have step: "changeMemberValue s b i v h = xmlrpc_DECREF (mvalue (?ms ! i)) ?h2"
    unfolding changeMemberValue_def Let_def b'_def [symmetric] INCREF_set_body using inc(1) by simp
  show ?thesis
    by (rule that [of b']) (use step ok2 data members in \<open>simp_all add: b'_def\<close>)
qed

lemma changeMemberValue_ok:
  assumes ok: "heap_ok h {} E" and s: "body_at h s = Some (StructBody b)" "s \<in># E"
    and i: "i < length (block_data SIZEOF_STRUCT_MEMBER b)"
      "key_string h (mkey (block_data SIZEOF_STRUCT_MEMBER b ! i)) = Some key"
    and v: "v \<in> dom (cells h)" "rc h v + 1 < 2 ^ 32"
  shows "\<exists>h'. changeMemberValue s b i v h = Some h' \<and> heap_ok h' {} E \<and> fresh h' = fresh h \<and>
    struct_map h' s = (struct_map h s)(key \<mapsto> v) \<and> dom (cells h') \<subseteq> dom (cells h) \<and>
    (\<forall>p \<in> dom (cells h') - {s}. body_at h' p = body_at h p)"
proof -
  let ?ms = "block_data SIZEOF_STRUCT_MEMBER b"
  let ?new = "(?ms ! i)\<lparr>mvalue := v\<rparr>"
  obtain b' where step: "changeMemberValue s b i v h =
      xmlrpc_DECREF (mvalue (?ms ! i)) (set_body s (StructBody b') (set_refcount v (rc h v + 1) h))"
    and ok2: "heap_ok (set_body s (StructBody b') (set_refcount v (rc h v + 1) h)) {}
      (add_mset (mvalue (?ms ! i)) E)"
    and data: "block_data SIZEOF_STRUCT_MEMBER b' = ?ms[i := ?new]"
    and members: "\<forall>m \<in> set (block_data SIZEOF_STRUCT_MEMBER b'). member_ok h m"
    by (rule changeMemberValue_step [OF ok s i(1) v])
  let ?h2 = "set_body s (StructBody b') (set_refcount v (rc h v + 1) h)"
  have live: "s \<in> dom (cells h) - {}" using owned_live(1) [OF ok s(2)] .
  have bok: "body_ok h (StructBody b)" using heap_okD(5) [OF ok live] s(1) by simp
  obtain h' where h': "xmlrpc_DECREF (mvalue (?ms ! i)) ?h2 = Some h'" "heap_ok h' {} E" "shrunk ?h2 h'"
    using xmlrpc_DECREF_ok [OF ok2] by blast
  have "struct_map h' s = struct_map ?h2 s"
    using shrunk_struct_map [OF h'(2,3)] owned_live(1) [OF h'(2) s(2)] by simp
  moreover have "struct_map ?h2 s = (struct_map h s)(key \<mapsto> v)"
  proof -
    have "member_map ?h2 (?ms[i := ?new]) = member_map h (?ms[i := ?new])"
    proof (rule member_map_cong)
      fix m assume "m \<in> set (?ms[i := ?new])"
      then have "member_ok h m" using members data by simp
      then have "mkey m \<noteq> s" using s(1) by (auto simp: member_ok_def)
      then show "key_string ?h2 (mkey m) = key_string h (mkey m)" by (simp add: key_string_body_at)
    qed
    also have "\<dots> = (member_map h ?ms)(key \<mapsto> v)"
      using bok by (intro member_map_update i) simp
    finally show ?thesis using s(1) live data by (simp add: struct_map_def)
  qed
  ultimately show ?thesis using step h' by (auto simp: shrunk_def)
qed

lemma addNewMember_step:
  fixes h :: "'d heap"
  assumes ok: "heap_ok h {} E" and s: "body_at h s = Some (StructBody b)"
    and k: "body_at h k = Some (Scalar (XString key))" and new: "struct_map h s key = None"
    and v: "v \<in> dom (cells h)" and room: "rc h k + 2 < 2 ^ 32" "rc h v + 2 < 2 ^ 32"
  defines "m \<equiv> \<lparr>keyHash = hashStructKey key, mkey = k, mvalue = v\<rparr>"
    and "h2 \<equiv> (let h1 = set_refcount k (rc h k + 1) h in set_refcount v (rc h1 v + 1) h1)"
  shows "member_ok h m"
    and "mem_block_append mok SIZEOF_STRUCT_MEMBER b [m] = Inl f \<Longrightarrow>
           addNewMember mok s b k key v h = Some (Inl f, h)"
    and "mem_block_append mok SIZEOF_STRUCT_MEMBER b [m] = Inr b' \<Longrightarrow>
           addNewMember mok s b k key v h = Some (Inr (), set_body s (StructBody b') h2) \<and>
           heap_ok (set_body s (StructBody b') h2) {} E"
proof -
  let ?ms = "block_data SIZEOF_STRUCT_MEMBER b"
  have op: "addNewMember mok s b k key v h =
    (case mem_block_append mok SIZEOF_STRUCT_MEMBER b [m] of
       Inl f \<Rightarrow> Some (Inl f, h)
     | Inr b' \<Rightarrow> hstep (\<lambda>h. Option.bind (xmlrpc_INCREF k (set_body s (StructBody b') h)) (xmlrpc_INCREF v)) h)"
    by (simp add: addNewMember_def hbind_def hresult_def m_def split: sum.split)
  then show "mem_block_append mok SIZEOF_STRUCT_MEMBER b [m] = Inl f \<Longrightarrow>
      addNewMember mok s b k key v h = Some (Inl f, h)" by simp
  have key: "key_string h k = Some key" "member_ok h m"
    using k by (simp_all add: key_string_body_at member_ok_def string_block_def m_def)
  then show "member_ok h m" by simp
  assume app: "mem_block_append mok SIZEOF_STRUCT_MEMBER b [m] = Inr b'"
  have live: "s \<in> dom (cells h) - {}" "k \<in> dom (cells h) - {}"
    using s k by (simp_all add: live_iff_body)
  have bok: "body_ok h (StructBody b)" using heap_okD(5) [OF ok live(1)] s by simp
  have data: "block_ready SIZEOF_STRUCT_MEMBER b'" "block_data SIZEOF_STRUCT_MEMBER b' = ?ms @ [m]"
    using bok by (auto intro: mem_block_append_data [OF _ app])
  let ?h1 = "set_refcount k (rc h k + 1) h"
  have inc1: "xmlrpc_INCREF k h = Some ?h1" "heap_ok ?h1 {} (add_mset k E)"
    using xmlrpc_INCREF_ok [OF ok live(2)] room by simp_all
  have h2: "h2 = set_refcount v (rc ?h1 v + 1) ?h1" by (simp add: h2_def Let_def)
  have inc2: "xmlrpc_INCREF v ?h1 = Some h2" "heap_ok h2 {} (add_mset v (add_mset k E))"
    using xmlrpc_INCREF_ok [OF inc1(2), of v] v room unfolding h2 by auto
  have "Some key \<notin> set (map (\<lambda>m. key_string h (mkey m)) ?ms)"
    using new s by (auto simp: struct_map_def member_map_def find_None_iff)
  then have "distinct (map (\<lambda>m. key_string h (mkey m)) (?ms @ [m]))"
    using bok key(1) by (auto simp: m_def)
  then have "body_ok h (StructBody b')" using bok data key(2) by simp
  moreover have same: "body_ok h2 = body_ok h" unfolding h2 by (rule same_bodies; simp)
  ultimately have "body_ok h2 (StructBody b')" by simp
  moreover have "body_at h2 s = Some (StructBody b)" using s by (simp add: h2)
  ultimately have "heap_ok (set_body s (StructBody b') h2) {} E"
    by (intro heap_ok_set_body [OF inc2(2), of s "StructBody b"])
      (use s data(2) in \<open>simp_all add: member_refs_def m_def\<close>)
  then show "addNewMember mok s b k key v h = Some (Inr (), set_body s (StructBody b') h2) \<and>
      heap_ok (set_body s (StructBody b') h2) {} E"
    unfolding op app by (simp add: hstep_def INCREF_set_body inc1(1) inc2(1) [simplified])
qed

lemma addNewMember_ok:
  assumes ok: "heap_ok h {} E" and s: "body_at h s = Some (StructBody b)"
    and k: "body_at h k = Some (Scalar (XString key))" and new: "struct_map h s key = None"
    and v: "v \<in> dom (cells h)" and room: "rc h k + 2 < 2 ^ 32" "rc h v + 2 < 2 ^ 32"
  shows "\<exists>r h'. addNewMember mok s b k key v h = Some (r, h') \<and> heap_ok h' {} E \<and> fresh h' = fresh h \<and>
      dom (cells h') = dom (cells h) \<and> (\<forall>p \<in> dom (cells h') - {s}. body_at h' p = body_at h p) \<and>
      (case r of Inl f \<Rightarrow> h' = h | Inr _ \<Rightarrow> struct_map h' s = (struct_map h s)(key \<mapsto> v))"
proof -
  let ?m = "\<lparr>keyHash = hashStructKey key, mkey = k, mvalue = v\<rparr>"
  let ?ms = "block_data SIZEOF_STRUCT_MEMBER b"
  note step = addNewMember_step [OF ok s k new v room]
  show ?thesis
  proof (cases "mem_block_append mok SIZEOF_STRUCT_MEMBER b [?m]")
    case (Inl f)
    with step(2) [OF Inl] ok show ?thesis by simp
  next
    case (Inr b')
    define h2 where "h2 = (let h1 = set_refcount k (rc h k + 1) h in set_refcount v (rc h1 v + 1) h1)"
    let ?h3 = "set_body s (StructBody b') h2"
    note at = step(3) [OF Inr, folded h2_def]
    have h2: "body_at h2 = body_at h" "dom (cells h2) = dom (cells h)" "fresh h2 = fresh h"
      by (simp_all add: h2_def Let_def fun_eq_iff)
    have live: "s \<in> dom (cells h)" using s by (simp add: live_iff_body)
    have bok: "body_ok h (StructBody b)" using heap_okD(5) [OF ok, of s] live s by simp
    have data: "block_data SIZEOF_STRUCT_MEMBER b' = ?ms @ [?m]"
      using bok by (auto intro: mem_block_append_data [OF _ Inr])
    have "member_map ?h3 (?ms @ [?m]) = member_map h (?ms @ [?m])"
    proof (rule member_map_cong)
      fix m assume "m \<in> set (?ms @ [?m])"
      then have "member_ok h m" using bok step(1) by auto
      then have "mkey m \<noteq> s" using s by (auto simp: member_ok_def)
      then show "key_string ?h3 (mkey m) = key_string h (mkey m)" by (simp add: key_string_body_at h2)
    qed
    also have "\<dots> = (member_map h ?ms)(key \<mapsto> v)"
      using new s k by (auto simp: fun_eq_iff member_map_append struct_map_def key_string_body_at string_block_def
          split: option.split)
    finally have "struct_map ?h3 s = (struct_map h s)(key \<mapsto> v)"
      using s live data by (simp add: struct_map_def h2)
    with at show ?thesis by (simp add: h2)
  qed
qed

lemma struct_set_value_v_op:
  fixes h :: "'d heap"
  assumes ok: "heap_ok h {} E" and s: "body_at h s = Some (StructBody b)" "s \<in># E"
    and k: "body_at h k = Some (Scalar (XString key))" and v: "v \<in> dom (cells h)"
  shows "xmlrpc_struct_set_value_v mok s k v h =
    (if struct_map h s key = None then addNewMember mok s b k key v h
     else hstep (changeMemberValue s b
            (length (takeWhile (\<lambda>m. key_string h (mkey m) \<noteq> Some key)
               (block_data SIZEOF_STRUCT_MEMBER b))) v) h)"
proof -
  have bok: "body_ok h (StructBody b)"
    using heap_okD(5) [OF ok, of s] owned_live(1) [OF ok s(2)] s(1) by simp
  obtain cs where cs: "cells h s = Some cs" "body cs = StructBody b" using s(1) by (auto simp: body_at_def)
  obtain ck where ck: "cells h k = Some ck" "body ck = Scalar (XString key)" using k by (auto simp: body_at_def)
  obtain cv where cv: "cells h v = Some cv" using v by auto
  have key: "butlast (string_block (XString key :: 'd xvalue)) = key" by (simp add: string_block_def)
  have "struct_map h s = member_map h (block_data SIZEOF_STRUCT_MEMBER b)"
    using s(1) by (simp add: struct_map_def)
  then show ?thesis
    using cs ck cv findMember_spec [OF bok, of key]
    by (simp add: xmlrpc_struct_set_value_v_def hbind_def get_body_def key)
qed

lemma struct_set_value_v_ok:
  assumes ok: "heap_ok h {} E" and s: "body_at h s = Some (StructBody b)" "s \<in># E"
    and k: "body_at h k = Some (Scalar (XString key))"
    and v: "v \<in> dom (cells h)" and room: "rc h k + 2 < 2 ^ 32" "rc h v + 2 < 2 ^ 32"
  shows "\<exists>r h'. xmlrpc_struct_set_value_v mok s k v h = Some (r, h') \<and> heap_ok h' {} E \<and>
    fresh h' = fresh h \<and> dom (cells h') \<subseteq> dom (cells h) \<and>
    (\<forall>p \<in> dom (cells h') - {s}. body_at h' p = body_at h p) \<and>
    (case r of Inl f \<Rightarrow> h' = h | Inr _ \<Rightarrow> struct_map h' s = (struct_map h s)(key \<mapsto> v))"
proof (cases "struct_map h s key")
  case None
  from addNewMember_ok [OF ok s(1) k None v room, of mok] show ?thesis
    unfolding struct_set_value_v_op [OF ok s k v] using None by auto
next
  case (Some w)
  let ?ms = "block_data SIZEOF_STRUCT_MEMBER b"
  let ?i = "length (takeWhile (\<lambda>m. key_string h (mkey m) \<noteq> Some key) ?ms)"
  have ex: "\<exists>m \<in> set ?ms. key_string h (mkey m) = Some key"
    using Some s(1) by (auto simp: struct_map_def member_map_def find_Some_iff)
  note at = length_takeWhile_nth [OF ex]
  obtain h' where "changeMemberValue s b ?i v h = Some h'" "heap_ok h' {} E" "fresh h' = fresh h"
    "struct_map h' s = (struct_map h s)(key \<mapsto> v)" "dom (cells h') \<subseteq> dom (cells h)"
    "\<forall>p \<in> dom (cells h') - {s}. body_at h' p = body_at h p"
    using changeMemberValue_ok [OF ok s at(1,2) v] room by auto
  then show ?thesis
    unfolding struct_set_value_v_op [OF ok s k v] using Some by (auto simp: hstep_def)
qed

subsection \<open>New cells\<close>

lemma new_cell_ok:
  assumes ok: "heap_ok h D E" and b: "body_ok h b" "body_refs b = []"
  defines "h' \<equiv> (set_cell (fresh h) (Some \<lparr>refcount = 1, body = b\<rparr>) h)\<lparr>fresh := fresh h + 1\<rparr>"
  shows "new_cell b h = Some (Inr (fresh h), h')" "heap_ok h' D (add_mset (fresh h) E)"
    "body_at h' q = (if q = fresh h then Some b else body_at h q)"
    "rc h' q = (if q = fresh h then 1 else rc h q)"
    "dom (cells h') = insert (fresh h) (dom (cells h))" "fresh h \<notin> dom (cells h)"
proof -
  let ?n = "fresh h"
  show "new_cell b h = Some (Inr ?n, h')" by (simp add: new_cell_def h'_def)
  show body: "body_at h' q = (if q = ?n then Some b else body_at h q)" for q
    by (simp add: body_at_def h'_def)
  show rc: "rc h' q = (if q = ?n then 1 else rc h q)" for q by (simp add: rc_def h'_def)
  show dom: "dom (cells h') = insert ?n (dom (cells h))" by (auto simp: h'_def)
  show n: "?n \<notin> dom (cells h)" using heap_okD(4) [OF ok] by blast
  have notD: "?n \<notin> D" using n heap_okD(2) [OF ok] by blast
  have "held h' (insert ?n D) = held h D"
  proof -
    have "dom (cells h') - insert ?n D = dom (cells h) - D" using n dom by auto
    moreover have "refs_at h' q = refs_at h q" if "q \<in> dom (cells h) - D" for q
      using that n body [of q] by (auto simp: refs_at_def)
    ultimately show ?thesis unfolding held_def by (auto intro: sum.cong)
  qed
  moreover have "held h' D = refs_at h' ?n + held h' (insert ?n D)"
    by (rule held_insert) (use heap_okD(1) [OF ok] dom notD in auto)
  ultimately have held: "held h' D = held h D" using body [of ?n] b(2) by (simp add: refs_at_def)
  have none: "?n \<notin># held h D" using heap_okD(3) [OF ok, of ?n] n rc_live [of h ?n] by auto
  have keep: "body_ok h' b'" if "body_ok h b'" for b'
  proof (cases b')
    case (StructBody mb)
    have live: "mkey m \<noteq> ?n" if "member_ok h m" for m
      using that n by (auto simp: member_ok_def live_iff_body)
    then have "map (\<lambda>m. key_string h' (mkey m)) (block_data SIZEOF_STRUCT_MEMBER mb)
        = map (\<lambda>m. key_string h (mkey m)) (block_data SIZEOF_STRUCT_MEMBER mb)"
      using that StructBody body by (simp add: key_string_body_at)
    then have "distinct (map (\<lambda>m. key_string h' (mkey m)) (block_data SIZEOF_STRUCT_MEMBER mb))"
      using that StructBody by (simp only: body_ok.simps)
    with that StructBody body live show ?thesis by (simp add: member_ok_def)
  qed (use that in simp_all)
  show "heap_ok h' D (add_mset ?n E)"
  proof (rule heap_okI)
    show "finite (dom (cells h'))" using heap_okD(1) [OF ok] dom by simp
    show "D \<subseteq> dom (cells h')" using heap_okD(2) [OF ok] dom by auto
    show "p < fresh h'" if "p \<in> dom (cells h')" for p
      using that heap_okD(4) [OF ok, of p] unfolding dom by (auto simp: h'_def less_Suc_eq)
    show "rc h' p = count (add_mset ?n E + held h' D) p" for p
      using heap_okD(3) [OF ok, of p] heap_okD(3) [OF ok, of ?n] rc [of p] n none rc_live [of h ?n] held
      by (auto simp: count_eq_zero_iff)
    show "rc h' p = 0" if "p \<in> D" for p
      using that heap_okD(6) [OF ok, of p] rc [of p] notD by auto
    show "0 < rc h' p \<and> body_ok h' (the (body_at h' p))" if "p \<in> dom (cells h') - D" for p
      using that heap_okD(5) [OF ok, of p] keep b(1) body [of p] rc [of p] dom by auto
  qed
qed

lemma xmlrpc_string_new_lp_value:
  "xmlrpc_string_new_lp mok key = Inr v \<Longrightarrow> v = XString (normalize_lines key)"
  using stringNew_value(2) [of mok key CR_IS_LINEDELIM v] by (simp add: xmlrpc_string_new_lp_def)

lemma struct_set_value_n_ok:
  assumes ok: "heap_ok h {} E" and s: "body_at h s = Some (StructBody b)" "s \<in># E"
    and v: "v \<in> dom (cells h)" and room: "rc h v + 2 < 2 ^ 32"
    and key: "xmlrpc_string_new_lp mok key = Inr (w :: 'd xvalue)"
  shows "\<exists>r h'. xmlrpc_struct_set_value_n mok s key v (h :: 'd heap) = Some (r, h') \<and> heap_ok h' {} E \<and>
    (\<forall>p \<in> dom (cells h) \<inter> dom (cells h') - {s}. body_at h' p = body_at h p) \<and>
    struct_map h' s = (if isOK r then (struct_map h s)(normalize_lines key \<mapsto> v) else struct_map h s)"
proof -
  let ?key = "normalize_lines key" and ?k = "fresh h"
  let ?h1 = "(set_cell ?k (Some \<lparr>refcount = 1, body = Scalar (XString ?key)\<rparr>) h)\<lparr>fresh := ?k + 1\<rparr>"
  have w: "w = XString ?key" using xmlrpc_string_new_lp_value [OF key] .
  have okb: "body_ok h (Scalar (XString ?key))" "body_refs (Scalar (XString ?key)) = []" by simp_all
  note new = new_cell_ok [OF ok okb]
  have sl: "s \<in> dom (cells h)" using owned_live(1) [OF ok s(2)] by simp
  have ne: "s \<noteq> ?k" "v \<noteq> ?k" using new(6) sl v by auto
  have E1: "heap_ok ?h1 {} (add_mset ?k E)" by (rule new(2))
  have s1: "body_at ?h1 s = Some (StructBody b)" using new(3) ne s(1) by simp
  have k1: "body_at ?h1 ?k = Some (Scalar (XString ?key))" using new(3) by simp
  have rooms: "rc ?h1 ?k + 2 < 2 ^ 32" "rc ?h1 v + 2 < 2 ^ 32" using new(4) ne room by auto
  have vl: "v \<in> dom (cells ?h1)" using new(5) v by simp
  have sE: "s \<in># add_mset ?k E" using s(2) by simp
  obtain r h2 where r: "xmlrpc_struct_set_value_v mok s ?k v ?h1 = Some (r, h2)"
    and h2: "heap_ok h2 {} (add_mset ?k E)" "dom (cells h2) \<subseteq> dom (cells ?h1)"
      "\<forall>p \<in> dom (cells h2) - {s}. body_at h2 p = body_at ?h1 p"
      "case r of Inl f \<Rightarrow> h2 = ?h1 | Inr _ \<Rightarrow> struct_map h2 s = (struct_map ?h1 s)(?key \<mapsto> v)"
    using struct_set_value_v_ok [OF E1 s1 sE k1 vl rooms, of mok] by blast
  obtain h3 where h3: "xmlrpc_DECREF ?k h2 = Some h3" "heap_ok h3 {} E" "shrunk h2 h3"
    using xmlrpc_DECREF_ok [OF h2(1)] by blast
  obtain cs where cs: "cells h s = Some cs" "body cs = StructBody b" using s(1) by (auto simp: body_at_def)
  have op: "xmlrpc_struct_set_value_n mok s key v h = Some (r, h3)"
    using cs key w new(1) r h3(1)
    by (simp add: xmlrpc_struct_set_value_n_def hbind_def get_body_def new_scalar_def hresult_def)
  have "struct_map ?h1 s = struct_map h s"
  proof -
    have bok: "body_ok h (StructBody b)" using heap_okD(5) [OF ok, of s] sl s(1) by simp
    have "member_map ?h1 (block_data SIZEOF_STRUCT_MEMBER b) = member_map h (block_data SIZEOF_STRUCT_MEMBER b)"
    proof (rule member_map_cong)
      fix m assume "m \<in> set (block_data SIZEOF_STRUCT_MEMBER b)"
      then have "member_ok h m" using bok by simp
      then have "mkey m \<in> dom (cells h)" by (auto simp: member_ok_def live_iff_body)
      then have "mkey m \<noteq> ?k" using new(6) by auto
      then show "key_string ?h1 (mkey m) = key_string h (mkey m)" using new(3) by (simp add: key_string_body_at)
    qed
    then show ?thesis using s(1) s1 by (simp add: struct_map_def)
  qed
  moreover have "struct_map h3 s = struct_map h2 s"
    using shrunk_struct_map [OF h3(2,3)] owned_live(1) [OF h3(2) s(2)] by simp
  ultimately have map: "struct_map h3 s = (if isOK r then (struct_map h s)(?key \<mapsto> v) else struct_map h s)"
    using h2(4) by (cases r) simp_all
  have "body_at h3 p = body_at h p" if p: "p \<in> dom (cells h) \<inter> dom (cells h3) - {s}" for p
  proof -
    have "p \<noteq> ?k" using p new(6) by auto
    moreover have "p \<in> dom (cells h2)" "body_at h3 p = body_at h2 p"
      using p h3(3) by (auto simp: shrunk_def)
    ultimately show ?thesis using h2(3) p new(3) [of p] by simp
  qed
  with op h3(2) map show ?thesis by blast
qed

lemma no_garbage:
  assumes ok: "heap_ok h {} {#}" and acyclic: "acyclic (refs_rel h)"
  shows "dom (cells h) = {}"
proof (rule ccontr)
  assume "dom (cells h) \<noteq> {}"
  then obtain p0 where p0: "p0 \<in> dom (cells h)" by blast
  have src: "p \<in> dom (cells h)" if "(q, p) \<in> refs_rel h" for q p
    using that by (auto simp: refs_rel_def refs_at_def live_iff_body split: option.splits)
  have fin: "finite (dom (cells h))" by (rule heap_okD(1) [OF ok])
  have parent: "\<exists>q. (p, q) \<in> refs_rel h" if p: "p \<in> dom (cells h)" for p
  proof -
    have "0 < count (held h {}) p" using heap_okD(3,5) [OF ok, of p] p by simp
    then show ?thesis using fin by (auto simp: held_def refs_rel_def set_mset_sum)
  qed
  have "refs_rel h \<subseteq> dom (cells h) \<times> dom (cells h)"
  proof
    fix x assume x: "x \<in> refs_rel h"
    obtain q p where "x = (q, p)" by force
    with x have "q \<in># refs_at h p" "p \<in> dom (cells h)" using src by (auto simp: refs_rel_def)
    then have "q \<in># held h {}" using held_insert [OF fin, of p "{}"] by simp
    then have "0 < rc h q" using heap_okD(3) [OF ok, of q] by simp
    then show "x \<in> dom (cells h) \<times> dom (cells h)"
      using rc_live \<open>x = (q, p)\<close> \<open>p \<in> dom (cells h)\<close> by blast
  qed
  then have "wf ((refs_rel h)\<inverse>)"
    using fin acyclic by (meson finite_acyclic_wf_converse finite_SigmaI finite_subset)
  then obtain p where "p \<in> dom (cells h)" "\<forall>q. (q, p) \<in> (refs_rel h)\<inverse> \<longrightarrow> q \<notin> dom (cells h)"
    using p0 by (meson wfE_min)
  then show False using parent [of p] src by blast
qed

lemma shrunk_refs: "shrunk h h' \<Longrightarrow> refs_rel h' \<subseteq> refs_rel h"
proof
  fix x assume h: "shrunk h h'" "x \<in> refs_rel h'"
  then obtain q p where x: "x = (q, p)" "q \<in># refs_at h' p" by (auto simp: refs_rel_def)
  then have "p \<in> dom (cells h')" by (auto simp: refs_at_def live_iff_body split: option.splits)
  then have "refs_at h' p = refs_at h p" using h(1) by (simp add: shrunk_def refs_at_def)
  with x show "x \<in> refs_rel h" by (simp add: refs_rel_def)
qed

section \<open>Properties\<close>

text \<open>C12: releasing one reference to a value, however values are shared, never touches freed memory,
  fails no assertion and returns; afterwards each reference count is again the number of references
  there are, no value changed, and each destructor of a C pointer has run exactly for the values
  that are gone.\<close>
theorem decref_exact:
  assumes "heap_ok h {} (add_mset p E)"
  shows "\<exists>h'. xmlrpc_DECREF p h = Some h' \<and> heap_ok h' {} E \<and>
    (\<forall>q \<in> dom (cells h'). body_at h' q = body_at h q) \<and> dtor_balance h' {} = dtor_balance h {}"
  using xmlrpc_DECREF_ok [OF assms] by (auto simp: shrunk_def)

definition sample_heap :: "unit heap" where
  "sample_heap =
     \<lparr>cells = [2 \<mapsto> \<lparr>refcount = 1, body = ArrayBody \<lparr>blk_size = 8, blk_allocated = 16, blk_cells = Some [Some 3, None]\<rparr>\<rparr>,
              3 \<mapsto> \<lparr>refcount = 2, body = Scalar (XInt 7)\<rparr>],
      fresh = 4, dtor_calls = []\<rparr>"

lemma sample_heap_facts:
  "dom (cells sample_heap) = {2, 3}" "refs_at sample_heap 2 = {#3#}" "refs_at sample_heap 3 = {#}"
  "body_at sample_heap 2 = Some (ArrayBody \<lparr>blk_size = 8, blk_allocated = 16, blk_cells = Some [Some 3, None]\<rparr>)"
  "body_at sample_heap 3 = Some (Scalar (XInt 7))"
  by (auto simp: sample_heap_def refs_at_def body_at_def block_data_def block_cells_def
      mem_block_contents_def split: if_splits)

lemma sample_heap_ok: "heap_ok sample_heap {} {#2, 3#}"
proof -
  have "held sample_heap {} = {#3#}"
    by (simp add: held_def sample_heap_facts)
  then show ?thesis
    using sample_heap_facts(4,5)
    by (auto simp: heap_ok_def sample_heap_facts(1) rc_def block_ready_def mem_block_wf_def
        block_cells_def mem_block_contents_def) (auto simp: sample_heap_def)
qed

lemma decref_exact_witness:
  "\<exists>h'. xmlrpc_DECREF 2 sample_heap = Some h' \<and> heap_ok h' {} {#3#}"
  using decref_exact [of sample_heap 2 "{#3#}"] sample_heap_ok by blast

text \<open>C24: when every reference is released, in whatever order, and no value contains itself, every
  cell is freed, and each C pointer's destructor has been called exactly once.\<close>
theorem release_everything:
  assumes "heap_ok h {} (mset ps)" "acyclic (refs_rel h)"
  shows "\<exists>h'. DECREF_all ps h = Some h' \<and> cells h' = Map.empty \<and>
    mset (dtor_calls h') = mset (dtor_calls h) + (\<Sum>p \<in> dom (cells h). pending_at h p)"
proof -
  obtain h' where h': "DECREF_all ps h = Some h'" "heap_ok h' {} {#}" "shrunk h h'"
    "dtor_balance h' {} = dtor_balance h {}"
    using DECREF_all_ok [of h "{}" "{#}" ps] assms(1) by auto
  have "acyclic (refs_rel h')" using assms(2) shrunk_refs [OF h'(3)] by (rule acyclic_subset)
  with h'(2) have "dom (cells h') = {}" by (rule no_garbage)
  with h'(1,4) show ?thesis by (simp add: dtor_balance_def dom_eq_empty_conv)
qed

lemma sample_acyclic: "acyclic (refs_rel sample_heap)"
proof -
  have "refs_rel sample_heap \<subseteq> {(3, 2)}"
  proof
    fix x assume "x \<in> refs_rel sample_heap"
    then obtain q p where x: "x = (q, p)" "q \<in># refs_at sample_heap p" by (auto simp: refs_rel_def)
    then have "p \<in> dom (cells sample_heap)" by (auto simp: refs_at_def live_iff_body split: option.splits)
    then have "p = 2 \<or> p = 3" by (simp add: sample_heap_facts(1))
    with x show "x \<in> {(3, 2)}" using sample_heap_facts(2,3) by auto
  qed
  moreover have "acyclic {(3 :: nat, 2 :: nat)}"
    by (simp add: acyclic_insert) (simp add: acyclic_def)
  ultimately show ?thesis by (meson acyclic_subset)
qed

lemma release_everything_witness:
  "\<exists>h'. DECREF_all [2, 3] sample_heap = Some h' \<and> cells h' = Map.empty"
  using release_everything [of sample_heap "[2, 3]"] sample_heap_ok sample_acyclic by auto

text \<open>Appending an item to an array value either leaves the heap as it was, with a fault, or
  makes the array stand for the list with the new item at its end; every other value that does not
  contain the array is unchanged, the counts stay exact and the caller keeps its own reference.\<close>
theorem array_append_refines:
  assumes "heap_ok h {} E" "repr h a (XArray vs)" "repr h v x" "(a, v) \<notin> (refs_rel h)\<^sup>*"
    and "rc h v + 1 < 2 ^ 32"
  shows "\<exists>r h'. xmlrpc_array_append_item mok a v h = Some (r, h') \<and> heap_ok h' {} E \<and>
    (case r of Inl f \<Rightarrow> h' = h
     | Inr _ \<Rightarrow> repr h' a (XArray (vs @ [x])) \<and>
              (\<forall>p t. repr h p t \<and> (a, p) \<notin> (refs_rel h)\<^sup>* \<longrightarrow> repr h' p t))"
proof -
  obtain b where b: "body_at h a = Some (ArrayBody b)" "list_all2 (repr h) (block_data SIZEOF_VALUE_PTR b) vs"
    using assms(2) by (rule repr_array_body)
  have v: "v \<in> dom (cells h)" using assms(3) by (cases rule: repr.cases) (auto simp: live_iff_body)
  note step = array_append_step [OF assms(1) b(1) v assms(5), of mok]
  show ?thesis
  proof (cases "mem_block_append mok SIZEOF_VALUE_PTR b [v]")
    case (Inl f)
    with step(1) [OF Inl] assms(1) show ?thesis by auto
  next
    case (Inr b')
    let ?h = "set_body a (ArrayBody b') (set_refcount v (rc h v + 1) h)"
    note s = step(2) [OF Inr]
    have other: "repr ?h p t" if p: "repr h p t" "(a, p) \<notin> (refs_rel h)\<^sup>*" for p t
    proof (rule repr_reached [OF p(1)])
      fix q assume "(q, p) \<in> (refs_rel h)\<^sup>*"
      then have "q \<noteq> a" using p(2) by auto
      then show "body_at ?h q = body_at h q" by simp
    qed
    have "list_all2 (repr ?h) (block_data SIZEOF_VALUE_PTR b) vs"
    proof (rule list.rel_mono_strong [OF b(2)])
      fix q t assume q: "q \<in> set (block_data SIZEOF_VALUE_PTR b)" "repr h q t"
      show "repr ?h q t"
        using other [OF q(2)] child_not_reaching [OF assms(1,2) refs_array [OF b(1) q(1)]] by blast
    qed
    moreover have "repr ?h v x" using other assms(3,4) by blast
    ultimately have "list_all2 (repr ?h) (block_data SIZEOF_VALUE_PTR b') (vs @ [x])"
      using s by (simp add: list_all2_appendI)
    then have "repr ?h a (XArray (vs @ [x]))"
      using b(1) by (intro repr_array) (auto simp: live_iff_body)
    with s other show ?thesis by auto
  qed
qed

lemma array_append_refines_witness:
  "\<exists>r h'. xmlrpc_array_append_item always 2 3 sample_heap = Some (r, h') \<and> heap_ok h' {} {#2, 3#}"
proof -
  have v: "repr sample_heap 3 (XInt 7)" by (rule repr_scalar) (simp_all add: sample_heap_facts)
  have a: "repr sample_heap 2 (XArray [XInt 7])"
    by (rule repr_array [OF sample_heap_facts(4)])
      (simp add: block_data_def block_cells_def mem_block_contents_def v [simplified])
  have "(2, 3) \<notin> (refs_rel sample_heap)\<^sup>*"
  proof
    assume "(2, 3) \<in> (refs_rel sample_heap)\<^sup>*"
    then obtain y where "(y, 3) \<in> refs_rel sample_heap" by (cases rule: rtranclE) auto
    then show False using sample_heap_facts(3) by (simp add: refs_rel_def)
  qed
  moreover have "rc sample_heap 3 + 1 < 2 ^ 32" by (simp add: rc_def sample_heap_def)
  ultimately show ?thesis
    using array_append_refines [OF sample_heap_ok a v, of always] by blast
qed

text \<open>C25: looking up a key by its hash finds a member exactly when a plain search of the keys does, and
  then the one member that has the key; the hash makes no difference to the result.\<close>
theorem findMember_exact:
  assumes "heap_ok h {} E" "body_at h s = Some (StructBody b)"
  shows "\<exists>r. findMember b key h = Some (Inr r, h) \<and>
    (case r of
       None \<Rightarrow> \<forall>m \<in> set (block_data SIZEOF_STRUCT_MEMBER b). key_string h (mkey m) \<noteq> Some key
     | Some i \<Rightarrow>
         \<forall>j < length (block_data SIZEOF_STRUCT_MEMBER b).
           key_string h (mkey (block_data SIZEOF_STRUCT_MEMBER b ! j)) = Some key \<longleftrightarrow> j = i) \<and>
    map_option (\<lambda>i. mvalue (block_data SIZEOF_STRUCT_MEMBER b ! i)) r = struct_map h s key"
proof -
  let ?ms = "block_data SIZEOF_STRUCT_MEMBER b"
  let ?i = "length (takeWhile (\<lambda>m. key_string h (mkey m) \<noteq> Some key) ?ms)"
  have "s \<in> dom (cells h) - {}" using assms(2) by (simp add: live_iff_body)
  then have bok: "body_ok h (StructBody b)" using heap_okD(5) [OF assms(1)] assms(2) by fastforce
  have map: "struct_map h s key = member_map h ?ms key" using assms(2) by (simp add: struct_map_def)
  show ?thesis
  proof (cases "\<exists>m \<in> set ?ms. key_string h (mkey m) = Some key")
    case False
    then have "member_map h ?ms key = None" by (auto simp: member_map_def find_None_iff)
    with findMember_spec [OF bok, of key] map False show ?thesis by auto
  next
    case True
    note at = length_takeWhile_nth [OF True]
    have found: "member_map h ?ms key = Some (mvalue (?ms ! ?i))"
      using at(3) by (simp add: member_map_def)
    have "key_string h (mkey (?ms ! j)) = Some key \<longleftrightarrow> j = ?i" if "j < length ?ms" for j
    proof
      assume "key_string h (mkey (?ms ! j)) = Some key"
      then have "map (\<lambda>m. key_string h (mkey m)) ?ms ! j = map (\<lambda>m. key_string h (mkey m)) ?ms ! ?i"
        using that at by simp
      then show "j = ?i"
        using bok that at(1) nth_eq_iff_index_eq [of "map (\<lambda>m. key_string h (mkey m)) ?ms" j ?i] by simp
    qed (use at(2) in simp)
    with findMember_spec [OF bok, of key] map found show ?thesis by auto
  qed
qed

text \<open>An array, a scalar and a struct with one member \<open>a\<close>, whose value is the scalar.\<close>

definition sample_struct :: "unit heap" where
  "sample_struct =
     \<lparr>cells = [2 \<mapsto> \<lparr>refcount = 1, body = StructBody \<lparr>blk_size = 24, blk_allocated = 24,
                       blk_cells = Some [Some \<lparr>keyHash = 97, mkey = 3, mvalue = 4\<rparr>]\<rparr>\<rparr>,
              3 \<mapsto> \<lparr>refcount = 1, body = Scalar (XString ''a'')\<rparr>,
              4 \<mapsto> \<lparr>refcount = 2, body = Scalar XNil\<rparr>],
      fresh = 5, dtor_calls = []\<rparr>"

lemma sample_struct_facts:
  "dom (cells sample_struct) = {2, 3, 4}"
  "body_at sample_struct 2 = Some (StructBody \<lparr>blk_size = 24, blk_allocated = 24,
      blk_cells = Some [Some \<lparr>keyHash = 97, mkey = 3, mvalue = 4\<rparr>]\<rparr>)"
  "body_at sample_struct 3 = Some (Scalar (XString ''a''))" "body_at sample_struct 4 = Some (Scalar XNil)"
  "refs_at sample_struct 2 = {#3, 4#}" "refs_at sample_struct 3 = {#}" "refs_at sample_struct 4 = {#}"
  by (auto simp: sample_struct_def refs_at_def body_at_def block_data_def block_cells_def
      mem_block_contents_def member_refs_def split: if_splits)

lemma sample_struct_ok: "heap_ok sample_struct {} {#2, 4#}"
proof -
  have held: "held sample_struct {} = {#3, 4#}"
    by (simp add: held_def sample_struct_facts)
  have data: "block_data SIZEOF_STRUCT_MEMBER \<lparr>blk_size = 24, blk_allocated = 24,
      blk_cells = Some [Some \<lparr>keyHash = 97, mkey = 3, mvalue = 4\<rparr>]\<rparr> = [\<lparr>keyHash = 97, mkey = 3, mvalue = 4\<rparr>]"
    by (simp add: block_data_def block_cells_def mem_block_contents_def)
  have ready: "block_ready SIZEOF_STRUCT_MEMBER \<lparr>blk_size = 24, blk_allocated = 24,
      blk_cells = Some [Some \<lparr>keyHash = 97, mkey = 3, mvalue = 4\<rparr>]\<rparr>"
    by (simp add: block_ready_def mem_block_wf_def block_cells_def mem_block_contents_def)
  have hash: "hashStructKey ''a'' = 97" by code_simp
  have "body_ok sample_struct (the (body_at sample_struct p))" if "p \<in> {2, 3, 4}" for p
    using that by (auto simp: sample_struct_facts data ready member_ok_def hash)
  moreover have "rc sample_struct p = (if p = 2 then 1 else if p = 3 then 1 else if p = 4 then 2 else 0)" for p
    by (simp add: rc_def sample_struct_def)
  ultimately show ?thesis
    by (intro heap_okI) (auto simp: sample_struct_facts(1) held, simp_all add: sample_struct_def)
qed

lemma findMember_exact_witness:
  "\<exists>b r. body_at sample_struct 2 = Some (StructBody b) \<and> findMember b ''b'' sample_struct = Some (Inr r, sample_struct) \<and>
     map_option (\<lambda>i. mvalue (block_data SIZEOF_STRUCT_MEMBER b ! i)) r = struct_map sample_struct 2 ''b''"
  using findMember_exact [OF sample_struct_ok sample_struct_facts(2), of "''b''"] sample_struct_facts(2) by blast

text \<open>C13: setting a member of a struct by a key text, with the key and its member reused when the
  struct has it already, updates the struct like a map; whether it succeeds or faults for lack of
  memory, the counts stay exact, the temporary key value is released and no other value changes.\<close>
theorem struct_set_value_updates:
  assumes "heap_ok (h :: 'd heap) {} E" "body_at h s = Some (StructBody b)" "s \<in># E" "v \<in> dom (cells h)"
    and "rc h v + 2 < 2 ^ 32" "xmlrpc_string_new_lp mok (c_str key) = Inr (w :: 'd xvalue)"
  shows "\<exists>r h'. xmlrpc_struct_set_value mok s key v h = Some (r, h') \<and> heap_ok h' {} E \<and>
    (\<forall>p \<in> dom (cells h) \<inter> dom (cells h') - {s}. body_at h' p = body_at h p) \<and>
    struct_map h' s =
      (if isOK r then (struct_map h s)(normalize_lines (c_str key) \<mapsto> v) else struct_map h s)"
  unfolding xmlrpc_struct_set_value_def by (rule struct_set_value_n_ok [OF assms])

lemma struct_set_value_updates_witness:
  "\<exists>r h'. xmlrpc_struct_set_value always 2 ''b'' 4 sample_struct = Some (r, h') \<and> heap_ok h' {} {#2, 4#}"
proof -
  have "utf8_text ''b''" by (simp add: xml_text_utf8_text plain_xml_text plain_char_def uchar_def)
  then have "xmlrpc_string_new_lp always (c_str ''b'') = Inr (XString (normalize_lines ''b'') :: unit xvalue)"
    using stringNew_always [of "''b''" CR_IS_LINEDELIM, where 'd = unit]
    by (simp add: xmlrpc_string_new_lp_def c_str_def)
  moreover have "rc sample_struct 4 + 2 < 2 ^ 32" "4 \<in> dom (cells sample_struct)"
    by (simp_all add: rc_def sample_struct_def)
  ultimately show ?thesis
    using struct_set_value_updates [OF sample_struct_ok sample_struct_facts(2)] by fastforce
qed

text \<open>Setting a struct member is undefined exactly when the key is not UTF-8: instead of only
  reporting the fault, the code goes on to release a key value that it never made.\<close>
theorem struct_set_value_bad_key:
  assumes "heap_ok (h :: 'd heap) {} E" "body_at h s = Some (StructBody b)" "s \<in># E" "v \<in> dom (cells h)"
    and "rc h v + 2 < 2 ^ 32"
  shows "xmlrpc_struct_set_value_n always s key v h = None \<longleftrightarrow> \<not> utf8_text key"
proof (cases "utf8_text key")
  case True
  then have "xmlrpc_string_new_lp always key = Inr (XString (normalize_lines key) :: 'd xvalue)"
    using stringNew_always [of key CR_IS_LINEDELIM, where 'd = 'd] by (simp add: xmlrpc_string_new_lp_def)
  from struct_set_value_n_ok [OF assms this] show ?thesis using True by auto
next
  case False
  then have "\<not> isOK (xmlrpc_validate_utf8 key)" using isOK_validate_utf8 [of key] by simp
  then obtain f where f: "xmlrpc_string_new_lp always key = (Inl f :: 'd xvalue result)"
    by (cases "xmlrpc_validate_utf8 key") (auto simp: xmlrpc_string_new_lp_def stringNew_def)
  have "cells h s \<noteq> None" "body (the (cells h s)) = StructBody b"
    using assms(2) by (auto simp: body_at_def)
  with False f show ?thesis
    by (auto simp: xmlrpc_struct_set_value_n_def hbind_def get_body_def new_scalar_def hresult_def)
qed

lemma struct_set_value_bad_key_witness:
  "xmlrpc_struct_set_value_n always 2 [CHR 0xFF] 4 sample_struct = None"
proof -
  have "\<not> isOK (xmlrpc_validate_utf8 [CHR 0xFF])" by code_simp
  then have "\<not> utf8_text [CHR 0xFF]" using isOK_validate_utf8 by simp
  moreover have "rc sample_struct 4 + 2 < 2 ^ 32" "4 \<in> dom (cells sample_struct)"
    by (simp_all add: rc_def sample_struct_def)
  ultimately show ?thesis
    using struct_set_value_bad_key [OF sample_struct_ok sample_struct_facts(2)] by fastforce
qed

end
