(* ===== verification/Owned_Heap.thy ===== *)
theory Owned_Heap
  imports Value_Heap
begin

text \<open>
  Code that builds new values next to existing ones: \<open>extends h h'\<close> says that nothing of \<open>h\<close>
  is changed or gone in \<open>h'\<close>, that what is new refers only to what is newer still, and that
  no new value is shared.  A release
  frees only what can be reached from the value released, so giving up a new value cannot
  damage an old one; and when all new references are given up, the heap is as it was.
\<close>

section \<open>What a release frees\<close>

definition frees_only :: "nat list \<Rightarrow> 'd heap \<Rightarrow> 'd heap \<Rightarrow> bool" where
  "frees_only ps h h' \<longleftrightarrow>
     (\<forall>q. body_at h' q = None \<or> body_at h' q = body_at h q) \<and>
     (\<forall>q. body_at h q \<noteq> None \<and> body_at h' q = None \<longrightarrow> (\<exists>p \<in> set ps. (q, p) \<in> (refs_rel h)\<^sup>*))"

lemma frees_onlyD:
  assumes "frees_only ps h h'"
  shows "q \<in> dom (cells h') \<Longrightarrow> body_at h' q = body_at h q \<and> q \<in> dom (cells h)"
    and "q \<in> dom (cells h) \<Longrightarrow> q \<notin> dom (cells h') \<Longrightarrow> \<exists>p \<in> set ps. (q, p) \<in> (refs_rel h)\<^sup>*"
  using assms unfolding frees_only_def live_iff_body by metis+

lemma refs_rel_shrink:
  assumes "\<forall>q. body_at h' q = None \<or> body_at h' q = body_at h q"
  shows "refs_rel h' \<subseteq> refs_rel h"
proof
  fix x assume "x \<in> refs_rel h'"
  then obtain q p where x: "x = (q, p)" "q \<in># refs_at h' p" by (auto simp: refs_rel_def)
  then have "refs_at h' p = refs_at h p" using spec [OF assms, of p] by (auto simp: refs_at_def)
  with x show "x \<in> refs_rel h" by (simp add: refs_rel_def)
qed

lemma DECREF_all_frees:
  assumes "DECREF_all ps h = Some h'"
  shows "frees_only ps h h'"
proof (induction rule: DECREF_all.raw_induct [OF _ assms, case_names step])
  case (step decref ps h h')
  show ?case
  proof (cases ps)
    case Nil
    with step(2) show ?thesis by (auto simp: frees_only_def)
  next
    case (Cons p rest)
    then obtain c where c: "cells h p = Some c" "refcount c \<noteq> 0"
      using step(2) by (auto split: option.splits if_splits)
    let ?h1 = "set_refcount p (refcount c - 1) h"
    show ?thesis
    proof (cases "refcount c - 1 = 0")
      case False
      then have "decref rest ?h1 = Some h'" using step(2) Cons c by simp
      then have "frees_only rest ?h1 h'" by (rule step(1))
      moreover have "refs_rel ?h1 = refs_rel h" by (simp add: refs_rel_def refs_at_def)
      ultimately show ?thesis using Cons by (auto simp: frees_only_def)
    next
      case True
      let ?h1' = "destroyCptr (body c) ?h1"
      obtain h2 where h2: "decref (body_refs (body c)) ?h1' = Some h2" "decref rest (set_cell p None h2) = Some h'"
        using step(2) Cons c True by (auto simp: Let_def bind_eq_Some_conv split: if_splits)
      have f1: "frees_only (body_refs (body c)) ?h1' h2" by (rule step(1) [OF h2(1)])
      have f2: "frees_only rest (set_cell p None h2) h'" by (rule step(1) [OF h2(2)])
      have same: "body_at ?h1' q = body_at h q" for q
        by (simp add: cells_only(2) [OF destroyCptr_simps(1)])
      then have refs: "refs_rel ?h1' = refs_rel h" by (simp add: refs_rel_def refs_at_def)
      have bp: "body_at h p = Some (body c)" using c by (simp add: body_at_def)
      have sub: "refs_rel (set_cell p None h2) \<subseteq> refs_rel h"
        using f1 same by (intro refs_rel_shrink) (auto simp: frees_only_def)
      have "body_at h' q = None \<or> body_at h' q = body_at h q" for q
        using f1 f2 same by (metis frees_only_def free_cell_simps(1))
      moreover have "\<exists>p \<in> set ps. (q, p) \<in> (refs_rel h)\<^sup>*" if q: "body_at h q \<noteq> None" "body_at h' q = None" for q
      proof (cases "body_at h2 q = None")
        case True
        then obtain r where "r \<in> set (body_refs (body c))" "(q, r) \<in> (refs_rel h)\<^sup>*"
          using f1 q same refs by (auto simp: frees_only_def)
        moreover from this have "(r, p) \<in> refs_rel h" using bp by (simp add: refs_rel_def refs_at_def)
        ultimately show ?thesis using Cons by auto
      next
        case False
        show ?thesis
        proof (cases "q = p")
          case True
          then show ?thesis using Cons by auto
        next
          case ne: False
          then have "body_at (set_cell p None h2) q \<noteq> None" using False by simp
          then obtain r where "r \<in> set rest" "(q, r) \<in> (refs_rel (set_cell p None h2))\<^sup>*"
            using f2 q(2) unfolding frees_only_def by metis
          moreover have "(refs_rel (set_cell p None h2))\<^sup>* \<subseteq> (refs_rel h)\<^sup>*" using sub by (rule rtrancl_mono)
          ultimately show ?thesis using Cons by auto
        qed
      qed
      ultimately show ?thesis by (simp add: frees_only_def)
    qed
  qed
qed

lemma release:
  assumes "heap_ok h {} (add_mset p E)"
  obtains h' where "xmlrpc_DECREF p h = Some h'" "heap_ok h' {} E" "fresh h' = fresh h" "frees_only [p] h h'"
  using xmlrpc_DECREF_ok [OF assms] DECREF_all_frees [of "[p]" h]
  by (auto simp: shrunk_def xmlrpc_DECREF_def)

lemma ref_live:
  assumes "heap_ok h {} E" "(q, p) \<in> refs_rel h"
  shows "q \<in> dom (cells h)" "p \<in> dom (cells h)"
proof -
  show p: "p \<in> dom (cells h)"
    using assms(2) by (auto simp: refs_rel_def refs_at_def live_iff_body split: option.splits)
  have "q \<in># held h {}"
    using held_insert [OF heap_okD(1) [OF assms(1)], of p "{}"] p assms(2) by (simp add: refs_rel_def)
  then have "0 < rc h q" using heap_okD(3) [OF assms(1), of q] by simp
  then show "q \<in> dom (cells h)" by (rule rc_live)
qed

lemma reach_live:
  assumes "heap_ok h {} E" "(q, p) \<in> (refs_rel h)\<^sup>*" "p \<in> dom (cells h)"
  shows "q \<in> dom (cells h)"
  using assms(2,3) ref_live(1) [OF assms(1)] by (induction rule: converse_rtrancl_induct) auto

lemma repr_live: "repr h p t \<Longrightarrow> p \<in> dom (cells h)"
  by (cases rule: repr.cases) (auto simp: live_iff_body)

lemma repr_kept:
  assumes ok: "heap_ok h' {} E" and frees: "frees_only ps h h'" and p: "p \<in> dom (cells h')" and t: "repr h p t"
  shows "repr h' p t"
proof (rule repr_reached [OF t])
  fix q assume "(q, p) \<in> (refs_rel h)\<^sup>*"
  then have "q \<in> dom (cells h')"
  proof (induction rule: converse_rtrancl_induct)
    case (step q r)
    then have "body_at h' r = body_at h r" using frees_onlyD(1) [OF frees] by blast
    then have "(q, r) \<in> refs_rel h'" using step(1) by (simp add: refs_rel_def refs_at_def)
    then show ?case by (rule ref_live(1) [OF ok])
  qed (rule p)
  then show "body_at h' q = body_at h q" using frees_onlyD(1) [OF frees] by blast
qed

section \<open>Heaps with more in them\<close>

text \<open>At most one reference from inside the heap.\<close>

definition held_once :: "'d heap \<Rightarrow> nat \<Rightarrow> bool" where
  "held_once h q \<longleftrightarrow>
     (\<forall>x. count (refs_at h x) q \<le> 1) \<and> (\<forall>x y. q \<in># refs_at h x \<and> q \<in># refs_at h y \<longrightarrow> x = y)"

lemma held_once_mono:
  assumes "held_once h q" "\<And>x. count (refs_at h' x) q \<le> count (refs_at h x) q"
  shows "held_once h' q"
proof -
  have "q \<in># refs_at h x" if "q \<in># refs_at h' x" for x
    using assms(2) [of x] that by (meson count_greater_zero_iff less_le_trans)
  then show ?thesis using assms order_trans unfolding held_once_def by metis
qed

lemma held_once_none: "(\<And>x. q \<notin># refs_at h x) \<Longrightarrow> held_once h q"
  unfolding held_once_def by (metis not_in_iff zero_le)

lemma refs_at_live: "q \<in># refs_at h x \<Longrightarrow> x \<in> dom (cells h)"
  by (auto simp: refs_at_def live_iff_body split: option.splits)

definition extends :: "'d heap \<Rightarrow> 'd heap \<Rightarrow> bool" where
  "extends h h' \<longleftrightarrow>
     fresh h \<le> fresh h' \<and> (\<forall>p \<in> dom (cells h). body_at h' p = body_at h p) \<and>
     (\<forall>p \<in> dom (cells h') - dom (cells h). fresh h \<le> p \<and> (\<forall>q \<in># refs_at h' p. p < q)) \<and>
     (\<forall>q. fresh h \<le> q \<longrightarrow> held_once h' q)"

lemma extends_live: "extends h h' \<Longrightarrow> p \<in> dom (cells h) \<Longrightarrow> p \<in> dom (cells h') \<and> body_at h' p = body_at h p"
  by (auto simp: extends_def live_iff_body)

lemma not_referenced:
  assumes "heap_ok h {} E" "fresh h \<le> q"
  shows "q \<notin># refs_at h x"
  using ref_live(1) [OF assms(1), of q x] heap_okD(4) [OF assms(1), of q] assms(2) by (auto simp: refs_rel_def)

lemma extends_refl: "heap_ok h {} E \<Longrightarrow> extends h h"
  using not_referenced by (auto simp: extends_def intro!: held_once_none)

lemma extends_trans: "extends h0 h1 \<Longrightarrow> extends h1 h2 \<Longrightarrow> extends h0 h2"
proof -
  assume e: "extends h0 h1" "extends h1 h2"
  show "extends h0 h2"
    unfolding extends_def
  proof (intro conjI ballI)
    show "fresh h0 \<le> fresh h2" using e by (simp add: extends_def)
    show "body_at h2 p = body_at h0 p" if "p \<in> dom (cells h0)" for p
      using extends_live [OF e(1) that] extends_live [OF e(2)] by simp
    show "\<forall>q. fresh h0 \<le> q \<longrightarrow> held_once h2 q"
    proof (intro allI impI)
      fix q assume q: "fresh h0 \<le> q"
      show "held_once h2 q"
      proof (cases "fresh h1 \<le> q")
        case True
        then show ?thesis using e(2) by (simp add: extends_def)
      next
        case False
        have "held_once h1 q" using e(1) q by (simp add: extends_def)
        then show ?thesis
        proof (rule held_once_mono)
          fix x
          show "count (refs_at h2 x) q \<le> count (refs_at h1 x) q"
          proof (cases "x \<in> dom (cells h1)")
            case True
            then have "refs_at h2 x = refs_at h1 x" using extends_live [OF e(2)] by (simp add: refs_at_def)
            then show ?thesis by simp
          next
            case out: False
            have "q \<notin># refs_at h2 x"
            proof
              assume r: "q \<in># refs_at h2 x"
              then have "x \<in> dom (cells h2) - dom (cells h1)" using refs_at_live [OF r] out by simp
              then have "fresh h1 \<le> x" "x < q" using e(2) r by (simp_all add: extends_def)
              then show False using False by simp
            qed
            then show ?thesis by (simp add: not_in_iff)
          qed
        qed
      qed
    qed
    fix p assume p: "p \<in> dom (cells h2) - dom (cells h0)"
    have "fresh h0 \<le> p \<and> (\<forall>q \<in># refs_at h2 p. p < q)"
    proof (cases "p \<in> dom (cells h1)")
      case True
      then have "refs_at h2 p = refs_at h1 p" using extends_live [OF e(2)] by (simp add: refs_at_def)
      then show ?thesis using e(1) True p by (simp add: extends_def)
    next
      case False
      then have "fresh h1 \<le> p \<and> (\<forall>q \<in># refs_at h2 p. p < q)" using e(2) p by (simp add: extends_def)
      then show ?thesis using e(1) by (simp add: extends_def)
    qed
    then show "fresh h0 \<le> p" "\<And>q. q \<in># refs_at h2 p \<Longrightarrow> p < q" by blast+
  qed
qed

lemma repr_extends:
  assumes "extends h h'" "heap_ok h {} E" "repr h p t"
  shows "repr h' p t"
proof (rule repr_reached [OF assms(3)])
  fix q assume "(q, p) \<in> (refs_rel h)\<^sup>*"
  then have "q \<in> dom (cells h)" using reach_live [OF assms(2)] repr_live [OF assms(3)] by blast
  then show "body_at h' q = body_at h q" using extends_live [OF assms(1)] by blast
qed

lemma reach_from_new:
  assumes "heap_ok h {} E" "heap_ok h' {} E'" "extends h h'" "(q, p) \<in> (refs_rel h')\<^sup>*" "fresh h \<le> p" "p \<in> dom (cells h')"
  shows "p \<le> q \<and> q \<in> dom (cells h') - dom (cells h)"
  using assms(4-6)
proof (induction rule: converse_rtrancl_induct)
  case base
  then show ?case using heap_okD(4) [OF assms(1), of p] by auto
next
  case (step q r)
  then have r: "p \<le> r" "r \<in> dom (cells h') - dom (cells h)" by blast+
  then have "r < q" using step(1) assms(3) by (auto simp: extends_def refs_rel_def)
  moreover have "q \<in> dom (cells h')" using step(1) by (rule ref_live(1) [OF assms(2)])
  moreover have "q \<notin> dom (cells h)"
    using heap_okD(4) [OF assms(1), of q] r(1) step(4) calculation(1) by auto
  ultimately show ?case using r(1) by simp
qed

lemma extends_release:
  assumes "heap_ok h {} E" "heap_ok h1 {} E1" "extends h h1" "frees_only [p] h1 h2" "fresh h2 = fresh h1"
    and "fresh h \<le> p" "p \<in> dom (cells h1)"
  shows "extends h h2"
  unfolding extends_def
proof (intro conjI ballI)
  show "fresh h \<le> fresh h2" using assms(3,5) by (simp add: extends_def)
  show "body_at h2 q = body_at h q" if q: "q \<in> dom (cells h)" for q
  proof -
    have live: "q \<in> dom (cells h1)" "body_at h1 q = body_at h q"
      using extends_live [OF assms(3) q] by blast+
    have "(q, p) \<notin> (refs_rel h1)\<^sup>*" using reach_from_new [OF assms(1-3) _ assms(6,7)] q by blast
    then have "q \<in> dom (cells h2)" using frees_onlyD(2) [OF assms(4) live(1)] by auto
    then show ?thesis using frees_onlyD(1) [OF assms(4)] live(2) by simp
  qed
  have "refs_at h2 x = refs_at h1 x \<or> refs_at h2 x = {#}" for x
    using assms(4) unfolding frees_only_def refs_at_def by (metis option.case(1))
  then have "count (refs_at h2 x) q \<le> count (refs_at h1 x) q" for x q by (metis count_empty order_refl zero_le)
  then show "\<forall>q. fresh h \<le> q \<longrightarrow> held_once h2 q"
    using assms(3) held_once_mono unfolding extends_def by metis
  fix q assume q: "q \<in> dom (cells h2) - dom (cells h)"
  then have "body_at h2 q = body_at h1 q" "q \<in> dom (cells h1)"
    using frees_onlyD(1) [OF assms(4)] by blast+
  then show "fresh h \<le> q" "\<And>r. r \<in># refs_at h2 q \<Longrightarrow> q < r"
    using q assms(3) by (auto simp: extends_def refs_at_def)
qed

text \<open>With the same references from outside, nothing new can be left.\<close>

lemma extends_back:
  assumes "heap_ok h {} E" "heap_ok h' {} E" "extends h h'"
  shows "cells h' = cells h"
proof -
  let ?N = "dom (cells h') - dom (cells h)"
  have none: "?N = {}"
  proof (rule ccontr)
    assume "?N \<noteq> {}"
    moreover have fin: "finite ?N" using heap_okD(1) [OF assms(2)] by blast
    ultimately have min: "Min ?N \<in> ?N" by (metis Min_in)
    let ?p = "Min ?N"
    have "0 < rc h' ?p" using heap_okD(5) [OF assms(2), of ?p] min by auto
    moreover have "?p \<notin># E" using owned_live(1) [OF assms(1), of ?p] min by blast
    ultimately have "?p \<in># held h' {}"
      using heap_okD(3) [OF assms(2), of ?p] by (simp add: not_in_iff)
    then obtain q where q: "q \<in> dom (cells h')" "?p \<in># refs_at h' q"
      using heap_okD(1) [OF assms(2)] by (auto simp: held_def set_mset_sum)
    show False
    proof (cases "q \<in> dom (cells h)")
      case True
      then have "?p \<in># refs_at h q" using q(2) extends_live [OF assms(3) True] by (simp add: refs_at_def)
      then have "?p \<in> dom (cells h)" using ref_live(1) [OF assms(1), of ?p q] by (simp add: refs_rel_def)
      then show False using min by blast
    next
      case False
      then have "q < ?p" "q \<in> ?N" using q assms(3) by (auto simp: extends_def)
      then show False using Min_le [OF fin, of q] by simp
    qed
  qed
  have dom: "dom (cells h') = dom (cells h)" using none extends_live [OF assms(3)] by blast
  have body: "body_at h' p = body_at h p" for p
  proof (cases "p \<in> dom (cells h)")
    case True
    then show ?thesis using extends_live [OF assms(3)] by blast
  next
    case False
    then have "cells h p = None" "cells h' p = None" using dom by blast+
    then show ?thesis by (simp add: body_at_def)
  qed
  have "held h' = held h" by (rule same_bodies(2) [OF dom body])
  then have rc: "rc h' p = rc h p" for p
    using heap_okD(3) [OF assms(1), of p] heap_okD(3) [OF assms(2), of p] by simp
  have "cells h' p = cells h p" for p
  proof (cases "cells h p")
    case None
    then have "p \<notin> dom (cells h')" unfolding dom by (simp add: domIff)
    then show ?thesis using None by (simp add: domIff)
  next
    case (Some c)
    then obtain c' where c': "cells h' p = Some c'" using dom by blast
    have "refcount c' = refcount c" "body c' = body c"
      using rc [of p] body [of p] unfolding rc_def body_at_def Some c' by simp_all
    then have "c' = c" by (cases c, cases c') simp
    then show ?thesis using Some c' by simp
  qed
  then show ?thesis by blast
qed

section \<open>Filling arrays and structs\<close>

definition array_at :: "'d heap \<Rightarrow> nat \<Rightarrow> 'd xvalue list \<Rightarrow> bool" where
  "array_at h a vs \<longleftrightarrow>
     (\<exists>b. body_at h a = Some (ArrayBody b) \<and> grown_block SIZEOF_VALUE_PTR b \<and>
          list_all2 (repr h) (block_data SIZEOF_VALUE_PTR b) vs)"

abbreviation member_repr :: "'d heap \<Rightarrow> struct_member \<Rightarrow> string \<times> 'd xvalue \<Rightarrow> bool" where
  "member_repr h m kv \<equiv> key_string h (mkey m) = Some (fst kv) \<and> repr h (mvalue m) (snd kv)"

definition struct_at :: "'d heap \<Rightarrow> nat \<Rightarrow> (string \<times> 'd xvalue) list \<Rightarrow> bool" where
  "struct_at h s kvs \<longleftrightarrow>
     (\<exists>b. body_at h s = Some (StructBody b) \<and> grown_block SIZEOF_STRUCT_MEMBER b \<and>
          list_all2 (member_repr h) (block_data SIZEOF_STRUCT_MEMBER b) kvs)"

lemma array_at_repr: "array_at h a vs \<Longrightarrow> repr h a (XArray vs)"
  by (auto simp: array_at_def intro: repr_array)

lemma struct_at_repr: "struct_at h s kvs \<Longrightarrow> repr h s (XStruct kvs)"
  by (auto simp: struct_at_def intro: repr_struct)

lemma repr_same_below:
  assumes "repr h p t" "\<And>q. q \<noteq> a \<Longrightarrow> body_at h' q = body_at h q" "(a, p) \<notin> (refs_rel h)\<^sup>*"
  shows "repr h' p t"
  using assms by (intro repr_reached [OF assms(1)]) metis

lemma array_append_repr:
  assumes ok: "heap_ok h {} E" and a: "array_at h a vs"
    and v: "repr h v x" "(a, v) \<notin> (refs_rel h)\<^sup>*" "rc h v + 1 < 2 ^ 32"
  obtains (faulted) f where "xmlrpc_array_append_item mok a v h = Some (Inl f, h)" "memory_fault f"
      "mok = always \<Longrightarrow> BLOCK_ALLOC_MAX < SIZEOF_VALUE_PTR * (length vs + 1)"
  | (appended) h' where "xmlrpc_array_append_item mok a v h = Some (Inr (), h')" "heap_ok h' {} E"
      "array_at h' a (vs @ [x])" "fresh h' = fresh h" "rc h' v = rc h v + 1"
      "\<And>q. q \<noteq> a \<Longrightarrow> body_at h' q = body_at h q" "refs_at h' a = add_mset v (refs_at h a)"
proof -
  obtain b where b: "body_at h a = Some (ArrayBody b)" "grown_block SIZEOF_VALUE_PTR b"
      "list_all2 (repr h) (block_data SIZEOF_VALUE_PTR b) vs"
    using a by (auto simp: array_at_def)
  note step = array_append_step [OF ok b(1) repr_live [OF v(1)] v(3), of mok]
  show ?thesis
  proof (cases "mem_block_append mok SIZEOF_VALUE_PTR b [v]")
    case (Inl f)
    have "BLOCK_ALLOC_MAX < SIZEOF_VALUE_PTR * (length vs + 1)" if "mok = always"
    proof (rule ccontr)
      assume "\<not> ?thesis"
      then have "\<exists>b'. mem_block_append mok SIZEOF_VALUE_PTR b [v] = Inr b'"
        using mem_block_append_ok [OF b(2), of "[v]" mok] list_all2_lengthD [OF b(3)] that
        by (simp add: always_def)
      with Inl show False by simp
    qed
    with faulted [OF step(1) [OF Inl] append_fault_memory [OF Inl]] show ?thesis by blast
  next
    case (Inr b')
    let ?h = "set_body a (ArrayBody b') (set_refcount v (rc h v + 1) h)"
    note s = step(2) [OF Inr]
    have other: "body_at ?h q = body_at h q" if "q \<noteq> a" for q using that by simp
    have al: "a \<in> dom (cells h)" using b(1) by (simp add: live_iff_body)
    have "repr ?h q t" if q: "q \<in> set (block_data SIZEOF_VALUE_PTR b)" "repr h q t" for q t
      using repr_same_below [OF q(2) other] child_not_reaching [OF ok array_at_repr [OF a] refs_array [OF b(1) q(1)]]
      by blast
    then have "list_all2 (repr ?h) (block_data SIZEOF_VALUE_PTR b) vs"
      using b(3) by (auto intro: list.rel_mono_strong)
    moreover have "repr ?h v x" using repr_same_below [OF v(1) other v(2)] by blast
    ultimately have "list_all2 (repr ?h) (block_data SIZEOF_VALUE_PTR b') (vs @ [x])"
      using s by (simp add: list_all2_appendI)
    then have "array_at ?h a (vs @ [x])"
      using mem_block_append_grown(1) [OF b(2) Inr] al by (auto simp: array_at_def)
    moreover have "refs_at ?h a = add_mset v (refs_at h a)"
      using s b(1) al by (simp add: refs_at_def)
    moreover have "rc ?h v = rc h v + 1" using repr_live [OF v(1)] by auto
    ultimately show ?thesis using appended [of ?h] s other by simp
  qed
qed

text \<open>A member of a struct by its key: the first one with the key is replaced, a new key goes to the end.\<close>

fun put_member :: "'k \<Rightarrow> 'v \<Rightarrow> ('k \<times> 'v) list \<Rightarrow> ('k \<times> 'v) list" where
  "put_member k v [] = [(k, v)]"
| "put_member k v (kv # kvs) = (if fst kv = k then (k, v) # kvs else kv # put_member k v kvs)"

lemma put_member_at:
  assumes "i < length kvs" "fst (kvs ! i) = k" "\<And>j. j < i \<Longrightarrow> fst (kvs ! j) \<noteq> k"
  shows "put_member k v kvs = kvs[i := (k, v)]"
  using assms
proof (induction kvs arbitrary: i)
  case (Cons kv kvs)
  show ?case
  proof (cases i)
    case 0
    with Cons.prems show ?thesis by simp
  next
    case (Suc j)
    have "fst kv \<noteq> k" using Cons.prems(3) [of 0] Suc by simp
    moreover have "put_member k v kvs = kvs[j := (k, v)]"
      using Cons.prems Suc by (intro Cons.IH) (auto, metis Suc_less_eq nth_Cons_Suc fst_conv)
    ultimately show ?thesis using Suc by simp
  qed
qed simp

lemma put_member_new: "k \<notin> fst ` set kvs \<Longrightarrow> put_member k v kvs = kvs @ [(k, v)]"
  by (induction kvs) auto

lemma length_put_member: "length (put_member k v kvs) \<le> length kvs + 1"
  by (induction kvs) auto

lemma struct_set_repr:
  fixes h :: "'d heap"
  assumes ok: "heap_ok h {} E" and s: "struct_at h s kvs" "s \<in># E"
    and k: "body_at h k = Some (Scalar (XString key))"
    and v: "repr h v x" "(s, v) \<notin> (refs_rel h)\<^sup>*" and room: "rc h k + 2 < 2 ^ 32" "rc h v + 2 < 2 ^ 32"
  obtains (faulted) f where "xmlrpc_struct_set_value_v mok s k v h = Some (Inl f, h)" "memory_fault f"
      "mok = always \<Longrightarrow> BLOCK_ALLOC_MAX < SIZEOF_STRUCT_MEMBER * (length kvs + 1)"
  | (stored) h' where "xmlrpc_struct_set_value_v mok s k v h = Some (Inr (), h')" "heap_ok h' {} E"
      "struct_at h' s (put_member key x kvs)" "fresh h' = fresh h"
      "\<And>q. q \<noteq> s \<Longrightarrow> q \<in> dom (cells h') \<Longrightarrow> body_at h' q = body_at h q \<and> q \<in> dom (cells h)"
      "\<And>q. q \<in> dom (cells h) \<Longrightarrow> q \<notin> dom (cells h') \<Longrightarrow> (q, s) \<in> (refs_rel h)\<^sup>*"
      "refs_at h' s \<subseteq># refs_at h s + {#k, v#}"
proof -
  obtain b where b: "body_at h s = Some (StructBody b)" "grown_block SIZEOF_STRUCT_MEMBER b"
      and kvs: "list_all2 (member_repr h) (block_data SIZEOF_STRUCT_MEMBER b) kvs"
    using s(1) by (auto simp: struct_at_def)
  let ?ms = "block_data SIZEOF_STRUCT_MEMBER b"
  have vl: "v \<in> dom (cells h)" using repr_live [OF v(1)] .
  have sl: "s \<in> dom (cells h)" using b(1) by (simp add: live_iff_body)
  have bok: "body_ok h (StructBody b)" using heap_okD(5) [OF ok, of s] sl b(1) by simp
  note op = struct_set_value_v_op [OF ok b(1) s(2) k vl, of mok]
  have key_at: "key_string h (mkey (?ms ! j)) = Some (fst (kvs ! j))" "repr h (mvalue (?ms ! j)) (snd (kvs ! j))"
    if "j < length ?ms" for j using kvs that by (auto simp: list_all2_conv_all_nth)
  have len: "length kvs = length ?ms" using list_all2_lengthD [OF kvs] by simp
  have ne: "mkey m \<noteq> s" if "member_ok h m" for m using that b(1) by (auto simp: member_ok_def)
  have below: "repr h' (mvalue m) t"
    if "m \<in> set ?ms" "repr h (mvalue m) t" "\<And>q. q \<noteq> s \<Longrightarrow> body_at h' q = body_at h q" for m t and h' :: "'d heap"
    using repr_same_below [OF that(2,3)] child_not_reaching [OF ok struct_at_repr [OF s(1)]]
      refs_struct [OF b(1) that(1)] by blast
  show ?thesis
  proof (cases "struct_map h s key")
    case None
    let ?m = "\<lparr>keyHash = hashStructKey key, mkey = k, mvalue = v\<rparr>"
    note step = addNewMember_step [OF ok b(1) k None vl room]
    show ?thesis
    proof (cases "mem_block_append mok SIZEOF_STRUCT_MEMBER b [?m]")
      case (Inl f)
      have "BLOCK_ALLOC_MAX < SIZEOF_STRUCT_MEMBER * (length kvs + 1)" if "mok = always"
      proof (rule ccontr)
        assume "\<not> ?thesis"
        then have "\<exists>b'. mem_block_append mok SIZEOF_STRUCT_MEMBER b [?m] = Inr b'"
          using mem_block_append_ok [OF b(2), of "[?m]" mok] len that by (simp add: always_def)
        with Inl show False by simp
      qed
      then show ?thesis
        using faulted [OF _ append_fault_memory [OF Inl]] op None step(2) [OF Inl] by simp
    next
      case (Inr b')
      define h2 where "h2 = (let h1 = set_refcount k (rc h k + 1) h in set_refcount v (rc h1 v + 1) h1)"
      let ?h = "set_body s (StructBody b') h2"
      have h2: "body_at h2 = body_at h" "dom (cells h2) = dom (cells h)" "fresh h2 = fresh h"
        by (simp_all add: h2_def Let_def fun_eq_iff)
      have at: "xmlrpc_struct_set_value_v mok s k v h = Some (Inr (), ?h)" "heap_ok ?h {} E"
        using op None step(3) [OF Inr, folded h2_def] by simp_all
      have data: "block_data SIZEOF_STRUCT_MEMBER b' = ?ms @ [?m]" "grown_block SIZEOF_STRUCT_MEMBER b'"
        using mem_block_append_grown [OF b(2) Inr] by simp_all
      have other: "body_at ?h q = body_at h q" if "q \<noteq> s" for q using that h2 by simp
      have "member_repr ?h m kv" if "m \<in> set ?ms" "member_repr h m kv" for m kv
        using that ne [of m] bok other below [OF that(1) _ other] by (simp add: key_string_body_at)
      then have "list_all2 (member_repr ?h) ?ms kvs" using kvs by (auto intro: list.rel_mono_strong)
      moreover have "member_repr ?h ?m (key, x)"
        using repr_same_below [OF v(1) other v(2)] ne [OF step(1)] other k
        by (simp add: key_string_body_at string_block_def)
      ultimately have "list_all2 (member_repr ?h) (block_data SIZEOF_STRUCT_MEMBER b') (kvs @ [(key, x)])"
        using data(1) by (simp add: list_all2_appendI)
      moreover have "put_member key x kvs = kvs @ [(key, x)]"
      proof (rule put_member_new)
        have "Some key \<notin> (\<lambda>m. key_string h (mkey m)) ` set ?ms"
          using None b(1) by (auto simp: struct_map_def member_map_def find_None_iff)
        then show "key \<notin> fst ` set kvs"
          using key_at(1) len by (auto simp: in_set_conv_nth image_iff) (metis nth_mem fst_conv)
      qed
      ultimately have "struct_at ?h s (put_member key x kvs)"
        using data(2) sl h2 by (auto simp: struct_at_def)
      moreover have "refs_at ?h s = refs_at h s + {#k, v#}"
        using data(1) sl h2 b(1) by (simp add: refs_at_def member_refs_def)
      ultimately show ?thesis using stored [of ?h] at other h2 by simp
    qed
  next
    case (Some w)
    let ?i = "length (takeWhile (\<lambda>m. key_string h (mkey m) \<noteq> Some key) ?ms)"
    have ex: "\<exists>m \<in> set ?ms. key_string h (mkey m) = Some key"
      using Some b(1) by (auto simp: struct_map_def member_map_def find_Some_iff)
    note i = length_takeWhile_nth [OF ex]
    let ?old = "mvalue (?ms ! ?i)"
    have "rc h v + 1 < 2 ^ 32" using room(2) by simp
    then obtain b' where step: "changeMemberValue s b ?i v h =
        xmlrpc_DECREF ?old (set_body s (StructBody b') (set_refcount v (rc h v + 1) h))"
      and ok2: "heap_ok (set_body s (StructBody b') (set_refcount v (rc h v + 1) h)) {} (add_mset ?old E)"
      and b': "block_ready SIZEOF_STRUCT_MEMBER b'" "blk_allocated b' = blk_allocated b"
        "block_data SIZEOF_STRUCT_MEMBER b' = ?ms[?i := (?ms ! ?i)\<lparr>mvalue := v\<rparr>]"
        "\<forall>m \<in> set (block_data SIZEOF_STRUCT_MEMBER b'). member_ok h m"
      using changeMemberValue_step [OF ok b(1) s(2) i(1) vl] by blast
    let ?h2 = "set_body s (StructBody b') (set_refcount v (rc h v + 1) h)"
    obtain h' where h': "xmlrpc_DECREF ?old ?h2 = Some h'" "heap_ok h' {} E" "fresh h' = fresh ?h2"
      "frees_only [?old] ?h2 h'"
      using release [OF ok2] by blast
    have other: "body_at ?h2 q = body_at h q" if "q \<noteq> s" for q using that by simp
    note kept = frees_onlyD(1) [OF h'(4)]
    have sl': "s \<in> dom (cells h')" using owned_live(1) [OF h'(2) s(2)] by simp
    then have b1: "body_at h' s = Some (StructBody b')" using kept [OF sl'] by simp
    have member: "key_string h' (mkey m) = key_string h (mkey m)" "repr ?h2 (mvalue m) t \<Longrightarrow> repr h' (mvalue m) t"
      if m: "m \<in> set (block_data SIZEOF_STRUCT_MEMBER b')" for m t
    proof -
      have live: "mkey m \<in> dom (cells h')" "mvalue m \<in> dom (cells h')"
        using ref_live(1) [OF h'(2)] refs_struct [OF b1 m] by blast+
      have "mkey m \<noteq> s" using ne b'(4) m by blast
      then show "key_string h' (mkey m) = key_string h (mkey m)"
        using kept [OF live(1)] other by (simp add: key_string_body_at)
      show "repr ?h2 (mvalue m) t \<Longrightarrow> repr h' (mvalue m) t"
        by (rule repr_kept [OF h'(2,4) live(2)])
    qed
    have before: "fst (kvs ! j) \<noteq> key" if "j < ?i" for j
    proof -
      have "takeWhile (\<lambda>m. key_string h (mkey m) \<noteq> Some key) ?ms ! j
          \<in> set (takeWhile (\<lambda>m. key_string h (mkey m) \<noteq> Some key) ?ms)"
        using that by (rule nth_mem)
      then have "key_string h (mkey (takeWhile (\<lambda>m. key_string h (mkey m) \<noteq> Some key) ?ms ! j)) \<noteq> Some key"
        by (rule set_takeWhileD [THEN conjunct2])
      then have "key_string h (mkey (?ms ! j)) \<noteq> Some key" unfolding takeWhile_nth [OF that] .
      then show ?thesis using key_at(1) [of j] that i(1) by auto
    qed
    have put: "put_member key x kvs = kvs[?i := (key, x)]"
      using key_at(1) [OF i(1)] i(1,2) len before by (intro put_member_at) auto
    have "list_all2 (member_repr h') (block_data SIZEOF_STRUCT_MEMBER b') (put_member key x kvs)"
      unfolding list_all2_conv_all_nth
    proof (intro conjI allI impI)
      show "length (block_data SIZEOF_STRUCT_MEMBER b') = length (put_member key x kvs)"
        using b'(3) put len by simp
      fix j assume j: "j < length (block_data SIZEOF_STRUCT_MEMBER b')"
      let ?m = "block_data SIZEOF_STRUCT_MEMBER b' ! j"
      have m: "?m \<in> set (block_data SIZEOF_STRUCT_MEMBER b')" using j by simp
      have jl: "j < length ?ms" using j b'(3) by simp
      have "key_string h (mkey ?m) = Some (fst (put_member key x kvs ! j)) \<and>
            repr ?h2 (mvalue ?m) (snd (put_member key x kvs ! j))"
      proof (cases "j = ?i")
        case True
        then show ?thesis
          using i(1,2) b'(3) put len repr_same_below [OF v(1) other v(2)] by simp
      next
        case False
        then show ?thesis
          using b'(3) put key_at [OF jl] below [OF nth_mem [OF jl] key_at(2) [OF jl] other] by simp
      qed
      then show "key_string h' (mkey ?m) = Some (fst (put_member key x kvs ! j))"
        "repr h' (mvalue ?m) (snd (put_member key x kvs ! j))"
        using member [OF m] by simp_all
    qed
    then have at: "struct_at h' s (put_member key x kvs)"
      using b1 b'(1,2) b(2) by (auto simp: struct_at_def grown_block_def)
    have old: "(?old, s) \<in> refs_rel h" using refs_struct [OF b(1) nth_mem [OF i(1)]] by blast
    have path: "(q, ?old) \<in> (refs_rel h)\<^sup>* \<and> q \<noteq> s" if "(q, ?old) \<in> (refs_rel ?h2)\<^sup>*" for q
      using that
    proof (induction rule: converse_rtrancl_induct)
      case base
      then show ?case using child_not_reaching [OF ok struct_at_repr [OF s(1)] old] by auto
    next
      case (step q r)
      then have "(q, r) \<in> refs_rel h" using other [of r] by (simp add: refs_rel_def refs_at_def)
      then have "(q, ?old) \<in> (refs_rel h)\<^sup>*" using step(3) by (meson converse_rtrancl_into_rtrancl)
      then show ?case using child_not_reaching [OF ok struct_at_repr [OF s(1)] old] by auto
    qed
    have "(q, s) \<in> (refs_rel h)\<^sup>*" if q: "q \<in> dom (cells h)" "q \<notin> dom (cells h')" for q
    proof -
      have "(q, ?old) \<in> (refs_rel ?h2)\<^sup>*" using frees_onlyD(2) [OF h'(4), of q] q by simp
      then show ?thesis using path old by (meson rtrancl.rtrancl_into_rtrancl)
    qed
    moreover have "refs_at h' s \<subseteq># refs_at h s + {#k, v#}"
    proof -
      have "refs_at h' s + {#?old#} = refs_at h s + {#v#}"
        using member_refs_update [OF i(1), of "(?ms ! ?i)\<lparr>mvalue := v\<rparr>"] b1 b(1) b'(3)
        by (simp add: refs_at_def member_refs_def)
      then have "refs_at h' s \<subseteq># refs_at h s + {#v#}" by (metis mset_subset_eq_add_left)
      then show ?thesis by (rule subset_mset.order_trans) simp
    qed
    moreover have "body_at h' q = body_at h q \<and> q \<in> dom (cells h)" if "q \<noteq> s" "q \<in> dom (cells h')" for q
      using kept [OF that(2)] other [OF that(1)] by simp
    ultimately show ?thesis
      using stored [of h'] at h'(1-3) op Some step by (simp add: hstep_def)
  qed
qed

section \<open>Working on a new container\<close>

lemma extends_modify:
  assumes "heap_ok h0 {} E0" "heap_ok h1 {} E1" "extends h0 h1" "fresh h0 \<le> s" "s \<in> dom (cells h1)"
    and "fresh h2 = fresh h1"
    and other: "\<And>q. q \<noteq> s \<Longrightarrow> q \<in> dom (cells h2) \<Longrightarrow> body_at h2 q = body_at h1 q \<and> q \<in> dom (cells h1)"
    and gone: "\<And>q. q \<in> dom (cells h1) \<Longrightarrow> q \<notin> dom (cells h2) \<Longrightarrow> (q, s) \<in> (refs_rel h1)\<^sup>*"
    and refs: "refs_at h2 s \<subseteq># refs_at h1 s + mset ns" "s \<notin> dom (cells h0)" "distinct ns"
    and ns: "\<And>n. n \<in> set ns \<Longrightarrow> s < n \<and> n \<in># E1 \<and> rc h1 n = 1"
  shows "extends h0 h2"
  unfolding extends_def
proof (intro conjI ballI)
  have free: "n \<notin># refs_at h1 x" if n: "n \<in> set ns" for n x
  proof
    assume r: "n \<in># refs_at h1 x"
    have "refs_at h1 x \<subseteq># held h1 {}"
      using heap_okD(1) [OF assms(2)] refs_at_live [OF r] unfolding held_def by (simp add: sum.remove)
    with r have "0 < count (held h1 {}) n" by (meson count_greater_zero_iff mset_subset_eqD)
    moreover have "0 < count E1 n" using ns [OF n] by simp
    ultimately show False using heap_okD(3) [OF assms(2), of n] ns [OF n] unfolding count_union by linarith
  qed
  show "\<forall>q. fresh h0 \<le> q \<longrightarrow> held_once h2 q"
  proof (intro allI impI)
    fix q assume "fresh h0 \<le> q"
    then have once: "held_once h1 q" using assms(3) by (simp add: extends_def)
    have le: "count (refs_at h2 x) q \<le> count (refs_at h1 x) q" if "x \<noteq> s" for x
    proof (cases "x \<in> dom (cells h2)")
      case True
      then show ?thesis using other [OF that] by (simp add: refs_at_def)
    next
      case False
      then show ?thesis using refs_at_live [of q h2 x] by (metis not_in_iff zero_le)
    qed
    have les: "count (refs_at h2 s) q \<le> count (refs_at h1 s) q + count (mset ns) q"
      using mset_subset_eq_count [OF refs(1), of q] by simp
    show "held_once h2 q"
    proof (cases "q \<in> set ns")
      case False
      then have "count (mset ns) q = 0" by (simp add: count_mset_0_iff)
      then show ?thesis using le les by (intro held_once_mono [OF once]) (metis add_0_right)
    next
      case True
      have z: "count (refs_at h1 x) q = 0" for x using free [OF True] by (simp add: not_in_iff)
      have "count (mset ns) q = 1" using refs(3) True by (simp add: distinct_count_atmost_1)
      then have s1: "count (refs_at h2 s) q \<le> 1" using les z by simp
      have "x = s" if "q \<in># refs_at h2 x" for x
        using le [of x] that z [of x] by (metis count_greater_zero_iff le_zero_eq less_irrefl)
      then show ?thesis using s1 unfolding held_once_def by (metis count_greater_zero_iff neq0_conv zero_le_one)
    qed
  qed
  show "fresh h0 \<le> fresh h2" using assms(3,6) by (simp add: extends_def)
  show "body_at h2 q = body_at h0 q" if q: "q \<in> dom (cells h0)" for q
  proof -
    have live: "q \<in> dom (cells h1)" "body_at h1 q = body_at h0 q" using extends_live [OF assms(3) q] by blast+
    have "(q, s) \<notin> (refs_rel h1)\<^sup>*" using reach_from_new [OF assms(1-3) _ assms(4,5)] q by blast
    then have "q \<in> dom (cells h2)" using gone [OF live(1)] by blast
    moreover have "q \<noteq> s" using heap_okD(4) [OF assms(1) q] assms(4) by auto
    ultimately show ?thesis using other live(2) by simp
  qed
  fix q assume q: "q \<in> dom (cells h2) - dom (cells h0)"
  show "fresh h0 \<le> q"
    using q other [of q] assms(3,4) by (cases "q = s") (auto simp: extends_def)
  show "q < r" if r: "r \<in># refs_at h2 q" for r
  proof (cases "q = s")
    case True
    have "r \<in># refs_at h1 s \<or> r \<in> set ns" using mset_subset_eqD [OF refs(1)] r True by force
    then show ?thesis using assms(3,5) refs(2) ns True by (auto simp: extends_def)
  next
    case False
    then have "q \<in> dom (cells h1) - dom (cells h0)" "refs_at h2 q = refs_at h1 q"
      using q other [of q] by (auto simp: refs_at_def)
    then show ?thesis using r assms(3) by (simp add: extends_def)
  qed
qed

text \<open>The first cell made is held only from outside.\<close>

lemma first_cell_rc:
  assumes "heap_ok h {} E" "heap_ok h' {} E'" "extends h h'"
  shows "rc h' (fresh h) = count E' (fresh h)"
proof -
  have "fresh h \<notin># held h' {}"
  proof
    assume "fresh h \<in># held h' {}"
    then obtain q where q: "q \<in> dom (cells h')" "fresh h \<in># refs_at h' q"
      using heap_okD(1) [OF assms(2)] by (auto simp: held_def set_mset_sum)
    show False
    proof (cases "q \<in> dom (cells h)")
      case True
      then have "(fresh h, q) \<in> refs_rel h"
        using q(2) extends_live [OF assms(3) True] by (simp add: refs_rel_def refs_at_def)
      from ref_live(1) [OF assms(1) this] heap_okD(4) [OF assms(1), of "fresh h"] show False by simp
    next
      case False
      then have "fresh h \<le> q" "q < fresh h" using q assms(3) by (auto simp: extends_def)
      then show False by simp
    qed
  qed
  then show ?thesis using heap_okD(3) [OF assms(2), of "fresh h"] by (simp add: count_eq_zero_iff)
qed

lemma fresh_not_owned: "heap_ok h {} E \<Longrightarrow> fresh h \<le> p \<Longrightarrow> count E p = 0"
  using owned_live(1) [of h "{}" E p] heap_okD(4) [of h "{}" E p] by (auto simp: count_eq_zero_iff)

lemma new_cell_extends:
  assumes ok: "heap_ok h {} E" and b: "body_ok h b" "body_refs b = []"
  obtains h' where "new_cell b h = Some (Inr (fresh h), h')" "heap_ok h' {} (add_mset (fresh h) E)"
    "extends h h'" "body_at h' (fresh h) = Some b" "fresh h' = fresh h + 1"
proof -
  note new = new_cell_ok [OF ok b]
  let ?h = "(set_cell (fresh h) (Some \<lparr>refcount = 1, body = b\<rparr>) h)\<lparr>fresh := fresh h + 1\<rparr>"
  have "body_at ?h p = body_at h p" if "p \<in> dom (cells h)" for p
    using new(3) [of p] new(6) that by auto
  moreover have "refs_at ?h (fresh h) = {#}" using new(3) [of "fresh h"] b(2) by (simp add: refs_at_def)
  moreover have "held_once ?h q" if "fresh h \<le> q" for q
  proof (rule held_once_none)
    show "q \<notin># refs_at ?h x" for x
      using not_referenced [OF ok that] new(3) [of x] b(2) by (cases "x = fresh h") (auto simp: refs_at_def)
  qed
  ultimately have "extends h ?h" using new(5) by (auto simp: extends_def)
  then show ?thesis using that [of ?h] new(1,2) new(3) [of "fresh h"] by simp
qed

lemma array_at_extends: "extends h h' \<Longrightarrow> heap_ok h {} E \<Longrightarrow> array_at h a vs \<Longrightarrow> array_at h' a vs"
proof -
  assume e: "extends h h'" "heap_ok h {} E" "array_at h a vs"
  then have "a \<in> dom (cells h)" by (auto simp: array_at_def live_iff_body)
  with e show "array_at h' a vs"
    using extends_live [OF e(1)] repr_extends [OF e(1,2)]
    by (fastforce simp: array_at_def intro: list.rel_mono_strong)
qed

lemma struct_at_extends: "extends h h' \<Longrightarrow> heap_ok h {} E \<Longrightarrow> struct_at h s kvs \<Longrightarrow> struct_at h' s kvs"
proof -
  assume e: "extends h h'" "heap_ok h {} E" "struct_at h s kvs"
  then obtain b where b: "body_at h s = Some (StructBody b)" "grown_block SIZEOF_STRUCT_MEMBER b"
      "list_all2 (member_repr h) (block_data SIZEOF_STRUCT_MEMBER b) kvs"
    by (auto simp: struct_at_def)
  then have "s \<in> dom (cells h)" by (auto simp: live_iff_body)
  then have b': "body_at h' s = Some (StructBody b)" using extends_live [OF e(1)] b(1) by simp
  have "member_repr h' m kv" if m: "m \<in> set (block_data SIZEOF_STRUCT_MEMBER b)" "member_repr h m kv" for m kv
  proof -
    have "mkey m \<in> dom (cells h)" using ref_live(1) [OF e(2)] refs_struct [OF b(1) m(1)] by blast
    then show ?thesis
      using m(2) extends_live [OF e(1)] repr_extends [OF e(1,2)] by (simp add: key_string_body_at)
  qed
  then have "list_all2 (member_repr h') (block_data SIZEOF_STRUCT_MEMBER b) kvs"
    using b(3) by (auto intro: list.rel_mono_strong)
  with b' b(2) show "struct_at h' s kvs" by (auto simp: struct_at_def)
qed

lemma array_at_kept:
  assumes "heap_ok h' {} E" "frees_only ps h h'" "a \<in> dom (cells h')" "array_at h a vs"
  shows "array_at h' a vs"
proof -
  obtain b where b: "body_at h a = Some (ArrayBody b)" "grown_block SIZEOF_VALUE_PTR b"
      "list_all2 (repr h) (block_data SIZEOF_VALUE_PTR b) vs"
    using assms(4) by (auto simp: array_at_def)
  have b': "body_at h' a = Some (ArrayBody b)" using frees_onlyD(1) [OF assms(2,3)] b(1) by simp
  have "repr h' q t" if "q \<in> set (block_data SIZEOF_VALUE_PTR b)" "repr h q t" for q t
    using repr_kept [OF assms(1,2) ref_live(1) [OF assms(1) refs_array [OF b' that(1)]] that(2)] .
  then have "list_all2 (repr h') (block_data SIZEOF_VALUE_PTR b) vs"
    using b(3) by (auto intro: list.rel_mono_strong)
  with b' b(2) show ?thesis by (auto simp: array_at_def)
qed

lemma struct_at_kept:
  assumes "heap_ok h' {} E" "frees_only ps h h'" "s \<in> dom (cells h')" "struct_at h s kvs"
  shows "struct_at h' s kvs"
proof -
  obtain b where b: "body_at h s = Some (StructBody b)" "grown_block SIZEOF_STRUCT_MEMBER b"
      "list_all2 (member_repr h) (block_data SIZEOF_STRUCT_MEMBER b) kvs"
    using assms(4) by (auto simp: struct_at_def)
  have b': "body_at h' s = Some (StructBody b)" using frees_onlyD(1) [OF assms(2,3)] b(1) by simp
  have "member_repr h' m kv" if m: "m \<in> set (block_data SIZEOF_STRUCT_MEMBER b)" "member_repr h m kv" for m kv
  proof -
    have live: "mkey m \<in> dom (cells h')" "mvalue m \<in> dom (cells h')"
      using ref_live(1) [OF assms(1)] refs_struct [OF b' m(1)] by blast+
    then show ?thesis
      using m(2) frees_onlyD(1) [OF assms(2) live(1)] repr_kept [OF assms(1,2) live(2)]
      by (simp add: key_string_body_at)
  qed
  then have "list_all2 (member_repr h') (block_data SIZEOF_STRUCT_MEMBER b) kvs"
    using b(3) by (auto intro: list.rel_mono_strong)
  with b' b(2) show ?thesis by (auto simp: struct_at_def)
qed

end
