(* ===== verification/Parse_Value.thy ===== *)
theory Parse_Value
  imports Parse_Scalar Xml_Element Owned_Heap
begin

text \<open>
  From the tree of a \<open>value\<close> element to a value in the heap (\<open>src/parse_value.c\<close>).  An element
  is the tree that \<open>xml_parse\<close> built (\<open>Xml_Element\<close>); the block of the children of an element
  holds at most \<open>BLOCK_ALLOC_MAX div 8\<close> of them, so counting them in an \<open>unsigned int\<close> loses
  nothing.  The reference, \<open>read_value\<close>, reads the same tree into a value without memory.
\<close>

section \<open>Steps with clean-up\<close>

definition hoption :: "'a result option \<Rightarrow> ('a, 's) op" where
  "hoption r h = map_option (\<lambda>x. (x, h)) r"

definition hcleanup :: "('a, 's) op \<Rightarrow> ('s \<Rightarrow> 's option) \<Rightarrow> ('a, 's) op" where
  "hcleanup m undo h =
     (case m h of None \<Rightarrow> None
      | Some (Inl f, h') \<Rightarrow> map_option (\<lambda>h''. (Inl f, h'')) (undo h')
      | Some (Inr x, h') \<Rightarrow> Some (Inr x, h'))"

definition hfinally :: "('a, 's) op \<Rightarrow> ('s \<Rightarrow> 's option) \<Rightarrow> ('a, 's) op" where
  "hfinally m fin h =
     (case m h of None \<Rightarrow> None | Some (r, h') \<Rightarrow> map_option (\<lambda>h''. (r, h'')) (fin h'))"

fun each :: "('a \<Rightarrow> (unit, 's) op) \<Rightarrow> 'a list \<Rightarrow> (unit, 's) op" where
  "each f [] = hret ()"
| "each f (x # xs) = hbind (f x) (\<lambda>_. each f xs)"

section \<open>The faults of ill-formed data\<close>

definition too_deep :: fault where
  "too_deep = set_fault XMLRPC_PARSE_ERROR ''Nested data structure too deep.''"

definition data_child_fault :: "string \<Rightarrow> fault" where
  "data_child_fault elemName =
     setParseFault
      [Txt ''<data> element has <'', PctS elemName, Txt ''> child.  '',
       Txt ''Only <value> makes sense.'']"

definition array_count_fault :: "nat \<Rightarrow> fault" where
  "array_count_fault childCount =
     setParseFault
      [Txt ''<array> element has '', PctU childCount,
       Txt '' children.  Only one <data> '', Txt ''makes sense.'']"

definition array_child_fault :: "string \<Rightarrow> fault" where
  "array_child_fault elemName =
     setParseFault
      [Txt ''<array> element has <'', PctS elemName,
       Txt ''> child.  Only <data> '', Txt ''makes sense.'']"

definition name_children_fault :: "nat \<Rightarrow> fault" where
  "name_children_fault childCount =
     setParseFault
      [Txt ''<name> element has '', PctU childCount, Txt '' children.  '',
       Txt ''Should have none.'']"

definition member_count_fault :: "nat \<Rightarrow> fault" where
  "member_count_fault childCount =
     setParseFault
      [Txt ''<member> element has '', PctU childCount,
       Txt '' children.  Only one <name> and '', Txt ''one <value> make sense.'']"

definition struct_child_fault :: "string \<Rightarrow> fault" where
  "struct_child_fault elemName =
     setParseFault
      [Txt ''<'', PctS elemName,
       Txt ''> element found where only <member> '', Txt ''makes sense'']"

definition simple_children_fault :: "nat \<Rightarrow> fault" where
  "simple_children_fault childCount =
     setParseFault
      [Txt ''The child of a <value> element '',
       Txt ''is neither <array> nor <struct>, '',
       Txt ''but has '', PctU childCount, Txt '' child elements of its own.'']"

definition not_value_fault :: "string \<Rightarrow> fault" where
  "not_value_fault elemName =
     setParseFault
      [Txt ''<'', PctS elemName, Txt ''> element where <value> expected'']"

definition value_count_fault :: "nat \<Rightarrow> fault" where
  "value_count_fault childCount =
     setParseFault
      [Txt ''<value> has '', PctU childCount, Txt '' child elements.  '',
       Txt ''Only zero or one make sense.'']"

section \<open>Arrays\<close>

text \<open>\<open>parse\<close> is \<open>xmlrpc_parseValue\<close> one level down.\<close>

definition parseArrayDataChild ::
    "(nat \<Rightarrow> bool) \<Rightarrow> (xml_tree \<Rightarrow> (nat, 'd) heap_op) \<Rightarrow> nat \<Rightarrow> xml_tree \<Rightarrow> (unit, 'd) heap_op" where
  "parseArrayDataChild mok parse arrayP childP =
     (let elemName = xml_element_name childP in
      if elemName \<noteq> ''value''
      then hfail (data_child_fault elemName)
      else hbind (parse childP) (\<lambda>itemP.
             hfinally (xmlrpc_array_append_item mok arrayP itemP) (xmlrpc_DECREF itemP)))"

definition parseArray ::
    "(nat \<Rightarrow> bool) \<Rightarrow> (xml_tree \<Rightarrow> (nat, 'd) heap_op) \<Rightarrow> xml_tree \<Rightarrow> (nat, 'd) heap_op" where
  "parseArray mok parse arrayElemP =
     hbind (xmlrpc_array_new mok) (\<lambda>arrayP.
       hcleanup
         (hbind
           (let childCount = length (xml_element_children arrayElemP) in
            if childCount \<noteq> 1
            then hfail (array_count_fault childCount)
            else
              let dataElemP = hd (xml_element_children arrayElemP);
                  elemName = xml_element_name dataElemP
              in if elemName \<noteq> ''data''
                 then hfail (array_child_fault elemName)
                 else each (parseArrayDataChild mok parse arrayP) (xml_element_children dataElemP))
           (\<lambda>_. hret arrayP))
         (xmlrpc_DECREF arrayP))"

section \<open>Structs\<close>

definition parseName :: "(nat \<Rightarrow> bool) \<Rightarrow> xml_tree \<Rightarrow> (nat, 'd) heap_op" where
  "parseName mok nameElemP =
     (let childCount = length (xml_element_children nameElemP) in
      if childCount > 0
      then hfail (name_children_fault childCount)
      else new_scalar (xmlrpc_string_new_lp mok (xml_element_cdata nameElemP)))"

definition getNameChild :: "xml_tree \<Rightarrow> xml_tree result" where
  "getNameChild parentP =
     (case find (\<lambda>c. xml_element_name c = ''name'') (xml_element_children parentP) of
        None \<Rightarrow> Inl (set_fault XMLRPC_PARSE_ERROR ''<member> has no <name> child'')
      | Some childP \<Rightarrow> Inr childP)"

definition getValueChild :: "xml_tree \<Rightarrow> xml_tree result" where
  "getValueChild parentP =
     (case find (\<lambda>c. xml_element_name c = ''value'') (xml_element_children parentP) of
        None \<Rightarrow> Inl (set_fault XMLRPC_PARSE_ERROR ''<member> has no <value> child'')
      | Some childP \<Rightarrow> Inr childP)"

definition parseMember ::
    "(nat \<Rightarrow> bool) \<Rightarrow> (xml_tree \<Rightarrow> (nat, 'd) heap_op) \<Rightarrow> xml_tree \<Rightarrow> (nat \<times> nat, 'd) heap_op" where
  "parseMember mok parse memberP =
     (let childCount = length (xml_element_children memberP) in
      if childCount \<noteq> 2
      then hfail (member_count_fault childCount)
      else
        hbind (hresult (getNameChild memberP)) (\<lambda>nameElemP.
        hbind (parseName mok nameElemP) (\<lambda>keyP.
          hcleanup
            (hbind (hresult (getValueChild memberP)) (\<lambda>valueElemP.
             hbind (parse valueElemP) (\<lambda>valueP. hret (keyP, valueP))))
            (xmlrpc_DECREF keyP))))"

definition parseStructChild ::
    "(nat \<Rightarrow> bool) \<Rightarrow> (xml_tree \<Rightarrow> (nat, 'd) heap_op) \<Rightarrow> nat \<Rightarrow> xml_tree \<Rightarrow> (unit, 'd) heap_op" where
  "parseStructChild mok parse structP childP =
     (let elemName = xml_element_name childP in
      if elemName \<noteq> ''member''
      then hfail (struct_child_fault elemName)
      else
        hbind (parseMember mok parse childP) (\<lambda>(keyP, valueP).
          hfinally (hfinally (xmlrpc_struct_set_value_v mok structP keyP valueP) (xmlrpc_DECREF keyP))
            (xmlrpc_DECREF valueP)))"

definition parseStruct ::
    "(nat \<Rightarrow> bool) \<Rightarrow> (xml_tree \<Rightarrow> (nat, 'd) heap_op) \<Rightarrow> xml_tree \<Rightarrow> (nat, 'd) heap_op" where
  "parseStruct mok parse elemP =
     hbind (xmlrpc_struct_new mok) (\<lambda>structP.
       hcleanup
         (hbind (each (parseStructChild mok parse structP) (xml_element_children elemP)) (\<lambda>_. hret structP))
         (xmlrpc_DECREF structP))"

section \<open>Values\<close>

definition parseSimpleValue ::
    "(nat \<Rightarrow> bool) \<Rightarrow> ('d, 'a) platform_scheme \<Rightarrow> xml_tree \<Rightarrow> (nat, 'd) heap_op" where
  "parseSimpleValue mok pf elemP =
     (let childCount = length (xml_element_children elemP) in
      if childCount > 0
      then hfail (simple_children_fault childCount)
      else hbind (hoption (parseSimpleValueCdata mok pf (xml_element_name elemP) (xml_element_cdata elemP)))
             (\<lambda>v. new_cell (Scalar v)))"

primrec xmlrpc_parseValue ::
    "(nat \<Rightarrow> bool) \<Rightarrow> ('d, 'a) platform_scheme \<Rightarrow> nat \<Rightarrow> xml_tree \<Rightarrow> (nat, 'd) heap_op" where
  "xmlrpc_parseValue mok pf 0 =
     (\<lambda>elemP. hfail too_deep)"
| "xmlrpc_parseValue mok pf (Suc n) =
     (\<lambda>elemP.
       if xml_element_name elemP \<noteq> ''value''
       then hfail (not_value_fault (xml_element_name elemP))
       else
         let children = xml_element_children elemP in
         if length children = 0
         then new_scalar (xmlrpc_string_new_lp mok (xml_element_cdata elemP))
         else if length children > 1
         then hfail (value_count_fault (length children))
         else
           let childP = hd children; childName = xml_element_name childP in
           if childName = ''struct'' then parseStruct mok (xmlrpc_parseValue mok pf n) childP
           else if childName = ''array'' then parseArray mok (xmlrpc_parseValue mok pf n) childP
           else parseSimpleValue mok pf childP)"

section \<open>Reading without memory\<close>

definition bindO :: "'a result option \<Rightarrow> ('a \<Rightarrow> 'b result option) \<Rightarrow> 'b result option" where
  "bindO m k = (case m of None \<Rightarrow> None | Some (Inl f) \<Rightarrow> Some (Inl f) | Some (Inr x) \<Rightarrow> k x)"

lemma bindO_simps [simp]:
  "bindO None k = None" "bindO (Some (Inl f)) k = Some (Inl f)" "bindO (Some (Inr x)) k = k x"
  by (simp_all add: bindO_def)

fun foldO :: "('s \<Rightarrow> 'a \<Rightarrow> 's result option) \<Rightarrow> 's \<Rightarrow> 'a list \<Rightarrow> 's result option" where
  "foldO f s [] = Some (Inr s)"
| "foldO f s (x # xs) = bindO (f s x) (\<lambda>s'. foldO f s' xs)"

definition text_value :: "string \<Rightarrow> string result" where
  "text_value cdata = bindE (xmlrpc_validate_utf8 cdata) (\<lambda>_. Inr (normalize_lines cdata))"

definition read_array_child ::
    "(xml_tree \<Rightarrow> 'd xvalue result option) \<Rightarrow> 'd xvalue list \<Rightarrow> xml_tree \<Rightarrow> 'd xvalue list result option" where
  "read_array_child read vs t =
     (if xml_element_name t \<noteq> ''value'' then Some (Inl (data_child_fault (xml_element_name t)))
      else bindO (read t) (\<lambda>v. Some (Inr (vs @ [v]))))"

definition read_array :: "(xml_tree \<Rightarrow> 'd xvalue result option) \<Rightarrow> xml_tree \<Rightarrow> 'd xvalue result option" where
  "read_array read t =
     (let cs = xml_element_children t; d = hd cs in
      if length cs \<noteq> 1 then Some (Inl (array_count_fault (length cs)))
      else if xml_element_name d \<noteq> ''data'' then Some (Inl (array_child_fault (xml_element_name d)))
      else bindO (foldO (read_array_child read) [] (xml_element_children d)) (\<lambda>vs. Some (Inr (XArray vs))))"

definition read_name :: "xml_tree \<Rightarrow> string result" where
  "read_name t =
     (let n = length (xml_element_children t) in
      if n > 0 then Inl (name_children_fault n) else text_value (xml_element_cdata t))"

definition read_member ::
    "(xml_tree \<Rightarrow> 'd xvalue result option) \<Rightarrow> xml_tree \<Rightarrow> (string \<times> 'd xvalue) result option" where
  "read_member read t =
     (let n = length (xml_element_children t) in
      if n \<noteq> 2 then Some (Inl (member_count_fault n))
      else
        bindO (Some (getNameChild t)) (\<lambda>nameElem.
        bindO (Some (read_name nameElem)) (\<lambda>key.
        bindO (Some (getValueChild t)) (\<lambda>valueElem.
        bindO (read valueElem) (\<lambda>v. Some (Inr (key, v)))))))"

definition read_struct_child ::
    "(xml_tree \<Rightarrow> 'd xvalue result option) \<Rightarrow> (string \<times> 'd xvalue) list \<Rightarrow> xml_tree \<Rightarrow>
     (string \<times> 'd xvalue) list result option" where
  "read_struct_child read kvs t =
     (if xml_element_name t \<noteq> ''member'' then Some (Inl (struct_child_fault (xml_element_name t)))
      else bindO (read_member read t) (\<lambda>(key, v). Some (Inr (put_member key v kvs))))"

definition read_struct :: "(xml_tree \<Rightarrow> 'd xvalue result option) \<Rightarrow> xml_tree \<Rightarrow> 'd xvalue result option" where
  "read_struct read t =
     bindO (foldO (read_struct_child read) [] (xml_element_children t)) (\<lambda>kvs. Some (Inr (XStruct kvs)))"

definition read_simple :: "('d, 'a) platform_scheme \<Rightarrow> xml_tree \<Rightarrow> 'd xvalue result option" where
  "read_simple pf t =
     (let n = length (xml_element_children t) in
      if n > 0 then Some (Inl (simple_children_fault n))
      else parseSimpleValueCdata always pf (xml_element_name t) (xml_element_cdata t))"

primrec read_value :: "('d, 'a) platform_scheme \<Rightarrow> nat \<Rightarrow> xml_tree \<Rightarrow> 'd xvalue result option" where
  "read_value pf 0 = (\<lambda>t. Some (Inl too_deep))"
| "read_value pf (Suc n) =
     (\<lambda>t.
       let cs = xml_element_children t; c = hd cs in
       if xml_element_name t \<noteq> ''value'' then Some (Inl (not_value_fault (xml_element_name t)))
       else if length cs = 0 then Some (bindE (text_value (xml_element_cdata t)) (\<lambda>s. Inr (XString s)))
       else if length cs > 1 then Some (Inl (value_count_fault (length cs)))
       else if xml_element_name c = ''struct'' then read_struct (read_value pf n) c
       else if xml_element_name c = ''array'' then read_array (read_value pf n) c
       else read_simple pf c)"

text \<open>No element has more children than a block of struct members can take.\<close>

fun tree_fits :: "xml_tree \<Rightarrow> bool" where
  "tree_fits (Elem name cdata ks) \<longleftrightarrow>
     SIZEOF_STRUCT_MEMBER * length ks \<le> BLOCK_ALLOC_MAX \<and> list_all tree_fits ks"

section \<open>The simulation\<close>

text \<open>
  \<open>simulates lax J I out spec\<close>: \<open>out\<close> does what \<open>spec\<close> says, leaving \<open>J\<close> with a fault and
  \<open>I\<close> with a result; \<open>lax\<close> allows memory faults.
\<close>

definition simulates ::
    "bool \<Rightarrow> ('h \<Rightarrow> bool) \<Rightarrow> ('h \<Rightarrow> 'a \<Rightarrow> 's \<Rightarrow> bool) \<Rightarrow>
     ('a result \<times> 'h) option \<Rightarrow> 's result option \<Rightarrow> bool" where
  "simulates lax J I out spec \<longleftrightarrow>
     (case out of None \<Rightarrow> spec = None
      | Some (Inl f, h') \<Rightarrow> J h' \<and> (spec = Some (Inl f) \<or> lax \<and> memory_fault f)
      | Some (Inr x, h') \<Rightarrow> (\<exists>s. spec = Some (Inr s) \<and> I h' x s))"

lemma hbind_hret: "hbind m hret = m"
  by (auto simp: hbind_def hret_def fun_eq_iff split: option.split sum.split)

lemma sim_success:
  "simulates lax J I out (Some (Inr s)) \<Longrightarrow> \<not> lax \<Longrightarrow> \<exists>x h'. out = Some (Inr x, h') \<and> I h' x s"
  by (auto simp: simulates_def split: option.splits sum.splits) (metis sum.exhaust)

lemma sim_bind:
  assumes "simulates lax J I (m h) spec"
    and "\<And>x h' s. I h' x s \<Longrightarrow> simulates lax J I2 (k x h') (k2 s)"
  shows "simulates lax J I2 (hbind m k h) (bindO spec k2)"
  using assms by (fastforce simp: simulates_def hbind_def split: option.splits sum.splits prod.splits)

lemma sim_mono:
  assumes "simulates lax J I out spec" "\<And>h'. J h' \<Longrightarrow> J' h'" "\<And>h' x s. I h' x s \<Longrightarrow> I' h' x s"
  shows "simulates lax J' I' out spec"
  using assms by (fastforce simp: simulates_def split: option.splits sum.splits)

lemma sim_fail: "J h \<Longrightarrow> simulates lax J I (hfail f h) (Some (Inl f))"
  by (simp add: simulates_def hfail_def)

lemma sim_memory: "J h \<Longrightarrow> lax \<Longrightarrow> memory_fault f \<Longrightarrow> simulates lax J I (Some (Inl f, h)) spec"
  by (simp add: simulates_def)

lemma sim_ret: "I h x s \<Longrightarrow> simulates lax J I (hret x h) (Some (Inr s))"
  by (simp add: simulates_def hret_def)

lemma sim_bind_result:
  assumes "J h" "\<And>x. r = Inr x \<Longrightarrow> simulates lax J I (k x h) (k2 x)"
  shows "simulates lax J I (hbind (hresult r) k h) (bindO (Some r) k2)"
  using assms by (cases r) (simp_all add: simulates_def hbind_def hresult_def)

lemma sim_option:
  assumes "agrees_option r r0" "\<not> lax \<Longrightarrow> r = r0" "J h" "\<And>x. r = Some (Inr x) \<Longrightarrow> I h x x"
  shows "simulates lax J I (hoption r h) r0"
  using assms
  by (auto simp: simulates_def hoption_def agrees_option_def agrees_def split: option.splits sum.splits)

lemma sim_cleanup:
  assumes "simulates lax J I (m h) spec" "\<And>h'. J h' \<Longrightarrow> \<exists>h''. undo h' = Some h'' \<and> J' h''"
  shows "simulates lax J' I (hcleanup m undo h) spec"
  using assms by (fastforce simp: simulates_def hcleanup_def split: option.splits sum.splits prod.splits)

lemma sim_finally:
  assumes "simulates lax J I (m h) spec" "\<And>h'. J h' \<Longrightarrow> \<exists>h''. fin h' = Some h'' \<and> J' h''"
    and "\<And>h' x s. I h' x s \<Longrightarrow> \<exists>h''. fin h' = Some h'' \<and> I' h'' x s"
  shows "simulates lax J' I' (hfinally m fin h) spec"
proof (cases "m h")
  case None
  with assms(1) show ?thesis by (simp add: simulates_def hfinally_def)
next
  case (Some rh)
  obtain r h' where rh: "rh = (r, h')" by force
  show ?thesis
  proof (cases r)
    case (Inl f)
    then have "J h'" "spec = Some (Inl f) \<or> lax \<and> memory_fault f"
      using assms(1) Some rh by (simp_all add: simulates_def)
    with assms(2) [OF this(1)] Some rh Inl show ?thesis by (auto simp: simulates_def hfinally_def)
  next
    case (Inr x)
    then obtain s where "spec = Some (Inr s)" "I h' x s"
      using assms(1) Some rh by (auto simp: simulates_def)
    with assms(3) [OF this(2)] Some rh Inr show ?thesis by (auto simp: simulates_def hfinally_def)
  qed
qed

text \<open>A loop: the invariant counts the rounds.\<close>

lemma sim_each:
  assumes "\<And>h n s x. x \<in> set xs \<Longrightarrow> n < n0 + length xs \<Longrightarrow> I n h s \<Longrightarrow>
      simulates lax J (\<lambda>h' _ s'. I (Suc n) h' s') (f x h) (g s x)"
    and "I n0 h s"
  shows "simulates lax J (\<lambda>h' _ s'. I (n0 + length xs) h' s') (each f xs h) (foldO g s xs)"
  using assms
proof (induction xs arbitrary: n0 h s)
  case Nil
  then show ?case by (simp add: sim_ret)
next
  case (Cons x xs)
  have "simulates lax J (\<lambda>h' _ s'. I (Suc n0 + length xs) h' s') (hbind (f x) (\<lambda>_. each f xs) h)
      (bindO (g s x) (\<lambda>s'. foldO g s' xs))"
  proof (rule sim_bind)
    show "simulates lax J (\<lambda>h' _ s'. I (Suc n0) h' s') (f x h) (g s x)"
      using Cons.prems by simp
    show "simulates lax J (\<lambda>h' _ s'. I (Suc n0 + length xs) h' s') (each f xs h') (foldO g s' xs)"
      if "I (Suc n0) h' s'" for h' s' and u :: unit
      using that by (intro Cons.IH) (auto intro: Cons.prems(1))
  qed
  then show ?case by simp
qed

section \<open>The parser against the reader\<close>

abbreviation stays :: "nat multiset \<Rightarrow> 'd heap \<Rightarrow> 'd heap \<Rightarrow> bool" where
  "stays E h h' \<equiv> heap_ok h' {} E \<and> extends h h'"

definition made :: "nat multiset \<Rightarrow> 'd heap \<Rightarrow> 'd heap \<Rightarrow> nat \<Rightarrow> 'd xvalue \<Rightarrow> bool" where
  "made E h h' p v \<longleftrightarrow> heap_ok h' {} (add_mset p E) \<and> extends h h' \<and> p = fresh h \<and> repr h' p v"

lemma madeD:
  assumes "heap_ok h {} E" "made E h h' p v"
  shows "p = fresh h" "heap_ok h' {} (add_mset p E)" "extends h h'" "repr h' p v" "rc h' p = 1"
    "p \<in> dom (cells h')" "p \<notin> dom (cells h)"
proof -
  show *: "p = fresh h" "heap_ok h' {} (add_mset p E)" "extends h h'" "repr h' p v"
    using assms(2) unfolding made_def by blast+
  show "rc h' p = 1"
    using first_cell_rc [OF assms(1) *(2,3)] fresh_not_owned [OF assms(1), of p] *(1) by simp
  show "p \<in> dom (cells h')" using repr_live [OF *(4)] .
  show "p \<notin> dom (cells h)" using heap_okD(4) [OF assms(1), of p] *(1) by auto
qed

lemma give_up:
  assumes "heap_ok h0 {} E0" "heap_ok h {} (add_mset p E)" "extends h0 h" "fresh h0 \<le> p"
  obtains h' where "xmlrpc_DECREF p h = Some h'" "heap_ok h' {} E" "extends h0 h'" "frees_only [p] h h'"
    "fresh h' = fresh h"
proof -
  obtain h' where h': "xmlrpc_DECREF p h = Some h'" "heap_ok h' {} E" "fresh h' = fresh h" "frees_only [p] h h'"
    using release [OF assms(2)] by blast
  have "p \<in> dom (cells h)" using owned_live(1) [OF assms(2), of p] by simp
  from extends_release [OF assms(1-3) h'(4,3) assms(4) this] h' that show ?thesis by blast
qed

lemma sim_scalar:
  assumes ok: "heap_ok h {} E" and r: "agrees_option r r0" "\<not> lax \<Longrightarrow> r = r0" "\<And>v. r = Some (Inr v) \<Longrightarrow> scalar v"
  shows "simulates lax (stays E h) (made E h) (hbind (hoption r) (\<lambda>v. new_cell (Scalar v)) h) r0"
proof -
  have new: "simulates lax (stays E h) (made E h) (new_cell (Scalar v) h) (Some (Inr v))" if "scalar v" for v
  proof -
    have "body_ok h (Scalar v)" "body_refs (Scalar v) = []" using that by (simp_all add: scalar_def)
    then obtain h' where "new_cell (Scalar v) h = Some (Inr (fresh h), h')"
      "heap_ok h' {} (add_mset (fresh h) E)" "extends h h'" "body_at h' (fresh h) = Some (Scalar v)"
      using new_cell_extends [OF ok] by metis
    moreover from this that have "repr h' (fresh h) v" by (intro repr_scalar) (simp_all add: scalar_def)
    ultimately show ?thesis by (simp add: simulates_def made_def)
  qed
  have "simulates lax (stays E h) (made E h) (hbind (hoption r) (\<lambda>v. new_cell (Scalar v)) h)
      (bindO r0 (\<lambda>v. Some (Inr v)))"
    by (rule sim_bind [where I = "\<lambda>h' v v'. h' = h \<and> v' = v \<and> r = Some (Inr v)"])
      (use ok r new extends_refl [OF ok] in \<open>auto intro!: sim_option\<close>)
  moreover have "bindO r0 (\<lambda>v. Some (Inr v)) = r0" by (simp add: bindO_def split: option.split sum.split)
  ultimately show ?thesis by simp
qed

lemma string_new_lp_always:
  "xmlrpc_string_new_lp always cdata = bindE (text_value cdata) (\<lambda>s. Inr (XString s))"
proof (cases "xmlrpc_validate_utf8 cdata")
  case (Inl f)
  then show ?thesis by (simp add: xmlrpc_string_new_lp_def stringNew_def text_value_def)
next
  case (Inr u)
  then have "utf8_text cdata" using isOK_validate_utf8 [of cdata] by simp
  then show ?thesis
    using Inr stringNew_always [of cdata CR_IS_LINEDELIM] by (simp add: xmlrpc_string_new_lp_def text_value_def)
qed

lemma sim_text:
  assumes ok: "heap_ok h {} E" and mem: "\<not> lax \<Longrightarrow> mok = always"
  shows "simulates lax (stays E h) (made E h) (new_scalar (xmlrpc_string_new_lp mok cdata) h)
           (Some (bindE (text_value cdata) (\<lambda>s. Inr (XString s))))"
proof -
  have "new_scalar r = hbind (hoption (Some r)) (\<lambda>v. new_cell (Scalar v))" for r :: "'a xvalue result"
    by (simp add: new_scalar_def hbind_def hresult_def hoption_def fun_eq_iff)
  then show ?thesis
    using sim_scalar [OF ok, of "Some (xmlrpc_string_new_lp mok cdata)" "Some (xmlrpc_string_new_lp always cdata)" lax]
      agrees_string_new_lp [of mok cdata] simple_new_scalar(8) mem
    by (auto simp: string_new_lp_always)
qed

lemma sim_parseSimpleValue:
  assumes ok: "heap_ok h {} E" and mem: "\<not> lax \<Longrightarrow> mok = always"
  shows "simulates lax (stays E h) (made E h) (parseSimpleValue mok pf t h) (read_simple pf t)"
proof (cases "xml_element_children t")
  case Nil
  then show ?thesis
    using sim_scalar [OF ok agrees_parseSimple, of lax mok pf "xml_element_name t" "xml_element_cdata t"] mem
      parseSimple_scalar by (fastforce simp: parseSimpleValue_def read_simple_def)
next
  case (Cons c cs)
  then show ?thesis using ok by (simp add: parseSimpleValue_def read_simple_def sim_fail extends_refl [OF ok])
qed

lemma sim_parseName:
  assumes ok: "heap_ok h {} E" and mem: "\<not> lax \<Longrightarrow> mok = always"
  shows "simulates lax (stays E h) (\<lambda>h' p key. made E h h' p (XString key)) (parseName mok t h) (Some (read_name t))"
proof (cases "xml_element_children t")
  case (Cons c cs)
  then show ?thesis using ok by (simp add: parseName_def read_name_def sim_fail extends_refl [OF ok])
next
  case Nil
  have "simulates lax (stays E h) (made E h) (new_scalar (xmlrpc_string_new_lp mok (xml_element_cdata t)) h)
      (Some (bindE (text_value (xml_element_cdata t)) (\<lambda>s. Inr (XString s))))"
    by (rule sim_text [OF ok mem])
  then show ?thesis
    using Nil by (cases "text_value (xml_element_cdata t)")
      (auto simp: parseName_def read_name_def simulates_def split: option.splits sum.splits)
qed

subsection \<open>Arrays\<close>

definition filling_array :: "nat multiset \<Rightarrow> 'd heap \<Rightarrow> nat \<Rightarrow> 'd heap \<Rightarrow> 'd xvalue list \<Rightarrow> bool" where
  "filling_array E h0 n h vs \<longleftrightarrow>
     heap_ok h {} (add_mset (fresh h0) E) \<and> extends h0 h \<and> array_at h (fresh h0) vs \<and> length vs = n"

lemma sim_array_item:
  assumes ok: "heap_ok h0 {} E" and mem: "\<not> lax \<Longrightarrow> mok = always"
    and fits: "\<not> lax \<Longrightarrow> SIZEOF_VALUE_PTR * (n + 1) \<le> BLOCK_ALLOC_MAX"
    and fill: "filling_array E h0 n h vs" and item: "made (add_mset (fresh h0) E) h h1 p v"
  shows "simulates lax (\<lambda>h'. heap_ok h' {} (add_mset (fresh h0) E) \<and> extends h0 h')
           (\<lambda>h' _ vs'. filling_array E h0 (Suc n) h' vs')
           (hfinally (xmlrpc_array_append_item mok (fresh h0) p) (xmlrpc_DECREF p) h1) (Some (Inr (vs @ [v])))"
proof -
  let ?a = "fresh h0" and ?E = "add_mset (fresh h0) E"
  have h: "heap_ok h {} ?E" "extends h0 h" "array_at h ?a vs" "length vs = n"
    using fill by (simp_all add: filling_array_def)
  note m = madeD [OF h(1) item]
  have ext: "extends h0 h1" using extends_trans [OF h(2) m(3)] .
  have a: "array_at h1 ?a vs" by (rule array_at_extends [OF m(3) h(1,3)])
  have al: "?a \<in> dom (cells h)" using owned_live(1) [OF h(1), of ?a] by simp
  then have al1: "?a \<in> dom (cells h1)" using extends_live [OF m(3)] by blast
  have fp: "?a < p" using heap_okD(4) [OF h(1) al] m(1) by simp
  have "(?a, p) \<notin> (refs_rel h1)\<^sup>*"
  proof
    assume "(?a, p) \<in> (refs_rel h1)\<^sup>*"
    from reach_from_new [OF h(1) m(2,3) this _ m(6)] m(1) al show False by simp
  qed
  moreover have "rc h1 p + 1 < 2 ^ 32" using m(5) by simp
  ultimately show ?thesis
  proof (rule array_append_repr [OF m(2) a m(4)])
    fix f assume f: "xmlrpc_array_append_item mok ?a p h1 = Some (Inl f, h1)" "memory_fault f"
      "mok = always \<Longrightarrow> BLOCK_ALLOC_MAX < SIZEOF_VALUE_PTR * (length vs + 1)"
    have "lax" using f(3) mem fits h(4) by (cases lax) auto
    moreover obtain h2 where "xmlrpc_DECREF p h1 = Some h2" "heap_ok h2 {} ?E" "extends h0 h2"
      using give_up [OF ok m(2) ext] fp by auto
    ultimately show ?thesis using f by (simp add: simulates_def hfinally_def)
  next
    fix h2 assume h2: "xmlrpc_array_append_item mok ?a p h1 = Some (Inr (), h2)" "heap_ok h2 {} (add_mset p ?E)"
      "array_at h2 ?a (vs @ [v])" "fresh h2 = fresh h1" "rc h2 p = rc h1 p + 1"
      "\<And>q. q \<noteq> ?a \<Longrightarrow> body_at h2 q = body_at h1 q" "refs_at h2 ?a = add_mset p (refs_at h1 ?a)"
    have "extends h0 h2"
    proof (rule extends_modify [OF ok m(2) ext order_refl al1 h2(4)])
      show "body_at h2 q = body_at h1 q \<and> q \<in> dom (cells h1)" if "q \<noteq> ?a" "q \<in> dom (cells h2)" for q
        using h2(6) [OF that(1)] that(2) by (auto simp: live_iff_body)
      show "(q, ?a) \<in> (refs_rel h1)\<^sup>*" if "q \<in> dom (cells h1)" "q \<notin> dom (cells h2)" for q
        using h2(6) [of q] that by (cases "q = ?a") (auto simp: live_iff_body)
      show "?a \<notin> dom (cells h0)" using heap_okD(4) [OF ok, of ?a] by auto
      show "refs_at h2 ?a \<subseteq># refs_at h1 ?a + mset [p]" using h2(7) by simp
      show "?a < n \<and> n \<in># add_mset p ?E \<and> rc h1 n = 1" if "n \<in> set [p]" for n using that fp m(5) by simp
    qed simp
    then obtain h3 where h3: "xmlrpc_DECREF p h2 = Some h3" "heap_ok h3 {} ?E" "extends h0 h3" "frees_only [p] h2 h3"
      using give_up [OF ok h2(2)] fp by auto
    have "array_at h3 ?a (vs @ [v])"
      using array_at_kept [OF h3(2,4) _ h2(3)] owned_live(1) [OF h3(2), of ?a] by simp
    with h3 h2(1) h(4) show ?thesis by (simp add: simulates_def hfinally_def filling_array_def)
  qed
qed

lemma init_cases:
  assumes "0 < u"
  obtains (faulted) f where "mem_block_init mok u 0 = (Inl f :: 'b mem_block result)" "memory_fault f" "mok \<noteq> always"
  | (made) b :: "'b mem_block" where "mem_block_init mok u 0 = Inr b" "grown_block u b" "block_data u b = []"
proof (cases "mok BLOCK_ALLOC_MIN")
  case True
  then show ?thesis using mem_block_init_empty [of u mok, OF assms True] made unfolding grown_block_def by force
next
  case False
  then have "mok \<noteq> always" by (auto simp: always_def)
  moreover obtain f where "mem_block_init mok u 0 = (Inl f :: 'b mem_block result)" "memory_fault f"
    using False by (simp add: mem_block_init_def memory_fault_def)
  ultimately show ?thesis using faulted by blast
qed

lemma createXmlrpcValue_cases:
  obtains (faulted) f where "xmlrpc_createXmlrpcValue mok = Inl f" "memory_fault f" "mok \<noteq> always"
  | (made) "xmlrpc_createXmlrpcValue mok = Inr ()"
proof (cases "mok SIZEOF_XMLRPC_VALUE")
  case True
  then show ?thesis using made by (simp add: xmlrpc_createXmlrpcValue_def)
next
  case False
  then have "mok \<noteq> always" by (auto simp: always_def)
  with False show ?thesis using faulted by (simp add: xmlrpc_createXmlrpcValue_def memory_fault_def)
qed

text \<open>A container is made first, filled, and given up when the filling faults.\<close>

lemma sim_new_container:
  fixes mk :: "'b mem_block \<Rightarrow> 'd body"
  assumes ok: "heap_ok h {} E" and mem: "\<not> lax \<Longrightarrow> mok = always" and u: "0 < u"
    and body: "\<And>b. grown_block u b \<Longrightarrow> block_data u b = [] \<Longrightarrow> body_ok h (mk b) \<and> body_refs (mk b) = []"
    and fill: "\<And>b h1. grown_block u b \<Longrightarrow> block_data u b = [] \<Longrightarrow> heap_ok h1 {} (add_mset (fresh h) E) \<Longrightarrow>
      extends h h1 \<Longrightarrow> body_at h1 (fresh h) = Some (mk b) \<Longrightarrow>
      simulates lax (stays (add_mset (fresh h) E) h) I (m (fresh h) h1) spec"
  shows "simulates lax (stays E h) I
    (hbind (\<lambda>h. hbind (hresult (xmlrpc_createXmlrpcValue mok)) (\<lambda>_.
              hbind (hresult (mem_block_init mok u 0)) (\<lambda>b. new_cell (mk b))) h)
       (\<lambda>p. hcleanup (m p) (xmlrpc_DECREF p)) h) spec"
proof (cases rule: createXmlrpcValue_cases [of mok])
  case (faulted f)
  then show ?thesis using mem ok by (cases lax) (auto simp: hbind_def hresult_def simulates_def extends_refl [OF ok])
next
  case made_value: made
  consider (faulted) f where "mem_block_init mok u 0 = (Inl f :: 'b mem_block result)" "memory_fault f" "mok \<noteq> always"
    | (made) b :: "'b mem_block" where "mem_block_init mok u 0 = Inr b" "grown_block u b" "block_data u b = []"
    by (rule init_cases [OF u])
  then show ?thesis
  proof cases
    case (faulted f)
    then show ?thesis
      using made_value mem ok by (cases lax) (auto simp: hbind_def hresult_def simulates_def extends_refl [OF ok])
  next
    case (made b)
    have "body_ok h (mk b)" "body_refs (mk b) = []" using body [OF made(2,3)] by simp_all
    then obtain h1 where h1: "new_cell (mk b) h = Some (Inr (fresh h), h1)"
      "heap_ok h1 {} (add_mset (fresh h) E)" "extends h h1" "body_at h1 (fresh h) = Some (mk b)"
      using new_cell_extends [OF ok] by metis
    have "simulates lax (stays (add_mset (fresh h) E) h) I (m (fresh h) h1) spec"
      by (rule fill [OF made(2,3) h1(2-4)])
    then have "simulates lax (stays E h) I (hcleanup (m (fresh h)) (xmlrpc_DECREF (fresh h)) h1) spec"
      by (rule sim_cleanup) (use give_up [OF ok _ _ order_refl] in \<open>metis\<close>)
    then show ?thesis using made_value made(1) h1(1) by (simp add: hbind_def hresult_def)
  qed
qed

lemma sim_container:
  fixes mk :: "'b mem_block \<Rightarrow> 'd body"
  assumes "heap_ok h {} E" "\<not> lax \<Longrightarrow> mok = always" "0 < u"
    and "\<And>b. grown_block u b \<Longrightarrow> block_data u b = [] \<Longrightarrow> body_ok h (mk b) \<and> body_refs (mk b) = []"
    and fill: "\<And>b h1. grown_block u b \<Longrightarrow> block_data u b = [] \<Longrightarrow> heap_ok h1 {} (add_mset (fresh h) E) \<Longrightarrow>
      extends h h1 \<Longrightarrow> body_at h1 (fresh h) = Some (mk b) \<Longrightarrow>
      simulates lax (stays (add_mset (fresh h) E) h) (\<lambda>h' _ v. made E h h' (fresh h) v) (m (fresh h) h1) spec"
  shows "simulates lax (stays E h) (made E h)
    (hbind (\<lambda>h. hbind (hresult (xmlrpc_createXmlrpcValue mok)) (\<lambda>_.
              hbind (hresult (mem_block_init mok u 0)) (\<lambda>b. new_cell (mk b))) h)
       (\<lambda>p. hcleanup (hbind (m p) (\<lambda>_. hret p)) (xmlrpc_DECREF p)) h) spec"
proof (rule sim_new_container [OF assms(1-4)])
  fix b h1 assume "grown_block u b" "block_data u b = []" "heap_ok h1 {} (add_mset (fresh h) E)"
    "extends h h1" "body_at h1 (fresh h) = Some (mk b)"
  then have "simulates lax (stays (add_mset (fresh h) E) h) (made E h) (hbind (m (fresh h)) (\<lambda>_. hret (fresh h)) h1)
      (bindO spec (\<lambda>v. Some (Inr v)))"
    by - (rule sim_bind, rule fill; (assumption | rule sim_ret))
  moreover have "bindO spec (\<lambda>v. Some (Inr v)) = spec" by (simp add: bindO_def split: option.split sum.split)
  ultimately show "simulates lax (stays (add_mset (fresh h) E) h) (made E h) (hbind (m (fresh h)) (\<lambda>_. hret (fresh h)) h1) spec"
    by simp
qed

lemma sim_parseArray:
  assumes ok: "heap_ok h {} E" and mem: "\<not> lax \<Longrightarrow> mok = always" and fits: "\<not> lax \<Longrightarrow> tree_fits t"
    and child: "\<And>h E t. heap_ok h {} E \<Longrightarrow> (\<not> lax \<Longrightarrow> tree_fits t) \<Longrightarrow>
      simulates lax (stays E h) (made E h) (parse t h) (read t)"
  shows "simulates lax (stays E h) (made E h) (parseArray mok parse t h) (read_array read t)"
  unfolding parseArray_def xmlrpc_array_new_def [abs_def]
proof (rule sim_container [OF ok mem, where mk = ArrayBody])
  show "0 < SIZEOF_VALUE_PTR" by simp
  show "body_ok h (ArrayBody b) \<and> body_refs (ArrayBody b) = []"
    if "grown_block SIZEOF_VALUE_PTR b" "block_data SIZEOF_VALUE_PTR b = []" for b
    using that by (simp add: grown_block_def)
  fix b h1
  assume b: "grown_block SIZEOF_VALUE_PTR b" "block_data SIZEOF_VALUE_PTR b = []"
    and h1: "heap_ok h1 {} (add_mset (fresh h) E)" "extends h h1" "body_at h1 (fresh h) = Some (ArrayBody b)"
  let ?a = "fresh h" and ?cs = "xml_element_children t"
  let ?d = "hd ?cs"
  have fail: "simulates lax (stays (add_mset ?a E) h) (\<lambda>h' _ v. made E h h' ?a v) (hfail f h1) (Some (Inl f))" for f
    by (rule sim_fail) (use h1 in simp)
  have start: "filling_array E h 0 h1 []"
    using h1 b by (auto simp: filling_array_def array_at_def)
  have item: "simulates lax (stays (add_mset ?a E) h) (\<lambda>h' _ vs'. filling_array E h (Suc n) h' vs')
      (parseArrayDataChild mok parse ?a c h') (read_array_child read vs c)"
    if c: "c \<in> set (xml_element_children ?d)" "n < 0 + length (xml_element_children ?d)" "filling_array E h n h' vs"
      "length ?cs = 1" for c n h' vs
  proof -
    have h': "heap_ok h' {} (add_mset ?a E)" "extends h h'" using c(3) by (simp_all add: filling_array_def)
    have "tree_fits ?d" if "\<not> lax"
      using fits [OF that] c(4) by (cases t; cases "xml_element_children t") auto
    then have fd: "SIZEOF_VALUE_PTR * (n + 1) \<le> BLOCK_ALLOC_MAX" "tree_fits c" if "\<not> lax"
      using that c(1,2) by (cases ?d; force simp: list_all_iff)+
    show ?thesis
    proof (cases "xml_element_name c = ''value''")
      case False
      then show ?thesis using h' by (simp add: parseArrayDataChild_def read_array_child_def sim_fail)
    next
      case True
      have "simulates lax (stays (add_mset ?a E) h') (made (add_mset ?a E) h') (parse c h') (read c)"
        by (rule child [OF h'(1)]) (rule fd(2))
      then have "simulates lax (stays (add_mset ?a E) h) (made (add_mset ?a E) h') (parse c h') (read c)"
        by (rule sim_mono) (use extends_trans [OF h'(2)] in auto)
      then have "simulates lax (stays (add_mset ?a E) h) (\<lambda>h' _ vs'. filling_array E h (Suc n) h' vs')
          (hbind (parse c) (\<lambda>itemP. hfinally (xmlrpc_array_append_item mok ?a itemP) (xmlrpc_DECREF itemP)) h')
          (bindO (read c) (\<lambda>v. Some (Inr (vs @ [v]))))"
        by (rule sim_bind) (rule sim_array_item [OF ok mem fd(1) c(3)])
      with True show ?thesis by (simp add: parseArrayDataChild_def read_array_child_def)
    qed
  qed
  show "simulates lax (stays (add_mset ?a E) h) (\<lambda>h' _ v. made E h h' ?a v)
     ((let childCount = length ?cs in
       if childCount \<noteq> 1 then hfail (array_count_fault childCount)
       else let dataElemP = ?d; elemName = xml_element_name dataElemP
            in if elemName \<noteq> ''data'' then hfail (array_child_fault elemName)
               else each (parseArrayDataChild mok parse ?a) (xml_element_children dataElemP)) h1)
     (read_array read t)"
  proof (cases "length ?cs = 1 \<and> xml_element_name ?d = ''data''")
    case False
    then show ?thesis using fail by (auto simp: read_array_def Let_def)
  next
    case True
    have "simulates lax (stays (add_mset ?a E) h)
        (\<lambda>h' _ vs. filling_array E h (0 + length (xml_element_children ?d)) h' vs)
        (each (parseArrayDataChild mok parse ?a) (xml_element_children ?d) h1)
        (foldO (read_array_child read) [] (xml_element_children ?d))"
      by (rule sim_each [where I = "filling_array E h", OF item start]) (use True in auto)
    then have "simulates lax (stays (add_mset ?a E) h) (\<lambda>h' _ v. made E h h' ?a v)
        (hbind (each (parseArrayDataChild mok parse ?a) (xml_element_children ?d)) (\<lambda>_. hret ()) h1)
        (bindO (foldO (read_array_child read) [] (xml_element_children ?d)) (\<lambda>vs. Some (Inr (XArray vs))))"
      by (rule sim_bind)
        (auto simp: filling_array_def made_def intro!: sim_ret array_at_repr)
    then show ?thesis using True by (simp add: read_array_def Let_def hbind_hret)
  qed
qed

subsection \<open>Structs\<close>

definition member_made ::
    "nat multiset \<Rightarrow> 'd heap \<Rightarrow> 'd heap \<Rightarrow> nat \<times> nat \<Rightarrow> string \<times> 'd xvalue \<Rightarrow> bool" where
  "member_made E h h' kp kv \<longleftrightarrow>
     (let (k, p) = kp in
      heap_ok h' {} (add_mset p (add_mset k E)) \<and> extends h h' \<and> fresh h \<le> k \<and> k < p \<and>
      rc h' k = 1 \<and> rc h' p = 1 \<and> body_at h' k = Some (Scalar (XString (fst kv))) \<and> repr h' p (snd kv))"

lemma repr_string: "repr h p (XString s) \<Longrightarrow> body_at h p = Some (Scalar (XString s))"
  by (cases rule: repr.cases) auto

lemma made_member:
  assumes ok: "heap_ok h {} E" and m1: "made E h h1 k (XString s)" and m2: "made (add_mset k E) h1 h2 p v"
  shows "member_made E h h2 (k, p) (s, v)"
proof -
  note k = madeD [OF ok m1]
  note p = madeD [OF k(2) m2]
  have ext: "extends h h2" using extends_trans [OF k(3) p(3)] .
  have "k < p" using heap_okD(4) [OF k(2) k(6)] p(1) by simp
  then have "rc h2 k = 1"
    using first_cell_rc [OF ok p(2) ext] fresh_not_owned [OF ok, of k] k(1) by simp
  moreover have "body_at h2 k = Some (Scalar (XString s))"
    using extends_live [OF p(3) k(6)] repr_string [OF k(4)] by simp
  ultimately show ?thesis
    using p(2,4,5) ext k(1) \<open>k < p\<close> by (simp add: member_made_def)
qed

lemma sim_parseMember:
  assumes ok: "heap_ok h {} E" and mem: "\<not> lax \<Longrightarrow> mok = always" and fits: "\<not> lax \<Longrightarrow> tree_fits t"
    and child: "\<And>h E t. heap_ok h {} E \<Longrightarrow> (\<not> lax \<Longrightarrow> tree_fits t) \<Longrightarrow>
      simulates lax (stays E h) (made E h) (parse t h) (read t)"
  shows "simulates lax (stays E h) (member_made E h) (parseMember mok parse t h) (read_member read t)"
proof (cases "length (xml_element_children t) = 2")
  case False
  then show ?thesis using ok by (simp add: parseMember_def read_member_def sim_fail extends_refl [OF ok])
next
  case True
  have rest: "simulates lax (stays (add_mset k E) h) (member_made E h)
      (hbind (hresult (getValueChild t)) (\<lambda>valueElemP. hbind (parse valueElemP) (\<lambda>valueP. hret (k, valueP))) h1)
      (bindO (Some (getValueChild t)) (\<lambda>valueElem. bindO (read valueElem) (\<lambda>v. Some (Inr (key, v)))))"
    if made1: "made E h h1 k (XString key)" for h1 k key
  proof -
    note k = madeD [OF ok made1]
    have part: "simulates lax (stays (add_mset k E) h) (member_made E h)
        (hbind (parse c) (\<lambda>valueP. hret (k, valueP)) h1) (bindO (read c) (\<lambda>v. Some (Inr (key, v))))"
      if c: "getValueChild t = Inr c" for c
    proof -
      have "tree_fits c" if "\<not> lax"
      proof -
        have "c \<in> set (xml_element_children t)"
          using c by (auto simp: getValueChild_def find_Some_iff split: option.splits)
        then show ?thesis using fits [OF that] by (cases t) (auto simp: list_all_iff)
      qed
      then have "simulates lax (stays (add_mset k E) h1) (made (add_mset k E) h1) (parse c h1) (read c)"
        by (intro child [OF k(2)]) blast
      then have "simulates lax (stays (add_mset k E) h) (made (add_mset k E) h1) (parse c h1) (read c)"
        by (rule sim_mono) (use extends_trans [OF k(3)] in auto)
      then show ?thesis
        by (rule sim_bind) (intro sim_ret made_member [OF ok made1])
    qed
    show ?thesis
      by (rule sim_bind_result) (use k(2,3) part in auto)
  qed
  have "simulates lax (stays E h) (member_made E h)
    (hbind (hresult (getNameChild t)) (\<lambda>nameElemP.
     hbind (parseName mok nameElemP) (\<lambda>keyP.
       hcleanup
         (hbind (hresult (getValueChild t)) (\<lambda>valueElemP. hbind (parse valueElemP) (\<lambda>valueP. hret (keyP, valueP))))
         (xmlrpc_DECREF keyP))) h)
    (bindO (Some (getNameChild t)) (\<lambda>nameElem. bindO (Some (read_name nameElem)) (\<lambda>key.
     bindO (Some (getValueChild t)) (\<lambda>valueElem. bindO (read valueElem) (\<lambda>v. Some (Inr (key, v)))))))"
  proof (rule sim_bind_result)
    fix x assume "getNameChild t = Inr x"
    show "simulates lax (stays E h) (member_made E h)
      (hbind (parseName mok x) (\<lambda>keyP.
         hcleanup
           (hbind (hresult (getValueChild t)) (\<lambda>valueElemP. hbind (parse valueElemP) (\<lambda>valueP. hret (keyP, valueP))))
           (xmlrpc_DECREF keyP)) h)
      (bindO (Some (read_name x)) (\<lambda>key.
       bindO (Some (getValueChild t)) (\<lambda>valueElem. bindO (read valueElem) (\<lambda>v. Some (Inr (key, v))))))"
    proof (rule sim_bind, rule sim_parseName [OF ok mem], assumption)
      fix k h1 key assume m: "made E h h1 k (XString key)"
      show "simulates lax (stays E h) (member_made E h)
        (hcleanup
           (hbind (hresult (getValueChild t)) (\<lambda>valueElemP. hbind (parse valueElemP) (\<lambda>valueP. hret (k, valueP))))
           (xmlrpc_DECREF k) h1)
        (bindO (Some (getValueChild t)) (\<lambda>valueElem. bindO (read valueElem) (\<lambda>v. Some (Inr (key, v)))))"
        by (rule sim_cleanup, rule rest [OF m])
          (use give_up [OF ok] madeD(1) [OF ok m] in \<open>metis order_refl\<close>)
    qed
  qed (use ok extends_refl [OF ok] in auto)
  then show ?thesis using True by (simp add: parseMember_def read_member_def)
qed

definition filling_struct :: "nat multiset \<Rightarrow> 'd heap \<Rightarrow> nat \<Rightarrow> 'd heap \<Rightarrow> (string \<times> 'd xvalue) list \<Rightarrow> bool" where
  "filling_struct E h0 n h kvs \<longleftrightarrow>
     heap_ok h {} (add_mset (fresh h0) E) \<and> extends h0 h \<and> struct_at h (fresh h0) kvs \<and> length kvs \<le> n"

lemma sim_struct_set:
  assumes ok: "heap_ok h0 {} E" and mem: "\<not> lax \<Longrightarrow> mok = always"
    and fits: "\<not> lax \<Longrightarrow> SIZEOF_STRUCT_MEMBER * (n + 1) \<le> BLOCK_ALLOC_MAX"
    and fill: "filling_struct E h0 n h kvs" and item: "member_made (add_mset (fresh h0) E) h h1 (k, p) (key, v)"
  defines "held2 \<equiv> add_mset p (add_mset k (add_mset (fresh h0) E))"
  shows "simulates lax (\<lambda>h'. heap_ok h' {} held2 \<and> extends h0 h')
           (\<lambda>h' _ kvs'. heap_ok h' {} held2 \<and> extends h0 h' \<and> struct_at h' (fresh h0) kvs' \<and> length kvs' \<le> Suc n)
           (xmlrpc_struct_set_value_v mok (fresh h0) k p h1) (Some (Inr (put_member key v kvs)))"
proof -
  let ?s = "fresh h0"
  have h: "heap_ok h {} (add_mset ?s E)" "extends h0 h" "struct_at h ?s kvs" "length kvs \<le> n"
    using fill by (simp_all add: filling_struct_def)
  have m: "heap_ok h1 {} held2" "extends h h1" "fresh h \<le> k" "k < p" "rc h1 k = 1" "rc h1 p = 1"
    "body_at h1 k = Some (Scalar (XString key))" "repr h1 p v"
    using item by (simp_all add: member_made_def held2_def)
  have ext: "extends h0 h1" using extends_trans [OF h(2) m(2)] .
  have s: "struct_at h1 ?s kvs" by (rule struct_at_extends [OF m(2) h(1,3)])
  have sl: "?s \<in> dom (cells h)" using owned_live(1) [OF h(1), of ?s] by simp
  then have sl1: "?s \<in> dom (cells h1)" using extends_live [OF m(2)] by blast
  have lt: "?s < k" "?s < p" using heap_okD(4) [OF h(1) sl] m(3,4) by simp_all
  have apart: "(?s, p) \<notin> (refs_rel h1)\<^sup>*"
  proof
    assume "(?s, p) \<in> (refs_rel h1)\<^sup>*"
    from reach_from_new [OF h(1) m(1,2) this _ repr_live [OF m(8)]] m(3,4) sl show False by simp
  qed
  have held: "?s \<in># held2" by (simp add: held2_def)
  have room: "rc h1 k + 2 < 2 ^ 32" "rc h1 p + 2 < 2 ^ 32" using m(5,6) by simp_all
  show ?thesis
  proof (rule struct_set_repr [OF m(1) s held m(7,8) apart room, of mok])
    fix f assume f: "xmlrpc_struct_set_value_v mok ?s k p h1 = Some (Inl f, h1)" "memory_fault f"
      "mok = always \<Longrightarrow> BLOCK_ALLOC_MAX < SIZEOF_STRUCT_MEMBER * (length kvs + 1)"
    have "lax" using f(3) mem fits h(4) by (cases lax) auto
    then show ?thesis using f m(1) ext by (simp add: simulates_def)
  next
    fix h2 assume h2: "xmlrpc_struct_set_value_v mok ?s k p h1 = Some (Inr (), h2)" "heap_ok h2 {} held2"
      "struct_at h2 ?s (put_member key v kvs)" "fresh h2 = fresh h1"
      "\<And>q. q \<noteq> ?s \<Longrightarrow> q \<in> dom (cells h2) \<Longrightarrow> body_at h2 q = body_at h1 q \<and> q \<in> dom (cells h1)"
      "\<And>q. q \<in> dom (cells h1) \<Longrightarrow> q \<notin> dom (cells h2) \<Longrightarrow> (q, ?s) \<in> (refs_rel h1)\<^sup>*"
      "refs_at h2 ?s \<subseteq># refs_at h1 ?s + {#k, p#}"
    have "extends h0 h2"
    proof (rule extends_modify [OF ok m(1) ext order_refl sl1 h2(4-6)])
      show "?s \<notin> dom (cells h0)" using heap_okD(4) [OF ok, of ?s] by auto
      show "refs_at h2 ?s \<subseteq># refs_at h1 ?s + mset [k, p]" using h2(7) by simp
      show "distinct [k, p]" using m(4) by simp
      show "?s < n \<and> n \<in># held2 \<and> rc h1 n = 1" if "n \<in> set [k, p]" for n
        using that lt m(5,6) by (auto simp: held2_def)
    qed
    with h2(1-3) length_put_member [of key v kvs] h(4) show ?thesis by (simp add: simulates_def)
  qed
qed

lemma give_up_member:
  assumes ok: "heap_ok h0 {} E" and x: "heap_ok h' {} (add_mset x F)" "extends h0 h'" "fresh h0 \<le> x"
  shows "\<exists>h''. xmlrpc_DECREF x h' = Some h'' \<and> heap_ok h'' {} F \<and> extends h0 h'' \<and>
      (fresh h0 \<in># F \<longrightarrow> (\<forall>kvs'. struct_at h' (fresh h0) kvs' \<longrightarrow> struct_at h'' (fresh h0) kvs'))"
proof -
  obtain h'' where h'': "xmlrpc_DECREF x h' = Some h''" "heap_ok h'' {} F" "extends h0 h''" "frees_only [x] h' h''"
    using give_up [OF ok x] by blast
  then show ?thesis using owned_live(1) [OF h''(2), of "fresh h0"] struct_at_kept [OF h''(2,4)] by auto
qed

lemma sim_struct_item:
  assumes ok: "heap_ok h0 {} E" and mem: "\<not> lax \<Longrightarrow> mok = always"
    and fits: "\<not> lax \<Longrightarrow> SIZEOF_STRUCT_MEMBER * (n + 1) \<le> BLOCK_ALLOC_MAX"
    and fill: "filling_struct E h0 n h kvs" and item: "member_made (add_mset (fresh h0) E) h h1 (k, p) (key, v)"
  shows "simulates lax (\<lambda>h'. heap_ok h' {} (add_mset (fresh h0) E) \<and> extends h0 h')
           (\<lambda>h' _ kvs'. filling_struct E h0 (Suc n) h' kvs')
           (hfinally (hfinally (xmlrpc_struct_set_value_v mok (fresh h0) k p) (xmlrpc_DECREF k)) (xmlrpc_DECREF p) h1)
           (Some (Inr (put_member key v kvs)))"
proof -
  let ?s = "fresh h0" and ?E = "add_mset (fresh h0) E"
  have h: "heap_ok h {} ?E" "extends h0 h" using fill by (simp_all add: filling_struct_def)
  have "?s \<in> dom (cells h)" using owned_live(1) [OF h(1), of ?s] by simp
  then have lt: "?s \<le> k" "?s \<le> p"
    using heap_okD(4) [OF h(1), of ?s] item by (simp_all add: member_made_def)
  note drop = give_up_member [OF ok]
  have swap: "add_mset p (add_mset k ?E) = add_mset k (add_mset p ?E)" by simp
  show ?thesis
  proof (rule sim_finally, rule sim_finally, rule sim_struct_set [OF ok mem fits fill item])
    show "\<exists>h''. xmlrpc_DECREF k h' = Some h'' \<and> (heap_ok h'' {} (add_mset p ?E) \<and> extends h0 h'')"
      if "heap_ok h' {} (add_mset p (add_mset k ?E)) \<and> extends h0 h'" for h'
      using drop [of h' k "add_mset p ?E"] that lt unfolding swap by blast
    show "\<exists>h''. xmlrpc_DECREF k h' = Some h'' \<and>
        (heap_ok h'' {} (add_mset p ?E) \<and> extends h0 h'' \<and> struct_at h'' ?s kvs' \<and> length kvs' \<le> Suc n)"
      if "heap_ok h' {} (add_mset p (add_mset k ?E)) \<and> extends h0 h' \<and> struct_at h' ?s kvs' \<and> length kvs' \<le> Suc n"
      for h' kvs' and u :: unit
      using drop [of h' k "add_mset p ?E"] that lt unfolding swap by auto
    show "\<exists>h''. xmlrpc_DECREF p h' = Some h'' \<and> (heap_ok h'' {} ?E \<and> extends h0 h'')"
      if "heap_ok h' {} (add_mset p ?E) \<and> extends h0 h'" for h'
      using drop [of h' p ?E] that lt by blast
    show "\<exists>h''. xmlrpc_DECREF p h' = Some h'' \<and> filling_struct E h0 (Suc n) h'' kvs'"
      if "heap_ok h' {} (add_mset p ?E) \<and> extends h0 h' \<and> struct_at h' ?s kvs' \<and> length kvs' \<le> Suc n"
      for h' kvs' and u :: unit
      using drop [of h' p ?E] that lt by (auto simp: filling_struct_def)
  qed
qed

text \<open>The same with the references given back in the other order.\<close>

lemma sim_struct_put:
  assumes ok: "heap_ok h0 {} E" and fits: "SIZEOF_STRUCT_MEMBER * (n + 1) \<le> BLOCK_ALLOC_MAX"
    and fill: "filling_struct E h0 n h kvs" and item: "member_made (add_mset (fresh h0) E) h h1 (k, p) (key, v)"
  shows "simulates False (stays (add_mset (fresh h0) E) h0) (\<lambda>h' _ kvs'. filling_struct E h0 (Suc n) h' kvs')
      (hfinally (hfinally (xmlrpc_struct_set_value_v always (fresh h0) k p) (xmlrpc_DECREF p)) (xmlrpc_DECREF k) h1)
      (Some (Inr (put_member key v kvs)))"
proof -
  let ?s = "fresh h0" and ?E = "add_mset (fresh h0) E"
  have h: "heap_ok h {} ?E" "extends h0 h" using fill by (simp_all add: filling_struct_def)
  have live: "?s \<in> dom (cells h)" using owned_live(1) [OF h(1), of ?s] by simp
  note drop = give_up_member [OF ok]
  have lt: "?s \<le> k" "?s \<le> p" using heap_okD(4) [OF h(1) live] item by (simp_all add: member_made_def)
  show ?thesis
  proof (rule sim_finally, rule sim_finally, rule sim_struct_set [OF ok _ fits fill item])
    show "\<exists>h''. xmlrpc_DECREF p h' = Some h'' \<and> (heap_ok h'' {} (add_mset k ?E) \<and> extends h0 h'')"
      if "heap_ok h' {} (add_mset p (add_mset k ?E)) \<and> extends h0 h'" for h'
      using drop [of h' p "add_mset k ?E"] that lt by blast
    show "\<exists>h''. xmlrpc_DECREF p h' = Some h'' \<and>
        (heap_ok h'' {} (add_mset k ?E) \<and> extends h0 h'' \<and> struct_at h'' ?s kvs' \<and> length kvs' \<le> Suc n)"
      if "heap_ok h' {} (add_mset p (add_mset k ?E)) \<and> extends h0 h' \<and> struct_at h' ?s kvs' \<and> length kvs' \<le> Suc n"
      for h' kvs' and u :: unit
      using drop [of h' p "add_mset k ?E"] that lt by auto
    show "\<exists>h''. xmlrpc_DECREF k h' = Some h'' \<and> (heap_ok h'' {} ?E \<and> extends h0 h'')"
      if "heap_ok h' {} (add_mset k ?E) \<and> extends h0 h'" for h'
      using drop [of h' k ?E] that lt by blast
    show "\<exists>h''. xmlrpc_DECREF k h' = Some h'' \<and> filling_struct E h0 (Suc n) h'' kvs'"
      if "heap_ok h' {} (add_mset k ?E) \<and> extends h0 h' \<and> struct_at h' ?s kvs' \<and> length kvs' \<le> Suc n"
      for h' kvs' and u :: unit
      using drop [of h' k ?E] that lt by (auto simp: filling_struct_def)
  qed simp
qed

lemma sim_parseStruct:
  assumes ok: "heap_ok h {} E" and mem: "\<not> lax \<Longrightarrow> mok = always" and fits: "\<not> lax \<Longrightarrow> tree_fits t"
    and child: "\<And>h E t. heap_ok h {} E \<Longrightarrow> (\<not> lax \<Longrightarrow> tree_fits t) \<Longrightarrow>
      simulates lax (stays E h) (made E h) (parse t h) (read t)"
  shows "simulates lax (stays E h) (made E h) (parseStruct mok parse t h) (read_struct read t)"
  unfolding parseStruct_def xmlrpc_struct_new_def [abs_def]
proof (rule sim_container [OF ok mem, where mk = StructBody])
  show "0 < SIZEOF_STRUCT_MEMBER" by simp
  show "body_ok h (StructBody b) \<and> body_refs (StructBody b) = []"
    if "grown_block SIZEOF_STRUCT_MEMBER b" "block_data SIZEOF_STRUCT_MEMBER b = []" for b
    using that by (simp add: grown_block_def)
  fix b h1
  assume b: "grown_block SIZEOF_STRUCT_MEMBER b" "block_data SIZEOF_STRUCT_MEMBER b = []"
    and h1: "heap_ok h1 {} (add_mset (fresh h) E)" "extends h h1" "body_at h1 (fresh h) = Some (StructBody b)"
  let ?s = "fresh h" and ?cs = "xml_element_children t"
  have start: "filling_struct E h 0 h1 []"
    using h1 b by (auto simp: filling_struct_def struct_at_def)
  have item: "simulates lax (stays (add_mset ?s E) h) (\<lambda>h' _ kvs'. filling_struct E h (Suc n) h' kvs')
      (parseStructChild mok parse ?s c h') (read_struct_child read kvs c)"
    if c: "c \<in> set ?cs" "n < 0 + length ?cs" "filling_struct E h n h' kvs" for c n h' kvs
  proof -
    have h': "heap_ok h' {} (add_mset ?s E)" "extends h h'" using c(3) by (simp_all add: filling_struct_def)
    have fd: "SIZEOF_STRUCT_MEMBER * (n + 1) \<le> BLOCK_ALLOC_MAX" "tree_fits c" if "\<not> lax"
      using fits [OF that] c(1,2) by (cases t; force simp: list_all_iff)+
    show ?thesis
    proof (cases "xml_element_name c = ''member''")
      case False
      then show ?thesis using h' by (simp add: parseStructChild_def read_struct_child_def sim_fail)
    next
      case True
      have "simulates lax (stays (add_mset ?s E) h') (member_made (add_mset ?s E) h')
          (parseMember mok parse c h') (read_member read c)"
        by (rule sim_parseMember [OF h'(1) mem fd(2) child]) assumption+
      then have "simulates lax (stays (add_mset ?s E) h) (member_made (add_mset ?s E) h')
          (parseMember mok parse c h') (read_member read c)"
        by (rule sim_mono) (use extends_trans [OF h'(2)] in auto)
      then have "simulates lax (stays (add_mset ?s E) h) (\<lambda>h' _ kvs'. filling_struct E h (Suc n) h' kvs')
          (hbind (parseMember mok parse c) (\<lambda>(keyP, valueP).
             hfinally (hfinally (xmlrpc_struct_set_value_v mok ?s keyP valueP) (xmlrpc_DECREF keyP))
               (xmlrpc_DECREF valueP)) h')
          (bindO (read_member read c) (\<lambda>(key, v). Some (Inr (put_member key v kvs))))"
        by (rule sim_bind) (auto intro: sim_struct_item [OF ok mem fd(1) c(3)])
      with True show ?thesis by (simp add: parseStructChild_def read_struct_child_def)
    qed
  qed
  have "simulates lax (stays (add_mset ?s E) h) (\<lambda>h' _ kvs. filling_struct E h (0 + length ?cs) h' kvs)
      (each (parseStructChild mok parse ?s) ?cs h1) (foldO (read_struct_child read) [] ?cs)"
    by (rule sim_each [where I = "filling_struct E h", OF item start]) auto
  then have "simulates lax (stays (add_mset ?s E) h) (\<lambda>h' _ v. made E h h' ?s v)
      (hbind (each (parseStructChild mok parse ?s) ?cs) (\<lambda>_. hret ()) h1)
      (bindO (foldO (read_struct_child read) [] ?cs) (\<lambda>kvs. Some (Inr (XStruct kvs))))"
    by (rule sim_bind) (auto simp: filling_struct_def made_def intro!: sim_ret struct_at_repr)
  then show "simulates lax (stays (add_mset ?s E) h) (\<lambda>h' _ v. made E h h' ?s v)
      (each (parseStructChild mok parse ?s) ?cs h1) (read_struct read t)"
    by (simp add: read_struct_def hbind_hret)
qed

subsection \<open>Values\<close>

lemma sim_parseValue:
  assumes mem: "\<not> lax \<Longrightarrow> mok = always"
  shows "heap_ok h {} E \<Longrightarrow> (\<not> lax \<Longrightarrow> tree_fits t) \<Longrightarrow>
    simulates lax (stays E h) (made E h) (xmlrpc_parseValue mok pf n t h) (read_value pf n t)"
proof (induction n arbitrary: h E t)
  case 0
  then show ?case using extends_refl [OF 0(1)] by (simp add: sim_fail)
next
  case (Suc n)
  have hd: "tree_fits (hd (xml_element_children t))" if "\<not> lax" "xml_element_children t \<noteq> []"
    using Suc.prems(2) [OF that(1)] that(2) by (cases t) (auto simp: list_all_iff)
  have fail: "simulates lax (stays E h) (made E h) (hfail f h) (Some (Inl f))" for f
    by (rule sim_fail) (use Suc.prems extends_refl [OF Suc.prems(1)] in simp)
  show ?case
    using sim_text [OF Suc.prems(1) mem] sim_parseSimpleValue [OF Suc.prems(1) mem]
      sim_parseStruct [OF Suc.prems(1) mem hd Suc.IH] sim_parseArray [OF Suc.prems(1) mem hd Suc.IH] fail
    by (auto simp: Let_def)
qed

section \<open>What the reader returns\<close>

fun value_depth :: "'d xvalue \<Rightarrow> nat" where
  "value_depth (XArray vs) = 1 + fold max (map value_depth vs) 0"
| "value_depth (XStruct kvs) = 1 + fold max (map (\<lambda>kv. value_depth (snd kv)) kvs) 0"
| "value_depth _ = 1"

abbreviation line_text :: "string \<Rightarrow> bool" where
  "line_text s \<equiv> utf8_text s \<and> CR \<notin> set s"

fun value_wf :: "'d xvalue \<Rightarrow> bool" where
  "value_wf (XBool b) \<longleftrightarrow> b = 0 \<or> b = 1"
| "value_wf (XDatetime dt) \<longleftrightarrow> datetime_ok dt \<and> dt_Y dt \<le> 9999"
| "value_wf (XString s) \<longleftrightarrow> line_text s"
| "value_wf (XArray vs) \<longleftrightarrow> list_all value_wf vs"
| "value_wf (XStruct kvs) \<longleftrightarrow>
     distinct (map fst kvs) \<and> list_all (\<lambda>kv. line_text (fst kv) \<and> value_wf (snd kv)) kvs"
| "value_wf (XCptr _) \<longleftrightarrow> False"
| "value_wf _ \<longleftrightarrow> True"

lemma fold_max_le: "fold max xs a \<le> (n :: nat) \<longleftrightarrow> a \<le> n \<and> list_all (\<lambda>x. x \<le> n) xs"
  by (induction xs arbitrary: a) auto

lemma foldO_invariant:
  assumes "foldO f s xs = Some (Inr s')" "P s"
    and "\<And>s x s'. x \<in> set xs \<Longrightarrow> P s \<Longrightarrow> f s x = Some (Inr s') \<Longrightarrow> P s'"
  shows "P s'"
  using assms
proof (induction xs arbitrary: s)
  case (Cons x xs)
  obtain s1 where "f s x = Some (Inr s1)" "foldO f s1 xs = Some (Inr s')"
    using Cons.prems(1) by (auto simp: bindO_def split: option.splits sum.splits)
  with Cons show ?case by (metis list.set_intros)
qed simp

lemma bindO_Inr: "bindO m k = Some (Inr y) \<longleftrightarrow> (\<exists>x. m = Some (Inr x) \<and> k x = Some (Inr y))"
  by (auto simp: bindO_def split: option.splits sum.splits)

lemma text_value_text: "text_value cdata = Inr s \<Longrightarrow> line_text s"
proof -
  assume s: "text_value cdata = Inr s"
  then have "utf8_text cdata" "s = normalize_lines cdata"
    using isOK_validate_utf8 [of cdata] by (auto simp: text_value_def bindE_Inr_conv)
  then obtain ws where "list_all ucs2_legal ws" "s = utf8_encs (norm_lines 13 10 ws)"
    using normalize_encs by (auto simp: utf8_text_def)
  then have "utf8_text s" using utf8_encs_text norm_lines_legal by simp
  moreover have "CR \<notin> set s" using \<open>s = normalize_lines cdata\<close> norm_lines_no_cr [of CR LF cdata] by simp
  ultimately show ?thesis by simp
qed

lemma put_member_keys: "distinct (map fst kvs) \<Longrightarrow> distinct (map fst (put_member k v kvs))"
  and set_put_member: "set (put_member k v kvs) \<subseteq> insert (k, v) (set kvs)"
proof -
  have keys: "set (map fst (put_member k v kvs)) \<subseteq> insert k (set (map fst kvs))"
    by (induction kvs) auto
  show "set (put_member k v kvs) \<subseteq> insert (k, v) (set kvs)" by (induction kvs) auto
  show "distinct (map fst kvs) \<Longrightarrow> distinct (map fst (put_member k v kvs))"
  proof (induction kvs)
    case (Cons kv kvs)
    have "set (map fst (put_member k v kvs)) \<subseteq> insert k (set (map fst kvs))" by (induction kvs) auto
    with Cons show ?case by auto
  qed simp
qed

lemma parse_wf:
  "parseInt mok s = Inr v \<Longrightarrow> value_wf v \<and> value_depth v = 1"
  "parseBoolean mok s = Inr v \<Longrightarrow> value_wf v \<and> value_depth v = 1"
  "parseI8 mok s = Some (Inr v) \<Longrightarrow> value_wf v \<and> value_depth v = 1"
  "parseDouble mok pf s = Inr v \<Longrightarrow> value_wf v \<and> value_depth v = 1"
  "parseBase64 mok s = Inr v \<Longrightarrow> value_wf v \<and> value_depth v = 1"
  subgoal by (auto simp: parseInt_def xmlrpc_int_new_def bindE_Inr_conv Let_def split: if_splits prod.splits)
  subgoal by (auto simp: parseBoolean_def xmlrpc_bool_new_def bindE_Inr_conv split: if_splits)
  subgoal by (auto simp: parseI8_def xmlrpc_i8_new_def bindE_Inr_conv split: if_splits sum.splits)
  subgoal by (auto simp: parseDouble_def xmlrpc_double_new_def bindE_Inr_conv split: sum.splits option.splits)
  subgoal by (auto simp: parseBase64_def xmlrpc_base64_new_def bindE_Inr_conv Let_def)
  done

lemma parseSimple_wf:
  assumes "parseSimpleValueCdata always pf name cdata = Some (Inr v)"
  shows "value_wf v \<and> value_depth v = 1"
proof -
  define yields where "yields r \<longleftrightarrow> (\<forall>v. r = Some (Inr v) \<longrightarrow> value_wf v \<and> value_depth v = 1)"
    for r :: "'a xvalue result option"
  have "yields (Some (Inl f))" for f by (simp add: yields_def)
  moreover have "yields (Some (parseInt always s))" "yields (Some (parseBoolean always s))" "yields (parseI8 always s)"
    "yields (Some (parseDouble always pf s))" "yields (Some (parseBase64 always s))" for s
    by (simp_all add: yields_def parse_wf)
  moreover have "yields (map_option (\<lambda>r. bindE r (xmlrpc_datetime_new always)) (xmlrpc_parseDatetime re s))" for re s
    using parsed_datetime_ranges [of re s]
    by (auto simp: yields_def bindE_Inr_conv xmlrpc_datetime_new_def split: if_splits)
  moreover have "yields (Some (xmlrpc_string_new_lp always s))" for s
    using text_value_text [of s] by (auto simp: yields_def string_new_lp_always bindE_Inr_conv)
  moreover have "yields (Some (xmlrpc_nil_new always))"
    by (auto simp: yields_def xmlrpc_nil_new_def bindE_Inr_conv)
  ultimately have "yields (parseSimpleValueCdata always pf name cdata)"
    unfolding parseSimpleValueCdata_def by simp
  with assms show ?thesis by (simp add: yields_def)
qed

lemma read_value_wf:
  "read_value pf n t = Some (Inr v) \<Longrightarrow> value_wf v \<and> value_depth v \<le> n"
proof (induction n arbitrary: t v)
  case 0
  then show ?case by simp
next
  case (Suc n)
  let ?c = "hd (xml_element_children t)"
  let ?P = "\<lambda>v. value_wf v \<and> value_depth v \<le> n"
  have array: "value_wf v \<and> value_depth v \<le> Suc n" if "read_array (read_value pf n) ?c = Some (Inr v)"
  proof -
    obtain vs where vs: "v = XArray vs" "foldO (read_array_child (read_value pf n)) []
        (xml_element_children (hd (xml_element_children ?c))) = Some (Inr vs)"
      using \<open>read_array _ _ = _\<close> by (auto simp: read_array_def Let_def bindO_Inr split: if_splits)
    from vs(2) have "list_all ?P vs"
      by (rule foldO_invariant) (use Suc.IH in \<open>auto simp: read_array_child_def bindO_Inr split: if_splits\<close>)
    then show ?thesis using vs(1) by (auto simp: fold_max_le list_all_iff)
  qed
  have struct: "value_wf v \<and> value_depth v \<le> Suc n" if "read_struct (read_value pf n) ?c = Some (Inr v)"
  proof -
    let ?Q = "\<lambda>kvs. distinct (map fst kvs) \<and> (\<forall>kv \<in> set kvs. line_text (fst kv) \<and> ?P (snd kv))"
    obtain kvs where kvs: "v = XStruct kvs" "foldO (read_struct_child (read_value pf n)) []
        (xml_element_children ?c) = Some (Inr kvs)"
      using \<open>read_struct _ _ = _\<close> by (auto simp: read_struct_def bindO_Inr)
    from kvs(2) have "?Q kvs"
    proof (rule foldO_invariant)
      fix kvs x kvs' assume inv: "?Q kvs" and step: "read_struct_child (read_value pf n) kvs x = Some (Inr kvs')"
      then obtain key v where kv: "read_member (read_value pf n) x = Some (Inr (key, v))"
        and kvs': "kvs' = put_member key v kvs"
        by (auto simp: read_struct_child_def bindO_Inr split: if_splits)
      then have "line_text key" "?P v"
        using Suc.IH text_value_text
        by (auto simp: read_member_def read_name_def Let_def bindO_Inr split: if_splits)
      then show "?Q kvs'"
        using inv put_member_keys [of kvs key v] set_put_member [of key v kvs] unfolding kvs' by fastforce
    qed simp
    then show ?thesis using kvs(1) by (auto simp: fold_max_le list_all_iff)
  qed
  show ?case
    using Suc.prems array struct parseSimple_wf [of pf] text_value_text
    by (auto simp: Let_def bindE_Inr_conv read_simple_def split: if_splits)
qed

section \<open>Texts of 64-bit integers\<close>

definition decimal :: "string \<Rightarrow> int" where
  "decimal ds = foldl (\<lambda>a c. 10 * a + int (digit_val c)) 0 ds"

definition int64_text :: "string \<Rightarrow> bool" where
  "int64_text s \<longleftrightarrow>
     (\<exists>sign ds. s = sign @ ds \<and> sign \<in> {[], ''-'', ''+''} \<and> ds \<noteq> [] \<and> list_all isdigit ds \<and>
        (if sign = ''-'' then decimal ds \<le> 2 ^ 63 else decimal ds < 2 ^ 63))"

lemma scan_digits_split:
  "scan_digits acc s = (fst (scan_digits acc (takeWhile isdigit s)), dropWhile isdigit s)"
  by (induction acc s rule: scan_digits.induct) auto

lemma scan_digits_decimal: "list_all isdigit ds \<Longrightarrow> int (fst (scan_digits 0 ds)) = decimal ds"
proof -
  have "list_all isdigit ds \<Longrightarrow>
      int (fst (scan_digits acc ds)) = foldl (\<lambda>a c. 10 * a + int (digit_val c)) (int acc) ds" for acc
    by (induction ds arbitrary: acc) (simp_all del: of_nat_add, simp)
  from this [of 0] show "list_all isdigit ds \<Longrightarrow> int (fst (scan_digits 0 ds)) = decimal ds"
    by (simp add: decimal_def)
qed

lemma sign_not_digit: "\<not> isdigit (CHR ''-'')" "\<not> isdigit (CHR ''+'')"
  by (simp_all add: isdigit_def uchar_def)

lemma parse_int64_exact:
  assumes "NUL \<notin> set s" "s \<noteq> []" "\<not> isspace (hd s)"
  shows "isOK (xmlrpc_parse_int64 s) \<longleftrightarrow> int64_text s"
proof -
  define sign where "sign = (if hd s = CHR ''-'' \<or> hd s = CHR ''+'' then [hd s] else [])"
  define s1 where "s1 = (if hd s = CHR ''-'' \<or> hd s = CHR ''+'' then tl s else s)"
  have s: "s = sign @ s1" "dropWhile isspace s = s" "peek s = hd s"
    using assms(2,3) by (cases s; simp add: sign_def s1_def)+
  have unique: "sign' = sign \<and> ds = s1"
    if "s = sign' @ ds" "sign' \<in> {[], ''-'', ''+''}" "ds \<noteq> []" "list_all isdigit ds" for sign' ds
    using that sign_not_digit by (cases ds) (auto simp: sign_def s1_def)
  let ?n = "decimal s1"
  show ?thesis
  proof (cases "s1 \<noteq> [] \<and> list_all isdigit s1")
    case True
    then have digit: "isdigit (peek s1)" by (cases s1) auto
    have all: "takeWhile isdigit s1 = s1" "dropWhile isdigit s1 = []"
      using True by (simp_all add: list_all_iff)
    have "scan_digits 0 s1 = (fst (scan_digits 0 s1), [])"
      using scan_digits_split [of 0 s1] all by simp
    then have "scan_digits 0 s1 = (nat ?n, [])"
      using scan_digits_decimal [of s1] True by (metis nat_int)
    moreover have n: "0 \<le> ?n" using scan_digits_decimal [of s1] True by (metis of_nat_0_le_iff)
    ultimately have "strtol XMLRPC_INT64_MIN XMLRPC_INT64_MAX s =
        (let v = (if hd s = CHR ''-'' then - ?n else ?n) in
         if v < XMLRPC_INT64_MIN then (True, XMLRPC_INT64_MIN, [])
         else if XMLRPC_INT64_MAX < v then (True, XMLRPC_INT64_MAX, []) else (False, v, []))"
      unfolding strtol_def Let_def s(2,3) s1_def [symmetric] using digit by simp
    then have "isOK (xmlrpc_parse_int64 s) \<longleftrightarrow>
        (let v = (if hd s = CHR ''-'' then - ?n else ?n) in XMLRPC_INT64_MIN \<le> v \<and> v \<le> XMLRPC_INT64_MAX)"
      by (auto simp: xmlrpc_parse_int64_def Let_def)
    moreover have "int64_text s \<longleftrightarrow> (if sign = ''-'' then ?n \<le> 2 ^ 63 else ?n < 2 ^ 63)"
    proof
      assume "int64_text s"
      then obtain sign' ds where "s = sign' @ ds" "sign' \<in> {[], ''-'', ''+''}" "ds \<noteq> []" "list_all isdigit ds"
        and range: "if sign' = ''-'' then decimal ds \<le> 2 ^ 63 else decimal ds < 2 ^ 63"
        unfolding int64_text_def by blast
      from unique [OF this(1-4)] range show "if sign = ''-'' then ?n \<le> 2 ^ 63 else ?n < 2 ^ 63"
        by (simp split: if_split_asm)
    next
      assume "if sign = ''-'' then ?n \<le> 2 ^ 63 else ?n < 2 ^ 63"
      moreover have "sign \<in> {[], ''-'', ''+''}" by (simp add: sign_def)
      ultimately show "int64_text s" unfolding int64_text_def using s(1) True by blast
    qed
    ultimately show ?thesis using n by (auto simp: sign_def Let_def)
  next
    case False
    then have "\<not> int64_text s" using unique unfolding int64_text_def by blast
    moreover have "\<not> isOK (xmlrpc_parse_int64 s)"
    proof (cases "isdigit (peek s1)")
      case True
      obtain n tail where scan: "scan_digits 0 s1 = (n, tail)" by force
      have "tail = dropWhile isdigit s1" using scan scan_digits_split [of 0 s1] by simp
      moreover have "s1 \<noteq> []" using True by auto
      ultimately have "tail \<noteq> []" "set tail \<subseteq> set s"
        using False s(1) set_dropWhileD [of _ isdigit s1] by (auto simp: list_all_iff)
      then have "peek tail \<noteq> NUL" using assms(1) by (cases tail) auto
      then show ?thesis
        using s(2,3) True scan
        by (auto simp: xmlrpc_parse_int64_def strtol_def s1_def [symmetric] Let_def split: if_splits)
    next
      case not_digit: False
      have "peek s \<noteq> NUL" using assms(1,2) by (cases s) auto
      then show ?thesis
        using s(2,3) not_digit by (simp add: xmlrpc_parse_int64_def strtol_def s1_def [symmetric] Let_def)
    qed
    ultimately show ?thesis by simp
  qed
qed

section \<open>Properties\<close>

text \<open>C7: parsing a value element in any sound heap uses no memory it does not own, and does what the
  reader of the tree says: it fails with the same fault, or makes a new value that stands for the
  same tree of data, and changes nothing else; a fault, for bad data or for lack of memory, leaves
  every cell as it was.  With memory at hand and a tree whose lists fit a block, there is no other
  fault.  It is undefined only where the reader is.\<close>
theorem parse_value_refines_reader:
  assumes "heap_ok h {} E"
  shows "case xmlrpc_parseValue mok pf n t h of
      None \<Rightarrow> read_value pf n t = None
    | Some (Inl f, h') \<Rightarrow> cells h' = cells h \<and>
        (read_value pf n t = Some (Inl f) \<or>
         code_of f = XMLRPC_INTERNAL_ERROR \<and> (mok \<noteq> always \<or> \<not> tree_fits t))
    | Some (Inr p, h') \<Rightarrow> heap_ok h' {} (add_mset p E) \<and> p \<notin> dom (cells h) \<and>
        (\<forall>q \<in> dom (cells h). body_at h' q = body_at h q) \<and>
        (\<exists>v. read_value pf n t = Some (Inr v) \<and> repr h' p v)"
proof -
  let ?lax = "mok \<noteq> always \<or> \<not> tree_fits t"
  have "simulates ?lax (stays E h) (made E h) (xmlrpc_parseValue mok pf n t h) (read_value pf n t)"
    by (rule sim_parseValue) (use assms in auto)
  then show ?thesis
    using extends_back [OF assms] madeD [OF assms] extends_live
    by (fastforce simp: simulates_def memory_fault_def split: option.splits sum.splits)
qed

definition sample_platform :: "unit platform" where
  "sample_platform = \<lparr>have_regex = True, d_int = (\<lambda>_. ()), d_tenth = (), d_add = (\<lambda>_ _. ()), d_mul = (\<lambda>_ _. ()),
     d_neg = (\<lambda>_. ()), d_above_max = (\<lambda>_. False), strtod = (\<lambda>s. (False, (), []))\<rparr>"

definition no_cells :: "unit heap" where
  "no_cells = \<lparr>cells = Map.empty, fresh = 2, dtor_calls = []\<rparr>"

lemma no_cells_ok: "heap_ok no_cells {} {#}"
  by (simp add: heap_ok_def no_cells_def rc_def held_def)

abbreviation sample_tree :: xml_tree where
  "sample_tree \<equiv> Elem ''value'' [] [Elem ''array'' [] [Elem ''data'' []
     [Elem ''value'' [] [Elem ''i4'' ''42'' []], Elem ''value'' ''hi'' []]]]"

lemma parse_value_refines_reader_witness:
  "\<exists>p h'. xmlrpc_parseValue always sample_platform 2 sample_tree no_cells = Some (Inr p, h') \<and>
          heap_ok h' {} {#p#} \<and> repr h' p (XArray [XInt 42, XString ''hi''])"
proof -
  have "read_value sample_platform 2 sample_tree = Some (Inr (XArray [XInt 42, XString ''hi'']))"
    by code_simp
  moreover have "tree_fits sample_tree" by simp
  ultimately show ?thesis
    using parse_value_refines_reader [OF no_cells_ok, where mok = always and pf = sample_platform and n = 2 and t = sample_tree]
    by (auto split: option.splits sum.splits) (metis sum.exhaust)
qed

text \<open>C22: a value that the parser makes is well-formed (UTF-8 strings with line feeds only, booleans 0
  or 1, datetimes in range, distinct keys) and nested no deeper than the limit allows.\<close>
theorem parsed_value_wf_and_bounded:
  assumes "heap_ok h {} E" "xmlrpc_parseValue mok pf n t h = Some (Inr p, h')"
  shows "\<exists>v. repr h' p v \<and> value_wf v \<and> value_depth v \<le> n"
proof -
  have "simulates True (stays E h) (made E h) (xmlrpc_parseValue mok pf n t h) (read_value pf n t)"
    by (rule sim_parseValue) (use assms in auto)
  then show ?thesis using assms(2) read_value_wf [of pf n t] by (auto simp: simulates_def made_def)
qed

lemma parsed_value_wf_and_bounded_witness:
  "\<exists>p h' v. xmlrpc_parseValue always sample_platform 3 (Elem ''value'' ''a'' []) no_cells = Some (Inr p, h') \<and>
      repr h' p (v :: unit xvalue) \<and> value_wf v \<and> value_depth v \<le> 3"
proof -
  have "read_value sample_platform 3 (Elem ''value'' ''a'' []) = Some (Inr (XString ''a''))" by code_simp
  then have "simulates False (stays {#} no_cells) (made {#} no_cells)
      (xmlrpc_parseValue always sample_platform 3 (Elem ''value'' ''a'' []) no_cells) (Some (Inr (XString ''a'')))"
    using sim_parseValue [OF _ no_cells_ok, of False always "Elem ''value'' ''a'' []" sample_platform 3] by simp
  from sim_success [OF this] show ?thesis using parsed_value_wf_and_bounded [OF no_cells_ok] by blast
qed

text \<open>C36: for an \<open>i8\<close> element the parser has no defined behaviour exactly when the content, not empty and
  not beginning with a space, is no decimal 64-bit integer: the error message it then composes
  takes two arguments and is given one.\<close>
theorem parse_i8_undefined:
  assumes "heap_ok h {} E" "NUL \<notin> set s"
  shows "xmlrpc_parseValue mok pf (Suc n) (Elem ''value'' w [Elem ''i8'' s []]) h = None \<longleftrightarrow>
    s \<noteq> [] \<and> \<not> isspace (hd s) \<and> \<not> int64_text s"
proof -
  have "xmlrpc_parseValue mok pf (Suc n) (Elem ''value'' w [Elem ''i8'' s []]) h = None \<longleftrightarrow> parseI8 mok s = (None :: 'a xvalue result option)"
    using assms(2) new_cell_ok(1) [OF assms(1)]
    by (auto simp: parseSimpleValue_def parseSimpleValueCdata_def hbind_def hoption_def c_str_id new_cell_def
        split: option.splits sum.splits)
  also have "\<dots> \<longleftrightarrow> s \<noteq> [] \<and> \<not> isspace (hd s) \<and> \<not> isOK (xmlrpc_parse_int64 s)"
    using assms(2) by (cases s) (auto simp: parseI8_def isOK_def split: sum.split)
  finally show ?thesis using parse_int64_exact [OF assms(2)] by blast
qed

lemma parse_i8_undefined_witness:
  "xmlrpc_parseValue always sample_platform 1 (Elem ''value'' [] [Elem ''i8'' ''12x'' []]) no_cells = None"
proof -
  have "\<not> int64_text ''12x''"
  proof -
    have "isOK (xmlrpc_parse_int64 ''12x'') = False" by code_simp
    then show ?thesis using parse_int64_exact [of "''12x''"] by (simp add: isspace_def uchar_def)
  qed
  then show ?thesis
    using parse_i8_undefined [OF no_cells_ok, of "''12x''" always sample_platform 0 "[]"]
    by (simp add: isspace_def uchar_def)
qed

end
