(* ===== verification/Parse_Xml.thy ===== *)
theory Parse_Xml
  imports Parse_Value
begin

text \<open>
  Parsing calls and responses (\<open>src/xmlrpc_parse.c\<close>) with the resource limits of
  \<open>src/resource.c\<close>.  The element tree that \<open>xml_parse\<close> built is looked at through
  \<open>tree_of\<close> and freed at the end; the values go into the heap.
\<close>

section \<open>Resource limits\<close>

datatype limit_id = XMLRPC_NESTING_LIMIT_ID | XMLRPC_XML_SIZE_LIMIT_ID

type_synonym limits = "limit_id \<Rightarrow> nat"

fun default_limits :: limits where
  "default_limits XMLRPC_NESTING_LIMIT_ID = 64"
| "default_limits XMLRPC_XML_SIZE_LIMIT_ID = 512 * 1024"

definition xmlrpc_limit_set :: "limit_id \<Rightarrow> nat \<Rightarrow> limits \<Rightarrow> limits" where
  "xmlrpc_limit_set limit_id value limits = limits(limit_id := value)"

definition xmlrpc_limit_get :: "limits \<Rightarrow> limit_id \<Rightarrow> nat" where
  "xmlrpc_limit_get limits limit_id = limits limit_id"

text \<open>What a parse depends on besides its text.\<close>

record 'd parser = "'d platform" +
  limits :: limits
  expat :: expat

definition maxNest :: "'d parser \<Rightarrow> nat" where
  "maxNest ps = xmlrpc_limit_get (limits ps) XMLRPC_NESTING_LIMIT_ID mod 2 ^ 32"

section \<open>Checking elements\<close>

definition validateName :: "xml_tree \<Rightarrow> string \<Rightarrow> unit result" where
  "validateName elemP name =
     (if name \<noteq> xml_element_name elemP
      then Inl (set_fault_formatted XMLRPC_PARSE_ERROR
                  [Txt ''Expected element of type <'', PctS name, Txt ''>, found <'',
                   PctS (xml_element_name elemP), Txt ''>''])
      else Inr ())"

definition validateChildCount :: "xml_tree \<Rightarrow> nat \<Rightarrow> unit result" where
  "validateChildCount elemP requiredCount =
     (if length (xml_element_children elemP) \<noteq> requiredCount
      then Inl (set_fault_formatted XMLRPC_PARSE_ERROR
                  [Txt ''Expected <'', PctS (xml_element_name elemP), Txt ''> to have '',
                   PctU requiredCount, Txt '' children, found '', PctU (length (xml_element_children elemP))])
      else Inr ())"

definition getChildByName :: "xml_tree \<Rightarrow> string \<Rightarrow> xml_tree result" where
  "getChildByName parentP name =
     (case find (\<lambda>c. xml_element_name c = name) (xml_element_children parentP) of
        Some childP \<Rightarrow> Inr childP
      | None \<Rightarrow> Inl (setParseFault [Txt ''Expected <'', PctS (xml_element_name parentP),
                       Txt ''> to have child <'', PctS name, Txt ''>'']))"

section \<open>Parameters\<close>

text \<open>
  One round of the loop, when nothing has failed yet.  After a fault the loop goes on, but only to
  check the names of the elements that are left; a wrong name replaces the fault.
\<close>

definition convert_param ::
    "(nat \<Rightarrow> bool) \<Rightarrow> 'd parser \<Rightarrow> nat \<Rightarrow> xml_tree \<Rightarrow> (unit, 'd) heap_op" where
  "convert_param mok ps arrayP paramP =
     hbind (hresult (validateName paramP ''param'')) (\<lambda>_.
     hbind (hresult (validateChildCount paramP 1)) (\<lambda>_.
       let valueEltP = hd (xml_element_children paramP) in
       hbind (hresult (validateName valueEltP ''value'')) (\<lambda>_.
       hbind (xmlrpc_parseValue mok ps (maxNest ps) valueEltP) (\<lambda>itemP.
         hfinally (xmlrpc_array_append_item mok arrayP itemP) (xmlrpc_DECREF itemP)))))"

definition rest_of_params :: "fault \<Rightarrow> xml_tree list \<Rightarrow> fault" where
  "rest_of_params =
     foldl (\<lambda>f paramP. case validateName paramP ''param'' of Inl g \<Rightarrow> g | Inr _ \<Rightarrow> f)"

fun convert_params_loop ::
    "(nat \<Rightarrow> bool) \<Rightarrow> 'd parser \<Rightarrow> nat \<Rightarrow> xml_tree list \<Rightarrow> (unit, 'd) heap_op" where
  "convert_params_loop mok ps arrayP [] h = hret () h"
| "convert_params_loop mok ps arrayP (paramP # params) h =
     (case convert_param mok ps arrayP paramP h of
        None \<Rightarrow> None
      | Some (Inr _, h') \<Rightarrow> convert_params_loop mok ps arrayP params h'
      | Some (Inl f, h') \<Rightarrow> Some (Inl (rest_of_params f params), h'))"

definition convertParams :: "(nat \<Rightarrow> bool) \<Rightarrow> 'd parser \<Rightarrow> xml_tree \<Rightarrow> (nat, 'd) heap_op" where
  "convertParams mok ps elemP =
     hbind (xmlrpc_array_new mok) (\<lambda>arrayP.
       hcleanup
         (hbind
           (hbind (hresult (validateName elemP ''params'')) (\<lambda>_.
              convert_params_loop mok ps arrayP (xml_element_children elemP)))
           (\<lambda>_. hret arrayP))
         (xmlrpc_DECREF arrayP))"

section \<open>Calls\<close>

text \<open>The tree of the document, and the release of its elements.\<close>

definition document :: "nat \<times> xml_store \<Rightarrow> (xml_tree, 'd) heap_op" where
  "document doc = hoption (map_option Inr (tree_of (next_element (snd doc)) (snd doc) (fst doc)))"

definition free_document :: "nat \<times> xml_store \<Rightarrow> 'd heap \<Rightarrow> 'd heap option" where
  "free_document doc h = map_option (\<lambda>_. h) (xml_element_free (fst doc) (snd doc))"

definition parseCallXml :: "(nat \<Rightarrow> bool) \<Rightarrow> 'd parser \<Rightarrow> string \<Rightarrow> (nat \<times> xml_store, 'd) heap_op" where
  "parseCallXml mok ps xmlData =
     hbind (hoption (map_option (\<lambda>r. case r of
              Inl f \<Rightarrow> Inl (set_fault_formatted (code_of f)
                              [Txt ''Call is not valid XML.  '', PctS (text_of f)])
            | Inr doc \<Rightarrow> Inr doc) (xml_parse (expat ps) mok xmlData)))
       (\<lambda>doc. hcleanup
          (hbind (document doc) (\<lambda>callElemP.
             if xml_element_name callElemP \<noteq> ''methodCall''
             then hfail (setParseFault [Txt ''XML-RPC call should be a <methodCall> element.  '',
                           Txt ''Instead, we have a <'', PctS (xml_element_name callElemP), Txt ''> element.''])
             else hret doc))
          (free_document doc))"

definition parseMethodNameElement :: "(nat \<Rightarrow> bool) \<Rightarrow> xml_tree \<Rightarrow> string result" where
  "parseMethodNameElement mok nameElemP =
     (let n = length (xml_element_children nameElemP) in
      if n > 0
      then Inl (setParseFault [Txt ''A <methodName> element should not have '',
                  Txt ''children.  This one has '', PctU n, Txt '' of them.''])
      else
        let cdata = c_str (xml_element_cdata nameElemP) in
        bindE (xmlrpc_validate_utf8 cdata) (\<lambda>_.
          if mok (length cdata + 1) then Inr cdata
          else Inl (faultf [Txt ''Could not allocate memory for method name''])))"

definition parseCallChildren ::
    "(nat \<Rightarrow> bool) \<Rightarrow> 'd parser \<Rightarrow> xml_tree \<Rightarrow> (string \<times> nat, 'd) heap_op" where
  "parseCallChildren mok ps callElemP =
     (let callChildCount = length (xml_element_children callElemP) in
      hbind (hresult (getChildByName callElemP ''methodName'')) (\<lambda>nameElemP.
      hbind (hresult (parseMethodNameElement mok nameElemP)) (\<lambda>methodName.
      hbind
        (if callChildCount > 1
         then hbind (hresult (getChildByName callElemP ''params'')) (convertParams mok ps)
         else xmlrpc_array_new mok)
        (\<lambda>paramArrayP.
          hcleanup
            (if callChildCount > 2
             then hfail (setParseFault [Txt ''<methodCall> has extraneous '',
                           Txt ''children, other than <methodName> and '',
                           Txt ''<params>.  Total child count = '', PctU callChildCount])
             else hret (methodName, paramArrayP))
            (xmlrpc_DECREF paramArrayP)))))"

definition xmlrpc_parse_call ::
    "(nat \<Rightarrow> bool) \<Rightarrow> 'd parser \<Rightarrow> string \<Rightarrow> (string \<times> nat, 'd) heap_op" where
  "xmlrpc_parse_call mok ps xmlData =
     (let limit = xmlrpc_limit_get (limits ps) XMLRPC_XML_SIZE_LIMIT_ID in
      if length xmlData > limit
      then hfail (set_fault_formatted XMLRPC_LIMIT_EXCEEDED_ERROR
                    [Txt ''XML-RPC request too large.  Max allowed is '', PctU (limit mod 2 ^ 32), Txt '' bytes''])
      else
        hbind (parseCallXml mok ps xmlData) (\<lambda>doc.
          hfinally (hbind (document doc) (parseCallChildren mok ps)) (free_document doc)))"

section \<open>Responses\<close>

text \<open>A cell as the readers of simple values see it: of an array or a struct, only the type.\<close>

fun cell_value :: "'d body \<Rightarrow> 'd xvalue" where
  "cell_value (Scalar v) = v"
| "cell_value (Pointer obj _) = XCptr obj"
| "cell_value (ArrayBody _) = XArray []"
| "cell_value (StructBody _) = XStruct []"

definition interpretFaultCode :: "nat \<Rightarrow> (32 word, 'd) heap_op" where
  "interpretFaultCode faultCodeVP =
     hbind (get_body faultCodeVP) (\<lambda>b.
       case xmlrpc_read_int (cell_value b) of
         Inl f \<Rightarrow> hfail (faultf [Txt ''Invalid value for '', Txt [CHR 0x27], Txt ''faultCode'', Txt [CHR 0x27],
                                 Txt '' member.  '', PctS (text_of f)])
       | Inr i \<Rightarrow> hret i)"

definition interpretFaultString :: "(nat \<Rightarrow> bool) \<Rightarrow> nat \<Rightarrow> (string, 'd) heap_op" where
  "interpretFaultString mok faultStringVP =
     hbind (get_body faultStringVP) (\<lambda>b.
       case xmlrpc_read_string mok (cell_value b) of
         Inl f \<Rightarrow> hfail (faultf [Txt ''Invalid value for '', Txt [CHR 0x27], Txt ''faultString'', Txt [CHR 0x27],
                                 Txt '' member.  '', PctS (text_of f)])
       | Inr s \<Rightarrow> hret s)"

definition hmap_fault :: "(fault \<Rightarrow> fault) \<Rightarrow> ('a, 'd) heap_op \<Rightarrow> ('a, 'd) heap_op" where
  "hmap_fault g m h =
     (case m h of None \<Rightarrow> None
      | Some (Inl f, h') \<Rightarrow> Some (Inl (g f), h')
      | Some (Inr x, h') \<Rightarrow> Some (Inr x, h'))"

definition interpretFaultValue :: "(nat \<Rightarrow> bool) \<Rightarrow> nat \<Rightarrow> (32 word \<times> string, 'd) heap_op" where
  "interpretFaultValue mok faultVP =
     hbind (get_body faultVP) (\<lambda>b.
       if body_type b \<noteq> TYPE_STRUCT
       then hfail (setParseFault [Txt ''<value> element of <fault> response is not '',
                                  Txt ''of structure type''])
       else
         hmap_fault (\<lambda>f. setParseFault [Txt ''Invalid struct for <fault> value.  '', PctS (text_of f)])
           (hbind (xmlrpc_struct_read_value faultVP ''faultCode'') (\<lambda>faultCodeVP.
              hfinally
                (hbind (interpretFaultCode faultCodeVP) (\<lambda>faultCode.
                   hbind (xmlrpc_struct_read_value faultVP ''faultString'') (\<lambda>faultStringVP.
                     hfinally
                       (hbind (interpretFaultString mok faultStringVP) (\<lambda>faultString.
                          hret (faultCode, faultString)))
                       (xmlrpc_DECREF faultStringVP))))
                (xmlrpc_DECREF faultCodeVP))))"

definition parseFaultElement :: "(nat \<Rightarrow> bool) \<Rightarrow> 'd parser \<Rightarrow> xml_tree \<Rightarrow> (32 word \<times> string, 'd) heap_op" where
  "parseFaultElement mok ps faultElement =
     (let n = length (xml_element_children faultElement) in
      if n \<noteq> 1
      then hfail (setParseFault [Txt ''<fault> element should have 1 child, '', Txt ''but it has '',
                                 PctU n, Txt ''.''])
      else
        let faultValueP = hd (xml_element_children faultElement); elemName = xml_element_name faultValueP in
        if elemName \<noteq> ''value''
        then hfail (setParseFault [Txt ''<fault> contains a <'', PctS elemName, Txt ''> element.  '',
                                   Txt ''Only <value> makes sense.''])
        else hbind (xmlrpc_parseValue mok ps (maxNest ps) faultValueP) (\<lambda>faultVP.
               hfinally (interpretFaultValue mok faultVP) (xmlrpc_DECREF faultVP)))"

text \<open>The array is asserted to be in order before its size is asked for.\<close>

definition assert_array_ok :: "nat \<Rightarrow> (unit, 'd) heap_op" where
  "assert_array_ok p h = (if xmlrpc_abort_if_array_bad p h then hret () h else None)"

definition parseParamsElement :: "(nat \<Rightarrow> bool) \<Rightarrow> 'd parser \<Rightarrow> xml_tree \<Rightarrow> (nat, 'd) heap_op" where
  "parseParamsElement mok ps paramsElementP =
     hbind (convertParams mok ps paramsElementP) (\<lambda>paramsVP.
       hfinally
         (hbind (assert_array_ok paramsVP) (\<lambda>_.
          hbind (xmlrpc_array_size paramsVP) (\<lambda>arraySize.
            if arraySize \<noteq> 1
            then hfail (setParseFault [Txt ''Contains '', PctD (int arraySize), Txt '' items.  It should have 1.''])
            else xmlrpc_array_read_item paramsVP 0)))
         (xmlrpc_DECREF paramsVP))"

text \<open>A response is the value that was returned, or the fault code and string of a failed call.\<close>

datatype 'v response = Returned 'v | Failed "32 word" string

definition parseMethodResponseElt :: "(nat \<Rightarrow> bool) \<Rightarrow> 'd parser \<Rightarrow> xml_tree \<Rightarrow> (nat response, 'd) heap_op" where
  "parseMethodResponseElt mok ps methodResponseEltP =
     (let n = length (xml_element_children methodResponseEltP) in
      if n = 1
      then
        let child = hd (xml_element_children methodResponseEltP) in
        if xml_element_name child = ''params''
        then hbind (parseParamsElement mok ps child) (\<lambda>result. hret (Returned result))
        else if xml_element_name child = ''fault''
        then hbind (parseFaultElement mok ps child) (\<lambda>(faultCode, faultString). hret (Failed faultCode faultString))
        else hfail (setParseFault [Txt ''<methodResponse> must contain <params> or <fault>, '',
                                   Txt ''but contains <'', PctS (xml_element_name child), Txt ''>.''])
      else hfail (setParseFault [Txt ''<methodResponse> has '', PctU n, Txt '' children, should have 1.'']))"

text \<open>A document that has to be one element of the given name.\<close>

definition not_valid_xml :: "fault \<Rightarrow> fault" where
  "not_valid_xml f = setParseFault [Txt ''Not valid XML.  '', PctS (text_of f)]"

definition parse_root ::
    "(nat \<Rightarrow> bool) \<Rightarrow> 'd parser \<Rightarrow> string \<Rightarrow> (xml_tree \<Rightarrow> ('a, 'd) heap_op) \<Rightarrow> ('a, 'd) heap_op" where
  "parse_root mok ps xmlData use =
     hbind (hmap_fault not_valid_xml (hoption (xml_parse (expat ps) mok xmlData))) (\<lambda>doc.
       hfinally (hbind (document doc) use) (free_document doc))"

definition xmlrpc_parse_response2 :: "(nat \<Rightarrow> bool) \<Rightarrow> 'd parser \<Rightarrow> string \<Rightarrow> (nat response, 'd) heap_op" where
  "xmlrpc_parse_response2 mok ps xmlData =
     (let limit = xmlrpc_limit_get (limits ps) XMLRPC_XML_SIZE_LIMIT_ID in
      if length xmlData > limit
      then hfail (set_fault_formatted XMLRPC_LIMIT_EXCEEDED_ERROR
                    [Txt ''XML-RPC response too large.  Our limit is '', PctU (limit mod 2 ^ 32),
                     Txt '' characters.  '', Txt ''We got '', PctU (length xmlData mod 2 ^ 32), Txt '' characters''])
      else
        parse_root mok ps xmlData (\<lambda>responseEltP.
          if xml_element_name responseEltP = ''methodResponse''
          then parseMethodResponseElt mok ps responseEltP
          else hfail (setParseFault [Txt ''XML-RPC response must consist of a '',
                        Txt ''<methodResponse> element.  '', Txt ''This has a <'',
                        PctS (xml_element_name responseEltP), Txt ''> instead.''])))"

definition xmlrpc_parse_response :: "(nat \<Rightarrow> bool) \<Rightarrow> 'd parser \<Rightarrow> string \<Rightarrow> (nat, 'd) heap_op" where
  "xmlrpc_parse_response mok ps xmlData =
     hbind (xmlrpc_parse_response2 mok ps xmlData) (\<lambda>r.
       case r of
         Returned result \<Rightarrow> hret result
       | Failed faultCode faultString \<Rightarrow> hfail (set_fault (sint faultCode) faultString))"

definition xmlrpc_parse_value_xml :: "(nat \<Rightarrow> bool) \<Rightarrow> 'd parser \<Rightarrow> string \<Rightarrow> (nat, 'd) heap_op" where
  "xmlrpc_parse_value_xml mok ps xmlData =
     parse_root mok ps xmlData (\<lambda>valueEltP.
       if xml_element_name valueEltP = ''value''
       then xmlrpc_parseValue mok ps (maxNest ps) valueEltP
       else hfail (setParseFault [Txt ''XML-RPC value XML document must consist of '',
                     Txt ''a <value> element.  '', Txt ''This has a <'',
                     PctS (xml_element_name valueEltP), Txt ''> instead.'']))"

section \<open>Reading documents without memory\<close>

definition read_param :: "'d parser \<Rightarrow> 'd xvalue list \<Rightarrow> xml_tree \<Rightarrow> 'd xvalue list result option" where
  "read_param ps vs t =
     bindO (Some (validateName t ''param'')) (\<lambda>_.
     bindO (Some (validateChildCount t 1)) (\<lambda>_.
       let c = hd (xml_element_children t) in
       bindO (Some (validateName c ''value'')) (\<lambda>_.
       bindO (read_value ps (maxNest ps) c) (\<lambda>v. Some (Inr (vs @ [v]))))))"

fun read_params_loop :: "'d parser \<Rightarrow> 'd xvalue list \<Rightarrow> xml_tree list \<Rightarrow> 'd xvalue list result option" where
  "read_params_loop ps vs [] = Some (Inr vs)"
| "read_params_loop ps vs (t # ts) =
     (case read_param ps vs t of
        None \<Rightarrow> None
      | Some (Inr vs') \<Rightarrow> read_params_loop ps vs' ts
      | Some (Inl f) \<Rightarrow> Some (Inl (rest_of_params f ts)))"

definition read_params :: "'d parser \<Rightarrow> xml_tree \<Rightarrow> 'd xvalue list result option" where
  "read_params ps t =
     bindO (Some (validateName t ''params'')) (\<lambda>_. read_params_loop ps [] (xml_element_children t))"

definition read_call_children :: "'d parser \<Rightarrow> xml_tree \<Rightarrow> (string \<times> 'd xvalue list) result option" where
  "read_call_children ps t =
     (let n = length (xml_element_children t) in
      bindO (Some (getChildByName t ''methodName'')) (\<lambda>nameElem.
      bindO (Some (parseMethodNameElement always nameElem)) (\<lambda>methodName.
      bindO
        (if n > 1 then bindO (Some (getChildByName t ''params'')) (read_params ps) else Some (Inr []))
        (\<lambda>vs.
          if n > 2
          then Some (Inl (setParseFault [Txt ''<methodCall> has extraneous '',
                       Txt ''children, other than <methodName> and '',
                       Txt ''<params>.  Total child count = '', PctU n]))
          else Some (Inr (methodName, vs))))))"

definition read_call :: "'d parser \<Rightarrow> xml_tree \<Rightarrow> (string \<times> 'd xvalue list) result option" where
  "read_call ps t =
     (if xml_element_name t \<noteq> ''methodCall''
      then Some (Inl (setParseFault [Txt ''XML-RPC call should be a <methodCall> element.  '',
                   Txt ''Instead, we have a <'', PctS (xml_element_name t), Txt ''> element.'']))
      else read_call_children ps t)"

section \<open>The parser of calls against the reader\<close>

lemma sim_array_new:
  assumes ok: "heap_ok h {} E" and mem: "\<not> lax \<Longrightarrow> mok = always"
  shows "simulates lax (stays E h) (made E h) (xmlrpc_array_new mok h) (Some (Inr (XArray [])))"
proof -
  have eq: "xmlrpc_array_new mok h = hbind (xmlrpc_array_new mok)
      (\<lambda>p. hcleanup (hbind (hret ()) (\<lambda>_. hret p)) (xmlrpc_DECREF p)) h" (is "_ = ?out")
    by (auto simp: hbind_def hret_def hcleanup_def split: option.split sum.split)
  have "simulates lax (stays E h) (made E h)
      (hbind (\<lambda>h. hbind (hresult (xmlrpc_createXmlrpcValue mok)) (\<lambda>_.
                hbind (hresult (mem_block_init mok SIZEOF_VALUE_PTR 0)) (\<lambda>b. new_cell (ArrayBody b))) h)
         (\<lambda>p. hcleanup (hbind (hret ()) (\<lambda>_. hret p)) (xmlrpc_DECREF p)) h) (Some (Inr (XArray [])))"
    by (rule sim_container [OF ok mem, where mk = ArrayBody])
      (auto simp: grown_block_def made_def array_at_def intro!: sim_ret array_at_repr)
  then have "simulates lax (stays E h) (made E h) ?out (Some (Inr (XArray [])))"
    by (simp add: xmlrpc_array_new_def [abs_def])
  then show ?thesis by (simp only: eq [symmetric])
qed

lemma sim_convert_param:
  assumes ok: "heap_ok h0 {} E" and mem: "\<not> lax \<Longrightarrow> mok = always"
    and fits: "\<not> lax \<Longrightarrow> SIZEOF_VALUE_PTR * (n + 1) \<le> BLOCK_ALLOC_MAX" "\<not> lax \<Longrightarrow> tree_fits t"
    and fill: "filling_array E h0 n h vs"
  shows "simulates lax (stays (add_mset (fresh h0) E) h0) (\<lambda>h' _ vs'. filling_array E h0 (Suc n) h' vs')
    (convert_param mok ps (fresh h0) t h) (read_param ps vs t)"
proof -
  let ?J = "stays (add_mset (fresh h0) E) h0"
  have h: "heap_ok h {} (add_mset (fresh h0) E)" "extends h0 h" using fill by (simp_all add: filling_array_def)
  let ?c = "hd (xml_element_children t)"
  have item: "simulates lax ?J (\<lambda>h' _ vs'. filling_array E h0 (Suc n) h' vs')
      (hbind (xmlrpc_parseValue mok ps (maxNest ps) ?c) (\<lambda>itemP.
         hfinally (xmlrpc_array_append_item mok (fresh h0) itemP) (xmlrpc_DECREF itemP)) h)
      (bindO (read_value ps (maxNest ps) ?c) (\<lambda>v. Some (Inr (vs @ [v]))))"
    if "length (xml_element_children t) = 1"
  proof (rule sim_bind)
    have "tree_fits ?c" if "\<not> lax"
      using fits(2) [OF that] \<open>length _ = 1\<close> by (cases t; cases "xml_element_children t") auto
    then have "simulates lax (stays (add_mset (fresh h0) E) h) (made (add_mset (fresh h0) E) h)
        (xmlrpc_parseValue mok ps (maxNest ps) ?c h) (read_value ps (maxNest ps) ?c)"
      by (intro sim_parseValue [OF mem h(1)])
    then show "simulates lax ?J (made (add_mset (fresh h0) E) h)
        (xmlrpc_parseValue mok ps (maxNest ps) ?c h) (read_value ps (maxNest ps) ?c)"
      by (rule sim_mono) (use extends_trans [OF h(2)] in auto)
  qed (rule sim_array_item [OF ok mem fits(1) fill])
  show ?thesis
    unfolding convert_param_def read_param_def Let_def
    by (rule sim_bind_result, use h in simp)+
      (use item in \<open>auto simp: validateChildCount_def split: if_splits\<close>)
qed

lemma sim_convert_params_loop:
  assumes ok: "heap_ok h0 {} E"
    and fits: "SIZEOF_VALUE_PTR * (n + length ts) \<le> BLOCK_ALLOC_MAX" "list_all tree_fits ts"
    and fill: "filling_array E h0 n h vs"
  shows "simulates False (stays (add_mset (fresh h0) E) h0) (\<lambda>h' _ vs'. filling_array E h0 (n + length ts) h' vs')
    (convert_params_loop always ps (fresh h0) ts h) (read_params_loop ps vs ts)"
  using fits fill
proof (induction ts arbitrary: n h vs)
  case Nil
  then show ?case by (simp add: sim_ret)
next
  case (Cons t ts)
  let ?c = "convert_param always ps (fresh h0) t h" and ?r = "read_param ps vs t"
  have sim: "simulates False (stays (add_mset (fresh h0) E) h0) (\<lambda>h' _ vs'. filling_array E h0 (Suc n) h' vs')
      ?c ?r"
    by (rule sim_convert_param [OF ok]) (use Cons.prems in auto)
  show ?case
  proof (cases ?r)
    case None
    with sim show ?thesis by (auto simp: simulates_def split: option.splits sum.splits)
  next
    case (Some r)
    show ?thesis
    proof (cases r)
      case (Inl f)
      with Some sim show ?thesis by (auto simp: simulates_def split: option.splits sum.splits)
    next
      case (Inr vs')
      with Some sim obtain h' where c: "?c = Some (Inr (), h')" "filling_array E h0 (Suc n) h' vs'"
        by (auto dest: sim_success)
      have "simulates False (stays (add_mset (fresh h0) E) h0)
          (\<lambda>h' _ vs'. filling_array E h0 (Suc n + length ts) h' vs')
          (convert_params_loop always ps (fresh h0) ts h') (read_params_loop ps vs' ts)"
        by (rule Cons.IH) (use Cons.prems c in auto)
      with c Some Inr show ?thesis by simp
    qed
  qed
qed

definition read_array_value :: "'d parser \<Rightarrow> xml_tree \<Rightarrow> 'd xvalue result option" where
  "read_array_value ps t = bindO (read_params ps t) (\<lambda>vs. Some (Inr (XArray vs)))"

lemma sim_convertParams:
  assumes ok: "heap_ok h {} E" and fits: "tree_fits t"
  shows "simulates False (stays E h) (made E h) (convertParams always ps t h) (read_array_value ps t)"
  unfolding convertParams_def xmlrpc_array_new_def [abs_def]
proof (rule sim_container [OF ok, where mk = ArrayBody])
  show "0 < SIZEOF_VALUE_PTR" by simp
  show "body_ok h (ArrayBody b) \<and> body_refs (ArrayBody b) = []"
    if "grown_block SIZEOF_VALUE_PTR b" "block_data SIZEOF_VALUE_PTR b = []" for b
    using that by (simp add: grown_block_def)
  fix b h1
  assume b: "grown_block SIZEOF_VALUE_PTR b" "block_data SIZEOF_VALUE_PTR b = []"
    and h1: "heap_ok h1 {} (add_mset (fresh h) E)" "extends h h1" "body_at h1 (fresh h) = Some (ArrayBody b)"
  let ?a = "fresh h" and ?cs = "xml_element_children t"
  have start: "filling_array E h 0 h1 []"
    using h1 b by (auto simp: filling_array_def array_at_def)
  have fits': "SIZEOF_VALUE_PTR * (0 + length ?cs) \<le> BLOCK_ALLOC_MAX" "list_all tree_fits ?cs"
    using fits by (cases t; simp)+
  have "simulates False (stays (add_mset ?a E) h) (\<lambda>h' _ vs. filling_array E h (0 + length ?cs) h' vs)
      (hbind (hresult (validateName t ''params'')) (\<lambda>_. convert_params_loop always ps ?a ?cs) h1)
      (read_params ps t)"
    unfolding read_params_def
    by (rule sim_bind_result) (use h1 sim_convert_params_loop [OF ok fits' start] in simp_all)
  then have "simulates False (stays (add_mset ?a E) h) (\<lambda>h' _ v. made E h h' ?a v)
      (hbind (hbind (hresult (validateName t ''params'')) (\<lambda>_. convert_params_loop always ps ?a ?cs))
         (\<lambda>_. hret ()) h1) (read_array_value ps t)"
    unfolding read_array_value_def
    by (rule sim_bind) (auto simp: filling_array_def made_def intro!: sim_ret array_at_repr)
  then show "simulates False (stays (add_mset ?a E) h) (\<lambda>h' _ v. made E h h' ?a v)
      (hbind (hresult (validateName t ''params'')) (\<lambda>_. convert_params_loop always ps ?a ?cs) h1)
      (read_array_value ps t)"
    by (simp add: hbind_hret)
qed simp

text \<open>The document: its tree is there to be looked at, and it can be freed.\<close>

lemma xml_parse_document:
  assumes "expat ps xml = Some (evs, None)" "document_tree evs = Some t"
    and "sum_list (map event_size evs) \<le> BLOCK_ALLOC_MAX"
  obtains doc where "xml_parse (expat ps) always xml = Some (Inr doc)"
    "\<And>h :: 'e heap. document doc h = Some (Inr t, h)" "\<And>h :: 'e heap. free_document doc h = Some h"
proof -
  obtain r s where rs: "xml_parse (expat ps) always xml = Some (Inr (r, s))" "elem_span s r (next_element s) t"
    using xml_parse_builds [of "expat ps", OF assms] by blast
  have "document (r, s) h = Some (Inr t, h)" for h :: "'e heap"
    using tree_of_span(1) [OF rs(2), of "next_element s"] by (simp add: document_def hoption_def)
  moreover have "free_document (r, s) h = Some h" for h :: "'e heap"
    using free_span(1) [OF rs(2)] by (simp add: free_document_def xml_element_free_def free_elements_simps)
  ultimately show ?thesis using rs(1) that by blast
qed

lemma sim_with_document:
  fixes h :: "'e heap"
  assumes doc: "\<And>h :: 'e heap. document doc h = Some (Inr t, h)" "\<And>h :: 'e heap. free_document doc h = Some h"
    and "simulates lax J I (m t h) spec"
  shows "simulates lax J I (hfinally (hbind (document doc) m) (free_document doc) h) spec"
proof (rule sim_finally)
  show "simulates lax J I (hbind (document doc) m h) spec" using doc(1) assms(3) by (simp add: hbind_def)
qed (simp_all add: doc(2))

definition call_made :: "nat multiset \<Rightarrow> 'd heap \<Rightarrow> 'd heap \<Rightarrow> string \<times> nat \<Rightarrow> string \<times> 'd xvalue list \<Rightarrow> bool" where
  "call_made E h h' r s \<longleftrightarrow> fst r = fst s \<and> made E h h' (snd r) (XArray (snd s))"

lemma bindO_assoc: "bindO (bindO r f) g = bindO r (\<lambda>x. bindO (f x) g)"
  by (simp add: bindO_def split: option.split sum.split)

lemma sim_unmap:
  assumes "simulates lax J I out (bindO r (\<lambda>s. Some (Inr (g s))))"
  shows "simulates lax J (\<lambda>h x s. I h x (g s)) out r"
  using assms by (auto simp: simulates_def bindO_def split: option.splits sum.splits)

lemma sim_parseCallChildren:
  assumes ok: "heap_ok h {} E" and fits: "tree_fits t"
  shows "simulates False (stays E h) (call_made E h) (parseCallChildren always ps t h) (read_call_children ps t)"
proof -
  let ?n = "length (xml_element_children t)"
  let ?params = "if ?n > 1 then hbind (hresult (getChildByName t ''params'')) (convertParams always ps)
      else xmlrpc_array_new always"
  let ?vs = "if ?n > 1 then bindO (Some (getChildByName t ''params'')) (read_params ps) else Some (Inr [])"
  have start: "stays E h h" using ok extends_refl [OF ok] by simp
  have params: "simulates False (stays E h) (made E h) (?params h) (bindO ?vs (\<lambda>vs. Some (Inr (XArray vs))))"
  proof (cases "?n > 1")
    case True
    have "simulates False (stays E h) (made E h)
        (hbind (hresult (getChildByName t ''params'')) (convertParams always ps) h)
        (bindO (Some (getChildByName t ''params'')) (read_array_value ps))"
    proof (rule sim_bind_result)
      fix c assume "getChildByName t ''params'' = Inr c"
      then have "c \<in> set (xml_element_children t)"
        by (auto simp: getChildByName_def find_Some_iff split: option.splits)
      then have "tree_fits c" using fits by (cases t) (auto simp: list_all_iff)
      then show "simulates False (stays E h) (made E h) (convertParams always ps c h) (read_array_value ps c)"
        by (rule sim_convertParams [OF ok])
    qed (rule start)
    with True show ?thesis by (simp add: bindO_assoc read_array_value_def [abs_def])
  next
    case False
    with sim_array_new [OF ok, of False always] show ?thesis by simp
  qed
  have last: "simulates False (stays E h) (call_made E h)
      (hbind ?params (\<lambda>paramArrayP. hcleanup (if ?n > 2 then hfail f else hret (name, paramArrayP))
         (xmlrpc_DECREF paramArrayP)) h)
      (bindO ?vs (\<lambda>vs. if ?n > 2 then Some (Inl f) else Some (Inr (name, vs))))" for f name
  proof (rule sim_bind, rule sim_unmap, rule params)
    fix p h' vs assume m: "made E h h' p (XArray vs)"
    note d = madeD [OF ok m]
    obtain h'' where "xmlrpc_DECREF p h' = Some h''" "heap_ok h'' {} E" "extends h h''"
      using give_up [OF ok d(2,3)] d(1) by auto
    then show "simulates False (stays E h) (call_made E h)
        (hcleanup (if ?n > 2 then hfail f else hret (name, p)) (xmlrpc_DECREF p) h')
        (if ?n > 2 then Some (Inl f) else Some (Inr (name, vs)))"
      using m by (auto simp: simulates_def hcleanup_def hfail_def hret_def call_made_def)
  qed
  show ?thesis
    unfolding parseCallChildren_def read_call_children_def Let_def
    by (rule sim_bind_result, use start in simp)+ (rule last)
qed

end
