(* ===== verification/Build.thy ===== *)
theory Build
  imports Parse_Xml Textutil
begin

text \<open>
  Values made from a format string and a list of arguments (\<open>src/xmlrpc_build.c\<close>).  The state of
  the building is the heap, the rest of the format string with the NUL at its end, and the rest of
  the arguments.  \<open>None\<close> stands for a read of the format string past its NUL, an argument of another
  type than the one asked for, or a use of memory the code does not own.
\<close>

section \<open>The state\<close>

datatype 'd va_arg =
    VaInt "32 word"
  | VaBool "32 word"
  | VaDouble 'd
  | VaString string
  | VaSize nat
  | VaWide "int list"
  | VaTime int
  | VaBytes "char list"
  | VaI8 "64 word"
  | VaPointer nat
  | VaValue nat
  | VaDest nat

record 'd build_state =
  bheap :: "'d heap"
  format :: string
  args :: "'d va_arg list"

type_synonym ('a, 'd) build_op = "('a, 'd build_state) op"

definition with_heap :: "('d heap \<Rightarrow> 'd heap option) \<Rightarrow> 'd build_state \<Rightarrow> 'd build_state option" where
  "with_heap f st = map_option (\<lambda>h. st\<lparr>bheap := h\<rparr>) (f (bheap st))"

definition on_heap :: "('a, 'd) heap_op \<Rightarrow> ('a, 'd) build_op" where
  "on_heap m st = map_option (\<lambda>(r, h). (r, st\<lparr>bheap := h\<rparr>)) (m (bheap st))"

definition release_value :: "nat \<Rightarrow> 'd build_state \<Rightarrow> 'd build_state option" where
  "release_value p = with_heap (xmlrpc_DECREF p)"

definition look :: "(char, 'd) build_op" where
  "look st = (case format st of [] \<Rightarrow> None | c # _ \<Rightarrow> Some (Inr c, st))"

definition skip :: "(unit, 'd) build_op" where
  "skip st = (case format st of [] \<Rightarrow> None | _ # r \<Rightarrow> Some (Inr (), st\<lparr>format := r\<rparr>))"

definition next_arg :: "('d va_arg, 'd) build_op" where
  "next_arg st = (case args st of [] \<Rightarrow> None | a # r \<Rightarrow> Some (Inr a, st\<lparr>args := r\<rparr>))"

definition undefined_behaviour :: "('a, 'd) build_op" where
  "undefined_behaviour st = None"

text \<open>
  What stands for a loop or a recursion that comes to the end of its fuel: \<open>stuck\<close> says how such a
  run is to end, and the end of the fuel is told from undefined behaviour by asking what
  another \<open>stuck\<close> gives.
\<close>

type_synonym 'd stuck = "'d build_state \<Rightarrow> (fault \<times> 'd build_state) option"

definition fuel_out :: "'d stuck \<Rightarrow> ('a, 'd) build_op" where
  "fuel_out stuck st = map_option (\<lambda>(f, st'). (Inl f, st')) (stuck st)"

definition no_result :: "'d stuck" where
  "no_result st = None"

section \<open>Simple values\<close>

text \<open>A length that says more than the memory at the pointer holds is a read past it.\<close>

definition getString :: "(nat \<Rightarrow> bool) \<Rightarrow> (nat, 'd) build_op" where
  "getString mok =
     hbind next_arg (\<lambda>a. case a of
       VaString str \<Rightarrow>
         hbind look (\<lambda>c.
           if c = CHR ''#''
           then hbind skip (\<lambda>_. hbind next_arg (\<lambda>n. case n of
                  VaSize len \<Rightarrow>
                    if len \<le> length str then on_heap (new_scalar (xmlrpc_string_new_lp mok (take len str)))
                    else undefined_behaviour
                | _ \<Rightarrow> undefined_behaviour))
           else on_heap (new_scalar (xmlrpc_string_new_lp mok (c_str str))))
     | _ \<Rightarrow> undefined_behaviour)"

definition getWideString :: "(nat \<Rightarrow> bool) \<Rightarrow> (nat, 'd) build_op" where
  "getWideString mok =
     hbind next_arg (\<lambda>a. case a of
       VaWide wcs \<Rightarrow>
         hbind look (\<lambda>c.
           if c = CHR ''#''
           then hbind skip (\<lambda>_. hbind next_arg (\<lambda>n. case n of
                  VaSize len \<Rightarrow>
                    if len \<le> length wcs then on_heap (new_scalar (xmlrpc_string_w_new_lp mok (take len wcs)))
                    else undefined_behaviour
                | _ \<Rightarrow> undefined_behaviour))
           else on_heap (new_scalar (xmlrpc_string_w_new_lp mok (wcs_str wcs))))
     | _ \<Rightarrow> undefined_behaviour)"

definition getBase64 :: "(nat \<Rightarrow> bool) \<Rightarrow> (nat, 'd) build_op" where
  "getBase64 mok =
     hbind next_arg (\<lambda>a. hbind next_arg (\<lambda>n. case (a, n) of
       (VaBytes value, VaSize len) \<Rightarrow>
         if len \<le> length value then on_heap (new_scalar (xmlrpc_base64_new mok (take len value)))
         else undefined_behaviour
     | _ \<Rightarrow> undefined_behaviour))"

definition mkFromVal :: "xmlrpc_type \<Rightarrow> string \<Rightarrow> nat \<Rightarrow> (nat, 'd) heap_op" where
  "mkFromVal t msg value =
     hbind (get_body value) (\<lambda>b.
       if body_type b \<noteq> t then hfail (set_fault XMLRPC_INTERNAL_ERROR msg)
       else hbind (hstep (xmlrpc_INCREF value)) (\<lambda>_. hret value))"

definition mkArrayFromVal :: "nat \<Rightarrow> (nat, 'd) heap_op" where
  "mkArrayFromVal = mkFromVal TYPE_ARRAY (''Array format ('' @ [CHR 0x27] @ ''A'' @ [CHR 0x27] @ ''), non-array xmlrpc_value'')"

definition mkStructFromVal :: "nat \<Rightarrow> (nat, 'd) heap_op" where
  "mkStructFromVal = mkFromVal TYPE_STRUCT (''Struct format ('' @ [CHR 0x27] @ ''S'' @ [CHR 0x27] @ ''), non-struct xmlrpc_value'')"

section \<open>Arrays and structs\<close>

text \<open>
  \<open>get\<close> is \<open>getValue\<close>.  Each round of a loop looks at the format string before it looks at the
  environment, also in the round after a fault.
\<close>

definition look_after_fault :: "('a, 'd) build_op \<Rightarrow> ('a, 'd) build_op" where
  "look_after_fault m st =
     (case m st of
        Some (Inl f, st') \<Rightarrow> if format st' = [] then None else Some (Inl f, st')
      | r \<Rightarrow> r)"

fun array_items_loop ::
    "'d stuck \<Rightarrow> nat \<Rightarrow> (nat \<Rightarrow> bool) \<Rightarrow> (nat, 'd) build_op \<Rightarrow> char \<Rightarrow> nat \<Rightarrow> (unit, 'd) build_op" where
  "array_items_loop stuck 0 mok get delimiter arrayP = fuel_out stuck"
| "array_items_loop stuck (Suc n) mok get delimiter arrayP =
     hbind look (\<lambda>c.
       if c = delimiter then hret ()
       else if c = NUL
       then hfail (set_fault XMLRPC_INTERNAL_ERROR
                    (''format string ended before closing '' @ [CHR 0x27] @ '')'' @ [CHR 0x27] @ ''.''))
       else
         hbind (look_after_fault (hbind get (\<lambda>itemP.
                  hfinally (on_heap (xmlrpc_array_append_item mok arrayP itemP)) (release_value itemP)))) (\<lambda>_.
         array_items_loop stuck n mok get delimiter arrayP))"

text \<open>When the array itself cannot be made, the null pointer is released.\<close>

definition getArray ::
    "'d stuck \<Rightarrow> nat \<Rightarrow> (nat \<Rightarrow> bool) \<Rightarrow> (nat, 'd) build_op \<Rightarrow> char \<Rightarrow> (nat, 'd) build_op" where
  "getArray stuck n mok get delimiter st =
     (case on_heap (xmlrpc_array_new mok) st of
        Some (Inr arrayP, st') \<Rightarrow>
          hcleanup (hbind (array_items_loop stuck n mok get delimiter arrayP) (\<lambda>_. hret arrayP))
            (release_value arrayP) st'
      | _ \<Rightarrow> None)"

definition getStructMember :: "(nat, 'd) build_op \<Rightarrow> (nat \<times> nat, 'd) build_op" where
  "getStructMember get =
     hbind get (\<lambda>keyP.
       hcleanup
         (hbind look (\<lambda>c.
            if c \<noteq> CHR '':''
            then hfail (set_fault XMLRPC_INTERNAL_ERROR
                         (''format string does not have '' @ [CHR 0x27] @ '':'' @ [CHR 0x27] @ '' after a '' @
                          ''structure member key.''))
            else hbind skip (\<lambda>_. hbind get (\<lambda>valueP. hret (keyP, valueP)))))
         (release_value keyP))"

fun struct_members_loop ::
    "'d stuck \<Rightarrow> nat \<Rightarrow> (nat \<Rightarrow> bool) \<Rightarrow> (nat, 'd) build_op \<Rightarrow> char \<Rightarrow> nat \<Rightarrow> (unit, 'd) build_op" where
  "struct_members_loop stuck 0 mok get delimiter structP = fuel_out stuck"
| "struct_members_loop stuck (Suc n) mok get delimiter structP =
     hbind look (\<lambda>c.
       if c = delimiter then hret ()
       else
         hbind (look_after_fault (hbind (getStructMember get) (\<lambda>(keyP, valueP).
                  hfinally
                    (hfinally
                      (hbind look (\<lambda>d.
                         hbind
                           (if d = CHR '','' then skip
                            else if d = delimiter then hret ()
                            else hfail (set_fault XMLRPC_INTERNAL_ERROR
                                         (''format string does not have '' @ [CHR 0x27] @ '','' @ [CHR 0x27] @
                                          '' or '' @ [CHR 0x27] @ '')'' @ [CHR 0x27] @ '' after '' @
                                          ''a structure member'')))
                           (\<lambda>_. on_heap (xmlrpc_struct_set_value_v mok structP keyP valueP))))
                      (release_value valueP))
                    (release_value keyP)))) (\<lambda>_.
         struct_members_loop stuck n mok get delimiter structP))"

definition getStruct ::
    "'d stuck \<Rightarrow> nat \<Rightarrow> (nat \<Rightarrow> bool) \<Rightarrow> (nat, 'd) build_op \<Rightarrow> char \<Rightarrow> (nat, 'd) build_op" where
  "getStruct stuck n mok get delimiter =
     hbind (on_heap (xmlrpc_struct_new mok)) (\<lambda>structP.
       hcleanup (hbind (struct_members_loop stuck n mok get delimiter structP) (\<lambda>_. hret structP))
         (release_value structP))"

section \<open>Values\<close>

text \<open>The switch on the character of the format string; \<open>get\<close> is \<open>getValue\<close> for the parts.\<close>

definition value_of_format ::
    "'d stuck \<Rightarrow> nat \<Rightarrow> (nat \<Rightarrow> bool) \<Rightarrow> (nat, 'd) build_op \<Rightarrow> char \<Rightarrow> (nat, 'd) build_op" where
  "value_of_format stuck n mok get formatChar =
     (if formatChar = CHR ''i''
     then hbind next_arg (\<lambda>a. case a of VaInt i \<Rightarrow> on_heap (new_scalar (xmlrpc_int_new mok i)) | _ \<Rightarrow> undefined_behaviour)
     else if formatChar = CHR ''b''
     then hbind next_arg (\<lambda>a. case a of VaBool b \<Rightarrow> on_heap (new_scalar (xmlrpc_bool_new mok b)) | _ \<Rightarrow> undefined_behaviour)
     else if formatChar = CHR ''d''
     then hbind next_arg (\<lambda>a. case a of VaDouble d \<Rightarrow> on_heap (new_scalar (xmlrpc_double_new mok d)) | _ \<Rightarrow> undefined_behaviour)
     else if formatChar = CHR ''s'' then getString mok
     else if formatChar = CHR ''w'' then getWideString mok
     else if formatChar = CHR ''t''
     then hbind next_arg (\<lambda>a. case a of
            VaTime t \<Rightarrow> on_heap (new_scalar (bindE (xmlrpc_datetime_new_sec t) (xmlrpc_datetime_new mok)))
          | _ \<Rightarrow> undefined_behaviour)
     else if formatChar = CHR ''8''
     then hbind next_arg (\<lambda>a. case a of
            VaString s \<Rightarrow>
              (case xmlrpc_datetime_new_str (c_str s) of None \<Rightarrow> undefined_behaviour
               | Some r \<Rightarrow> on_heap (new_scalar (bindE r (xmlrpc_datetime_new mok))))
          | _ \<Rightarrow> undefined_behaviour)
     else if formatChar = CHR ''6'' then getBase64 mok
     else if formatChar = CHR ''n'' then on_heap (new_scalar (xmlrpc_nil_new mok))
     else if formatChar = CHR ''I''
     then hbind next_arg (\<lambda>a. case a of VaI8 i \<Rightarrow> on_heap (new_scalar (xmlrpc_i8_new mok i)) | _ \<Rightarrow> undefined_behaviour)
     else if formatChar = CHR ''p''
     then hbind next_arg (\<lambda>a. case a of VaPointer p \<Rightarrow> on_heap (cptr_new_dtor mok p None) | _ \<Rightarrow> undefined_behaviour)
     else if formatChar = CHR ''A''
     then hbind next_arg (\<lambda>a. case a of VaValue p \<Rightarrow> on_heap (mkArrayFromVal p) | _ \<Rightarrow> undefined_behaviour)
     else if formatChar = CHR ''S''
     then hbind next_arg (\<lambda>a. case a of VaValue p \<Rightarrow> on_heap (mkStructFromVal p) | _ \<Rightarrow> undefined_behaviour)
     else if formatChar = CHR ''V''
     then hbind next_arg (\<lambda>a. case a of
            VaValue p \<Rightarrow> on_heap (hbind (hstep (xmlrpc_INCREF p)) (\<lambda>_. hret p))
          | _ \<Rightarrow> undefined_behaviour)
     else if formatChar = CHR ''(''
     then hbind (getArray stuck n mok get (CHR '')'')) (\<lambda>p. hbind skip (\<lambda>_. hret p))
     else if formatChar = CHR ''{''
     then hbind (getStruct stuck n mok get (CHR ''}'')) (\<lambda>p. hbind skip (\<lambda>_. hret p))
     else hfail (set_fault_formatted XMLRPC_INTERNAL_ERROR
                  [Txt ''Unexpected character '', Txt [CHR 0x27], PctS (xmlrpc_makePrintableChar formatChar),
                   Txt [CHR 0x27], Txt '' in format string'']))"

text \<open>The fuel bounds both the depth and the rounds of a loop; one for each character, the NUL
  included, and one more are enough.\<close>

fun getValue :: "'d stuck \<Rightarrow> nat \<Rightarrow> (nat \<Rightarrow> bool) \<Rightarrow> (nat, 'd) build_op" where
  "getValue stuck 0 mok = fuel_out stuck"
| "getValue stuck (Suc n) mok =
     hbind look (\<lambda>formatChar. hbind skip (\<lambda>_. value_of_format stuck n mok (getValue stuck n mok) formatChar))"

definition xmlrpc_build_value_va ::
    "(nat \<Rightarrow> bool) \<Rightarrow> string \<Rightarrow> 'd va_arg list \<Rightarrow> 'd heap \<Rightarrow> (nat result \<times> 'd build_state) option" where
  "xmlrpc_build_value_va mok fmt arguments h =
     (let st = \<lparr>bheap = h, format = fmt @ [NUL], args = arguments\<rparr> in
      if fmt = [] then Some (Inl (faultf [Txt ''Format string is empty.'']), st)
      else getValue no_result (length fmt + 2) mok st)"

definition xmlrpc_build_value :: "(nat \<Rightarrow> bool) \<Rightarrow> string \<Rightarrow> 'd va_arg list \<Rightarrow> (nat, 'd) heap_op" where
  "xmlrpc_build_value mok fmt arguments h =
     (case xmlrpc_build_value_va mok fmt arguments h of
        None \<Rightarrow> None
      | Some (Inl f, st) \<Rightarrow> Some (Inl f, bheap st)
      | Some (Inr retval, st) \<Rightarrow>
          (case format st of
             [] \<Rightarrow> None
           | c # _ \<Rightarrow>
               if c \<noteq> NUL
               then map_option (Pair (Inl (faultf
                      [Txt ''Junk after the format specifier: '', Txt [CHR 0x27], PctS (c_str (format st)), Txt [CHR 0x27],
                       Txt ''.  '', Txt ''The format string must describe exactly '', Txt ''one XML-RPC value '',
                       Txt ''(but it might be a compound value '', Txt ''such as an array)''])))
                      (xmlrpc_DECREF retval (bheap st))
               else Some (Inr retval, bheap st)))"

section \<open>What a format string says\<close>

text \<open>
  Descriptions of values made of parts of their own, their format string and arguments, and the
  value they stand for.
\<close>

datatype 'd leaf =
    LInt "32 word" | LBool "32 word" | LDouble 'd | LString string | LStringN string nat
  | LTime int | LBytes "char list" nat | LNil | LI8 "64 word"

datatype 'd desc =
    Leaf "'d leaf"
  | DArray "'d desc list"
  | DStruct "(string \<times> 'd desc) list"

fun leaf_ok :: "'d leaf \<Rightarrow> bool" where
  "leaf_ok (LStringN s n) \<longleftrightarrow> n \<le> length s"
| "leaf_ok (LBytes s n) \<longleftrightarrow> n \<le> length s"
| "leaf_ok _ \<longleftrightarrow> True"

fun leaf_format :: "'d leaf \<Rightarrow> string" where
  "leaf_format (LInt _) = ''i''"
| "leaf_format (LBool _) = ''b''"
| "leaf_format (LDouble _) = ''d''"
| "leaf_format (LString _) = ''s''"
| "leaf_format (LStringN _ _) = ''s#''"
| "leaf_format (LTime _) = ''t''"
| "leaf_format (LBytes _ _) = ''6''"
| "leaf_format LNil = ''n''"
| "leaf_format (LI8 _) = ''I''"

fun leaf_args :: "'d leaf \<Rightarrow> 'd va_arg list" where
  "leaf_args (LInt i) = [VaInt i]"
| "leaf_args (LBool b) = [VaBool b]"
| "leaf_args (LDouble d) = [VaDouble d]"
| "leaf_args (LString s) = [VaString s]"
| "leaf_args (LStringN s n) = [VaString s, VaSize n]"
| "leaf_args (LTime t) = [VaTime t]"
| "leaf_args (LBytes b n) = [VaBytes b, VaSize n]"
| "leaf_args LNil = []"
| "leaf_args (LI8 i) = [VaI8 i]"

fun leaf_new :: "(nat \<Rightarrow> bool) \<Rightarrow> 'd leaf \<Rightarrow> 'd xvalue result" where
  "leaf_new mok (LInt i) = xmlrpc_int_new mok i"
| "leaf_new mok (LBool b) = xmlrpc_bool_new mok b"
| "leaf_new mok (LDouble d) = xmlrpc_double_new mok d"
| "leaf_new mok (LString s) = xmlrpc_string_new_lp mok (c_str s)"
| "leaf_new mok (LStringN s n) = xmlrpc_string_new_lp mok (take n s)"
| "leaf_new mok (LTime t) = bindE (xmlrpc_datetime_new_sec t) (xmlrpc_datetime_new mok)"
| "leaf_new mok (LBytes b n) = xmlrpc_base64_new mok (take n b)"
| "leaf_new mok LNil = xmlrpc_nil_new mok"
| "leaf_new mok (LI8 i) = xmlrpc_i8_new mok i"

definition commas :: "string list \<Rightarrow> string" where
  "commas ss = concat (case ss of [] \<Rightarrow> [] | s # r \<Rightarrow> s # map (Cons (CHR '','')) r)"

fun desc_format :: "'d desc \<Rightarrow> string" where
  "desc_format (Leaf l) = leaf_format l"
| "desc_format (DArray ds) = ''('' @ concat (map desc_format ds) @ '')''"
| "desc_format (DStruct kds) = ''{'' @ commas (map (\<lambda>kd. ''s:'' @ desc_format (snd kd)) kds) @ ''}''"

fun desc_args :: "'d desc \<Rightarrow> 'd va_arg list" where
  "desc_args (Leaf l) = leaf_args l"
| "desc_args (DArray ds) = concat (map desc_args ds)"
| "desc_args (DStruct kds) = concat (map (\<lambda>kd. VaString (fst kd) # desc_args (snd kd)) kds)"

fun desc_ok :: "'d desc \<Rightarrow> bool" where
  "desc_ok (Leaf l) \<longleftrightarrow> leaf_ok l"
| "desc_ok (DArray ds) \<longleftrightarrow> list_all desc_ok ds \<and> SIZEOF_VALUE_PTR * length ds \<le> BLOCK_ALLOC_MAX"
| "desc_ok (DStruct kds) \<longleftrightarrow>
     list_all (\<lambda>kd. desc_ok (snd kd)) kds \<and> SIZEOF_STRUCT_MEMBER * length kds \<le> BLOCK_ALLOC_MAX"

fun desc_value :: "'d desc \<Rightarrow> 'd xvalue result option" where
  "desc_value (Leaf l) = Some (leaf_new always l)"
| "desc_value (DArray ds) =
     bindO (foldO (\<lambda>vs r. bindO r (\<lambda>v. Some (Inr (vs @ [v])))) [] (map desc_value ds)) (\<lambda>vs. Some (Inr (XArray vs)))"
| "desc_value (DStruct kds) =
     bindO (foldO (\<lambda>kvs (key, r). bindO (Some (text_value (c_str key))) (\<lambda>k.
                     bindO r (\<lambda>v. Some (Inr (put_member k v kvs))))) [] (map (\<lambda>kd. (fst kd, desc_value (snd kd))) kds))
       (\<lambda>kvs. Some (Inr (XStruct kvs)))"

text \<open>The building of a description, without the format string.\<close>

definition append_new :: "(nat \<Rightarrow> bool) \<Rightarrow> nat \<Rightarrow> (nat, 'd) heap_op \<Rightarrow> (unit, 'd) heap_op" where
  "append_new mok a m = hbind m (\<lambda>p. hfinally (xmlrpc_array_append_item mok a p) (xmlrpc_DECREF p))"

definition member_new :: "(nat \<Rightarrow> bool) \<Rightarrow> string \<Rightarrow> (nat, 'd) heap_op \<Rightarrow> (nat \<times> nat, 'd) heap_op" where
  "member_new mok key m =
     hbind (new_scalar (xmlrpc_string_new_lp mok (c_str key))) (\<lambda>k.
       hcleanup (hbind m (\<lambda>p. hret (k, p))) (xmlrpc_DECREF k))"

definition put_new :: "(nat \<Rightarrow> bool) \<Rightarrow> nat \<Rightarrow> string \<Rightarrow> (nat, 'd) heap_op \<Rightarrow> (unit, 'd) heap_op" where
  "put_new mok s key m =
     hbind (member_new mok key m) (\<lambda>(k, p).
       hfinally (hfinally (xmlrpc_struct_set_value_v mok s k p) (xmlrpc_DECREF p)) (xmlrpc_DECREF k))"

fun build_desc :: "(nat \<Rightarrow> bool) \<Rightarrow> 'd desc \<Rightarrow> (nat, 'd) heap_op" where
  "build_desc mok (Leaf l) = new_scalar (leaf_new mok l)"
| "build_desc mok (DArray ds) =
     hbind (xmlrpc_array_new mok) (\<lambda>a.
       hcleanup (hbind (each (append_new mok a) (map (build_desc mok) ds)) (\<lambda>_. hret a)) (xmlrpc_DECREF a))"
| "build_desc mok (DStruct kds) =
     hbind (xmlrpc_struct_new mok) (\<lambda>s.
       hcleanup (hbind (each (\<lambda>(key, m). put_new mok s key m) (map (\<lambda>kd. (fst kd, build_desc mok (snd kd))) kds)) (\<lambda>_. hret s)) (xmlrpc_DECREF s))"

subsection \<open>Reading the format string\<close>

abbreviation at_state :: "'d heap \<Rightarrow> string \<Rightarrow> 'd va_arg list \<Rightarrow> 'd build_state" where
  "at_state h r as \<equiv> \<lparr>bheap = h, format = r, args = as\<rparr>"

text \<open>\<open>out\<close> is \<open>out0\<close> with \<open>r\<close> and \<open>as\<close> left of the format string and the arguments.\<close>

definition lifted ::
    "string \<Rightarrow> 'd va_arg list \<Rightarrow> ('a result \<times> 'd heap) option \<Rightarrow> ('a result \<times> 'd build_state) option \<Rightarrow> bool" where
  "lifted r as out0 out \<longleftrightarrow>
     (case out0 of None \<Rightarrow> out = None
      | Some (Inl f, h) \<Rightarrow> \<exists>st. out = Some (Inl f, st) \<and> bheap st = h \<and> format st \<noteq> []
      | Some (Inr x, h) \<Rightarrow> out = Some (Inr x, at_state h r as))"

lemma lifted_bind:
  assumes "lifted r' as' (m h) (M st)" "\<And>x h'. m h = Some (Inr x, h') \<Longrightarrow> lifted r as (k x h') (K x (at_state h' r' as'))"
  shows "lifted r as (hbind m k h) (hbind M K st)"
  using assms by (auto simp: lifted_def hbind_def split: option.splits sum.splits prod.splits)

lemma lifted_cleanup:
  assumes "lifted r as (m h) (M st)"
  shows "lifted r as (hcleanup m (xmlrpc_DECREF p) h) (hcleanup M (release_value p) st)"
  using assms by (auto simp: lifted_def hcleanup_def release_value_def with_heap_def split: option.splits sum.splits prod.splits)

lemma lifted_finally:
  assumes "lifted r as (m h) (M st)"
  shows "lifted r as (hfinally m (xmlrpc_DECREF p) h) (hfinally M (release_value p) st)"
proof (cases "m h")
  case None
  then show ?thesis using assms by (simp add: lifted_def hfinally_def)
next
  case (Some out)
  obtain x h' where out: "out = (x, h')" by force
  show ?thesis
    using assms Some out
    by (cases x; cases "xmlrpc_DECREF p h'") (auto simp: lifted_def hfinally_def release_value_def with_heap_def)
qed

lemma lifted_after_fault: "lifted r as out0 (M st) \<Longrightarrow> lifted r as out0 (look_after_fault M st)"
  by (auto simp: lifted_def look_after_fault_def split: option.splits sum.splits prod.splits)

lemma lifted_on_heap: "r \<noteq> [] \<Longrightarrow> lifted r as (m h) (on_heap m (at_state h r as))"
  by (auto simp: lifted_def on_heap_def split: option.splits sum.splits)

lemma lifted_ret: "lifted r as (hret x h) (hret x (at_state h r as))"
  by (simp add: lifted_def hret_def)

lemma read_format [simp]:
  "hbind look k (at_state h (c # r) as) = k c (at_state h (c # r) as)"
  "hbind skip k' (at_state h (c # r) as) = k' () (at_state h r as)"
  "hbind next_arg k'' (at_state h r (a # as)) = k'' a (at_state h r as)"
  by (simp_all add: hbind_def look_def skip_def next_arg_def)

lemma hbind_hret_left [simp]: "hbind (hret x) k = k x"
  by (simp add: hbind_def hret_def fun_eq_iff)

definition plain_start :: "string \<Rightarrow> bool" where
  "plain_start r \<longleftrightarrow> r \<noteq> [] \<and> hd r \<noteq> CHR ''#''"

lemma plain_startE:
  assumes "plain_start r"
  obtains c w where "r = c # w" "c \<noteq> CHR ''#''"
  using assms by (cases r) (auto simp: plain_start_def)

lemma getValue_leaf:
  assumes "leaf_ok l" "plain_start r"
  shows "lifted r as (new_scalar (leaf_new mok l) h)
    (getValue stuck (Suc n) mok (at_state h (leaf_format l @ r) (leaf_args l @ as)))"
proof -
  obtain c w where r: "r = c # w" "c \<noteq> CHR ''#''" using plain_startE [OF assms(2)] by blast
  then have "r \<noteq> []" by simp
  note l = lifted_on_heap [OF this]
  show ?thesis
    using assms(1) r l by (cases l) (simp_all add: getString_def getBase64_def value_of_format_def)
qed

lemma format_start:
  "\<exists>c w. desc_format d = c # w \<and> c \<in> set ''ibdst6nI({''"
  by (cases d rule: desc_format.cases; rename_tac l; (case_tac l)?) simp_all

lemma desc_plain_start: "plain_start (desc_format d @ r)"
  using format_start [of d] by (auto simp: plain_start_def)

lemma plain_start_items: "plain_start (concat (map desc_format ds) @ c # r)" if "c \<noteq> CHR ''#''"
proof (cases ds)
  case (Cons d ds')
  then show ?thesis using desc_plain_start [of d "concat (map desc_format ds') @ c # r"] by simp
qed (use that in \<open>simp add: plain_start_def\<close>)

lemma new_container_always:
  "\<exists>p h'. xmlrpc_array_new always h = Some (Inr p, h')"
  "\<exists>p h'. xmlrpc_struct_new always h = Some (Inr p, h')"
  by (simp_all add: xmlrpc_array_new_def xmlrpc_struct_new_def xmlrpc_createXmlrpcValue_def mem_block_init_def
      always_def hbind_def hresult_def new_cell_def Let_def)

lemma array_loop_desc:
  assumes "\<And>d h r as. d \<in> set ds \<Longrightarrow> plain_start r \<Longrightarrow> length (desc_format d @ r) \<le> length (concat (map desc_format ds) @ CHR '')'' # s) \<Longrightarrow>
      lifted r as (build_desc always d h) (get (at_state h (desc_format d @ r) (desc_args d @ as)))"
    and "length ds < n"
  shows "lifted (CHR '')'' # s) as (each (append_new always a) (map (build_desc always) ds) h)
    (array_items_loop stuck n always get (CHR '')'') a
      (at_state h (concat (map desc_format ds) @ CHR '')'' # s) (concat (map desc_args ds) @ as)))"
  using assms
proof (induction ds arbitrary: n h)
  case Nil
  then obtain m where "n = Suc m" by (cases n) auto
  then show ?case by (simp add: lifted_ret)
next
  case (Cons d ds)
  obtain m where n: "n = Suc m" "length ds < m" using Cons.prems(2) by (cases n) auto
  obtain c w where c: "desc_format d = c # w" "c \<in> set ''ibdst6nI({''" using format_start [of d] by blast
  then have c': "c \<noteq> CHR '')''" "c \<noteq> NUL" by auto
  let ?r = "concat (map desc_format ds) @ CHR '')'' # s" and ?as = "concat (map desc_args ds) @ as"
  have r: "plain_start ?r" by (rule plain_start_items) simp
  have item: "lifted ?r ?as (append_new always a (build_desc always d) h)
      (hbind get (\<lambda>p. hfinally (on_heap (xmlrpc_array_append_item always a p)) (release_value p))
        (at_state h (desc_format d @ ?r) (desc_args d @ ?as)))"
    unfolding append_new_def
    by (rule lifted_bind, rule Cons.prems(1), simp, rule r, simp, rule lifted_finally, rule lifted_on_heap)
      (use r in \<open>simp add: plain_start_def\<close>)
  have "lifted (CHR '')'' # s) as
      (hbind (append_new always a (build_desc always d)) (\<lambda>_. each (append_new always a) (map (build_desc always) ds)) h)
      (hbind (look_after_fault (hbind get (\<lambda>p. hfinally (on_heap (xmlrpc_array_append_item always a p)) (release_value p))))
         (\<lambda>_. array_items_loop stuck m always get (CHR '')'') a) (at_state h (desc_format d @ ?r) (desc_args d @ ?as)))"
    by (rule lifted_bind, rule lifted_after_fault, rule item, rule Cons.IH) (use Cons.prems(1) n(2) in auto)
  then show ?case using c c' n(1) by simp
qed

abbreviation member_format :: "string \<times> 'd desc \<Rightarrow> string" where
  "member_format kd \<equiv> ''s:'' @ desc_format (snd kd)"

abbreviation member_args :: "string \<times> 'd desc \<Rightarrow> 'd va_arg list" where
  "member_args kd \<equiv> VaString (fst kd) # desc_args (snd kd)"

lemma commas_simps [simp]:
  "commas [] = []" "commas (s # ss) = s @ (if ss = [] then [] else CHR '','' # commas ss)"
  by (simp_all add: commas_def split: list.split)

lemma struct_member_desc:
  assumes key: "\<And>h r as. plain_start r \<Longrightarrow>
      lifted r as (new_scalar (xmlrpc_string_new_lp always (c_str (fst kd))) h) (get (at_state h (CHR ''s'' # r) (VaString (fst kd) # as)))"
    and val: "\<And>h. lifted r as (build_desc always (snd kd) h) (get (at_state h (desc_format (snd kd) @ r) (desc_args (snd kd) @ as)))"
  shows "lifted r as (member_new always (fst kd) (build_desc always (snd kd)) h)
    (getStructMember get (at_state h (member_format kd @ r) (member_args kd @ as)))"
proof -
  have key': "lifted (CHR '':'' # desc_format (snd kd) @ r) (desc_args (snd kd) @ as)
      (new_scalar (xmlrpc_string_new_lp always (c_str (fst kd))) h)
      (get (at_state h (member_format kd @ r) (member_args kd @ as)))"
    using key [of "CHR '':'' # desc_format (snd kd) @ r"] by (simp add: plain_start_def)
  show ?thesis
    unfolding member_new_def getStructMember_def
  proof (rule lifted_bind, rule key', rule lifted_cleanup)
    fix k h'
    have "lifted r as (hbind (build_desc always (snd kd)) (\<lambda>p. hret (k, p)) h')
        (hbind get (\<lambda>valueP. hret (k, valueP)) (at_state h' (desc_format (snd kd) @ r) (desc_args (snd kd) @ as)))"
      by (rule lifted_bind, rule val, rule lifted_ret)
    then show "lifted r as (hbind (build_desc always (snd kd)) (\<lambda>p. hret (k, p)) h')
        (hbind look (\<lambda>c. if c \<noteq> CHR '':'' then hfail (set_fault XMLRPC_INTERNAL_ERROR
             (''format string does not have '' @ [CHR 0x27] @ '':'' @ [CHR 0x27] @ '' after a '' @ ''structure member key.''))
           else hbind skip (\<lambda>_. hbind get (\<lambda>valueP. hret (k, valueP))))
          (at_state h' (CHR '':'' # desc_format (snd kd) @ r) (desc_args (snd kd) @ as)))"
      by simp
  qed
qed

lemma struct_loop_desc:
  assumes "\<And>kd h r as. kd \<in> set kds \<Longrightarrow> plain_start r \<Longrightarrow>
      length (member_format kd @ r) \<le> length (commas (map member_format kds) @ CHR ''}'' # s) \<Longrightarrow>
      lifted r as (member_new always (fst kd) (build_desc always (snd kd)) h)
        (getStructMember get (at_state h (member_format kd @ r) (member_args kd @ as)))"
    and "length kds < n"
  shows "lifted (CHR ''}'' # s) as
    (each (\<lambda>(key, m). put_new always p key m) (map (\<lambda>kd. (fst kd, build_desc always (snd kd))) kds) h)
    (struct_members_loop stuck n always get (CHR ''}'') p
      (at_state h (commas (map member_format kds) @ CHR ''}'' # s) (concat (map member_args kds) @ as)))"
  using assms
proof (induction kds arbitrary: n h)
  case Nil
  then obtain m where "n = Suc m" by (cases n) auto
  then show ?case by (simp add: lifted_ret)
next
  case (Cons kd kds)
  obtain m where n: "n = Suc m" "length kds < m" using Cons.prems(2) by (cases n) auto
  let ?next = "commas (map member_format kds) @ CHR ''}'' # s" and ?as = "concat (map member_args kds) @ as"
  let ?r = "if kds = [] then ?next else CHR '','' # ?next"
  have r: "plain_start ?r" by (auto simp: plain_start_def)
  have put: "lifted ?next ?as (xmlrpc_struct_set_value_v always p k v h')
      (hbind look (\<lambda>d. hbind (if d = CHR '','' then skip else if d = CHR ''}'' then hret ()
           else hfail (set_fault XMLRPC_INTERNAL_ERROR
             (''format string does not have '' @ [CHR 0x27] @ '','' @ [CHR 0x27] @
              '' or '' @ [CHR 0x27] @ '')'' @ [CHR 0x27] @ '' after '' @ ''a structure member'')))
         (\<lambda>_. on_heap (xmlrpc_struct_set_value_v always p k v))) (at_state h' ?r ?as))" for k v h'
    using lifted_on_heap [of ?next ?as "xmlrpc_struct_set_value_v always p k v" h'] by (cases "kds = []") simp_all
  have item: "lifted ?next ?as (put_new always p (fst kd) (build_desc always (snd kd)) h)
      (hbind (getStructMember get) (\<lambda>(keyP, valueP).
         hfinally (hfinally
           (hbind look (\<lambda>d. hbind (if d = CHR '','' then skip else if d = CHR ''}'' then hret ()
               else hfail (set_fault XMLRPC_INTERNAL_ERROR
                 (''format string does not have '' @ [CHR 0x27] @ '','' @ [CHR 0x27] @
                  '' or '' @ [CHR 0x27] @ '')'' @ [CHR 0x27] @ '' after '' @ ''a structure member'')))
             (\<lambda>_. on_heap (xmlrpc_struct_set_value_v always p keyP valueP))))
           (release_value valueP)) (release_value keyP))
        (at_state h (member_format kd @ ?r) (member_args kd @ ?as)))"
    unfolding put_new_def
    by (rule lifted_bind, rule Cons.prems(1), simp, rule r, simp, simp only: case_prod_beta,
        rule lifted_finally, rule lifted_finally, rule put)
  have "lifted (CHR ''}'' # s) as
      (hbind (put_new always p (fst kd) (build_desc always (snd kd)))
        (\<lambda>_. each (\<lambda>(key, m). put_new always p key m) (map (\<lambda>kd. (fst kd, build_desc always (snd kd))) kds)) h)
      (hbind (look_after_fault (hbind (getStructMember get) (\<lambda>(keyP, valueP).
         hfinally (hfinally
           (hbind look (\<lambda>d. hbind (if d = CHR '','' then skip else if d = CHR ''}'' then hret ()
               else hfail (set_fault XMLRPC_INTERNAL_ERROR
                 (''format string does not have '' @ [CHR 0x27] @ '','' @ [CHR 0x27] @
                  '' or '' @ [CHR 0x27] @ '')'' @ [CHR 0x27] @ '' after '' @ ''a structure member'')))
             (\<lambda>_. on_heap (xmlrpc_struct_set_value_v always p keyP valueP))))
           (release_value valueP)) (release_value keyP))))
        (\<lambda>_. struct_members_loop stuck m always get (CHR ''}'') p) (at_state h (member_format kd @ ?r) (member_args kd @ ?as)))"
  proof (rule lifted_bind, rule lifted_after_fault, rule item, rule Cons.IH [OF _ n(2)])
    fix kd' h r as
    assume kd: "kd' \<in> set kds" "plain_start r" "length (member_format kd' @ r) \<le> length ?next"
    have "length ?next \<le> length (commas (map member_format (kd # kds)) @ CHR ''}'' # s)" by simp
    then show "lifted r as (member_new always (fst kd') (build_desc always (snd kd')) h)
        (getStructMember get (at_state h (member_format kd' @ r) (member_args kd' @ as)))"
      using kd by (intro Cons.prems(1)) (auto intro: le_trans)
  qed
  then show ?case using n(1) by (cases "kds = []") (simp_all del: hbind_hret_left)
qed

lemma hbind_start: "M st = X st' \<Longrightarrow> hbind M k st = hbind X k st'"
  by (simp add: hbind_def)

lemma getValue_desc:
  "desc_ok d \<Longrightarrow> plain_start r \<Longrightarrow> length (desc_format d @ r) \<le> n \<Longrightarrow>
   lifted r as (build_desc always d h) (getValue stuck n always (at_state h (desc_format d @ r) (desc_args d @ as)))"
proof (induction d arbitrary: n r as h)
  case (Leaf l)
  then obtain m where "n = Suc m" by (cases n; cases l) auto
  with Leaf show ?case using getValue_leaf by simp
next
  case (DArray ds)
  obtain m where n: "n = Suc m" using DArray.prems(3) by (cases n) auto
  have len: "length ds \<le> length (concat (map desc_format ds))"
  proof -
    have "1 \<le> length (desc_format d)" for d :: "'a desc" using format_start [of d] by auto
    note one = this
    show ?thesis
    proof (induction ds)
      case (Cons d ds)
      then show ?case using one [of d] by simp
    qed simp
  qed
  obtain a h' where new: "xmlrpc_array_new always h = Some (Inr a, h')" using new_container_always by blast
  have loop: "lifted (CHR '')'' # r) as (each (append_new always a) (map (build_desc always) ds) h')
      (array_items_loop stuck m always (getValue stuck m always) (CHR '')'') a
        (at_state h' (concat (map desc_format ds) @ CHR '')'' # r) (concat (map desc_args ds) @ as)))"
    by (rule array_loop_desc) (use DArray n len in \<open>auto simp: list_all_iff\<close>)
  have "lifted (CHR '')'' # r) as
      (hcleanup (hbind (each (append_new always a) (map (build_desc always) ds)) (\<lambda>_. hret a)) (xmlrpc_DECREF a) h')
      (hcleanup (hbind (array_items_loop stuck m always (getValue stuck m always) (CHR '')'') a) (\<lambda>_. hret a)) (release_value a)
        (at_state h' (concat (map desc_format ds) @ CHR '')'' # r) (concat (map desc_args ds) @ as)))"
    by (rule lifted_cleanup, rule lifted_bind, rule loop, rule lifted_ret)
  then have "lifted r as (hbind (hcleanup (hbind (each (append_new always a) (map (build_desc always) ds)) (\<lambda>_. hret a)) (xmlrpc_DECREF a)) hret h')
      (hbind (hcleanup (hbind (array_items_loop stuck m always (getValue stuck m always) (CHR '')'') a) (\<lambda>_. hret a)) (release_value a))
        (\<lambda>p. hbind skip (\<lambda>_. hret p)) (at_state h' (concat (map desc_format ds) @ CHR '')'' # r) (concat (map desc_args ds) @ as)))"
    by (rule lifted_bind) (simp add: lifted_ret)
  moreover have "getArray stuck m always (getValue stuck m always) (CHR '')'')
        (at_state h (concat (map desc_format ds) @ CHR '')'' # r) (concat (map desc_args ds) @ as)) =
      hcleanup (hbind (array_items_loop stuck m always (getValue stuck m always) (CHR '')'') a) (\<lambda>_. hret a)) (release_value a)
        (at_state h' (concat (map desc_format ds) @ CHR '')'' # r) (concat (map desc_args ds) @ as))"
    using new by (simp add: getArray_def on_heap_def)
  then have "hbind (getArray stuck m always (getValue stuck m always) (CHR '')'')) K
        (at_state h (concat (map desc_format ds) @ CHR '')'' # r) (concat (map desc_args ds) @ as)) =
      hbind (hcleanup (hbind (array_items_loop stuck m always (getValue stuck m always) (CHR '')'') a) (\<lambda>_. hret a)) (release_value a)) K
        (at_state h' (concat (map desc_format ds) @ CHR '')'' # r) (concat (map desc_args ds) @ as))"
    for K :: "nat \<Rightarrow> (nat, 'a) build_op" by (rule hbind_start)
  moreover have "build_desc always (DArray ds) h =
      hcleanup (hbind (each (append_new always a) (map (build_desc always) ds)) (\<lambda>_. hret a)) (xmlrpc_DECREF a) h'"
    using new by (simp add: hbind_def)
  ultimately show ?case using n by (simp add: hbind_hret value_of_format_def)
next
  case (DStruct kds)
  obtain m where n: "n = Suc m" using DStruct.prems(3) by (cases n) auto
  have len: "length kds \<le> length (commas (map member_format kds))"
  proof (induction kds)
    case (Cons kd kds)
    then show ?case by (cases kds) simp_all
  qed simp
  obtain a h' where new: "xmlrpc_struct_new always h = Some (Inr a, h')" using new_container_always by blast
  let ?puts = "each (\<lambda>(key, m). put_new always a key m) (map (\<lambda>kd. (fst kd, build_desc always (snd kd))) kds)"
  let ?st = "at_state h' (commas (map member_format kds) @ CHR ''}'' # r) (concat (map member_args kds) @ as)"
  have loop: "lifted (CHR ''}'' # r) as (?puts h') (struct_members_loop stuck m always (getValue stuck m always) (CHR ''}'') a ?st)"
  proof (rule struct_loop_desc)
    show "length kds < m" using DStruct.prems(3) n len by simp
    fix kd h q bs
    assume kd: "kd \<in> set kds" "plain_start q"
      "length (member_format kd @ q) \<le> length (commas (map member_format kds) @ CHR ''}'' # r)"
    then obtain k where k: "m = Suc k" using DStruct.prems(3) n by (cases m) auto
    show "lifted q bs (member_new always (fst kd) (build_desc always (snd kd)) h)
        (getStructMember (getValue stuck m always) (at_state h (member_format kd @ q) (member_args kd @ bs)))"
    proof (rule struct_member_desc)
      show "lifted q bs (new_scalar (xmlrpc_string_new_lp always (c_str (fst kd))) h)
          (getValue stuck m always (at_state h (CHR ''s'' # q) (VaString (fst kd) # bs)))" if "plain_start q" for h q bs
        using getValue_leaf [of "LString (fst kd)" q bs always h stuck k] that k by simp
      show "lifted q bs (build_desc always (snd kd) h)
          (getValue stuck m always (at_state h (desc_format (snd kd) @ q) (desc_args (snd kd) @ bs)))" for h
        by (rule DStruct.IH [of kd "snd kd"]) (use kd DStruct.prems n in \<open>auto simp: list_all_iff snds.simps\<close>)
    qed
  qed
  have "lifted (CHR ''}'' # r) as (hcleanup (hbind ?puts (\<lambda>_. hret a)) (xmlrpc_DECREF a) h')
      (hcleanup (hbind (struct_members_loop stuck m always (getValue stuck m always) (CHR ''}'') a) (\<lambda>_. hret a)) (release_value a) ?st)"
    by (rule lifted_cleanup, rule lifted_bind, rule loop, rule lifted_ret)
  then have "lifted r as (hbind (hcleanup (hbind ?puts (\<lambda>_. hret a)) (xmlrpc_DECREF a)) hret h')
      (hbind (hcleanup (hbind (struct_members_loop stuck m always (getValue stuck m always) (CHR ''}'') a) (\<lambda>_. hret a)) (release_value a))
        (\<lambda>p. hbind skip (\<lambda>_. hret p)) ?st)"
    by (rule lifted_bind) (simp add: lifted_ret)
  moreover have "getStruct stuck m always (getValue stuck m always) (CHR ''}'')
        (at_state h (commas (map member_format kds) @ CHR ''}'' # r) (concat (map member_args kds) @ as)) =
      hcleanup (hbind (struct_members_loop stuck m always (getValue stuck m always) (CHR ''}'') a) (\<lambda>_. hret a)) (release_value a) ?st"
    using new by (simp add: getStruct_def on_heap_def hbind_def)
  then have "hbind (getStruct stuck m always (getValue stuck m always) (CHR ''}'')) K
        (at_state h (commas (map member_format kds) @ CHR ''}'' # r) (concat (map member_args kds) @ as)) =
      hbind (hcleanup (hbind (struct_members_loop stuck m always (getValue stuck m always) (CHR ''}'') a) (\<lambda>_. hret a)) (release_value a)) K ?st"
    for K :: "nat \<Rightarrow> (nat, 'a) build_op" by (rule hbind_start)
  moreover have "build_desc always (DStruct kds) h = hcleanup (hbind ?puts (\<lambda>_. hret a)) (xmlrpc_DECREF a) h'"
    using new by (simp add: hbind_def)
  ultimately show ?case using n by (simp add: hbind_hret value_of_format_def)
qed

section \<open>Building against the description\<close>

lemma leaf_scalar: "leaf_new mok l = Inr v \<Longrightarrow> scalar v"
  using simple_new_scalar by (cases l) (auto simp: bindE_Inr_conv)

lemma sim_new_scalar:
  assumes "heap_ok h {} E" "\<And>v. r = Inr v \<Longrightarrow> scalar v"
  shows "simulates False (stays E h) (made E h) (new_scalar r h) (Some r)"
proof -
  have "new_scalar r = hbind (hoption (Some r)) (\<lambda>v. new_cell (Scalar v))"
    by (simp add: new_scalar_def hbind_def hresult_def hoption_def fun_eq_iff)
  then show ?thesis
    using sim_scalar [OF assms(1), of "Some r" "Some r" False] assms(2) by (simp add: agrees_option_def agrees_def)
qed

lemma sim_append_new:
  assumes ok: "heap_ok h0 {} E" and fits: "SIZEOF_VALUE_PTR * (n + 1) \<le> BLOCK_ALLOC_MAX"
    and fill: "filling_array E h0 n h vs"
    and new: "\<And>h E. heap_ok h {} E \<Longrightarrow> simulates False (stays E h) (made E h) (m h) spec"
  shows "simulates False (stays (add_mset (fresh h0) E) h0) (\<lambda>h' _ vs'. filling_array E h0 (Suc n) h' vs')
    (append_new always (fresh h0) m h) (bindO spec (\<lambda>v. Some (Inr (vs @ [v]))))"
  unfolding append_new_def
proof (rule sim_bind)
  have h: "heap_ok h {} (add_mset (fresh h0) E)" "extends h0 h" using fill by (simp_all add: filling_array_def)
  show "simulates False (stays (add_mset (fresh h0) E) h0) (made (add_mset (fresh h0) E) h) (m h) spec"
    by (rule sim_mono [OF new [OF h(1)]]) (use extends_trans [OF h(2)] in auto)
qed (rule sim_array_item [OF ok _ fits fill], simp_all)

lemma sim_member_new:
  assumes ok: "heap_ok h {} E"
    and new: "\<And>h E. heap_ok h {} E \<Longrightarrow> simulates False (stays E h) (made E h) (m h) spec"
  shows "simulates False (stays E h) (member_made E h) (member_new always key m h)
    (bindO (Some (text_value (c_str key))) (\<lambda>k. bindO spec (\<lambda>v. Some (Inr (k, v)))))"
proof -
  have made_key: "simulates False (stays E h) (\<lambda>h' p k. made E h h' p (XString k))
      (new_scalar (xmlrpc_string_new_lp always (c_str key)) h) (Some (text_value (c_str key)))"
    using sim_text [OF ok, of False always "c_str key"]
    by (cases "text_value (c_str key)") (auto simp: simulates_def split: option.splits sum.splits)
  show ?thesis
    unfolding member_new_def
  proof (rule sim_bind, rule made_key)
    fix k h1 s assume m1: "made E h h1 k (XString s)"
    note k = madeD [OF ok m1]
    have "simulates False (stays (add_mset k E) h) (made (add_mset k E) h1) (m h1) spec"
      by (rule sim_mono [OF new [OF k(2)]]) (use extends_trans [OF k(3)] in auto)
    then have "simulates False (stays (add_mset k E) h) (member_made E h) (hbind m (\<lambda>p. hret (k, p)) h1)
        (bindO spec (\<lambda>v. Some (Inr (s, v))))"
      by (rule sim_bind) (intro sim_ret made_member [OF ok m1])
    then show "simulates False (stays E h) (member_made E h)
        (hcleanup (hbind m (\<lambda>p. hret (k, p))) (xmlrpc_DECREF k) h1) (bindO spec (\<lambda>v. Some (Inr (s, v))))"
      by (rule sim_cleanup) (use give_up [OF ok] k(1) in \<open>metis order_refl\<close>)
  qed
qed

lemma sim_put_new:
  assumes ok: "heap_ok h0 {} E" and fits: "SIZEOF_STRUCT_MEMBER * (n + 1) \<le> BLOCK_ALLOC_MAX"
    and fill: "filling_struct E h0 n h kvs"
    and new: "\<And>h E. heap_ok h {} E \<Longrightarrow> simulates False (stays E h) (made E h) (m h) spec"
  shows "simulates False (stays (add_mset (fresh h0) E) h0) (\<lambda>h' _ kvs'. filling_struct E h0 (Suc n) h' kvs')
    (put_new always (fresh h0) key m h)
    (bindO (Some (text_value (c_str key))) (\<lambda>k. bindO spec (\<lambda>v. Some (Inr (put_member k v kvs)))))"
proof -
  let ?s = "fresh h0" and ?E = "add_mset (fresh h0) E"
  have h: "heap_ok h {} ?E" "extends h0 h" using fill by (simp_all add: filling_struct_def)
  have member: "simulates False (stays ?E h0) (member_made ?E h) (member_new always key m h)
      (bindO (Some (text_value (c_str key))) (\<lambda>k. bindO spec (\<lambda>v. Some (Inr (k, v)))))"
    by (rule sim_mono [OF sim_member_new [OF h(1) new]]) (use extends_trans [OF h(2)] in auto)
  have "simulates False (stays ?E h0) (\<lambda>h' _ kvs'. filling_struct E h0 (Suc n) h' kvs')
      (hfinally (hfinally (xmlrpc_struct_set_value_v always ?s k p) (xmlrpc_DECREF p)) (xmlrpc_DECREF k) h1)
      (Some (Inr (put_member x v kvs)))"
    if "member_made ?E h h1 (k, p) (x, v)" for k p h1 x v
    by (rule sim_struct_put [OF ok fits fill that])
  then have "simulates False (stays ?E h0) (\<lambda>h' _ kvs'. filling_struct E h0 (Suc n) h' kvs')
      (put_new always ?s key m h)
      (bindO (bindO (Some (text_value (c_str key))) (\<lambda>k. bindO spec (\<lambda>v. Some (Inr (k, v)))))
        (\<lambda>(k, v). Some (Inr (put_member k v kvs))))"
    unfolding put_new_def by - (rule sim_bind, rule member, auto)
  then show ?thesis by (simp add: bindO_assoc)
qed

lemma foldO_map: "foldO g s (map f xs) = foldO (\<lambda>s x. g s (f x)) s xs"
  by (induction xs arbitrary: s) simp_all

lemma each_map: "each g (map f xs) = each (\<lambda>x. g (f x)) xs"
  by (induction xs) simp_all

lemma sim_build_desc:
  "desc_ok d \<Longrightarrow> heap_ok h {} E \<Longrightarrow> simulates False (stays E h) (made E h) (build_desc always d h) (desc_value d)"
proof (induction d arbitrary: h E)
  case (Leaf l)
  then show ?case using sim_new_scalar [OF Leaf(2), of "leaf_new always l"] leaf_scalar [of always l] by simp
next
  case (DArray ds)
  show ?case
    unfolding build_desc.simps xmlrpc_array_new_def [abs_def]
  proof (rule sim_container [OF DArray.prems(2), where mk = ArrayBody])
    show "body_ok h (ArrayBody b) \<and> body_refs (ArrayBody b) = []"
      if "grown_block SIZEOF_VALUE_PTR b" "block_data SIZEOF_VALUE_PTR b = []" for b
      using that by (simp add: grown_block_def)
    fix b h1
    assume b: "grown_block SIZEOF_VALUE_PTR b" "block_data SIZEOF_VALUE_PTR b = []"
      and h1: "heap_ok h1 {} (add_mset (fresh h) E)" "extends h h1" "body_at h1 (fresh h) = Some (ArrayBody b)"
    let ?a = "fresh h"
    have start: "filling_array E h 0 h1 []" using h1 b by (auto simp: filling_array_def array_at_def)
    have "simulates False (stays (add_mset ?a E) h) (\<lambda>h' _ vs. filling_array E h (0 + length (map (build_desc always) ds)) h' vs)
        (each (append_new always ?a) (map (build_desc always) ds) h1)
        (foldO (\<lambda>vs r. bindO r (\<lambda>v. Some (Inr (vs @ [v])))) [] (map desc_value ds))"
      unfolding foldO_map each_map length_map
    proof (rule sim_each [where I = "filling_array E h"])
      fix h' n vs d assume d: "d \<in> set ds" "n < 0 + length ds" "filling_array E h n h' vs"
      then have "SIZEOF_VALUE_PTR * (n + 1) \<le> BLOCK_ALLOC_MAX" "desc_ok d"
        using DArray.prems(1) by (auto simp: list_all_iff)
      then show "simulates False (stays (add_mset ?a E) h) (\<lambda>h' _ vs'. filling_array E h (Suc n) h' vs')
          (append_new always ?a (build_desc always d) h') (bindO (desc_value d) (\<lambda>v. Some (Inr (vs @ [v]))))"
        using DArray.IH [OF d(1)] by (intro sim_append_new [OF DArray.prems(2) _ d(3)])
    qed (rule start)
    then have "simulates False (stays (add_mset ?a E) h) (\<lambda>h' _ v. made E h h' ?a v)
        (hbind (each (append_new always ?a) (map (build_desc always) ds)) (\<lambda>_. hret ()) h1) (desc_value (DArray ds))"
      unfolding desc_value.simps
      by (rule sim_bind) (auto simp: filling_array_def made_def intro!: sim_ret array_at_repr)
    then show "simulates False (stays (add_mset ?a E) h) (\<lambda>h' _ v. made E h h' ?a v)
        (each (append_new always ?a) (map (build_desc always) ds) h1) (desc_value (DArray ds))"
      by (simp add: hbind_hret)
  qed simp_all
next
  case (DStruct kds)
  show ?case
    unfolding build_desc.simps xmlrpc_struct_new_def [abs_def]
  proof (rule sim_container [OF DStruct.prems(2), where mk = StructBody])
    show "body_ok h (StructBody b) \<and> body_refs (StructBody b) = []"
      if "grown_block SIZEOF_STRUCT_MEMBER b" "block_data SIZEOF_STRUCT_MEMBER b = []" for b
      using that by (simp add: grown_block_def)
    fix b h1
    assume b: "grown_block SIZEOF_STRUCT_MEMBER b" "block_data SIZEOF_STRUCT_MEMBER b = []"
      and h1: "heap_ok h1 {} (add_mset (fresh h) E)" "extends h h1" "body_at h1 (fresh h) = Some (StructBody b)"
    let ?s = "fresh h" and ?news = "map (\<lambda>kd. (fst kd, build_desc always (snd kd))) kds"
    have start: "filling_struct E h 0 h1 []" using h1 b by (auto simp: filling_struct_def struct_at_def)
    have "simulates False (stays (add_mset ?s E) h) (\<lambda>h' _ kvs. filling_struct E h (0 + length kds) h' kvs)
        (each (\<lambda>(key, m). put_new always ?s key m) ?news h1)
        (foldO (\<lambda>kvs (key, r). bindO (Some (text_value (c_str key))) (\<lambda>k.
           bindO r (\<lambda>v. Some (Inr (put_member k v kvs))))) [] (map (\<lambda>kd. (fst kd, desc_value (snd kd))) kds))"
      unfolding foldO_map each_map prod.case
    proof (rule sim_each [where I = "filling_struct E h"])
      fix h' n kvs kd assume kd: "kd \<in> set kds" "n < 0 + length kds" "filling_struct E h n h' kvs"
      then have "SIZEOF_STRUCT_MEMBER * (n + 1) \<le> BLOCK_ALLOC_MAX" "desc_ok (snd kd)"
        using DStruct.prems(1) by (auto simp: list_all_iff)
      then show "simulates False (stays (add_mset ?s E) h) (\<lambda>h' _ kvs'. filling_struct E h (Suc n) h' kvs')
          (put_new always ?s (fst kd) (build_desc always (snd kd)) h')
          (bindO (Some (text_value (c_str (fst kd)))) (\<lambda>k. bindO (desc_value (snd kd)) (\<lambda>v. Some (Inr (put_member k v kvs)))))"
        using DStruct.IH [OF kd(1)] by (intro sim_put_new [OF DStruct.prems(2) _ kd(3)]) (auto simp: snds.simps)
    qed (rule start)
    then have "simulates False (stays (add_mset ?s E) h) (\<lambda>h' _ v. made E h h' ?s v)
        (hbind (each (\<lambda>(key, m). put_new always ?s key m) ?news) (\<lambda>_. hret ()) h1) (desc_value (DStruct kds))"
      unfolding desc_value.simps
      by (rule sim_bind) (auto simp: filling_struct_def made_def intro!: sim_ret struct_at_repr)
    then show "simulates False (stays (add_mset ?s E) h) (\<lambda>h' _ v. made E h h' ?s v)
        (each (\<lambda>(key, m). put_new always ?s key m) ?news h1) (desc_value (DStruct kds))"
      by (simp add: hbind_hret)
  qed simp_all
qed

lemma sim_build_value:
  assumes "desc_ok d" "heap_ok h {} E"
  shows "simulates False (stays E h) (made E h)
    (xmlrpc_build_value always (desc_format d) (desc_args d) h) (desc_value d)"
proof -
  let ?st = "at_state h (desc_format d @ [NUL]) (desc_args d)"
  have "desc_format d \<noteq> []" using format_start [of d] by auto
  moreover have lift: "lifted [NUL] [] (build_desc always d h) (getValue no_result (length (desc_format d) + 2) always ?st)"
    using getValue_desc [OF assms(1), of "[NUL]" "length (desc_format d) + 2" "[]" h no_result] by (simp add: plain_start_def)
  ultimately have "xmlrpc_build_value always (desc_format d) (desc_args d) h = build_desc always d h"
  proof (cases "build_desc always d h")
    case None
    then show ?thesis using lift \<open>desc_format d \<noteq> []\<close>
      by (simp add: xmlrpc_build_value_def xmlrpc_build_value_va_def lifted_def del: getValue.simps)
  next
    case (Some out)
    obtain r h' where out: "out = (r, h')" by force
    show ?thesis using lift \<open>desc_format d \<noteq> []\<close> Some out
      by (cases r) (auto simp: xmlrpc_build_value_def xmlrpc_build_value_va_def lifted_def simp del: getValue.simps)
  qed
  then show ?thesis using sim_build_desc [OF assms] by simp
qed

section \<open>Enough fuel\<close>

text \<open>Steps that never go back in the format string.\<close>

definition onward :: "('a, 'd) build_op \<Rightarrow> bool" where
  "onward m \<longleftrightarrow> (\<forall>st r st'. m st = Some (r, st') \<longrightarrow> length (format st') \<le> length (format st))"

lemma onward_bind: "onward m \<Longrightarrow> (\<And>x. onward (k x)) \<Longrightarrow> onward (hbind m k)"
  unfolding onward_def hbind_def by (fastforce split: option.splits sum.splits intro: le_trans)

lemma onward_basic:
  "onward look" "onward skip" "onward next_arg" "onward (hret x)" "onward (hfail f)" "onward (on_heap a)" "onward undefined_behaviour"
  "onward (fuel_out no_result)"
  by (auto simp: fuel_out_def no_result_def onward_def look_def skip_def next_arg_def hret_def hfail_def on_heap_def undefined_behaviour_def
      split: list.splits)

lemma onward_if: "(b \<Longrightarrow> onward m) \<Longrightarrow> (\<not> b \<Longrightarrow> onward m') \<Longrightarrow> onward (if b then m else m')"
  by simp

lemma onward_fin:
  "onward m \<Longrightarrow> onward (hcleanup m (release_value p))" "onward m \<Longrightarrow> onward (hfinally m (release_value p))"
  "onward m \<Longrightarrow> onward (look_after_fault m)"
  by (fastforce simp: onward_def hcleanup_def hfinally_def release_value_def with_heap_def look_after_fault_def
      split: option.splits sum.splits if_splits)+

lemmas onward_intros = onward_bind onward_basic onward_if onward_fin

lemma onward_array_loop: "onward get \<Longrightarrow> onward (array_items_loop no_result n mok get c a)"
  by (induction n) (auto intro!: onward_intros)

lemma onward_struct_loop: "onward get \<Longrightarrow> onward (struct_members_loop no_result n mok get c a)"
  by (induction n) (auto intro!: onward_intros simp: getStructMember_def split: prod.splits)

lemma onward_containers:
  assumes "onward get"
  shows "onward (getArray no_result n mok get c)" "onward (getStruct no_result n mok get c)"
proof -
  have "onward (\<lambda>st. if q st then m st else None)" if "onward m" for m :: "('a, 'b) build_op" and q
    using that by (simp add: onward_def)
  have "onward (hbind (on_heap (xmlrpc_array_new mok)) (\<lambda>a. hcleanup (hbind (array_items_loop no_result n mok get c a) (\<lambda>_. hret a)) (release_value a)))"
    using onward_array_loop [OF assms] by (auto intro!: onward_intros)
  then show "onward (getArray no_result n mok get c)"
    by (force simp: onward_def getArray_def hbind_def split: option.splits sum.splits)
  show "onward (getStruct no_result n mok get c)"
    unfolding getStruct_def using onward_struct_loop [OF assms] by (auto intro!: onward_intros)
qed

lemma onward_leaves: "onward (getString mok)" "onward (getWideString mok)" "onward (getBase64 mok)"
  unfolding getString_def getWideString_def getBase64_def
  by (auto intro!: onward_intros split: va_arg.splits)

lemma onward_value_of_format: "onward get \<Longrightarrow> onward (value_of_format no_result n mok get c)"
  unfolding value_of_format_def
  by (intro onward_intros onward_containers onward_leaves; assumption?; simp split: va_arg.split option.split;
      intro allI impI conjI onward_intros)

lemma getValue_onward: "onward (getValue no_result n mok)"
  by (induction n) (auto intro!: onward_bind onward_basic onward_value_of_format)

definition reading :: "('a, 'd) build_op \<Rightarrow> bool" where
  "reading m \<longleftrightarrow> (\<forall>st r st'. m st = Some (r, st') \<longrightarrow> length (format st') < length (format st))"

lemma getValue_reading: "reading (getValue no_result n mok)"
  unfolding reading_def
proof (intro allI impI)
  fix st r st' assume step: "getValue no_result n mok st = Some (r, st')"
  then obtain m where n: "n = Suc m" by (cases n) (auto simp: fuel_out_def no_result_def)
  then obtain c w where c: "format st = c # w" using step by (cases "format st") (auto simp: hbind_def look_def)
  then have "value_of_format no_result m mok (getValue no_result m mok) c (st\<lparr>format := w\<rparr>) = Some (r, st')"
    using step n by (simp add: hbind_def look_def skip_def)
  then have "length (format st') \<le> length w"
    using onward_value_of_format [OF getValue_onward] unfolding onward_def by fastforce
  with c show "length (format st') < length (format st)" by simp
qed

definition same_below :: "nat \<Rightarrow> ('a, 'd) build_op \<Rightarrow> ('a, 'd) build_op \<Rightarrow> bool" where
  "same_below k m m' \<longleftrightarrow> (\<forall>st. length (format st) \<le> k \<longrightarrow> m st = m' st)"

lemma same_below_refl: "same_below k m m"
  by (simp add: same_below_def)

lemma same_below_bind:
  fixes m :: "('a, 'd) build_op"
  assumes "same_below k m m'" "onward m" "\<And>x. same_below k (K x) (K' x)"
  shows "same_below k (hbind m K) (hbind m' K')"
  unfolding same_below_def
proof (intro allI impI)
  fix st :: "'d build_state" assume st: "length (format st) \<le> k"
  then have m: "m st = m' st" using assms(1) by (simp add: same_below_def)
  show "hbind m K st = hbind m' K' st"
  proof (cases "m st")
    case None
    then show ?thesis using m by (simp add: hbind_def)
  next
    case (Some out)
    obtain r st' where out: "out = (r, st')" by force
    then have "length (format st') \<le> k" using assms(2) Some st unfolding onward_def by (metis le_trans)
    then have "K x st' = K' x st'" for x using assms(3) by (simp add: same_below_def)
    then show ?thesis using Some out m by (cases r) (auto simp: hbind_def)
  qed
qed

lemma same_below_fin:
  "same_below k m m' \<Longrightarrow> same_below k (hcleanup m u) (hcleanup m' u)"
  "same_below k m m' \<Longrightarrow> same_below k (hfinally m u) (hfinally m' u)"
  "same_below k m m' \<Longrightarrow> same_below k (look_after_fault m) (look_after_fault m')"
  by (simp_all add: same_below_def hcleanup_def hfinally_def look_after_fault_def)

text \<open>A loop whose rounds all read something.\<close>

lemma reading_bind: "reading m \<Longrightarrow> (\<And>x. onward (k x)) \<Longrightarrow> reading (hbind m k)"
  unfolding reading_def onward_def hbind_def
  by (fastforce split: option.splits sum.splits intro: le_less_trans)

lemma reading_onward: "reading m \<Longrightarrow> onward m"
  by (auto simp: reading_def onward_def intro: less_imp_le)

lemma reading_after_fault: "reading m \<Longrightarrow> reading (look_after_fault m)"
  by (fastforce simp: reading_def look_after_fault_def split: option.splits sum.splits if_splits)

lemma loop_fuel:
  fixes body :: "nat \<Rightarrow> ('a, 'd) build_op" and L :: "nat \<Rightarrow> nat \<Rightarrow> ('b, 'd) build_op"
  assumes L: "\<And>n i. L (Suc n) i = hbind look (\<lambda>ch. if stop ch then fin ch else hbind (body i) (\<lambda>_. L n i))"
    and body: "same_below k (body 0) (body 1)" "reading (body 0)" and n: "k < n" "k < n'"
  shows "same_below k (L n 0) (L n' 1)"
  using body n
proof (induction n arbitrary: n' k)
  case 0
  then show ?case by simp
next
  case (Suc n)
  show ?case
  proof (cases n')
    case 0
    then show ?thesis using Suc.prems(4) by simp
  next
    case n': (Suc m)
    have "same_below k (hbind (body 0) (\<lambda>_. L n 0)) (hbind (body 1) (\<lambda>_. L m 1))"
      unfolding same_below_def
    proof (intro allI impI)
      fix st :: "'d build_state" assume st: "length (format st) \<le> k"
      have eq: "body 0 st = body 1 st" using Suc.prems(1) st by (simp add: same_below_def)
      have "L n 0 st' = L m 1 st'" if "body 0 st = Some (Inr x, st')" for x st'
      proof -
        have less: "length (format st') < k" using Suc.prems(2) that st unfolding reading_def by (metis less_le_trans)
        have "same_below (k - 1) (body 0) (body 1)" using Suc.prems(1) by (simp add: same_below_def)
        have "k - 1 < n" "k - 1 < m" using less Suc.prems(3,4) n' by linarith+
        from Suc.IH [OF \<open>same_below (k - 1) (body 0) (body 1)\<close> Suc.prems(2) this]
        have "same_below (k - 1) (L n 0) (L m 1)" .
        then show ?thesis using less by (simp add: same_below_def)
      qed
      then show "hbind (body 0) (\<lambda>_. L n 0) st = hbind (body 1) (\<lambda>_. L m 1) st"
        using eq by (auto simp: hbind_def split: option.split sum.split)
    qed
    then show ?thesis unfolding n' L
      by (intro same_below_bind same_below_refl onward_basic) (simp add: same_below_refl)
  qed
qed

lemma array_loop_fuel:
  assumes "same_below k get get'" "reading get" "k < n" "k < n'"
  shows "same_below k (array_items_loop no_result n mok get c a) (array_items_loop stuck n' mok get' c a)"
proof -
  let ?get = "\<lambda>i :: nat. if i = 0 then get else get'" and ?stk = "\<lambda>i :: nat. if i = 0 then no_result else stuck"
  let ?append = "\<lambda>itemP. hfinally (on_heap (xmlrpc_array_append_item mok a itemP)) (release_value itemP)"
  have "same_below k (array_items_loop (?stk 0) n mok (?get 0) c a) (array_items_loop (?stk 1) n' mok (?get 1) c a)"
  proof (rule loop_fuel [where L = "\<lambda>n i. array_items_loop (?stk i) n mok (?get i) c a" and stop = "\<lambda>ch. ch = c \<or> ch = NUL"
        and fin = "\<lambda>ch. if ch = c then hret () else hfail (set_fault XMLRPC_INTERNAL_ERROR
          (''format string ended before closing '' @ [CHR 0x27] @ '')'' @ [CHR 0x27] @ ''.''))"
        and body = "\<lambda>i. look_after_fault (hbind (?get i) ?append)"])
    show "same_below k (look_after_fault (hbind (?get 0) ?append)) (look_after_fault (hbind (?get 1) ?append))"
      using assms(1,2) by (auto intro!: same_below_fin same_below_bind same_below_refl reading_onward)
    show "reading (look_after_fault (hbind (?get 0) ?append))"
      using assms(2) by (auto intro!: reading_after_fault reading_bind onward_fin onward_basic)
  qed (use assms(3,4) in \<open>auto intro!: arg_cong [where f = "hbind look"]\<close>)
  then show ?thesis by simp
qed

lemma reading_member: "reading get \<Longrightarrow> reading (getStructMember get)"
  unfolding getStructMember_def
  by (intro reading_bind onward_fin onward_intros allI) (auto intro: reading_onward)

lemma same_below_member: "same_below k get get' \<Longrightarrow> reading get \<Longrightarrow> same_below k (getStructMember get) (getStructMember get')"
  unfolding getStructMember_def
  by (auto intro!: same_below_bind same_below_fin same_below_refl onward_basic reading_onward)

lemma struct_loop_fuel:
  assumes "same_below k get get'" "reading get" "k < n" "k < n'"
  shows "same_below k (struct_members_loop no_result n mok get c a) (struct_members_loop stuck n' mok get' c a)"
proof -
  let ?get = "\<lambda>i :: nat. if i = 0 then get else get'" and ?stk = "\<lambda>i :: nat. if i = 0 then no_result else stuck"
  let ?put = "\<lambda>(keyP, valueP). hfinally (hfinally (hbind look (\<lambda>d.
        hbind (if d = CHR '','' then skip else if d = c then hret ()
               else hfail (set_fault XMLRPC_INTERNAL_ERROR
                 (''format string does not have '' @ [CHR 0x27] @ '','' @ [CHR 0x27] @
                  '' or '' @ [CHR 0x27] @ '')'' @ [CHR 0x27] @ '' after '' @ ''a structure member'')))
          (\<lambda>_. on_heap (xmlrpc_struct_set_value_v mok a keyP valueP)))) (release_value valueP)) (release_value keyP)"
  have put: "onward (?put kv)" for kv
    by (cases kv) (auto intro!: onward_intros)
  have "same_below k (struct_members_loop (?stk 0) n mok (?get 0) c a) (struct_members_loop (?stk 1) n' mok (?get 1) c a)"
  proof (rule loop_fuel [where L = "\<lambda>n i. struct_members_loop (?stk i) n mok (?get i) c a" and stop = "\<lambda>ch. ch = c"
        and fin = "\<lambda>ch. hret ()" and body = "\<lambda>i. look_after_fault (hbind (getStructMember (?get i)) ?put)"])
    show "same_below k (look_after_fault (hbind (getStructMember (?get 0)) ?put)) (look_after_fault (hbind (getStructMember (?get 1)) ?put))"
      using assms(1,2) by (auto intro!: same_below_fin same_below_bind same_below_refl same_below_member reading_onward reading_member)
    show "reading (look_after_fault (hbind (getStructMember (?get 0)) ?put))"
      using assms(2) put by (intro reading_after_fault reading_bind reading_member) simp_all
  qed (use assms(3,4) in \<open>auto intro!: arg_cong [where f = "hbind look"]\<close>)
  then show ?thesis by simp
qed

lemma array_fuel:
  assumes "same_below k get get'" "reading get" "k < n" "k < n'"
  shows "same_below k (getArray no_result n mok get c) (getArray stuck n' mok get' c)"
  unfolding same_below_def
proof (intro allI impI)
  fix st :: "'a build_state" assume st: "length (format st) \<le> k"
  have "same_below k (hcleanup (hbind (array_items_loop no_result n mok get c a) (\<lambda>_. hret a)) (release_value a))
      (hcleanup (hbind (array_items_loop stuck n' mok get' c a) (\<lambda>_. hret a)) (release_value a))" for a
    using array_loop_fuel [OF assms] onward_array_loop [OF reading_onward [OF assms(2)]]
    by (intro same_below_fin same_below_bind same_below_refl) auto
  moreover have "length (format st') \<le> k" if "on_heap (xmlrpc_array_new mok) st = Some (r, st')" for r st'
    using that st by (auto simp: on_heap_def)
  ultimately show "getArray no_result n mok get c st = getArray stuck n' mok get' c st"
    unfolding getArray_def same_below_def by (fastforce split: option.split sum.split)
qed

lemma struct_fuel:
  assumes "same_below k get get'" "reading get" "k < n" "k < n'"
  shows "same_below k (getStruct no_result n mok get c) (getStruct stuck n' mok get' c)"
  unfolding getStruct_def
  using struct_loop_fuel [OF assms] onward_struct_loop [OF reading_onward [OF assms(2)]]
  by (intro same_below_bind same_below_fin same_below_refl onward_basic) auto

lemma value_of_format_fuel:
  assumes "same_below k get get'" "reading get" "k < n" "k < n'"
  shows "same_below k (value_of_format no_result n mok get c) (value_of_format stuck n' mok get' c)"
proof -
  consider "c = CHR ''(''" | "c = CHR ''{''" | "c \<noteq> CHR ''('' \<and> c \<noteq> CHR ''{''" by blast
  then show ?thesis
  proof cases
    case 1
    have "value_of_format stuck n mok get c = hbind (getArray stuck n mok get (CHR '')'')) (\<lambda>p. hbind skip (\<lambda>_. hret p))"
      for stuck n and get :: "(nat, 'a) build_op"
      unfolding value_of_format_def 1 by simp
    then show ?thesis
      using array_fuel [OF assms] onward_containers(1) [OF reading_onward [OF assms(2)]]
      by (simp add: same_below_bind same_below_refl)
  next
    case 2
    have "value_of_format stuck n mok get c = hbind (getStruct stuck n mok get (CHR ''}'')) (\<lambda>p. hbind skip (\<lambda>_. hret p))"
      for stuck n and get :: "(nat, 'a) build_op"
      unfolding value_of_format_def 2 by simp
    then show ?thesis
      using struct_fuel [OF assms] onward_containers(2) [OF reading_onward [OF assms(2)]]
      by (simp add: same_below_bind same_below_refl)
  next
    case 3
    then have "value_of_format no_result n mok get c = value_of_format stuck n' mok get' c"
      unfolding value_of_format_def by simp
    then show ?thesis by (simp add: same_below_refl)
  qed
qed

lemma getValue_fuel: "k < n \<Longrightarrow> k < n' \<Longrightarrow> same_below k (getValue no_result n mok) (getValue stuck n' mok)"
proof (induction k arbitrary: n n')
  case 0
  then obtain m m' where "n = Suc m" "n' = Suc m'" by (metis less_imp_Suc_add)
  then show ?case by (auto simp: same_below_def hbind_def look_def)
next
  case (Suc k)
  then obtain m m' where n: "n = Suc m" "n' = Suc m'" and k: "k < m" "k < m'"
    by (metis Suc_lessE)
  note same = value_of_format_fuel [OF Suc.IH [OF k] getValue_reading k]
  show ?case
    unfolding same_below_def
  proof (intro allI impI)
    fix st :: "'a build_state" assume st: "length (format st) \<le> Suc k"
    show "getValue no_result n mok st = getValue stuck n' mok st"
    proof (cases "format st")
      case Nil
      then show ?thesis by (simp add: n hbind_def look_def)
    next
      case (Cons c w)
      then have "length (format (st\<lparr>format := w\<rparr>)) \<le> k" using st by simp
      with same [of mok c] have
        "value_of_format no_result m mok (getValue no_result m mok) c (st\<lparr>format := w\<rparr>) =
         value_of_format stuck m' mok (getValue stuck m' mok) c (st\<lparr>format := w\<rparr>)"
        unfolding same_below_def by blast
      with Cons show ?thesis by (simp add: n hbind_def look_def skip_def)
    qed
  qed
qed

section \<open>What the functions do\<close>

text \<open>C8: the value that \<open>xmlrpc_build_value\<close> makes of the format string and the arguments of a
  description is the value the description stands for; a fault is the description's own, after it
  everything that was built is released, and the format string is never read past its NUL.\<close>
theorem build_value_refines:
  assumes "heap_ok h {} E" "desc_ok d" "desc_value d \<noteq> None"
  shows "case xmlrpc_build_value always (desc_format d) (desc_args d) h of
      None \<Rightarrow> False
    | Some (Inl f, h') \<Rightarrow> desc_value d = Some (Inl f) \<and> heap_ok h' {} E \<and> cells h' = cells h
    | Some (Inr p, h') \<Rightarrow> heap_ok h' {} (add_mset p E) \<and> p \<notin> dom (cells h) \<and>
        (\<forall>q \<in> dom (cells h). body_at h' q = body_at h q) \<and>
        (\<exists>v. desc_value d = Some (Inr v) \<and> repr h' p v)"
  using sim_build_value [OF assms(2,1)] assms(3) extends_back [OF assms(1)] madeD [OF assms(1)] extends_live
  by (fastforce simp: simulates_def memory_fault_def split: option.splits sum.splits)

text \<open>A struct with an integer and an array of a string and a nil.\<close>

definition sample_desc :: "unit desc" where
  "sample_desc = DStruct [(''n'', Leaf (LInt 7)), (''a'', DArray [Leaf (LString ''hi''), Leaf LNil])]"

lemma build_value_refines_witness:
  "\<exists>p h'. xmlrpc_build_value always ''{s:i,s:(sn)}'' [VaString ''n'', VaInt 7, VaString ''a'', VaString ''hi''] no_cells
            = Some (Inr p, h') \<and>
     heap_ok h' {} {#p#} \<and> repr h' p (XStruct [(''n'', XInt 7), (''a'', XArray [XString ''hi'', XNil :: unit xvalue])])"
proof -
  have val: "desc_value sample_desc = Some (Inr (XStruct [(''n'', XInt 7), (''a'', XArray [XString ''hi'', XNil])]))"
    by code_simp
  have fmt: "desc_format sample_desc = ''{s:i,s:(sn)}''" by code_simp
  have args: "desc_args sample_desc = [VaString ''n'', VaInt 7, VaString ''a'', VaString ''hi'']" by code_simp
  have "desc_ok sample_desc" by (simp add: sample_desc_def)
  from build_value_refines [OF no_cells_ok this] show ?thesis
    unfolding val fmt args by (auto split: option.splits sum.splits) (metis sum.exhaust)
qed

text \<open>C38: \<open>getValue\<close> comes to its end on every format string, closed or not, whatever the
  arguments and the memory: with one unit of fuel for each character, the NUL included, and one
  more, no loop and no recursion gets to the end of its fuel, because what a run that gets there
  is made to give (any fault in any state, or nothing) makes no difference; and more fuel makes
  none.\<close>
theorem build_value_terminates:
  "getValue stuck (length fmt + 2 + n) mok \<lparr>bheap = h, format = fmt @ [NUL], args = as\<rparr> =
   getValue no_result (length fmt + 2) mok \<lparr>bheap = h, format = fmt @ [NUL], args = as\<rparr>"
proof -
  have "same_below (length fmt + 1) (getValue no_result (length fmt + 2) mok)
      (getValue stuck (length fmt + 2 + n) mok)"
    by (rule getValue_fuel) simp_all
  then show ?thesis unfolding same_below_def by simp
qed

end
