(* ===== verification/Xml_Messages.thy ===== *)
theory Xml_Messages
  imports Parse_Xml
begin

text \<open>
  What the parsers of calls and responses (\<open>Parse_Xml\<close>) do, against readers that need no memory.
  A response is taken apart again after it has been parsed: the fault code and string are members
  of a struct, the result is the only item of an array.
\<close>

section \<open>Taking new values apart\<close>

lemma new_rc:
  assumes "heap_ok h {} E" "heap_ok h' {} E'" "extends h h'" "fresh h \<le> q"
  shows "rc h' q \<le> count E' q + 1"
proof -
  have once: "held_once h' q" using assms(3,4) by (simp add: extends_def)
  have "count (held h' {}) q \<le> 1"
  proof (cases "\<exists>x. q \<in># refs_at h' x")
    case False
    then show ?thesis by (simp add: held_def count_sum not_in_iff)
  next
    case True
    then obtain x where x: "q \<in># refs_at h' x" by blast
    have "count (refs_at h' y) q = 0" if "y \<noteq> x" for y
      using once x that unfolding held_once_def by (metis not_in_iff)
    then have "count (held h' {}) q = count (refs_at h' x) q"
      using heap_okD(1) [OF assms(2)] refs_at_live [OF x]
      by (simp add: held_def count_sum sum.remove [of _ x])
    then show ?thesis using once by (simp add: held_once_def)
  qed
  then show ?thesis using heap_okD(3) [OF assms(2), of q] by simp
qed

lemma extends_refcount:
  assumes "extends h h'"
  shows "extends h (set_refcount p n h')"
proof -
  have "refs_at (set_refcount p n h') = refs_at h'" by (simp add: fun_eq_iff refs_at_def)
  moreover have "held_once (set_refcount p n h') = held_once h'"
    using calculation by (simp add: fun_eq_iff held_once_def)
  ultimately show ?thesis using assms by (simp add: extends_def)
qed

lemma repr_refcount: "repr h q v \<Longrightarrow> repr (set_refcount p n h) q v"
  by (rule repr_reached) simp_all

lemma find_member_repr:
  assumes "list_all2 (member_repr h) ms kvs"
  shows "rel_option (\<lambda>m kv. m \<in> set ms \<and> repr h (mvalue m) (snd kv))
    (find (\<lambda>m. key_string h (mkey m) = Some key) ms) (find (\<lambda>kv. fst kv = key) kvs)"
  using assms by (induction rule: list_all2_induct) (auto elim!: option.rel_mono_strong)

lemma map_of_find: "map_of kvs key = map_option snd (find (\<lambda>kv. fst kv = key) kvs)"
  by (induction kvs) auto

lemma struct_read_value_ok:
  assumes ok0: "heap_ok h0 {} E0" and ok: "heap_ok h {} (E0 + M)" and ext: "extends h0 h"
    and s: "repr h s (XStruct kvs)" "fresh h0 \<le> s" and small: "size M \<le> 9"
  shows "case map_of kvs (c_str key) of
      None \<Rightarrow> xmlrpc_struct_read_value s key h = Some (Inl (no_member key), h)
    | Some v \<Rightarrow> \<exists>p h'. xmlrpc_struct_read_value s key h = Some (Inr p, h') \<and> fresh h0 \<le> p \<and>
        heap_ok h' {} (add_mset p (E0 + M)) \<and> extends h0 h' \<and> h' = set_refcount p (rc h p + 1) h \<and> repr h' p v"
proof -
  obtain b where b: "body_at h s = Some (StructBody b)"
      "list_all2 (member_repr h) (block_data SIZEOF_STRUCT_MEMBER b) kvs"
    using s(1) by (rule repr_structE) auto
  let ?ms = "block_data SIZEOF_STRUCT_MEMBER b" and ?key = "c_str key"
  let ?P = "\<lambda>m. key_string h (mkey m) = Some ?key"
  have live: "s \<in> dom (cells h)" using b(1) by (simp add: live_iff_body)
  then obtain c where c: "cells h s = Some c" "body c = StructBody b"
    using b(1) by (auto simp: body_at_def)
  have "body_ok h (StructBody b)" using heap_okD(5) [OF ok, of s] live b(1) by simp
  note find = findMember_spec [OF this, of ?key]
  have op: "xmlrpc_struct_read_value s key h =
      hbind (member_value b ?key) (\<lambda>r. case r of Some p \<Rightarrow> hret p | None \<Rightarrow> hfail (no_member key)) h"
    using c by (simp add: xmlrpc_struct_read_value_def xmlrpc_struct_find_value_def hbind_def get_body_def)
  note rel = find_member_repr [OF b(2), of ?key]
  show ?thesis
  proof (cases "find (\<lambda>kv. fst kv = ?key) kvs")
    case None
    then have "find ?P ?ms = None" using rel by (simp add: option_rel_Some2)
    then have "findMember b ?key h = Some (Inr None, h)" using find by (simp add: member_map_def)
    then show ?thesis
      using None by (simp add: map_of_find op member_value_def hbind_def hret_def hfail_def)
  next
    case (Some kv)
    then obtain m where m: "find ?P ?ms = Some m" "m \<in> set ?ms" "repr h (mvalue m) (snd kv)"
      using rel by (auto simp: option_rel_Some2)
    let ?p = "mvalue m" and ?i = "length (takeWhile (\<lambda>m. \<not> ?P m) ?ms)"
    have i: "findMember b ?key h = Some (Inr (Some ?i), h)" using find m(1) by (simp add: member_map_def)
    have "find ?P ?ms \<noteq> None" using m(1) by simp
    then have "\<exists>m \<in> set ?ms. ?P m" unfolding find_None_iff by blast
    then have at: "?ms ! ?i = m" using length_takeWhile_nth(3) [of ?ms ?P] m(1) by simp
    have ref: "(?p, s) \<in> refs_rel h" using refs_struct [OF b(1) m(2)] by blast
    have "s \<notin> dom (cells h0)" using heap_okD(4) [OF ok0, of s] s(2) by auto
    then have "\<forall>q \<in># refs_at h s. s < q" using ext live unfolding extends_def by blast
    then have "s < ?p" using ref unfolding refs_rel_def by blast
    then have new: "fresh h0 \<le> ?p" using s(2) by simp
    have "count E0 ?p = 0" using fresh_not_owned [OF ok0 new] .
    then have "rc h ?p \<le> count M ?p + 1" using new_rc [OF ok0 ok ext new] by simp
    moreover have "count M ?p \<le> 9" using small count_le_size [of M ?p] by simp
    ultimately have room: "rc h ?p + 1 < 2 ^ 32" by simp
    have "?p \<in> dom (cells h) - {}" using repr_live [OF m(3)] by simp
    note inc = xmlrpc_INCREF_ok [OF ok this room]
    let ?h' = "set_refcount ?p (rc h ?p + 1) h"
    have "xmlrpc_struct_read_value s key h = Some (Inr ?p, ?h')"
      using i inc(1) at by (simp add: op member_value_def hbind_def hret_def hstep_def Let_def)
    then show ?thesis
      using Some new inc(2) extends_refcount [OF ext] repr_refcount [OF m(3)] by (auto simp: map_of_find)
  qed
qed

text \<open>A computation whose result is no reference, between the same references before and after.\<close>

abbreviation plain :: "nat multiset \<Rightarrow> 'd heap \<Rightarrow> 'd heap \<Rightarrow> 'a \<Rightarrow> 'a \<Rightarrow> bool" where
  "plain E h0 \<equiv> \<lambda>h' x y. stays E h0 h' \<and> x = y"

lemma sim_then_release:
  assumes ok0: "heap_ok h0 {} E0" and p: "fresh h0 \<le> p"
    and m: "simulates lax (stays (add_mset p E) h0) (plain (add_mset p E) h0) (m h) spec"
  shows "simulates lax (stays E h0) (plain E h0) (hfinally m (xmlrpc_DECREF p) h) spec"
proof -
  have undo: "\<exists>h''. xmlrpc_DECREF p h' = Some h'' \<and> stays E h0 h''" if "stays (add_mset p E) h0 h'" for h'
    using give_up [OF ok0 _ _ p] that by metis
  show ?thesis
    by (rule sim_finally, rule m) (use undo in blast)+
qed

lemma sim_struct_member:
  assumes ok0: "heap_ok h0 {} E0" and ok: "heap_ok h {} (E0 + M)" and ext: "extends h0 h"
    and s: "repr h s (XStruct kvs)" "fresh h0 \<le> s" and small: "size M \<le> 9"
    and k: "\<And>p v n. heap_ok (set_refcount p n h) {} (add_mset p (E0 + M)) \<Longrightarrow> extends h0 (set_refcount p n h) \<Longrightarrow>
      repr (set_refcount p n h) p v \<Longrightarrow>
      simulates lax (stays (add_mset p (E0 + M)) h0) (plain (add_mset p (E0 + M)) h0) (k p (set_refcount p n h)) (spec v)"
  shows "simulates lax (stays (E0 + M) h0) (plain (E0 + M) h0)
    (hbind (xmlrpc_struct_read_value s key) (\<lambda>p. hfinally (k p) (xmlrpc_DECREF p)) h)
    (case map_of kvs (c_str key) of None \<Rightarrow> Some (Inl (no_member key)) | Some v \<Rightarrow> spec v)"
proof (cases "map_of kvs (c_str key)")
  case None
  then have "xmlrpc_struct_read_value s key h = Some (Inl (no_member key), h)"
    using struct_read_value_ok [OF ok0 ok ext s small, of key] by simp
  with None ok ext show ?thesis by (simp add: hbind_def simulates_def)
next
  case (Some v)
  then obtain p n where p: "xmlrpc_struct_read_value s key h = Some (Inr p, set_refcount p n h)" "fresh h0 \<le> p"
      "heap_ok (set_refcount p n h) {} (add_mset p (E0 + M))" "extends h0 (set_refcount p n h)"
      "repr (set_refcount p n h) p v"
    using struct_read_value_ok [OF ok0 ok ext s small, of key] by auto
  have "simulates lax (stays (E0 + M) h0) (plain (E0 + M) h0)
      (hfinally (k p) (xmlrpc_DECREF p) (set_refcount p n h)) (spec v)"
    by (rule sim_then_release [OF ok0 p(2)]) (rule k [OF p(3-5)])
  with Some p(1) show ?thesis by (simp add: hbind_def)
qed

section \<open>The fault of a response\<close>

definition fault_code_of :: "'d xvalue \<Rightarrow> 32 word result" where
  "fault_code_of v =
     (case xmlrpc_read_int v of
        Inl f \<Rightarrow> Inl (faultf [Txt ''Invalid value for '', Txt [CHR 0x27], Txt ''faultCode'', Txt [CHR 0x27],
                         Txt '' member.  '', PctS (text_of f)])
      | Inr i \<Rightarrow> Inr i)"

definition fault_string_of :: "'d xvalue \<Rightarrow> string result" where
  "fault_string_of v =
     (case xmlrpc_read_string always v of
        Inl f \<Rightarrow> Inl (faultf [Txt ''Invalid value for '', Txt [CHR 0x27], Txt ''faultString'', Txt [CHR 0x27],
                         Txt '' member.  '', PctS (text_of f)])
      | Inr s \<Rightarrow> Inr s)"

definition read_member_of :: "(string \<times> 'd xvalue) list \<Rightarrow> string \<Rightarrow> 'd xvalue result option" where
  "read_member_of kvs key =
     (case map_of kvs (c_str key) of None \<Rightarrow> Some (Inl (no_member key)) | Some v \<Rightarrow> Some (Inr v))"

definition mapO_fault :: "(fault \<Rightarrow> fault) \<Rightarrow> 'a result option \<Rightarrow> 'a result option" where
  "mapO_fault g r = map_option (\<lambda>x. case x of Inl f \<Rightarrow> Inl (g f) | Inr y \<Rightarrow> Inr y) r"

definition read_fault_value :: "'d xvalue \<Rightarrow> (32 word \<times> string) result option" where
  "read_fault_value v =
     (case v of
        XStruct kvs \<Rightarrow>
          mapO_fault (\<lambda>f. setParseFault [Txt ''Invalid struct for <fault> value.  '', PctS (text_of f)])
            (bindO (read_member_of kvs ''faultCode'') (\<lambda>c.
             bindO (Some (fault_code_of c)) (\<lambda>code.
             bindO (read_member_of kvs ''faultString'') (\<lambda>s.
             bindO (Some (fault_string_of s)) (\<lambda>text. Some (Inr (code, text)))))))
      | _ \<Rightarrow> Some (Inl (setParseFault [Txt ''<value> element of <fault> response is not '',
                                       Txt ''of structure type''])))"

text \<open>The readers of simple values see of a cell what they would see of its value.\<close>

lemma repr_cell_value:
  assumes "repr h p v"
  obtains c where "cells h p = Some c" "value_type (cell_value (body c)) = value_type v"
    "value_type v \<notin> {TYPE_ARRAY, TYPE_STRUCT} \<Longrightarrow> cell_value (body c) = v" "body_type (body c) = value_type v"
  using assms by (cases rule: repr.cases) (auto simp: body_at_def split: option.splits)

lemma interpretFaultCode_reads:
  assumes "repr h p v"
  shows "interpretFaultCode p h = Some (fault_code_of v, h)"
  using assms
  by (rule repr_cell_value)
    (auto simp: interpretFaultCode_def hbind_def get_body_def hfail_def hret_def fault_code_of_def
      xmlrpc_read_int_def validateType_def split: sum.split)

lemma interpretFaultString_reads:
  assumes "repr h p v"
  shows "interpretFaultString always p h = Some (fault_string_of v, h)"
  using assms
  by (rule repr_cell_value)
    (auto simp: interpretFaultString_def hbind_def get_body_def hfail_def hret_def fault_string_of_def
      xmlrpc_read_string_def accessStringValue_def validateStringType_def split: sum.split)

lemma bind_get_body: "cells h p = Some c \<Longrightarrow> hbind (get_body p) k h = k (body c) h"
  by (simp add: hbind_def get_body_def)

lemma bindO_member:
  "bindO (read_member_of kvs key) f =
     (case map_of kvs (c_str key) of None \<Rightarrow> Some (Inl (no_member key)) | Some v \<Rightarrow> f v)"
  by (simp add: read_member_of_def split: option.split)

lemma sim_map_fault:
  assumes "simulates False J I (m h) spec"
  shows "simulates False J I (hmap_fault g m h) (mapO_fault g spec)"
  using assms
  by (auto simp: simulates_def hmap_fault_def mapO_fault_def split: option.splits sum.splits)
    (metis sum.distinct(1) sum.inject(2))

lemma sim_pure:
  assumes "m h = Some (r, h)" "stays E h0 h"
  shows "simulates lax (stays E h0) (\<lambda>h' x y. h' = h \<and> x = y) (m h) (Some r)"
  using assms by (cases r) (simp_all add: simulates_def)

lemma sim_interpretFaultValue:
  assumes ok0: "heap_ok h0 {} E0" and ok: "heap_ok h {} (add_mset p E0)" and ext: "extends h0 h"
    and v: "repr h p v" "fresh h0 \<le> p"
  shows "simulates False (stays (add_mset p E0) h0) (plain (add_mset p E0) h0)
    (interpretFaultValue always p h) (read_fault_value v)"
proof -
  obtain c where c: "cells h p = Some c" "body_type (body c) = value_type v"
    using v(1) by (rule repr_cell_value)
  show ?thesis
  proof (cases "\<exists>kvs. v = XStruct kvs")
    case False
    then have "value_type v \<noteq> TYPE_STRUCT" by (cases v) auto
    with c False ok ext show ?thesis
      by (cases v) (auto simp: interpretFaultValue_def hbind_def get_body_def read_fault_value_def sim_fail)
  next
    case True
    then obtain kvs where kvs: "v = XStruct kvs" by blast
    let ?E = "E0 + {#p#}"
    have E: "add_mset p E0 = ?E" by simp
    have s: "repr h p (XStruct kvs)" using v(1) kvs by simp
    have last: "simulates False (stays (add_mset q F) h0) (plain (add_mset q F) h0)
        (hbind (interpretFaultString always q) (\<lambda>faultString. hret (code, faultString)) h')
        (bindO (Some (fault_string_of w)) (\<lambda>text. Some (Inr (code, text))))"
      if "heap_ok h' {} (add_mset q F)" "extends h0 h'" "repr h' q w" for h' q F w code
      by (rule sim_bind, rule sim_pure, rule interpretFaultString_reads [OF that(3)])
        (use that in \<open>simp_all add: simulates_def hret_def\<close>)
    let ?g = "\<lambda>f. setParseFault [Txt ''Invalid struct for <fault> value.  '', PctS (text_of f)]"
    have "simulates False (stays ?E h0) (plain ?E h0)
      (hbind (xmlrpc_struct_read_value p ''faultCode'') (\<lambda>faultCodeVP.
         hfinally
           (hbind (interpretFaultCode faultCodeVP) (\<lambda>faultCode.
              hbind (xmlrpc_struct_read_value p ''faultString'') (\<lambda>faultStringVP.
                hfinally
                  (hbind (interpretFaultString always faultStringVP) (\<lambda>faultString. hret (faultCode, faultString)))
                  (xmlrpc_DECREF faultStringVP))))
           (xmlrpc_DECREF faultCodeVP)) h)
      (case map_of kvs (c_str ''faultCode'') of None \<Rightarrow> Some (Inl (no_member ''faultCode''))
       | Some c \<Rightarrow> bindO (Some (fault_code_of c)) (\<lambda>code.
           case map_of kvs (c_str ''faultString'') of None \<Rightarrow> Some (Inl (no_member ''faultString''))
           | Some s \<Rightarrow> bindO (Some (fault_string_of s)) (\<lambda>text. Some (Inr (code, text)))))"
      (is "simulates _ _ _ (?m h) ?spec")
    proof (rule sim_struct_member [OF ok0 _ ext s v(2)])
      show "heap_ok h {} ?E" using ok by simp
      fix q w n
      let ?h = "set_refcount q n h" and ?F = "E0 + {#q, p#}"
      assume q: "heap_ok ?h {} (add_mset q ?E)" "extends h0 ?h" "repr ?h q w"
      have F: "add_mset q ?E = ?F" by simp
      have sF: "stays ?F h0 ?h" using q(1,2) by simp
      show "simulates False (stays (add_mset q ?E) h0) (plain (add_mset q ?E) h0)
        (hbind (interpretFaultCode q) (\<lambda>faultCode.
              hbind (xmlrpc_struct_read_value p ''faultString'') (\<lambda>faultStringVP.
                hfinally
                  (hbind (interpretFaultString always faultStringVP) (\<lambda>faultString. hret (faultCode, faultString)))
                  (xmlrpc_DECREF faultStringVP))) ?h)
        (bindO (Some (fault_code_of w)) (\<lambda>code.
           case map_of kvs (c_str ''faultString'') of None \<Rightarrow> Some (Inl (no_member ''faultString''))
           | Some s \<Rightarrow> bindO (Some (fault_string_of s)) (\<lambda>text. Some (Inr (code, text)))))"
        unfolding F
      proof (rule sim_bind, rule sim_pure, rule interpretFaultCode_reads [OF q(3)], rule sF)
        fix x h' code assume "h' = ?h \<and> x = code"
        then show "simulates False (stays ?F h0) (plain ?F h0)
          (hbind (xmlrpc_struct_read_value p ''faultString'') (\<lambda>faultStringVP.
                hfinally
                  (hbind (interpretFaultString always faultStringVP) (\<lambda>faultString. hret (x, faultString)))
                  (xmlrpc_DECREF faultStringVP)) h')
          (case map_of kvs (c_str ''faultString'') of None \<Rightarrow> Some (Inl (no_member ''faultString''))
           | Some s \<Rightarrow> bindO (Some (fault_string_of s)) (\<lambda>text. Some (Inr (code, text))))"
          using sF repr_refcount [OF s] last
          by (elim conjE, hypsubst) (rule sim_struct_member [OF ok0 _ _ _ v(2)], auto)
      qed
    qed simp
    then have "simulates False (stays ?E h0) (plain ?E h0) (hmap_fault ?g ?m h) (mapO_fault ?g ?spec)"
      by (rule sim_map_fault)
    moreover have "interpretFaultValue always p h = hmap_fault ?g ?m h"
      using c kvs by (simp add: interpretFaultValue_def bind_get_body)
    moreover have "read_fault_value v = mapO_fault ?g ?spec"
      by (simp add: kvs read_fault_value_def bindO_member)
    ultimately show ?thesis unfolding E by (simp only:)
  qed
qed


lemma sim_parse_and_release:
  assumes ok: "heap_ok h {} E" and fits: "tree_fits t"
    and m: "\<And>p v h'. made E h h' p v \<Longrightarrow> simulates False (stays (add_mset p E) h) (plain (add_mset p E) h) (m p h') (spec v)"
  shows "simulates False (stays E h) (plain E h)
    (hbind (xmlrpc_parseValue always ps n t) (\<lambda>p. hfinally (m p) (xmlrpc_DECREF p)) h)
    (bindO (read_value ps n t) spec)"
proof (rule sim_bind, rule sim_parseValue [OF _ ok])
  fix p h' v assume made: "made E h h' p v"
  show "simulates False (stays E h) (plain E h) (hfinally (m p) (xmlrpc_DECREF p) h') (spec v)"
    by (rule sim_then_release [OF ok], use madeD(1) [OF ok made] in simp, rule m [OF made])
qed (use fits in simp_all)

definition read_fault :: "'d parser \<Rightarrow> xml_tree \<Rightarrow> (32 word \<times> string) result option" where
  "read_fault ps t =
     (let n = length (xml_element_children t) in
      if n \<noteq> 1
      then Some (Inl (setParseFault [Txt ''<fault> element should have 1 child, '', Txt ''but it has '',
                        PctU n, Txt ''.'']))
      else
        let c = hd (xml_element_children t); elemName = xml_element_name c in
        if elemName \<noteq> ''value''
        then Some (Inl (setParseFault [Txt ''<fault> contains a <'', PctS elemName, Txt ''> element.  '',
                          Txt ''Only <value> makes sense.'']))
        else bindO (read_value ps (maxNest ps) c) read_fault_value)"

lemma hd_fits: "tree_fits t \<Longrightarrow> xml_element_children t \<noteq> [] \<Longrightarrow> tree_fits (hd (xml_element_children t))"
  by (cases t) (auto simp: list_all_iff)

lemma sim_parseFaultElement:
  assumes ok: "heap_ok h {} E" and fits: "tree_fits t"
  shows "simulates False (stays E h) (plain E h) (parseFaultElement always ps t h) (read_fault ps t)"
proof -
  have start: "stays E h h" using ok extends_refl [OF ok] by simp
  have main: "simulates False (stays E h) (plain E h)
      (hbind (xmlrpc_parseValue always ps (maxNest ps) c)
         (\<lambda>p. hfinally (interpretFaultValue always p) (xmlrpc_DECREF p)) h)
      (bindO (read_value ps (maxNest ps) c) read_fault_value)" if "tree_fits c" for c
  proof (rule sim_parse_and_release [OF ok that])
    fix p v h' assume m: "made E h h' p v"
    show "simulates False (stays (add_mset p E) h) (plain (add_mset p E) h) (interpretFaultValue always p h') (read_fault_value v)"
      by (rule sim_interpretFaultValue [OF ok])
        (use madeD [OF ok m] in simp_all)
  qed
  show ?thesis
    using start main hd_fits [OF fits]
    by (cases "xml_element_children t") (auto simp: parseFaultElement_def read_fault_def Let_def sim_fail)
qed

section \<open>The result of a response\<close>

definition read_result :: "'d parser \<Rightarrow> xml_tree \<Rightarrow> 'd xvalue result option" where
  "read_result ps t =
     bindO (read_params ps t) (\<lambda>vs.
       if length vs \<noteq> 1
       then Some (Inl (setParseFault [Txt ''Contains '', PctD (int (length vs)), Txt '' items.  It should have 1.'']))
       else Some (Inr (hd vs)))"

text \<open>A reference acquired to a value of the computation's own.\<close>

definition acquired :: "nat multiset \<Rightarrow> 'd heap \<Rightarrow> 'd heap \<Rightarrow> nat \<Rightarrow> 'd xvalue \<Rightarrow> bool" where
  "acquired E h h' p v \<longleftrightarrow> stays (add_mset p E) h h' \<and> fresh h \<le> p \<and> repr h' p v"

lemma read_result_item:
  assumes ok0: "heap_ok h0 {} E0" and m: "made E0 h0 h p (XArray vs)" and few: "length vs < 2 ^ 31"
  shows "simulates False (stays (add_mset p E0) h0) (acquired (add_mset p E0) h0)
    (hbind (assert_array_ok p) (\<lambda>_. hbind (xmlrpc_array_size p) (\<lambda>arraySize.
       if arraySize \<noteq> 1 then hfail (f (int arraySize)) else xmlrpc_array_read_item p 0)) h)
    (if length vs \<noteq> 1 then Some (Inl (f (int (length vs)))) else Some (Inr (hd vs)))"
proof -
  note d = madeD [OF ok0 m]
  obtain b where b: "body_at h p = Some (ArrayBody b)" "list_all2 (repr h) (block_data SIZEOF_VALUE_PTR b) vs"
    using d(4) by (rule repr_array_body)
  obtain c where c: "cells h p = Some c" "body c = ArrayBody b" using b(1) by (auto simp: body_at_def)
  have "body_ok h (ArrayBody b)" using heap_okD(5) [OF d(2), of p] d(6) b(1) by simp
  then have wf: "mem_block_wf SIZEOF_VALUE_PTR b" by (simp add: block_ready_def)
  have "case cells h q of None \<Rightarrow> False | Some d \<Rightarrow> 1 \<le> refcount d" if "q \<in> set (block_data SIZEOF_VALUE_PTR b)" for q
  proof -
    have "q \<in> dom (cells h)" by (rule ref_live(1) [OF d(2) refs_array [OF b(1) that]])
    then have "0 < rc h q" using heap_okD(5) [OF d(2), of q] by simp
    then show ?thesis by (auto simp: rc_def split: option.splits)
  qed
  then have good: "xmlrpc_abort_if_array_bad p h"
    using c by (simp add: xmlrpc_abort_if_array_bad_def list_all_iff)
  have size: "mem_block_size SIZEOF_VALUE_PTR b = length vs"
    using length_block_data [OF wf] list_all2_lengthD [OF b(2)] by (simp add: mem_block_size_def)
  moreover have "mem_block_size SIZEOF_VALUE_PTR b < 2 ^ 31" using size few by simp
  ultimately have op: "hbind (assert_array_ok p) (\<lambda>_. hbind (xmlrpc_array_size p) (\<lambda>arraySize.
       if arraySize \<noteq> 1 then hfail (f (int arraySize)) else xmlrpc_array_read_item p 0)) h =
     (if length vs \<noteq> 1 then hfail (f (int (length vs))) else xmlrpc_array_read_item p 0) h"
    using good c by (simp add: assert_array_ok_def xmlrpc_array_size_def hbind_def get_body_def hret_def Let_def)
  show ?thesis
  proof (cases "length vs = 1")
    case False
    with d(2,3) show ?thesis by (simp only: op) (simp add: sim_fail)
  next
    case True
    then obtain v where vs: "vs = [v]" by (cases vs) auto
    then obtain q where q: "block_data SIZEOF_VALUE_PTR b = [q]" "repr h q v"
      using b(2) by (auto simp: list_all2_Cons2)
    have ref: "(q, p) \<in> refs_rel h" using refs_array [OF b(1)] q(1) by simp
    have "p \<in> dom (cells h) - dom (cells h0)" using d(6,7) by simp
    then have "\<forall>q \<in># refs_at h p. p < q" using d(3) unfolding extends_def by blast
    then have pq: "p < q" using ref unfolding refs_rel_def by blast
    then have new: "fresh h0 \<le> q" using d(1) by simp
    have "rc h q \<le> count (add_mset p E0) q + 1" by (rule new_rc [OF ok0 d(2,3) new])
    then have room: "rc h q + 1 < 2 ^ 32" using fresh_not_owned [OF ok0 new] pq by simp
    have "q \<in> dom (cells h) - {}" using repr_live [OF q(2)] by simp
    note inc = xmlrpc_INCREF_ok [OF d(2) this room]
    have "xmlrpc_array_read_item p 0 h = Some (Inr q, set_refcount q (rc h q + 1) h)"
      using c size True q(1) inc(1)
      by (simp add: xmlrpc_array_read_item_def hbind_def get_body_def hstep_def hret_def Let_def)
    then show ?thesis
      using True vs inc(2) new extends_refcount [OF d(3)] repr_refcount [OF q(2)]
      by (simp only: op) (simp add: simulates_def acquired_def)
  qed
qed

lemma read_params_length:
  assumes "read_params ps t = Some (Inr vs)"
  shows "length vs = length (xml_element_children t)"
proof -
  have loop: "read_params_loop ps us ts = Some (Inr vs) \<Longrightarrow> length vs = length us + length ts" for us ts
    by (induction ts arbitrary: us)
      (auto simp: read_param_def bindO_def Let_def split: option.splits sum.splits)
  from assms loop [of "[]"] show ?thesis
    by (auto simp: read_params_def bindO_def split: option.splits sum.splits)
qed

lemma sim_spec:
  "simulates lax J I out spec \<Longrightarrow> simulates lax J (\<lambda>h x s. I h x s \<and> spec = Some (Inr s)) out spec"
  by (auto simp: simulates_def split: option.splits sum.splits)

lemma sim_parseParamsElement:
  assumes ok: "heap_ok h {} E" and fits: "tree_fits t"
  shows "simulates False (stays E h) (acquired E h) (parseParamsElement always ps t h) (read_result ps t)"
  unfolding parseParamsElement_def read_result_def
proof (rule sim_bind)
  have "simulates False (stays E h) (\<lambda>h' p vs. made E h h' p (XArray vs)) (convertParams always ps t h) (read_params ps t)"
    using sim_convertParams [OF ok fits] unfolding read_array_value_def by (rule sim_unmap)
  then show "simulates False (stays E h) (\<lambda>h' p vs. made E h h' p (XArray vs) \<and> read_params ps t = Some (Inr vs))
      (convertParams always ps t h) (read_params ps t)"
    by (rule sim_spec)
next
  fix p h' vs assume a: "made E h h' p (XArray vs) \<and> read_params ps t = Some (Inr vs)"
  then have m: "made E h h' p (XArray vs)" by blast
  have "length vs < 2 ^ 31" using read_params_length [of ps t vs] a fits by (cases t) simp
  note item = read_result_item [OF ok m this]
  have p: "p = fresh h" using madeD(1) [OF ok m] .
  show "simulates False (stays E h) (acquired E h)
     (hfinally (hbind (assert_array_ok p) (\<lambda>_. hbind (xmlrpc_array_size p) (\<lambda>arraySize.
        if arraySize \<noteq> 1
        then hfail (setParseFault [Txt ''Contains '', PctD (int arraySize), Txt '' items.  It should have 1.''])
        else xmlrpc_array_read_item p 0))) (xmlrpc_DECREF p) h')
     (if length vs \<noteq> 1
      then Some (Inl (setParseFault [Txt ''Contains '', PctD (int (length vs)), Txt '' items.  It should have 1.'']))
      else Some (Inr (hd vs)))"
  proof (rule sim_finally, rule item)
    show "\<exists>h''. xmlrpc_DECREF p h' = Some h'' \<and> stays E h h''" if "stays (add_mset p E) h h'" for h'
      using give_up [OF ok, of h' p E] p that by auto
    show "\<exists>h''. xmlrpc_DECREF p h' = Some h'' \<and> acquired E h h'' q v"
      if a: "acquired (add_mset p E) h h' q v" for h' q v
    proof -
      have h': "heap_ok h' {} (add_mset p (add_mset q E))" "extends h h'" "fresh h \<le> q" "repr h' q v"
        using a by (simp_all add: acquired_def add_mset_commute)
      obtain h'' where h'': "xmlrpc_DECREF p h' = Some h''" "heap_ok h'' {} (add_mset q E)" "extends h h''"
          "frees_only [p] h' h''"
        using give_up [OF ok h'(1,2)] p by auto
      have "q \<in> dom (cells h'')" using owned_live(1) [OF h''(2), of q] by simp
      then have "repr h'' q v" by (rule repr_kept [OF h''(2,4) _ h'(4)])
      with h'' h'(3) show ?thesis by (simp add: acquired_def)
    qed
  qed
qed

section \<open>Whole messages\<close>

definition read_method_response :: "'d parser \<Rightarrow> xml_tree \<Rightarrow> 'd xvalue response result option" where
  "read_method_response ps t =
     (let n = length (xml_element_children t); child = hd (xml_element_children t) in
      if n \<noteq> 1
      then Some (Inl (setParseFault [Txt ''<methodResponse> has '', PctU n, Txt '' children, should have 1.'']))
      else if xml_element_name child = ''params''
      then bindO (read_result ps child) (\<lambda>v. Some (Inr (Returned v)))
      else if xml_element_name child = ''fault''
      then bindO (read_fault ps child) (\<lambda>(code, text). Some (Inr (Failed code text)))
      else Some (Inl (setParseFault [Txt ''<methodResponse> must contain <params> or <fault>, '',
                        Txt ''but contains <'', PctS (xml_element_name child), Txt ''>.''])))"

definition read_response :: "'d parser \<Rightarrow> xml_tree \<Rightarrow> 'd xvalue response result option" where
  "read_response ps t =
     (if xml_element_name t = ''methodResponse'' then read_method_response ps t
      else Some (Inl (setParseFault [Txt ''XML-RPC response must consist of a '',
                        Txt ''<methodResponse> element.  '', Txt ''This has a <'',
                        PctS (xml_element_name t), Txt ''> instead.''])))"

fun response_made ::
    "nat multiset \<Rightarrow> 'd heap \<Rightarrow> 'd heap \<Rightarrow> nat response \<Rightarrow> 'd xvalue response \<Rightarrow> bool" where
  "response_made E h h' (Returned p) (Returned v) \<longleftrightarrow> acquired E h h' p v"
| "response_made E h h' (Failed c s) (Failed c' s') \<longleftrightarrow> stays E h h' \<and> c = c' \<and> s = s'"
| "response_made E h h' _ _ \<longleftrightarrow> False"

lemma sim_parseMethodResponseElt:
  assumes ok: "heap_ok h {} E" and fits: "tree_fits t"
  shows "simulates False (stays E h) (response_made E h) (parseMethodResponseElt always ps t h)
    (read_method_response ps t)"
proof -
  have start: "stays E h h" using ok extends_refl [OF ok] by simp
  have params: "simulates False (stays E h) (response_made E h)
      (hbind (parseParamsElement always ps c) (\<lambda>result. hret (Returned result)) h)
      (bindO (read_result ps c) (\<lambda>v. Some (Inr (Returned v))))" if "tree_fits c" for c
    by (rule sim_bind, rule sim_parseParamsElement [OF ok that], rule sim_ret) simp
  have fault: "simulates False (stays E h) (response_made E h)
      (hbind (parseFaultElement always ps c) (\<lambda>(code, text). hret (Failed code text)) h)
      (bindO (read_fault ps c) (\<lambda>(code, text). Some (Inr (Failed code text))))" if "tree_fits c" for c
    by (rule sim_bind, rule sim_parseFaultElement [OF ok that]) (auto intro!: sim_ret)
  show ?thesis
    using start params fault hd_fits [OF fits]
    by (cases "xml_element_children t")
      (auto simp: parseMethodResponseElt_def read_method_response_def Let_def sim_fail)
qed

lemma sim_parse_root:
  fixes h :: "'e heap"
  assumes doc: "expat ps xml = Some (evs, None)" "document_tree evs = Some t"
      "sum_list (map event_size evs) \<le> BLOCK_ALLOC_MAX"
    and use: "simulates False J I (use t h) spec"
  shows "simulates False J I (parse_root always ps xml use h) spec"
proof -
  obtain doc where d: "xml_parse (expat ps) always xml = Some (Inr doc)"
      "\<And>h :: 'e heap. document doc h = Some (Inr t, h)" "\<And>h :: 'e heap. free_document doc h = Some h"
    using xml_parse_document [OF doc] by metis
  have "simulates False J I (hfinally (hbind (document doc) use) (free_document doc) h) spec"
    by (rule sim_with_document, rule d(2), rule d(3), rule use)
  then show ?thesis by (simp add: parse_root_def hmap_fault_def hbind_def hoption_def d(1))
qed

lemma sim_parse_call:
  fixes h :: "'d heap"
  assumes ok: "heap_ok h {} E"
    and doc: "expat ps xml = Some (evs, None)" "document_tree evs = Some t"
      "sum_list (map event_size evs) \<le> BLOCK_ALLOC_MAX"
    and fits: "tree_fits t" "length xml \<le> limits ps XMLRPC_XML_SIZE_LIMIT_ID"
  shows "simulates False (stays E h) (call_made E h) (xmlrpc_parse_call always ps xml h) (read_call ps t)"
proof -
  obtain doc where d: "xml_parse (expat ps) always xml = Some (Inr doc)"
      "\<And>h :: 'd heap. document doc h = Some (Inr t, h)" "\<And>h :: 'd heap. free_document doc h = Some h"
    using xml_parse_document [OF doc] by metis
  have start: "stays E h h" using ok extends_refl [OF ok] by simp
  have "simulates False (stays E h) (call_made E h)
      (hfinally (hbind (document doc) (parseCallChildren always ps)) (free_document doc) h) (read_call_children ps t)"
    by (rule sim_with_document, rule d(2), rule d(3), rule sim_parseCallChildren [OF ok fits(1)])
  moreover have "parseCallXml always ps xml h =
      (if xml_element_name t = ''methodCall'' then Some (Inr doc, h)
       else Some (Inl (setParseFault [Txt ''XML-RPC call should be a <methodCall> element.  '',
                   Txt ''Instead, we have a <'', PctS (xml_element_name t), Txt ''> element.'']), h))"
    using d by (simp add: parseCallXml_def hbind_def hoption_def hcleanup_def hfail_def hret_def)
  ultimately show ?thesis
    using start fits(2)
    by (auto simp: xmlrpc_parse_call_def read_call_def Let_def xmlrpc_limit_get_def hbind_def simulates_def)
qed

lemma sim_parse_response2:
  assumes ok: "heap_ok h {} E"
    and doc: "expat ps xml = Some (evs, None)" "document_tree evs = Some t"
      "sum_list (map event_size evs) \<le> BLOCK_ALLOC_MAX"
    and fits: "tree_fits t" "length xml \<le> limits ps XMLRPC_XML_SIZE_LIMIT_ID"
  shows "simulates False (stays E h) (response_made E h) (xmlrpc_parse_response2 always ps xml h) (read_response ps t)"
proof -
  have start: "stays E h h" using ok extends_refl [OF ok] by simp
  have "simulates False (stays E h) (response_made E h)
      ((if xml_element_name t = ''methodResponse'' then parseMethodResponseElt always ps t
        else hfail (setParseFault [Txt ''XML-RPC response must consist of a '',
                        Txt ''<methodResponse> element.  '', Txt ''This has a <'',
                        PctS (xml_element_name t), Txt ''> instead.''])) h) (read_response ps t)"
    using sim_parseMethodResponseElt [OF ok fits(1)] start by (simp add: read_response_def sim_fail)
  then show ?thesis
    using fits(2)
    by (simp add: xmlrpc_parse_response2_def Let_def xmlrpc_limit_get_def sim_parse_root [OF doc])
qed

section \<open>Properties\<close>

lemma outcome_cases:
  obtains "out = None" | f h where "out = Some (Inl f, h)" | x h where "out = Some (Inr x, h)"
  by (metis not_None_eq old.prod.exhaust sum.exhaust)

text \<open>C5: given the element tree of a text, parsing it as a call does what the heap-free reader does with
  the tree: the same fault, with the heap as it was, or the same method name and an array in the
  heap that stands for the parameters read, with one reference to it and nothing old changed.\<close>
theorem parse_call_refines_reader:
  assumes "heap_ok h {} E" "expat ps xml = Some (evs, None)" "document_tree evs = Some t"
    and "sum_list (map event_size evs) \<le> BLOCK_ALLOC_MAX" "tree_fits t"
    and "length xml \<le> limits ps XMLRPC_XML_SIZE_LIMIT_ID"
  shows "case xmlrpc_parse_call always ps xml h of
      None \<Rightarrow> read_call ps t = None
    | Some (Inl f, h') \<Rightarrow> read_call ps t = Some (Inl f) \<and> heap_ok h' {} E \<and> cells h' = cells h
    | Some (Inr (name, p), h') \<Rightarrow>
        heap_ok h' {} (add_mset p E) \<and> p \<notin> dom (cells h) \<and>
        (\<forall>q \<in> dom (cells h). body_at h' q = body_at h q) \<and>
        (\<exists>vs. read_call ps t = Some (Inr (name, vs)) \<and> repr h' p (XArray vs))"
proof (cases "xmlrpc_parse_call always ps xml h")
  case None
  then show ?thesis using sim_parse_call [of h E ps xml evs t, OF assms] by (simp add: simulates_def)
next
  case (Some out)
  note sim = sim_parse_call [of h E ps xml evs t, OF assms]
  obtain r h' where out: "out = (r, h')" by force
  show ?thesis
  proof (cases r)
    case (Inl f)
    then show ?thesis using sim Some out extends_back [OF assms(1)] by (simp add: simulates_def)
  next
    case (Inr x)
    then obtain s where s: "read_call ps t = Some (Inr s)" "call_made E h h' x s"
      using sim Some out by (auto simp: simulates_def)
    obtain name p vs where x: "x = (name, p)" "s = (name, vs)" "made E h h' p (XArray vs)"
      using s(2) by (cases x; cases s) (auto simp: call_made_def)
    note d = madeD [OF assms(1) x(3)]
    show ?thesis using Some out Inr x s(1) d(2,4,7) extends_live [OF d(3)] by simp
  qed
qed

definition sample_events :: "string \<Rightarrow> xml_event list \<Rightarrow> xml_event list" where
  "sample_events name evs = StartElement name # evs @ [EndElement name]"

definition sample_call_events :: "xml_event list" where
  "sample_call_events =
     sample_events ''methodCall''
       (sample_events ''methodName'' [CharacterData ''f''] @
        sample_events ''params'' (sample_events ''param'' (sample_events ''value'' [CharacterData ''x''])))"

definition sample_parser :: "xml_event list \<Rightarrow> unit parser" where
  "sample_parser evs =
     \<lparr>have_regex = True, d_int = (\<lambda>_. ()), d_tenth = (), d_add = (\<lambda>_ _. ()), d_mul = (\<lambda>_ _. ()),
      d_neg = (\<lambda>_. ()), d_above_max = (\<lambda>_. False), strtod = (\<lambda>s. (False, (), [])),
      limits = default_limits, expat = (\<lambda>_. Some (evs, None))\<rparr>"

lemma sample_limit: "length xml \<le> 512 \<Longrightarrow> length xml \<le> limits (sample_parser evs) XMLRPC_XML_SIZE_LIMIT_ID"
  by (simp add: sample_parser_def)

lemma sample_maxNest: "maxNest (sample_parser evs) = 64"
  by (simp add: maxNest_def sample_parser_def xmlrpc_limit_get_def)

lemma parse_call_refines_reader_witness:
  "\<exists>p h'. xmlrpc_parse_call always (sample_parser sample_call_events) ''<...>'' no_cells = Some (Inr (''f'', p), h') \<and>
     repr h' p (XArray [XString ''x''])"
proof -
  let ?t = "Elem ''methodCall'' [] [Elem ''methodName'' ''f'' [],
      Elem ''params'' [] [Elem ''param'' [] [Elem ''value'' ''x'' []]]]"
  have "document_tree sample_call_events = Some ?t" by code_simp
  moreover have "read_call (sample_parser sample_call_events) ?t = Some (Inr (''f'', [XString ''x'']))"
  proof -
    have "read_value (sample_parser sample_call_events) 64 (Elem ''value'' ''x'' []) = Some (Inr (XString ''x''))"
      "xmlrpc_validate_utf8 ''f'' = Inr ()" "c_str ''f'' = ''f''" by code_simp+
    then show ?thesis
      by (simp add: read_call_def read_call_children_def getChildByName_def parseMethodNameElement_def
          read_params_def read_param_def validateName_def validateChildCount_def sample_maxNest always_def)
  qed
  moreover have "sum_list (map event_size sample_call_events) \<le> BLOCK_ALLOC_MAX"
    by (simp add: sample_call_events_def sample_events_def)
  moreover have "expat (sample_parser sample_call_events) ''<...>'' = Some (sample_call_events, None)"
    by (simp add: sample_parser_def)
  moreover have "length ''<...>'' \<le> limits (sample_parser sample_call_events) XMLRPC_XML_SIZE_LIMIT_ID"
    by (rule sample_limit) simp
  moreover have "tree_fits ?t" by simp
  ultimately show ?thesis
    using parse_call_refines_reader [OF no_cells_ok, of "sample_parser sample_call_events" "''<...>''" sample_call_events ?t]
    by (cases "xmlrpc_parse_call always (sample_parser sample_call_events) ''<...>'' no_cells" rule: outcome_cases)
      (simp_all split: prod.splits)
qed

text \<open>C6: given the element tree of a text, parsing it as a response does what the heap-free reader does
  with the tree: the same fault, or the fault code and string of a failed call, with the heap as
  it was in both cases, or a value in the heap that stands for the result read.\<close>
theorem parse_response_refines_reader:
  assumes "heap_ok h {} E" "expat ps xml = Some (evs, None)" "document_tree evs = Some t"
    and "sum_list (map event_size evs) \<le> BLOCK_ALLOC_MAX" "tree_fits t"
    and "length xml \<le> limits ps XMLRPC_XML_SIZE_LIMIT_ID"
  shows "case xmlrpc_parse_response2 always ps xml h of
      None \<Rightarrow> read_response ps t = None
    | Some (Inl f, h') \<Rightarrow> read_response ps t = Some (Inl f) \<and> heap_ok h' {} E \<and> cells h' = cells h
    | Some (Inr (Failed code text), h') \<Rightarrow>
        read_response ps t = Some (Inr (Failed code text)) \<and> heap_ok h' {} E \<and> cells h' = cells h
    | Some (Inr (Returned p), h') \<Rightarrow>
        heap_ok h' {} (add_mset p E) \<and> (\<forall>q \<in> dom (cells h). body_at h' q = body_at h q) \<and>
        (\<exists>v. read_response ps t = Some (Inr (Returned v)) \<and> repr h' p v)"
proof -
  note sim = sim_parse_response2 [of h E ps xml evs t, OF assms]
  have same: "cells h' = cells h" if "heap_ok h' {} E" "extends h h'" for h'
    using extends_back [OF assms(1) that] .
  show ?thesis
  proof (cases "xmlrpc_parse_response2 always ps xml h")
    case None
    then show ?thesis using sim by (simp add: simulates_def)
  next
    case (Some out)
    obtain r h' where out: "out = (r, h')" by force
    show ?thesis
    proof (cases r)
      case (Inl f)
      then show ?thesis using sim Some out same by (simp add: simulates_def)
    next
      case (Inr x)
      then obtain s where s: "read_response ps t = Some (Inr s)" "response_made E h h' x s"
        using sim Some out by (auto simp: simulates_def)
      then show ?thesis
        using Some out Inr same extends_live by (cases x; cases s) (auto simp: acquired_def)
    qed
  qed
qed

definition sample_fault_events :: "xml_event list" where
  "sample_fault_events =
     sample_events ''methodResponse'' (sample_events ''fault'' (sample_events ''value'' (sample_events ''struct''
       (sample_events ''member'' (sample_events ''name'' [CharacterData ''faultCode''] @
          sample_events ''value'' (sample_events ''int'' [CharacterData ''7''])) @
        sample_events ''member'' (sample_events ''name'' [CharacterData ''faultString''] @
          sample_events ''value'' [CharacterData ''no''])))))"

lemma parse_response_refines_reader_witness:
  "\<exists>h'. xmlrpc_parse_response2 always (sample_parser sample_fault_events) ''<...>'' no_cells =
      Some (Inr (Failed 7 ''no''), h') \<and> cells h' = Map.empty"
proof -
  let ?m = "\<lambda>n v. Elem ''member'' [] [Elem ''name'' n [], Elem ''value'' (fst v) (snd v)]"
  let ?t = "Elem ''methodResponse'' [] [Elem ''fault'' [] [Elem ''value'' [] [Elem ''struct'' []
      [?m ''faultCode'' ([], [Elem ''int'' ''7'' []]), ?m ''faultString'' (''no'', [])]]]]"
  have "document_tree sample_fault_events = Some ?t" by code_simp
  moreover have "read_response (sample_parser sample_fault_events) ?t = Some (Inr (Failed 7 ''no''))"
  proof -
    have "read_value (sample_parser sample_fault_events) 64 (hd (xml_element_children (hd (xml_element_children ?t)))) =
        Some (Inr (XStruct [(''faultCode'', XInt 7), (''faultString'', XString ''no'')]))"
      "read_fault_value (XStruct [(''faultCode'', XInt 7), (''faultString'', XString ''no'')] :: unit xvalue) =
        Some (Inr (7, ''no''))" by code_simp+
    then show ?thesis
      by (simp add: read_response_def read_method_response_def read_fault_def sample_maxNest)
  qed
  moreover have "sum_list (map event_size sample_fault_events) \<le> BLOCK_ALLOC_MAX"
    by (simp add: sample_fault_events_def sample_events_def)
  moreover have "expat (sample_parser sample_fault_events) ''<...>'' = Some (sample_fault_events, None)"
    by (simp add: sample_parser_def)
  moreover have "length ''<...>'' \<le> limits (sample_parser sample_fault_events) XMLRPC_XML_SIZE_LIMIT_ID"
    by (rule sample_limit) simp
  moreover have "tree_fits ?t" by simp
  ultimately show ?thesis
    using parse_response_refines_reader [OF no_cells_ok, of "sample_parser sample_fault_events" "''<...>''" sample_fault_events ?t]
    by (cases "xmlrpc_parse_response2 always (sample_parser sample_fault_events) ''<...>'' no_cells" rule: outcome_cases)
      (simp_all add: no_cells_def split: response.splits)
qed

lemma sim_fault:
  assumes "simulates False J I out (Some (Inl f))"
  shows "\<exists>h'. out = Some (Inl f, h') \<and> J h'"
  using assms by (cases out rule: outcome_cases) (simp_all add: simulates_def)

text \<open>When a parameter cannot be converted, the parameters before it are released and the heap is as
  it was; but the loop goes on to check the names of the elements after it, and the last one that
  is no \<open>param\<close> element replaces the fault that stopped the conversion.\<close>
theorem convert_params_reports_last:
  assumes "heap_ok h {} E" "tree_fits (Elem ''params'' w (ts @ t # us))"
    and "read_params ps (Elem ''params'' w ts) = Some (Inr vs)" "read_param ps vs t = Some (Inl f)"
  shows "\<exists>h'. cells h' = cells h \<and>
    convertParams always ps (Elem ''params'' w (ts @ t # us)) h =
      Some (Inl (case find (\<lambda>u. xml_element_name u \<noteq> ''param'') (rev us) of
                   None \<Rightarrow> f
                 | Some u \<Rightarrow> set_fault_formatted XMLRPC_PARSE_ERROR
                     [Txt ''Expected element of type <'', PctS ''param'', Txt ''>, found <'',
                      PctS (xml_element_name u), Txt ''>'']), h')"
proof -
  have loop: "read_params_loop ps us ts = Some (Inr vs) \<Longrightarrow>
      read_params_loop ps us (ts @ r) = read_params_loop ps vs r" for us vs ts r
    by (induction ts arbitrary: us) (auto split: option.splits sum.splits)
  have rest: "rest_of_params f us =
      (case find (\<lambda>u. xml_element_name u \<noteq> ''param'') (rev us) of
         None \<Rightarrow> f
       | Some u \<Rightarrow> set_fault_formatted XMLRPC_PARSE_ERROR
           [Txt ''Expected element of type <'', PctS ''param'', Txt ''>, found <'', PctS (xml_element_name u), Txt ''>''])"
    for f us
    by (induction us rule: rev_induct) (auto simp: rest_of_params_def validateName_def)
  have "read_params_loop ps [] ts = Some (Inr vs)"
    using assms(3) by (simp add: read_params_def validateName_def)
  then have "read_params ps (Elem ''params'' w (ts @ t # us)) = Some (Inl (rest_of_params f us))"
    using assms(4) by (simp add: read_params_def validateName_def loop)
  then have "simulates False (stays E h) (made E h) (convertParams always ps (Elem ''params'' w (ts @ t # us)) h)
      (Some (Inl (rest_of_params f us)))"
    using sim_convertParams [OF assms(1,2), of ps] by (simp add: read_array_value_def)
  from sim_fault [OF this] obtain h' where
    "convertParams always ps (Elem ''params'' w (ts @ t # us)) h = Some (Inl (rest_of_params f us), h')" "stays E h h'"
    by blast
  then show ?thesis using extends_back [OF assms(1)] unfolding rest by blast
qed

lemma convert_params_reports_last_witness:
  "\<exists>h'. convertParams always (sample_parser []) (Elem ''params'' [] [Elem ''param'' [] [], Elem ''x'' [] []]) no_cells =
    Some (Inl (set_fault_formatted XMLRPC_PARSE_ERROR
      [Txt ''Expected element of type <'', PctS ''param'', Txt ''>, found <'', PctS ''x'', Txt ''>'']), h')"
proof -
  obtain f where "read_param (sample_parser []) [] (Elem ''param'' [] []) = Some (Inl f)"
    by (simp add: read_param_def validateName_def validateChildCount_def)
  moreover have "read_params (sample_parser []) (Elem ''params'' [] []) = Some (Inr [])"
    by (simp add: read_params_def validateName_def)
  ultimately show ?thesis
    using convert_params_reports_last [OF no_cells_ok, of "[]" "[]" "Elem ''param'' [] []" "[Elem ''x'' [] []]"
        "sample_parser []" "[]" f]
    by auto
qed

end
