(* ===== verification/Decompose.thy ===== *)
theory Decompose
  imports Build Xml_Messages
begin

text \<open>
  Taking a value apart as a format string says (\<open>src/xmlrpc_decompose.c\<close>).  The code goes in two steps:
  it makes a tree of the format string and the pointers of the caller, and it stores the parts of
  the value through these pointers as the tree says.  A pointer of the caller is a number, and
  \<open>vars\<close> says what the variable there holds.  The memory of the nodes of the tree is not tracked.
\<close>

section \<open>The decomposition tree\<close>

datatype decomp =
    DNone
  | DInteger nat
  | DBool nat
  | DDouble nat
  | DDatetimeT nat
  | DDatetime8 nat
  | DString nat "nat option"
  | DWideString nat "nat option"
  | DBitString nat nat
  | DNil
  | DI8 nat
  | DCptr nat
  | DValue nat
  | DArrayVal nat
  | DStructVal nat
  | DArray "decomp list" bool
  | DStruct "(string \<times> decomp) list"

datatype ('d, 'v) out_val =
    OutInt "32 word"
  | OutBool "32 word"
  | OutDouble 'd
  | OutTime int
  | OutString string
  | OutWide "int list"
  | OutBytes "char list"
  | OutSize nat
  | OutI8 "64 word"
  | OutPointer nat
  | OutValue 'v

record 'd decomp_state =
  dheap :: "'d heap"
  vars :: "nat \<Rightarrow> ('d, nat) out_val option"

type_synonym ('a, 'd) decomp_op = "('a, 'd decomp_state) op"

abbreviation MAX_DECOMP :: nat where "MAX_DECOMP \<equiv> 16"
abbreviation SIZEOF_DECOMP_NODE :: nat where "SIZEOF_DECOMP_NODE \<equiv> 272"

section \<open>From the format string to the tree\<close>

definition quoted_char :: "char \<Rightarrow> piece list" where
  "quoted_char c = [Txt [CHR 0x27], PctC c, Txt [CHR 0x27]]"

definition missing_delimiter :: "char \<Rightarrow> fault" where
  "missing_delimiter delim = faultf ([Txt ''missing closing delimiter (''] @ quoted_char delim @ [Txt '')''])"

definition next_dest :: "(nat, 'd) build_op" where
  "next_dest = hbind next_arg (\<lambda>a. case a of VaDest d \<Rightarrow> hret d | _ \<Rightarrow> undefined_behaviour)"

definition next_key :: "(string, 'd) build_op" where
  "next_key = hbind next_arg (\<lambda>a. case a of VaString s \<Rightarrow> hret s | _ \<Rightarrow> undefined_behaviour)"

definition size_dest :: "(nat option, 'd) build_op" where
  "size_dest =
     hbind look (\<lambda>c.
       if c = CHR ''#'' then hbind next_dest (\<lambda>d. hbind skip (\<lambda>_. hret (Some d))) else hret None)"

definition buildWideStringNode :: "(decomp, 'd) build_op" where
  "buildWideStringNode = hbind next_dest (\<lambda>d. hbind size_dest (\<lambda>s. hret (DWideString d s)))"

definition processArraySpecTail :: "char \<Rightarrow> (bool, 'd) build_op" where
  "processArraySpecTail delim =
     hbind look (\<lambda>c.
       if c = CHR ''*''
       then hbind skip (\<lambda>_. hbind look (\<lambda>d.
              if d = NUL then hfail (missing_delimiter delim)
              else if d \<noteq> delim
              then hfail (faultf ([Txt ''character following '', Txt [CHR 0x27], Txt ''*'', Txt [CHR 0x27], Txt '' in array '',
                                   Txt ''specification should be the closing delimiter ''] @ quoted_char delim @
                                  [Txt '', but is ''] @ quoted_char d))
              else hret True))
       else if c = NUL then hfail (missing_delimiter delim)
       else if c \<noteq> delim then undefined_behaviour
       else hret False)"

text \<open>
  The loops look at the format string before they look at the environment, also after a fault
  (\<open>look_after_fault\<close>).
\<close>

fun array_branch_loop :: "nat \<Rightarrow> (decomp, 'd) build_op \<Rightarrow> char \<Rightarrow> decomp list \<Rightarrow> (decomp list, 'd) build_op" where
  "array_branch_loop 0 get delim items = undefined_behaviour"
| "array_branch_loop (Suc n) get delim items =
     hbind look (\<lambda>c.
       if c = NUL \<or> c = delim \<or> c = CHR ''*'' then hret items
       else if MAX_DECOMP \<le> length items
       then hfail (faultf [Txt ''Too many array items in format string.  '',
                           Txt ''The most items you can have for an array in '',
                           Txt ''a format string is '', PctU MAX_DECOMP, Txt ''.''])
       else hbind (look_after_fault get) (\<lambda>itemNodeP. array_branch_loop n get delim (items @ [itemNodeP])))"

definition buildArrayDecompBranch :: "nat \<Rightarrow> (decomp, 'd) build_op \<Rightarrow> char \<Rightarrow> (decomp, 'd) build_op" where
  "buildArrayDecompBranch n get delim =
     hbind (array_branch_loop n get delim []) (\<lambda>items.
     hbind (processArraySpecTail delim) (\<lambda>ignoreExcess. hret (DArray items ignoreExcess)))"

definition doStructValue :: "(decomp, 'd) build_op \<Rightarrow> (string \<times> decomp, 'd) build_op" where
  "doStructValue get = hbind next_key (\<lambda>key. hbind get (\<lambda>valueNodeP. hret (key, valueNodeP)))"

definition skipAsterisk :: "char \<Rightarrow> (unit, 'd) build_op" where
  "skipAsterisk delim =
     hbind look (\<lambda>c.
       if c = CHR ''*''
       then hbind skip (\<lambda>_. hbind look (\<lambda>d.
              if d = NUL then hfail (missing_delimiter delim)
              else if d \<noteq> delim
              then hfail (faultf ([Txt ''junk after '', Txt [CHR 0x27], Txt ''*'', Txt [CHR 0x27],
                                   Txt '' in the specifier of an '', Txt ''array.  First character=''] @ quoted_char d))
              else hret ()))
       else hfail (faultf [Txt ''You must put a trailing '', Txt [CHR 0x27], Txt ''*'', Txt [CHR 0x27],
                           Txt '' in the specifiers for '', Txt ''struct members to signify it'', Txt [CHR 0x27],
                           Txt ''s OK if there are '', Txt ''additional members you didn'', Txt [CHR 0x27], Txt ''t get.'']))"

definition skipColon :: "char \<Rightarrow> (unit, 'd) build_op" where
  "skipColon delim =
     hbind look (\<lambda>c.
       if c = NUL then hfail (faultf [Txt ''format string ends in the middle of a struct '', Txt ''member specifier''])
       else if c = delim then hfail (faultf [Txt ''member list ends in the middle of a member''])
       else if c \<noteq> CHR '':''
       then hfail (faultf ([Txt ''In a struct specifier, ''] @ quoted_char c @
                           [Txt '' found '', Txt ''where a colon (''] @ quoted_char (CHR '':'') @
                           [Txt '') separating key and '', Txt ''value was expected.'']))
       else hret ())"

definition skipComma :: "char \<Rightarrow> (unit, 'd) build_op" where
  "skipComma delim =
     hbind look (\<lambda>c.
       if c = NUL \<or> c = delim then hret ()
       else if c = CHR '','' then skip
       else hfail (faultf (quoted_char c @ [Txt '' where we expected a ''] @ quoted_char (CHR '','') @
                           [Txt '' '', Txt ''to separate struct members''])))"

text \<open>The comma is looked for after a fault too, and what it finds then replaces the fault.\<close>

definition then_skipComma :: "char \<Rightarrow> ('a, 'd) build_op \<Rightarrow> ('a, 'd) build_op" where
  "then_skipComma delim m st =
     (case m st of None \<Rightarrow> None
      | Some (r, st') \<Rightarrow>
          (case skipComma delim st' of
             None \<Rightarrow> None
           | Some (Inl f, st'') \<Rightarrow> Some (Inl f, st'')
           | Some (Inr _, st'') \<Rightarrow> Some (r, st'')))"

fun struct_branch_loop ::
    "nat \<Rightarrow> (decomp, 'd) build_op \<Rightarrow> char \<Rightarrow> (string \<times> decomp) list \<Rightarrow> ((string \<times> decomp) list, 'd) build_op" where
  "struct_branch_loop 0 get delim mbrs = undefined_behaviour"
| "struct_branch_loop (Suc n) get delim mbrs =
     hbind look (\<lambda>c.
       if c = NUL \<or> c = delim \<or> c = CHR ''*'' then hret mbrs
       else if MAX_DECOMP \<le> length mbrs
       then hfail (faultf [Txt ''Too many structure members in format string.  '',
                           Txt ''The most members you can specify in '',
                           Txt ''a format string is '', PctU MAX_DECOMP, Txt ''.''])
       else if c \<noteq> CHR ''s''
       then hfail (faultf ([Txt ''In a struct specifier, the specifier '', Txt ''for the key is ''] @ quoted_char c @
                           [Txt '', but it must be ''] @ quoted_char (CHR ''s'') @ [Txt ''.'']))
       else
         hbind (look_after_fault (hbind skip (\<lambda>_. hbind (skipColon delim) (\<lambda>_. hbind skip (\<lambda>_.
                  then_skipComma delim (doStructValue get)))))) (\<lambda>mbr.
         struct_branch_loop n get delim (mbrs @ [mbr])))"

definition buildStructDecompBranch :: "nat \<Rightarrow> (decomp, 'd) build_op \<Rightarrow> char \<Rightarrow> (decomp, 'd) build_op" where
  "buildStructDecompBranch n get delim =
     hbind (struct_branch_loop n get delim []) (\<lambda>mbrs.
     hbind (skipAsterisk delim) (\<lambda>_. hret (DStruct mbrs)))"

definition step_past :: "'d build_state \<Rightarrow> 'd build_state option" where
  "step_past st = map_option snd (skip st)"

definition node_of_format :: "nat \<Rightarrow> (decomp, 'd) build_op \<Rightarrow> char \<Rightarrow> (decomp, 'd) build_op" where
  "node_of_format n get c =
     (if c = CHR ''-'' then hret DNone
      else if c = CHR ''i'' then hbind next_dest (\<lambda>d. hret (DInteger d))
      else if c = CHR ''b'' then hbind next_dest (\<lambda>d. hret (DBool d))
      else if c = CHR ''d'' then hbind next_dest (\<lambda>d. hret (DDouble d))
      else if c = CHR ''t'' then hbind next_dest (\<lambda>d. hret (DDatetimeT d))
      else if c = CHR ''8'' then hbind next_dest (\<lambda>d. hret (DDatetime8 d))
      else if c = CHR ''s'' then hbind next_dest (\<lambda>d. hbind size_dest (\<lambda>s. hret (DString d s)))
      else if c = CHR ''w'' then buildWideStringNode
      else if c = CHR ''6'' then hbind next_dest (\<lambda>d. hbind next_dest (\<lambda>s. hret (DBitString d s)))
      else if c = CHR ''n'' then hret DNil
      else if c = CHR ''I'' then hbind next_dest (\<lambda>d. hret (DI8 d))
      else if c = CHR ''p'' then hbind next_dest (\<lambda>d. hret (DCptr d))
      else if c = CHR ''V'' then hbind next_dest (\<lambda>d. hret (DValue d))
      else if c = CHR ''A'' then hbind next_dest (\<lambda>d. hret (DArrayVal d))
      else if c = CHR ''S'' then hbind next_dest (\<lambda>d. hret (DStructVal d))
      else if c = CHR ''('' then hfinally (buildArrayDecompBranch n get (CHR '')'')) step_past
      else if c = CHR ''{'' then hfinally (buildStructDecompBranch n get (CHR ''}'')) step_past
      else hfail (faultf ([Txt ''Invalid format character ''] @ quoted_char c)))"

fun createDecompTreeNext :: "nat \<Rightarrow> (nat \<Rightarrow> bool) \<Rightarrow> (decomp, 'd) build_op" where
  "createDecompTreeNext 0 mok = undefined_behaviour"
| "createDecompTreeNext (Suc n) mok =
     (if mok SIZEOF_DECOMP_NODE
      then hbind look (\<lambda>c. hbind skip (\<lambda>_. node_of_format n (createDecompTreeNext n mok) c))
      else hfail (faultf [Txt ''Could not allocate space for a decomposition '', Txt ''tree node'']))"

definition createDecompTree :: "(nat \<Rightarrow> bool) \<Rightarrow> string \<Rightarrow> (decomp, 'd) build_op" where
  "createDecompTree mok fmt =
     hbind (createDecompTreeNext (length fmt + 1) mok) (\<lambda>decompRootP st.
       case format st of [] \<Rightarrow> None
       | c # _ \<Rightarrow>
           if c \<noteq> NUL
           then hfail (faultf [Txt ''format string '', Txt [CHR 0x27], PctS fmt, Txt [CHR 0x27], Txt '' has garbage at the end: '',
                  Txt [CHR 0x27], PctS (c_str (format st)), Txt [CHR 0x27], Txt ''.  It should be a specifier of a single value '',
                  Txt ''(but that might be a complex value, such as an '', Txt ''array)'']) st
           else hret decompRootP st)"

section \<open>Releasing what was stored\<close>

definition on_dheap :: "('a, 'd) heap_op \<Rightarrow> ('a, 'd) decomp_op" where
  "on_dheap m st = map_option (\<lambda>(r, h). (r, st\<lparr>dheap := h\<rparr>)) (m (dheap st))"

definition drop_value :: "nat \<Rightarrow> 'd decomp_state \<Rightarrow> 'd decomp_state option" where
  "drop_value p st = map_option (\<lambda>h. st\<lparr>dheap := h\<rparr>) (xmlrpc_DECREF p (dheap st))"

text \<open>A variable whose memory was freed holds nothing.\<close>

definition free_var :: "nat \<Rightarrow> 'd decomp_state \<Rightarrow> 'd decomp_state option" where
  "free_var d st =
     (case vars st d of
        Some (OutString _) \<Rightarrow> Some (st\<lparr>vars := (vars st)(d := None)\<rparr>)
      | Some (OutWide _) \<Rightarrow> Some (st\<lparr>vars := (vars st)(d := None)\<rparr>)
      | Some (OutBytes _) \<Rightarrow> Some (st\<lparr>vars := (vars st)(d := None)\<rparr>)
      | _ \<Rightarrow> None)"

definition release_var :: "nat \<Rightarrow> 'd decomp_state \<Rightarrow> 'd decomp_state option" where
  "release_var d st =
     (case vars st d of
        Some (OutValue p) \<Rightarrow> map_option (\<lambda>st'. st'\<lparr>vars := (vars st')(d := None)\<rparr>) (drop_value p st)
      | _ \<Rightarrow> None)"

fun in_turn :: "('s \<Rightarrow> 's option) list \<Rightarrow> 's \<Rightarrow> 's option" where
  "in_turn [] s = Some s"
| "in_turn (f # fs) s = Option.bind (f s) (in_turn fs)"

fun releaseDecomposition :: "decomp \<Rightarrow> 'd decomp_state \<Rightarrow> 'd decomp_state option" where
  "releaseDecomposition (DDatetime8 d) = free_var d"
| "releaseDecomposition (DString d s) = free_var d"
| "releaseDecomposition (DWideString d s) = free_var d"
| "releaseDecomposition (DBitString d s) = free_var d"
| "releaseDecomposition (DValue d) = release_var d"
| "releaseDecomposition (DArrayVal d) = release_var d"
| "releaseDecomposition (DStructVal d) = release_var d"
| "releaseDecomposition (DArray ds ignoreExcess) = in_turn (map releaseDecomposition ds)"
| "releaseDecomposition (DStruct kds) = in_turn (map (\<lambda>kd. releaseDecomposition (snd kd)) kds)"
| "releaseDecomposition _ = Some"

section \<open>Storing the parts of a value\<close>

definition assign :: "(nat \<times> ('d, nat) out_val) list \<Rightarrow> (unit, 'd) decomp_op" where
  "assign ls st = Some (Inr (), st\<lparr>vars := fold (\<lambda>(d, x) f. f(d \<mapsto> x)) ls (vars st)\<rparr>)"

definition read_into ::
    "nat \<Rightarrow> ('d xvalue \<Rightarrow> 'x result option) \<Rightarrow> ('x \<Rightarrow> (nat \<times> ('d, nat) out_val) list) \<Rightarrow> (unit, 'd) decomp_op" where
  "read_into valueP reader ls =
     hbind (on_dheap (get_body valueP)) (\<lambda>b. hbind (hoption (reader (cell_value b))) (\<lambda>x. assign (ls x)))"

definition readString :: "(nat \<Rightarrow> bool) \<Rightarrow> bool \<Rightarrow> 'd xvalue \<Rightarrow> string result" where
  "readString mok oldstyleMemMgmt v = (if oldstyleMemMgmt then xmlrpc_read_string_old v else xmlrpc_read_string mok v)"

definition readStringLp :: "(nat \<Rightarrow> bool) \<Rightarrow> bool \<Rightarrow> 'd xvalue \<Rightarrow> (nat \<times> string) result" where
  "readStringLp mok oldstyleMemMgmt v = (if oldstyleMemMgmt then xmlrpc_read_string_lp_old v else xmlrpc_read_string_lp mok v)"

definition readStringW :: "(nat \<Rightarrow> bool) \<Rightarrow> bool \<Rightarrow> 'd xvalue \<Rightarrow> int list result" where
  "readStringW mok oldstyleMemMgmt v = (if oldstyleMemMgmt then xmlrpc_read_string_w_old mok v else xmlrpc_read_string_w mok v)"

definition readStringWLp :: "(nat \<Rightarrow> bool) \<Rightarrow> bool \<Rightarrow> 'd xvalue \<Rightarrow> (nat \<times> int list) result" where
  "readStringWLp mok oldstyleMemMgmt v =
     (if oldstyleMemMgmt then xmlrpc_read_string_w_lp_old mok v else xmlrpc_read_string_w_lp mok v)"

text \<open>Only a datetime has a cache, and the old reader asserts that there is one before it looks at the type.\<close>

definition xmlrpc_read_datetime_str_old :: "'d xvalue \<Rightarrow> string result option" where
  "xmlrpc_read_datetime_str_old v =
     (if value_type v \<noteq> TYPE_DATETIME then None else Some (xmlrpc_read_datetime_str v))"

definition readDatetime8Str :: "bool \<Rightarrow> 'd xvalue \<Rightarrow> string result option" where
  "readDatetime8Str oldstyleMemMgmt v =
     (if oldstyleMemMgmt then xmlrpc_read_datetime_str_old v else Some (xmlrpc_read_datetime_str v))"

definition readBase64 :: "(nat \<Rightarrow> bool) \<Rightarrow> bool \<Rightarrow> 'd xvalue \<Rightarrow> (nat \<times> char list) result" where
  "readBase64 mok oldstyleMemMgmt v = (if oldstyleMemMgmt then xmlrpc_read_base64_old v else xmlrpc_read_base64 mok v)"

text \<open>What a node without parts reads of a simple value, and where it goes.\<close>

fun leaf_reads ::
    "(nat \<Rightarrow> bool) \<Rightarrow> bool \<Rightarrow> decomp \<Rightarrow> 'd xvalue \<Rightarrow> (nat \<times> ('d, 'v) out_val) list result option" where
  "leaf_reads mok old DNone v = Some (Inr [])"
| "leaf_reads mok old (DInteger d) v = Some (bindE (xmlrpc_read_int v) (\<lambda>i. Inr [(d, OutInt i)]))"
| "leaf_reads mok old (DBool d) v = Some (bindE (xmlrpc_read_bool v) (\<lambda>b. Inr [(d, OutBool b)]))"
| "leaf_reads mok old (DDouble d) v = Some (bindE (xmlrpc_read_double v) (\<lambda>x. Inr [(d, OutDouble x)]))"
| "leaf_reads mok old (DDatetimeT d) v = Some (bindE (xmlrpc_read_datetime_sec v) (\<lambda>t. Inr [(d, OutTime t)]))"
| "leaf_reads mok old (DDatetime8 d) v = bindO (readDatetime8Str old v) (\<lambda>s. Some (Inr [(d, OutString s)]))"
| "leaf_reads mok old (DString d None) v = Some (bindE (readString mok old v) (\<lambda>s. Inr [(d, OutString s)]))"
| "leaf_reads mok old (DString d (Some n)) v =
     Some (bindE (readStringLp mok old v) (\<lambda>(len, s). Inr [(d, OutString s), (n, OutSize len)]))"
| "leaf_reads mok old (DWideString d None) v = Some (bindE (readStringW mok old v) (\<lambda>s. Inr [(d, OutWide s)]))"
| "leaf_reads mok old (DWideString d (Some n)) v =
     Some (bindE (readStringWLp mok old v) (\<lambda>(len, s). Inr [(d, OutWide s), (n, OutSize len)]))"
| "leaf_reads mok old (DBitString d n) v =
     Some (bindE (readBase64 mok old v) (\<lambda>(len, s). Inr [(d, OutBytes s), (n, OutSize len)]))"
| "leaf_reads mok old DNil v = Some (bindE (xmlrpc_read_nil v) (\<lambda>_. Inr []))"
| "leaf_reads mok old (DI8 d) v = Some (bindE (xmlrpc_read_i8 v) (\<lambda>i. Inr [(d, OutI8 i)]))"
| "leaf_reads mok old (DCptr d) v = Some (bindE (xmlrpc_read_cptr v) (\<lambda>p. Inr [(d, OutPointer p)]))"
| "leaf_reads mok old _ v = None"

definition keep_value :: "bool \<Rightarrow> nat \<Rightarrow> nat \<Rightarrow> (unit, 'd) decomp_op" where
  "keep_value old d valueP =
     hbind (assign [(d, OutValue valueP)]) (\<lambda>_.
       if old then hret () else on_dheap (hstep (xmlrpc_INCREF valueP)))"

definition wrong_type :: "xmlrpc_type \<Rightarrow> string \<Rightarrow> string \<Rightarrow> fault" where
  "wrong_type t spec msg =
     set_fault_formatted XMLRPC_TYPE_ERROR
       [Txt ''Value to be decomposed is of type '', PctS (xmlrpc_type_name t), Txt '', but the '',
        Txt [CHR 0x27], Txt spec, Txt [CHR 0x27], Txt msg]"

definition array_val_fault :: "xmlrpc_type \<Rightarrow> fault" where
  "array_val_fault t = wrong_type t ''A'' '' specifier requires type ARRAY''"
definition struct_val_fault :: "xmlrpc_type \<Rightarrow> fault" where
  "struct_val_fault t = wrong_type t ''S'' '' specifier requires type STRUCT.''"
definition array_fault :: "xmlrpc_type \<Rightarrow> fault" where
  "array_fault t = wrong_type t ''(...)'' '' specifier requires type ARRAY''"
definition struct_fault :: "xmlrpc_type \<Rightarrow> fault" where
  "struct_fault t = wrong_type t ''{...}'' '' specifier requires type STRUCT''"

text \<open>What is wrong with a size, if anything.\<close>

definition item_count_fault :: "nat \<Rightarrow> bool \<Rightarrow> nat \<Rightarrow> fault option" where
  "item_count_fault itemCnt ignoreExcess n =
     (if itemCnt > n
      then Some (set_fault_formatted XMLRPC_INDEX_ERROR
             [Txt ''Format string requests '', PctU itemCnt, Txt '' items from array, but array '',
              Txt ''has only '', PctU n, Txt '' items.''])
      else if itemCnt < n \<and> \<not> ignoreExcess
      then Some (set_fault_formatted XMLRPC_INDEX_ERROR
             [Txt ''Format string requests exactly '', PctU itemCnt, Txt '' items from array, '',
              Txt ''but array has '', PctU n, Txt '' items.  (A '', Txt [CHR 0x27], Txt ''*'', Txt [CHR 0x27],
              Txt '' at the end would avoid '', Txt ''this failure)''])
      else None)"

definition validateArraySize :: "nat \<Rightarrow> bool \<Rightarrow> nat \<Rightarrow> (unit, 'd) heap_op" where
  "validateArraySize itemCnt ignoreExcess arrayP =
     hbind (xmlrpc_array_size arrayP) (\<lambda>size.
       case item_count_fault itemCnt ignoreExcess size of Some f \<Rightarrow> hfail f | None \<Rightarrow> hret ())"

text \<open>
  The items, and the members, one after the other.  When one fails, those that are done are
  released, unless the caller does not own what it is given (the old style).
\<close>

definition release_done :: "bool \<Rightarrow> decomp list \<Rightarrow> 'd decomp_state \<Rightarrow> 'd decomp_state option" where
  "release_done old ds = (if old then Some else in_turn (map releaseDecomposition ds))"

fun parts_in_turn ::
    "bool \<Rightarrow> decomp list \<Rightarrow> (decomp \<times> (nat, 'd) heap_op \<times> (nat \<Rightarrow> (unit, 'd) decomp_op)) list \<Rightarrow> (unit, 'd) decomp_op" where
  "parts_in_turn old ready [] = hret ()"
| "parts_in_turn old ready ((d, fetch, m) # rest) =
     hbind (hcleanup (hbind (on_dheap fetch) (\<lambda>p. hfinally (m p) (drop_value p))) (release_done old ready)) (\<lambda>_.
     parts_in_turn old (ready @ [d]) rest)"

definition parsearray ::
    "bool \<Rightarrow> nat \<Rightarrow> (decomp \<times> (nat \<Rightarrow> (unit, 'd) decomp_op)) list \<Rightarrow> bool \<Rightarrow> (unit, 'd) decomp_op" where
  "parsearray old arrayP items ignoreExcess =
     hbind (on_dheap (validateArraySize (length items) ignoreExcess arrayP)) (\<lambda>_.
     parts_in_turn old [] (map (\<lambda>(i, d, m). (d, xmlrpc_array_read_item arrayP i, m)) (enumerate 0 items)))"

definition parsestruct ::
    "bool \<Rightarrow> nat \<Rightarrow> (string \<times> decomp \<times> (nat \<Rightarrow> (unit, 'd) decomp_op)) list \<Rightarrow> (unit, 'd) decomp_op" where
  "parsestruct old structP mbrs =
     parts_in_turn old [] (map (\<lambda>(key, d, m). (d, xmlrpc_struct_read_value structP key, m)) mbrs)"

fun decomposeValueWithTree :: "(nat \<Rightarrow> bool) \<Rightarrow> bool \<Rightarrow> decomp \<Rightarrow> nat \<Rightarrow> (unit, 'd) decomp_op" where
  "decomposeValueWithTree mok old (DValue d) valueP = keep_value old d valueP"
| "decomposeValueWithTree mok old (DArrayVal d) valueP =
     hbind (on_dheap (get_body valueP)) (\<lambda>b.
       if body_type b \<noteq> TYPE_ARRAY then hfail (array_val_fault (body_type b)) else keep_value old d valueP)"
| "decomposeValueWithTree mok old (DStructVal d) valueP =
     hbind (on_dheap (get_body valueP)) (\<lambda>b.
       if body_type b \<noteq> TYPE_STRUCT then hfail (struct_val_fault (body_type b)) else keep_value old d valueP)"
| "decomposeValueWithTree mok old (DArray ds ignoreExcess) valueP =
     hbind (on_dheap (get_body valueP)) (\<lambda>b.
       if body_type b \<noteq> TYPE_ARRAY then hfail (array_fault (body_type b))
       else parsearray old valueP (map (\<lambda>d. (d, decomposeValueWithTree mok old d)) ds) ignoreExcess)"
| "decomposeValueWithTree mok old (DStruct kds) valueP =
     hbind (on_dheap (get_body valueP)) (\<lambda>b.
       if body_type b \<noteq> TYPE_STRUCT then hfail (struct_fault (body_type b))
       else parsestruct old valueP (map (\<lambda>kd. (fst kd, snd kd, decomposeValueWithTree mok old (snd kd))) kds))"
| "decomposeValueWithTree mok old DNone valueP = hret ()"
| "decomposeValueWithTree mok old node valueP = read_into valueP (leaf_reads mok old node) id"

definition decomposeValue ::
    "(nat \<Rightarrow> bool) \<Rightarrow> bool \<Rightarrow> string \<Rightarrow> 'd va_arg list \<Rightarrow> nat \<Rightarrow> (unit, 'd) decomp_op" where
  "decomposeValue mok old fmt arguments valueP st =
     (case createDecompTree mok fmt \<lparr>bheap = dheap st, format = fmt @ [NUL], args = arguments\<rparr> of
        None \<Rightarrow> None
      | Some (Inl f, _) \<Rightarrow> Some (Inl f, st)
      | Some (Inr decompRootP, _) \<Rightarrow> decomposeValueWithTree mok old decompRootP valueP st)"

definition xmlrpc_decompose_value ::
    "(nat \<Rightarrow> bool) \<Rightarrow> string \<Rightarrow> 'd va_arg list \<Rightarrow> nat \<Rightarrow> (unit, 'd) decomp_op" where
  "xmlrpc_decompose_value mok fmt arguments value = decomposeValue mok False fmt arguments value"

definition xmlrpc_parse_value ::
    "(nat \<Rightarrow> bool) \<Rightarrow> string \<Rightarrow> 'd va_arg list \<Rightarrow> nat \<Rightarrow> (unit, 'd) decomp_op" where
  "xmlrpc_parse_value mok fmt arguments value = decomposeValue mok True fmt arguments value"

section \<open>The format string of a tree\<close>

fun decomp_format :: "decomp \<Rightarrow> string" where
  "decomp_format DNone = ''-''"
| "decomp_format (DInteger _) = ''i''"
| "decomp_format (DBool _) = ''b''"
| "decomp_format (DDouble _) = ''d''"
| "decomp_format (DDatetimeT _) = ''t''"
| "decomp_format (DDatetime8 _) = ''8''"
| "decomp_format (DString _ s) = (if s = None then ''s'' else ''s#'')"
| "decomp_format (DWideString _ s) = (if s = None then ''w'' else ''w#'')"
| "decomp_format (DBitString _ _) = ''6''"
| "decomp_format DNil = ''n''"
| "decomp_format (DI8 _) = ''I''"
| "decomp_format (DCptr _) = ''p''"
| "decomp_format (DValue _) = ''V''"
| "decomp_format (DArrayVal _) = ''A''"
| "decomp_format (DStructVal _) = ''S''"
| "decomp_format (DArray ds ignoreExcess) =
     ''('' @ concat (map decomp_format ds) @ (if ignoreExcess then ''*'' else []) @ '')''"
| "decomp_format (DStruct kds) = ''{'' @ concat (map (\<lambda>kd. ''s:'' @ decomp_format (snd kd) @ '','') kds) @ ''*}''"

fun dests :: "decomp \<Rightarrow> nat list" where
  "dests (DInteger d) = [d]"
| "dests (DBool d) = [d]"
| "dests (DDouble d) = [d]"
| "dests (DDatetimeT d) = [d]"
| "dests (DDatetime8 d) = [d]"
| "dests (DString d s) = d # (case s of None \<Rightarrow> [] | Some n \<Rightarrow> [n])"
| "dests (DWideString d s) = d # (case s of None \<Rightarrow> [] | Some n \<Rightarrow> [n])"
| "dests (DBitString d n) = [d, n]"
| "dests (DI8 d) = [d]"
| "dests (DCptr d) = [d]"
| "dests (DValue d) = [d]"
| "dests (DArrayVal d) = [d]"
| "dests (DStructVal d) = [d]"
| "dests (DArray ds _) = concat (map dests ds)"
| "dests (DStruct kds) = concat (map (\<lambda>kd. dests (snd kd)) kds)"
| "dests _ = []"

fun decomp_args :: "decomp \<Rightarrow> 'd va_arg list" where
  "decomp_args (DArray ds _) = concat (map decomp_args ds)"
| "decomp_args (DStruct kds) = concat (map (\<lambda>kd. VaString (fst kd) # decomp_args (snd kd)) kds)"
| "decomp_args node = map VaDest (dests node)"

fun decomp_ok :: "decomp \<Rightarrow> bool" where
  "decomp_ok (DArray ds _) \<longleftrightarrow> list_all decomp_ok ds \<and> length ds \<le> MAX_DECOMP"
| "decomp_ok (DStruct kds) \<longleftrightarrow> list_all (\<lambda>kd. decomp_ok (snd kd)) kds \<and> length kds \<le> MAX_DECOMP"
| "decomp_ok _ \<longleftrightarrow> True"

lemma ret_dest [simp]:
  "hbind next_dest k (at_state h r (VaDest d # as)) = k d (at_state h r as)"
  "hbind next_key k' (at_state h r (VaString s # as)) = k' s (at_state h r as)"
  by (simp_all add: next_dest_def next_key_def hbind_def next_arg_def hret_def)

lemma hret_bind [simp]: "hbind (hret x) k = k x"
  by (simp add: hbind_def hret_def fun_eq_iff)

lemma size_dest_read [simp]:
  "hbind size_dest k (at_state h (CHR ''#'' # r) (VaDest d # as)) = k (Some d) (at_state h r as)"
  "c \<noteq> CHR ''#'' \<Longrightarrow> hbind size_dest k (at_state h (c # r) as) = k None (at_state h (c # r) as)"
  by (simp_all add: size_dest_def hbind_def look_def skip_def next_dest_def next_arg_def hret_def)

lemma decomp_format_start:
  "\<exists>c r. decomp_format d = c # r \<and> c \<notin> {NUL, CHR '')'', CHR ''}'', CHR ''*'', CHR ''#''}"
  by (cases d) auto

definition reads_node :: "(decomp, 'd) build_op \<Rightarrow> decomp \<Rightarrow> bool" where
  "reads_node get d \<longleftrightarrow>
     (\<forall>h c r as. c \<noteq> CHR ''#'' \<longrightarrow> get (at_state h (decomp_format d @ c # r) (decomp_args d @ as)) = Some (Inr d, at_state h (c # r) as))"

lemma reads_nodeD:
  "reads_node get d \<Longrightarrow> hd r \<noteq> CHR ''#'' \<Longrightarrow> r \<noteq> [] \<Longrightarrow>
   get (at_state h (decomp_format d @ r) (decomp_args d @ as)) = Some (Inr d, at_state h r as)"
  unfolding reads_node_def by (cases r) auto

lemma after_fault_success: "m st = Some (Inr x, st') \<Longrightarrow> hbind (look_after_fault m) k st = k x st'"
  by (simp add: look_after_fault_def hbind_def)

definition ends_items :: "char \<Rightarrow> char \<Rightarrow> bool" where
  "ends_items delim c \<longleftrightarrow> c = delim \<or> c = CHR ''*''"

lemma array_branch_loop_format:
  assumes "\<And>d. d \<in> set ds \<Longrightarrow> reads_node get d" "length ds < n" "length items + length ds \<le> MAX_DECOMP"
    "ends_items (CHR '')'') c"
  shows "array_branch_loop n get (CHR '')'') items (at_state h (concat (map decomp_format ds) @ c # r) (concat (map decomp_args ds) @ as)) =
    Some (Inr (items @ ds), at_state h (c # r) as)"
  using assms
proof (induction ds arbitrary: n items)
  case Nil
  then obtain m where "n = Suc m" by (cases n) auto
  then show ?case using Nil(4) by (auto simp: hret_def ends_items_def)
next
  case (Cons d ds)
  then obtain m where n: "n = Suc m" by (cases n) auto
  let ?rest = "concat (map decomp_format ds) @ c # r"
  obtain c' w where w: "decomp_format d = c' # w" "c' \<notin> {NUL, CHR '')'', CHR ''}'', CHR ''*'', CHR ''#''}"
    using decomp_format_start by blast
  have "hd ?rest \<noteq> CHR ''#''"
  proof (cases ds)
    case Nil
    then show ?thesis using Cons.prems(4) by (auto simp: ends_items_def)
  next
    case (Cons d' ds')
    then show ?thesis using decomp_format_start [of d'] by auto
  qed
  then have "get (at_state h (decomp_format d @ ?rest) (decomp_args d @ concat (map decomp_args ds) @ as)) =
      Some (Inr d, at_state h ?rest (concat (map decomp_args ds) @ as))"
    using Cons.prems(1) by (intro reads_nodeD) auto
  note step = after_fault_success [of get, OF this]
  have "array_branch_loop n get (CHR '')'') items
      (at_state h (concat (map decomp_format (d # ds)) @ c # r) (concat (map decomp_args (d # ds)) @ as)) =
    array_branch_loop m get (CHR '')'') (items @ [d]) (at_state h ?rest (concat (map decomp_args ds) @ as))"
    using w step [of "\<lambda>i. array_branch_loop m get (CHR '')'') (items @ [i])"] Cons.prems(3) by (simp add: n)
  also have "\<dots> = Some (Inr ((items @ [d]) @ ds), at_state h (c # r) as)"
    using Cons.prems n by (intro Cons.IH) auto
  finally show ?case by simp
qed

lemma struct_branch_loop_format:
  assumes "\<And>kd. kd \<in> set kds \<Longrightarrow> reads_node get (snd kd)" "length kds < n" "length mbrs + length kds \<le> MAX_DECOMP"
  shows "struct_branch_loop n get (CHR ''}'') mbrs
      (at_state h (concat (map (\<lambda>kd. ''s:'' @ decomp_format (snd kd) @ '','') kds) @ CHR ''*'' # r)
         (concat (map (\<lambda>kd. VaString (fst kd) # decomp_args (snd kd)) kds) @ as)) =
    Some (Inr (mbrs @ kds), at_state h (CHR ''*'' # r) as)"
  using assms
proof (induction kds arbitrary: n mbrs)
  case Nil
  then obtain m where "n = Suc m" by (cases n) auto
  then show ?case by (simp add: hret_def)
next
  case (Cons kd kds)
  then obtain m where n: "n = Suc m" by (cases n) auto
  let ?rest = "concat (map (\<lambda>kd. ''s:'' @ decomp_format (snd kd) @ '','') kds) @ CHR ''*'' # r"
  let ?as = "concat (map (\<lambda>kd. VaString (fst kd) # decomp_args (snd kd)) kds) @ as"
  have "get (at_state h (decomp_format (snd kd) @ CHR '','' # ?rest) (decomp_args (snd kd) @ ?as)) =
      Some (Inr (snd kd), at_state h (CHR '','' # ?rest) ?as)"
    using Cons.prems(1) by (intro reads_nodeD) auto
  then have "doStructValue get (at_state h (decomp_format (snd kd) @ CHR '','' # ?rest) (VaString (fst kd) # decomp_args (snd kd) @ ?as)) =
      Some (Inr kd, at_state h (CHR '','' # ?rest) ?as)"
    by (simp add: doStructValue_def) (simp add: hbind_def hret_def)
  then have "then_skipComma (CHR ''}'') (doStructValue get)
        (at_state h (decomp_format (snd kd) @ CHR '','' # ?rest) (VaString (fst kd) # decomp_args (snd kd) @ ?as)) =
      Some (Inr kd, at_state h ?rest ?as)"
    by (simp add: then_skipComma_def skipComma_def) (simp add: skip_def)
  then have member: "hbind skip (\<lambda>_. hbind (skipColon (CHR ''}'')) (\<lambda>_. hbind skip (\<lambda>_. then_skipComma (CHR ''}'') (doStructValue get))))
        (at_state h (''s:'' @ decomp_format (snd kd) @ CHR '','' # ?rest) (VaString (fst kd) # decomp_args (snd kd) @ ?as)) =
      Some (Inr kd, at_state h ?rest ?as)"
    by (simp add: skipColon_def hbind_def [of "hbind look _"]) (simp add: hret_def)
  note step = after_fault_success [where m = "hbind skip (\<lambda>_. hbind (skipColon (CHR ''}'')) (\<lambda>_. hbind skip (\<lambda>_. then_skipComma (CHR ''}'') (doStructValue get))))",
      OF member, of "\<lambda>m'. struct_branch_loop m get (CHR ''}'') (mbrs @ [m'])"]
  have "struct_branch_loop n get (CHR ''}'') mbrs
      (at_state h (concat (map (\<lambda>kd. ''s:'' @ decomp_format (snd kd) @ '','') (kd # kds)) @ CHR ''*'' # r)
         (concat (map (\<lambda>kd. VaString (fst kd) # decomp_args (snd kd)) (kd # kds)) @ as)) =
    struct_branch_loop m get (CHR ''}'') (mbrs @ [kd]) (at_state h ?rest ?as)"
    using step Cons.prems(3) by (simp add: n)
  also have "\<dots> = Some (Inr ((mbrs @ [kd]) @ kds), at_state h (CHR ''*'' # r) as)"
    using Cons.prems n by (intro Cons.IH) auto
  finally show ?case by simp
qed

fun is_leaf :: "decomp \<Rightarrow> bool" where
  "is_leaf (DArray _ _) = False"
| "is_leaf (DStruct _) = False"
| "is_leaf _ = True"

lemma node_of_leaf:
  assumes "is_leaf d" "c \<noteq> CHR ''#''"
  shows "node_of_format m get (hd (decomp_format d)) (at_state h (tl (decomp_format d) @ c # r) (decomp_args d @ as)) =
    Some (Inr d, at_state h (c # r) as)"
proof (cases d)
  case (DString p s)
  then show ?thesis using assms(2) by (cases s) (simp_all add: node_of_format_def, simp_all add: hret_def)
next
  case (DWideString p s)
  then show ?thesis using assms(2) by (cases s) (simp_all add: node_of_format_def buildWideStringNode_def, simp_all add: hret_def)
qed (use assms in \<open>simp_all add: node_of_format_def, simp_all add: hret_def\<close>)

lemma leaf_node:
  assumes "is_leaf d" "mok SIZEOF_DECOMP_NODE" "length (decomp_format d) \<le> n"
  shows "reads_node (createDecompTreeNext n mok) d"
proof -
  obtain c' w where w: "decomp_format d = c' # w" using decomp_format_start [of d] by blast
  with assms(3) obtain m where n: "n = Suc m" by (cases n) auto
  show ?thesis
    using assms(2) by (simp add: reads_node_def n w node_of_leaf [OF assms(1), unfolded w list.sel])
qed

lemma createDecompTreeNext_format:
  "decomp_ok d \<Longrightarrow> mok SIZEOF_DECOMP_NODE \<Longrightarrow> length (decomp_format d) \<le> n \<Longrightarrow> reads_node (createDecompTreeNext n mok :: (decomp, 'd) build_op) d"
proof (induction d arbitrary: n)
  case (DArray ds ex)
  from DArray.prems obtain m where n: "n = Suc m" by (cases n) auto
  have len: "length (decomp_format d) \<le> m" if "d \<in> set ds" for d
  proof -
    have "length (decomp_format d) \<le> length (concat (map decomp_format ds))"
      using that by (auto simp: in_set_conv_decomp)
    then show ?thesis using DArray.prems(3) n by simp
  qed
  have "length ds \<le> length (concat (map decomp_format ds))"
  proof (induction ds)
    case (Cons d ds)
    then show ?case using decomp_format_start [of d] by auto
  qed simp
  then have count: "length ds < m" using DArray.prems(3) n by simp
  have items: "reads_node (createDecompTreeNext m mok :: (decomp, 'd) build_op) d" if "d \<in> set ds" for d
    using DArray.IH [OF that _ DArray.prems(2) len [OF that]] DArray.prems(1) that by (simp add: list_all_iff)
  have loop: "array_branch_loop m (createDecompTreeNext m mok) (CHR '')'') [] (at_state h (concat (map decomp_format ds) @ c # r) (concat (map decomp_args ds) @ as)) =
      Some (Inr ds, at_state h (c # r) as)" if "ends_items (CHR '')'') c" for h :: "'d heap" and c r as
    using array_branch_loop_format [OF items count _ that, of "[]"] DArray.prems(1) by simp
  show ?case
  proof (cases ex)
    case True
    have "buildArrayDecompBranch m (createDecompTreeNext m mok) (CHR '')'')
        (at_state h (concat (map decomp_format ds) @ CHR ''*'' # CHR '')'' # r) (concat (map decomp_args ds) @ as)) =
      Some (Inr (DArray ds ex), at_state h (CHR '')'' # r) as)" for h :: "'d heap" and r as
      unfolding buildArrayDecompBranch_def hbind_def [of "array_branch_loop _ _ _ _"]
      by (simp add: loop ends_items_def processArraySpecTail_def hbind_def [of "hbind look _"]) (simp add: hret_def True)
    then show ?thesis
      using DArray.prems(2) True
      by (simp add: reads_node_def n node_of_format_def hfinally_def step_past_def) (simp add: skip_def)
  next
    case False
    have "buildArrayDecompBranch m (createDecompTreeNext m mok) (CHR '')'')
        (at_state h (concat (map decomp_format ds) @ CHR '')'' # r) (concat (map decomp_args ds) @ as)) =
      Some (Inr (DArray ds ex), at_state h (CHR '')'' # r) as)" for h :: "'d heap" and r as
      unfolding buildArrayDecompBranch_def hbind_def [of "array_branch_loop _ _ _ _"]
      by (simp add: loop ends_items_def processArraySpecTail_def hbind_def [of "hbind look _"]) (simp add: hret_def False)
    then show ?thesis
      using DArray.prems(2) False
      by (simp add: reads_node_def n node_of_format_def hfinally_def step_past_def) (simp add: skip_def)
  qed
next
  case (DStruct kds)
  from DStruct.prems obtain m where n: "n = Suc m" by (cases n) auto
  have len: "length (decomp_format (snd kd)) \<le> m" if "kd \<in> set kds" for kd
  proof -
    have "length (decomp_format (snd kd)) \<le> length (concat (map (\<lambda>kd. ''s:'' @ decomp_format (snd kd) @ '','') kds))"
      using that by (auto simp: in_set_conv_decomp)
    then show ?thesis using DStruct.prems(3) n by simp
  qed
  have "length kds \<le> length (concat (map (\<lambda>kd. ''s:'' @ decomp_format (snd kd) @ '','') kds))"
    by (induction kds) auto
  then have count: "length kds < m" using DStruct.prems(3) n by simp
  have items: "reads_node (createDecompTreeNext m mok :: (decomp, 'd) build_op) (snd kd)" if "kd \<in> set kds" for kd
    using DStruct.IH [OF that _ _ DStruct.prems(2) len [OF that]] DStruct.prems(1) that
    by (auto simp: list_all_iff snds.simps)
  have loop: "struct_branch_loop m (createDecompTreeNext m mok) (CHR ''}'') []
        (at_state h (concat (map (\<lambda>kd. ''s:'' @ decomp_format (snd kd) @ '','') kds) @ CHR ''*'' # r)
           (concat (map (\<lambda>kd. VaString (fst kd) # decomp_args (snd kd)) kds) @ as)) =
      Some (Inr kds, at_state h (CHR ''*'' # r) as)" for h :: "'d heap" and r as
    using struct_branch_loop_format [OF items count, of "[]"] DStruct.prems(1) by simp
  have "buildStructDecompBranch m (createDecompTreeNext m mok) (CHR ''}'')
      (at_state h (concat (map (\<lambda>kd. ''s:'' @ decomp_format (snd kd) @ '','') kds) @ CHR ''*'' # CHR ''}'' # r)
         (concat (map (\<lambda>kd. VaString (fst kd) # decomp_args (snd kd)) kds) @ as)) =
    Some (Inr (DStruct kds), at_state h (CHR ''}'' # r) as)" for h :: "'d heap" and r as
    unfolding buildStructDecompBranch_def hbind_def [of "struct_branch_loop _ _ _ _"]
    using loop [of h "CHR ''}'' # r" as]
    by (simp add: skipAsterisk_def hbind_def [of "hbind look _"]) (simp add: hret_def)
  then show ?case
    using DStruct.prems(2)
    by (simp add: reads_node_def n node_of_format_def hfinally_def step_past_def) (simp add: skip_def)
qed (auto intro: leaf_node)

lemma createDecompTree_format:
  assumes "decomp_ok d" "mok SIZEOF_DECOMP_NODE"
  shows "createDecompTree mok (decomp_format d) (at_state h (decomp_format d @ [NUL]) (decomp_args d)) =
    Some (Inr d, at_state h [NUL] [])"
proof -
  have "createDecompTreeNext (length (decomp_format d) + 1) mok (at_state h (decomp_format d @ [NUL]) (decomp_args d @ [])) =
      Some (Inr d, at_state h [NUL] [])"
    by (intro reads_nodeD createDecompTreeNext_format assms) auto
  then show ?thesis by (simp add: createDecompTree_def hbind_def hret_def del: createDecompTreeNext.simps)
qed

section \<open>What the decomposition of a value gives\<close>

fun collect :: "'a list result option list \<Rightarrow> 'a list result option" where
  "collect [] = Some (Inr [])"
| "collect (r # rs) = bindO r (\<lambda>xs. bindO (collect rs) (\<lambda>ys. Some (Inr (xs @ ys))))"

text \<open>The values for the variables of the caller, or the fault, from the value as a tree.\<close>

fun decomposed :: "(nat \<Rightarrow> bool) \<Rightarrow> decomp \<Rightarrow> 'd xvalue \<Rightarrow> (nat \<times> ('d, 'd xvalue) out_val) list result option" where
  "decomposed mok (DValue d) v = Some (Inr [(d, OutValue v)])"
| "decomposed mok (DArrayVal d) v =
     Some (if value_type v \<noteq> TYPE_ARRAY then Inl (array_val_fault (value_type v)) else Inr [(d, OutValue v)])"
| "decomposed mok (DStructVal d) v =
     Some (if value_type v \<noteq> TYPE_STRUCT then Inl (struct_val_fault (value_type v)) else Inr [(d, OutValue v)])"
| "decomposed mok (DArray ds ignoreExcess) v =
     (case v of
        XArray vs \<Rightarrow>
          if 2 ^ 31 \<le> length vs then None
          else (case item_count_fault (length ds) ignoreExcess (length vs) of
                  Some f \<Rightarrow> Some (Inl f)
                | None \<Rightarrow> collect (map (\<lambda>(f, w). f w) (zip (map (decomposed mok) ds) vs)))
      | _ \<Rightarrow> Some (Inl (array_fault (value_type v))))"
| "decomposed mok (DStruct kds) v =
     (case v of
        XStruct kvs \<Rightarrow>
          collect (map (\<lambda>(key, f). case map_of kvs (c_str key) of None \<Rightarrow> Some (Inl (no_member key)) | Some w \<Rightarrow> f w)
            (map (\<lambda>kd. (fst kd, decomposed mok (snd kd))) kds))
      | _ \<Rightarrow> Some (Inl (struct_fault (value_type v))))"
| "decomposed mok node v = leaf_reads mok False node v"

subsection \<open>Counts above those of a heap\<close>

definition bump :: "nat multiset \<Rightarrow> 'd heap \<Rightarrow> 'd heap" where
  "bump M h = h\<lparr>cells := (\<lambda>p. map_option (\<lambda>c. c\<lparr>refcount := refcount c + count M p\<rparr>) (cells h p))\<rparr>"

lemma bump_empty [simp]: "bump {#} h = h"
  by (simp add: bump_def option.map_ident)

lemma bump_simps [simp]:
  "dom (cells (bump M h)) = dom (cells h)" "body_at (bump M h) = body_at h" "fresh (bump M h) = fresh h"
  "dtor_calls (bump M h) = dtor_calls h" "key_string (bump M h) = key_string h"
  by (auto simp: bump_def body_at_def key_string_def fun_eq_iff option.map_comp comp_def split: option.splits)

lemma rc_bump: "p \<in> dom (cells h) \<Longrightarrow> rc (bump M h) p = rc h p + count M p"
  by (auto simp: rc_def bump_def)

lemma bump_cell: "cells h p = Some c \<Longrightarrow> cells (bump M h) p = Some (c\<lparr>refcount := refcount c + count M p\<rparr>)"
  by (simp add: bump_def)

lemma set_refcount_bump:
  assumes "cells h p = Some c"
  shows "set_refcount p (refcount c + count M p + 1) (bump M h) = bump (add_mset p M) h"
    "set_refcount p (refcount c + count M p) (bump (add_mset p M) h) = bump M h"
  using assms by (auto simp: set_refcount_def set_cell_def bump_def fun_eq_iff)

lemma INCREF_bump:
  assumes "cells h p = Some c" "0 < refcount c" "refcount c + count M p + 1 < 2 ^ 32"
  shows "xmlrpc_INCREF p (bump M h) = Some (bump (add_mset p M) h)"
  using assms set_refcount_bump(1) [OF assms(1), of M] by (simp add: xmlrpc_INCREF_def bump_cell)

lemma DECREF_bump:
  assumes "cells h p = Some c" "0 < refcount c"
  shows "xmlrpc_DECREF p (bump (add_mset p M) h) = Some (bump M h)"
  using assms set_refcount_bump(2) [OF assms(1), of M] by (simp add: xmlrpc_DECREF_destroyValue bump_cell)

lemma get_body_bump:
  "cells h p = Some c \<Longrightarrow> hbind (get_body p) k (bump M h) = k (body c) (bump M h)"
  by (simp add: hbind_def get_body_def bump_cell)

text \<open>\<open>n\<close> more references can be counted.\<close>

definition room :: "'d heap \<Rightarrow> nat \<Rightarrow> bool" where
  "room h n \<longleftrightarrow> (\<forall>p. rc h p + n < 2 ^ 32)"

lemma INCREF_room:
  assumes "heap_ok h {} E" "p \<in> dom (cells h)" "room h (Suc (size M))"
  shows "xmlrpc_INCREF p (bump M h) = Some (bump (add_mset p M) h)"
proof -
  obtain c where c: "cells h p = Some c" using assms(2) by blast
  moreover have "0 < rc h p" using heap_okD(5) [OF assms(1), of p] assms(2) by simp
  moreover have "rc h p + Suc (size M) < 2 ^ 32" using assms(3) unfolding room_def by blast
  moreover have "count M p \<le> size M" by (rule count_le_size)
  ultimately have "refcount c + count M p + 1 < 2 ^ 32" "0 < refcount c" by (simp_all add: rc_def)
  then show ?thesis by (intro INCREF_bump [OF c])
qed

lemma DECREF_live:
  assumes "heap_ok h {} E" "p \<in> dom (cells h)"
  shows "xmlrpc_DECREF p (bump (add_mset p M) h) = Some (bump M h)"
proof -
  obtain c where c: "cells h p = Some c" using assms(2) by blast
  moreover have "0 < rc h p" using heap_okD(5) [OF assms(1), of p] assms(2) by simp
  ultimately show ?thesis by (intro DECREF_bump) (simp_all add: rc_def)
qed

subsection \<open>Parts of a value\<close>

lemma read_item_bump:
  assumes ok: "heap_ok h {} E" and p: "repr h p (XArray vs)" and room: "room h (Suc (size M))"
  shows "i < length vs \<Longrightarrow> \<exists>q. xmlrpc_array_read_item p i (bump M h) = Some (Inr q, bump (add_mset q M) h) \<and> repr h q (vs ! i)"
    "validateArraySize n ex p (bump M h) =
       (if 2 ^ 31 \<le> length vs then None
        else case item_count_fault n ex (length vs) of Some f \<Rightarrow> Some (Inl f, bump M h) | None \<Rightarrow> Some (Inr (), bump M h))"
proof -
  obtain b where b: "body_at h p = Some (ArrayBody b)" "list_all2 (repr h) (block_data SIZEOF_VALUE_PTR b) vs"
    by (rule repr_array_body [OF p])
  obtain c where c: "cells h p = Some c" "body c = ArrayBody b" using b(1) by (auto simp: body_at_def)
  have "body_ok h (ArrayBody b)" using heap_okD(5) [OF ok, of p] c b(1) by auto
  then have len: "mem_block_size SIZEOF_VALUE_PTR b = length vs"
    using list_all2_lengthD [OF b(2)] by (simp add: block_ready_def length_block_data mem_block_size_def)
  {
    assume i: "i < length vs"
    let ?q = "block_data SIZEOF_VALUE_PTR b ! i"
    have q: "repr h ?q (vs ! i)" using list_all2_nthD2 [OF b(2) i] .
    have "xmlrpc_array_read_item p i (bump M h) = Some (Inr ?q, bump (add_mset ?q M) h)"
      using INCREF_room [OF ok repr_live [OF q] room] i len
      by (simp add: xmlrpc_array_read_item_def get_body_bump [OF c(1)] c(2) Let_def)
        (simp add: hbind_def hstep_def hret_def)
    with q show "\<exists>q. xmlrpc_array_read_item p i (bump M h) = Some (Inr q, bump (add_mset q M) h) \<and> repr h q (vs ! i)"
      by blast
  }
  show "validateArraySize n ex p (bump M h) =
       (if 2 ^ 31 \<le> length vs then None
        else case item_count_fault n ex (length vs) of Some f \<Rightarrow> Some (Inl f, bump M h) | None \<Rightarrow> Some (Inr (), bump M h))"
  proof -
    have "xmlrpc_array_size p (bump M h) = (if 2 ^ 31 \<le> length vs then None else Some (Inr (length vs), bump M h))"
      unfolding xmlrpc_array_size_def get_body_bump [OF c(1)] by (simp add: c(2) len Let_def hret_def)
    then show ?thesis
      by (simp add: validateArraySize_def hbind_def hret_def hfail_def split: option.split)
  qed
qed

lemma find_from_bump: "find_from (bump M h) x key i ms = find_from h x key i ms"
  by (induction ms arbitrary: i) (simp_all split: option.split)

lemma struct_read_value_bump:
  assumes ok: "heap_ok h {} E" and p: "repr h p (XStruct kvs)" and room: "room h (Suc (size M))"
  shows "case map_of kvs (c_str key) of
      None \<Rightarrow> xmlrpc_struct_read_value p key (bump M h) = Some (Inl (no_member key), bump M h)
    | Some v \<Rightarrow> \<exists>q. xmlrpc_struct_read_value p key (bump M h) = Some (Inr q, bump (add_mset q M) h) \<and> repr h q v"
proof -
  obtain b where b: "body_at h p = Some (StructBody b)"
      "list_all2 (member_repr h) (block_data SIZEOF_STRUCT_MEMBER b) kvs"
    using p by (rule repr_structE) auto
  obtain c where c: "cells h p = Some c" "body c = StructBody b" using b(1) by (auto simp: body_at_def)
  let ?ms = "block_data SIZEOF_STRUCT_MEMBER b" and ?key = "c_str key"
  let ?P = "\<lambda>m. key_string h (mkey m) = Some ?key"
  have "body_ok h (StructBody b)" using heap_okD(5) [OF ok, of p] c b(1) by auto
  note found = findMember_spec [OF this, of ?key]
  have same: "findMember b ?key (bump M h) = map_option (\<lambda>(r, _). (r, bump M h)) (findMember b ?key h)"
    by (simp add: findMember_def find_from_bump option.map_comp comp_def)
  have op: "xmlrpc_struct_read_value p key (bump M h) =
      hbind (member_value b ?key) (\<lambda>r. case r of Some p \<Rightarrow> hret p | None \<Rightarrow> hfail (no_member key)) (bump M h)"
    unfolding xmlrpc_struct_read_value_def xmlrpc_struct_find_value_def hbind_def [of "hbind _ _"] get_body_bump [OF c(1)] c(2)
    by (simp add: hbind_def)
  note rel = find_member_repr [OF b(2), of ?key]
  show ?thesis
  proof (cases "find (\<lambda>kv. fst kv = ?key) kvs")
    case None
    then have "find ?P ?ms = None" using rel by (simp add: option_rel_Some2)
    then have "findMember b ?key (bump M h) = Some (Inr None, bump M h)" using found by (simp add: member_map_def same)
    then show ?thesis using None by (simp add: map_of_find op member_value_def hbind_def hret_def hfail_def)
  next
    case (Some kv)
    then obtain m where m: "find ?P ?ms = Some m" "m \<in> set ?ms" "repr h (mvalue m) (snd kv)"
      using rel by (auto simp: option_rel_Some2)
    let ?i = "length (takeWhile (\<lambda>m. \<not> ?P m) ?ms)"
    have i: "findMember b ?key (bump M h) = Some (Inr (Some ?i), bump M h)" using found m(1) by (simp add: member_map_def same)
    have "find ?P ?ms \<noteq> None" using m(1) by simp
    then have "\<exists>m \<in> set ?ms. ?P m" unfolding find_None_iff by blast
    then have at: "?ms ! ?i = m" using length_takeWhile_nth(3) [of ?ms ?P] m(1) by simp
    have "xmlrpc_struct_read_value p key (bump M h) = Some (Inr (mvalue m), bump (add_mset (mvalue m) M) h)"
      using i INCREF_room [OF ok repr_live [OF m(3)] room] at
      by (simp add: op member_value_def hbind_def hret_def hstep_def Let_def)
    then show ?thesis using Some m(3) by (auto simp: map_of_find)
  qed
qed

subsection \<open>The decomposition against its specification\<close>

fun value_out :: "nat \<times> ('d, nat) out_val \<Rightarrow> nat list" where
  "value_out (d, OutValue p) = [p]"
| "value_out _ = []"

definition taken :: "(nat \<times> ('d, nat) out_val) list \<Rightarrow> nat multiset" where
  "taken ls = mset (concat (map value_out ls))"

lemma taken_simps [simp]: "taken [] = {#}" "taken (xs @ ys) = taken xs + taken ys" "taken (x # xs) = mset (value_out x) + taken xs"
  by (simp_all add: taken_def)

abbreviation outs_repr :: "'d heap \<Rightarrow> (nat \<times> ('d, nat) out_val) list \<Rightarrow> (nat \<times> ('d, 'd xvalue) out_val) list \<Rightarrow> bool" where
  "outs_repr h \<equiv> list_all2 (rel_prod (=) (rel_out_val (=) (repr h)))"

definition holds :: "(nat \<times> ('d, nat) out_val) list \<Rightarrow> (nat \<Rightarrow> ('d, nat) out_val option) \<Rightarrow> bool" where
  "holds ls s \<longleftrightarrow> (\<forall>(d, x) \<in> set ls. s d = Some x)"

definition same_off :: "nat list \<Rightarrow> (nat \<Rightarrow> 'x) \<Rightarrow> (nat \<Rightarrow> 'x) \<Rightarrow> bool" where
  "same_off ds s s' \<longleftrightarrow> (\<forall>d. d \<notin> set ds \<longrightarrow> s' d = s d)"

lemma holds_simps [simp]: "holds [] s" "holds (ls @ ls') s \<longleftrightarrow> holds ls s \<and> holds ls' s"
  by (auto simp: holds_def)

lemma holds_off: "holds ls s \<Longrightarrow> same_off ds s s' \<Longrightarrow> set ds \<inter> set (map fst ls) = {} \<Longrightarrow> holds ls s'"
  unfolding holds_def same_off_def by fastforce

lemma same_off_trans: "same_off ds s1 s2 \<Longrightarrow> same_off ds' s2 s3 \<Longrightarrow> same_off (ds @ ds') s1 s3"
  by (simp add: same_off_def)

lemma same_off_more: "same_off ds s s' \<Longrightarrow> set ds \<subseteq> set ds' \<Longrightarrow> same_off ds' s s'"
  by (auto simp: same_off_def)

lemma same_off_refl: "same_off ds s s"
  by (simp add: same_off_def)

definition assigned :: "(nat \<times> 'x) list \<Rightarrow> (nat \<Rightarrow> 'x option) \<Rightarrow> nat \<Rightarrow> 'x option" where
  "assigned ls s = fold (\<lambda>(d, x) f. f(d \<mapsto> x)) ls s"

lemma assigned_simps [simp]:
  "assigned [] s = s" "assigned ((d, x) # ls) s = assigned ls (s(d \<mapsto> x))" "assigned (ls @ ls') s = assigned ls' (assigned ls s)"
  by (simp_all add: assigned_def)

lemma assigned_off: "same_off (map fst ls) s (assigned ls s)"
  by (induction ls arbitrary: s) (auto simp: same_off_def)

lemma assigned_holds: "distinct (map fst ls) \<Longrightarrow> holds ls (assigned ls s)"
proof (induction ls arbitrary: s)
  case (Cons l ls)
  then have "assigned ls (s(fst l \<mapsto> snd l)) (fst l) = Some (snd l)"
    using assigned_off [of ls "s(fst l \<mapsto> snd l)"] by (auto simp: same_off_def)
  with Cons show ?case by (cases l) (auto simp: holds_def)
qed simp

text \<open>What was stored can be given back.\<close>

definition released_by ::
    "'d heap \<Rightarrow> ('d decomp_state \<Rightarrow> 'd decomp_state option) \<Rightarrow> nat list \<Rightarrow> (nat \<times> ('d, nat) out_val) list \<Rightarrow> bool" where
  "released_by h f ds ls \<longleftrightarrow>
     (\<forall>M s. holds ls s \<longrightarrow>
        (\<exists>s'. f \<lparr>dheap = bump (M + taken ls) h, vars = s\<rparr> = Some \<lparr>dheap = bump M h, vars = s'\<rparr> \<and> same_off ds s s'))"

lemma released_append:
  assumes "released_by h f ds ls" "released_by h g ds' ls'" "map fst ls' = ds'" "set ds \<inter> set ds' = {}"
  shows "released_by h (\<lambda>s. Option.bind (f s) g) (ds @ ds') (ls @ ls')"
  unfolding released_by_def
proof (intro allI impI)
  fix M s assume "holds (ls @ ls') s"
  then have holds: "holds ls s" "holds ls' s" by simp_all
  obtain s1 where s1: "f \<lparr>dheap = bump ((M + taken ls') + taken ls) h, vars = s\<rparr> = Some \<lparr>dheap = bump (M + taken ls') h, vars = s1\<rparr>"
      "same_off ds s s1"
    using assms(1) holds(1) unfolding released_by_def by blast
  have "holds ls' s1" by (rule holds_off [OF holds(2) s1(2)]) (use assms(3,4) in auto)
  then obtain s2 where s2: "g \<lparr>dheap = bump (M + taken ls') h, vars = s1\<rparr> = Some \<lparr>dheap = bump M h, vars = s2\<rparr>" "same_off ds' s1 s2"
    using assms(2) unfolding released_by_def by blast
  show "\<exists>s'. Option.bind (f \<lparr>dheap = bump (M + taken (ls @ ls')) h, vars = s\<rparr>) g = Some \<lparr>dheap = bump M h, vars = s'\<rparr> \<and>
      same_off (ds @ ds') s s'"
    using s1 s2 same_off_trans [OF s1(2) s2(2)] by (auto simp: ac_simps)
qed

lemma in_turn_single: "in_turn [f] = f"
  by (simp add: fun_eq_iff in_turn.simps(1) [abs_def])

lemma in_turn_append: "in_turn (fs @ gs) s = Option.bind (in_turn fs s) (in_turn gs)"
proof (induction fs arbitrary: s)
  case (Cons f fs)
  then show ?case by (cases "f s") simp_all
qed simp

text \<open>A step against its specification, on a heap with some counts raised: it keeps the heap after
  a fault, and after success it has raised the counts of the values it stored.\<close>

definition decomposes ::
    "'d heap \<Rightarrow> nat multiset \<Rightarrow> nat list \<Rightarrow> nat \<Rightarrow> ('d decomp_state \<Rightarrow> 'd decomp_state option) \<Rightarrow> 'd decomp_state \<Rightarrow>
     (unit result \<times> 'd decomp_state) option \<Rightarrow> (nat \<times> ('d, 'd xvalue) out_val) list result option \<Rightarrow> bool" where
  "decomposes h M ds n undo st out spec \<longleftrightarrow>
     (case out of
        None \<Rightarrow> spec = None
      | Some (Inl f, st') \<Rightarrow> spec = Some (Inl f) \<and> dheap st' = bump M h \<and> same_off ds (vars st) (vars st')
      | Some (Inr _, st') \<Rightarrow>
          (\<exists>ls os. spec = Some (Inr os) \<and> outs_repr h ls os \<and> map fst ls = ds \<and> size (taken ls) \<le> n \<and>
             dheap st' = bump (M + taken ls) h \<and> vars st' = assigned ls (vars st) \<and> released_by h undo ds ls))"

fun decomp_size :: "decomp \<Rightarrow> nat" where
  "decomp_size (DArray ds _) = 1 + sum_list (map decomp_size ds)"
| "decomp_size (DStruct kds) = 1 + sum_list (map (\<lambda>kd. decomp_size (snd kd)) kds)"
| "decomp_size _ = 1"

subsection \<open>Simple values\<close>

lemmas reader_defs = xmlrpc_read_int_def xmlrpc_read_bool_def xmlrpc_read_double_def xmlrpc_read_i8_def xmlrpc_read_cptr_def
  xmlrpc_read_nil_def xmlrpc_read_datetime_sec_def xmlrpc_read_datetime_usec_def readDatetime8Str_def xmlrpc_read_datetime_str_def
  readString_def readStringLp_def readStringW_def readStringWLp_def readBase64_def
  xmlrpc_read_string_def xmlrpc_read_string_lp_def xmlrpc_read_string_w_def xmlrpc_read_string_w_lp_def xmlrpc_read_base64_def
  accessStringValue_def accessStringValueW_def

fun reads_simple :: "decomp \<Rightarrow> bool" where
  "reads_simple (DValue _) = False"
| "reads_simple (DArrayVal _) = False"
| "reads_simple (DStructVal _) = False"
| "reads_simple (DArray _ _) = False"
| "reads_simple (DStruct _) = False"
| "reads_simple _ = True"

lemma leaf_reads_container:
  assumes "value_type v \<in> {TYPE_ARRAY, TYPE_STRUCT}" "value_type w = value_type v" "reads_simple node"
  shows "leaf_reads mok False node v = leaf_reads mok False node w"
  using assms
  by (cases "(mok, False, node, v)" rule: leaf_reads.cases)
    (auto simp: reader_defs validateType_def validateStringType_def validateDatetimeType_def)

lemma leaf_decomposes:
  assumes "reads_simple node"
  shows "decomposes h M (dests node) 0 (releaseDecomposition node) \<lparr>dheap = bump M h, vars = s\<rparr>
    (hbind (hoption (leaf_reads mok False node v)) (\<lambda>x. assign (id x)) \<lparr>dheap = bump M h, vars = s\<rparr>)
    (leaf_reads mok False node v)"
proof (cases "leaf_reads mok False node v :: (nat \<times> ('a, nat) out_val) list result option")
  case None
  then have "leaf_reads mok False node v = (None :: (nat \<times> ('a, 'a xvalue) out_val) list result option)"
    by (cases "(mok, False, node, v)" rule: leaf_reads.cases) (use assms in \<open>auto simp: bindO_def split: option.splits sum.splits\<close>)
  with None show ?thesis by (simp add: decomposes_def hbind_def hoption_def)
next
  case (Some r)
  show ?thesis
  proof (cases r)
    case (Inl f)
    then have "leaf_reads mok False node v = (Some (Inl f) :: (nat \<times> ('a, 'a xvalue) out_val) list result option)"
      using Some by (cases "(mok, False, node, v)" rule: leaf_reads.cases)
        (use assms in \<open>auto simp: bindO_def bindE_def split: option.splits sum.splits\<close>)
    with Some Inl show ?thesis by (simp add: decomposes_def hbind_def hoption_def same_off_refl)
  next
    case (Inr ls)
    then have "\<exists>os. leaf_reads mok False node v = (Some (Inr os) :: (nat \<times> ('a, 'a xvalue) out_val) list result option) \<and>
        outs_repr h ls os \<and> map fst ls = dests node \<and> taken ls = {#} \<and> released_by h (releaseDecomposition node) (dests node) ls"
      using Some
      by (cases "(mok, False, node, v)" rule: leaf_reads.cases)
        (use assms in \<open>auto simp: bindO_def bindE_def released_by_def holds_def same_off_def free_var_def split: option.splits sum.splits\<close>)
    with Some Inr show ?thesis
      by (auto simp: decomposes_def hbind_def hoption_def assign_def assigned_def intro!: exI [of _ ls])
  qed
qed

lemma read_into_decomposes:
  assumes "reads_simple node" "repr h p v"
  shows "decomposes h M (dests node) 0 (releaseDecomposition node) \<lparr>dheap = bump M h, vars = s\<rparr>
    (read_into p (leaf_reads mok False node) id \<lparr>dheap = bump M h, vars = s\<rparr>) (leaf_reads mok False node v)"
proof -
  obtain c where c: "cells h p = Some c" "value_type (cell_value (body c)) = value_type v"
      "value_type v \<notin> {TYPE_ARRAY, TYPE_STRUCT} \<Longrightarrow> cell_value (body c) = v"
    by (rule repr_cell_value [OF assms(2)]; (rule that; blast))
  have same: "leaf_reads mok False node (cell_value (body c)) = (leaf_reads mok False node v :: (nat \<times> ('a, 'x) out_val) list result option)"
  proof (cases "value_type v \<in> {TYPE_ARRAY, TYPE_STRUCT}")
    case True
    then show ?thesis using leaf_reads_container [OF _ _ assms(1)] c(2) by metis
  qed (simp add: c(3))
  have "read_into p (leaf_reads mok False node) id \<lparr>dheap = bump M h, vars = s\<rparr> =
      hbind (hoption (leaf_reads mok False node v)) (\<lambda>x. assign (id x)) \<lparr>dheap = bump M h, vars = s\<rparr>"
    unfolding read_into_def hbind_def [of "on_dheap _"] on_dheap_def
    by (simp add: get_body_def bump_cell [OF c(1)] same)
  then show ?thesis using leaf_decomposes [OF assms(1)] by metis
qed

subsection \<open>Parts in turn\<close>

lemma decomposes_cases:
  assumes "decomposes h M ds n undo st out spec"
  obtains (undefined) "out = None" "spec = None"
  | (fault) f s where "out = Some (Inl f, \<lparr>dheap = bump M h, vars = s\<rparr>)" "spec = Some (Inl f)" "same_off ds (vars st) s"
  | (success) ls os where "out = Some (Inr (), \<lparr>dheap = bump (M + taken ls) h, vars = assigned ls (vars st)\<rparr>)" "spec = Some (Inr os)"
      "outs_repr h ls os" "map fst ls = ds" "size (taken ls) \<le> n" "released_by h undo ds ls"
proof (cases out)
  case None
  then show ?thesis using assms undefined by (simp add: decomposes_def)
next
  case (Some o')
  obtain r st' where o': "o' = (r, st')" by force
  obtain h' s' where st': "st' = \<lparr>dheap = h', vars = s'\<rparr>" by (cases st')
  show ?thesis
  proof (cases r)
    case (Inl f)
    then show ?thesis using assms fault [of f s'] Some o' st' by (simp add: decomposes_def)
  next
    case (Inr u)
    then show ?thesis using assms success Some o' st' by (fastforce simp: decomposes_def)
  qed
qed

lemma room_less: "room h n \<Longrightarrow> m \<le> n \<Longrightarrow> room h m"
  unfolding room_def by (meson add_le_cancel_left le_less_trans)

lemma fetched_decomposes:
  assumes ok: "heap_ok h {} E" and q: "q \<in> dom (cells h)"
    and fetch: "fetch (bump M h) = Some (Inr q, bump (add_mset q M) h)"
    and m: "decomposes h (add_mset q M) ds n undo \<lparr>dheap = bump (add_mset q M) h, vars = s\<rparr>
      (m q \<lparr>dheap = bump (add_mset q M) h, vars = s\<rparr>) spec"
  shows "decomposes h M ds n undo \<lparr>dheap = bump M h, vars = s\<rparr>
    (hbind (on_dheap fetch) (\<lambda>p. hfinally (m p) (drop_value p)) \<lparr>dheap = bump M h, vars = s\<rparr>) spec"
proof -
  have run: "hbind (on_dheap fetch) (\<lambda>p. hfinally (m p) (drop_value p)) \<lparr>dheap = bump M h, vars = s\<rparr> =
      hfinally (m q) (drop_value q) \<lparr>dheap = bump (add_mset q M) h, vars = s\<rparr>"
    by (simp add: hbind_def on_dheap_def fetch)
  show ?thesis
    using m
  proof (cases rule: decomposes_cases)
    case undefined
    then show ?thesis
      unfolding run by (simp add: decomposes_def hfinally_def)
  next
    case (fault f s')
    then show ?thesis
      unfolding run using DECREF_live [OF ok q, of M] by (simp add: decomposes_def hfinally_def drop_value_def)
  next
    case (success ls os)
    then show ?thesis
      unfolding run using DECREF_live [OF ok q, of "M + taken ls"]
      by (auto simp: decomposes_def hfinally_def drop_value_def intro!: exI [of _ ls])
  qed
qed

definition part_ok ::
    "'d heap \<Rightarrow> decomp \<times> (nat, 'd) heap_op \<times> (nat \<Rightarrow> (unit, 'd) decomp_op) \<Rightarrow>
     (nat \<times> ('d, 'd xvalue) out_val) list result option \<Rightarrow> bool" where
  "part_ok h part r \<longleftrightarrow>
     (case part of (d, fetch, m) \<Rightarrow>
        \<forall>M s. room h (size M + Suc (decomp_size d)) \<longrightarrow>
          decomposes h M (dests d) (decomp_size d) (releaseDecomposition d) \<lparr>dheap = bump M h, vars = s\<rparr>
            (hbind (on_dheap fetch) (\<lambda>p. hfinally (m p) (drop_value p)) \<lparr>dheap = bump M h, vars = s\<rparr>) r)"

lemma parts_decompose:
  fixes h :: "'d heap"
  assumes "list_all2 (part_ok h) parts rs"
    "distinct (concat (map dests (ready @ map fst parts)))"
    "released_by h (in_turn (map releaseDecomposition ready)) (concat (map dests ready)) ls0"
    "map fst ls0 = concat (map dests ready)" "holds ls0 s"
    "room h (size M + size (taken ls0) + Suc (sum_list (map (\<lambda>part. decomp_size (fst part)) parts)))"
  shows "case parts_in_turn False ready parts \<lparr>dheap = bump (M + taken ls0) h, vars = s\<rparr> of
      None \<Rightarrow> collect rs = None
    | Some (Inl f, st') \<Rightarrow> collect rs = Some (Inl f) \<and> dheap st' = bump M h \<and>
        same_off (concat (map dests (ready @ map fst parts))) s (vars st')
    | Some (Inr _, st') \<Rightarrow>
        (\<exists>ls os. collect rs = Some (Inr os) \<and> outs_repr h ls os \<and> map fst ls = concat (map dests (map fst parts)) \<and>
           size (taken ls) \<le> sum_list (map (\<lambda>part. decomp_size (fst part)) parts) \<and>
           dheap st' = bump (M + taken (ls0 @ ls)) h \<and> vars st' = assigned ls s \<and>
           released_by h (in_turn (map releaseDecomposition (ready @ map fst parts)))
             (concat (map dests (ready @ map fst parts))) (ls0 @ ls))"
  using assms
proof (induction parts rs arbitrary: ready ls0 s rule: list_all2_induct)
  case Nil
  then show ?case by (simp add: hret_def)
next
  case (Cons part parts r rs)
  obtain d fetch m where part: "part = (d, fetch, m)" by (cases part)
  let ?st = "\<lparr>dheap = bump (M + taken ls0) h, vars = s\<rparr>"
  let ?step = "hbind (on_dheap fetch) (\<lambda>p. hfinally (m p) (drop_value p))"
  have "room h (size (M + taken ls0) + Suc (decomp_size d))"
    by (rule room_less [OF Cons.prems(5)]) (simp add: part)
  then have step: "decomposes h (M + taken ls0) (dests d) (decomp_size d) (releaseDecomposition d) ?st (?step ?st) r"
    using Cons.hyps(1) unfolding part_ok_def part prod.case by blast
  have disj: "set (concat (map dests ready)) \<inter> set (dests d) = {}" using Cons.prems(1) by (auto simp: part)
  have run: "parts_in_turn False ready (part # parts) ?st =
      hbind (hcleanup ?step (release_done False ready)) (\<lambda>_. parts_in_turn False (ready @ [d]) parts) ?st"
    by (simp add: part)
  show ?case
    using step
  proof (cases rule: decomposes_cases)
    case undefined
    then show ?thesis unfolding run by (simp add: hbind_def [of "hcleanup _ _"] hcleanup_def)
  next
    case (fault f s1)
    have "holds ls0 s1"
      by (rule holds_off [OF Cons.prems(4)]) (use fault(3) disj Cons.prems(3) in auto)
    then obtain s2 where "in_turn (map releaseDecomposition ready) \<lparr>dheap = bump (M + taken ls0) h, vars = s1\<rparr> =
        Some \<lparr>dheap = bump M h, vars = s2\<rparr>" "same_off (concat (map dests ready)) s1 s2"
      using Cons.prems(2) unfolding released_by_def by blast
    moreover from fault(3) this(2) have "same_off (concat (map dests (ready @ map fst (part # parts)))) s s2"
      by (auto simp: same_off_def part)
    ultimately show ?thesis
      unfolding run using fault(1,2) by (simp add: hbind_def [of "hcleanup _ _"] hcleanup_def release_done_def)
  next
    case (success ls1 os1)
    have run1: "parts_in_turn False ready (part # parts) ?st =
        parts_in_turn False (ready @ [d]) parts \<lparr>dheap = bump (M + taken (ls0 @ ls1)) h, vars = assigned ls1 s\<rparr>"
      unfolding run using success(1) by (simp add: hbind_def [of "hcleanup _ _"] hcleanup_def ac_simps)
    have dist: "distinct (map fst ls1)" using success(4) Cons.prems(1) by (simp add: part)
    have off: "same_off (dests d) s (assigned ls1 s)" using assigned_off [of ls1 s] success(4) by simp
    have holds: "holds (ls0 @ ls1) (assigned ls1 s)"
      using assigned_holds [OF dist] holds_off [OF Cons.prems(4) off] disj Cons.prems(3) by auto
    have undone: "released_by h (in_turn (map releaseDecomposition (ready @ [d]))) (concat (map dests (ready @ [d]))) (ls0 @ ls1)"
    proof -
      have "in_turn (map releaseDecomposition (ready @ [d])) = (\<lambda>s :: 'd decomp_state. Option.bind (in_turn (map releaseDecomposition ready) s) (releaseDecomposition d))"
        by (simp add: fun_eq_iff in_turn_append in_turn_single del: in_turn.simps)
      then have "released_by h (in_turn (map releaseDecomposition (ready @ [d]))) (concat (map dests ready) @ dests d) (ls0 @ ls1)"
        using released_append [OF Cons.prems(2) success(6,4) disj] by (simp only:)
      then show ?thesis by simp
    qed
    have spec: "collect (r # rs) = bindO (collect rs) (\<lambda>ys. Some (Inr (os1 @ ys)))" by (simp add: success(2))
    have "room h (size M + size (taken (ls0 @ ls1)) + Suc (sum_list (map (\<lambda>part. decomp_size (fst part)) parts)))"
      by (rule room_less [OF Cons.prems(5)]) (use success(5) in \<open>simp add: part\<close>)
    from Cons.IH [OF _ undone _ holds this] Cons.prems(1,3) success(4)
    have rest: "case parts_in_turn False (ready @ [d]) parts \<lparr>dheap = bump (M + taken (ls0 @ ls1)) h, vars = assigned ls1 s\<rparr> of
        None \<Rightarrow> collect rs = None
      | Some (Inl f, st') \<Rightarrow> collect rs = Some (Inl f) \<and> dheap st' = bump M h \<and>
          same_off (concat (map dests ((ready @ [d]) @ map fst parts))) (assigned ls1 s) (vars st')
      | Some (Inr _, st') \<Rightarrow>
          (\<exists>ls os. collect rs = Some (Inr os) \<and> outs_repr h ls os \<and> map fst ls = concat (map dests (map fst parts)) \<and>
             size (taken ls) \<le> sum_list (map (\<lambda>part. decomp_size (fst part)) parts) \<and>
             dheap st' = bump (M + taken ((ls0 @ ls1) @ ls)) h \<and> vars st' = assigned ls (assigned ls1 s) \<and>
             released_by h (in_turn (map releaseDecomposition ((ready @ [d]) @ map fst parts)))
               (concat (map dests ((ready @ [d]) @ map fst parts))) ((ls0 @ ls1) @ ls))"
      by (simp add: part)
    show ?thesis
    proof (cases "parts_in_turn False (ready @ [d]) parts \<lparr>dheap = bump (M + taken (ls0 @ ls1)) h, vars = assigned ls1 s\<rparr>")
      case None
      then show ?thesis using rest spec by (simp add: run1)
    next
      case (Some out)
      obtain r' st' where out: "out = (r', st')" by force
      show ?thesis
      proof (cases r')
        case (Inl f)
        have "same_off (concat (map dests (ready @ map fst (part # parts)))) s (vars st')"
          if "same_off (concat (map dests ((ready @ [d]) @ map fst parts))) (assigned ls1 s) (vars st')"
          using that off by (simp add: same_off_def part)
        then show ?thesis using rest spec Some out Inl by (simp add: run1)
      next
        case (Inr u)
        then obtain ls os where ls: "collect rs = Some (Inr os)" "outs_repr h ls os" "map fst ls = concat (map dests (map fst parts))"
            "size (taken ls) \<le> sum_list (map (\<lambda>part. decomp_size (fst part)) parts)"
            "dheap st' = bump (M + taken ((ls0 @ ls1) @ ls)) h" "vars st' = assigned ls (assigned ls1 s)"
            "released_by h (in_turn (map releaseDecomposition ((ready @ [d]) @ map fst parts)))
               (concat (map dests ((ready @ [d]) @ map fst parts))) ((ls0 @ ls1) @ ls)"
          using rest Some out by auto
        show ?thesis
          unfolding run1 Some out Inr option.case prod.case sum.case
        proof (intro exI conjI)
          show "collect (r # rs) = Some (Inr (os1 @ os))" using spec ls(1) by simp
          show "outs_repr h (ls1 @ ls) (os1 @ os)" using success(3) ls(2) by (rule list_all2_appendI)
        qed (use ls success in \<open>simp_all add: part\<close>)
      qed
    qed
  qed
qed

subsection \<open>All of a value\<close>

lemma keep_value_decomposes:
  fixes h :: "'d heap"
  assumes "heap_ok h {} E" "repr h p v" "room h (Suc (size M))" "(releaseDecomposition node :: 'd decomp_state \<Rightarrow> _) = release_var d"
  shows "decomposes h M [d] 1 (releaseDecomposition node) \<lparr>dheap = bump M h, vars = s\<rparr>
    (keep_value False d p \<lparr>dheap = bump M h, vars = s\<rparr>) (Some (Inr [(d, OutValue v)]))"
proof -
  have live: "p \<in> dom (cells h)" by (rule repr_live [OF assms(2)])
  have "released_by h (releaseDecomposition node) [d] [(d, OutValue p)]"
    unfolding released_by_def assms(4)
  proof (intro allI impI)
    fix M :: "nat multiset" and s :: "nat \<Rightarrow> ('d, nat) out_val option"
    assume "holds [(d, OutValue p)] s"
    then show "\<exists>s'. release_var d \<lparr>dheap = bump (M + taken [(d, OutValue p)]) h, vars = s\<rparr> =
        Some \<lparr>dheap = bump M h, vars = s'\<rparr> \<and> same_off [d] s s'"
      using DECREF_live [OF assms(1) live, of M] by (simp add: release_var_def drop_value_def holds_def same_off_def)
  qed
  then show ?thesis
    using INCREF_room [OF assms(1) live assms(3)] assms(2)
    by (auto simp: decomposes_def keep_value_def hbind_def assign_def on_dheap_def hstep_def intro!: exI [of _ "[(d, OutValue p)]"])
qed

lemma get_dheap_body:
  "cells h p = Some c \<Longrightarrow> hbind (on_dheap (get_body p)) k \<lparr>dheap = bump M h, vars = s\<rparr> = k (body c) \<lparr>dheap = bump M h, vars = s\<rparr>"
  by (simp add: hbind_def on_dheap_def get_body_def bump_cell)

lemma fault_decomposes:
  "decomposes h M ds n undo \<lparr>dheap = bump M h, vars = s\<rparr> (hfail f \<lparr>dheap = bump M h, vars = s\<rparr>) (Some (Inl f))"
  by (simp add: decomposes_def hfail_def same_off_refl)

lemma parts_decomposes:
  assumes "list_all2 (part_ok h) parts rs" "distinct (concat (map dests (map fst parts)))"
    "room h (size M + Suc (sum_list (map (\<lambda>part. decomp_size (fst part)) parts)))"
    "undo = in_turn (map releaseDecomposition (map fst parts))" "ds = concat (map dests (map fst parts))"
    "n = Suc (sum_list (map (\<lambda>part. decomp_size (fst part)) parts))"
  shows "decomposes h M ds n undo \<lparr>dheap = bump M h, vars = s\<rparr>
    (parts_in_turn False [] parts \<lparr>dheap = bump M h, vars = s\<rparr>) (collect rs)"
proof -
  have none: "released_by h (in_turn []) [] []" by (simp add: released_by_def same_off_def)
  show ?thesis
    using parts_decompose [OF assms(1), of "[]" "[]" s M] assms(2,3) none
    by (auto simp: decomposes_def assms(4-6) split: option.splits sum.splits) (metis le_SucI)+
qed

lemma decomposes_more: "decomposes h M ds n undo st out spec \<Longrightarrow> n \<le> n' \<Longrightarrow> decomposes h M ds n' undo st out spec"
  by (fastforce simp: decomposes_def split: option.splits sum.splits)

lemma part_ok_fault:
  assumes "\<And>M. room h (Suc (size M)) \<Longrightarrow> fetch (bump M h) = Some (Inl f, bump M h)"
  shows "part_ok h (d, fetch, m) (Some (Inl f))"
  unfolding part_ok_def prod.case
proof (intro allI impI)
  fix M :: "nat multiset" and s :: "nat \<Rightarrow> ('a, nat) out_val option"
  assume "room h (size M + Suc (decomp_size d))"
  then have "room h (Suc (size M))" by (rule room_less) simp
  then show "decomposes h M (dests d) (decomp_size d) (releaseDecomposition d) \<lparr>dheap = bump M h, vars = s\<rparr>
      (hbind (on_dheap fetch) (\<lambda>p. hfinally (m p) (drop_value p)) \<lparr>dheap = bump M h, vars = s\<rparr>) (Some (Inl f))"
    by (simp add: assms hbind_def on_dheap_def decomposes_def same_off_refl)
qed

lemma part_ok_value:
  assumes ok: "heap_ok h {} E"
    and fetch: "\<And>M. room h (Suc (size M)) \<Longrightarrow> \<exists>q. fetch (bump M h) = Some (Inr q, bump (add_mset q M) h) \<and> repr h q w"
    and m: "\<And>q M s. repr h q w \<Longrightarrow> room h (size M + decomp_size d) \<Longrightarrow>
      decomposes h M (dests d) (decomp_size d) (releaseDecomposition d) \<lparr>dheap = bump M h, vars = s\<rparr> (m q \<lparr>dheap = bump M h, vars = s\<rparr>) spec"
  shows "part_ok h (d, fetch, m) spec"
  unfolding part_ok_def prod.case
proof (intro allI impI)
  fix M :: "nat multiset" and s :: "nat \<Rightarrow> ('a, nat) out_val option"
  assume room: "room h (size M + Suc (decomp_size d))"
  then have "room h (Suc (size M))" by (rule room_less) simp
  then obtain q where q: "fetch (bump M h) = Some (Inr q, bump (add_mset q M) h)" "repr h q w" using fetch by blast
  show "decomposes h M (dests d) (decomp_size d) (releaseDecomposition d) \<lparr>dheap = bump M h, vars = s\<rparr>
      (hbind (on_dheap fetch) (\<lambda>p. hfinally (m p) (drop_value p)) \<lparr>dheap = bump M h, vars = s\<rparr>) spec"
    by (rule fetched_decomposes [where fetch = fetch, OF ok repr_live [OF q(2)]], rule q(1), rule m [OF q(2)]) (use room in simp)
qed

lemma simple_decomposes:
  assumes "reads_simple d" "repr h p v"
  shows "decomposes h M (dests d) (decomp_size d) (releaseDecomposition d) \<lparr>dheap = bump M h, vars = s\<rparr>
      (decomposeValueWithTree mok False d p \<lparr>dheap = bump M h, vars = s\<rparr>) (decomposed mok d v)"
proof (cases "d = DNone")
  case True
  then show ?thesis by (auto simp: decomposes_def hret_def released_by_def same_off_def intro!: exI [of _ "[]"])
next
  case False
  then have "decomposeValueWithTree mok False d p = (read_into p (leaf_reads mok False d) id :: (unit, 'a) decomp_op)"
      "decomposed mok d v = leaf_reads mok False d v"
    using assms(1) by (cases d; simp add: fun_eq_iff)+
  then show ?thesis using decomposes_more [OF read_into_decomposes [OF assms], of "decomp_size d"] by simp
qed

lemma value_decomposes:
  assumes "heap_ok h {} E"
  shows "repr h p v \<Longrightarrow> distinct (dests d) \<Longrightarrow> room h (size M + decomp_size d) \<Longrightarrow>
    decomposes h M (dests d) (decomp_size d) (releaseDecomposition d) \<lparr>dheap = bump M h, vars = s\<rparr>
      (decomposeValueWithTree mok False d p \<lparr>dheap = bump M h, vars = s\<rparr>) (decomposed mok d v)"
proof (induction d arbitrary: p v M s)
  case (DArray ds ex)
  obtain c where c: "cells h p = Some c" "body_type (body c) = value_type v"
    using DArray.prems(1) by (rule repr_cell_value) blast
  show ?case
  proof (cases "value_type v = TYPE_ARRAY")
    case False
    then have "decomposed mok (DArray ds ex) v = Some (Inl (array_fault (value_type v)))" by (cases v) simp_all
    then show ?thesis using False c by (simp add: get_dheap_body fault_decomposes)
  next
    case True
    then obtain vs where v: "v = XArray vs" by (cases v) simp_all
    let ?items = "map (\<lambda>d. (d, decomposeValueWithTree mok False d)) ds"
    let ?parts = "map (\<lambda>(i, d, m). (d, xmlrpc_array_read_item p i, m)) (enumerate 0 ?items)"
    let ?rs = "map (\<lambda>(f, w). f w) (zip (map (decomposed mok) ds) vs)"
    have room: "room h (Suc (size M))" by (rule room_less [OF DArray.prems(3)]) simp
    note valid = read_item_bump(2) [OF assms DArray.prems(1) [unfolded v] room, of "length ds" ex]
    have run: "decomposeValueWithTree mok False (DArray ds ex) p \<lparr>dheap = bump M h, vars = s\<rparr> =
        parsearray False p ?items ex \<lparr>dheap = bump M h, vars = s\<rparr>"
      using True c by (simp add: get_dheap_body)
    consider "2 ^ 31 \<le> length vs" | f where "length vs < 2 ^ 31" "item_count_fault (length ds) ex (length vs) = Some f"
      | "length vs < 2 ^ 31" "item_count_fault (length ds) ex (length vs) = None" by (meson not_le option.exhaust)
    then show ?thesis
    proof cases
      case 1
      then show ?thesis unfolding run v parsearray_def
        by (simp add: hbind_def [of "on_dheap _"] on_dheap_def valid decomposes_def)
    next
      case (2 f)
      then show ?thesis unfolding run v parsearray_def
        by (simp add: hbind_def [of "on_dheap _"] on_dheap_def valid decomposes_def same_off_refl)
    next
      case 3
      then have len: "length ds \<le> length vs" by (auto simp: item_count_fault_def split: if_splits)
      have parts: "map fst ?parts = ds" by (rule nth_equalityI) (simp_all add: nth_enumerate_eq)
      have sizes: "sum_list (map (\<lambda>part. decomp_size (fst part)) ?parts) = sum_list (map decomp_size ds)"
        using arg_cong [OF parts, of "\<lambda>ds. sum_list (map decomp_size ds)"] by (simp only: map_map comp_def)
      have "list_all2 (part_ok h) ?parts ?rs"
      proof (rule list_all2_all_nthI)
        show "length ?parts = length ?rs" using len by simp
      next
        fix i assume "i < length ?parts"
        then have i: "i < length ds" by simp
        have d: "ds ! i \<in> set ds" using i by simp
        have "distinct (dests (ds ! i))" using DArray.prems(2) d by (auto simp: distinct_concat_iff)
        moreover have "i < length vs" using i len by simp
        ultimately have "part_ok h (ds ! i, xmlrpc_array_read_item p i, decomposeValueWithTree mok False (ds ! i)) (decomposed mok (ds ! i) (vs ! i))"
          using read_item_bump(1) [OF assms DArray.prems(1) [unfolded v]] DArray.IH [OF d]
          by (intro part_ok_value [OF assms]) blast+
        then show "part_ok h (?parts ! i) (?rs ! i)" using i len by (simp add: nth_enumerate_eq)
      qed
      then have "decomposes h M (dests (DArray ds ex)) (decomp_size (DArray ds ex)) (releaseDecomposition (DArray ds ex))
          \<lparr>dheap = bump M h, vars = s\<rparr> (parts_in_turn False [] ?parts \<lparr>dheap = bump M h, vars = s\<rparr>) (collect ?rs)"
        by (rule parts_decomposes) (use DArray.prems(2,3) in \<open>simp_all only: parts sizes dests.simps decomp_size.simps releaseDecomposition.simps, simp_all\<close>)
      then show ?thesis unfolding run v parsearray_def using 3
        by (simp add: hbind_def [of "on_dheap _"] on_dheap_def valid)
    qed
  qed
next
  case (DStruct kds)
  obtain c where c: "cells h p = Some c" "body_type (body c) = value_type v"
    using DStruct.prems(1) by (rule repr_cell_value) blast
  show ?case
  proof (cases "value_type v = TYPE_STRUCT")
    case False
    then have "decomposed mok (DStruct kds) v = Some (Inl (struct_fault (value_type v)))" by (cases v) simp_all
    then show ?thesis using False c by (simp add: get_dheap_body fault_decomposes)
  next
    case True
    then obtain kvs where v: "v = XStruct kvs" by (cases v) simp_all
    let ?parts = "map (\<lambda>kd. (snd kd, xmlrpc_struct_read_value p (fst kd), decomposeValueWithTree mok False (snd kd))) kds"
    let ?r = "\<lambda>kd. case map_of kvs (c_str (fst kd)) of None \<Rightarrow> Some (Inl (no_member (fst kd))) | Some w \<Rightarrow> decomposed mok (snd kd) w"
    have run: "decomposeValueWithTree mok False (DStruct kds) p \<lparr>dheap = bump M h, vars = s\<rparr> =
        parts_in_turn False [] ?parts \<lparr>dheap = bump M h, vars = s\<rparr>"
      using True c by (simp add: get_dheap_body parsestruct_def comp_def)
    have spec: "decomposed mok (DStruct kds) v = collect (map ?r kds)" by (simp add: v comp_def)
    note fetch = struct_read_value_bump [OF assms DStruct.prems(1) [unfolded v]]
    have "part_ok h (snd kd, xmlrpc_struct_read_value p (fst kd), decomposeValueWithTree mok False (snd kd)) (?r kd)"
      if kd: "kd \<in> set kds" for kd
    proof (cases "map_of kvs (c_str (fst kd))")
      case None
      then show ?thesis using fetch [of _ "fst kd"] by (auto intro!: part_ok_fault)
    next
      case (Some w)
      have "distinct (dests (snd kd))" using DStruct.prems(2) kd by (auto simp: distinct_concat_iff)
      then have "part_ok h (snd kd, xmlrpc_struct_read_value p (fst kd), decomposeValueWithTree mok False (snd kd)) (decomposed mok (snd kd) w)"
        using Some fetch [of _ "fst kd"] DStruct.IH [OF kd] by (intro part_ok_value [OF assms]) (auto simp: snds.simps)
      then show ?thesis using Some by simp
    qed
    then have "list_all2 (part_ok h) ?parts (map ?r kds)"
      unfolding list_all2_map1 list_all2_map2 by (intro list.rel_refl_strong)
    then show ?thesis
      unfolding run spec
      by (rule parts_decomposes) (use DStruct.prems(2,3) in \<open>simp_all add: comp_def\<close>)
  qed
next
  case (DValue d)
  have "room h (Suc (size M))" using DValue.prems(3) by simp
  then show ?case using keep_value_decomposes [OF assms DValue.prems(1), of M "DValue d" d s] by simp
next
  case (DArrayVal d)
  obtain c where c: "cells h p = Some c" "body_type (body c) = value_type v"
    using DArrayVal.prems(1) by (rule repr_cell_value) blast
  have "room h (Suc (size M))" using DArrayVal.prems(3) by simp
  then show ?case
    using keep_value_decomposes [OF assms DArrayVal.prems(1), of M "DArrayVal d" d s] c
      fault_decomposes [of h M "[d]" 1 "release_var d" s "array_val_fault (value_type v)"]
    by (simp add: get_dheap_body)
next
  case (DStructVal d)
  obtain c where c: "cells h p = Some c" "body_type (body c) = value_type v"
    using DStructVal.prems(1) by (rule repr_cell_value) blast
  have "room h (Suc (size M))" using DStructVal.prems(3) by simp
  then show ?case
    using keep_value_decomposes [OF assms DStructVal.prems(1), of M "DStructVal d" d s] c
      fault_decomposes [of h M "[d]" 1 "release_var d" s "struct_val_fault (value_type v)"]
    by (simp add: get_dheap_body)
qed (rule simple_decomposes; simp)+

section \<open>What the functions do\<close>

lemma heap_ok_bump:
  assumes ok: "heap_ok h {} E"
  shows "\<forall>p \<in># M. p \<in> dom (cells h) \<Longrightarrow> room h (size M) \<Longrightarrow> heap_ok (bump M h) {} (E + M)"
proof (induction M)
  case empty
  then show ?case using ok by simp
next
  case (add p M)
  have ok': "heap_ok (bump M h) {} (E + M)" using add room_less [OF add.prems(2), of "size M"] by simp
  have p: "p \<in> dom (cells (bump M h)) - {}" using add.prems(1) by simp
  have "rc h p + size (add_mset p M) < 2 ^ 32" using add.prems(2) unfolding room_def by blast
  moreover have "count M p \<le> size M" by (rule count_le_size)
  ultimately have room: "rc (bump M h) p + 1 < 2 ^ 32" using add.prems(1) by (simp add: rc_bump)
  obtain c where c: "cells h p = Some c" using add.prems(1) by auto
  have "set_refcount p (rc (bump M h) p + 1) (bump M h) = bump (add_mset p M) h"
    using set_refcount_bump(1) [OF c, of M] c by (simp add: rc_def bump_cell)
  then show ?case using xmlrpc_INCREF_ok(2) [OF ok' p room] by (simp add: ac_simps)
qed

lemma taken_live:
  assumes "outs_repr h ls os" "p \<in># taken ls"
  shows "p \<in> dom (cells h)"
  using assms
proof (induction ls os rule: list_all2_induct)
  case (Cons l ls x os)
  have "p \<in> dom (cells h)" if "p \<in># mset (value_out l)"
    using Cons.hyps(1) that
    by (cases l; cases x; cases "snd l"; cases "snd x") (auto dest: repr_live simp del: domIff)
  then show ?case using Cons by auto
qed simp

text \<open>C9: \<open>xmlrpc_decompose_value\<close> with the format string and the pointers of a decomposition tree stores
  what the tree says of the value, through distinct pointers, and nothing else; the heap has one
  more reference to each value that was stored.  After a fault the heap is as it was: what was
  stored before is released.\<close>
theorem decompose_value_refines:
  assumes "heap_ok h {} E" "repr h p v" "decomp_ok d" "distinct (dests d)" "room h (decomp_size d)"
    and "mok SIZEOF_DECOMP_NODE"
  shows "case xmlrpc_decompose_value mok (decomp_format d) (decomp_args d) p \<lparr>dheap = h, vars = s\<rparr> of
      None \<Rightarrow> decomposed mok d v = None
    | Some (Inl f, st) \<Rightarrow> decomposed mok d v = Some (Inl f) \<and> dheap st = h \<and> same_off (dests d) s (vars st)
    | Some (Inr _, st) \<Rightarrow>
        (\<exists>ls os. decomposed mok d v = Some (Inr os) \<and> outs_repr h ls os \<and> map fst ls = dests d \<and> holds ls (vars st) \<and>
           same_off (dests d) s (vars st) \<and> heap_ok (dheap st) {} (E + taken ls) \<and> body_at (dheap st) = body_at h)"
proof -
  let ?st = "\<lparr>dheap = h, vars = s\<rparr>"
  have run: "xmlrpc_decompose_value mok (decomp_format d) (decomp_args d) p ?st = decomposeValueWithTree mok False d p ?st"
    by (simp add: createDecompTree_format [OF assms(3), of mok, OF assms(6)] xmlrpc_decompose_value_def decomposeValue_def)
  have "decomposes h {#} (dests d) (decomp_size d) (releaseDecomposition d) ?st (decomposeValueWithTree mok False d p ?st) (decomposed mok d v)"
    using value_decomposes [OF assms(1,2,4), of "{#}" s mok] assms(5) by simp
  then show ?thesis
    unfolding run
  proof (cases rule: decomposes_cases)
    case (success ls os)
    have "room h (size (taken ls))" using room_less [OF assms(5) success(5)] .
    then have "heap_ok (bump (taken ls) h) {} (E + taken ls)"
      using heap_ok_bump [OF assms(1)] taken_live [OF success(3)] by blast
    moreover have "holds ls (assigned ls s)" "same_off (dests d) s (assigned ls s)"
      using assigned_holds [of ls s] assigned_off [of ls s] success(4) assms(4) by simp_all
    ultimately show "case decomposeValueWithTree mok False d p ?st of
      None \<Rightarrow> decomposed mok d v = None
    | Some (Inl f, st) \<Rightarrow> decomposed mok d v = Some (Inl f) \<and> dheap st = h \<and> same_off (dests d) s (vars st)
    | Some (Inr _, st) \<Rightarrow>
        (\<exists>ls os. decomposed mok d v = Some (Inr os) \<and> outs_repr h ls os \<and> map fst ls = dests d \<and> holds ls (vars st) \<and>
           same_off (dests d) s (vars st) \<and> heap_ok (dheap st) {} (E + taken ls) \<and> body_at (dheap st) = body_at h)"
      using success by auto
  qed auto
qed

lemma decompose_value_refines_witness:
  "\<exists>st. xmlrpc_decompose_value always ''(i)'' [VaDest 10] 2 \<lparr>dheap = sample_heap, vars = Map.empty\<rparr> = Some (Inr (), st) \<and>
     vars st 10 = Some (OutInt 7) \<and> heap_ok (dheap st) {} {#2, 3#}"
proof -
  let ?d = "DArray [DInteger 10] False"
  have "repr sample_heap 3 (XInt 7)" by (rule repr_scalar) (simp_all add: sample_heap_facts)
  then have v: "repr sample_heap 2 (XArray [XInt 7])"
    by (intro repr_array [OF sample_heap_facts(4)]) (simp add: block_data_def block_cells_def mem_block_contents_def)
  have room: "room sample_heap (decomp_size ?d)"
    by (auto simp: room_def rc_def sample_heap_def)
  have dec: "decomposed always ?d (XArray [XInt 7] :: unit xvalue) = Some (Inr [(10, OutInt 7)])"
    by (simp add: item_count_fault_def xmlrpc_read_int_def validateType_def)
  have int: "x = OutInt 7" if "rel_out_val (=) (repr sample_heap) x (OutInt 7 :: (unit, unit xvalue) out_val)" for x
    using that by (cases x) simp_all
  have outs: "ls = [(10, OutInt 7)]" if "outs_repr sample_heap ls [(10, OutInt 7)]" for ls
    using that by (auto simp: list_all2_Cons2 dest: int)
  have "decomp_ok ?d" "distinct (dests ?d)" "always SIZEOF_DECOMP_NODE" by (simp_all add: always_def)
  note fact = decompose_value_refines [where mok = always and s = Map.empty, OF sample_heap_ok v this(1,2) room this(3)]
  obtain out where out: "xmlrpc_decompose_value always (decomp_format ?d) (decomp_args ?d) 2 \<lparr>dheap = sample_heap, vars = Map.empty\<rparr> = out"
    by blast
  from fact obtain st ls where "out = Some (Inr (), st)" "outs_repr sample_heap ls [(10, OutInt 7)]" "holds ls (vars st)"
      "heap_ok (dheap st) {} ({#2, 3#} + taken ls)"
    unfolding out dec by (cases out; cases "fst (the out)") (simp_all split: prod.splits, blast)
  with out outs show ?thesis by (force simp: holds_def)
qed

end
