(* ===== verification/Serialize.thy ===== *)
theory Serialize
  imports Strings Base64
begin

text \<open>
  Writing values, calls, responses and faults as XML (\<open>src/xmlrpc_serialize.c\<close>).  The output
  block is passed from step to step; a fault ends the writing.  \<open>fmt\<close> is
  \<open>xmlrpc_formatFloat\<close>, which turns a \<open>double\<close> into its text.
\<close>

section \<open>Writers\<close>

text \<open>What a step of output does to the buffer, and that it goes through while there is room.\<close>

context out_buffer begin

definition writes :: "('b \<Rightarrow> 'e + 'b) \<Rightarrow> 'a list \<Rightarrow> bool" where
  "writes m t \<longleftrightarrow>
     (\<forall>b b'. good b \<longrightarrow> m b = Inr b' \<longrightarrow> good b' \<and> contents b' = contents b @ t)"

lemma writes_append: "writes (\<lambda>b. append b t) t"
  unfolding writes_def
proof (intro allI impI)
  fix b b'
  assume b: "good b" "append b t = Inr b'"
  show "good b' \<and> contents b' = contents b @ t"
    using append_good [OF b] append_contents [OF b] by simp
qed

lemma writes_bind:
  "writes m s \<Longrightarrow> writes k t \<Longrightarrow> writes (\<lambda>b. bindE (m b) k) (s @ t)"
  unfolding writes_def
proof (intro allI impI)
  fix b b'
  assume m: "\<forall>b b'. good b \<longrightarrow> m b = Inr b' \<longrightarrow> good b' \<and> contents b' = contents b @ s"
    and k: "\<forall>b b'. good b \<longrightarrow> k b = Inr b' \<longrightarrow> good b' \<and> contents b' = contents b @ t"
    and b: "good b" "bindE (m b) k = Inr b'"
  obtain b1 where b1: "m b = Inr b1" "k b1 = Inr b'" using b(2) by (cases "m b") simp_all
  have "good b1 \<and> contents b1 = contents b @ s" using m b(1) b1(1) by blast
  moreover from this have "good b' \<and> contents b' = contents b1 @ t" using k b1(2) by blast
  ultimately show "good b' \<and> contents b' = contents b @ s @ t" by simp
qed

lemma writes_after: "(\<And>x. r = Inr x \<Longrightarrow> writes (k x) t) \<Longrightarrow> writes (\<lambda>b. bindE r (\<lambda>x. k x b)) t"
  by (cases r) (auto simp: writes_def)

lemma writes_fail: "writes (\<lambda>b. Inl f) t"
  by (simp add: writes_def)

lemma writes_skip: "writes Inr []"
  by (simp add: writes_def)

lemma writesD: "writes m t \<Longrightarrow> good b \<Longrightarrow> m b = Inr b' \<Longrightarrow> good b' \<and> contents b' = contents b @ t"
  by (simp add: writes_def)

end

context roomy_buffer begin

definition fits :: "('b \<Rightarrow> 'e + 'b) \<Rightarrow> 'a list \<Rightarrow> bool" where
  "fits m t \<longleftrightarrow>
     writes m t \<and> (\<forall>b. good b \<and> length (contents b) + length t \<le> capacity \<longrightarrow> (\<exists>b'. m b = Inr b'))"

lemma fits_append: "fits (\<lambda>b. append b t) t"
  by (simp add: fits_def append_fits writes_append)

lemma fits_bind:
  assumes "fits m s" "fits k t"
  shows "fits (\<lambda>b. bindE (m b) k) (s @ t)"
proof -
  have "\<exists>b'. bindE (m b) k = Inr b'" if b: "good b" "length (contents b) + length (s @ t) \<le> capacity" for b
  proof -
    have "length (contents b) + length s \<le> capacity" using b(2) by simp
    then obtain b1 where b1: "m b = Inr b1" using assms(1) b(1) unfolding fits_def by blast
    then have b1': "good b1 \<and> contents b1 = contents b @ s"
      using assms(1) b(1) unfolding fits_def writes_def by blast
    then have "length (contents b1) + length t \<le> capacity" using b(2) by simp
    then obtain b2 where "k b1 = Inr b2" using assms(2) b1' unfolding fits_def by blast
    with b1 show ?thesis by simp
  qed
  moreover have "writes (\<lambda>b. bindE (m b) k) (s @ t)"
    by (rule writes_bind) (use assms in \<open>simp_all add: fits_def\<close>)
  ultimately show ?thesis by (simp add: fits_def)
qed

lemma fits_after: "r = Inr x \<Longrightarrow> fits (k x) t \<Longrightarrow> fits (\<lambda>b. bindE r (\<lambda>x. k x b)) t"
  by simp

lemma fits_within:
  assumes "length t \<le> capacity \<Longrightarrow> \<exists>x. r = Inr x" "\<And>x. r = Inr x \<Longrightarrow> fits (k x) t"
  shows "fits (\<lambda>b. bindE r (\<lambda>x. k x b)) t"
proof (cases r)
  case (Inl f)
  then have "\<not> length t \<le> capacity" using assms(1) by auto
  with Inl show ?thesis by (simp add: fits_def writes_def)
next
  case (Inr x)
  with assms(2) show ?thesis by simp
qed

lemma fitsD: "fits m t \<Longrightarrow> writes m t"
  by (simp add: fits_def)

lemma fitsE:
  "fits m t \<Longrightarrow> good b \<Longrightarrow> length (contents b) + length t \<le> capacity \<Longrightarrow>
   \<exists>b'. m b = Inr b' \<and> good b' \<and> contents b' = contents b @ t"
  unfolding fits_def writes_def by blast

lemma fits_skip: "fits Inr []"
  by (simp add: fits_def writes_skip)

end

section \<open>Text\<close>

datatype xmlrpc_dialect = Dialect_i8 | Dialect_apache

definition XML_PROLOGUE :: string where
  "XML_PROLOGUE = ''<?xml version='' @ [CHR 0x22] @ ''1.0'' @ [CHR 0x22] @ '' encoding='' @ [CHR 0x22] @
     ''UTF-8'' @ [CHR 0x22] @ ''?>'' @ CRLF"

definition APACHE_URL :: string where
  "APACHE_URL = ''http://ws.apache.org/xmlrpc/namespaces/extensions''"

definition XMLNS_APACHE :: string where
  "XMLNS_APACHE = ''xmlns:ex='' @ [CHR 0x22] @ APACHE_URL @ [CHR 0x22]"

text \<open>A run of the serializer ends with a fault, or is aborted: \<open>Inl None\<close> is a failed assertion or a write
  past the end of a buffer.\<close>

type_synonym 'a run = "fault option + 'a"

definition lift_result :: "'a result \<Rightarrow> 'a run" where
  "lift_result r = map_sum Some id r"

lemma lift_result_simps [simp]:
  "lift_result (Inl f) = Inl (Some f)" "lift_result (Inr x) = Inr x"
  "lift_result r = Inr x \<longleftrightarrow> r = Inr x"
  by (cases r; simp add: lift_result_def)+

lemma lift_result_some: "\<exists>x. r = Inr x \<Longrightarrow> \<exists>x. lift_result r = Inr x"
  by auto

definition append_block :: "(nat \<Rightarrow> bool) \<Rightarrow> char mem_block \<Rightarrow> string \<Rightarrow> char mem_block run" where
  "append_block mok b t = lift_result (mem_block_append mok 1 b t)"

interpretation block_writer: out_buffer "append_block mok" "block_data 1" "grown_block 1" for mok
  by unfold_locales (auto simp: append_block_def mem_block_append_grown)

interpretation block_roomy: roomy_buffer "append_block always" "block_data 1" "grown_block 1" BLOCK_ALLOC_MAX
  by unfold_locales (simp add: append_block_def memblock_roomy.append_fits del: One_nat_def)

definition addString :: "(nat \<Rightarrow> bool) \<Rightarrow> string \<Rightarrow> char mem_block \<Rightarrow> char mem_block run" where
  "addString mok string outputP = append_block mok outputP (c_str string)"

text \<open>The buffer of \<open>formatOut\<close> has 128 characters; a text of 127 or more is taken as an overflow.\<close>

definition formatOut :: "(nat \<Rightarrow> bool) \<Rightarrow> piece list \<Rightarrow> char mem_block \<Rightarrow> char mem_block run" where
  "formatOut mok format outputP =
     (let formatted = vformat format in
      if 128 \<le> length formatted + 1
      then Inl (Some (faultf [Txt ''formatOut() overflowed internal buffer'']))
      else append_block mok outputP formatted)"

fun escapedSize :: "string \<Rightarrow> nat" where
  "escapedSize [] = 0"
| "escapedSize (c # s) =
     (if c = CHR ''<'' then 4 else if c = CHR ''>'' then 4 else if c = CHR ''&'' then 5
      else if c = CR then 6 else 1) + escapedSize s"

fun escape_chars :: "string \<Rightarrow> string" where
  "escape_chars [] = []"
| "escape_chars (c # s) =
     (if c = CHR ''<'' then ''&lt;'' else if c = CHR ''>'' then ''&gt;'' else if c = CHR ''&'' then ''&amp;''
      else if c = CR then ''&#x0d;'' else [c]) @ escape_chars s"

definition escapeForXml :: "(nat \<Rightarrow> bool) \<Rightarrow> string \<Rightarrow> char mem_block result" where
  "escapeForXml mok chars =
     bindE (mem_block_new mok 1 (escapedSize chars)) (\<lambda>outputP.
       Inr (outputP\<lparr>blk_cells := Some (write_cells 0 (escape_chars chars) (mem_block_contents outputP))\<rparr>))"

text \<open>The input is the block of a string value, with the NUL at its end.\<close>

definition serializeUtf8MemBlock ::
    "(nat \<Rightarrow> bool) \<Rightarrow> string \<Rightarrow> char mem_block \<Rightarrow> char mem_block run" where
  "serializeUtf8MemBlock mok input outputP =
     bindE (lift_result (escapeForXml mok (take (length input - 1) input))) (\<lambda>escapedP.
       append_block mok outputP (block_data 1 escapedP))"

definition xmlrpc_serialize_base64_data ::
    "(nat \<Rightarrow> bool) \<Rightarrow> char list \<Rightarrow> char mem_block \<Rightarrow> char mem_block run" where
  "xmlrpc_serialize_base64_data mok data outputP =
     bindE (lift_result (xmlrpc_base64_encode mok data)) (\<lambda>encoded.
       append_block mok outputP (block_data 1 encoded))"

definition datetime_fields :: "xmlrpc_datetime \<Rightarrow> string" where
  "datetime_fields dt =
     dec_digits (dt_Y dt) @ pad_u 2 (dt_M dt) @ pad_u 2 (dt_D dt) @ ''T'' @
     pad_u 2 (dt_h dt) @ '':'' @ pad_u 2 (dt_m dt) @ '':'' @ pad_u 2 (dt_s dt)"

text \<open>
  \<open>snprintf\<close> cuts the text to what fits the buffer with its NUL.  \<open>STRSCAT\<close> lets \<open>strncat\<close> add as many characters as
  the buffer has left and a NUL after them, one too many when the text does not fit.
\<close>

definition DT_STRING_SIZE :: nat where
  "DT_STRING_SIZE = 64"

definition snprintf :: "nat \<Rightarrow> string \<Rightarrow> string" where
  "snprintf n s = take (n - 1) s"

definition STRSCAT :: "nat \<Rightarrow> string \<Rightarrow> string \<Rightarrow> string run" where
  "STRSCAT n a b = (if length a + length b < n then Inr (a @ b) else Inl None)"

definition dt_string :: "xmlrpc_datetime \<Rightarrow> string run" where
  "dt_string dt =
     (let dtString = snprintf DT_STRING_SIZE (datetime_fields dt) in
      if dt_u dt = 0 then Inr dtString
      else if \<not> dt_u dt < 1000000 then Inl None
      else STRSCAT DT_STRING_SIZE dtString (snprintf DT_STRING_SIZE (''.'' @ pad_u 6 (dt_u dt))))"

definition serializeDatetime ::
    "(nat \<Rightarrow> bool) \<Rightarrow> xmlrpc_datetime \<Rightarrow> char mem_block \<Rightarrow> char mem_block run" where
  "serializeDatetime mok dt outputP =
     bindE (addString mok ''<dateTime.iso8601>'' outputP) (\<lambda>o1.
     bindE (dt_string dt) (\<lambda>dtString.
     bindE (addString mok dtString o1)
       (addString mok ''</dateTime.iso8601>'')))"

section \<open>Values\<close>

text \<open>
  The functions for compound values take the writer of an item, so that the recursion stays in one
  place.
\<close>

definition serializeStructMember ::
    "(nat \<Rightarrow> bool) \<Rightarrow> ('v \<Rightarrow> char mem_block \<Rightarrow> char mem_block run) \<Rightarrow>
     char mem_block \<Rightarrow> string \<times> 'v \<Rightarrow> char mem_block run" where
  "serializeStructMember mok serialize outputP kv =
     bindE (addString mok ''<member><name>'' outputP) (\<lambda>o1.
     bindE (serializeUtf8MemBlock mok (fst kv @ [NUL]) o1) (\<lambda>o2.
     bindE (addString mok (''</name>'' @ CRLF) o2) (\<lambda>o3.
     bindE (serialize (snd kv) o3)
       (addString mok (''</member>'' @ CRLF)))))"

definition serializeStruct ::
    "(nat \<Rightarrow> bool) \<Rightarrow> ('v \<Rightarrow> char mem_block \<Rightarrow> char mem_block run) \<Rightarrow>
     (string \<times> 'v) list \<Rightarrow> char mem_block \<Rightarrow> char mem_block run" where
  "serializeStruct mok serialize members outputP =
     bindE (addString mok (''<struct>'' @ CRLF) outputP) (\<lambda>o1.
     bindE (foldE (serializeStructMember mok serialize) o1 members)
       (addString mok ''</struct>''))"

definition serializeArray ::
    "(nat \<Rightarrow> bool) \<Rightarrow> ('v \<Rightarrow> char mem_block \<Rightarrow> char mem_block run) \<Rightarrow>
     'v list \<Rightarrow> char mem_block \<Rightarrow> char mem_block run" where
  "serializeArray mok serialize items outputP =
     bindE (addString mok (''<array><data>'' @ CRLF) outputP) (\<lambda>o1.
     bindE (foldE (\<lambda>o2 item. bindE (serialize item o2) (addString mok CRLF)) o1 items)
       (addString mok ''</data></array>''))"

lemma serializeStruct_cong [fundef_cong]:
  assumes "members = members'" "outputP = outputP'"
    and "\<And>k v out. (k, v) \<in> set members' \<Longrightarrow> ser v out = ser' v out"
  shows "serializeStruct mok ser members outputP = serializeStruct mok ser' members' outputP'"
proof -
  have "serializeStructMember mok ser out kv = serializeStructMember mok ser' out kv"
    if "kv \<in> set members'" for out kv
    using assms(3) [of "fst kv" "snd kv"] that by (simp add: serializeStructMember_def)
  then have "foldE (serializeStructMember mok ser) o1 members' = foldE (serializeStructMember mok ser') o1 members'"
    for o1
    by (intro foldE_cong) simp_all
  with assms(1,2) show ?thesis by (simp add: serializeStruct_def)
qed

lemma serializeArray_cong [fundef_cong]:
  assumes "items = items'" "outputP = outputP'"
    and "\<And>v out. v \<in> set items' \<Longrightarrow> ser v out = ser' v out"
  shows "serializeArray mok ser items outputP = serializeArray mok ser' items' outputP'"
proof -
  have "foldE (\<lambda>o2 item. bindE (ser item o2) (addString mok CRLF)) o1 items'
      = foldE (\<lambda>o2 item. bindE (ser' item o2) (addString mok CRLF)) o1 items'" for o1
    using assms(3) by (intro foldE_cong) simp_all
  with assms(1,2) show ?thesis by (simp add: serializeArray_def)
qed

definition value_element ::
    "(nat \<Rightarrow> bool) \<Rightarrow> (char mem_block \<Rightarrow> char mem_block run) \<Rightarrow> char mem_block \<Rightarrow> char mem_block run" where
  "value_element mok content outputP =
     bindE (addString mok ''<value>'' outputP) (\<lambda>o1. bindE (content o1) (addString mok ''</value>''))"

definition i8_name :: "xmlrpc_dialect \<Rightarrow> string" where
  "i8_name dialect = (if dialect = Dialect_apache then ''ex:i8'' else ''i8'')"

definition nil_name :: "xmlrpc_dialect \<Rightarrow> string" where
  "nil_name dialect = (if dialect = Dialect_apache then ''ex:nil'' else ''nil'')"

fun formatValueContent ::
    "('d \<Rightarrow> string result) \<Rightarrow> (nat \<Rightarrow> bool) \<Rightarrow> xmlrpc_dialect \<Rightarrow> 'd xvalue \<Rightarrow>
     char mem_block \<Rightarrow> char mem_block run" where
  "formatValueContent fmt mok dialect (XInt i) outputP =
     formatOut mok [Txt ''<i4>'', PctD (sint i), Txt ''</i4>''] outputP"
| "formatValueContent fmt mok dialect (XI8 i) outputP =
     formatOut mok [Txt ''<'', PctS (i8_name dialect), Txt ''>'', PctD (sint i), Txt ''</'',
                    PctS (i8_name dialect), Txt ''>''] outputP"
| "formatValueContent fmt mok dialect (XBool b) outputP =
     formatOut mok [Txt ''<boolean>'', PctS (if b \<noteq> 0 then ''1'' else ''0''), Txt ''</boolean>''] outputP"
| "formatValueContent fmt mok dialect (XDouble d) outputP =
     bindE (lift_result (fmt d)) (\<lambda>serializedValue.
     bindE (addString mok ''<double>'' outputP) (\<lambda>o1.
     bindE (addString mok serializedValue o1)
       (addString mok ''</double>'')))"
| "formatValueContent fmt mok dialect (XDatetime dt) outputP = serializeDatetime mok dt outputP"
| "formatValueContent fmt mok dialect (XString s) outputP =
     bindE (addString mok ''<string>'' outputP) (\<lambda>o1.
     bindE (serializeUtf8MemBlock mok (string_block (XString s :: 'd xvalue)) o1)
       (addString mok ''</string>''))"
| "formatValueContent fmt mok dialect (XBase64 bytes) outputP =
     bindE (addString mok (''<base64>'' @ CRLF) outputP) (\<lambda>o1.
     bindE (xmlrpc_serialize_base64_data mok bytes o1)
       (addString mok ''</base64>''))"
| "formatValueContent fmt mok dialect (XArray vs) outputP =
     serializeArray mok (\<lambda>v. value_element mok (formatValueContent fmt mok dialect v)) vs outputP"
| "formatValueContent fmt mok dialect (XStruct kvs) outputP =
     serializeStruct mok (\<lambda>v. value_element mok (formatValueContent fmt mok dialect v)) kvs outputP"
| "formatValueContent fmt mok dialect (XCptr p) outputP =
     Inl (Some (faultf [Txt ''Tried to serialize a C pointer value.'']))"
| "formatValueContent fmt mok dialect XNil outputP =
     formatOut mok [Txt ''<'', PctS (nil_name dialect), Txt ''/>''] outputP"

definition xmlrpc_serialize_value2 ::
    "('d \<Rightarrow> string result) \<Rightarrow> (nat \<Rightarrow> bool) \<Rightarrow> xmlrpc_dialect \<Rightarrow> 'd xvalue \<Rightarrow>
     char mem_block \<Rightarrow> char mem_block run" where
  "xmlrpc_serialize_value2 fmt mok dialect v = value_element mok (formatValueContent fmt mok dialect v)"

definition xmlrpc_serialize_value ::
    "('d \<Rightarrow> string result) \<Rightarrow> (nat \<Rightarrow> bool) \<Rightarrow> 'd xvalue \<Rightarrow> char mem_block \<Rightarrow> char mem_block run" where
  "xmlrpc_serialize_value fmt mok v = xmlrpc_serialize_value2 fmt mok Dialect_i8 v"

section \<open>Calls and responses\<close>

text \<open>\<open>params\<close> is the parameter array; anything else is the fault of \<open>xmlrpc_array_size\<close>.\<close>

fun array_items :: "'d xvalue \<Rightarrow> 'd xvalue list result" where
  "array_items (XArray vs) = Inr vs"
| "array_items _ = Inl (type_fault [Txt ''Value is not an array''])"

definition xmlrpc_serialize_params2 ::
    "('d \<Rightarrow> string result) \<Rightarrow> (nat \<Rightarrow> bool) \<Rightarrow> xmlrpc_dialect \<Rightarrow> 'd xvalue \<Rightarrow>
     char mem_block \<Rightarrow> char mem_block run" where
  "xmlrpc_serialize_params2 fmt mok dialect paramArray outputP =
     bindE (addString mok (''<params>'' @ CRLF) outputP) (\<lambda>o1.
     bindE (lift_result (array_items paramArray)) (\<lambda>items.
     bindE (foldE (\<lambda>o2 item.
              bindE (addString mok ''<param>'' o2) (\<lambda>o3.
              bindE (xmlrpc_serialize_value2 fmt mok dialect item o3)
                (addString mok (''</param>'' @ CRLF)))) o1 items)
       (addString mok (''</params>'' @ CRLF))))"

definition xmlrpc_serialize_params ::
    "('d \<Rightarrow> string result) \<Rightarrow> (nat \<Rightarrow> bool) \<Rightarrow> 'd xvalue \<Rightarrow> char mem_block \<Rightarrow> char mem_block run" where
  "xmlrpc_serialize_params fmt mok paramArray = xmlrpc_serialize_params2 fmt mok Dialect_i8 paramArray"

definition xmlns :: "xmlrpc_dialect \<Rightarrow> string" where
  "xmlns dialect = (if dialect = Dialect_apache then '' '' @ XMLNS_APACHE else '''')"

definition xmlrpc_serialize_call2 ::
    "('d \<Rightarrow> string result) \<Rightarrow> (nat \<Rightarrow> bool) \<Rightarrow> xmlrpc_dialect \<Rightarrow> string \<Rightarrow> 'd xvalue \<Rightarrow>
     char mem_block \<Rightarrow> char mem_block run" where
  "xmlrpc_serialize_call2 fmt mok dialect methodName paramArray outputP =
     bindE (addString mok XML_PROLOGUE outputP) (\<lambda>o1.
     bindE (formatOut mok [Txt ''<methodCall'', PctS (xmlns dialect), Txt (''>'' @ CRLF @ ''<methodName>'')] o1) (\<lambda>o2.
     bindE (lift_result (escapeForXml mok (c_str methodName))) (\<lambda>encodedP.
     bindE (append_block mok o2 (block_data 1 encodedP)) (\<lambda>o3.
     bindE (addString mok (''</methodName>'' @ CRLF) o3) (\<lambda>o4.
     bindE (xmlrpc_serialize_params2 fmt mok dialect paramArray o4)
       (addString mok (''</methodCall>'' @ CRLF)))))))"

definition xmlrpc_serialize_call ::
    "('d \<Rightarrow> string result) \<Rightarrow> (nat \<Rightarrow> bool) \<Rightarrow> string \<Rightarrow> 'd xvalue \<Rightarrow> char mem_block \<Rightarrow>
     char mem_block run" where
  "xmlrpc_serialize_call fmt mok methodName paramArray =
     xmlrpc_serialize_call2 fmt mok Dialect_i8 methodName paramArray"

definition xmlrpc_serialize_response2 ::
    "('d \<Rightarrow> string result) \<Rightarrow> (nat \<Rightarrow> bool) \<Rightarrow> xmlrpc_dialect \<Rightarrow> 'd xvalue \<Rightarrow>
     char mem_block \<Rightarrow> char mem_block run" where
  "xmlrpc_serialize_response2 fmt mok dialect v outputP =
     bindE (addString mok XML_PROLOGUE outputP) (\<lambda>o1.
     bindE (formatOut mok [Txt ''<methodResponse'', PctS (xmlns dialect),
                           Txt (''>'' @ CRLF @ ''<params>'' @ CRLF @ ''<param>'')] o1) (\<lambda>o2.
     bindE (xmlrpc_serialize_value2 fmt mok dialect v o2)
       (addString mok (''</param>'' @ CRLF @ ''</params>'' @ CRLF @ ''</methodResponse>'' @ CRLF))))"

definition xmlrpc_serialize_response ::
    "('d \<Rightarrow> string result) \<Rightarrow> (nat \<Rightarrow> bool) \<Rightarrow> 'd xvalue \<Rightarrow> char mem_block \<Rightarrow> char mem_block run" where
  "xmlrpc_serialize_response fmt mok v = xmlrpc_serialize_response2 fmt mok Dialect_i8 v"

text \<open>
  The fault struct is the one \<open>xmlrpc_build_value\<close> makes of the format \<open>{s:i,s:s}\<close>: a code as a
  32-bit integer and a text.
\<close>

definition fault_struct :: "(nat \<Rightarrow> bool) \<Rightarrow> fault \<Rightarrow> 'd xvalue result" where
  "fault_struct mok f =
     bindE (xmlrpc_string_new mok ''faultCode'') (\<lambda>k1 :: 'd xvalue.
     bindE (xmlrpc_int_new mok (word_of_int (code_of f))) (\<lambda>code.
     bindE (xmlrpc_string_new mok ''faultString'') (\<lambda>k2 :: 'd xvalue.
     bindE (xmlrpc_string_new mok (text_of f)) (\<lambda>text.
     Inr (XStruct [(chars_of k1, code), (chars_of k2, text)])))))"

definition xmlrpc_serialize_fault ::
    "('d \<Rightarrow> string result) \<Rightarrow> (nat \<Rightarrow> bool) \<Rightarrow> fault \<Rightarrow> char mem_block \<Rightarrow> char mem_block run" where
  "xmlrpc_serialize_fault fmt mok f outputP =
     bindE (lift_result (fault_struct mok f)) (\<lambda>faultStruct.
     bindE (addString mok XML_PROLOGUE outputP) (\<lambda>o1.
     bindE (addString mok (''<methodResponse>'' @ CRLF @ ''<fault>'' @ CRLF) o1) (\<lambda>o2.
     bindE (xmlrpc_serialize_value fmt mok faultStruct o2)
       (addString mok (CRLF @ ''</fault>'' @ CRLF @ ''</methodResponse>'' @ CRLF)))))"

section \<open>The text of a value\<close>

text \<open>What should be written: the content of the \<open>value\<close> element, with \<open>dtext\<close> the text of a double.\<close>

definition base64_lines :: "char list \<Rightarrow> string" where
  "base64_lines data = (if data = [] then CRLF else concat (chunk_texts True data))"

definition datetime_chars :: "xmlrpc_datetime \<Rightarrow> string" where
  "datetime_chars dt =
     take (DT_STRING_SIZE - 1) (datetime_fields dt) @ (if dt_u dt \<noteq> 0 then ''.'' @ pad_u 6 (dt_u dt) else [])"

definition element :: "string \<Rightarrow> string \<Rightarrow> string" where
  "element name content = ''<'' @ name @ ''>'' @ content @ ''</'' @ name @ ''>''"

fun content_text :: "('d \<Rightarrow> string) \<Rightarrow> xmlrpc_dialect \<Rightarrow> 'd xvalue \<Rightarrow> string" where
  "content_text dtext dialect (XInt i) = element ''i4'' (show_d (sint i))"
| "content_text dtext dialect (XI8 i) = element (i8_name dialect) (show_d (sint i))"
| "content_text dtext dialect (XBool b) = element ''boolean'' (if b \<noteq> 0 then ''1'' else ''0'')"
| "content_text dtext dialect (XDouble d) = element ''double'' (dtext d)"
| "content_text dtext dialect (XDatetime dt) = element ''dateTime.iso8601'' (datetime_chars dt)"
| "content_text dtext dialect (XString s) = element ''string'' (escape_chars s)"
| "content_text dtext dialect (XBase64 bytes) = element ''base64'' (CRLF @ base64_lines bytes)"
| "content_text dtext dialect (XArray vs) =
     element ''array'' (element ''data'' (CRLF @
       concat (map (\<lambda>v. element ''value'' (content_text dtext dialect v) @ CRLF) vs)))"
| "content_text dtext dialect (XStruct kvs) =
     element ''struct'' (CRLF @
       concat (map (\<lambda>(k, v). element ''member'' (element ''name'' (escape_chars k) @ CRLF @
                               element ''value'' (content_text dtext dialect v)) @ CRLF) kvs))"
| "content_text dtext dialect (XCptr p) = []"
| "content_text dtext dialect XNil = ''<'' @ nil_name dialect @ ''/>''"

definition value_text :: "('d \<Rightarrow> string) \<Rightarrow> xmlrpc_dialect \<Rightarrow> 'd xvalue \<Rightarrow> string" where
  "value_text dtext dialect v = element ''value'' (content_text dtext dialect v)"

definition dtext_of :: "('d \<Rightarrow> string result) \<Rightarrow> 'd \<Rightarrow> string" where
  "dtext_of fmt d = (case fmt d of Inl _ \<Rightarrow> [] | Inr s \<Rightarrow> c_str s)"

fun serializable :: "('d \<Rightarrow> string result) \<Rightarrow> 'd xvalue \<Rightarrow> bool" where
  "serializable fmt (XDouble d) \<longleftrightarrow> isOK (fmt d)"
| "serializable fmt (XDatetime dt) \<longleftrightarrow> dt_u dt < 1000000 \<and> length (datetime_chars dt) < DT_STRING_SIZE"
| "serializable fmt (XCptr p) \<longleftrightarrow> False"
| "serializable fmt (XArray vs) \<longleftrightarrow> (\<forall>v \<in> set vs. serializable fmt v)"
| "serializable fmt (XStruct kvs) \<longleftrightarrow> (\<forall>(k, v) \<in> set kvs. serializable fmt v)"
| "serializable fmt _ \<longleftrightarrow> True"

abbreviation emits :: "(char mem_block \<Rightarrow> char mem_block run) \<Rightarrow> string \<Rightarrow> bool" where
  "emits \<equiv> out_buffer.writes (block_data 1) (grown_block 1)"

abbreviation emits_fit :: "(char mem_block \<Rightarrow> char mem_block run) \<Rightarrow> string \<Rightarrow> bool" where
  "emits_fit \<equiv> roomy_buffer.fits (block_data 1) (grown_block 1) BLOCK_ALLOC_MAX"

text \<open>The fields of a date are 32-bit numbers, and their text always fits the buffer; the fraction may not.\<close>

lemma length_pad_u_le: "length (pad_u w n) \<le> max w (length (dec_digits n))"
  by (simp add: pad_u_def)

lemma datetime_fields_fit:
  assumes "dt_Y dt < 2 ^ 32" "dt_M dt < 2 ^ 32" "dt_D dt < 2 ^ 32" "dt_h dt < 2 ^ 32" "dt_m dt < 2 ^ 32" "dt_s dt < 2 ^ 32"
  shows "length (datetime_fields dt) \<le> 63"
proof -
  have d: "length (dec_digits n) \<le> 10" if "n < 2 ^ 32" for n :: nat
    by (rule length_dec_digits_le) (use that in simp_all)
  have p: "length (pad_u 2 n) \<le> 10" if "n < 2 ^ 32" for n :: nat
    using length_pad_u_le [of 2 n] d [OF that] by simp
  show ?thesis using d [OF assms(1)] p [OF assms(2)] p [OF assms(3)] p [OF assms(4)] p [OF assms(5)] p [OF assms(6)]
    by (simp add: datetime_fields_def)
qed

lemma dt_string_exact:
  "dt_string dt = Inr s \<longleftrightarrow>
     s = datetime_chars dt \<and> (dt_u dt \<noteq> 0 \<longrightarrow> dt_u dt < 1000000 \<and> length (datetime_chars dt) < DT_STRING_SIZE)"
proof (cases "dt_u dt \<noteq> 0 \<and> dt_u dt < 1000000")
  case True
  then have "length (pad_u 6 (dt_u dt)) = 6" by (intro length_pad_u) simp_all
  with True show ?thesis
    by (auto simp: dt_string_def datetime_chars_def snprintf_def STRSCAT_def DT_STRING_SIZE_def Let_def)
qed (auto simp: dt_string_def datetime_chars_def snprintf_def Let_def)

lemma length_escape_chars: "length (escape_chars s) = escapedSize s"
  by (induction s) auto

lemma escapeForXml_data:
  "escapeForXml mok s = Inr b \<Longrightarrow> block_ready 1 b \<and> block_data 1 b = escape_chars s"
proof -
  assume "escapeForXml mok s = Inr b"
  then obtain b0 where b0: "mem_block_new mok 1 (escapedSize s) = Inr b0"
    and b: "b = b0\<lparr>blk_cells := Some (write_cells 0 (escape_chars s) (mem_block_contents b0))\<rparr>"
    by (auto simp: escapeForXml_def bindE_Inr_conv)
  have wf: "mem_block_wf 1 b0" "blk_size b0 = escapedSize s"
    using mem_block_new_wf [OF _ b0] by simp_all
  have "escapedSize s \<le> length (mem_block_contents b0)"
    using wf by (auto simp: mem_block_wf_def mem_block_contents_def)
  then have cells: "block_cells 1 b = map Some (escape_chars s)"
    using wf(2) by (simp add: b block_cells_def mem_block_contents_def write_cells_def length_escape_chars)
  have "mem_block_wf 1 b"
    using wf by (auto simp: b mem_block_wf_def mem_block_contents_def write_cells_def length_escape_chars)
  then show ?thesis unfolding block_ready_def block_data_def cells by auto
qed

lemma escapeForXml_always: "\<exists>b. escapeForXml always s = Inr b"
  by (simp add: escapeForXml_def mem_block_new_def mem_block_init_def always_def Let_def)

lemma emits_append: "emits (\<lambda>b. append_block mok b t) t"
  by (rule block_writer.writes_append)

lemma emits_fit_append: "emits_fit (\<lambda>b. append_block always b t) t"
  by (rule block_roomy.fits_append)

lemma emits_addString: "emits (addString mok t) (c_str t)"
  unfolding addString_def by (rule emits_append)

lemma emits_fit_addString: "emits_fit (addString always t) (c_str t)"
  unfolding addString_def by (rule emits_fit_append)

lemma emits_formatOut: "emits (formatOut mok ps) (vformat ps)"
proof (cases "128 \<le> length (vformat ps) + 1")
  case True
  then have "formatOut mok ps = (\<lambda>b. Inl (Some (faultf [Txt ''formatOut() overflowed internal buffer''])))"
    by (simp add: formatOut_def fun_eq_iff)
  then show ?thesis by (simp only: block_writer.writes_fail)
next
  case False
  then show ?thesis
    using emits_append [of mok "vformat ps"] unfolding formatOut_def Let_def by simp
qed

lemma emits_fit_formatOut: "length (vformat ps) < 127 \<Longrightarrow> emits_fit (formatOut always ps) (vformat ps)"
  using emits_fit_append [of "vformat ps"] unfolding formatOut_def Let_def by simp

lemma emits_serializeUtf8MemBlock: "emits (serializeUtf8MemBlock mok (s @ [NUL])) (escape_chars s)"
proof -
  have "emits (\<lambda>b. bindE (lift_result (escapeForXml mok s)) (\<lambda>e. append_block mok b (block_data 1 e))) (escape_chars s)"
    by (rule block_writer.writes_after) (use escapeForXml_data emits_append in fastforce)
  then show ?thesis by (simp add: serializeUtf8MemBlock_def [abs_def])
qed

lemma emits_fit_serializeUtf8MemBlock: "emits_fit (serializeUtf8MemBlock always (s @ [NUL])) (escape_chars s)"
proof -
  have "emits_fit (\<lambda>b. bindE (lift_result (escapeForXml always s)) (\<lambda>e. append_block always b (block_data 1 e))) (escape_chars s)"
    by (rule block_roomy.fits_within [OF lift_result_some [OF escapeForXml_always]])
      (use escapeForXml_data emits_fit_append in fastforce)
  then show ?thesis by (simp add: serializeUtf8MemBlock_def [abs_def])
qed

lemma base64_data:
  "xmlrpc_base64_encode mok data = Inr b \<Longrightarrow> block_data 1 b = base64_lines data"
  using base64Encode_chunks(2) [of mok data True b]
  by (simp add: xmlrpc_base64_encode_def base64_lines_def)

lemma base64_always:
  assumes "length (base64_lines data) \<le> BLOCK_ALLOC_MAX"
  shows "\<exists>b. xmlrpc_base64_encode always data = Inr b"
proof -
  obtain b0 :: "char mem_block" where b0: "mem_block_new always 1 0 = Inr b0"
    using mem_block_new_ok [of 1 always 0] by (auto simp: always_def)
  note empty = mem_block_new_empty [OF b0]
  show ?thesis
  proof (cases "data = []")
    case True
    obtain b where "mem_block_append always 1 b0 CRLF = Inr b"
      using memblock_roomy.append_fits [OF empty(1), of CRLF] empty(2) by auto
    with True b0 show ?thesis by (simp add: xmlrpc_base64_encode_def base64Encode_def)
  next
    case False
    then obtain b where "memblock_buffer.append_all always b0 (chunk_texts True data) = Inr b"
      using memblock_roomy.append_all_fits [OF empty(1), of "chunk_texts True data"] empty(2) assms
      by (auto simp: base64_lines_def)
    with False b0 show ?thesis
      by (simp add: xmlrpc_base64_encode_def base64Encode_def encode_chunks_append_all)
  qed
qed

lemma emits_base64: "emits (xmlrpc_serialize_base64_data mok data) (base64_lines data)"
  unfolding xmlrpc_serialize_base64_data_def [abs_def]
  by (rule block_writer.writes_after) (use base64_data emits_append in fastforce)

lemma emits_fit_base64: "emits_fit (xmlrpc_serialize_base64_data always data) (base64_lines data)"
  unfolding xmlrpc_serialize_base64_data_def [abs_def]
  by (rule block_roomy.fits_within [OF lift_result_some [OF base64_always]]) (use base64_data emits_fit_append in fastforce)+

subsection \<open>Writing refines the text\<close>

text \<open>
  Two relations between a step of output and its text: what it adds when it succeeds, for any
  memory, and that it succeeds, with memory at hand and room left.  Both are closed under the ways
  the serializer combines steps; \<open>lax\<close> says that a step may fail.
\<close>

locale text_writer =
  fixes mok :: "nat \<Rightarrow> bool" and lax :: bool
    and W :: "(char mem_block \<Rightarrow> char mem_block run) \<Rightarrow> string \<Rightarrow> bool"
  assumes W_append: "W (\<lambda>b. append_block mok b t) t"
    and W_bind: "W m s \<Longrightarrow> W k t \<Longrightarrow> W (\<lambda>b. bindE (m b) k) (s @ t)"
    and W_skip: "W Inr []"
    and W_fail: "lax \<Longrightarrow> W (\<lambda>b. Inl e) t"
    and W_escape: "W (serializeUtf8MemBlock mok (s @ [NUL])) (escape_chars s)"
    and W_base64: "W (xmlrpc_serialize_base64_data mok data) (base64_lines data)"
begin

lemma W_foldE:
  "(\<And>x. x \<in> set xs \<Longrightarrow> W (\<lambda>b. f b x) (g x)) \<Longrightarrow> W (\<lambda>b. foldE f b xs) (concat (map g xs))"
proof (induction xs)
  case Nil
  then show ?case using W_skip by simp
next
  case (Cons x xs)
  then have "W (\<lambda>b. bindE (f b x) (\<lambda>b'. foldE f b' xs)) (g x @ concat (map g xs))"
    by (intro W_bind) simp_all
  then show ?case by simp
qed

lemma W_addString: "W (addString mok t) (c_str t)"
  unfolding addString_def by (rule W_append)

lemma W_string: "NUL \<notin> set t \<Longrightarrow> W (addString mok t) t"
  using W_addString [of t] by (simp add: c_str_id)

lemma W_formatOut: "length (vformat ps) < 127 \<Longrightarrow> W (formatOut mok ps) (vformat ps)"
  using W_append [of "vformat ps"] unfolding formatOut_def Let_def by simp

lemma W_eq: "W m t \<Longrightarrow> t = t' \<Longrightarrow> W m t'"
  by simp

lemma W_value_element:
  assumes "W content t"
  shows "W (value_element mok content) (element ''value'' t)"
  unfolding value_element_def [abs_def]
  by (rule W_eq [OF W_bind [OF W_string W_bind [OF assms W_string]]]) (simp_all add: element_def)

lemma W_array:
  assumes "\<And>v. v \<in> set vs \<Longrightarrow> W (ser v) (t v)"
  shows "W (serializeArray mok ser vs)
    (element ''array'' (element ''data'' (CRLF @ concat (map (\<lambda>v. t v @ CRLF) vs))))"
proof -
  have item: "W (\<lambda>b. bindE (ser v b) (addString mok CRLF)) (t v @ CRLF)" if "v \<in> set vs" for v
    by (intro W_bind W_string assms that) simp
  have items: "W (\<lambda>b. foldE (\<lambda>o2 item. bindE (ser item o2) (addString mok CRLF)) b vs)
      (concat (map (\<lambda>v. t v @ CRLF) vs))"
    by (rule W_foldE) (rule item)
  show ?thesis
    unfolding serializeArray_def [abs_def]
    by (rule W_eq [OF W_bind [OF W_string W_bind [OF items W_string]]]) (simp_all add: element_def)
qed

lemma W_struct:
  assumes "\<And>k v. (k, v) \<in> set kvs \<Longrightarrow> W (ser v) (t v)"
  shows "W (serializeStruct mok ser kvs)
    (element ''struct'' (CRLF @ concat (map (\<lambda>(k, v). element ''member''
       (element ''name'' (escape_chars k) @ CRLF @ t v) @ CRLF) kvs)))"
proof -
  have member: "W (\<lambda>b. serializeStructMember mok ser b kv) (case kv of (k, v) \<Rightarrow>
      element ''member'' (element ''name'' (escape_chars k) @ CRLF @ t v) @ CRLF)" if "kv \<in> set kvs" for kv
  proof -
    have t: "W (ser (snd kv)) (t (snd kv))" using assms [of "fst kv"] that by simp
    show ?thesis
      unfolding serializeStructMember_def
      by (rule W_eq [OF W_bind [OF W_string W_bind [OF W_escape W_bind [OF W_string W_bind [OF t W_string]]]]])
        (simp_all add: element_def case_prod_beta')
  qed
  have members: "W (\<lambda>b. foldE (serializeStructMember mok ser) b kvs) (concat (map (\<lambda>(k, v).
      element ''member'' (element ''name'' (escape_chars k) @ CRLF @ t v) @ CRLF) kvs))"
    by (rule W_foldE) (rule member)
  show ?thesis
    unfolding serializeStruct_def [abs_def]
    by (rule W_eq [OF W_bind [OF W_string W_bind [OF members W_string]]]) (simp_all add: element_def)
qed

end

lemma c_str_text [simp]: "NUL \<notin> set s \<Longrightarrow> c_str s = s"
  by (rule c_str_id)

lemma datetime_chars_no_NUL: "NUL \<notin> set (datetime_chars dt)"
proof -
  have "NUL \<notin> set (dec_digits n)" "NUL \<notin> set (pad_u w n)" for n w
    using isdigit_dec_digits [of NUL n] isdigit_pad_u [of NUL w n] by auto
  then show ?thesis by (auto simp: datetime_chars_def datetime_fields_def dest: in_set_takeD)
qed

lemma length_show_d: "- (10 ^ 20) < i \<Longrightarrow> i < 10 ^ 20 \<Longrightarrow> length (show_d i) \<le> 21"
proof -
  assume i: "- (10 ^ 20) < i" "i < 10 ^ 20"
  then have "nat (- i) < 10 ^ 20" "nat i < 10 ^ 20" by (simp_all add: nat_less_iff)
  then have "length (dec_digits (nat (- i))) \<le> 20" "length (dec_digits (nat i)) \<le> 20"
    by (intro length_dec_digits_le; simp)+
  then show ?thesis by (simp add: show_d_def)
qed

lemma show_word_length: "length (show_d (sint (i :: 'a :: len word))) \<le> 21" if "LENGTH('a) \<le> 64"
proof (rule length_show_d)
  have "(2 :: int) ^ (LENGTH('a) - 1) \<le> 2 ^ 63" by (rule power_increasing) (use that in auto)
  then show "sint i < 10 ^ 20" "- (10 ^ 20) < sint i"
    using sint_lt [of i] sint_ge [of i] by simp_all
qed

context text_writer begin

lemma W_content:
  "lax \<or> serializable fmt v \<Longrightarrow>
   W (formatValueContent fmt mok dialect v) (content_text (dtext_of fmt) dialect v)"
proof (induction v rule: xvalue.induct)
  case (XInt i)
  have "length (show_d (sint i)) \<le> 21" by (rule show_word_length) simp
  then show ?case
    using W_formatOut [of "[Txt ''<i4>'', PctD (sint i), Txt ''</i4>'']"]
    by (simp add: vformat_def element_def)
next
  case (XI8 i)
  have "length (show_d (sint i)) \<le> 21" by (rule show_word_length) simp
  then show ?case
    using W_formatOut [of "[Txt ''<'', PctS (i8_name dialect), Txt ''>'', PctD (sint i), Txt ''</'',
                    PctS (i8_name dialect), Txt ''>'']"]
    by (simp add: vformat_def element_def i8_name_def)
next
  case (XBool b)
  then show ?case
    using W_formatOut [of "[Txt ''<boolean>'', PctS (if b \<noteq> 0 then ''1'' else ''0''), Txt ''</boolean>'']"]
    by (simp add: vformat_def element_def)
next
  case (XDouble d)
  show ?case
  proof (cases "fmt d")
    case (Inl f)
    with XDouble show ?thesis using W_fail [of "Some f"] by (simp add: fun_eq_iff)
  next
    case (Inr s)
    have "W (\<lambda>o1. bindE (addString mok ''<double>'' o1) (\<lambda>o1. bindE (addString mok s o1) (addString mok ''</double>'')))
        (''<double>'' @ c_str s @ ''</double>'')"
      by (intro W_bind W_addString W_string) simp_all
    with Inr show ?thesis by (simp add: element_def dtext_of_def)
  qed
next
  case (XDatetime dt)
  show ?case
  proof (cases "dt_string dt")
    case (Inl e)
    then have lax using XDatetime dt_string_exact [of dt "datetime_chars dt"] by auto
    have "W (\<lambda>b. bindE (addString mok ''<dateTime.iso8601>'' b) (\<lambda>o1. Inl e)) (''<dateTime.iso8601>'' @ t)" for t
      by (intro W_bind W_string W_fail) (use \<open>lax\<close> in simp_all)
    from this [of "datetime_chars dt @ ''</dateTime.iso8601>''"] Inl show ?thesis
      by (simp add: serializeDatetime_def [abs_def] element_def)
  next
    case (Inr s)
    then have s: "s = datetime_chars dt" by (simp add: dt_string_exact)
    have "W (\<lambda>b. bindE (addString mok ''<dateTime.iso8601>'' b) (\<lambda>o1. bindE (addString mok s o1) (addString mok ''</dateTime.iso8601>'')))
        (''<dateTime.iso8601>'' @ s @ ''</dateTime.iso8601>'')"
      unfolding s by (intro W_bind W_string) (simp_all add: datetime_chars_no_NUL)
    with Inr s show ?thesis by (simp add: serializeDatetime_def [abs_def] element_def)
  qed
next
  case (XString s)
  show ?case
    unfolding formatValueContent.simps string_block_def chars_of.simps
    by (rule W_eq [OF W_bind [OF W_string W_bind [OF W_escape W_string]]]) (simp_all add: element_def)
next
  case (XBase64 bytes)
  show ?case
    unfolding formatValueContent.simps
    by (rule W_eq [OF W_bind [OF W_string W_bind [OF W_base64 W_string]]]) (simp_all add: element_def)
next
  case (XArray vs)
  have "W (value_element mok (formatValueContent fmt mok dialect v))
      (element ''value'' (content_text (dtext_of fmt) dialect v))" if "v \<in> set vs" for v
    using XArray that by (auto intro!: W_value_element)
  from W_array [OF this] show ?case by simp
next
  case (XStruct kvs)
  have "W (value_element mok (formatValueContent fmt mok dialect v))
      (element ''value'' (content_text (dtext_of fmt) dialect v))" if "(k, v) \<in> set kvs" for k v
    using XStruct that by (auto intro!: W_value_element)
  from W_struct [OF this] show ?case by simp
next
  case (XCptr p)
  then show ?case
    using W_fail [of "Some (faultf [Txt ''Tried to serialize a C pointer value.''])"] by (simp add: fun_eq_iff)
next
  case XNil
  show ?case
    using W_formatOut [of "[Txt ''<'', PctS (nil_name dialect), Txt ''/>'']"]
    by (simp add: vformat_def nil_name_def)
qed

end

text \<open>Documents.\<close>

definition params_text :: "('d \<Rightarrow> string) \<Rightarrow> xmlrpc_dialect \<Rightarrow> 'd xvalue list \<Rightarrow> string" where
  "params_text dtext dialect vs =
     element ''params'' (CRLF @ concat (map (\<lambda>v. element ''param'' (value_text dtext dialect v) @ CRLF) vs))"

definition call_text :: "('d \<Rightarrow> string) \<Rightarrow> xmlrpc_dialect \<Rightarrow> string \<Rightarrow> 'd xvalue list \<Rightarrow> string" where
  "call_text dtext dialect methodName vs =
     XML_PROLOGUE @ ''<methodCall'' @ xmlns dialect @ ''>'' @ CRLF @
     element ''methodName'' (escape_chars methodName) @ CRLF @
     params_text dtext dialect vs @ CRLF @ ''</methodCall>'' @ CRLF"

definition response_text :: "('d \<Rightarrow> string) \<Rightarrow> xmlrpc_dialect \<Rightarrow> 'd xvalue \<Rightarrow> string" where
  "response_text dtext dialect v =
     XML_PROLOGUE @ ''<methodResponse'' @ xmlns dialect @ ''>'' @ CRLF @
     params_text dtext dialect [v] @ CRLF @ ''</methodResponse>'' @ CRLF"

definition fault_response_text :: "('d \<Rightarrow> string) \<Rightarrow> 'd xvalue \<Rightarrow> string" where
  "fault_response_text dtext v =
     XML_PROLOGUE @ ''<methodResponse>'' @ CRLF @
     element ''fault'' (CRLF @ value_text dtext Dialect_i8 v @ CRLF) @ CRLF @ ''</methodResponse>'' @ CRLF"

lemma const_no_NUL [simp]:
  "NUL \<notin> set XML_PROLOGUE" "NUL \<notin> set (xmlns dialect)" "NUL \<notin> set CRLF"
  by (simp_all add: XML_PROLOGUE_def xmlns_def XMLNS_APACHE_def APACHE_URL_def)

lemma xmlns_length: "length (xmlns dialect) \<le> 65"
  by (simp add: xmlns_def XMLNS_APACHE_def APACHE_URL_def)

context text_writer begin

lemma W_value2:
  "lax \<or> serializable fmt v \<Longrightarrow>
   W (xmlrpc_serialize_value2 fmt mok dialect v) (value_text (dtext_of fmt) dialect v)"
  unfolding xmlrpc_serialize_value2_def value_text_def by (intro W_value_element W_content)

lemma W_params2:
  assumes "lax \<or> (\<forall>v \<in> set vs. serializable fmt v)"
  shows "W (xmlrpc_serialize_params2 fmt mok dialect (XArray vs)) (params_text (dtext_of fmt) dialect vs @ CRLF)"
proof -
  have item: "W (\<lambda>o2. bindE (addString mok ''<param>'' o2) (\<lambda>o3.
      bindE (xmlrpc_serialize_value2 fmt mok dialect v o3) (addString mok (''</param>'' @ CRLF))))
      (element ''param'' (value_text (dtext_of fmt) dialect v) @ CRLF)" if "v \<in> set vs" for v
    by (rule W_eq [OF W_bind [OF W_string W_bind [OF W_value2 W_string]]])
      (use assms that in \<open>auto simp: element_def\<close>)
  have items: "W (\<lambda>o1. foldE (\<lambda>o2 item. bindE (addString mok ''<param>'' o2) (\<lambda>o3.
      bindE (xmlrpc_serialize_value2 fmt mok dialect item o3) (addString mok (''</param>'' @ CRLF)))) o1 vs)
      (concat (map (\<lambda>v. element ''param'' (value_text (dtext_of fmt) dialect v) @ CRLF) vs))"
    by (rule W_foldE) (rule item)
  show ?thesis
    unfolding xmlrpc_serialize_params2_def [abs_def] array_items.simps lift_result_simps bindE_simps
    by (rule W_eq [OF W_bind [OF W_string W_bind [OF items W_string]]]) (simp_all add: params_text_def element_def)
qed

lemma W_escaped:
  assumes "W (\<lambda>b. k b) t" "escapeForXml mok s = Inr e"
  shows "W (\<lambda>b. bindE (lift_result (escapeForXml mok s)) (\<lambda>e. bindE (append_block mok b (block_data 1 e)) k))
           (escape_chars s @ t)"
  using W_bind [OF W_append assms(1), of "block_data 1 e"] escapeForXml_data [OF assms(2)] assms(2) by simp

lemma W_call2:
  assumes "lax \<or> (\<forall>v \<in> set vs. serializable fmt v)" "escapeForXml mok (c_str methodName) = Inr e"
  shows "W (xmlrpc_serialize_call2 fmt mok dialect methodName (XArray vs))
    (call_text (dtext_of fmt) dialect (c_str methodName) vs)"
proof -
  let ?head = "[Txt ''<methodCall'', PctS (xmlns dialect), Txt (''>'' @ CRLF @ ''<methodName>'')]"
  have head: "W (formatOut mok ?head) (vformat ?head)"
    by (rule W_formatOut) (use xmlns_length [of dialect] in \<open>simp add: vformat_def\<close>)
  show ?thesis
    unfolding xmlrpc_serialize_call2_def [abs_def]
    by (rule W_eq [OF W_bind [OF W_string W_bind [OF head W_escaped [OF
              W_bind [OF W_string W_bind [OF W_params2 W_string]] assms(2)]]]])
      (use assms(1) in \<open>simp_all add: call_text_def element_def vformat_def\<close>)
qed

lemma W_response2:
  assumes "lax \<or> serializable fmt v"
  shows "W (xmlrpc_serialize_response2 fmt mok dialect v) (response_text (dtext_of fmt) dialect v)"
proof -
  let ?head = "[Txt ''<methodResponse'', PctS (xmlns dialect), Txt (''>'' @ CRLF @ ''<params>'' @ CRLF @ ''<param>'')]"
  have head: "W (formatOut mok ?head) (vformat ?head)"
    by (rule W_formatOut) (use xmlns_length [of dialect] in \<open>simp add: vformat_def\<close>)
  show ?thesis
    unfolding xmlrpc_serialize_response2_def [abs_def]
    by (rule W_eq [OF W_bind [OF W_string W_bind [OF head W_bind [OF W_value2 W_string]]]])
      (use assms in \<open>simp_all add: response_text_def params_text_def element_def vformat_def\<close>)
qed

lemma W_fault:
  assumes "fault_struct mok f = Inr v" "lax \<or> serializable fmt v"
  shows "W (xmlrpc_serialize_fault fmt mok f) (fault_response_text (dtext_of fmt) v)"
  unfolding xmlrpc_serialize_fault_def [abs_def] assms(1) lift_result_simps bindE_simps xmlrpc_serialize_value_def
  by (rule W_eq [OF W_bind [OF W_string W_bind [OF W_string W_bind [OF W_value2 W_string]]]])
    (use assms(2) in \<open>simp_all add: fault_response_text_def element_def\<close>)

end

interpretation emits_writer: text_writer mok True emits for mok
  by unfold_locales
    (rule block_writer.writes_append block_writer.writes_bind block_writer.writes_skip
      block_writer.writes_fail emits_serializeUtf8MemBlock emits_base64; assumption?)+

interpretation fits_writer: text_writer always False emits_fit
  by unfold_locales
    ((erule FalseE | rule block_roomy.fits_append block_roomy.fits_bind block_roomy.fits_skip
      emits_fit_serializeUtf8MemBlock emits_fit_base64); assumption?)+

section \<open>Properties\<close>

text \<open>C14: whatever memory there is, when the serializer succeeds it has added exactly the XML text of
  the value to the output and kept what was there; with memory at hand it succeeds on every value
  whose text fits a block, unless it has a C pointer, a double without text, or a date whose
  microseconds are no fraction of a second or do not fit the buffer with its fields.  \<open>formatOut\<close> never
  overflows its buffer.\<close>
theorem serialize_value_text:
  assumes "grown_block 1 out"
  shows "(xmlrpc_serialize_value2 fmt mok dialect v out = Inr out' \<longrightarrow>
            grown_block 1 out' \<and>
            block_data 1 out' = block_data 1 out @ value_text (dtext_of fmt) dialect v) \<and>
         (serializable fmt v \<and>
            length (block_data 1 out) + length (value_text (dtext_of fmt) dialect v) \<le> BLOCK_ALLOC_MAX \<longrightarrow>
            isOK (xmlrpc_serialize_value2 fmt always dialect v out))"
proof (intro conjI impI; (elim conjE)?)
  assume "xmlrpc_serialize_value2 fmt mok dialect v out = Inr out'"
  then have "grown_block 1 out' \<and> block_data 1 out' = block_data 1 out @ value_text (dtext_of fmt) dialect v"
    by (rule block_writer.writesD [OF emits_writer.W_value2 assms, rotated]) simp
  then show "grown_block 1 out'" "block_data 1 out' = block_data 1 out @ value_text (dtext_of fmt) dialect v"
    by simp_all
next
  assume "serializable fmt v"
    and room: "length (block_data 1 out) + length (value_text (dtext_of fmt) dialect v) \<le> BLOCK_ALLOC_MAX"
  then have "emits_fit (xmlrpc_serialize_value2 fmt always dialect v) (value_text (dtext_of fmt) dialect v)"
    by (intro fits_writer.W_value2) simp
  from block_roomy.fitsE [OF this assms room]
  show "isOK (xmlrpc_serialize_value2 fmt always dialect v out)" by auto
qed

lemma serialize_value_text_witness:
  "isOK (xmlrpc_serialize_value2 (\<lambda>_. Inr ''1.5'') always Dialect_i8 (XArray [XString ''a<b'', XDouble ()]) empty_block)"
proof -
  have "grown_block 1 empty_block" "block_data 1 empty_block = []"
    by (auto simp: empty_block_def grown_block_def block_ready_def mem_block_wf_def block_cells_def
        block_data_def mem_block_contents_def intro: exI [of _ 4])
  moreover have "length (value_text (dtext_of (\<lambda>_. Inr ''1.5'')) Dialect_i8 (XArray [XString ''a<b'', XDouble ()])) \<le> BLOCK_ALLOC_MAX"
    by (simp add: value_text_def element_def dtext_of_def)
  ultimately show ?thesis
    using serialize_value_text [of empty_block "\<lambda>_. Inr ''1.5''" always Dialect_i8
        "XArray [XString ''a<b'', XDouble ()]"]
    by simp
qed

end
