(* ===== verification/Registry.thy ===== *)
theory Registry
  imports Method Decompose Serialize
begin

text \<open>
  What a server knows (\<open>src/registry.c\<close>, and the registration part of \<open>src/system_method.c\<close>): the
  list of methods, the functions the program has set, and the built-in methods that
  \<open>xmlrpc_registry_new\<close> installs.  A method function of the program is an operation on the heap that
  takes the address of the parameter array; what it gets as user data and call information is part
  of it.  The built-in methods get the registry itself as user data.
\<close>

section \<open>The registry\<close>

datatype system_method =
    ListMethods | MethodExist | MethodHelp | MethodSignature | Multicall | Shutdown | Capabilities | GetCapabilities

datatype 'd method_fn =
    UserFn "nat \<Rightarrow> (nat, 'd) heap_op"
  | SystemFn system_method

record 'd xmlrpc_registry =
  introspectionEnabled :: bool
  methodListP :: "'d method_fn xmlrpc_methodNode list"
  defaultMethodFunction :: "(string \<Rightarrow> nat \<Rightarrow> (nat, 'd) heap_op) option"
  preinvokeFunction :: "(string \<Rightarrow> nat \<Rightarrow> (unit, 'd) heap_op) option"
  shutdownServerFn :: "(string \<Rightarrow> (unit, 'd) heap_op) option"
  dialect :: xmlrpc_dialect

type_synonym ('a, 'd) registry_op = "('a, 'd xmlrpc_registry) op"

abbreviation SIZEOF_REGISTRY :: nat where "SIZEOF_REGISTRY \<equiv> 72"

definition xmlrpc_registry_disable_introspection :: "'d xmlrpc_registry \<Rightarrow> 'd xmlrpc_registry" where
  "xmlrpc_registry_disable_introspection registryP = registryP\<lparr>introspectionEnabled := False\<rparr>"

section \<open>Adding methods\<close>

definition no_help :: string where
  "no_help = ''No help is available for this method.''"

definition methodListAdd_op :: "(nat \<Rightarrow> bool) \<Rightarrow> string \<Rightarrow> 'd method_fn xmlrpc_methodInfo \<Rightarrow> (unit, 'd) registry_op" where
  "methodListAdd_op mok name m registryP =
     (case xmlrpc_methodListAdd mok (methodListP registryP) name m of
        None \<Rightarrow> None
      | Some (Inl f) \<Rightarrow> Some (Inl f, registryP)
      | Some (Inr ml) \<Rightarrow> Some (Inr (), registryP\<lparr>methodListP := ml\<rparr>))"

definition registryAddMethod ::
    "(nat \<Rightarrow> bool) \<Rightarrow> string \<Rightarrow> 'd method_fn \<Rightarrow> string option \<Rightarrow> string option \<Rightarrow> nat \<Rightarrow> (unit, 'd) registry_op" where
  "registryAddMethod mok name fn signatureString help stack =
     hbind (hoption (xmlrpc_methodCreate mok fn signatureString (case help of None \<Rightarrow> no_help | Some s \<Rightarrow> s) stack))
       (methodListAdd_op mok name)"

text \<open>That no host is given is asserted.\<close>

definition xmlrpc_registry_add_method_w_doc ::
    "(nat \<Rightarrow> bool) \<Rightarrow> string option \<Rightarrow> string \<Rightarrow> (nat \<Rightarrow> (nat, 'd) heap_op) \<Rightarrow> string option \<Rightarrow> string option \<Rightarrow>
     (unit, 'd) registry_op" where
  "xmlrpc_registry_add_method_w_doc mok host name method signatureString help registryP =
     (if host \<noteq> None then None
      else registryAddMethod mok name (UserFn method) signatureString help 0 registryP)"

definition xmlrpc_registry_add_method ::
    "(nat \<Rightarrow> bool) \<Rightarrow> string option \<Rightarrow> string \<Rightarrow> (nat \<Rightarrow> (nat, 'd) heap_op) \<Rightarrow> (unit, 'd) registry_op" where
  "xmlrpc_registry_add_method mok host name method =
     xmlrpc_registry_add_method_w_doc mok host name method (Some ''?'') (Some ''No help is available for this method.'')"

definition xmlrpc_registry_add_method2 ::
    "(nat \<Rightarrow> bool) \<Rightarrow> string \<Rightarrow> 'd method_fn \<Rightarrow> string option \<Rightarrow> string option \<Rightarrow> (unit, 'd) registry_op" where
  "xmlrpc_registry_add_method2 mok name method signatureString help =
     registryAddMethod mok name method signatureString help 0"

definition xmlrpc_registry_add_method3 ::
    "(nat \<Rightarrow> bool) \<Rightarrow> string \<Rightarrow> (nat \<Rightarrow> (nat, 'd) heap_op) \<Rightarrow> string option \<Rightarrow> string option \<Rightarrow> nat \<Rightarrow>
     (unit, 'd) registry_op" where
  "xmlrpc_registry_add_method3 mok name method signatureString help stack =
     registryAddMethod mok name (UserFn method) signatureString help stack"

section \<open>Settings\<close>

definition xmlrpc_registry_set_default_method ::
    "(string \<Rightarrow> nat \<Rightarrow> (nat, 'd) heap_op) \<Rightarrow> 'd xmlrpc_registry \<Rightarrow> 'd xmlrpc_registry" where
  "xmlrpc_registry_set_default_method function registryP = registryP\<lparr>defaultMethodFunction := Some function\<rparr>"

definition xmlrpc_registry_set_preinvoke_method ::
    "(string \<Rightarrow> nat \<Rightarrow> (unit, 'd) heap_op) \<Rightarrow> 'd xmlrpc_registry \<Rightarrow> 'd xmlrpc_registry" where
  "xmlrpc_registry_set_preinvoke_method function registryP = registryP\<lparr>preinvokeFunction := Some function\<rparr>"

definition xmlrpc_registry_set_shutdown ::
    "(string \<Rightarrow> (unit, 'd) heap_op) \<Rightarrow> 'd xmlrpc_registry \<Rightarrow> 'd xmlrpc_registry" where
  "xmlrpc_registry_set_shutdown shutdownFn registryP = registryP\<lparr>shutdownServerFn := Some shutdownFn\<rparr>"

text \<open>The dialect comes as the number of an enumeration.\<close>

definition xmlrpc_registry_set_dialect :: "nat \<Rightarrow> (unit, 'd) registry_op" where
  "xmlrpc_registry_set_dialect d registryP =
     (if d = 0 then Some (Inr (), registryP\<lparr>dialect := Dialect_i8\<rparr>)
      else if d = 1 then Some (Inr (), registryP\<lparr>dialect := Dialect_apache\<rparr>)
      else Some (Inl (faultf [Txt ''Invalid dialect argument -- not of type '',
                              Txt ''xmlrpc_dialect.  Numerical value is '', PctU d]), registryP))"

definition METHOD_FUNCTION_STACK :: nat where
  "METHOD_FUNCTION_STACK = 128 * 1024"

definition methodStackSize :: "'f xmlrpc_methodInfo \<Rightarrow> nat" where
  "methodStackSize m = (if stackSize m = 0 then METHOD_FUNCTION_STACK else stackSize m)"

definition xmlrpc_registry_max_stackSize :: "'d xmlrpc_registry \<Rightarrow> nat" where
  "xmlrpc_registry_max_stackSize registryP =
     foldl (\<lambda>n p. max n (methodStackSize (methodP p))) 0 (methodListP registryP)"

section \<open>The built-in methods\<close>

fun system_name :: "system_method \<Rightarrow> string" where
  "system_name ListMethods = ''system.listMethods''"
| "system_name MethodExist = ''system.methodExist''"
| "system_name MethodHelp = ''system.methodHelp''"
| "system_name MethodSignature = ''system.methodSignature''"
| "system_name Multicall = ''system.multicall''"
| "system_name Shutdown = ''system.shutdown''"
| "system_name Capabilities = ''system.capabilities''"
| "system_name GetCapabilities = ''system.getCapabilities''"

fun system_signature :: "system_method \<Rightarrow> string" where
  "system_signature ListMethods = ''A:''"
| "system_signature MethodExist = ''s:b''"
| "system_signature MethodHelp = ''s:s''"
| "system_signature MethodSignature = ''A:s''"
| "system_signature Multicall = ''A:A''"
| "system_signature Shutdown = ''i:s''"
| "system_signature Capabilities = ''S:''"
| "system_signature GetCapabilities = ''S:''"

fun system_help :: "system_method \<Rightarrow> string" where
  "system_help ListMethods = ''Return an array of all available XML-RPC methods on this server.''"
| "system_help MethodExist = ''Tell whether a method by a specified name exists on this server''"
| "system_help MethodHelp = ''Given the name of a method, return a help string.''"
| "system_help MethodSignature =
     ''Given the name of a method, return an array of legal signatures. '' @
     ''Each signature is an array of strings.  The first item of each signature '' @
     ''is the return type, and any others items are parameter types.''"
| "system_help Multicall =
     ''Process an array of calls, and return an array of results.  Calls should '' @
     ''be structs of the form {'' @ [CHR 0x27] @ ''methodName'' @ [CHR 0x27] @ '': string, '' @ [CHR 0x27] @ ''params'' @
     [CHR 0x27] @ '': array}. Each '' @
     ''result will either be a single-item array containg the result value, or '' @
     ''a struct of the form {'' @ [CHR 0x27] @ ''faultCode'' @ [CHR 0x27] @ '': int, '' @ [CHR 0x27] @ ''faultString'' @
     [CHR 0x27] @ '': string}.  This '' @
     ''is useful when you need to make lots of small calls without lots of '' @
     ''round trips.''"
| "system_help Shutdown = ''Shut down the server.  Return code is always zero.''"
| "system_help Capabilities =
     ''Return the capabilities of XML-RPC server.  This includes the '' @
     ''version number of the XML-RPC For C/C++ software''"
| "system_help GetCapabilities =
     ''Return the list of standard capabilities of XML-RPC server.  '' @
     ''See http://tech.groups.yahoo.com/group/xml-rpc/message/2897''"

definition registerSystemMethod :: "(nat \<Rightarrow> bool) \<Rightarrow> system_method \<Rightarrow> (unit, 'd) registry_op" where
  "registerSystemMethod mok m registryP =
     (case xmlrpc_registry_add_method2 mok (system_name m) (SystemFn m) (Some (system_signature m)) (Some (system_help m)) registryP of
        Some (Inl f, registryP') \<Rightarrow>
          Some (Inl (faultf [Txt ''Failed to register '', Txt [CHR 0x27], PctS (system_name m), Txt [CHR 0x27],
                             Txt '' system method.  '', PctS (text_of f)]), registryP')
      | r \<Rightarrow> r)"

definition xmlrpc_installSystemMethods :: "(nat \<Rightarrow> bool) \<Rightarrow> (unit, 'd) registry_op" where
  "xmlrpc_installSystemMethods mok =
     each (registerSystemMethod mok)
       [ListMethods, MethodExist, MethodHelp, MethodSignature, Multicall, Shutdown, Capabilities, GetCapabilities]"

text \<open>After a fault the registry is freed, its list of methods is not, and the address of the registry is
  returned all the same.\<close>

definition xmlrpc_registry_new :: "(nat \<Rightarrow> bool) \<Rightarrow> 'd xmlrpc_registry result option" where
  "xmlrpc_registry_new mok =
     (if \<not> mok SIZEOF_REGISTRY then Some (Inl (faultf [Txt ''Could not allocate memory for registry'']))
      else case xmlrpc_methodListCreate mok of
        Inl f \<Rightarrow> Some (Inl f)
      | Inr ml \<Rightarrow>
          (case xmlrpc_installSystemMethods mok
                 \<lparr>introspectionEnabled = True, methodListP = ml, defaultMethodFunction = None, preinvokeFunction = None,
                  shutdownServerFn = None, dialect = Dialect_i8\<rparr> of
             None \<Rightarrow> None
           | Some (Inl f, _) \<Rightarrow> Some (Inl f)
           | Some (Inr _, registryP) \<Rightarrow> Some (Inr registryP)))"

section \<open>The registry as a table of methods\<close>

text \<open>What a program relies on when it registers methods: a table that starts with some names, where a
  name is added once and keeps what was added for it.\<close>

locale method_table =
  fixes good :: "'t \<Rightarrow> bool"
    and entries :: "'t \<Rightarrow> string \<Rightarrow> 'm option"
    and add :: "string \<Rightarrow> 'm \<Rightarrow> (unit, 't) op"
  assumes add_new: "good t \<Longrightarrow> entries t name = None \<Longrightarrow>
      \<exists>t'. add name m t = Some (Inr (), t') \<and> good t' \<and> entries t' = (entries t)(name \<mapsto> m)"
    and add_old: "good t \<Longrightarrow> entries t name \<noteq> None \<Longrightarrow> \<exists>f. add name m t = Some (Inl f, t)"
begin

lemma add_each:
  assumes "good t" "distinct (map fst ms)" "\<forall>name \<in> set (map fst ms). entries t name = None"
  shows "\<exists>t'. each (\<lambda>(name, m). add name m) ms t = Some (Inr (), t') \<and> good t' \<and> entries t' = entries t ++ map_of ms"
  using assms
proof (induction ms arbitrary: t)
  case Nil
  then show ?case by (simp add: hret_def)
next
  case (Cons nm ms)
  obtain name m where nm: "nm = (name, m)" by force
  obtain t1 where t1: "add name m t = Some (Inr (), t1)" "good t1" "entries t1 = (entries t)(name \<mapsto> m)"
    using add_new [OF Cons.prems(1), of name m] Cons.prems(3) nm by auto
  have "\<forall>n \<in> set (map fst ms). entries t1 n = None" using Cons.prems(2,3) nm t1(3) by auto
  then obtain t' where t': "each (\<lambda>(name, m). add name m) ms t1 = Some (Inr (), t')" "good t'" "entries t' = entries t1 ++ map_of ms"
    using Cons.IH [OF t1(2)] Cons.prems(2) by auto
  have "map_of ms name = None" using Cons.prems(2) nm by (auto simp: map_of_eq_None_iff)
  then have "entries t' = entries t ++ map_of (nm # ms)"
    unfolding t'(3) t1(3) nm by (auto simp: map_add_def fun_eq_iff split: option.splits)
  moreover have "each (\<lambda>(name, m). add name m) (nm # ms) t = Some (Inr (), t')"
    using t1(1) t'(1) by (simp add: nm hbind_def)
  ultimately show ?case using t'(2) by blast
qed

lemma add_twice:
  assumes "good t" "entries t name = None"
  shows "\<exists>t' f. add name m t = Some (Inr (), t') \<and> add name m' t' = Some (Inl f, t')"
  using add_new [OF assms, of m] add_old by fastforce

end

abbreviation registry_methods :: "'d xmlrpc_registry \<Rightarrow> string \<Rightarrow> 'd method_fn xmlrpc_methodInfo option" where
  "registry_methods registryP \<equiv> method_map (methodListP registryP)"

text \<open>All of the registry but its list of methods.\<close>

definition settings :: "'d xmlrpc_registry \<Rightarrow> 'd xmlrpc_registry" where
  "settings r = r\<lparr>methodListP := []\<rparr>"

definition table_of :: "'d xmlrpc_registry \<Rightarrow> 'd xmlrpc_registry \<Rightarrow> bool" where
  "table_of s r \<longleftrightarrow> methods_ok (methodListP r) \<and> settings r = s"

lemma methodListAdd_op_table:
  assumes "table_of s r"
  shows "registry_methods r name = None \<Longrightarrow>
      \<exists>r'. methodListAdd_op always name m r = Some (Inr (), r') \<and> table_of s r' \<and>
           registry_methods r' = (registry_methods r)(name \<mapsto> m)"
    "registry_methods r name \<noteq> None \<Longrightarrow> \<exists>f. methodListAdd_op always name m r = Some (Inl f, r)"
proof -
  have ok: "methods_ok (methodListP r)" "settings r = s" using assms by (simp_all add: table_of_def)
  show "registry_methods r name = None \<Longrightarrow>
      \<exists>r'. methodListAdd_op always name m r = Some (Inr (), r') \<and> table_of s r' \<and>
           registry_methods r' = (registry_methods r)(name \<mapsto> m)"
    using method_added [OF ok(1), of name m] ok(2)
    by (auto simp: methodListAdd_op_def method_list_add [OF ok(1)] always_def table_of_def settings_def)
  show "registry_methods r name \<noteq> None \<Longrightarrow> \<exists>f. methodListAdd_op always name m r = Some (Inl f, r)"
    by (simp add: methodListAdd_op_def method_list_add [OF ok(1)])
qed

interpretation registry_table: method_table "table_of s" registry_methods "methodListAdd_op always" for s
  by unfold_locales (rule methodListAdd_op_table; assumption)+

section \<open>What the functions do\<close>

lemma system_names_distinct: "system_name m = system_name m' \<longleftrightarrow> m = m'"
  by (cases m; cases m') simp_all

text \<open>The built-in methods with what \<open>xmlrpc_methodCreate\<close> makes of their signature strings.\<close>

definition all_system_methods :: "system_method list" where
  "all_system_methods = [ListMethods, MethodExist, MethodHelp, MethodSignature, Multicall, Shutdown, Capabilities, GetCapabilities]"

fun system_types :: "system_method \<Rightarrow> xmlrpc_signature" where
  "system_types ListMethods = \<lparr>retType = ''array'', argList = []\<rparr>"
| "system_types MethodExist = \<lparr>retType = ''string'', argList = [''boolean'']\<rparr>"
| "system_types MethodHelp = \<lparr>retType = ''string'', argList = [''string'']\<rparr>"
| "system_types MethodSignature = \<lparr>retType = ''array'', argList = [''string'']\<rparr>"
| "system_types Multicall = \<lparr>retType = ''array'', argList = [''array'']\<rparr>"
| "system_types Shutdown = \<lparr>retType = ''int'', argList = [''string'']\<rparr>"
| "system_types Capabilities = \<lparr>retType = ''struct'', argList = []\<rparr>"
| "system_types GetCapabilities = \<lparr>retType = ''struct'', argList = []\<rparr>"

definition system_info :: "system_method \<Rightarrow> 'd method_fn xmlrpc_methodInfo" where
  "system_info m = \<lparr>methodFn = SystemFn m, stackSize = 0, signatureListP = [system_types m], helpText = system_help m\<rparr>"

lemma system_signature_text: "sig_ok (system_types m) \<and> system_signature m = sigs_text [system_types m]"
  by (cases m) (simp_all add: sig_ok_def sig_text_def letter_of_def type_names_def type_letters_def)

lemma system_method_created:
  "xmlrpc_methodCreate always (SystemFn m) (Some (system_signature m)) (system_help m) 0 = Some (Inr (system_info m))"
proof -
  have "listSignatures always (system_signature m) = Some (Inr [system_types m])"
    using system_signature_text [of m] list_signatures_text [of "[system_types m]" "[]"]
    by (simp add: listSignatures_def)
  moreover have "system_signature m \<noteq> ''?''" by (cases m) simp_all
  ultimately show ?thesis
    by (simp add: xmlrpc_methodCreate_def makeSignatureList_def signatureListCreate_def xmlrpc_strdupsol_def system_info_def always_def)
qed

lemma registerSystemMethod_adds:
  assumes "methodListAdd_op always (system_name m) (system_info m) r = Some (Inr (), r')"
  shows "registerSystemMethod always m r = Some (Inr (), r')"
  using assms
  by (simp add: registerSystemMethod_def xmlrpc_registry_add_method2_def registryAddMethod_def system_method_created hbind_def hoption_def)

lemma each_follows:
  assumes "\<And>x s s'. x \<in> set xs \<Longrightarrow> g x s = Some (Inr (), s') \<Longrightarrow> f x s = Some (Inr (), s')"
    "each g xs s = Some (Inr (), s')"
  shows "each f xs s = Some (Inr (), s')"
  using assms
proof (induction xs arbitrary: s)
  case (Cons x xs)
  obtain s1 where s1: "g x s = Some (Inr (), s1)" "each g xs s1 = Some (Inr (), s')"
    using Cons.prems(2) by (auto simp: hbind_def split: option.splits sum.splits)
  then show ?case using Cons.prems(1) Cons.IH [of s1] by (simp add: hbind_def)
qed simp

lemma new_registry_table:
  "\<exists>r. xmlrpc_registry_new always = Some (Inr r) \<and> methods_ok (methodListP r) \<and>
     registry_methods r = map_of (map (\<lambda>m. (system_name m, system_info m)) all_system_methods) \<and>
     settings r = \<lparr>introspectionEnabled = True, methodListP = [], defaultMethodFunction = None, preinvokeFunction = None,
                   shutdownServerFn = None, dialect = Dialect_i8\<rparr>"
proof -
  let ?r0 = "\<lparr>introspectionEnabled = True, methodListP = [], defaultMethodFunction = None, preinvokeFunction = None,
    shutdownServerFn = None, dialect = Dialect_i8\<rparr> :: 'a xmlrpc_registry"
  let ?ms = "map (\<lambda>m. (system_name m, system_info m)) all_system_methods"
  have start: "table_of ?r0 ?r0" by (simp add: table_of_def methods_ok_def settings_def)
  have none: "registry_methods ?r0 n = None" for n by (simp add: method_map_def)
  have "distinct (map fst ?ms)" by (simp add: all_system_methods_def)
  from registry_table.add_each [OF start this] none obtain r where
    r: "each (\<lambda>(name, m). methodListAdd_op always name m) ?ms ?r0 = Some (Inr (), r)" "table_of ?r0 r"
      "registry_methods r = registry_methods ?r0 ++ map_of ?ms"
    by auto
  have "each (registerSystemMethod always) all_system_methods ?r0 = Some (Inr (), r)"
    by (rule each_follows [where g = "\<lambda>m. methodListAdd_op always (system_name m) (system_info m)"])
      (use r(1) registerSystemMethod_adds in \<open>auto simp: each_map\<close>)
  then have "xmlrpc_registry_new always = Some (Inr r)"
    by (simp add: xmlrpc_registry_new_def xmlrpc_installSystemMethods_def all_system_methods_def xmlrpc_methodListCreate_def always_def
        del: each.simps)
  moreover have "registry_methods ?r0 = Map.empty" using none by auto
  ultimately show ?thesis using r(2,3) by (auto simp: table_of_def)
qed

text \<open>What a signature string says of a method: nothing, or the signatures it lists.\<close>

fun signature_says :: "string option \<Rightarrow> xmlrpc_signature list \<Rightarrow> bool" where
  "signature_says None sigs \<longleftrightarrow> sigs = []"
| "signature_says (Some s) sigs \<longleftrightarrow>
     (if s = ''?'' then sigs = []
      else sigs \<noteq> [] \<and> list_all sig_ok sigs \<and> (s = sigs_text sigs \<or> s = sigs_text sigs @ '',''))"

lemma argument_types_always: "argument_types always ts s \<noteq> None"
  by (induction s arbitrary: ts) (auto simp: makeRoomInArgList_def always_def split: sum.split)

lemma list_signatures_returns: "list_signatures always sigs s \<noteq> None"
proof (induction "always :: nat \<Rightarrow> bool" sigs s rule: list_signatures.induct)
  case (1 sigs s)
  have "parseOneSignature always s \<noteq> None"
    by (auto simp: argument_types_always parseOneSignature_def parseArgumentTypeSpecifiers_def split: list.split sum.split option.split)
  then show ?case
    using 1 by (subst list_signatures.simps) (auto split: sum.split)
qed

lemma makeSignatureList_cases:
  obtains (good) sigs where "makeSignatureList always sg = Some (Inr sigs)" "signature_says sg sigs"
  | (bad) f where "makeSignatureList always sg = Some (Inl f)" "\<nexists>sigs. signature_says sg sigs"
proof (cases sg)
  case None
  then show ?thesis using good by (simp add: makeSignatureList_def signatureListCreate_def always_def)
next
  case (Some s)
  obtain r where r: "listSignatures always s = Some r"
    using list_signatures_returns [of "[]" s] by (auto simp: listSignatures_def)
  show ?thesis
  proof (cases "s = ''?''")
    case True
    then show ?thesis using good Some by (simp add: makeSignatureList_def signatureListCreate_def always_def)
  next
    case False
    show ?thesis
    proof (cases "\<exists>sigs. sigs \<noteq> [] \<and> r = Inr sigs")
      case True
      then obtain sigs where sigs: "sigs \<noteq> []" "r = Inr sigs" by blast
      then have "makeSignatureList always sg = Some (Inr sigs)"
        using Some False r by (cases sigs) (simp_all add: makeSignatureList_def signatureListCreate_def always_def)
      moreover have "signature_says sg sigs"
        using sigs r list_signatures_exact [of s sigs] Some False by auto
      ultimately show ?thesis by (rule good)
    next
      case no: False
      have none: "\<nexists>sigs. signature_says sg sigs"
      proof
        assume "\<exists>sigs. signature_says sg sigs"
        then obtain sigs where "sigs \<noteq> []" "listSignatures always s = Some (Inr sigs)"
          using list_signatures_exact [of s] Some False by auto
        then show False using r no by simp
      qed
      have "\<exists>f. makeSignatureList always sg = Some (Inl f)"
      proof (cases r)
        case (Inr sigs)
        then have "sigs = []" using no by simp
        then show ?thesis using Inr Some False r by (simp add: makeSignatureList_def signatureListCreate_def always_def)
      qed (use Some False r in \<open>simp add: makeSignatureList_def signatureListCreate_def always_def\<close>)
      then show ?thesis using bad none by blast
    qed
  qed
qed

lemma max_stackSize_snoc:
  "xmlrpc_registry_max_stackSize (r\<lparr>methodListP := ml @ [p]\<rparr>) =
   max (xmlrpc_registry_max_stackSize (r\<lparr>methodListP := ml\<rparr>)) (methodStackSize (methodP p))"
  by (simp add: xmlrpc_registry_max_stackSize_def)

lemma methodListAdd_op_stack:
  assumes "methodListAdd_op always name m r = Some (Inr (), r')" "methods_ok (methodListP r)"
  shows "xmlrpc_registry_max_stackSize r' = max (xmlrpc_registry_max_stackSize r) (methodStackSize m)"
  using assms max_stackSize_snoc [where r = r and ml = "methodListP r"]
  by (auto simp: methodListAdd_op_def method_list_add [OF assms(2)] split: if_splits)

text \<open>C18: registering a method with any registry either adds it or leaves the registry as it was.  It is
  added exactly when its name is new and its signature string lists signatures (or says that there are none):
  then looking methods up is the old look-up updated at this one name, with the function, the
  signatures, the help text and the stack size that were given, nothing else of the registry changes,
  and the stack a method may need is the largest of what was needed and what this method asks for.\<close>
theorem registry_add_method_exact:
  assumes "methods_ok (methodListP r)"
  shows "case xmlrpc_registry_add_method3 always name fn sg doc stack r of
      None \<Rightarrow> False
    | Some (Inl _, r') \<Rightarrow> r' = r \<and> (registry_methods r name \<noteq> None \<or> (\<nexists>sigs. signature_says sg sigs))
    | Some (Inr _, r') \<Rightarrow>
        registry_methods r name = None \<and> methods_ok (methodListP r') \<and> settings r' = settings r \<and>
        (\<exists>sigs. signature_says sg sigs \<and>
           registry_methods r' = (registry_methods r)(name \<mapsto>
             \<lparr>methodFn = UserFn fn, stackSize = stack, signatureListP = sigs,
              helpText = (case doc of None \<Rightarrow> no_help | Some t \<Rightarrow> t)\<rparr>)) \<and>
        xmlrpc_registry_max_stackSize r' =
          max (xmlrpc_registry_max_stackSize r) (if stack = 0 then 128 * 1024 else stack)"
proof (cases sg rule: makeSignatureList_cases)
  case (bad f)
  then show ?thesis
    by (simp add: xmlrpc_registry_add_method3_def registryAddMethod_def xmlrpc_methodCreate_def always_def
        hbind_def hoption_def)
next
  case (good sigs)
  let ?m = "\<lparr>methodFn = UserFn fn, stackSize = stack, signatureListP = sigs,
    helpText = (case doc of None \<Rightarrow> no_help | Some t \<Rightarrow> t)\<rparr>"
  have t: "table_of (settings r) r" using assms by (simp add: table_of_def)
  have step: "xmlrpc_registry_add_method3 always name fn sg doc stack r = methodListAdd_op always name ?m r"
    using good
    by (simp add: xmlrpc_registry_add_method3_def registryAddMethod_def xmlrpc_methodCreate_def always_def
        xmlrpc_strdupsol_def hbind_def hoption_def)
  show ?thesis
  proof (cases "registry_methods r name")
    case None
    obtain r' where r': "methodListAdd_op always name ?m r = Some (Inr (), r')" "table_of (settings r) r'"
        "registry_methods r' = (registry_methods r)(name \<mapsto> ?m)"
      using registry_table.add_new [OF t None] by blast
    then show ?thesis
      using None step good(2) methodListAdd_op_stack [OF r'(1) assms]
      by (auto simp: table_of_def methodStackSize_def METHOD_FUNCTION_STACK_def)
  next
    case (Some m)
    then obtain f where "methodListAdd_op always name ?m r = Some (Inl f, r)"
      using registry_table.add_old [OF t, of name] by fastforce
    then show ?thesis using Some step by simp
  qed
qed

text \<open>A new registry: a method with two signatures is added; a built-in method is not replaced.\<close>

lemma registry_add_method_exact_witness:
  "\<exists>r. xmlrpc_registry_new always = Some (Inr (r :: unit xmlrpc_registry)) \<and>
     (\<exists>r'. xmlrpc_registry_add_method3 always ''sum'' (\<lambda>_. hret 0) (Some ''i:ii,d:dd'') None 4096 r = Some (Inr (), r') \<and>
        registry_methods r' = (registry_methods r)(''sum'' \<mapsto>
          \<lparr>methodFn = UserFn (\<lambda>_. hret 0), stackSize = 4096,
           signatureListP = [\<lparr>retType = ''int'', argList = [''int'', ''int'']\<rparr>, \<lparr>retType = ''double'', argList = [''double'', ''double'']\<rparr>],
           helpText = ''No help is available for this method.''\<rparr>)) \<and>
     (\<exists>f. xmlrpc_registry_add_method3 always ''system.listMethods'' (\<lambda>_. hret 0) (Some ''A:'') None 0 r = Some (Inl f, r))"
proof -
  let ?sigs = "[\<lparr>retType = ''int'', argList = [''int'', ''int'']\<rparr>, \<lparr>retType = ''double'', argList = [''double'', ''double'']\<rparr>]"
  obtain r :: "unit xmlrpc_registry" where new: "xmlrpc_registry_new always = Some (Inr r)" "methods_ok (methodListP r)"
      "registry_methods r = map_of (map (\<lambda>m. (system_name m, system_info m)) all_system_methods)"
    using new_registry_table by blast
  have sum: "registry_methods r ''sum'' = None" and old: "registry_methods r ''system.listMethods'' \<noteq> None"
    unfolding new(3) all_system_methods_def by simp_all
  have listed: "listSignatures always ''i:ii,d:dd'' = Some (Inr ?sigs)" by code_simp
  have says: "signature_says (Some ''i:ii,d:dd'') sigs \<longleftrightarrow> sigs = ?sigs" for sigs
    using list_signatures_exact [of "''i:ii,d:dd''" sigs] listed by auto
  note add = registry_add_method_exact [OF new(2)]
  have "\<exists>r'. xmlrpc_registry_add_method3 always ''sum'' (\<lambda>_. hret 0) (Some ''i:ii,d:dd'') None 4096 r = Some (Inr (), r') \<and>
      registry_methods r' = (registry_methods r)(''sum'' \<mapsto>
        \<lparr>methodFn = UserFn (\<lambda>_. hret 0), stackSize = 4096, signatureListP = ?sigs,
         helpText = ''No help is available for this method.''\<rparr>)"
  proof -
    note added = add [where name = "''sum''" and fn = "\<lambda>_. hret 0" and sg = "Some ''i:ii,d:dd''" and doc = None and stack = 4096]
    show ?thesis
    proof (cases "xmlrpc_registry_add_method3 always ''sum'' (\<lambda>_. hret 0) (Some ''i:ii,d:dd'') None 4096 r")
      case (Some out)
      then show ?thesis
        using added sum unfolding says by (cases out; cases "fst out") (auto simp: no_help_def)
    qed (use added in simp)
  qed
  moreover have "\<exists>f. xmlrpc_registry_add_method3 always ''system.listMethods'' (\<lambda>_. hret 0) (Some ''A:'') None 0 r = Some (Inl f, r)"
  proof -
    note refused = add [where name = "''system.listMethods''" and fn = "\<lambda>_. hret 0" and sg = "Some ''A:''" and doc = None and stack = 0]
    show ?thesis
    proof (cases "xmlrpc_registry_add_method3 always ''system.listMethods'' (\<lambda>_. hret 0) (Some ''A:'') None 0 r")
      case (Some out)
      then show ?thesis using refused old by (cases out; cases "fst out") auto
    qed (use refused in simp)
  qed
  ultimately show ?thesis using new(1) by blast
qed

end
