(* ===== verification/System_Method.thy ===== *)
theory System_Method
  imports Registry
begin

text \<open>
  The built-in methods of a server (\<open>src/system_method.c\<close>) and the dispatch of a call to its method
  (\<open>src/registry.c\<close>).  The version numbers of the library come from a file the build generates and are
  parameters.  \<open>system.multicall\<close> dispatches the calls it is given, so dispatch takes the depth it
  may still go; a call of \<open>system.multicall\<close> from itself is refused, and two levels are enough.
\<close>

section \<open>Common steps\<close>

text \<open>Steps after which the code goes on, or asserts that there was no fault.\<close>

definition no_fault :: "('a, 's) op \<Rightarrow> ('a, 's) op" where
  "no_fault m s = (case m s of Some (Inl _, _) \<Rightarrow> None | r \<Rightarrow> r)"

definition decompose_in ::
    "(nat \<Rightarrow> bool) \<Rightarrow> string \<Rightarrow> 'd va_arg list \<Rightarrow> nat \<Rightarrow> (nat \<Rightarrow> ('d, nat) out_val option, 'd) heap_op" where
  "decompose_in mok fmt arguments p h =
     (case xmlrpc_decompose_value mok fmt arguments p \<lparr>dheap = h, vars = Map.empty\<rparr> of
        None \<Rightarrow> None
      | Some (Inl f, st) \<Rightarrow> Some (Inl f, dheap st)
      | Some (Inr _, st) \<Rightarrow> Some (Inr (vars st), dheap st))"

definition string_var :: "(nat \<Rightarrow> ('d, nat) out_val option) \<Rightarrow> nat \<Rightarrow> (string, 'd) heap_op" where
  "string_var vs d = (case vs d of Some (OutString s) \<Rightarrow> hret s | _ \<Rightarrow> (\<lambda>h. None))"

definition value_var :: "(nat \<Rightarrow> ('d, nat) out_val option) \<Rightarrow> nat \<Rightarrow> (nat, 'd) heap_op" where
  "value_var vs d = (case vs d of Some (OutValue p) \<Rightarrow> hret p | _ \<Rightarrow> (\<lambda>h. None))"

text \<open>The one string parameter most built-in methods take.\<close>

definition one_string :: "(nat \<Rightarrow> bool) \<Rightarrow> nat \<Rightarrow> (string, 'd) heap_op" where
  "one_string mok paramArrayP = hbind (decompose_in mok ''(s)'' [VaDest 0] paramArrayP) (\<lambda>vs. string_var vs 0)"

definition lookup_method ::
    "'d xmlrpc_registry \<Rightarrow> string \<Rightarrow> ('d method_fn xmlrpc_methodInfo option, 'd) heap_op" where
  "lookup_method registryP name =
     (case xmlrpc_methodListLookupByName (methodListP registryP) name of None \<Rightarrow> (\<lambda>h. None) | Some m \<Rightarrow> hret m)"

definition new_string :: "(nat \<Rightarrow> bool) \<Rightarrow> string \<Rightarrow> (nat, 'd) heap_op" where
  "new_string mok s = new_scalar (xmlrpc_string_new mok s)"

definition change_fault :: "(fault \<Rightarrow> fault) \<Rightarrow> ('a, 's) op \<Rightarrow> ('a, 's) op" where
  "change_fault g m s =
     (case m s of None \<Rightarrow> None | Some (Inl f, s') \<Rightarrow> Some (Inl (g f), s') | Some (Inr x, s') \<Rightarrow> Some (Inr x, s'))"

definition no_such_method :: "string \<Rightarrow> fault" where
  "no_such_method name =
     set_fault_formatted XMLRPC_NO_SUCH_METHOD_ERROR
       [Txt ''Method '', Txt [CHR 0x27], PctS name, Txt [CHR 0x27], Txt '' does not exist'']"

definition introspection_disabled :: fault where
  "introspection_disabled =
     set_fault_formatted XMLRPC_INTROSPECTION_DISABLED_ERROR
       [Txt ''Introspection is disabled in this server '', Txt ''for security reasons'']"

definition invalid_parameters :: "fault \<Rightarrow> fault" where
  "invalid_parameters f = set_fault_formatted (code_of f) [Txt ''Invalid parameter list.  '', PctS (text_of f)]"

section \<open>system.multicall\<close>

text \<open>\<open>dispatch\<close> is \<open>xmlrpc_dispatchCall\<close> for the calls in the array.\<close>

definition dispatch_one ::
    "(nat \<Rightarrow> bool) \<Rightarrow> (string \<Rightarrow> nat \<Rightarrow> (nat, 'd) heap_op) \<Rightarrow> string \<Rightarrow> nat \<Rightarrow> (nat, 'd) heap_op" where
  "dispatch_one mok dispatch name paramArrayP =
     (if name = ''system.multicall''
      then hfail (set_fault_formatted XMLRPC_REQUEST_REFUSED_ERROR [Txt ''Recursive system.multicall forbidden''])
      else (\<lambda>h.
        case dispatch name paramArrayP h of
          None \<Rightarrow> None
        | Some (Inl f, h') \<Rightarrow>
            xmlrpc_build_value mok ''{s:i,s:s}''
              [VaString ''faultCode'', VaInt (word_of_int (code_of f)), VaString ''faultString'', VaString (text_of f)] h'
        | Some (Inr resultValP, h') \<Rightarrow>
            hfinally (xmlrpc_build_value mok ''(V)'' [VaValue resultValP]) (xmlrpc_DECREF resultValP) h'))"

definition callOneMethod ::
    "(nat \<Rightarrow> bool) \<Rightarrow> (string \<Rightarrow> nat \<Rightarrow> (nat, 'd) heap_op) \<Rightarrow> nat \<Rightarrow> (nat, 'd) heap_op" where
  "callOneMethod mok dispatch rpcDescP =
     hbind (get_body rpcDescP) (\<lambda>b.
       if body_type b \<noteq> TYPE_STRUCT
       then hfail (set_fault_formatted XMLRPC_TYPE_ERROR
              [Txt ''An element of the multicall array is type '', PctU (nat (type_number (body_type b))), Txt '', but should '',
               Txt ''be a struct (with members '', Txt [CHR 0x27], Txt ''methodName'', Txt [CHR 0x27], Txt '' and '',
               Txt [CHR 0x27], Txt ''params'', Txt [CHR 0x27], Txt '')''])
       else
         hbind (decompose_in mok ''{s:s,s:A,*}'' [VaString ''methodName'', VaDest 0, VaString ''params'', VaDest 1] rpcDescP) (\<lambda>vs.
         hbind (string_var vs 0) (\<lambda>methodName.
         hbind (value_var vs 1) (\<lambda>paramArrayP.
           hfinally
             (dispatch_one mok dispatch methodName paramArrayP)
             (xmlrpc_DECREF paramArrayP)))))"

definition getMethListFromMulticallPlist :: "nat \<Rightarrow> (nat, 'd) heap_op" where
  "getMethListFromMulticallPlist paramArrayP =
     hbind (xmlrpc_array_size paramArrayP) (\<lambda>n.
       if n \<noteq> 1
       then hfail (set_fault_formatted XMLRPC_PARSE_ERROR
              [Txt ''system.multicall takes one parameter, which is an '', Txt ''array, each element describing one RPC.  You '',
               Txt ''supplied '', PctU n, Txt '' arguments''])
       else hbind (xmlrpc_array_read_item paramArrayP 0) (\<lambda>methlistP.
         hcleanup
           (hbind (get_body methlistP) (\<lambda>b.
              if body_type b \<noteq> TYPE_ARRAY
              then hfail (set_fault_formatted XMLRPC_TYPE_ERROR
                     [Txt ''system.multicall'', Txt [CHR 0x27], Txt ''s parameter should be an array, '',
                      Txt ''each element describing one RPC.  But it is type '', PctU (nat (type_number (body_type b))), Txt '' instead.''])
              else hret methlistP))
           (xmlrpc_DECREF methlistP)))"

text \<open>When the array of the results cannot be made, the array of the calls is not released.\<close>

definition system_multicall ::
    "(nat \<Rightarrow> bool) \<Rightarrow> (string \<Rightarrow> nat \<Rightarrow> (nat, 'd) heap_op) \<Rightarrow> nat \<Rightarrow> (nat, 'd) heap_op" where
  "system_multicall mok dispatch paramArrayP =
     hbind (assert_array_ok paramArrayP) (\<lambda>_.
     hbind (getMethListFromMulticallPlist paramArrayP) (\<lambda>methlistP.
     hbind (xmlrpc_array_new mok) (\<lambda>resultsP.
       hfinally
         (hcleanup
           (hbind (xmlrpc_array_size methlistP) (\<lambda>methodCount.
            hbind (each (\<lambda>i.
                     hbind (xmlrpc_array_get_item methlistP (int i)) (\<lambda>methinfoP.
                       append_new mok resultsP (callOneMethod mok dispatch methinfoP))) [0..<methodCount]) (\<lambda>_.
            hret resultsP)))
           (xmlrpc_DECREF resultsP))
         (xmlrpc_DECREF methlistP))))"

section \<open>system.listMethods\<close>

definition createMethodListArray :: "(nat \<Rightarrow> bool) \<Rightarrow> 'd xmlrpc_registry \<Rightarrow> (nat, 'd) heap_op" where
  "createMethodListArray mok registryP =
     hbind (xmlrpc_array_new mok) (\<lambda>listP.
       hcleanup
         (hbind (each (append_new mok listP)
                  (map (\<lambda>node. case methodName node of None \<Rightarrow> (\<lambda>h. None) | Some name \<Rightarrow> new_string mok name)
                     (methodListP registryP))) (\<lambda>_.
          hret listP))
         (xmlrpc_DECREF listP))"

definition system_listMethods :: "(nat \<Rightarrow> bool) \<Rightarrow> 'd xmlrpc_registry \<Rightarrow> nat \<Rightarrow> (nat, 'd) heap_op" where
  "system_listMethods mok registryP paramArrayP =
     hbind (decompose_in mok ''()'' [] paramArrayP) (\<lambda>_.
       if \<not> introspectionEnabled registryP then hfail introspection_disabled
       else createMethodListArray mok registryP)"

section \<open>system.methodExist and system.methodHelp\<close>

definition determineMethodExistence :: "(nat \<Rightarrow> bool) \<Rightarrow> string \<Rightarrow> 'd xmlrpc_registry \<Rightarrow> (nat, 'd) heap_op" where
  "determineMethodExistence mok name registryP =
     hbind (lookup_method registryP name) (\<lambda>m. new_scalar (xmlrpc_bool_new mok (if m \<noteq> None then 1 else 0)))"

definition system_methodExist :: "(nat \<Rightarrow> bool) \<Rightarrow> 'd xmlrpc_registry \<Rightarrow> nat \<Rightarrow> (nat, 'd) heap_op" where
  "system_methodExist mok registryP paramArrayP =
     hbind (one_string mok paramArrayP) (\<lambda>name. determineMethodExistence mok name registryP)"

definition getHelpString :: "(nat \<Rightarrow> bool) \<Rightarrow> string \<Rightarrow> 'd xmlrpc_registry \<Rightarrow> (nat, 'd) heap_op" where
  "getHelpString mok name registryP =
     hbind (lookup_method registryP name) (\<lambda>m.
       case m of None \<Rightarrow> hfail (no_such_method name) | Some info \<Rightarrow> new_string mok (helpText info))"

definition system_methodHelp :: "(nat \<Rightarrow> bool) \<Rightarrow> 'd xmlrpc_registry \<Rightarrow> nat \<Rightarrow> (nat, 'd) heap_op" where
  "system_methodHelp mok registryP paramArrayP =
     hbind (one_string mok paramArrayP) (\<lambda>name.
       if \<not> introspectionEnabled registryP then hfail introspection_disabled
       else getHelpString mok name registryP)"

section \<open>system.methodSignature\<close>

definition buildNoSigSuppliedResult :: "(nat \<Rightarrow> bool) \<Rightarrow> (nat, 'd) heap_op" where
  "buildNoSigSuppliedResult mok =
     change_fault (\<lambda>f. faultf [Txt ''Unable to construct '', Txt [CHR 0x27], Txt ''undef'', Txt [CHR 0x27], Txt ''.  '',
                               PctS (text_of f)])
       (new_string mok ''undef'')"

text \<open>
  The array and the name of the result type are used whether or not they could be made, and so is
  the value of a signature.
\<close>

definition buildSignatureValue :: "(nat \<Rightarrow> bool) \<Rightarrow> xmlrpc_signature \<Rightarrow> (nat, 'd) heap_op" where
  "buildSignatureValue mok signatureP =
     hbind (no_fault (xmlrpc_array_new mok)) (\<lambda>sigValueP.
       hcleanup
         (hbind (append_new mok sigValueP (no_fault (new_string mok (retType signatureP)))) (\<lambda>_.
          hbind (each (append_new mok sigValueP) (map (new_string mok) (argList signatureP))) (\<lambda>_.
          hret sigValueP)))
         (xmlrpc_DECREF sigValueP))"

definition getSignatureList :: "(nat \<Rightarrow> bool) \<Rightarrow> 'd xmlrpc_registry \<Rightarrow> string \<Rightarrow> (nat option, 'd) heap_op" where
  "getSignatureList mok registryP name =
     hbind (lookup_method registryP name) (\<lambda>m.
       case m of
         None \<Rightarrow> hfail (no_such_method name)
       | Some info \<Rightarrow>
           if signatureListP info = [] then hret None
           else hbind (xmlrpc_array_new mok) (\<lambda>listP.
             hcleanup
               (hbind (each (append_new mok listP)
                        (map (\<lambda>sig. no_fault (buildSignatureValue mok sig)) (signatureListP info))) (\<lambda>_.
                hret (Some listP)))
               (xmlrpc_DECREF listP)))"

definition system_methodSignature :: "(nat \<Rightarrow> bool) \<Rightarrow> 'd xmlrpc_registry \<Rightarrow> nat \<Rightarrow> (nat, 'd) heap_op" where
  "system_methodSignature mok registryP paramArrayP =
     hbind (change_fault invalid_parameters (one_string mok paramArrayP)) (\<lambda>name.
       if \<not> introspectionEnabled registryP
       then hfail (set_fault XMLRPC_INTROSPECTION_DISABLED_ERROR ''Introspection disabled on this server'')
       else hbind (getSignatureList mok registryP name) (\<lambda>r.
         case r of Some listP \<Rightarrow> hret listP | None \<Rightarrow> buildNoSigSuppliedResult mok))"

section \<open>system.shutdown\<close>

definition system_shutdown :: "(nat \<Rightarrow> bool) \<Rightarrow> 'd xmlrpc_registry \<Rightarrow> nat \<Rightarrow> (nat, 'd) heap_op" where
  "system_shutdown mok registryP paramArrayP =
     hbind (change_fault invalid_parameters (one_string mok paramArrayP)) (\<lambda>comment.
       case shutdownServerFn registryP of
         None \<Rightarrow> hfail (set_fault 0 (''This server program is not capable of '' @ ''shutting down''))
       | Some f \<Rightarrow>
           hbind (change_fault (\<lambda>e. set_fault (code_of e) (text_of e)) (f comment)) (\<lambda>_.
             change_fault (\<lambda>e. faultf [Txt ''Failed to construct return value.  '', PctS (text_of e)])
               (new_scalar (xmlrpc_int_new mok 0))))"

section \<open>system.capabilities and system.getCapabilities\<close>

definition no_parameters :: "nat \<Rightarrow> (unit, 'd) heap_op" where
  "no_parameters paramArrayP =
     hbind (xmlrpc_array_size paramArrayP) (\<lambda>paramCount.
       if 0 < paramCount
       then hfail (set_fault_formatted XMLRPC_INDEX_ERROR [Txt ''There are no parameters.  You supplied '', PctU paramCount])
       else hret ())"

definition constructCapabilities :: "(nat \<Rightarrow> bool) \<Rightarrow> 32 word \<times> 32 word \<times> 32 word \<Rightarrow> (nat, 'd) heap_op" where
  "constructCapabilities mok version =
     xmlrpc_build_value mok ''{s:s,s:i,s:i,s:i,s:i}''
       [VaString ''facility'', VaString ''xmlrpc-c'',
        VaString ''version_major'', VaInt (fst version),
        VaString ''version_minor'', VaInt (fst (snd version)),
        VaString ''version_point'', VaInt (snd (snd version)),
        VaString ''protocol_version'', VaInt 2]"

definition system_capabilities :: "(nat \<Rightarrow> bool) \<Rightarrow> 32 word \<times> 32 word \<times> 32 word \<Rightarrow> nat \<Rightarrow> (nat, 'd) heap_op" where
  "system_capabilities mok version paramArrayP = hbind (no_parameters paramArrayP) (\<lambda>_. constructCapabilities mok version)"

definition listCapabilities :: "(nat \<Rightarrow> bool) \<Rightarrow> (nat, 'd) heap_op" where
  "listCapabilities mok =
     xmlrpc_build_value mok ''{s:{s:s,s:i}}''
       [VaString ''introspect'', VaString ''specUrl'',
        VaString ''http://xmlrpc-c.sourceforge.net/xmlrpc-c/introspection.html'', VaString ''specVersion'', VaInt 1]"

definition system_getCapabilities :: "(nat \<Rightarrow> bool) \<Rightarrow> nat \<Rightarrow> (nat, 'd) heap_op" where
  "system_getCapabilities mok paramArrayP = hbind (no_parameters paramArrayP) (\<lambda>_. listCapabilities mok)"

section \<open>Dispatch\<close>

record server =
  malloc_ok :: "nat \<Rightarrow> bool"
  version :: "32 word \<times> 32 word \<times> 32 word"

fun system_call ::
    "server \<Rightarrow> 'd xmlrpc_registry \<Rightarrow> (string \<Rightarrow> nat \<Rightarrow> (nat, 'd) heap_op) \<Rightarrow> system_method \<Rightarrow> nat \<Rightarrow> (nat, 'd) heap_op" where
  "system_call sv r dispatch ListMethods p = system_listMethods (malloc_ok sv) r p"
| "system_call sv r dispatch MethodExist p = system_methodExist (malloc_ok sv) r p"
| "system_call sv r dispatch MethodHelp p = system_methodHelp (malloc_ok sv) r p"
| "system_call sv r dispatch MethodSignature p = system_methodSignature (malloc_ok sv) r p"
| "system_call sv r dispatch Multicall p = system_multicall (malloc_ok sv) dispatch p"
| "system_call sv r dispatch Shutdown p = system_shutdown (malloc_ok sv) r p"
| "system_call sv r dispatch Capabilities p = system_capabilities (malloc_ok sv) (version sv) p"
| "system_call sv r dispatch GetCapabilities p = system_getCapabilities (malloc_ok sv) p"

definition callNamedMethod ::
    "server \<Rightarrow> 'd xmlrpc_registry \<Rightarrow> (string \<Rightarrow> nat \<Rightarrow> (nat, 'd) heap_op) \<Rightarrow> 'd method_fn xmlrpc_methodInfo \<Rightarrow> nat \<Rightarrow>
     (nat, 'd) heap_op" where
  "callNamedMethod sv r dispatch m paramArrayP =
     (case methodFn m of UserFn f \<Rightarrow> f paramArrayP | SystemFn s \<Rightarrow> system_call sv r dispatch s paramArrayP)"

definition not_defined :: "string \<Rightarrow> fault" where
  "not_defined name =
     set_fault_formatted XMLRPC_NO_SUCH_METHOD_ERROR [Txt ''Method '', Txt [CHR 0x27], PctS name, Txt [CHR 0x27], Txt '' not defined'']"

definition dispatch_step ::
    "server \<Rightarrow> 'd xmlrpc_registry \<Rightarrow> (string \<Rightarrow> nat \<Rightarrow> (nat, 'd) heap_op) \<Rightarrow> string \<Rightarrow> nat \<Rightarrow> (nat, 'd) heap_op" where
  "dispatch_step sv r dispatch name paramArrayP =
     hbind (case preinvokeFunction r of None \<Rightarrow> hret () | Some f \<Rightarrow> f name paramArrayP) (\<lambda>_.
     hbind (lookup_method r name) (\<lambda>m.
       case m of
         Some info \<Rightarrow> callNamedMethod sv r dispatch info paramArrayP
       | None \<Rightarrow>
           (case defaultMethodFunction r of
              Some f \<Rightarrow> f name paramArrayP
            | None \<Rightarrow> hfail (not_defined name))))"

fun dispatch_depth :: "nat \<Rightarrow> server \<Rightarrow> 'd xmlrpc_registry \<Rightarrow> string \<Rightarrow> nat \<Rightarrow> (nat, 'd) heap_op" where
  "dispatch_depth 0 sv r = (\<lambda>name p h. None)"
| "dispatch_depth (Suc n) sv r = dispatch_step sv r (dispatch_depth n sv r)"

definition xmlrpc_dispatchCall :: "server \<Rightarrow> 'd xmlrpc_registry \<Rightarrow> string \<Rightarrow> nat \<Rightarrow> (nat, 'd) heap_op" where
  "xmlrpc_dispatchCall sv r = dispatch_depth 2 sv r"

section \<open>Two levels are enough\<close>

text \<open>The function of \<open>system.multicall\<close> is in the registry under its own name only.\<close>

definition only_multicall :: "'d xmlrpc_registry \<Rightarrow> bool" where
  "only_multicall r \<longleftrightarrow>
     methods_ok (methodListP r) \<and>
     (\<forall>name m. registry_methods r name = Some m \<and> methodFn m = SystemFn Multicall \<longrightarrow> name = ''system.multicall'')"

lemma callOneMethod_agrees:
  assumes "\<And>name. name \<noteq> ''system.multicall'' \<Longrightarrow> D name = D' name"
  shows "callOneMethod mok D p = callOneMethod mok D' p"
proof -
  have "dispatch_one mok D = dispatch_one mok D'"
    using assms by (auto simp: dispatch_one_def fun_eq_iff)
  then show ?thesis unfolding callOneMethod_def by (simp only:)
qed

lemma dispatch_step_agrees:
  assumes "only_multicall r" "\<And>name. name \<noteq> ''system.multicall'' \<Longrightarrow> D name = D' name"
  shows "dispatch_step sv r D = dispatch_step sv r D'"
proof -
  have "system_call sv r D m p = system_call sv r D' m p" for m p
    using callOneMethod_agrees [of D D', OF assms(2)] by (cases m) (simp_all add: system_multicall_def)
  then have "callNamedMethod sv r D = callNamedMethod sv r D'" by (simp add: callNamedMethod_def fun_eq_iff split: method_fn.split)
  then show ?thesis by (simp add: dispatch_step_def [abs_def])
qed

lemma dispatch_step_not_multicall:
  assumes "only_multicall r" "name \<noteq> ''system.multicall''"
  shows "dispatch_step sv r D name p = dispatch_step sv r D' name p"
proof -
  have ok: "methods_ok (methodListP r)" using assms(1) by (simp add: only_multicall_def)
  have "callNamedMethod sv r D m q = callNamedMethod sv r D' m q" if "registry_methods r name = Some m" for m q
  proof (cases "methodFn m")
    case (SystemFn s)
    then have "s \<noteq> Multicall" using assms that unfolding only_multicall_def by blast
    then show ?thesis using SystemFn by (cases s) (simp_all add: callNamedMethod_def)
  qed (simp add: callNamedMethod_def)
  then show ?thesis
    by (simp add: dispatch_step_def lookup_method_def lookup_method [OF ok] split: option.split)
qed

text \<open>C17: dispatch ends: a call of \<open>system.multicall\<close> from \<open>system.multicall\<close> is refused, so however deep
  the dispatch may go, it gives what it gives at a depth of two.\<close>
theorem dispatch_depth_enough:
  assumes "only_multicall r"
  shows "dispatch_depth (n + 2) sv r = xmlrpc_dispatchCall sv r"
proof -
  have "dispatch_depth (Suc n) sv r name = dispatch_depth (Suc 0) sv r name" if "name \<noteq> ''system.multicall''" for name
    using dispatch_step_not_multicall [OF assms that] by (simp add: fun_eq_iff)
  then have "dispatch_step sv r (dispatch_depth (Suc n) sv r) = dispatch_step sv r (dispatch_depth (Suc 0) sv r)"
    by (rule dispatch_step_agrees [OF assms])
  then show ?thesis by (simp add: xmlrpc_dispatchCall_def numeral_2_eq_2)
qed

lemma new_registry_only_multicall:
  fixes r :: "'d xmlrpc_registry"
  assumes "xmlrpc_registry_new always = Some (Inr r)"
  shows "only_multicall r"
proof -
  obtain r' :: "'d xmlrpc_registry" where "xmlrpc_registry_new always = Some (Inr r')" "methods_ok (methodListP r')"
      "registry_methods r' = map_of (map (\<lambda>m. (system_name m, system_info m)) all_system_methods)"
    using new_registry_table by blast
  then have r: "methods_ok (methodListP r)"
      "registry_methods r = map_of (map (\<lambda>m. (system_name m, system_info m)) all_system_methods)"
    using assms by simp_all
  show "only_multicall r"
    unfolding only_multicall_def
  proof (intro conjI allI impI; (elim conjE)?)
    fix name and m :: "'d method_fn xmlrpc_methodInfo"
    assume m: "registry_methods r name = Some m" "methodFn m = SystemFn Multicall"
    from m(1) have "(name, m) \<in> set (map (\<lambda>m. (system_name m, system_info m)) all_system_methods)"
      unfolding r(2) by (rule map_of_SomeD)
    then obtain s where "name = system_name s" "m = system_info s" by auto
    then show "name = ''system.multicall''" using m(2) by (simp add: system_info_def)
  qed (rule r(1))
qed

lemma dispatch_depth_enough_witness:
  "\<exists>r :: unit xmlrpc_registry. xmlrpc_registry_new always = Some (Inr r) \<and>
     (\<forall>n sv. dispatch_depth (n + 2) sv r = xmlrpc_dispatchCall sv r)"
  using new_registry_table new_registry_only_multicall dispatch_depth_enough by blast

end
