(* ===== verification/Xml_Text.thy ===== *)
theory Xml_Text
  imports Xml_Element Strings
begin

text \<open>
  The part of XML that the serializer writes: a prologue, elements with at most one attribute, empty
  elements, and character data with references and line ends.  \<open>xml_events\<close> relates a text to
  the events an XML parser reports for it; \<open>reads_xml\<close> says that a parser accepts such documents
  and reports those events, with character data cut up as it likes, as Expat documents it.
\<close>

section \<open>The grammar\<close>

definition xml_byte :: "char \<Rightarrow> bool" where
  "xml_byte c \<longleftrightarrow> c = TAB \<or> c = LF \<or> 32 \<le> uchar c"

inductive char_data :: "string \<Rightarrow> string \<Rightarrow> bool" where
  cd_nil: "char_data [] []"
| cd_plain: "char_data s d \<Longrightarrow> xml_byte c \<Longrightarrow> c \<notin> set ''<>&'' \<Longrightarrow> char_data (c # s) (c # d)"
| cd_line: "char_data s d \<Longrightarrow> char_data (CRLF @ s) (LF # d)"
| cd_lt: "char_data s d \<Longrightarrow> char_data (''&lt;'' @ s) (CHR ''<'' # d)"
| cd_gt: "char_data s d \<Longrightarrow> char_data (''&gt;'' @ s) (CHR ''>'' # d)"
| cd_amp: "char_data s d \<Longrightarrow> char_data (''&amp;'' @ s) (CHR ''&'' # d)"
| cd_cr: "char_data s d \<Longrightarrow> char_data (''&#x0d;'' @ s) (CR # d)"

definition name_char :: "char \<Rightarrow> bool" where
  "name_char c \<longleftrightarrow>
     c \<in> set ''abcdefghijklmnopqrstuvwxyzABCDEFGHIJKLMNOPQRSTUVWXYZ0123456789.:_-''"

definition xml_name :: "string \<Rightarrow> bool" where
  "xml_name n \<longleftrightarrow> n \<noteq> [] \<and> list_all name_char n \<and> hd n \<notin> set ''0123456789.-''"

definition xml_attribute :: "string \<Rightarrow> bool" where
  "xml_attribute a \<longleftrightarrow>
     (\<exists>n v. a = '' '' @ n @ ''='' @ [CHR 0x22] @ v @ [CHR 0x22] \<and> xml_name n \<and>
        list_all (\<lambda>c. 32 \<le> uchar c \<and> uchar c < 127 \<and> c \<notin> set ''<>&'' \<and> c \<noteq> CHR 0x22) v)"

inductive xml_events :: "string \<Rightarrow> xml_event list \<Rightarrow> bool" where
  ev_nil: "xml_events [] []"
| ev_text: "xml_events s evs \<Longrightarrow> char_data t d \<Longrightarrow> d \<noteq> [] \<Longrightarrow> xml_events (t @ s) (CharacterData d # evs)"
| ev_start: "xml_events s evs \<Longrightarrow> xml_name n \<Longrightarrow> a = [] \<or> xml_attribute a \<Longrightarrow>
    xml_events (''<'' @ n @ a @ ''>'' @ s) (StartElement n # evs)"
| ev_end: "xml_events s evs \<Longrightarrow> xml_name n \<Longrightarrow> xml_events (''</'' @ n @ ''>'' @ s) (EndElement n # evs)"
| ev_empty: "xml_events s evs \<Longrightarrow> xml_name n \<Longrightarrow>
    xml_events (''<'' @ n @ ''/>'' @ s) (StartElement n # EndElement n # evs)"

definition prologue :: string where
  "prologue = ''<?xml version='' @ [CHR 0x22] @ ''1.0'' @ [CHR 0x22] @ '' encoding='' @ [CHR 0x22] @
     ''UTF-8'' @ [CHR 0x22] @ ''?>'' @ CRLF"

definition xml_document :: "string \<Rightarrow> xml_event list \<Rightarrow> bool" where
  "xml_document xml evs \<longleftrightarrow>
     (\<exists>body. xml = prologue @ body @ CRLF \<and> utf8_text body \<and> xml_events body evs) \<and> document_tree evs \<noteq> None"

text \<open>A run of pieces of character data as one piece.\<close>

fun join_text :: "xml_event list \<Rightarrow> xml_event list" where
  "join_text [] = []"
| "join_text (CharacterData s # evs) =
     (case join_text evs of
        CharacterData t # r \<Rightarrow> CharacterData (s @ t) # r
      | r \<Rightarrow> CharacterData s # r)"
| "join_text (ev # evs) = ev # join_text evs"

definition reads_xml :: "expat \<Rightarrow> bool" where
  "reads_xml expat \<longleftrightarrow>
     (\<forall>xml evs. xml_document xml evs \<longrightarrow>
        (\<exists>evs'. expat xml = Some (evs', None) \<and> join_text evs' = join_text evs))"

lemma grow_two_texts:
  "grow_all (CharacterData s # CharacterData t # r) st = grow_all (CharacterData (s @ t) # r) st"
  by (cases "(CharacterData (s @ t), st)" rule: grow.cases) auto

lemma grow_join_text: "grow_all (join_text evs) = grow_all evs"
proof (induction evs rule: join_text.induct)
  case (2 s evs)
  show ?case
  proof (cases "\<exists>t r. join_text evs = CharacterData t # r")
    case True
    then obtain t r where j: "join_text evs = CharacterData t # r" by blast
    have "grow_all (CharacterData t # r) = grow_all evs" using 2 unfolding j .
    then have "grow_all (CharacterData s # CharacterData t # r) st = grow_all (CharacterData s # evs) st" for st
      by (simp only: grow_all.simps(2) [of "CharacterData s"])
    then show ?thesis using j by (simp add: fun_eq_iff grow_two_texts [symmetric] del: grow_all.simps)
  next
    case False
    then have j: "join_text (CharacterData s # evs) = CharacterData s # join_text evs"
      by (auto split: list.split xml_event.split)
    have "grow_all (CharacterData s # join_text evs) = grow_all (CharacterData s # evs)"
      by (rule ext) (simp only: grow_all.simps(2) 2)
    then show ?thesis by (simp only: j)
  qed
qed (rule ext, simp only: join_text.simps grow_all.simps)+

lemma join_text_size: "sum_list (map event_size (join_text evs)) = sum_list (map event_size evs)"
  by (induction evs rule: join_text.induct) (auto split: list.splits xml_event.splits)

lemma reads_xml_document:
  assumes "reads_xml expat" "xml_document xml evs"
  obtains evs' where "expat xml = Some (evs', None)" "document_tree evs' = document_tree evs"
    "sum_list (map event_size evs') = sum_list (map event_size evs)"
proof -
  obtain evs' where e: "expat xml = Some (evs', None)" "join_text evs' = join_text evs"
    using assms by (auto simp: reads_xml_def)
  have "document_tree evs' = document_tree evs"
    unfolding document_tree_def using grow_join_text e(2) by metis
  moreover have "sum_list (map event_size evs') = sum_list (map event_size evs)"
    using join_text_size e(2) by metis
  ultimately show ?thesis using that e(1) by blast
qed

section \<open>Texts and trees\<close>

lemma grow_all_append: "grow_all (xs @ ys) st = Option.bind (grow_all xs st) (grow_all ys)"
proof (induction xs arbitrary: st)
  case (Cons x xs)
  then have "grow_all (xs @ ys) = (\<lambda>st. Option.bind (grow_all xs st) (grow_all ys))" by (rule ext)
  then show ?case by simp
qed simp

lemma xml_events_append: "xml_events s evs \<Longrightarrow> xml_events t evs' \<Longrightarrow> xml_events (s @ t) (evs @ evs')"
proof (induction rule: xml_events.induct)
  case (ev_text s evs u d)
  then show ?case using xml_events.ev_text [of "s @ t" "evs @ evs'" u d] by simp
next
  case (ev_start s evs n a)
  then show ?case using xml_events.ev_start [of "s @ t" "evs @ evs'" n a] by simp
next
  case (ev_end s evs n)
  then show ?case using xml_events.ev_end [of "s @ t" "evs @ evs'" n] by simp
next
  case (ev_empty s evs n)
  then show ?case using xml_events.ev_empty [of "s @ t" "evs @ evs'" n] by simp
qed simp

lemma char_data_length: "char_data s d \<Longrightarrow> length d \<le> length s"
  by (induction rule: char_data.induct) simp_all

lemma xml_events_size: "xml_events s evs \<Longrightarrow> sum_list (map event_size evs) \<le> 8 * length s"
  by (induction rule: xml_events.induct) (auto dest: char_data_length)

fun narrow :: "nat \<Rightarrow> xml_tree \<Rightarrow> bool" where
  "narrow k (Elem n cd ks) \<longleftrightarrow> length ks \<le> k \<and> list_all (narrow k) ks"

lemma narrow_mono: "narrow k t \<Longrightarrow> k \<le> k' \<Longrightarrow> narrow k' t"
  by (induction t) (auto simp: list_all_iff)

text \<open>The text \<open>s\<close> as the content of an element: its character data and its child elements.\<close>

definition content :: "string \<Rightarrow> string \<Rightarrow> xml_tree list \<Rightarrow> bool" where
  "content s cd ks \<longleftrightarrow> utf8_text s \<and> length ks \<le> length s \<and> list_all (narrow (length s)) ks \<and>
     (\<exists>evs. xml_events s evs \<and>
       (\<forall>n cd0 ks0 stack. grow_all evs ((n, cd0, ks0) # stack, None) = Some ((n, cd0 @ cd, ks0 @ ks) # stack, None)))"

lemma content_nil: "content [] [] []"
  by (auto simp: content_def intro!: exI [of _ "[]"] ev_nil)

lemma content_append:
  assumes "content s1 c1 k1" "content s2 c2 k2"
  shows "content (s1 @ s2) (c1 @ c2) (k1 @ k2)"
proof -
  obtain e1 where e1: "xml_events s1 e1"
      "\<And>n cd0 ks0 stack. grow_all e1 ((n, cd0, ks0) # stack, None) = Some ((n, cd0 @ c1, ks0 @ k1) # stack, None)"
    using assms(1) by (auto simp: content_def)
  obtain e2 where e2: "xml_events s2 e2"
      "\<And>n cd0 ks0 stack. grow_all e2 ((n, cd0, ks0) # stack, None) = Some ((n, cd0 @ c2, ks0 @ k2) # stack, None)"
    using assms(2) by (auto simp: content_def)
  have "xml_events (s1 @ s2) (e1 @ e2)" using xml_events_append [OF e1(1) e2(1)] .
  moreover have "grow_all (e1 @ e2) ((n, cd0, ks0) # stack, None) = Some ((n, cd0 @ c1 @ c2, ks0 @ k1 @ k2) # stack, None)"
    for n cd0 ks0 stack by (simp add: grow_all_append e1(2) e2(2))
  moreover have "list_all (narrow (length (s1 @ s2))) (k1 @ k2)"
    using assms by (auto simp: content_def list_all_iff intro: narrow_mono)
  ultimately show ?thesis using assms by (auto simp: content_def utf8_text_append)
qed

lemma content_text:
  assumes "char_data s d" "utf8_text s"
  shows "content s d []"
proof (cases "d = []")
  case True
  have "s = []" using assms(1) True by (cases rule: char_data.cases) auto
  then show ?thesis using True content_nil by simp
next
  case False
  then have "xml_events s [CharacterData d]" using ev_text [OF ev_nil assms(1)] by simp
  then show ?thesis using assms(2) by (auto simp: content_def intro!: exI [of _ "[CharacterData d]"])
qed

lemma content_concat:
  assumes "\<And>x. x \<in> set xs \<Longrightarrow> content (s x) (c x) (k x)"
  shows "content (concat (map s xs)) (concat (map c xs)) (concat (map k xs))"
  using assms by (induction xs) (auto intro: content_nil content_append)

lemma ascii_text: "list_all (\<lambda>c. uchar c < 128) s \<Longrightarrow> utf8_text s"
proof (induction s)
  case (Cons c s)
  have "ucs2_legal (uchar c)" "utf8_enc (uchar c) = [c]"
    using Cons.prems uchar_range [of c] by (simp_all add: ucs2_legal_def utf8_enc_ascii)
  then show ?case using utf8_text_Cons [of "uchar c" s] Cons by simp
qed simp

lemma name_ascii: "xml_name n \<Longrightarrow> list_all (\<lambda>c. uchar c < 128) n"
proof -
  have "name_char c \<Longrightarrow> uchar c < 128" for c by (auto simp: name_char_def uchar_def)
  then show "xml_name n \<Longrightarrow> list_all (\<lambda>c. uchar c < 128) n" by (auto simp: xml_name_def list_all_iff)
qed

lemma markup_ascii:
  "list_all (\<lambda>c. uchar c < 128) ''<''" "list_all (\<lambda>c. uchar c < 128) ''</''"
  "list_all (\<lambda>c. uchar c < 128) ''>''" "list_all (\<lambda>c. uchar c < 128) ''/>''"
  "list_all (\<lambda>c. uchar c < 128) '' ''" "list_all (\<lambda>c. uchar c < 128) ''=''"
  "list_all (\<lambda>c. uchar c < 128) [CHR 0x22]"
  by (simp_all add: uchar_def)

lemma attribute_ascii: "xml_attribute a \<Longrightarrow> list_all (\<lambda>c. uchar c < 128) a"
proof -
  assume "xml_attribute a"
  then obtain n v where a: "a = '' '' @ n @ ''='' @ [CHR 0x22] @ v @ [CHR 0x22]" "xml_name n"
      "list_all (\<lambda>c. 32 \<le> uchar c \<and> uchar c < 127 \<and> c \<notin> set ''<>&'' \<and> c \<noteq> CHR 0x22) v"
    unfolding xml_attribute_def by blast
  from a(3) have "list_all (\<lambda>c. uchar c < 128) v" by (rule list.pred_mono_strong) simp
  then show ?thesis using name_ascii [OF a(2)] markup_ascii unfolding a(1) list_all_append by blast
qed

lemma tag_text: "xml_name n \<Longrightarrow> a = [] \<or> xml_attribute a \<Longrightarrow> utf8_text (''<'' @ n @ a @ ''>'')"
    "xml_name n \<Longrightarrow> utf8_text (''</'' @ n @ ''>'')" "xml_name n \<Longrightarrow> utf8_text (''<'' @ n @ ''/>'')"
proof -
  assume n: "xml_name n"
  show "a = [] \<or> xml_attribute a \<Longrightarrow> utf8_text (''<'' @ n @ a @ ''>'')"
    using name_ascii [OF n] attribute_ascii [of a] markup_ascii
    by (intro ascii_text) (simp only: list_all_append, force)
  show "utf8_text (''</'' @ n @ ''>'')" "utf8_text (''<'' @ n @ ''/>'')"
    using name_ascii [OF n] markup_ascii by (intro ascii_text; simp only: list_all_append)+
qed

lemma element_events:
  assumes "xml_events s evs" "xml_name n" "a = [] \<or> xml_attribute a"
  shows "xml_events (''<'' @ n @ a @ ''>'' @ s @ ''</'' @ n @ ''>'') (StartElement n # evs @ [EndElement n])"
  using ev_start [OF xml_events_append [OF assms(1) ev_end [OF ev_nil assms(2)]] assms(2,3)] by simp

lemma content_element:
  assumes "content s cd ks" "xml_name n" "a = [] \<or> xml_attribute a"
  shows "content (''<'' @ n @ a @ ''>'' @ s @ ''</'' @ n @ ''>'') [] [Elem n cd ks]"
proof -
  let ?t = "''<'' @ n @ a @ ''>'' @ s @ ''</'' @ n @ ''>''"
  obtain evs where evs: "xml_events s evs"
      "\<And>m cd0 ks0 stack. grow_all evs ((m, cd0, ks0) # stack, None) = Some ((m, cd0 @ cd, ks0 @ ks) # stack, None)"
    using assms(1) by (auto simp: content_def)
  have "grow_all (StartElement n # evs @ [EndElement n]) ((m, cd0, ks0) # stack, None) =
      Some ((m, cd0 @ [], ks0 @ [Elem n cd ks]) # stack, None)" for m cd0 ks0 stack
    by (simp add: grow_all_append evs(2))
  moreover have "utf8_text ?t"
    using utf8_text_append [OF tag_text(1) [OF assms(2,3)] utf8_text_append [OF _ tag_text(2) [OF assms(2)]]] assms(1)
    by (simp add: content_def)
  moreover have "list_all (narrow (length ?t)) ks" "length ks \<le> length ?t"
    using assms(1) by (auto simp: content_def list_all_iff intro: narrow_mono)
  ultimately show ?thesis
    using element_events [OF evs(1) assms(2,3)] unfolding content_def by (intro conjI exI) auto
qed

lemma content_empty_element:
  assumes "xml_name n"
  shows "content (''<'' @ n @ ''/>'') [] [Elem n [] []]"
  using ev_empty [OF ev_nil assms] tag_text(3) [OF assms]
  by (auto simp: content_def intro!: exI [of _ "[StartElement n, EndElement n]"])

lemma document_content:
  assumes "content s cd ks" "xml_name n" "a = [] \<or> xml_attribute a"
  defines "xml \<equiv> prologue @ (''<'' @ n @ a @ ''>'' @ s @ ''</'' @ n @ ''>'') @ CRLF"
  obtains evs where "xml_document xml evs" "document_tree evs = Some (Elem n cd ks)"
    "sum_list (map event_size evs) \<le> 8 * length xml" "narrow (length xml) (Elem n cd ks)"
proof -
  let ?t = "''<'' @ n @ a @ ''>'' @ s @ ''</'' @ n @ ''>''"
  obtain evs where evs: "xml_events s evs"
      "\<And>m cd0 ks0 stack. grow_all evs ((m, cd0, ks0) # stack, None) = Some ((m, cd0 @ cd, ks0 @ ks) # stack, None)"
    using assms(1) by (auto simp: content_def)
  note ev = element_events [OF evs(1) assms(2,3)]
  have tree: "document_tree (StartElement n # evs @ [EndElement n]) = Some (Elem n cd ks)"
    by (simp add: document_tree_def grow_all_append evs(2))
  have c: "content ?t [] [Elem n cd ks]" by (rule content_element [OF assms(1-3)])
  then have "xml_document xml (StartElement n # evs @ [EndElement n])"
    using ev tree unfolding xml_document_def xml_def content_def by blast
  moreover have "sum_list (map event_size (StartElement n # evs @ [EndElement n])) \<le> 8 * length xml"
    using xml_events_size [OF ev] by (simp add: xml_def)
  moreover have "narrow (length xml) (Elem n cd ks)"
    using c narrow_mono [of "length ?t" "Elem n cd ks" "length xml"] by (simp add: content_def xml_def)
  ultimately show ?thesis using that tree by blast
qed

section \<open>A reader\<close>

text \<open>A scanner for the grammar: it shows that texts have one reading, and that \<open>reads_xml\<close> can hold.\<close>

function scan :: "string \<Rightarrow> xml_event list" where
  "scan s =
     (if s = [] then []
      else if take 2 s = ''</''
      then EndElement (takeWhile name_char (drop 2 s)) # scan (drop 1 (dropWhile name_char (drop 2 s)))
      else if take 1 s = ''<''
      then (let n = takeWhile name_char (drop 1 s); r = dropWhile name_char (drop 1 s) in
            if take 2 r = ''/>'' then StartElement n # EndElement n # scan (drop 2 r)
            else StartElement n # scan (drop 1 (dropWhile (\<lambda>c. c \<noteq> CHR ''>'') r)))
      else if take 2 s = CRLF then CharacterData [LF] # scan (drop 2 s)
      else if take 4 s = ''&lt;'' then CharacterData ''<'' # scan (drop 4 s)
      else if take 4 s = ''&gt;'' then CharacterData ''>'' # scan (drop 4 s)
      else if take 5 s = ''&amp;'' then CharacterData ''&'' # scan (drop 5 s)
      else if take 6 s = ''&#x0d;'' then CharacterData [CR] # scan (drop 6 s)
      else CharacterData (take 1 s) # scan (drop 1 s))"
  by pat_completeness auto
termination
proof (relation "measure length")
  have shorter: "length (dropWhile P t) \<le> length t" for P and t :: string by (rule length_dropWhile_le)
  have minus: "m \<le> k - i \<Longrightarrow> 0 < i \<Longrightarrow> 0 < k \<Longrightarrow> m - j < (k :: nat)" for m k i j by linarith
  fix s :: string assume s: "s \<noteq> []"
  then have pos: "0 < length s" by simp
  show "(drop 1 (dropWhile name_char (drop 2 s)), s) \<in> measure length"
    using minus [OF _ _ pos, of _ 2] shorter [of name_char "drop 2 s"] by simp
  fix r assume r: "r = dropWhile name_char (drop 1 s)"
  then have "length r \<le> length s - 1" using shorter [of name_char "drop 1 s"] by simp
  then show "(drop 2 r, s) \<in> measure length" using minus [OF _ _ pos, of _ 1] by simp
  have "length (dropWhile (\<lambda>c. c \<noteq> CHR ''>'') r) \<le> length s - 1"
    using shorter \<open>length r \<le> length s - 1\<close> by (rule order_trans)
  then show "(drop 1 (dropWhile (\<lambda>c. c \<noteq> CHR ''>'') r), s) \<in> measure length"
    using minus [OF _ _ pos, of _ 1] by simp
qed simp_all

declare scan.simps [simp del]

lemma scan_nil [simp]: "scan [] = []"
  by (simp add: scan.simps)

lemma char_data_start: "char_data t d \<Longrightarrow> t \<noteq> [] \<Longrightarrow> hd t \<noteq> CHR ''<''"
  by (cases rule: char_data.cases) auto

lemma scan_char_data: "char_data t d \<Longrightarrow> scan (t @ s) = map (\<lambda>c. CharacterData [c]) d @ scan s"
proof (induction rule: char_data.induct)
  case (cd_plain t d c)
  then have "c \<noteq> CR" by (auto simp: xml_byte_def uchar_def)
  with cd_plain show ?case by (subst scan.simps) simp
qed (simp, (subst scan.simps, simp)+)

lemma join_split_text: "d \<noteq> [] \<Longrightarrow> join_text (map (\<lambda>c. CharacterData [c]) d @ r) = join_text (CharacterData d # r)"
proof (induction d)
  case (Cons c d)
  then show ?case by (cases "d = []") (simp_all split: list.split xml_event.split)
qed simp

lemma name_span: "list_all name_char n \<Longrightarrow> r = [] \<or> \<not> name_char (hd r) \<Longrightarrow>
    takeWhile name_char (n @ r) = n \<and> dropWhile name_char (n @ r) = r"
  by (induction n) (cases r; auto)+

lemma not_name_char: "\<not> name_char (CHR ''>'')" "\<not> name_char (CHR ''/'')" "\<not> name_char (CHR '' '')"
  by (simp_all add: name_char_def)

lemma name_start: "xml_name n \<Longrightarrow> list_all name_char n \<and> n \<noteq> [] \<and> hd n \<noteq> CHR ''/''"
  using not_name_char(2) by (cases n) (auto simp: xml_name_def)

lemma attribute_end:
  assumes "xml_attribute a"
  shows "\<exists>b. a = CHR '' '' # b" "CHR ''>'' \<notin> set a"
proof -
  obtain n v where a: "a = '' '' @ n @ ''='' @ [CHR 0x22] @ v @ [CHR 0x22]" "xml_name n"
      "list_all (\<lambda>c. 32 \<le> uchar c \<and> uchar c < 127 \<and> c \<notin> set ''<>&'' \<and> c \<noteq> CHR 0x22) v"
    using assms unfolding xml_attribute_def by blast
  have "CHR ''>'' \<notin> set n" using a(2) not_name_char(1) by (auto simp: xml_name_def list_all_iff)
  moreover have "CHR ''>'' \<notin> set v" using a(3) by (auto simp: list_all_iff)
  ultimately show "\<exists>b. a = CHR '' '' # b" "CHR ''>'' \<notin> set a" by (simp_all add: a(1))
qed

lemma scan_events: "xml_events s evs \<Longrightarrow> join_text (scan s) = join_text evs"
proof (induction rule: xml_events.induct)
  case (ev_text s evs t d)
  have "join_text (scan (t @ s)) = join_text (CharacterData d # scan s)"
    using scan_char_data [OF ev_text(2)] join_split_text [OF ev_text(3)] by simp
  with ev_text show ?case by simp
next
  case (ev_start s evs n a)
  then have n: "list_all name_char n" "n \<noteq> []" "hd n \<noteq> CHR ''/''" using name_start by blast+
  have a: "hd (a @ ''>'' @ s) \<noteq> CHR ''/''" "\<not> name_char (hd (a @ ''>'' @ s))"
      "dropWhile (\<lambda>c. c \<noteq> CHR ''>'') (a @ ''>'' @ s) = ''>'' @ s"
    using ev_start.hyps(3) attribute_end [of a] not_name_char by (auto simp: dropWhile_append)
  have span: "takeWhile name_char (n @ a @ ''>'' @ s) = n" "dropWhile name_char (n @ a @ ''>'' @ s) = a @ ''>'' @ s"
    using name_span [OF n(1), of "a @ ''>'' @ s"] a(2) by blast+
  have "take 2 (a @ ''>'' @ s) \<noteq> ''/>''" using a(1) by (cases "a @ ''>'' @ s") auto
  moreover have "take 2 (''<'' @ n @ a @ ''>'' @ s) \<noteq> ''</''" using n by (cases n) auto
  ultimately have "scan (''<'' @ n @ a @ ''>'' @ s) = StartElement n # scan s"
    using span a(3) by (subst scan.simps) (simp add: Let_def del: append_assoc)
  with ev_start show ?case by simp
next
  case (ev_end s evs n)
  then have "takeWhile name_char (n @ ''>'' @ s) = n" "dropWhile name_char (n @ ''>'' @ s) = ''>'' @ s"
    using name_span [of n "''>'' @ s"] not_name_char by (auto simp: xml_name_def)
  then have "scan (''</'' @ n @ ''>'' @ s) = EndElement n # scan s" by (subst scan.simps) simp
  with ev_end show ?case by simp
next
  case (ev_empty s evs n)
  then have span: "takeWhile name_char (n @ ''/>'' @ s) = n" "dropWhile name_char (n @ ''/>'' @ s) = ''/>'' @ s"
    and n: "n \<noteq> []" "hd n \<noteq> CHR ''/''"
    using name_span [of n "''/>'' @ s"] not_name_char name_start [of n] by auto
  have "take 2 (''<'' @ n @ ''/>'' @ s) \<noteq> ''</''" using n by (cases n) auto
  then have "scan (''<'' @ n @ ''/>'' @ s) = StartElement n # EndElement n # scan s"
    using span by (subst scan.simps) (simp add: Let_def)
  with ev_empty show ?case by simp
qed simp

definition reference_expat :: expat where
  "reference_expat xml = Some (scan (take (length xml - length prologue - 2) (drop (length prologue) xml)), None)"

lemma reference_expat_reads: "reads_xml reference_expat"
proof -
  have "reference_expat (prologue @ body @ CRLF) = Some (scan body, None)" for body
    by (simp add: reference_expat_def)
  then show ?thesis by (auto simp: reads_xml_def xml_document_def dest: scan_events)
qed

end
