(* ===== verification/Roundtrip.thy ===== *)
theory Roundtrip
  imports Xml_Text Serialize Xml_Messages
begin

text \<open>
  From a value to its text and back: the serializer's output is a document of the XML subset of
  \<open>Xml_Text\<close>, an XML parser reports its elements, and the parser makes the same value of them.
\<close>

section \<open>Values that survive\<close>

text \<open>Strings without carriage returns and other control characters; doubles the parser understands.\<close>

abbreviation plain_text :: "string \<Rightarrow> bool" where
  "plain_text s \<equiv> utf8_text s \<and> list_all xml_byte s"

fun sendable :: "('d, 'a) platform_scheme \<Rightarrow> ('d \<Rightarrow> string) \<Rightarrow> 'd xvalue \<Rightarrow> bool" where
  "sendable pf dtext (XBool b) \<longleftrightarrow> b = 0 \<or> b = 1"
| "sendable pf dtext (XDouble d) \<longleftrightarrow>
     list_all (\<lambda>c. c \<in> set ''0123456789.-'') (dtext d) \<and> parseDouble always pf (dtext d) = Inr (XDouble d)"
| "sendable pf dtext (XDatetime dt) \<longleftrightarrow> datetime_printable dt"
| "sendable pf dtext (XString s) \<longleftrightarrow> plain_text s"
| "sendable pf dtext (XArray vs) \<longleftrightarrow> list_all (sendable pf dtext) vs"
| "sendable pf dtext (XStruct kvs) \<longleftrightarrow>
     distinct (map fst kvs) \<and> list_all (\<lambda>kv. plain_text (fst kv) \<and> sendable pf dtext (snd kv)) kvs"
| "sendable pf dtext (XCptr p) \<longleftrightarrow> False"
| "sendable pf dtext _ \<longleftrightarrow> True"

section \<open>The pieces of text\<close>

lemma char_data_escape: "list_all xml_byte s \<Longrightarrow> char_data (escape_chars s) s"
proof (induction s)
  case (Cons c s)
  then have "char_data (escape_chars s) s" "xml_byte c" by simp_all
  then show ?case
    using cd_lt cd_gt cd_amp cd_cr cd_plain by (auto simp del: append_Cons) auto
qed (simp add: cd_nil)

lemma escape_chars_append: "escape_chars (s @ t) = escape_chars s @ escape_chars t"
  by (induction s) simp_all

lemma utf8_escape: "utf8_text s \<Longrightarrow> utf8_text (escape_chars s)"
proof (induction rule: utf8_text_induct)
  case (Cons w s)
  have "utf8_text (escape_chars (utf8_enc w))"
  proof (cases "w < 0x80")
    case True
    have "list_all (\<lambda>c. uchar c < 128) (escape_chars [c])" if "uchar c < 128" for c
      using that by (simp add: uchar_def)
    then show ?thesis using True Cons.hyps(1) by (intro ascii_text) (simp add: utf8_enc_ascii ucs2_legal_def)
  next
    case False
    then have "128 \<le> uchar c" if "c \<in> set (utf8_enc w)" for c
      using utf8_enc_bytes [OF Cons.hyps(1) that] by simp
    then have "CHR ''<'' \<notin> set (utf8_enc w)" "CHR ''>'' \<notin> set (utf8_enc w)"
        "CHR ''&'' \<notin> set (utf8_enc w)" "CR \<notin> set (utf8_enc w)"
      by (fastforce simp: uchar_def)+
    then have "escape_chars t = t" if "set t \<subseteq> set (utf8_enc w)" for t
      using that by (induction t) auto
    then show ?thesis using utf8_text_Cons [OF Cons.hyps(1) utf8_text_Nil] by simp
  qed
  then show ?case using Cons.IH utf8_text_append by (simp add: escape_chars_append)
qed simp

lemma content_escape: "plain_text s \<Longrightarrow> content (escape_chars s) s []"
  by (intro content_text char_data_escape utf8_escape) simp_all

lemma content_line: "content CRLF [LF] []"
  using cd_line [OF cd_nil] by (intro content_text ascii_text) (simp_all add: uchar_def)

lemma content_plain:
  assumes "list_all (\<lambda>c. 32 \<le> uchar c \<and> uchar c < 128 \<and> c \<notin> set ''<>&'') s"
  shows "content s s []"
proof (rule content_text)
  show "char_data s s"
    using assms by (induction s) (auto intro!: cd_nil cd_plain simp: xml_byte_def)
  show "utf8_text s" using assms by (intro ascii_text) (auto simp: list_all_iff)
qed

lemma content_chars:
  "set s \<subseteq> set cs \<Longrightarrow> list_all (\<lambda>c. 32 \<le> uchar c \<and> uchar c < 128 \<and> c \<notin> set ''<>&'') cs \<Longrightarrow> content s s []"
  by (rule content_plain) (unfold list_all_iff, blast)

lemma digits_plain: "(\<And>c. c \<in> set s \<Longrightarrow> isdigit c \<or> c \<in> set ''-T:.'') \<Longrightarrow>
  list_all (\<lambda>c. 32 \<le> uchar c \<and> uchar c < 128 \<and> c \<notin> set ''<>&'') s"
  by (fastforce simp: list_all_iff isdigit_def uchar_def)

lemma content_number: "content (show_d i) (show_d i) []"
  by (intro content_plain digits_plain) (auto simp: show_d_def dest: isdigit_dec_digits split: if_splits)

lemma content_datetime: "content (datetime_chars dt) (datetime_chars dt) []"
  by (intro content_plain digits_plain) (auto simp: datetime_chars_def datetime_fields_def dest!: in_set_takeD dest: isdigit_dec_digits isdigit_pad_u split: if_splits)

lemma b64_plain: "list_all (\<lambda>c. 32 \<le> uchar c \<and> uchar c < 128 \<and> c \<notin> set ''<>&'') (b64 data)"
proof -
  have "list_all (\<lambda>c. 32 \<le> uchar c \<and> uchar c < 128 \<and> c \<notin> set ''<>&'') b64_chars" by code_simp
  then show ?thesis using b64_in_chars [of data] by (auto simp: list_all_iff)
qed

lemma content_base64: "\<exists>d. content (base64_lines data) d [] \<and> filter (\<lambda>c. \<not> is_break c) d = b64 data"
proof (cases "data = []")
  case True
  then show ?thesis using content_line by (auto simp: base64_lines_def is_break_def intro!: exI [of _ "[LF]"])
next
  case False
  have "\<exists>d. content (concat (chunk_texts True data)) d [] \<and> filter (\<lambda>c. \<not> is_break c) d = b64 data"
  proof (induction True data rule: chunk_texts.induct)
    case (1 data)
    show ?case
    proof (cases "data = []")
      case True
      then show ?thesis using content_nil by auto
    next
      case False
      let ?a = "take BASE64_MAXBIN data" and ?r = "drop BASE64_MAXBIN data"
      obtain d where d: "content (concat (chunk_texts True ?r)) d []" "filter (\<lambda>c. \<not> is_break c) d = b64 ?r"
        using 1 False by auto
      have "content ((b64 ?a @ CRLF) @ concat (chunk_texts True ?r)) ((b64 ?a @ [LF]) @ d) (([] @ []) @ [])"
        by (intro content_append content_plain [OF b64_plain] content_line d(1))
      moreover have "is_break LF" by (simp add: is_break_def)
      ultimately show ?thesis
        using False d(2) b64_split [of data]
        by (auto simp: chunk_texts_step encode_line_b64 filter_b64 intro!: exI [of _ "b64 ?a @ LF # d"])
    qed
  qed
  with False show ?thesis by (simp add: base64_lines_def)
qed

section \<open>Reading the pieces\<close>

lemma parse_int_show: "parseInt always (show_d (sint (i :: 32 word))) = (Inr (XInt i) :: 'd xvalue result)"
proof -
  have "- (2 ^ 31) \<le> sint i" "sint i < 2 ^ 31" using sint_greater_eq [of i] sint_less [of i] by simp_all
  then have r: "XMLRPC_INT64_MIN \<le> sint i" "sint i \<le> XMLRPC_INT64_MAX" "\<not> sint i < XMLRPC_INT32_MIN"
    "\<not> sint i > XMLRPC_INT32_MAX" by simp_all
  have "strtol XMLRPC_INT64_MIN XMLRPC_INT64_MAX (show_d (sint i)) = (False, sint i, [])"
    using strtol_show_d [of "[]", OF _ r(1,2)] by simp
  moreover have "peek (show_d (sint i)) \<noteq> NUL" "\<not> isspace (peek (show_d (sint i)))"
    using peek_show_d [of "sint i" "[]"] isdigit_not_isspace NUL_not_digit by (auto simp: isspace_def uchar_def)
  ultimately show ?thesis
    using r(3,4) by (simp add: parseInt_def xmlrpc_int_new_def xmlrpc_createXmlrpcValue_def always_def)
qed

lemma parse_i8_show: "parseI8 always (show_d (sint (i :: 64 word))) = (Some (Inr (XI8 i)) :: 'd xvalue result option)"
proof -
  have "- (2 ^ 63) \<le> sint i" "sint i < 2 ^ 63" using sint_greater_eq [of i] sint_less [of i] by simp_all
  then have "xmlrpc_parse_int64 (show_d (sint i)) = Inr (sint i)" by (intro parse_int64_show) simp_all
  moreover have "peek (show_d (sint i)) \<noteq> NUL" "\<not> isspace (peek (show_d (sint i)))"
    using peek_show_d [of "sint i" "[]"] isdigit_not_isspace NUL_not_digit by (auto simp: isspace_def uchar_def)
  ultimately show ?thesis
    by (simp add: parseI8_def xmlrpc_i8_new_def xmlrpc_createXmlrpcValue_def always_def)
qed

lemma parse_base64_lines:
  assumes "filter (\<lambda>c. \<not> is_break c) s = b64 data"
  shows "parseBase64 always s = Inr (XBase64 data)"
proof -
  obtain b where "xmlrpc_base64_decode always s = Inr b" "block_data 1 b = data"
    using base64_decode_text [OF assms, of always] by (auto simp: always_def)
  moreover have "\<exists>v. xmlrpc_base64_new always data = Inr v"
    by (simp add: xmlrpc_base64_new_def xmlrpc_createXmlrpcValue_def mem_block_init_def always_def Let_def)
  ultimately show ?thesis using base64_new_value [of always data] by (auto simp: parseBase64_def)
qed

lemma validate_plain: "plain_text s \<Longrightarrow> xmlrpc_validate_utf8 s = Inr ()"
  using isOK_validate_utf8 [of s] unfolding isOK_iff by auto

lemma text_value_plain: "plain_text s \<Longrightarrow> text_value s = Inr s"
proof -
  assume s: "plain_text s"
  have "\<not> xml_byte CR" by (simp add: xml_byte_def uchar_def)
  then have "CR \<notin> set s" using s by (auto simp: list_all_iff)
  with validate_plain [OF s] show ?thesis by (simp add: text_value_def norm_lines_id)
qed

section \<open>Values\<close>

lemma content_named: "content s cd ks \<Longrightarrow> xml_name n \<Longrightarrow> content (element n s) [] [Elem n cd ks]"
  using content_element [of s cd ks n "[]"] by (simp add: element_def)

lemma names [simp]:
  "xml_name ''value''" "xml_name ''i4''" "xml_name ''boolean''" "xml_name ''double''" "xml_name ''dateTime.iso8601''"
  "xml_name ''string''" "xml_name ''base64''" "xml_name ''array''" "xml_name ''data''" "xml_name ''struct''"
  "xml_name ''member''" "xml_name ''name''" "xml_name (i8_name dialect)" "xml_name (nil_name dialect)"
  "xml_name ''param''" "xml_name ''params''" "xml_name ''methodName''" "xml_name ''methodCall''"
  "xml_name ''methodResponse''" "xml_name ''fault''"
  by (simp_all add: i8_name_def nil_name_def xml_name_def name_char_def)

definition carries ::
    "('d, 'a) platform_scheme \<Rightarrow> ('d \<Rightarrow> string) \<Rightarrow> xmlrpc_dialect \<Rightarrow> 'd xvalue \<Rightarrow> xml_tree \<Rightarrow> bool" where
  "carries pf dtext dialect v t \<longleftrightarrow> content (content_text dtext dialect v) [] [t] \<and>
     (\<forall>n. value_depth v \<le> n \<longrightarrow> read_value pf n (Elem ''value'' [] [t]) = Some (Inr v))"

lemma carries_simple:
  assumes "content s cd []" "xml_name n" "content_text dtext dialect v = element n s" "value_depth v = 1"
    and "n \<noteq> ''struct''" "n \<noteq> ''array''" "parseSimpleValueCdata always pf n cd = Some (Inr v)"
  shows "carries pf dtext dialect v (Elem n cd [])"
proof -
  have "read_value pf m (Elem ''value'' [] [Elem n cd []]) = Some (Inr v)" if "1 \<le> m" for m
    using that assms(5-7) by (cases m) (simp_all add: read_simple_def)
  then show ?thesis using content_named [OF assms(1,2)] assms(3,4) by (simp add: carries_def)
qed

lemma foldO_collect:
  assumes "\<And>acc x. x \<in> set xs \<Longrightarrow> f acc (g x) = Some (Inr (acc @ [x]))"
  shows "foldO f acc (map g xs) = Some (Inr (acc @ xs))"
  using assms by (induction xs arbitrary: acc) simp_all

lemma foldO_members:
  assumes "\<And>acc x. x \<in> set xs \<Longrightarrow> f acc (g x) = Some (Inr (put_member (fst x) (snd x) acc))"
    and "distinct (map fst (acc @ xs))"
  shows "foldO f acc (map g xs) = Some (Inr (acc @ xs))"
  using assms
proof (induction xs arbitrary: acc)
  case (Cons x xs)
  have "put_member (fst x) (snd x) acc = acc @ [x]" using Cons.prems(2) by (intro trans [OF put_member_new]) auto
  then show ?case using Cons by simp
qed simp

lemma carries_array:
  assumes "\<And>v. v \<in> set vs \<Longrightarrow> carries pf dtext dialect v (f v)"
  shows "carries pf dtext dialect (XArray vs)
    (Elem ''array'' [] [Elem ''data'' (LF # concat (map (\<lambda>v. [LF]) vs)) (map (\<lambda>v. Elem ''value'' [] [f v]) vs)])"
proof -
  have "content (element ''value'' (content_text dtext dialect v) @ CRLF) ([] @ [LF]) ([Elem ''value'' [] [f v]] @ [])"
    if "v \<in> set vs" for v
    using assms [OF that] by (intro content_append content_named content_line) (simp_all add: carries_def)
  then have "content (concat (map (\<lambda>v. element ''value'' (content_text dtext dialect v) @ CRLF) vs))
      (concat (map (\<lambda>v. [LF]) vs)) (concat (map (\<lambda>v. [Elem ''value'' [] [f v]]) vs))"
    by (intro content_concat) simp_all
  then have "content (content_text dtext dialect (XArray vs)) []
      [Elem ''array'' [] [Elem ''data'' ([LF] @ concat (map (\<lambda>v. [LF]) vs))
          ([] @ concat (map (\<lambda>v. [Elem ''value'' [] [f v]]) vs))]]"
    unfolding content_text.simps by (intro content_named content_append content_line) simp_all
  moreover have "concat (map (\<lambda>v. [Elem ''value'' [] [f v]]) vs) = map (\<lambda>v. Elem ''value'' [] [f v]) vs"
    by (induction vs) simp_all
  moreover have "read_value pf n (Elem ''value'' [] [Elem ''array'' [] [Elem ''data'' cd (map (\<lambda>v. Elem ''value'' [] [f v]) vs)]])
      = Some (Inr (XArray vs))" if n: "value_depth (XArray vs) \<le> n" for n cd
  proof -
    obtain m where m: "n = Suc m" using n by (cases n) simp_all
    have "read_value pf m (Elem ''value'' [] [f v]) = Some (Inr v)" if "v \<in> set vs" for v
      using assms [OF that] n that m by (auto simp: carries_def fold_max_le list_all_iff)
    then have "foldO (read_array_child (read_value pf m)) [] (map (\<lambda>v. Elem ''value'' [] [f v]) vs) = Some (Inr ([] @ vs))"
      by (intro foldO_collect) (simp add: read_array_child_def)
    then show ?thesis by (simp add: m read_array_def)
  qed
  ultimately show ?thesis by (simp add: carries_def)
qed

lemma carries_struct:
  assumes "\<And>kv. kv \<in> set kvs \<Longrightarrow> plain_text (fst kv) \<and> carries pf dtext dialect (snd kv) (f kv)"
    and "distinct (map fst kvs)"
  defines "member \<equiv> \<lambda>kv. Elem ''member'' [LF] [Elem ''name'' (fst kv) [], Elem ''value'' [] [f kv]]"
  shows "carries pf dtext dialect (XStruct kvs)
    (Elem ''struct'' (LF # concat (map (\<lambda>kv. [LF]) kvs)) (map member kvs))"
proof -
  let ?text = "\<lambda>kv. element ''member'' (element ''name'' (escape_chars (fst kv)) @ CRLF @
      element ''value'' (content_text dtext dialect (snd kv))) @ CRLF"
  have "content (?text kv) ([] @ [LF]) ([Elem ''member'' ([] @ [LF] @ [])
      ([Elem ''name'' (fst kv) []] @ [] @ [Elem ''value'' [] [f kv]])] @ [])"
    if "kv \<in> set kvs" for kv
    using assms(1) [OF that]
    by (intro content_append content_named content_line content_escape) (simp_all add: carries_def)
  then have "content (concat (map ?text kvs)) (concat (map (\<lambda>kv. [LF]) kvs)) (concat (map (\<lambda>kv. [member kv]) kvs))"
    by (intro content_concat) (simp_all add: member_def)
  then have "content (element ''struct'' (CRLF @ concat (map ?text kvs))) []
      [Elem ''struct'' ([LF] @ concat (map (\<lambda>kv. [LF]) kvs)) ([] @ concat (map (\<lambda>kv. [member kv]) kvs))]"
    by (intro content_named content_append content_line) simp_all
  moreover have "concat (map (\<lambda>kv. [member kv]) kvs) = map member kvs"
    by (induction kvs) simp_all
  moreover have "read_value pf n (Elem ''value'' [] [Elem ''struct'' cd (map member kvs)]) = Some (Inr (XStruct kvs))"
    if n: "value_depth (XStruct kvs) \<le> n" for n cd
  proof -
    obtain m where m: "n = Suc m" using n by (cases n) simp_all
    have "read_value pf m (Elem ''value'' [] [f kv]) = Some (Inr (snd kv))" if "kv \<in> set kvs" for kv
      using assms(1) [OF that] n that m by (auto simp: carries_def fold_max_le list_all_iff)
    then have "foldO (read_struct_child (read_value pf m)) [] (map member kvs) = Some (Inr ([] @ kvs))"
      using assms(1,2) text_value_plain
      by (intro foldO_members)
        (auto simp: read_struct_child_def member_def read_member_def getNameChild_def getValueChild_def read_name_def)
    then show ?thesis by (simp add: m read_struct_def)
  qed
  ultimately show ?thesis by (simp add: carries_def case_prod_unfold)
qed

lemma sendable_carried:
  assumes "have_regex pf"
  shows "sendable pf dtext v \<Longrightarrow> \<exists>t. carries pf dtext dialect v t"
proof (induction v)
  case (XInt i)
  have "parseSimpleValueCdata always pf ''i4'' (show_d (sint i)) = Some (Inr (XInt i))"
    by (simp add: parseSimpleValueCdata_def c_str_id parse_int_show)
  then show ?case by - (rule exI, rule carries_simple [OF content_number]; simp)
next
  case (XBool b)
  let ?s = "if b \<noteq> 0 then ''1'' else ''0''"
  have "content ?s ?s []" by (rule content_plain) (simp add: uchar_def)
  moreover have "parseSimpleValueCdata always pf ''boolean'' ?s = Some (Inr (XBool b))"
    using XBool by (auto simp: parseSimpleValueCdata_def parseBoolean_def c_str_id xmlrpc_bool_new_def
        xmlrpc_createXmlrpcValue_def always_def)
  ultimately show ?case by - (rule exI, rule carries_simple [of ?s]; simp)
next
  case (XDouble d)
  have "list_all (\<lambda>c. 32 \<le> uchar c \<and> uchar c < 128 \<and> c \<notin> set ''<>&'') ''0123456789.-''" by code_simp
  moreover have chars: "set (dtext d) \<subseteq> set ''0123456789.-''"
    using XDouble unfolding sendable.simps list_all_iff by blast
  ultimately have "content (dtext d) (dtext d) []"
    by (rule content_chars [rotated])
  moreover have "NUL \<notin> set (dtext d)" using chars by auto
  then have "parseSimpleValueCdata always pf ''double'' (dtext d) = Some (Inr (XDouble d))"
    using XDouble by (simp add: parseSimpleValueCdata_def c_str_id)
  ultimately show ?case by - (rule exI, rule carries_simple [of "dtext d"]; simp)
next
  case (XDatetime dt)
  have "length (datetime_fields dt) \<le> 63"
    by (rule datetime_fields_fit) (use XDatetime in \<open>auto simp: datetime_printable_def datetime_ok_def\<close>)
  then have "datetime_wire dt = Some (datetime_chars dt)"
    using XDatetime
    by (simp add: datetime_wire_def datetime_chars_def datetime_fields_def DT_STRING_SIZE_def datetime_printable_def datetime_ok_def)
  then have "xmlrpc_parseDatetime True (datetime_chars dt) = Some (Inr dt)"
    using parse_wire_regex XDatetime by simp
  then have "parseSimpleValueCdata always pf ''dateTime.iso8601'' (datetime_chars dt) = Some (Inr (XDatetime dt))"
    using assms by (simp add: parseSimpleValueCdata_def c_str_id datetime_chars_no_NUL xmlrpc_datetime_new_def
        xmlrpc_createXmlrpcValue_def always_def)
  then show ?case by - (rule exI, rule carries_simple [OF content_datetime]; simp)
next
  case (XString s)
  then have "parseSimpleValueCdata always pf ''string'' s = Some (Inr (XString s))"
    by (simp add: parseSimpleValueCdata_def string_new_lp_always text_value_plain)
  with XString show ?case by - (rule exI, rule carries_simple [OF content_escape]; simp)
next
  case (XBase64 bytes)
  obtain d where d: "content (base64_lines bytes) d []" "filter (\<lambda>c. \<not> is_break c) d = b64 bytes"
    using content_base64 by blast
  have "content (CRLF @ base64_lines bytes) ([LF] @ d) ([] @ [])" by (intro content_append content_line d)
  moreover have "filter (\<lambda>c. \<not> is_break c) ([LF] @ d) = b64 bytes" using d(2) by (simp add: is_break_def)
  from parse_base64_lines [OF this]
  have "parseSimpleValueCdata always pf ''base64'' ([LF] @ d) = Some (Inr (XBase64 bytes))"
    by (simp add: parseSimpleValueCdata_def)
  ultimately show ?case by - (rule exI, rule carries_simple [of "CRLF @ base64_lines bytes" "[LF] @ d"]; simp)
next
  case (XArray vs)
  then have "\<forall>v. \<exists>t. v \<in> set vs \<longrightarrow> carries pf dtext dialect v t" by (auto simp: list_all_iff)
  then obtain f where "\<And>v. v \<in> set vs \<Longrightarrow> carries pf dtext dialect v (f v)" by metis
  then show ?case using carries_array by blast
next
  case (XStruct kvs)
  have "\<forall>kv. \<exists>t. kv \<in> set kvs \<longrightarrow> carries pf dtext dialect (snd kv) t"
    using XStruct by (fastforce simp: list_all_iff)
  then obtain f where f: "\<And>kv. kv \<in> set kvs \<Longrightarrow> carries pf dtext dialect (snd kv) (f kv)" by metis
  have "plain_text (fst kv)" if "kv \<in> set kvs" for kv using XStruct.prems that by (simp add: list_all_iff)
  then show ?case using carries_struct [of kvs pf dtext dialect f] f XStruct.prems by (intro exI) auto
next
  case XNil
  have "read_value pf m (Elem ''value'' [] [Elem (nil_name dialect) [] []]) = Some (Inr XNil)" if "1 \<le> m" for m
    using that by (cases m) (simp_all add: read_simple_def nil_name_def parseSimpleValueCdata_def xmlrpc_nil_new_def
        xmlrpc_createXmlrpcValue_def always_def)
  then show ?case using content_empty_element [of "nil_name dialect"]
    by (intro exI [of _ "Elem (nil_name dialect) [] []"]) (simp add: carries_def)
next
  case (XI8 i)
  have "parseSimpleValueCdata always pf (i8_name dialect) (show_d (sint i)) = Some (Inr (XI8 i))"
    by (simp add: parseSimpleValueCdata_def c_str_id parse_i8_show i8_name_def)
  moreover have "i8_name dialect \<noteq> ''struct''" "i8_name dialect \<noteq> ''array''" by (simp_all add: i8_name_def)
  ultimately show ?case by - (rule exI, rule carries_simple [OF content_number]; simp)
qed simp

lemma carried_value:
  assumes "carries pf dtext dialect v t"
  shows "content (value_text dtext dialect v) [] [Elem ''value'' [] [t]]"
    "value_depth v \<le> n \<Longrightarrow> read_value pf n (Elem ''value'' [] [t]) = Some (Inr v)"
  using assms by (auto simp: carries_def value_text_def intro!: content_named)

section \<open>Messages\<close>

lemma xmlns_attribute: "xmlns dialect = [] \<or> xml_attribute (xmlns dialect)"
proof -
  have "list_all (\<lambda>c. 32 \<le> uchar c \<and> uchar c < 127 \<and> c \<notin> set ''<>&'' \<and> c \<noteq> CHR 0x22) APACHE_URL"
    "xml_name ''xmlns:ex''" by code_simp+
  then show ?thesis
    unfolding xml_attribute_def xmlns_def XMLNS_APACHE_def
    by (cases dialect) (simp_all, rule exI [of _ "''xmlns:ex''"], rule exI [of _ APACHE_URL], simp)
qed

lemma prologue_text: "XML_PROLOGUE = prologue"
  by (simp add: XML_PROLOGUE_def prologue_def)

lemma narrow_fits: "narrow k t \<Longrightarrow> SIZEOF_STRUCT_MEMBER * k \<le> BLOCK_ALLOC_MAX \<Longrightarrow> tree_fits t"
  by (induction t) (auto simp: list_all_iff elim: order_trans [rotated])

text \<open>The parameters as elements.\<close>

definition params_tree :: "xml_tree list \<Rightarrow> xml_tree" where
  "params_tree ts =
     Elem ''params'' (LF # concat (map (\<lambda>t. [LF]) ts)) (map (\<lambda>t. Elem ''param'' [] [Elem ''value'' [] [t]]) ts)"

lemma content_params:
  assumes "\<And>v. v \<in> set vs \<Longrightarrow> carries pf dtext dialect v (f v)"
  shows "content (params_text dtext dialect vs) [] [params_tree (map f vs)]"
proof -
  have "content (element ''param'' (value_text dtext dialect v) @ CRLF) ([] @ [LF])
      ([Elem ''param'' [] [Elem ''value'' [] [f v]]] @ [])" if "v \<in> set vs" for v
    by (intro content_append content_named content_line carried_value [OF assms [OF that]]) simp
  then have "content (concat (map (\<lambda>v. element ''param'' (value_text dtext dialect v) @ CRLF) vs))
      (concat (map (\<lambda>v. [LF]) vs)) (concat (map (\<lambda>v. [Elem ''param'' [] [Elem ''value'' [] [f v]]]) vs))"
    by (intro content_concat) simp_all
  then have "content (params_text dtext dialect vs) []
      [Elem ''params'' ([LF] @ concat (map (\<lambda>v. [LF]) vs)) ([] @ concat (map (\<lambda>v. [Elem ''param'' [] [Elem ''value'' [] [f v]]]) vs))]"
    unfolding params_text_def by (intro content_named content_append content_line) simp_all
  moreover have "concat (map (\<lambda>v. [Elem ''param'' [] [Elem ''value'' [] [f v]]]) vs) =
      map (\<lambda>t. Elem ''param'' [] [Elem ''value'' [] [t]]) (map f vs)" by (induction vs) simp_all
  ultimately show ?thesis by (simp add: params_tree_def comp_def)
qed

lemma read_params_tree:
  assumes "\<And>v. v \<in> set vs \<Longrightarrow> carries ps dtext dialect v (f v) \<and> value_depth v \<le> maxNest ps"
  shows "read_params ps (params_tree (map f vs)) = Some (Inr vs)"
proof -
  have "read_params_loop ps us (map (\<lambda>t. Elem ''param'' [] [Elem ''value'' [] [t]]) (map f vs)) = Some (Inr (us @ vs))" for us
    using assms
  proof (induction vs arbitrary: us)
    case (Cons v vs)
    have "read_value ps (maxNest ps) (Elem ''value'' [] [f v]) = Some (Inr v)"
      using Cons.prems [of v] carried_value(2) [of ps dtext dialect v "f v" "maxNest ps"] by auto
    then have "read_param ps us (Elem ''param'' [] [Elem ''value'' [] [f v]]) = Some (Inr (us @ [v]))"
      by (simp add: read_param_def validateName_def validateChildCount_def)
    with Cons show ?case by simp
  qed simp
  then show ?thesis by (simp add: read_params_def params_tree_def validateName_def comp_def)
qed

text \<open>The XML parser makes the tree \<open>t\<close> of \<open>text\<close>, and the tree fits the memory blocks.\<close>

definition reads_as :: "'d parser \<Rightarrow> string \<Rightarrow> xml_tree \<Rightarrow> bool" where
  "reads_as ps text t \<longleftrightarrow>
     (\<exists>evs. expat ps text = Some (evs, None) \<and> document_tree evs = Some t \<and>
        sum_list (map event_size evs) \<le> BLOCK_ALLOC_MAX) \<and> tree_fits t"

lemma message_reads_as:
  assumes "content s cd ks" "xml_name n" "reads_xml (expat ps)"
    and "SIZEOF_STRUCT_MEMBER * length text \<le> BLOCK_ALLOC_MAX"
    and "text = prologue @ (''<'' @ n @ xmlns dialect @ ''>'' @ s @ ''</'' @ n @ ''>'') @ CRLF"
  shows "reads_as ps text (Elem n cd ks)"
proof -
  obtain evs where evs: "xml_document text evs" "document_tree evs = Some (Elem n cd ks)"
      "sum_list (map event_size evs) \<le> 8 * length text" "narrow (length text) (Elem n cd ks)"
    using document_content [OF assms(1,2) xmlns_attribute] unfolding assms(5) by metis
  obtain evs' where "expat ps text = Some (evs', None)" "document_tree evs' = document_tree evs"
      "sum_list (map event_size evs') = sum_list (map event_size evs)"
    using reads_xml_document [OF assms(3) evs(1)] by metis
  then show ?thesis using evs narrow_fits [OF evs(4) assms(4)] assms(4) by (simp add: reads_as_def)
qed

lemma response_reads_as:
  assumes "carries ps dtext dialect v t" "reads_xml (expat ps)"
    and "SIZEOF_STRUCT_MEMBER * length (response_text dtext dialect v) \<le> BLOCK_ALLOC_MAX"
  shows "reads_as ps (response_text dtext dialect v) (Elem ''methodResponse'' [LF, LF] [params_tree [t]])"
proof (rule message_reads_as [OF _ _ assms(2,3)])
  have "content (params_text dtext dialect [v]) [] [params_tree [t]]"
    using content_params [of "[v]" ps dtext dialect "\<lambda>_. t"] assms(1) by simp
  then have "content (CRLF @ params_text dtext dialect [v] @ CRLF) ([LF] @ [] @ [LF]) ([] @ [params_tree [t]] @ [])"
    by (intro content_append content_line)
  then show "content (CRLF @ params_text dtext dialect [v] @ CRLF) [LF, LF] [params_tree [t]]" by simp
qed (simp_all add: response_text_def prologue_text)

lemma call_reads_as:
  assumes "\<And>v. v \<in> set vs \<Longrightarrow> carries ps dtext dialect v (f v)" "reads_xml (expat ps)" "plain_text name"
    and "SIZEOF_STRUCT_MEMBER * length (call_text dtext dialect name vs) \<le> BLOCK_ALLOC_MAX"
  shows "reads_as ps (call_text dtext dialect name vs)
    (Elem ''methodCall'' [LF, LF, LF] [Elem ''methodName'' name [], params_tree (map f vs)])"
proof (rule message_reads_as [OF _ _ assms(2,4)])
  let ?s = "CRLF @ element ''methodName'' (escape_chars name) @ CRLF @ params_text dtext dialect vs @ CRLF"
  have "content (params_text dtext dialect vs) [] [params_tree (map f vs)]" using content_params assms(1) .
  then have "content ?s ([LF] @ [] @ [LF] @ [] @ [LF])
      ([] @ [Elem ''methodName'' name []] @ [] @ [params_tree (map f vs)] @ [])"
    by (intro content_append content_line content_named content_escape assms(3)) simp_all
  then show "content ?s [LF, LF, LF] [Elem ''methodName'' name [], params_tree (map f vs)]" by simp
qed (simp_all add: call_text_def prologue_text)

lemma read_response_tree:
  assumes "carries ps dtext dialect v t" "value_depth v \<le> maxNest ps"
  shows "read_response ps (Elem ''methodResponse'' cd [params_tree [t]]) = Some (Inr (Returned v))"
proof -
  have "read_params ps (params_tree [t]) = Some (Inr [v])"
    using read_params_tree [of "[v]" ps dtext dialect "\<lambda>_. t"] assms by simp
  moreover have "xml_element_name (params_tree [t]) = ''params''" by (simp add: params_tree_def)
  ultimately show ?thesis by (simp add: read_response_def read_method_response_def read_result_def)
qed

lemma read_call_tree:
  assumes "\<And>v. v \<in> set vs \<Longrightarrow> carries ps dtext dialect v (f v) \<and> value_depth v \<le> maxNest ps" "plain_text name"
  shows "read_call ps (Elem ''methodCall'' cd [Elem ''methodName'' name [], params_tree (map f vs)]) =
    Some (Inr (name, vs))"
proof -
  have "xml_element_name (params_tree (map f vs)) = ''params''" by (simp add: params_tree_def)
  moreover have "\<not> xml_byte NUL" by (simp add: xml_byte_def uchar_def)
  then have "NUL \<notin> set name" using assms(2) unfolding list_all_iff by blast
  then have "c_str name = name" by (rule c_str_id)
  moreover note validate_plain [OF assms(2)]
  moreover have "read_params ps (params_tree (map f vs)) = Some (Inr vs)" by (rule read_params_tree [OF assms(1)])
  ultimately show ?thesis
    by (simp add: read_call_def read_call_children_def getChildByName_def parseMethodNameElement_def always_def)
qed

lemma sendable_all:
  assumes "have_regex ps" "list_all (sendable ps dtext) vs"
  obtains f where "\<And>v. v \<in> set vs \<Longrightarrow> carries ps dtext dialect v (f v)"
  using assms sendable_carried [of ps dtext _ dialect] unfolding list_all_iff by metis

section \<open>Faults\<close>

abbreviation fault_value :: "fault \<Rightarrow> 'd xvalue" where
  "fault_value f \<equiv> XStruct [(''faultCode'', XInt (word_of_int (code_of f))), (''faultString'', XString (text_of f))]"

lemma string_new_plain: "plain_text s \<Longrightarrow> xmlrpc_string_new always s = Inr (XString s)"
proof -
  assume s: "plain_text s"
  have "\<not> xml_byte NUL" by (simp add: xml_byte_def uchar_def)
  then have "NUL \<notin> set s" using s by (auto simp: list_all_iff)
  then show ?thesis
    using s string_new_lp_always [of s]
    by (simp add: xmlrpc_string_new_def c_str_id xmlrpc_string_new_lp_def text_value_plain)
qed

lemma plain_ascii: "list_all (\<lambda>c. 32 \<le> uchar c \<and> uchar c < 128) s \<Longrightarrow> plain_text s"
  by (intro conjI ascii_text) (auto simp: list_all_iff xml_byte_def)

lemma fault_struct_value:
  assumes "plain_text (text_of f)"
  shows "fault_struct always f = Inr (fault_value f :: 'd xvalue)"
proof -
  have "xmlrpc_string_new always s = Inr (XString s :: 'd xvalue)" if "s = ''faultCode'' \<or> s = ''faultString''" for s
    using that by (intro string_new_plain plain_ascii) (auto simp: uchar_def)
  then show ?thesis
    using string_new_plain [OF assms, where 'a = 'd] by (simp add: fault_struct_def xmlrpc_int_new_def xmlrpc_createXmlrpcValue_def always_def)
qed

lemma fault_reads_as:
  assumes "carries ps dtext Dialect_i8 v t" "reads_xml (expat ps)"
    and "SIZEOF_STRUCT_MEMBER * length (fault_response_text dtext v) \<le> BLOCK_ALLOC_MAX"
  shows "reads_as ps (fault_response_text dtext v)
    (Elem ''methodResponse'' [LF, LF] [Elem ''fault'' [LF, LF] [Elem ''value'' [] [t]]])"
proof (rule message_reads_as [OF _ _ assms(2,3), where dialect = Dialect_i8])
  have "content (value_text dtext Dialect_i8 v) [] [Elem ''value'' [] [t]]"
    using assms(1) by (simp add: value_text_def carries_def content_named)
  then have "content (CRLF @ value_text dtext Dialect_i8 v @ CRLF) ([LF] @ [] @ [LF]) ([] @ [Elem ''value'' [] [t]] @ [])"
    by (intro content_append content_line)
  then have "content (element ''fault'' (CRLF @ value_text dtext Dialect_i8 v @ CRLF)) [] [Elem ''fault'' [LF, LF] [Elem ''value'' [] [t]]]"
    by (intro content_named) simp_all
  then have "content (CRLF @ element ''fault'' (CRLF @ value_text dtext Dialect_i8 v @ CRLF) @ CRLF)
      ([LF] @ [] @ [LF]) ([] @ [Elem ''fault'' [LF, LF] [Elem ''value'' [] [t]]] @ [])"
    by (intro content_append content_line)
  then show "content (CRLF @ element ''fault'' (CRLF @ value_text dtext Dialect_i8 v @ CRLF) @ CRLF) [LF, LF]
      [Elem ''fault'' [LF, LF] [Elem ''value'' [] [t]]]" by simp
qed (simp_all add: fault_response_text_def prologue_text xmlns_def)

lemma read_fault_tree:
  assumes "plain_text (text_of f)" "carries ps dtext dialect (fault_value f) t" "value_depth (fault_value f :: 'd xvalue) \<le> maxNest (ps :: 'd parser)"
  shows "read_response ps (Elem ''methodResponse'' cd [Elem ''fault'' cd' [Elem ''value'' [] [t]]]) =
    Some (Inr (Failed (word_of_int (code_of f)) (text_of f)))"
proof -
  have "read_value ps (maxNest ps) (Elem ''value'' [] [t]) = Some (Inr (fault_value f))"
    using assms by (simp add: carries_def)
  moreover have "\<not> xml_byte NUL" by (simp add: xml_byte_def uchar_def)
  then have "NUL \<notin> set (text_of f)" using assms(1) by (auto simp: list_all_iff)
  then have "xmlrpc_read_string always (XString (text_of f) :: 'd xvalue) = Inr (text_of f)" by (simp add: read_string_value)
  moreover have "xmlrpc_read_int (XInt i :: 'd xvalue) = Inr i" for i by (simp add: xmlrpc_read_int_def validateType_def)
  ultimately have "read_fault ps (Elem ''fault'' cd' [Elem ''value'' [] [t]]) = Some (Inr (word_of_int (code_of f), text_of f))"
    by (simp add: read_fault_def read_fault_value_def read_member_of_def fault_code_of_def fault_string_of_def mapO_fault_def)
  then show ?thesis by (simp add: read_response_def read_method_response_def)
qed

section \<open>Messages written and read\<close>

lemma response_parsed:
  assumes "heap_ok h {} E" "reads_as ps text t" "length text \<le> limits ps XMLRPC_XML_SIZE_LIMIT_ID"
    and "read_response ps t = Some (Inr r)"
  shows "\<exists>x h'. xmlrpc_parse_response2 always ps text h = Some (Inr x, h') \<and> response_made E h h' x r"
proof -
  obtain evs where doc: "expat ps text = Some (evs, None)" "document_tree evs = Some t"
      "sum_list (map event_size evs) \<le> BLOCK_ALLOC_MAX" "tree_fits t"
    using assms(2) unfolding reads_as_def by blast
  then have "simulates False (stays E h) (response_made E h) (xmlrpc_parse_response2 always ps text h) (Some (Inr r))"
    using sim_parse_response2 [OF assms(1) doc] assms(3,4) by simp
  then show ?thesis by (blast dest: sim_success)
qed

lemma response_read_back:
  assumes "heap_ok h {} E" "reads_xml (expat ps)" "have_regex ps"
    and "sendable ps (dtext_of fmt) v" "value_depth v \<le> maxNest ps"
    and "grown_block 1 out" "block_data 1 out = []"
    and "xmlrpc_serialize_response2 fmt mok dialect v out = Inr out'"
    and "length (block_data 1 out') \<le> limits ps XMLRPC_XML_SIZE_LIMIT_ID"
    and "SIZEOF_STRUCT_MEMBER * length (block_data 1 out') \<le> BLOCK_ALLOC_MAX"
  shows "\<exists>p h'. xmlrpc_parse_response2 always ps (block_data 1 out') h = Some (Inr (Returned p), h') \<and>
    repr h' p v \<and> heap_ok h' {} (add_mset p E) \<and> (\<forall>q \<in> dom (cells h). body_at h' q = body_at h q)"
proof -
  let ?text = "response_text (dtext_of fmt) dialect v"
  have written: "block_data 1 out' = ?text"
    using block_writer.writesD [OF emits_writer.W_response2 assms(6,8)] assms(7) by simp
  obtain t where t: "carries ps (dtext_of fmt) dialect v t" using sendable_carried [OF assms(3,4)] by blast
  have "reads_as ps ?text (Elem ''methodResponse'' [LF, LF] [params_tree [t]])"
    using response_reads_as [OF t assms(2)] assms(10) written by simp
  then obtain r h' where out: "xmlrpc_parse_response2 always ps ?text h = Some (Inr r, h')"
      "response_made E h h' r (Returned v)"
    using response_parsed [OF assms(1)] read_response_tree [OF t assms(5)] assms(9) written by metis
  then obtain p where "r = Returned p" "acquired E h h' p v" by (cases r) auto
  then have "heap_ok h' {} (add_mset p E)" "extends h h'" "repr h' p v" unfolding acquired_def by blast+
  moreover have "xmlrpc_parse_response2 always ps (block_data 1 out') h = Some (Inr (Returned p), h')"
    using out(1) \<open>r = Returned p\<close> written by simp
  ultimately show ?thesis using extends_live by blast
qed

lemma fault_read_back:
  assumes "heap_ok h {} E" "reads_xml (expat ps)" "have_regex ps" "plain_text (text_of f)" "2 \<le> maxNest ps"
    and "length (fault_response_text dtext (fault_value f :: 'd xvalue)) \<le> limits (ps :: 'd parser) XMLRPC_XML_SIZE_LIMIT_ID"
    and "SIZEOF_STRUCT_MEMBER * length (fault_response_text dtext (fault_value f :: 'd xvalue)) \<le> BLOCK_ALLOC_MAX"
  shows "\<exists>h'. xmlrpc_parse_response2 always ps (fault_response_text dtext (fault_value f :: 'd xvalue)) h =
      Some (Inr (Failed (word_of_int (code_of f)) (text_of f)), h') \<and> heap_ok h' {} E"
proof -
  have "plain_text ''faultCode''" "plain_text ''faultString''"
    by (rule plain_ascii, simp add: uchar_def)+
  then have "sendable ps dtext (fault_value f)" using assms(4) by simp
  then obtain t where t: "carries ps dtext Dialect_i8 (fault_value f) t" using sendable_carried [OF assms(3)] by blast
  have "value_depth (fault_value f :: 'd xvalue) \<le> maxNest ps" using assms(5) by simp
  note read_fault_tree [OF assms(4) t this] fault_reads_as [OF t assms(2,7)]
  from response_parsed [OF assms(1) this(2) assms(6) this(1)] obtain x h' where
    "xmlrpc_parse_response2 always ps (fault_response_text dtext (fault_value f)) h = Some (Inr x, h')"
    "response_made E h h' x (Failed (word_of_int (code_of f)) (text_of f) :: 'd xvalue response)"
    by blast
  then show ?thesis by (cases x) auto
qed

lemma call_read_back:
  assumes "heap_ok h {} E" "reads_xml (expat ps)" "have_regex ps"
    and "plain_text (c_str name)" "list_all (\<lambda>v. sendable ps (dtext_of fmt) v \<and> value_depth v \<le> maxNest ps) vs"
    and "grown_block 1 out" "block_data 1 out = []"
    and "xmlrpc_serialize_call2 fmt mok dialect name (XArray vs) out = Inr out'"
    and "length (block_data 1 out') \<le> limits ps XMLRPC_XML_SIZE_LIMIT_ID"
    and "SIZEOF_STRUCT_MEMBER * length (block_data 1 out') \<le> BLOCK_ALLOC_MAX"
  shows "\<exists>p h'. xmlrpc_parse_call always ps (block_data 1 out') h = Some (Inr (c_str name, p), h') \<and>
    repr h' p (XArray vs) \<and> heap_ok h' {} (add_mset p E) \<and> (\<forall>q \<in> dom (cells h). body_at h' q = body_at h q)"
proof -
  let ?text = "call_text (dtext_of fmt) dialect (c_str name) vs"
  obtain e where "escapeForXml mok (c_str name) = Inr e"
    using assms(8) by (auto simp: xmlrpc_serialize_call2_def bindE_def split: sum.splits)
  then have written: "block_data 1 out' = ?text"
    using block_writer.writesD [OF emits_writer.W_call2 assms(6,8)] assms(7) by simp
  have sendable: "list_all (sendable ps (dtext_of fmt)) vs" using assms(5) by (simp add: list_all_iff)
  obtain f where f: "\<And>v. v \<in> set vs \<Longrightarrow> carries ps (dtext_of fmt) dialect v (f v)"
    using sendable_all [OF assms(3) sendable] by metis
  let ?t = "Elem ''methodCall'' [LF, LF, LF] [Elem ''methodName'' (c_str name) [], params_tree (map f vs)]"
  have "reads_as ps ?text ?t"
    using call_reads_as [OF f assms(2,4)] assms(10) written by simp
  then obtain evs where doc: "expat ps ?text = Some (evs, None)" "document_tree evs = Some ?t"
      "sum_list (map event_size evs) \<le> BLOCK_ALLOC_MAX" "tree_fits ?t"
    unfolding reads_as_def by blast
  have "read_call ps ?t = Some (Inr (c_str name, vs))"
    by (rule read_call_tree [OF _ assms(4)]) (use f assms(5) in \<open>auto simp: list_all_iff\<close>)
  then have "simulates False (stays E h) (call_made E h)
      (xmlrpc_parse_call always ps ?text h) (Some (Inr (c_str name, vs)))"
    using sim_parse_call [OF assms(1) doc] assms(9) written by simp
  then obtain r h' where out: "xmlrpc_parse_call always ps ?text h = Some (Inr r, h')"
      "call_made E h h' r (c_str name, vs)"
    by (blast dest: sim_success)
  then obtain p where p: "r = (c_str name, p)" "made E h h' p (XArray vs)"
    by (cases r) (auto simp: call_made_def)
  have "xmlrpc_parse_call always ps (block_data 1 out') h = Some (Inr (c_str name, p), h')"
    using out(1) p(1) written by simp
  then show ?thesis using madeD(2,4) [OF assms(1) p(2)] extends_live [OF madeD(3) [OF assms(1) p(2)]] by blast
qed

section \<open>Properties\<close>

text \<open>C2: a response written by the server's serializer is read back by the client's parser as the same
  value: whatever memory the serializer had, if it produced a text, then any XML parser that reads
  such documents as Expat does lets \<open>xmlrpc_parse_response2\<close> build, in any heap, a new value that
  stands for the one sent, with one reference to it and no old value changed.\<close>
theorem response_roundtrip:
  assumes "heap_ok h {} E" "reads_xml (expat ps)" "have_regex ps"
    and "sendable ps (dtext_of fmt) v" "value_depth v \<le> maxNest ps"
    and "grown_block 1 out" "block_data 1 out = []"
    and "xmlrpc_serialize_response2 fmt mok dialect v out = Inr out'"
    and "length (block_data 1 out') \<le> limits ps XMLRPC_XML_SIZE_LIMIT_ID"
    and "SIZEOF_STRUCT_MEMBER * length (block_data 1 out') \<le> BLOCK_ALLOC_MAX"
  shows "\<exists>p h'. xmlrpc_parse_response2 always ps (block_data 1 out') h = Some (Inr (Returned p), h') \<and>
    repr h' p v \<and> heap_ok h' {} (add_mset p E) \<and> (\<forall>q \<in> dom (cells h). body_at h' q = body_at h q)"
  by (rule response_read_back) (rule assms)+

definition reference_parser :: "unit parser" where
  "reference_parser = (sample_parser [])\<lparr>expat := reference_expat\<rparr>"

lemma reference_parser:
  "reads_xml (expat reference_parser)" "have_regex reference_parser" "maxNest reference_parser = 64"
  "length xml \<le> 512 \<Longrightarrow> length xml \<le> limits reference_parser XMLRPC_XML_SIZE_LIMIT_ID"
  by (simp_all add: reference_parser_def sample_parser_def reference_expat_reads maxNest_def xmlrpc_limit_get_def)

lemma empty_block_grown: "grown_block 1 empty_block" and empty_block_data: "block_data 1 empty_block = []"
  by (auto simp: empty_block_def grown_block_def block_ready_def mem_block_wf_def block_cells_def
      block_data_def mem_block_contents_def intro: exI [of _ 4])

lemma fits_written:
  assumes "emits_fit f text" "length text \<le> BLOCK_ALLOC_MAX"
  obtains out' where "f empty_block = Inr out'" "block_data 1 out' = text"
  using block_roomy.fitsE [OF assms(1) empty_block_grown] assms(2) unfolding empty_block_data by auto

lemma response_roundtrip_witness:
  "\<exists>out' p h'. xmlrpc_serialize_response2 (\<lambda>_ :: unit. Inr ''1'') always Dialect_apache (XArray [XString ''a<b'', XI8 7]) empty_block = Inr out' \<and>
     xmlrpc_parse_response2 always reference_parser (block_data 1 out') no_cells = Some (Inr (Returned p), h') \<and>
     repr h' p (XArray [XString ''a<b'', XI8 7])"
proof -
  let ?v = "XArray [XString ''a<b'', XI8 7] :: unit xvalue" and ?fmt = "\<lambda>_ :: unit. Inr ''1''"
  have len: "length (response_text (dtext_of ?fmt) Dialect_apache ?v) \<le> 512" by code_simp
  have "emits_fit (xmlrpc_serialize_response2 ?fmt always Dialect_apache ?v) (response_text (dtext_of ?fmt) Dialect_apache ?v)"
    by (rule fits_writer.W_response2) simp
  then obtain out' where out: "xmlrpc_serialize_response2 ?fmt always Dialect_apache ?v empty_block = Inr out'"
      "block_data 1 out' = response_text (dtext_of ?fmt) Dialect_apache ?v"
    by (rule fits_written) (use len in simp)
  have "plain_text ''a<b''" by (intro conjI ascii_text) (simp_all add: uchar_def xml_byte_def)
  then have "sendable reference_parser (dtext_of ?fmt) ?v" by simp
  moreover
  have lim: "length (block_data 1 out') \<le> limits reference_parser XMLRPC_XML_SIZE_LIMIT_ID"
      "SIZEOF_STRUCT_MEMBER * length (block_data 1 out') \<le> BLOCK_ALLOC_MAX"
    using len reference_parser(4) unfolding out(2) by simp_all
  ultimately show ?thesis
    using response_roundtrip [OF no_cells_ok reference_parser(1,2) _ _ empty_block_grown empty_block_data out(1) lim]
      out(1) by (simp add: reference_parser(3)) blast
qed

text \<open>C3: a call written by the client's serializer is read back by the server's parser: the same method
  name, and a new array that stands for the same parameters.\<close>
theorem call_roundtrip:
  assumes "heap_ok h {} E" "reads_xml (expat ps)" "have_regex ps"
    and "plain_text (c_str name)" "list_all (\<lambda>v. sendable ps (dtext_of fmt) v \<and> value_depth v \<le> maxNest ps) vs"
    and "grown_block 1 out" "block_data 1 out = []"
    and "xmlrpc_serialize_call2 fmt mok dialect name (XArray vs) out = Inr out'"
    and "length (block_data 1 out') \<le> limits ps XMLRPC_XML_SIZE_LIMIT_ID"
    and "SIZEOF_STRUCT_MEMBER * length (block_data 1 out') \<le> BLOCK_ALLOC_MAX"
  shows "\<exists>p h'. xmlrpc_parse_call always ps (block_data 1 out') h = Some (Inr (c_str name, p), h') \<and>
    repr h' p (XArray vs) \<and> heap_ok h' {} (add_mset p E) \<and> (\<forall>q \<in> dom (cells h). body_at h' q = body_at h q)"
  by (rule call_read_back) (rule assms)+

lemma call_roundtrip_witness:
  "\<exists>out' p h'. xmlrpc_serialize_call2 (\<lambda>_ :: unit. Inr ''1'') always Dialect_i8 ''a.b'' (XArray [XInt 7]) empty_block = Inr out' \<and>
     xmlrpc_parse_call always reference_parser (block_data 1 out') no_cells = Some (Inr (''a.b'', p), h') \<and>
     repr h' p (XArray [XInt 7])"
proof -
  let ?v = "XArray [XInt 7] :: unit xvalue" and ?fmt = "\<lambda>_ :: unit. Inr ''1''"
  have len: "length (call_text (dtext_of ?fmt) Dialect_i8 (c_str ''a.b'') [XInt 7]) \<le> 512" by code_simp
  obtain e where e: "escapeForXml always (c_str ''a.b'') = Inr e" using escapeForXml_always by blast
  have "emits_fit (xmlrpc_serialize_call2 ?fmt always Dialect_i8 ''a.b'' ?v) (call_text (dtext_of ?fmt) Dialect_i8 (c_str ''a.b'') [XInt 7])"
    by (rule fits_writer.W_call2, simp, rule e)
  then obtain out' where out: "xmlrpc_serialize_call2 ?fmt always Dialect_i8 ''a.b'' ?v empty_block = Inr out'"
      "block_data 1 out' = call_text (dtext_of ?fmt) Dialect_i8 (c_str ''a.b'') [XInt 7]"
    by (rule fits_written) (use len in simp)
  have name: "plain_text (c_str ''a.b'')" "c_str ''a.b'' = ''a.b''"
    by (intro conjI ascii_text; simp add: uchar_def xml_byte_def) code_simp
  have lim: "length (block_data 1 out') \<le> limits reference_parser XMLRPC_XML_SIZE_LIMIT_ID"
      "SIZEOF_STRUCT_MEMBER * length (block_data 1 out') \<le> BLOCK_ALLOC_MAX"
    using len reference_parser(4) unfolding out(2) by simp_all
  then show ?thesis
    using call_roundtrip [OF no_cells_ok reference_parser(1,2) name(1) _ empty_block_grown empty_block_data out(1) lim]
      out(1) name(2) by (simp add: reference_parser(3)) blast
qed

end
