(* ===== verification/Server.thy ===== *)
theory Server
  imports System_Method Roundtrip
begin

text \<open>
  A server's answer to a call (\<open>xmlrpc_registry_process_call2\<close> of \<open>src/registry.c\<close>): parse, dispatch,
  serialize.  The serializer reads the value in the heap that the method returned, as a tree.
\<close>

section \<open>The tree of a value in the heap\<close>

partial_function (option) values_at :: "'d heap \<Rightarrow> nat list \<Rightarrow> 'd xvalue list option" where
  "values_at h ps =
     (case ps of [] \<Rightarrow> Some []
      | p # rest \<Rightarrow>
          (case cells h p of None \<Rightarrow> None
           | Some c \<Rightarrow>
               Option.bind
                 (case body c of
                    Scalar v \<Rightarrow> Some v
                  | Pointer obj d \<Rightarrow> Some (XCptr obj)
                  | ArrayBody b \<Rightarrow> Option.bind (values_at h (block_data SIZEOF_VALUE_PTR b)) (\<lambda>vs. Some (XArray vs))
                  | StructBody b \<Rightarrow>
                      Option.bind (those (map (\<lambda>m. key_string h (mkey m)) (block_data SIZEOF_STRUCT_MEMBER b))) (\<lambda>keys.
                      Option.bind (values_at h (map mvalue (block_data SIZEOF_STRUCT_MEMBER b))) (\<lambda>vs.
                      Some (XStruct (zip keys vs)))))
                 (\<lambda>v. Option.bind (values_at h rest) (\<lambda>vs. Some (v # vs)))))"

definition value_at :: "'d heap \<Rightarrow> nat \<Rightarrow> 'd xvalue option" where
  "value_at h p = map_option hd (values_at h [p])"

lemma values_at_Nil: "values_at h [] = Some []"
  by (subst values_at.simps) simp

lemma values_at_Cons:
  assumes "repr h p v" "values_at h rest = Some vs"
  shows "values_at h (p # rest) = Some (v # vs)"
proof -
  have all: "values_at h ps = Some vs" if "list_all2 (\<lambda>p v. \<forall>rest ws. values_at h rest = Some ws \<longrightarrow> values_at h (p # rest) = Some (v # ws)) ps vs"
    for ps and vs :: "'a xvalue list"
    using that by (induction ps vs rule: list_all2_induct) (auto simp: values_at_Nil)
  have keys: "those (map (\<lambda>m. key_string h (mkey m)) ms) = Some (map fst kvs)"
    if "list_all2 (\<lambda>m kv. key_string h (mkey m) = Some (fst kv)) ms kvs" for ms and kvs :: "(string \<times> 'a xvalue) list"
    using that by (induction rule: list_all2_induct) auto
  have "\<forall>rest ws. values_at h rest = Some ws \<longrightarrow> values_at h (p # rest) = Some (v # ws)"
    using assms(1)
  proof (induction rule: repr.induct)
    case (repr_scalar p v)
    then show ?case by (subst values_at.simps) (auto simp: body_at_def)
  next
    case (repr_pointer p obj d)
    then show ?case by (subst values_at.simps) (auto simp: body_at_def)
  next
    case (repr_array p b vs)
    have "values_at h (block_data SIZEOF_VALUE_PTR b) = Some vs"
      by (rule all) (rule list_all2_mono [OF repr_array(2)], blast)
    then show ?case using repr_array(1) by (subst values_at.simps) (auto simp: body_at_def)
  next
    case (repr_struct p b kvs)
    let ?ms = "block_data SIZEOF_STRUCT_MEMBER b"
    have "those (map (\<lambda>m. key_string h (mkey m)) ?ms) = Some (map fst kvs)"
      by (rule keys) (use repr_struct(2) in \<open>auto elim!: list_all2_mono\<close>)
    moreover have "values_at h (map mvalue ?ms) = Some (map snd kvs)"
      by (rule all) (use repr_struct(2) in \<open>auto simp: list_all2_map1 list_all2_map2 elim!: list_all2_mono\<close>)
    ultimately show ?case using repr_struct(1) by (subst values_at.simps) (auto simp: body_at_def zip_map_fst_snd)
  qed
  then show ?thesis using assms(2) by blast
qed

lemma value_at_repr: "repr h p v \<Longrightarrow> value_at h p = Some v"
  by (simp add: value_at_def values_at_Cons values_at_Nil)

section \<open>Answering a call\<close>

text \<open>A run of the serializer that is aborted aborts the server.\<close>

definition hrun :: "'a run \<Rightarrow> ('a, 's) op" where
  "hrun r h = (case r of Inl None \<Rightarrow> None | Inl (Some f) \<Rightarrow> Some (Inl f, h) | Inr x \<Rightarrow> Some (Inr x, h))"

lemma hrun_Inr [simp]: "hrun (Inr x) h = Some (Inr x, h)"
  by (simp add: hrun_def)

definition serializeFault ::
    "(nat \<Rightarrow> bool) \<Rightarrow> ('d \<Rightarrow> string result) \<Rightarrow> fault \<Rightarrow> char mem_block \<Rightarrow> char mem_block run" where
  "serializeFault mok fmt fault responseXmlP =
     (case xmlrpc_serialize_fault fmt mok fault responseXmlP of
        Inl None \<Rightarrow> Inl None
      | Inl (Some f) \<Rightarrow> Inl (Some (faultf [Txt ''Executed XML-RPC method completely and it '', Txt ''generated a fault response, but we failed '',
                           Txt ''to encode that fault response as XML-RPC '', Txt ''so we could send it to the client.  '',
                           PctS (text_of f)]))
      | Inr b \<Rightarrow> Inr b)"

definition bad_call :: "fault \<Rightarrow> fault" where
  "bad_call f =
     set_fault_formatted XMLRPC_PARSE_ERROR [Txt ''Call XML not a proper XML-RPC call.  '', PctS (text_of f)]"

text \<open>The code goes on after a fault of these steps.\<close>

definition outcome_of :: "('a, 's) op \<Rightarrow> (fault + 'a, 's) op" where
  "outcome_of m s = map_option (\<lambda>(r, s'). (Inr r, s')) (m s)"

text \<open>The response, or the fault that the client is to be told of; what fails here is the server.\<close>

definition serve_call ::
    "server \<Rightarrow> ('d \<Rightarrow> string result) \<Rightarrow> 'd xmlrpc_registry \<Rightarrow> char mem_block \<Rightarrow> string \<Rightarrow> nat \<Rightarrow>
     (fault + char mem_block, 'd) heap_op" where
  "serve_call sv fmt r responseXmlP name paramArrayP =
     hfinally
       (hbind (outcome_of (xmlrpc_dispatchCall sv r name paramArrayP)) (\<lambda>res.
          case res of
            Inl fault \<Rightarrow> hret (Inl fault)
          | Inr resultP \<Rightarrow>
              hfinally
                (\<lambda>h. case value_at h resultP of
                       None \<Rightarrow> None
                     | Some v \<Rightarrow>
                         hbind (hrun (xmlrpc_serialize_response2 fmt (malloc_ok sv) (dialect r) v responseXmlP))
                           (\<lambda>out. hret (Inr out)) h)
                (xmlrpc_DECREF resultP)))
       (xmlrpc_DECREF paramArrayP)"

definition xmlrpc_registry_process_call2 ::
    "server \<Rightarrow> 'd parser \<Rightarrow> ('d \<Rightarrow> string result) \<Rightarrow> 'd xmlrpc_registry \<Rightarrow> string \<Rightarrow> (char mem_block, 'd) heap_op" where
  "xmlrpc_registry_process_call2 sv ps fmt r callXml =
     hbind (hresult (mem_block_new (malloc_ok sv) 1 0)) (\<lambda>responseXmlP.
     hbind (outcome_of (xmlrpc_parse_call (malloc_ok sv) ps callXml)) (\<lambda>parsed.
     hbind (case parsed of
              Inl f \<Rightarrow> hret (Inl (bad_call f))
            | Inr (name, paramArrayP) \<Rightarrow> serve_call sv fmt r responseXmlP name paramArrayP) (\<lambda>res.
     case res of
       Inl fault \<Rightarrow> hrun (serializeFault (malloc_ok sv) fmt fault responseXmlP)
     | Inr out \<Rightarrow> hret out)))"


text \<open>The older name; \<open>host\<close> is not used.\<close>

definition xmlrpc_registry_process_call ::
    "server \<Rightarrow> 'd parser \<Rightarrow> ('d \<Rightarrow> string result) \<Rightarrow> 'd xmlrpc_registry \<Rightarrow> string option \<Rightarrow> string \<Rightarrow>
     (char mem_block, 'd) heap_op" where
  "xmlrpc_registry_process_call sv ps fmt r host callXml = xmlrpc_registry_process_call2 sv ps fmt r callXml"

section \<open>What a method does\<close>

text \<open>A method computes a function of the values of its parameters: it makes a new value, or faults, and
  leaves the owners of all others as they were.\<close>

definition leaves :: "nat multiset \<Rightarrow> 'd heap \<Rightarrow> bool" where
  "leaves E h \<longleftrightarrow> heap_ok h {} E"

definition gives :: "nat multiset \<Rightarrow> 'd heap \<Rightarrow> nat \<Rightarrow> 'd xvalue \<Rightarrow> bool" where
  "gives E h q v \<longleftrightarrow> heap_ok h {} (add_mset q E) \<and> repr h q v"

definition implements :: "(nat \<Rightarrow> (nat, 'd) heap_op) \<Rightarrow> ('d xvalue list \<Rightarrow> 'd xvalue result) \<Rightarrow> bool" where
  "implements m F \<longleftrightarrow>
     (\<forall>h E p vs. heap_ok h {} E \<and> p \<in># E \<and> repr h p (XArray vs) \<longrightarrow>
        simulates False (leaves E) (gives E) (m p h) (Some (F vs)))"

lemma implementsE:
  assumes "implements m F" "heap_ok h {} E" "p \<in># E" "repr h p (XArray vs)"
  obtains f h' where "F vs = Inl f" "m p h = Some (Inl f, h')" "heap_ok h' {} E"
  | v q h' where "F vs = Inr v" "m p h = Some (Inr q, h')" "heap_ok h' {} (add_mset q E)" "repr h' q v"
proof -
  have "simulates False (leaves E) (gives E) (m p h) (Some (F vs))"
    using assms unfolding implements_def by blast
  then show thesis
    by (cases "F vs"; cases "m p h"; cases "fst (the (m p h))")
      (auto simp: simulates_def leaves_def gives_def intro: that)
qed

lemma dispatch_user_method:
  assumes "preinvokeFunction r = None" "methods_ok (methodListP r)"
    and "registry_methods r name = Some info" "methodFn info = UserFn m" "implements m F"
  shows "implements (xmlrpc_dispatchCall sv r name) F"
proof -
  have "xmlrpc_dispatchCall sv r name = m"
    using assms(1,3,4) lookup_method [OF assms(2), of name]
    by (simp add: fun_eq_iff xmlrpc_dispatchCall_def numeral_2_eq_2 dispatch_step_def lookup_method_def callNamedMethod_def
        hbind_def hret_def)
  then show ?thesis using assms(5) by simp
qed

lemma dispatch_unknown_method:
  assumes "preinvokeFunction r = None" "methods_ok (methodListP r)"
    and "registry_methods r name = None" "defaultMethodFunction r = None"
  shows "implements (xmlrpc_dispatchCall sv r name) (\<lambda>_. Inl (not_defined name))"
proof -
  have "xmlrpc_dispatchCall sv r name p = hfail (not_defined name)" for p
    using assms(1,3,4) lookup_method [OF assms(2), of name]
    by (simp add: fun_eq_iff xmlrpc_dispatchCall_def numeral_2_eq_2 dispatch_step_def lookup_method_def
        hbind_def hret_def)
  then show ?thesis by (simp add: implements_def simulates_def leaves_def hfail_def)
qed

section \<open>What the client gets\<close>

fun reply_text :: "('d \<Rightarrow> string) \<Rightarrow> xmlrpc_dialect \<Rightarrow> 'd xvalue result \<Rightarrow> string" where
  "reply_text dtext dia (Inr v) = response_text dtext dia v"
| "reply_text dtext dia (Inl f) = fault_response_text dtext (fault_value f)"

text \<open>The outcome is one that survives the wire, and its text is not too long for the parser.\<close>

definition fits_wire :: "'d parser \<Rightarrow> string \<Rightarrow> bool" where
  "fits_wire ps text \<longleftrightarrow>
     length text \<le> limits ps XMLRPC_XML_SIZE_LIMIT_ID \<and> SIZEOF_STRUCT_MEMBER * length text \<le> BLOCK_ALLOC_MAX"

definition wire_parser :: "'d parser \<Rightarrow> bool" where
  "wire_parser ps \<longleftrightarrow> reads_xml (expat ps) \<and> have_regex ps"

definition reply_ok :: "'d parser \<Rightarrow> ('d \<Rightarrow> string result) \<Rightarrow> xmlrpc_dialect \<Rightarrow> 'd xvalue result \<Rightarrow> bool" where
  "reply_ok ps fmt dia res \<longleftrightarrow>
     (case res of
        Inr v \<Rightarrow> sendable ps (dtext_of fmt) v \<and> serializable fmt v \<and> value_depth v \<le> maxNest ps
      | Inl f \<Rightarrow> plain_text (text_of f) \<and> 2 \<le> maxNest ps) \<and>
     fits_wire ps (reply_text (dtext_of fmt) dia res)"

text \<open>Whatever heap the client has, it reads the outcome from the response.\<close>

definition tells :: "'d parser \<Rightarrow> char mem_block \<Rightarrow> 'd xvalue result \<Rightarrow> bool" where
  "tells ps response res \<longleftrightarrow>
     (\<forall>h E. heap_ok h {} E \<longrightarrow>
        (\<exists>h'. case res of
           Inr v \<Rightarrow> \<exists>p. xmlrpc_parse_response2 always ps (block_data 1 response) h = Some (Inr (Returned p), h') \<and>
                      repr h' p v \<and> heap_ok h' {} (add_mset p E)
         | Inl f \<Rightarrow> xmlrpc_parse_response2 always ps (block_data 1 response) h =
                      Some (Inr (Failed (word_of_int (code_of f)) (text_of f)), h') \<and> heap_ok h' {} E))"

lemma reply_told:
  assumes "wire_parser ps" "reply_ok ps fmt dia res" "grown_block 1 out" "block_data 1 out = []"
    and "(case res of Inl f \<Rightarrow> serializeFault always fmt f out
          | Inr v \<Rightarrow> xmlrpc_serialize_response2 fmt always dia v out) = Inr response"
  shows "tells ps response res"
proof (cases res)
  case (Inr v)
  have ser: "xmlrpc_serialize_response2 fmt always dia v out = Inr response" using assms(5) Inr by simp
  have "block_data 1 response = response_text (dtext_of fmt) dia v"
    using block_writer.writesD [OF emits_writer.W_response2 assms(3) ser] assms(4) by simp
  then show ?thesis
    using response_read_back [OF _ _ _ _ _ assms(3,4) ser, of _ _ ps] assms(1,2)
    unfolding tells_def Inr sum.case wire_parser_def reply_ok_def fits_wire_def reply_text.simps by metis
next
  case (Inl f)
  obtain v :: "'a xvalue" where v: "fault_struct always f = Inr v" "v = fault_value f"
    using fault_struct_value [of f] assms(2) unfolding reply_ok_def Inl by auto
  have ser: "xmlrpc_serialize_fault fmt always f out = Inr response"
    using assms(5) Inl by (simp add: serializeFault_def split: sum.splits option.splits)
  have "block_data 1 response = fault_response_text (dtext_of fmt) v"
    using block_writer.writesD [OF emits_writer.W_fault [OF v(1)] assms(3) ser] assms(4) by simp
  then show ?thesis
    using fault_read_back [of _ _ ps f "dtext_of fmt"] assms(1,2) v(2)
    unfolding tells_def Inl sum.case wire_parser_def reply_ok_def fits_wire_def reply_text.simps by auto
qed

lemma reply_written:
  assumes "reply_ok ps fmt dia res" "grown_block 1 out" "block_data 1 out = []"
  shows "\<exists>response. (case res of Inl f \<Rightarrow> serializeFault always fmt f out
          | Inr v \<Rightarrow> xmlrpc_serialize_response2 fmt always dia v out) = Inr response"
proof (cases res)
  case (Inr v)
  have "emits_fit (xmlrpc_serialize_response2 fmt always dia v) (response_text (dtext_of fmt) dia v)"
    using assms(1) Inr by (intro fits_writer.W_response2) (simp add: reply_ok_def)
  from block_roomy.fitsE [OF this assms(2)] show ?thesis
    using assms(1,3) Inr by (auto simp: reply_ok_def fits_wire_def)
next
  case (Inl f)
  have "fault_struct always f = Inr (fault_value f)"
    using fault_struct_value [of f] assms(1) unfolding reply_ok_def Inl by simp
  then have "emits_fit (xmlrpc_serialize_fault fmt always f) (fault_response_text (dtext_of fmt) (fault_value f))"
    by (rule fits_writer.W_fault) simp
  from block_roomy.fitsE [OF this assms(2)] show ?thesis
    using assms(1,3) Inl by (auto simp: reply_ok_def fits_wire_def serializeFault_def)
qed

section \<open>Serving a call\<close>

lemma serve_call_answers:
  fixes h :: "'d heap"
  assumes "implements (xmlrpc_dispatchCall sv r name) F" "malloc_ok sv = always"
    and "heap_ok h {} (add_mset p E)" "repr h p (XArray vs)"
    and "wire_parser ps" "reply_ok ps fmt (dialect r) (F vs)" "grown_block 1 out" "block_data 1 out = []"
  shows "\<exists>response h'.
    hbind (serve_call sv fmt r out name p) (\<lambda>res.
      case res of Inl fault \<Rightarrow> hrun (serializeFault (malloc_ok sv) fmt fault out) | Inr out \<Rightarrow> hret out) h =
      Some (Inr response, h') \<and> heap_ok h' {} E \<and> tells ps response (F vs)"
proof -
  obtain response where response: "(case F vs of Inl f \<Rightarrow> serializeFault always fmt f out
      | Inr v \<Rightarrow> xmlrpc_serialize_response2 fmt always (dialect r) v out) = Inr response"
    using reply_written [OF assms(6-8)] by blast
  have told: "tells ps response (F vs)" by (rule reply_told [OF assms(5-8) response])
  have "p \<in># add_mset p E" by simp
  from implementsE [OF assms(1,3) this assms(4)] show ?thesis
  proof cases
    case (1 f h1)
    obtain h2 where "xmlrpc_DECREF p h1 = Some h2" "heap_ok h2 {} E" using xmlrpc_DECREF_ok [OF 1(3)] by blast
    then show ?thesis
      using 1 told response assms(2)
      by (simp add: serve_call_def hbind_def hfinally_def outcome_of_def hret_def hresult_def)
  next
    case (2 v q h1)
    obtain h2 where h2: "xmlrpc_DECREF q h1 = Some h2" "heap_ok h2 {} (add_mset p E)"
      using xmlrpc_DECREF_ok [OF 2(3)] by blast
    obtain h3 where "xmlrpc_DECREF p h2 = Some h3" "heap_ok h3 {} E" using xmlrpc_DECREF_ok [OF h2(2)] by blast
    then show ?thesis
      using 2 h2 told response assms(2) value_at_repr [OF 2(4)]
      by (simp add: serve_call_def hbind_def hfinally_def outcome_of_def hret_def hresult_def)
  qed
qed

lemma empty_response_block:
  obtains out :: "char mem_block" where "mem_block_new always 1 0 = Inr out" "grown_block 1 out" "block_data 1 out = []"
  using mem_block_new_ok [of 1 always 0] mem_block_new_empty [of always] that by (auto simp: always_def)

lemma process_call_answers:
  fixes h :: "'d heap"
  assumes "implements (xmlrpc_dispatchCall sv r name) F" "malloc_ok sv = always"
    and "xmlrpc_parse_call always server xml h = Some (Inr (name, p), h1)"
    and "heap_ok h1 {} (add_mset p E)" "repr h1 p (XArray vs)"
    and "wire_parser ps" "reply_ok ps fmt (dialect r) (F vs)"
  shows "\<exists>response h'. xmlrpc_registry_process_call2 sv server fmt r xml h = Some (Inr response, h') \<and>
    heap_ok h' {} E \<and> tells ps response (F vs)"
proof -
  obtain out :: "char mem_block" where out: "mem_block_new always 1 0 = Inr out" "grown_block 1 out" "block_data 1 out = []"
    by (rule empty_response_block)
  have "xmlrpc_registry_process_call2 sv server fmt r xml h =
    hbind (serve_call sv fmt r out name p) (\<lambda>res.
      case res of Inl fault \<Rightarrow> hrun (serializeFault (malloc_ok sv) fmt fault out) | Inr out \<Rightarrow> hret out) h1"
    using out(1) assms(3)
    unfolding xmlrpc_registry_process_call2_def assms(2) hbind_def [of "hresult (mem_block_new _ _ _)"] hbind_def [of "outcome_of _"]
    by (simp add: hresult_def outcome_of_def)
  then show ?thesis using serve_call_answers [OF assms(1,2,4-7) out(2,3)] by simp
qed

lemma process_bad_call:
  fixes h :: "'d heap"
  assumes "malloc_ok sv = always" "xmlrpc_parse_call always server xml h = Some (Inl f, h1)"
    and "wire_parser ps" "reply_ok ps fmt (dialect r) (Inl (bad_call f) :: 'd xvalue result)"
  shows "\<exists>response. xmlrpc_registry_process_call2 sv server fmt r xml h = Some (Inr response, h1) \<and>
    tells ps response (Inl (bad_call f))"
proof -
  obtain out :: "char mem_block" where out: "mem_block_new always 1 0 = Inr out" "grown_block 1 out" "block_data 1 out = []"
    by (rule empty_response_block)
  obtain response where response: "serializeFault always fmt (bad_call f) out = Inr response"
    using reply_written [OF assms(4) out(2,3)] by auto
  have "tells ps response (Inl (bad_call f))"
    by (rule reply_told [OF assms(3,4) out(2,3)]) (simp add: response)
  then show ?thesis
    using out(1) assms(1,2) response
    by (simp add: xmlrpc_registry_process_call2_def hbind_def hresult_def outcome_of_def hret_def)
qed


section \<open>Samples\<close>

definition ping :: "nat \<Rightarrow> (nat, unit) heap_op" where
  "ping p = new_scalar (xmlrpc_string_new always ''pong'')"

lemma plain_sample: "plain_text ''pong''" "plain_text ''ping''" "plain_text ''pang''"
  by (rule plain_ascii, simp add: uchar_def)+

lemma ping_implements: "implements ping (\<lambda>_. Inr (XString ''pong''))"
proof -
  have new: "xmlrpc_string_new always ''pong'' = Inr (XString ''pong'' :: unit xvalue)"
    by (rule string_new_plain [OF plain_sample(1)])
  have made: "simulates False (stays E h) (made E h) (ping p h) (Some (Inr (XString ''pong'')))" if "heap_ok h {} E" for h E p
    unfolding ping_def new by (rule sim_new_scalar [OF that]) (auto simp: scalar_def)
  have "simulates False (leaves E) (gives E) (ping p h) (Some (Inr (XString ''pong'')))" if "heap_ok h {} E" for h E p
    by (rule sim_mono [OF made [OF that]]) (auto simp: leaves_def gives_def made_def)
  then show ?thesis by (simp add: implements_def)
qed

abbreviation sample_server :: server where
  "sample_server \<equiv> \<lparr>malloc_ok = always, version = (1, 2, 3)\<rparr>"

abbreviation one_double :: "unit \<Rightarrow> string result" where "one_double \<equiv> \<lambda>_. Inr ''1''"

lemma sample_registry:
  obtains r :: "unit xmlrpc_registry" and info where
    "methods_ok (methodListP r)" "registry_methods r ''ping'' = Some info" "methodFn info = UserFn ping"
    "registry_methods r ''pang'' = None" "preinvokeFunction r = None" "defaultMethodFunction r = None" "dialect r = Dialect_i8"
proof -
  obtain r0 :: "unit xmlrpc_registry" where r0: "methods_ok (methodListP r0)"
      "registry_methods r0 = map_of (map (\<lambda>m. (system_name m, system_info m)) all_system_methods)"
      "settings r0 = \<lparr>introspectionEnabled = True, methodListP = [], defaultMethodFunction = None, preinvokeFunction = None,
                   shutdownServerFn = None, dialect = Dialect_i8\<rparr>"
    using new_registry_table by blast
  let ?info = "\<lparr>methodFn = UserFn ping, stackSize = 0, signatureListP = [], helpText = []\<rparr>"
  have new: "registry_methods r0 ''ping'' = None" "registry_methods r0 ''pang'' = None"
    unfolding r0(2) by (simp_all add: all_system_methods_def)
  have "table_of (settings r0) r0" using r0(1) by (simp add: table_of_def)
  from registry_table.add_new [OF this new(1), of ?info] obtain r where r: "table_of (settings r0) r"
      "registry_methods r = (registry_methods r0)(''ping'' \<mapsto> ?info)" by blast
  then have "methods_ok (methodListP r)" "settings r = settings r0" by (simp_all add: table_of_def)
  moreover have "preinvokeFunction r = preinvokeFunction (settings r)" "defaultMethodFunction r = defaultMethodFunction (settings r)"
      "dialect r = dialect (settings r)"
    by (simp_all add: settings_def)
  ultimately show thesis using that [of r ?info] r(2) new(2) r0(3) by simp
qed

lemma reference_wire: "wire_parser reference_parser"
  by (simp add: wire_parser_def reference_parser)

lemma reference_fits: "length s \<le> 512 \<Longrightarrow> fits_wire reference_parser s"
  using reference_parser(4) [of s] by (simp add: fits_wire_def)

lemma sample_call:
  assumes "plain_text name" "length (call_text (dtext_of one_double) Dialect_i8 name [XInt 7]) \<le> 512"
  obtains call where "xmlrpc_serialize_call2 one_double always Dialect_i8 name (XArray [XInt 7]) empty_block = Inr call"
    "fits_wire reference_parser (block_data 1 call)" "c_str name = name"
proof -
  have "\<not> xml_byte NUL" by (simp add: xml_byte_def uchar_def)
  then have "NUL \<notin> set name" using assms(1) by (auto simp: list_all_iff)
  then have name: "c_str name = name" by (rule c_str_id)
  obtain e where e: "escapeForXml always (c_str name) = Inr e" using escapeForXml_always by blast
  have "emits_fit (xmlrpc_serialize_call2 one_double always Dialect_i8 name (XArray [XInt 7]))
      (call_text (dtext_of one_double) Dialect_i8 (c_str name) [XInt 7])"
    by (rule fits_writer.W_call2, simp, rule e)
  then obtain call where "xmlrpc_serialize_call2 one_double always Dialect_i8 name (XArray [XInt 7]) empty_block = Inr call"
      "block_data 1 call = call_text (dtext_of one_double) Dialect_i8 name [XInt 7]"
    unfolding name by (rule fits_written) (use assms(2) in simp)
  then show thesis using that name reference_fits assms(2) by simp
qed

text \<open>Plain ASCII messages reach the fault unchanged.\<close>

lemma plain_fault:
  assumes "list_all plain_char (vformat ps)"
  shows "set_fault_formatted code ps = Fault code (vformat ps)"
proof -
  have "xml_text (vformat ps)" by (rule plain_xml_text [OF assms])
  then have "sanitized (vformat ps) = vformat ps" "c_str (vformat ps) = vformat ps"
    using xml_text_NUL_free_utf8 NUL_not_in_xml_text c_str_id by blast+
  then show ?thesis by (simp add: set_fault_formatted_def set_fault_def)
qed

lemma not_defined_text:
  assumes "list_all plain_char name"
  shows "not_defined name = Fault XMLRPC_NO_SUCH_METHOD_ERROR (''Method '' @ [CHR 0x27] @ name @ [CHR 0x27] @ '' not defined'')"
  unfolding not_defined_def by (subst plain_fault) (use assms in \<open>simp_all add: vformat_def plain_char_def uchar_def\<close>)

section \<open>Properties\<close>

text \<open>C1: a remote procedure call is a call of the procedure.  A client writes a call of a method the
  server has, with parameters \<open>vs\<close>; if the function of the method computes \<open>F\<close>, the server
  answers, the client reads the value \<open>F vs\<close>, or the fault, from the answer, and on the server no
  reference is left over and none too many given back.  The texts must not be too long for the parsers,
  and the values must be ones that XML can carry.\<close>
theorem rpc_roundtrip:
  assumes "wire_parser server" "wire_parser client" "heap_ok h {} E" "malloc_ok sv = always"
    and "plain_text (c_str name)" "list_all (\<lambda>v. sendable server (dtext_of cfmt) v \<and> value_depth v \<le> maxNest server) vs"
    and "grown_block 1 out" "block_data 1 out = []"
    and "xmlrpc_serialize_call2 cfmt mok d name (XArray vs) out = Inr call" "fits_wire server (block_data 1 call)"
    and "preinvokeFunction r = None" "methods_ok (methodListP r)"
    and "registry_methods r (c_str name) = Some info" "methodFn info = UserFn m" "implements m F"
    and "reply_ok client fmt (dialect r) (F vs)"
  shows "\<exists>response h'. xmlrpc_registry_process_call2 sv server fmt r (block_data 1 call) h = Some (Inr response, h') \<and>
    heap_ok h' {} E \<and> tells client response (F vs)"
proof -
  obtain p h1 where parsed: "xmlrpc_parse_call always server (block_data 1 call) h = Some (Inr (c_str name, p), h1)"
      "repr h1 p (XArray vs)" "heap_ok h1 {} (add_mset p E)"
    using call_read_back [OF assms(3) _ _ assms(5-9)] assms(1,10) unfolding wire_parser_def fits_wire_def by blast
  have "implements (xmlrpc_dispatchCall sv r (c_str name)) F"
    by (rule dispatch_user_method [OF assms(11-15)])
  from process_call_answers [OF this assms(4) parsed(1,3,2) assms(2,16)] show ?thesis .
qed

lemma rpc_roundtrip_witness:
  "\<exists>r call response h'. xmlrpc_serialize_call2 one_double always Dialect_i8 ''ping'' (XArray [XInt 7]) empty_block = Inr call \<and>
     xmlrpc_registry_process_call2 sample_server reference_parser one_double r (block_data 1 call) no_cells = Some (Inr response, h') \<and>
     tells reference_parser response (Inr (XString ''pong''))"
proof -
  obtain r :: "unit xmlrpc_registry" and info where r: "methods_ok (methodListP r)" "registry_methods r ''ping'' = Some info"
      "methodFn info = UserFn ping" "preinvokeFunction r = None" "dialect r = Dialect_i8"
    by (rule sample_registry)
  have "length (call_text (dtext_of one_double) Dialect_i8 ''ping'' [XInt 7]) \<le> 512" by code_simp
  from sample_call [OF plain_sample(2) this] obtain call where
    call: "xmlrpc_serialize_call2 one_double always Dialect_i8 ''ping'' (XArray [XInt 7]) empty_block = Inr call"
      "fits_wire reference_parser (block_data 1 call)" "c_str ''ping'' = ''ping''" .
  have "length (response_text (dtext_of one_double) Dialect_i8 (XString ''pong'')) \<le> 512" by code_simp
  then have "reply_ok reference_parser one_double (dialect r) (Inr (XString ''pong''))"
    using plain_sample(1) reference_fits by (simp add: reply_ok_def r(5) reference_parser(3))
  from rpc_roundtrip [where info = info, OF reference_wire reference_wire no_cells_ok _ _ _ empty_block_grown empty_block_data call(1,2) r(4,1) _ r(3)
      ping_implements this, of sample_server] show ?thesis
    using call plain_sample(2) r(2) by (simp add: reference_parser(3)) blast
qed

text \<open>C4: a call of a method the server does not have, and has no default for, is answered with the
  fault that says so.\<close>
theorem rpc_unknown_method:
  assumes "wire_parser server" "wire_parser client" "heap_ok h {} E" "malloc_ok sv = always"
    and "plain_text (c_str name)" "list_all (\<lambda>v. sendable server (dtext_of cfmt) v \<and> value_depth v \<le> maxNest server) vs"
    and "grown_block 1 out" "block_data 1 out = []"
    and "xmlrpc_serialize_call2 cfmt mok d name (XArray vs) out = Inr call" "fits_wire server (block_data 1 call)"
    and "preinvokeFunction r = None" "methods_ok (methodListP r)"
    and "registry_methods r (c_str name) = None" "defaultMethodFunction r = None"
    and "reply_ok client fmt (dialect r) (Inl (not_defined (c_str name)))"
  shows "\<exists>response h'. xmlrpc_registry_process_call2 sv server fmt r (block_data 1 call) h = Some (Inr response, h') \<and>
    heap_ok h' {} E \<and> tells client response (Inl (not_defined (c_str name)))"
proof -
  obtain p h1 where parsed: "xmlrpc_parse_call always server (block_data 1 call) h = Some (Inr (c_str name, p), h1)"
      "repr h1 p (XArray vs)" "heap_ok h1 {} (add_mset p E)"
    using call_read_back [OF assms(3) _ _ assms(5-9)] assms(1,10) unfolding wire_parser_def fits_wire_def by blast
  have "implements (xmlrpc_dispatchCall sv r (c_str name)) (\<lambda>_. Inl (not_defined (c_str name)))"
    by (rule dispatch_unknown_method [OF assms(11-14)])
  from process_call_answers [OF this assms(4) parsed(1,3,2) assms(2,15)] show ?thesis .
qed

lemma rpc_unknown_method_witness:
  "\<exists>r call response h'. xmlrpc_serialize_call2 one_double always Dialect_i8 ''pang'' (XArray [XInt 7]) empty_block = Inr call \<and>
     xmlrpc_registry_process_call2 sample_server reference_parser one_double r (block_data 1 call) no_cells = Some (Inr response, h') \<and>
     tells reference_parser response (Inl (Fault XMLRPC_NO_SUCH_METHOD_ERROR
       (''Method '' @ [CHR 0x27] @ ''pang'' @ [CHR 0x27] @ '' not defined'')))"
proof -
  obtain r :: "unit xmlrpc_registry" where r: "methods_ok (methodListP r)" "registry_methods r ''pang'' = None"
      "preinvokeFunction r = None" "defaultMethodFunction r = None" "dialect r = Dialect_i8"
    by (rule sample_registry)
  have "length (call_text (dtext_of one_double) Dialect_i8 ''pang'' [XInt 7]) \<le> 512" by code_simp
  from sample_call [OF plain_sample(3) this] obtain call where
    call: "xmlrpc_serialize_call2 one_double always Dialect_i8 ''pang'' (XArray [XInt 7]) empty_block = Inr call"
      "fits_wire reference_parser (block_data 1 call)" "c_str ''pang'' = ''pang''" .
  have shown: "not_defined ''pang'' = Fault XMLRPC_NO_SUCH_METHOD_ERROR (''Method '' @ [CHR 0x27] @ ''pang'' @ [CHR 0x27] @ '' not defined'')"
    by (rule not_defined_text) (simp add: plain_char_def uchar_def)
  have len: "length (fault_response_text (dtext_of one_double) (fault_value (Fault XMLRPC_NO_SUCH_METHOD_ERROR
      (''Method '' @ [CHR 0x27] @ ''pang'' @ [CHR 0x27] @ '' not defined'')))) \<le> 512" by code_simp
  have "plain_text (''Method '' @ [CHR 0x27] @ ''pang'' @ [CHR 0x27] @ '' not defined'')"
    by (rule plain_ascii) (simp add: uchar_def)
  then have "reply_ok reference_parser one_double (dialect r) (Inl (not_defined ''pang''))"
    using reference_fits [OF len] unfolding shown by (simp add: reply_ok_def reference_parser(3))
  from rpc_unknown_method [where name = "''pang''", unfolded call(3), OF reference_wire reference_wire no_cells_ok _ plain_sample(3) _ empty_block_grown empty_block_data call(1,2)
      r(3,1,2,4) this, of sample_server] show ?thesis
    unfolding shown using call(1) by (simp add: reference_parser(3)) blast
qed

text \<open>C39: a text that is no call is answered with a fault that carries the complaint of the parser, and
  leaves the heap as the parser left it.\<close>
theorem rpc_bad_call:
  assumes "wire_parser client" "malloc_ok sv = always" "xmlrpc_parse_call always server xml h = Some (Inl f, h1)"
    and "reply_ok client fmt (dialect r) (Inl (bad_call f))"
  shows "\<exists>response. xmlrpc_registry_process_call2 sv server fmt r xml h = Some (Inr response, h1) \<and>
    tells client response (Inl (bad_call f))"
  by (rule process_bad_call) (rule assms)+

abbreviation too_large :: string where
  "too_large \<equiv> ''XML-RPC request too large.  Max allowed is 0 bytes''"

abbreviation refused :: string where
  "refused \<equiv> ''Call XML not a proper XML-RPC call.  XML-RPC request too large.  Max allowed is 0 bytes''"

lemma rpc_bad_call_witness:
  "\<exists>r response h'. xmlrpc_registry_process_call2 sample_server (reference_parser\<lparr>limits := \<lambda>_. 0\<rparr>) one_double r ''x'' no_cells =
       Some (Inr response, h') \<and>
     tells reference_parser response (Inl (Fault XMLRPC_PARSE_ERROR refused))"
proof -
  obtain r :: "unit xmlrpc_registry" where r: "dialect r = Dialect_i8"
    by (rule sample_registry)
  have "set_fault_formatted XMLRPC_LIMIT_EXCEEDED_ERROR [Txt ''XML-RPC request too large.  Max allowed is '', PctU 0, Txt '' bytes''] =
      Fault XMLRPC_LIMIT_EXCEEDED_ERROR too_large"
  proof (subst plain_fault)
    have zero: "digit_char 0 = CHR ''0''" by code_simp
    show "list_all plain_char (vformat [Txt ''XML-RPC request too large.  Max allowed is '', PctU 0, Txt '' bytes''])"
      by (simp add: vformat_def plain_char_def uchar_def zero)
    show "Fault XMLRPC_LIMIT_EXCEEDED_ERROR (vformat [Txt ''XML-RPC request too large.  Max allowed is '', PctU 0, Txt '' bytes'']) =
        Fault XMLRPC_LIMIT_EXCEEDED_ERROR too_large"
      by (simp add: vformat_def zero)
  qed
  then have parse: "xmlrpc_parse_call always (reference_parser\<lparr>limits := \<lambda>_. 0\<rparr>) ''x'' no_cells =
      Some (Inl (Fault XMLRPC_LIMIT_EXCEEDED_ERROR too_large), no_cells)"
    by (simp add: xmlrpc_parse_call_def xmlrpc_limit_get_def hfail_def)
  have bad: "bad_call (Fault XMLRPC_LIMIT_EXCEEDED_ERROR too_large) = Fault XMLRPC_PARSE_ERROR refused"
    unfolding bad_call_def by (subst plain_fault) (simp_all add: vformat_def plain_char_def uchar_def)
  have "length (fault_response_text (dtext_of one_double) (fault_value (Fault XMLRPC_PARSE_ERROR refused))) \<le> 512" by code_simp
  then have "fits_wire reference_parser (reply_text (dtext_of one_double) (dialect r) (Inl (Fault XMLRPC_PARSE_ERROR refused)))"
    by (simp add: reference_fits)
  moreover have "plain_text refused" by (rule plain_ascii) (simp add: uchar_def)
  ultimately have "reply_ok reference_parser one_double (dialect r) (Inl (Fault XMLRPC_PARSE_ERROR refused))"
    by (simp add: reply_ok_def reference_parser(3))
  from rpc_bad_call [OF reference_wire _ parse, unfolded bad, OF _ this, of sample_server] show ?thesis by auto
qed

end
