(* ===== verification/Json.thy ===== *)
theory Json
  imports Parse_Xml Textutil Serialize
begin

text \<open>
  Values from JSON text (\<open>src/json.c\<close>, first half): the tokenizer, a pure function of the text, and
  the parser, which builds values in the heap.  A pointer into the text is the rest of the text from
  there; the NUL at its end is not part of it.
\<close>

section \<open>Characters\<close>

definition isxdigit :: "char \<Rightarrow> bool" where
  "isxdigit c \<longleftrightarrow> isdigit c \<or> (65 \<le> uchar c \<and> uchar c \<le> 70) \<or> (97 \<le> uchar c \<and> uchar c \<le> 102)"

definition isalnum :: "char \<Rightarrow> bool" where
  "isalnum c \<longleftrightarrow> isdigit c \<or> (65 \<le> uchar c \<and> uchar c \<le> 90) \<or> (97 \<le> uchar c \<and> uchar c \<le> 122)"

definition xdigit_val :: "char \<Rightarrow> nat" where
  "xdigit_val c = (if isdigit c then digit_val c else if uchar c < 97 then nat (uchar c - 55) else nat (uchar c - 87))"

text \<open>\<open>xmlrpc_strneq\<close> of two C strings.\<close>

definition strneq :: "string \<Rightarrow> string \<Rightarrow> nat \<Rightarrow> bool" where
  "strneq a b n \<longleftrightarrow> take n (a @ [NUL]) = take n (b @ [NUL])"

section \<open>The tokenizer\<close>

datatype ttype =
    typeNone | typeOpenBrace | typeCloseBrace | typeOpenBracket | typeCloseBracket | typeColon | typeComma
  | typeString | typeInteger | typeFloat | typeNull | typeUndefined | typeTrue | typeFalse | typeEof

fun tokTypeName :: "ttype \<Rightarrow> string" where
  "tokTypeName typeNone = ''None''"
| "tokTypeName typeOpenBrace = ''Open brace''"
| "tokTypeName typeCloseBrace = ''Close brace''"
| "tokTypeName typeOpenBracket = ''Open bracket''"
| "tokTypeName typeCloseBracket = ''Close bracket''"
| "tokTypeName typeColon = ''Colon''"
| "tokTypeName typeComma = ''Comma''"
| "tokTypeName typeString = ''String''"
| "tokTypeName typeInteger = ''Integer''"
| "tokTypeName typeFloat = ''Float''"
| "tokTypeName typeNull = ''Null''"
| "tokTypeName typeUndefined = ''Undefined''"
| "tokTypeName typeTrue = ''True''"
| "tokTypeName typeFalse = ''False''"
| "tokTypeName typeEof = ''Eof''"

record tokenizer =
  original :: string
  tok_size :: nat
  tok_begin :: string
  tok_end :: string
  tok_type :: ttype

definition initializeTokenizer :: "string \<Rightarrow> tokenizer" where
  "initializeTokenizer str = \<lparr>original = str, tok_size = 0, tok_begin = str, tok_end = str, tok_type = typeNone\<rparr>"

fun position_after :: "nat \<Rightarrow> nat \<Rightarrow> string \<Rightarrow> nat \<times> nat" where
  "position_after line col [] = (line, col)"
| "position_after line col (c # s) = (if c = LF then position_after (line + 1) 0 s else position_after line (col + 1) s)"

definition currentDocumentPosition :: "tokenizer \<Rightarrow> nat \<times> nat" where
  "currentDocumentPosition tokP =
     (let (curLine, curCol) = position_after 0 0 (take (length (original tokP) - length (tok_begin tokP)) (original tokP))
      in ((curLine + 1) mod 2 ^ 32, (curCol + 1) mod 2 ^ 32))"

definition setParseErr :: "tokenizer \<Rightarrow> piece list \<Rightarrow> fault" where
  "setParseErr tokP format =
     (let (lineNum, colNum) = currentDocumentPosition tokP in
      set_fault_formatted XMLRPC_PARSE_ERROR
        [Txt ''JSON parse error at Line '', PctU lineNum, Txt '', Column '', PctU colNum, Txt '': '',
         PctS (c_str (vformat format))])"

text \<open>The end of a string token, from after its first quotation mark.\<close>

fun string_token_end :: "tokenizer \<Rightarrow> string \<Rightarrow> string result" where
  "string_token_end tokP [] =
     Inl (setParseErr tokP [Txt ''JSON document ends in the middle '', Txt ''of a backslash escape sequence''])"
| "string_token_end tokP (c # s) =
     (if c = CHR 0x22 then Inr s
      else if c = CHR 0x5C
      then
        (case s of
           [] \<Rightarrow> Inl (setParseErr tokP [Txt ''unknown escape character '', Txt ''after backslash: '', Txt [CHR 0x27], PctC NUL, Txt [CHR 0x27]])
         | e # r \<Rightarrow>
             if e \<in> {CHR 0x22, CHR 0x5C, CHR ''/'', CHR ''b'', CHR ''f'', CHR ''n'', CHR ''r'', CHR ''t''}
             then string_token_end tokP r
             else if e = CHR ''u''
             then
               (let n = length (takeWhile isxdigit (take 4 r)) in
                if n < 4
                then Inl (setParseErr tokP [Txt ''hex unicode must contain 4 digits.  '', Txt ''There are only '', PctU n, Txt '' here''])
                else string_token_end tokP (drop 4 r))
             else Inl (setParseErr tokP [Txt ''unknown escape character '', Txt ''after backslash: '', Txt [CHR 0x27], PctC e, Txt [CHR 0x27]]))
      else string_token_end tokP s)"

definition finishStringToken :: "tokenizer \<Rightarrow> tokenizer result" where
  "finishStringToken tokP =
     bindE (string_token_end tokP (tl (tok_end tokP))) (\<lambda>e.
     Inr (tokP\<lparr>tok_end := e, tok_size := length (tok_begin tokP) - length e - 1\<rparr>))"

definition isInteger :: "string \<Rightarrow> bool" where
  "isInteger token \<longleftrightarrow> token \<noteq> [] \<and> list_all isdigit (if hd token = CHR ''-'' then tl token else token)"

fun float_chars :: "bool \<Rightarrow> bool \<Rightarrow> string \<Rightarrow> bool" where
  "float_chars seenPeriod seenDigit [] = seenDigit"
| "float_chars seenPeriod seenDigit (c # s) =
     (if c = CHR ''e'' then isInteger (c # s)
      else if c = CHR ''.'' then \<not> seenPeriod \<and> float_chars True seenDigit s
      else isdigit c \<and> float_chars seenPeriod True s)"

definition isFloat :: "string \<Rightarrow> bool" where
  "isFloat token \<longleftrightarrow> float_chars False False (if token \<noteq> [] \<and> hd token = CHR ''-'' then tl token else token)"

definition isWordChar :: "char \<Rightarrow> bool" where
  "isWordChar c \<longleftrightarrow> isalnum c \<or> c = CHR ''.'' \<or> c = CHR ''-''"

definition finishAlphanumericWordToken :: "tokenizer \<Rightarrow> tokenizer" where
  "finishAlphanumericWordToken tokP =
     (let e = dropWhile isWordChar (tl (tok_end tokP)) in
      tokP\<lparr>tok_end := e, tok_size := length (tok_begin tokP) - length e\<rparr>)"

definition finishDelimiterToken :: "tokenizer \<Rightarrow> tokenizer" where
  "finishDelimiterToken tokP =
     (let e = tl (tok_end tokP) in tokP\<lparr>tok_end := e, tok_size := length (tok_begin tokP) - length e\<rparr>)"

definition atComment :: "string \<Rightarrow> bool" where
  "atComment s \<longleftrightarrow> peek s = CHR ''/'' \<and> peek (tl s) = CHR ''/''"

definition advancePastWhiteSpace :: "string \<Rightarrow> string" where
  "advancePastWhiteSpace s = dropWhile isspace s"

lemma comment_shrinks: "atComment s \<Longrightarrow> length (dropWhile (\<lambda>c. c \<noteq> LF) s) < length s"
  using length_dropWhile_le [of "\<lambda>c. c \<noteq> LF" "tl s"] by (cases s) (auto simp: atComment_def)

function advancePastComments :: "string \<Rightarrow> string" where
  "advancePastComments s = (if atComment s then advancePastComments (dropWhile (\<lambda>c. c \<noteq> LF) s) else s)"
  by auto
termination by (relation "measure length") (simp_all add: comment_shrinks)

declare advancePastComments.simps [simp del]

lemma past_comments_le: "length (advancePastComments s) \<le> length s"
proof (induction s rule: advancePastComments.induct)
  case (1 s)
  then show ?case using comment_shrinks [of s] by (subst advancePastComments.simps) auto
qed

lemma past_space_le: "length (advancePastWhiteSpace s) \<le> length s"
  by (simp add: advancePastWhiteSpace_def length_dropWhile_le)

lemma past_comments_shrinks: "atComment s \<Longrightarrow> length (advancePastComments s) < length s"
  using past_comments_le [of "dropWhile (\<lambda>c. c \<noteq> LF) s"] comment_shrinks [of s]
  by (subst advancePastComments.simps) simp

function advanceToNextToken :: "string \<Rightarrow> string" where
  "advanceToNextToken s =
     (if s \<noteq> [] \<and> (isspace (hd s) \<or> atComment s)
      then advanceToNextToken (advancePastComments (advancePastWhiteSpace s)) else s)"
  by auto
termination
proof (relation "measure length")
  fix s :: string assume s: "s \<noteq> [] \<and> (isspace (hd s) \<or> atComment s)"
  have "length (advancePastComments (advancePastWhiteSpace s)) < length s"
  proof (cases "isspace (hd s)")
    case True
    then have "length (advancePastWhiteSpace s) < length s"
      using s past_space_le [of "tl s"] by (cases s) (auto simp: advancePastWhiteSpace_def)
    then show ?thesis using past_comments_le [of "advancePastWhiteSpace s"] by simp
  next
    case False
    then have "advancePastWhiteSpace s = s" using s by (cases s) (auto simp: advancePastWhiteSpace_def)
    then show ?thesis using past_comments_shrinks [of s] s False by simp
  qed
  then show "(advancePastComments (advancePastWhiteSpace s), s) \<in> measure length" by simp
qed simp

declare advanceToNextToken.simps [simp del]

definition wordToken :: "tokenizer \<Rightarrow> tokenizer result" where
  "wordToken tokP0 =
     (let tokP = finishAlphanumericWordToken tokP0; word = take (tok_size tokP) (tok_begin tokP) in
      if isInteger word then Inr (tokP\<lparr>tok_type := typeInteger\<rparr>)
      else if isFloat word then Inr (tokP\<lparr>tok_type := typeFloat\<rparr>)
      else if strneq (tok_begin tokP) ''null'' (tok_size tokP) then Inr (tokP\<lparr>tok_type := typeNull\<rparr>)
      else if strneq (tok_begin tokP) ''undefined'' (tok_size tokP) then Inr (tokP\<lparr>tok_type := typeUndefined\<rparr>)
      else if strneq (tok_begin tokP) ''false'' (tok_size tokP) then Inr (tokP\<lparr>tok_type := typeFalse\<rparr>)
      else if strneq (tok_begin tokP) ''true'' (tok_size tokP) then Inr (tokP\<lparr>tok_type := typeTrue\<rparr>)
      else Inl (setParseErr tokP
             [Txt ''Invalid word token -- '', Txt ''Not a valid integer, floating point '', Txt ''number, '',
              Txt [CHR 0x27], Txt ''null'', Txt [CHR 0x27], Txt '', '', Txt [CHR 0x27], Txt ''true'', Txt [CHR 0x27],
              Txt '', or '', Txt [CHR 0x27], Txt ''false'', Txt [CHR 0x27]]))"

definition getToken :: "tokenizer \<Rightarrow> tokenizer result" where
  "getToken tokP0 =
     (let tokP = tokP0\<lparr>tok_begin := advanceToNextToken (tok_end tokP0), tok_end := advanceToNextToken (tok_end tokP0)\<rparr> in
      case tok_begin tokP of
        [] \<Rightarrow> Inr (tokP\<lparr>tok_type := typeEof, tok_size := 0\<rparr>)
      | c # _ \<Rightarrow>
          if c = CHR ''{'' then Inr ((finishDelimiterToken tokP)\<lparr>tok_type := typeOpenBrace\<rparr>)
          else if c = CHR ''}'' then Inr ((finishDelimiterToken tokP)\<lparr>tok_type := typeCloseBrace\<rparr>)
          else if c = CHR ''['' then Inr ((finishDelimiterToken tokP)\<lparr>tok_type := typeOpenBracket\<rparr>)
          else if c = CHR '']'' then Inr ((finishDelimiterToken tokP)\<lparr>tok_type := typeCloseBracket\<rparr>)
          else if c = CHR '':'' then Inr ((finishDelimiterToken tokP)\<lparr>tok_type := typeColon\<rparr>)
          else if c = CHR '','' then Inr ((finishDelimiterToken tokP)\<lparr>tok_type := typeComma\<rparr>)
          else if c = CHR 0x22 then bindE (finishStringToken tokP) (\<lambda>t. Inr (t\<lparr>tok_type := typeString\<rparr>))
          else if isWordChar c then wordToken tokP
          else Inl (setParseErr tokP
                 [Txt ''Not a valid token -- starts with '', Txt [CHR 0x27], PctC c, Txt [CHR 0x27], Txt ''; '',
                  Txt ''a valid token starts with '', Txt ''one of []{}:,'', Txt [CHR 0x22],
                  Txt ''-. or digit or letter'']))"

section \<open>Strings\<close>

text \<open>A code point as UTF-8; a number that is not one has no bytes.\<close>

definition utf8Decode :: "nat \<Rightarrow> string" where
  "utf8Decode c =
     (let b = \<lambda>n. chr (int n) in
      if c \<le> 0x7F then [b c]
      else if c \<le> 0x7FF then [b (0xC0 + c div 64), b (0x80 + c mod 64)]
      else if c \<le> 0xFFFF then [b (0xE0 + c div 4096), b (0x80 + c div 64 mod 64), b (0x80 + c mod 64)]
      else if c \<le> 0x1FFFFF
      then [b (0xF0 + c div 262144), b (0x80 + c div 4096 mod 64), b (0x80 + c div 64 mod 64), b (0x80 + c mod 64)]
      else [])"

text \<open>
  What a backslash and the characters from \<open>cur\<close> stand for, and how many characters that takes.  The four
  digits are copied into a buffer without a NUL, so \<open>strtol\<close> reads on: \<open>junk\<close> is the byte it finds, and if that
  is a digit too, what it reads is undefined.  The tokenizer has seen four digits.
\<close>

definition getBackslashSequence :: "char \<Rightarrow> string \<Rightarrow> (string \<times> nat) result option" where
  "getBackslashSequence junk cur =
     (let c = peek cur in
      if c = CHR 0x22 \<or> c = CHR ''/'' \<or> c = CHR 0x5C then Some (Inr ([c], 1))
      else if c = CHR ''b'' then Some (Inr ([CHR 0x08], 1))
      else if c = CHR ''f'' then Some (Inr ([CHR 0x0C], 1))
      else if c = CHR ''n'' then Some (Inr ([LF], 1))
      else if c = CHR ''r'' then Some (Inr ([CR], 1))
      else if c = CHR ''t'' then Some (Inr ([TAB], 1))
      else if c = CHR ''u''
      then
        (let ds = take 4 (tl cur) in
         if isxdigit junk \<or> length ds < 4 \<or> \<not> list_all isxdigit ds then None
         else Some (Inr (utf8Decode (foldl (\<lambda>n d. 16 * n + xdigit_val d) 0 ds), 5)))
      else Some (Inl (faultf [Txt ''Invalid character after backslash '', Txt ''escape: '', Txt [CHR 0x27], PctC c, Txt [CHR 0x27]])))"

definition append_pending :: "(nat \<Rightarrow> bool) \<Rightarrow> string \<Rightarrow> char mem_block \<Rightarrow> char mem_block result" where
  "append_pending mok pending b = (if pending \<noteq> [] then mem_block_append mok 1 b pending else Inr b)"

text \<open>\<open>pending\<close> is the text from \<open>last\<close> to \<open>cur\<close>.\<close>

function unescape_loop :: "(nat \<Rightarrow> bool) \<Rightarrow> char \<Rightarrow> string \<Rightarrow> string \<Rightarrow> char mem_block \<Rightarrow> char mem_block result option" where
  "unescape_loop mok junk pending [] b =
     Some (bindE (append_pending mok pending b) (\<lambda>b. mem_block_append mok 1 b [NUL]))"
| "unescape_loop mok junk pending (c # s) b =
     (if c = CHR 0x5C
      then
        (case append_pending mok pending b of
           Inl f \<Rightarrow> Some (Inl f)
         | Inr b1 \<Rightarrow>
             (case getBackslashSequence junk s of
                None \<Rightarrow> None
              | Some (Inl f) \<Rightarrow> Some (Inl f)
              | Some (Inr (buffer, n)) \<Rightarrow>
                  (case mem_block_append mok 1 b1 buffer of
                     Inl f \<Rightarrow> Some (Inl f)
                   | Inr b2 \<Rightarrow> if length s < n then None else unescape_loop mok junk [] (drop n s) b2)))
      else unescape_loop mok junk (pending @ [c]) s b)"
  by pat_completeness auto
termination by (relation "measure (\<lambda>(_, _, _, s, _). length s)") simp_all

definition unescapeString :: "(nat \<Rightarrow> bool) \<Rightarrow> char \<Rightarrow> string \<Rightarrow> char mem_block result option" where
  "unescapeString mok junk s =
     (case mem_block_init mok 1 0 of Inl f \<Rightarrow> Some (Inl f) | Inr b \<Rightarrow> unescape_loop mok junk [] s b)"

text \<open>When the text cannot be made, its block has been given back already, or never was one, when the value
  is released and gives it back again.\<close>

definition makeUtf8String :: "(nat \<Rightarrow> bool) \<Rightarrow> char \<Rightarrow> string \<Rightarrow> (nat, 'd) heap_op" where
  "makeUtf8String mok junk s =
     hbind (hresult (xmlrpc_createXmlrpcValue mok)) (\<lambda>_ h.
       case unescapeString mok junk s of
         Some (Inr b) \<Rightarrow> new_cell (Scalar (XString (butlast (block_data 1 b)))) h
       | _ \<Rightarrow> None)"

definition string_token_text :: "tokenizer \<Rightarrow> string" where
  "string_token_text tokP = take (length (tok_begin tokP) - length (tok_end tokP) - 2) (tl (tok_begin tokP))"

definition change_token_fault :: "tokenizer \<Rightarrow> (fault \<Rightarrow> piece list) \<Rightarrow> ('a, 's) op \<Rightarrow> ('a, 's) op" where
  "change_token_fault tokP g m s =
     (case m s of None \<Rightarrow> None | Some (Inl f, s') \<Rightarrow> Some (Inl (setParseErr tokP (g f)), s') | Some (Inr x, s') \<Rightarrow> Some (Inr x, s'))"

definition stringTokenValue :: "(nat \<Rightarrow> bool) \<Rightarrow> char \<Rightarrow> tokenizer \<Rightarrow> (nat, 'd) heap_op" where
  "stringTokenValue mok junk tokP =
     change_token_fault tokP (\<lambda>f. [Txt ''Error in string token: '', PctS (text_of f)])
       (makeUtf8String mok junk (string_token_text tokP))"

section \<open>Numbers\<close>

definition integerTokenValue :: "(nat \<Rightarrow> bool) \<Rightarrow> tokenizer \<Rightarrow> (nat, 'd) heap_op" where
  "integerTokenValue mok tokP =
     (case xmlrpc_parse_int64 (take (tok_size tokP) (tok_begin tokP)) of
        Inl f \<Rightarrow> hfail (setParseErr tokP
          [Txt ''Error in integer token value '', Txt [CHR 0x27], PctS (tok_begin tokP), Txt [CHR 0x27], Txt '': '', PctS (text_of f)])
      | Inr value \<Rightarrow> new_scalar (xmlrpc_i8_new mok (word_of_int value)))"

section \<open>Arrays and objects\<close>

text \<open>
  The parser takes the tokenizer and returns it with the value.  \<open>parse\<close> is \<open>parseValue\<close> for the parts.
  Fuel bounds the nesting and the rounds of the loops.
\<close>

definition next_token :: "tokenizer \<Rightarrow> (tokenizer, 's) op" where
  "next_token tokP = hresult (getToken tokP)"

definition need_array_separator :: "tokenizer \<Rightarrow> fault" where
  "need_array_separator tokP =
     setParseErr tokP [Txt ''Need comma or close bracket '', Txt ''after array item.  Instead we have '', PctS (tokTypeName (tok_type tokP))]"

definition parseListElement ::
    "(nat \<Rightarrow> bool) \<Rightarrow> (tokenizer \<Rightarrow> (nat \<times> tokenizer, 'd) heap_op) \<Rightarrow> nat \<Rightarrow> tokenizer \<Rightarrow> (bool \<times> tokenizer, 'd) heap_op" where
  "parseListElement mok parse listArrayP tokP =
     hbind (parse tokP) (\<lambda>(itemP, tok1).
       hfinally
         (hbind (xmlrpc_array_append_item mok listArrayP itemP) (\<lambda>_.
          hbind (next_token tok1) (\<lambda>tok2.
            if tok_type tok2 = typeComma then hret (False, tok2)
            else if tok_type tok2 = typeCloseBracket then hret (True, tok2)
            else hfail (need_array_separator tok2))))
         (xmlrpc_DECREF itemP))"

text \<open>The end of the text ends a list, too.\<close>

fun list_loop ::
    "nat \<Rightarrow> (nat \<Rightarrow> bool) \<Rightarrow> (tokenizer \<Rightarrow> (nat \<times> tokenizer, 'd) heap_op) \<Rightarrow> nat \<Rightarrow> tokenizer \<Rightarrow> (tokenizer, 'd) heap_op" where
  "list_loop 0 mok parse listArrayP tokP = (\<lambda>h. None)"
| "list_loop (Suc n) mok parse listArrayP tokP =
     hbind (next_token tokP) (\<lambda>tok1.
       if tok_type tok1 = typeEof then hret tok1
       else if tok_type tok1 = typeCloseBracket then hret tok1
       else
         hbind (parseListElement mok parse listArrayP tok1) (\<lambda>(endOfList, tok2).
           if endOfList then hret tok2 else list_loop n mok parse listArrayP tok2))"

definition parseList ::
    "nat \<Rightarrow> (nat \<Rightarrow> bool) \<Rightarrow> (tokenizer \<Rightarrow> (nat \<times> tokenizer, 'd) heap_op) \<Rightarrow> tokenizer \<Rightarrow> (nat \<times> tokenizer, 'd) heap_op" where
  "parseList n mok parse tokP =
     hbind (xmlrpc_array_new mok) (\<lambda>retval.
       hcleanup (hbind (list_loop n mok parse retval tokP) (\<lambda>tok1. hret (retval, tok1))) (xmlrpc_DECREF retval))"

definition parseObjectMemberValue ::
    "(nat \<Rightarrow> bool) \<Rightarrow> (tokenizer \<Rightarrow> (nat \<times> tokenizer, 'd) heap_op) \<Rightarrow> nat \<Rightarrow> nat \<Rightarrow> tokenizer \<Rightarrow> (tokenizer, 'd) heap_op" where
  "parseObjectMemberValue mok parse keyP objectP tokP =
     hbind (next_token tokP) (\<lambda>tok1.
     hbind (parse tok1) (\<lambda>(valP, tok2).
       hfinally (hbind (xmlrpc_struct_set_value_v mok objectP keyP valP) (\<lambda>_. hret tok2)) (xmlrpc_DECREF valP)))"

definition need_colon :: "tokenizer \<Rightarrow> fault" where
  "need_colon tokP =
     setParseErr tokP [Txt ''Need a colon after member key '', Txt ''in object.  Instead we have '', PctS (tokTypeName (tok_type tokP))]"

definition parseObjectMember ::
    "(nat \<Rightarrow> bool) \<Rightarrow> char \<Rightarrow> (tokenizer \<Rightarrow> (nat \<times> tokenizer, 'd) heap_op) \<Rightarrow> nat \<Rightarrow> tokenizer \<Rightarrow> (tokenizer, 'd) heap_op" where
  "parseObjectMember mok junk parse objectP tokP =
     hbind (change_token_fault tokP
              (\<lambda>f. [Txt ''Error in what is supposed to be '', Txt ''the key of a member of an object: '', PctS (text_of f)])
              (makeUtf8String mok junk (string_token_text tokP))) (\<lambda>keyP.
       hfinally
         (hbind (next_token tokP) (\<lambda>tok1.
            if tok_type tok1 = typeColon then parseObjectMemberValue mok parse keyP objectP tok1
            else hfail (need_colon tok1)))
         (xmlrpc_DECREF keyP))"

definition need_object_separator :: "tokenizer \<Rightarrow> fault" where
  "need_object_separator tokP =
     setParseErr tokP [Txt ''Need a comma or close brace after object '', Txt ''member.  Instead we have '',
                       PctS (tokTypeName (tok_type tokP))]"

definition need_key :: "tokenizer \<Rightarrow> fault" where
  "need_key tokP =
     setParseErr tokP [Txt ''Need a string (i.e. starting with '', Txt ''a quotation mark) as member key '',
                       Txt ''in object, or closing brace to end the '', Txt ''object.  Instead we have '',
                       PctS (tokTypeName (tok_type tokP))]"

fun object_loop ::
    "nat \<Rightarrow> (nat \<Rightarrow> bool) \<Rightarrow> char \<Rightarrow> (tokenizer \<Rightarrow> (nat \<times> tokenizer, 'd) heap_op) \<Rightarrow> nat \<Rightarrow> tokenizer \<Rightarrow> (tokenizer, 'd) heap_op" where
  "object_loop 0 mok junk parse objectP tokP = (\<lambda>h. None)"
| "object_loop (Suc n) mok junk parse objectP tokP =
     hbind (next_token tokP) (\<lambda>tok1.
       if tok_type tok1 = typeCloseBrace then hret tok1
       else if tok_type tok1 = typeString
       then
         hbind (parseObjectMember mok junk parse objectP tok1) (\<lambda>tok2.
         hbind (next_token tok2) (\<lambda>tok3.
           if tok_type tok3 = typeComma then object_loop n mok junk parse objectP tok3
           else if tok_type tok3 = typeCloseBrace then hret tok3
           else hfail (need_object_separator tok3)))
       else hfail (need_key tok1))"

definition parseObject ::
    "nat \<Rightarrow> (nat \<Rightarrow> bool) \<Rightarrow> char \<Rightarrow> (tokenizer \<Rightarrow> (nat \<times> tokenizer, 'd) heap_op) \<Rightarrow> tokenizer \<Rightarrow> (nat \<times> tokenizer, 'd) heap_op" where
  "parseObject n mok junk parse tokP =
     hbind (xmlrpc_struct_new mok) (\<lambda>retval.
       hcleanup (hbind (object_loop n mok junk parse retval tokP) (\<lambda>tok1. hret (retval, tok1))) (xmlrpc_DECREF retval))"

section \<open>Values\<close>

definition need_value :: "tokenizer \<Rightarrow> fault" where
  "need_value tokP =
     setParseErr tokP [Txt ''Invalid token '', Txt ''where a value is supposed to begin: '', PctS (tokTypeName (tok_type tokP)),
                       Txt ''.  '', Txt ''Should be an open bracket, open brace, '', Txt [CHR 0x27], Txt ''null'', Txt [CHR 0x27], Txt '', '',
                       Txt [CHR 0x27], Txt ''false'', Txt [CHR 0x27], Txt '', '', Txt [CHR 0x27], Txt ''true'', Txt [CHR 0x27],
                       Txt '', a number, or a string'']"

definition with_token :: "tokenizer \<Rightarrow> (nat, 'd) heap_op \<Rightarrow> (nat \<times> tokenizer, 'd) heap_op" where
  "with_token tokP m = hbind m (\<lambda>p. hret (p, tokP))"

definition value_of_token ::
    "nat \<Rightarrow> (nat \<Rightarrow> bool) \<Rightarrow> ('d, 'a) platform_scheme \<Rightarrow> char \<Rightarrow> (tokenizer \<Rightarrow> (nat \<times> tokenizer, 'd) heap_op) \<Rightarrow> tokenizer \<Rightarrow>
     (nat \<times> tokenizer, 'd) heap_op" where
  "value_of_token n mok pf junk parse tokP =
     (case tok_type tokP of
        typeOpenBracket \<Rightarrow> parseList n mok parse tokP
      | typeOpenBrace \<Rightarrow> parseObject n mok junk parse tokP
      | typeNull \<Rightarrow> with_token tokP (new_scalar (xmlrpc_nil_new mok))
      | typeUndefined \<Rightarrow> with_token tokP (new_scalar (xmlrpc_nil_new mok))
      | typeFalse \<Rightarrow> with_token tokP (new_scalar (xmlrpc_bool_new mok 0))
      | typeTrue \<Rightarrow> with_token tokP (new_scalar (xmlrpc_bool_new mok 1))
      | typeInteger \<Rightarrow> with_token tokP (integerTokenValue mok tokP)
      | typeFloat \<Rightarrow> with_token tokP (new_scalar (xmlrpc_double_new mok (fst (snd (strtod pf (tok_begin tokP))))))
      | typeString \<Rightarrow> with_token tokP (stringTokenValue mok junk tokP)
      | _ \<Rightarrow> hfail (need_value tokP))"

fun parseValue ::
    "nat \<Rightarrow> (nat \<Rightarrow> bool) \<Rightarrow> ('d, 'a) platform_scheme \<Rightarrow> char \<Rightarrow> tokenizer \<Rightarrow> (nat \<times> tokenizer, 'd) heap_op" where
  "parseValue 0 mok pf junk tokP = (\<lambda>h. None)"
| "parseValue (Suc n) mok pf junk tokP = value_of_token (Suc n) mok pf junk (parseValue n mok pf junk) tokP"

definition junk_after_value :: "tokenizer \<Rightarrow> fault" where
  "junk_after_value tokP =
     setParseErr tokP [Txt ''There is junk after the end of '', Txt ''the JSON value, to wit a '', PctS (tokTypeName (tok_type tokP)),
                       Txt '' token'']"

definition xmlrpc_parse_json ::
    "(nat \<Rightarrow> bool) \<Rightarrow> ('d, 'a) platform_scheme \<Rightarrow> char \<Rightarrow> string \<Rightarrow> (nat, 'd) heap_op" where
  "xmlrpc_parse_json mok pf junk str =
     hbind (next_token (initializeTokenizer (c_str str))) (\<lambda>tok1.
     hbind (parseValue (length (c_str str) + 1) mok pf junk tok1) (\<lambda>(retval, tok2).
       hcleanup
         (hbind (next_token tok2) (\<lambda>tok3.
            if tok_type tok3 \<noteq> typeEof then hfail (junk_after_value tok3) else hret retval))
         (xmlrpc_DECREF retval)))"

section \<open>The reader without a heap\<close>

fun string_text :: "char \<Rightarrow> nat \<Rightarrow> string \<Rightarrow> string option" where
  "string_text junk 0 s = None"
| "string_text junk (Suc k) [] = Some []"
| "string_text junk (Suc k) (c # s) =
     (if c = CHR 0x5C
      then
        (case getBackslashSequence junk s of
           Some (Inr (buffer, n)) \<Rightarrow> if length s < n then None else map_option ((@) buffer) (string_text junk k (drop n s))
         | _ \<Rightarrow> None)
      else map_option ((#) c) (string_text junk k s))"

text \<open>The values of JSON text, and what is left of it.\<close>

definition read_integer :: "tokenizer \<Rightarrow> 'd xvalue result" where
  "read_integer tokP =
     (case xmlrpc_parse_int64 (take (tok_size tokP) (tok_begin tokP)) of
        Inl f \<Rightarrow> Inl (setParseErr tokP
          [Txt ''Error in integer token value '', Txt [CHR 0x27], PctS (tok_begin tokP), Txt [CHR 0x27], Txt '': '', PctS (text_of f)])
      | Inr value \<Rightarrow> Inr (XI8 (word_of_int value)))"

definition token_text :: "char \<Rightarrow> tokenizer \<Rightarrow> string result option" where
  "token_text junk tokP = map_option Inr (string_text junk (length (string_token_text tokP) + 1) (string_token_text tokP))"

fun read_list ::
    "nat \<Rightarrow> (tokenizer \<Rightarrow> ('d xvalue \<times> tokenizer) result option) \<Rightarrow> 'd xvalue list \<Rightarrow> tokenizer \<Rightarrow>
     ('d xvalue list \<times> tokenizer) result option" where
  "read_list 0 read vs tokP = None"
| "read_list (Suc n) read vs tokP =
     bindO (Some (getToken tokP)) (\<lambda>tok1.
       if tok_type tok1 = typeEof \<or> tok_type tok1 = typeCloseBracket then Some (Inr (vs, tok1))
       else bindO (read tok1) (\<lambda>(v, tok2).
         bindO (Some (getToken tok2)) (\<lambda>tok3.
           if tok_type tok3 = typeComma then read_list n read (vs @ [v]) tok3
           else if tok_type tok3 = typeCloseBracket then Some (Inr (vs @ [v], tok3))
           else Some (Inl (need_array_separator tok3)))))"

fun read_object ::
    "nat \<Rightarrow> char \<Rightarrow> (tokenizer \<Rightarrow> ('d xvalue \<times> tokenizer) result option) \<Rightarrow> (string \<times> 'd xvalue) list \<Rightarrow> tokenizer \<Rightarrow>
     ((string \<times> 'd xvalue) list \<times> tokenizer) result option" where
  "read_object 0 junk read kvs tokP = None"
| "read_object (Suc n) junk read kvs tokP =
     bindO (Some (getToken tokP)) (\<lambda>tok1.
       if tok_type tok1 = typeCloseBrace then Some (Inr (kvs, tok1))
       else if tok_type tok1 = typeString
       then
         bindO (token_text junk tok1) (\<lambda>key.
         bindO (Some (getToken tok1)) (\<lambda>tok2.
         bindO
           (if tok_type tok2 = typeColon then bindO (Some (getToken tok2)) read else Some (Inl (need_colon tok2)))
           (\<lambda>(v, tok3).
         bindO (Some (getToken tok3)) (\<lambda>tok4.
           if tok_type tok4 = typeComma then read_object n junk read (put_member key v kvs) tok4
           else if tok_type tok4 = typeCloseBrace then Some (Inr (put_member key v kvs, tok4))
           else Some (Inl (need_object_separator tok4))))))
       else Some (Inl (need_key tok1)))"

fun read_json :: "nat \<Rightarrow> ('d, 'a) platform_scheme \<Rightarrow> char \<Rightarrow> tokenizer \<Rightarrow> ('d xvalue \<times> tokenizer) result option" where
  "read_json 0 pf junk tokP = None"
| "read_json (Suc n) pf junk tokP =
     (case tok_type tokP of
        typeOpenBracket \<Rightarrow> bindO (read_list (Suc n) (read_json n pf junk) [] tokP) (\<lambda>(vs, t). Some (Inr (XArray vs, t)))
      | typeOpenBrace \<Rightarrow> bindO (read_object (Suc n) junk (read_json n pf junk) [] tokP) (\<lambda>(kvs, t). Some (Inr (XStruct kvs, t)))
      | typeNull \<Rightarrow> Some (Inr (XNil, tokP))
      | typeUndefined \<Rightarrow> Some (Inr (XNil, tokP))
      | typeFalse \<Rightarrow> Some (Inr (XBool 0, tokP))
      | typeTrue \<Rightarrow> Some (Inr (XBool 1, tokP))
      | typeInteger \<Rightarrow> Some (bindE (read_integer tokP) (\<lambda>v. Inr (v, tokP)))
      | typeFloat \<Rightarrow> Some (Inr (XDouble (fst (snd (strtod pf (tok_begin tokP)))), tokP))
      | typeString \<Rightarrow> bindO (token_text junk tokP) (\<lambda>s. Some (Inr (XString s, tokP)))
      | _ \<Rightarrow> Some (Inl (need_value tokP)))"

definition json_value :: "('d, 'a) platform_scheme \<Rightarrow> char \<Rightarrow> string \<Rightarrow> 'd xvalue result option" where
  "json_value pf junk str =
     bindO (Some (getToken (initializeTokenizer str))) (\<lambda>tok1.
     bindO (read_json (length str + 1) pf junk tok1) (\<lambda>(v, tok2).
     bindO (Some (getToken tok2)) (\<lambda>tok3.
       if tok_type tok3 \<noteq> typeEof then Some (Inl (junk_after_value tok3)) else Some (Inr v))))"

section \<open>Strings of the text\<close>

lemma utf8Decode_length: "length (utf8Decode c) \<le> 4"
  by (simp add: utf8Decode_def Let_def)

lemma backslash_length: "getBackslashSequence junk s = Some (Inr (buffer, n)) \<Longrightarrow> length buffer \<le> n \<and> 0 < n"
  using utf8Decode_length [of "foldl (\<lambda>n d. 16 * n + xdigit_val d) 0 (take 4 (tl s))"]
  by (auto simp: getBackslashSequence_def Let_def split: if_splits)

lemma json_append_always:
  assumes "grown_block 1 b" "length (block_data 1 b) + length data \<le> BLOCK_ALLOC_MAX"
  obtains b' where "mem_block_append always 1 b data = Inr b'" "grown_block 1 b'" "block_data 1 b' = block_data 1 b @ data"
  using memblock_roomy.fitsE [OF memblock_roomy.fits_append assms] by blast

lemma unescape_text:
  assumes "grown_block 1 b" "length (block_data 1 b) + length pending + length s + 1 \<le> BLOCK_ALLOC_MAX" "length s < k"
  shows "case string_text junk k s of
      Some t \<Rightarrow> \<exists>b'. unescape_loop always junk pending s b = Some (Inr b') \<and> block_data 1 b' = block_data 1 b @ pending @ t @ [NUL]
    | None \<Rightarrow> \<forall>b'. unescape_loop always junk pending s b \<noteq> Some (Inr b')"
  using assms
proof (induction k arbitrary: pending s b)
  case (Suc k)
  have pend: "\<exists>b1. append_pending always pending b = Inr b1 \<and> grown_block 1 b1 \<and> block_data 1 b1 = block_data 1 b @ pending"
  proof (cases "pending = []")
    case False
    then show ?thesis using json_append_always [OF Suc.prems(1), of pending] Suc.prems(2) by (simp add: append_pending_def) blast
  qed (use Suc.prems(1) in \<open>simp add: append_pending_def\<close>)
  then obtain b1 where b1: "append_pending always pending b = Inr b1" "grown_block 1 b1" "block_data 1 b1 = block_data 1 b @ pending"
    by blast
  show ?case
  proof (cases s)
    case Nil
    obtain b2 where "mem_block_append always 1 b1 [NUL] = Inr b2" "block_data 1 b2 = block_data 1 b1 @ [NUL]"
      by (rule json_append_always [OF b1(2), of "[NUL]"]) (use Suc.prems(2) b1(3) in auto)
    with Nil b1 show ?thesis by simp
  next
    case (Cons c r)
    show ?thesis
    proof (cases "c = CHR 0x5C")
      case False
      have "case string_text junk k r of
          Some t \<Rightarrow> \<exists>b'. unescape_loop always junk (pending @ [c]) r b = Some (Inr b') \<and>
            block_data 1 b' = block_data 1 b @ (pending @ [c]) @ t @ [NUL]
        | None \<Rightarrow> \<forall>b'. unescape_loop always junk (pending @ [c]) r b \<noteq> Some (Inr b')"
        using Suc.prems Cons by (intro Suc.IH) simp_all
      with False Cons show ?thesis by (auto split: option.splits)
    next
      case True
      consider "\<nexists>x. getBackslashSequence junk r = Some (Inr x)"
        | buffer n where "getBackslashSequence junk r = Some (Inr (buffer, n))" by auto
      then show ?thesis
      proof cases
        case 1
        then have "unescape_loop always junk pending s b \<noteq> Some (Inr b')" "string_text junk (Suc k) s = None" for b'
          using True Cons b1(1) by (auto split: option.splits sum.splits)
        then show ?thesis by simp
      next
        case (2 buffer n)
        have len: "length buffer \<le> n" using backslash_length [OF 2] by simp
        show ?thesis
        proof (cases "length r < n")
          case True
          then have "string_text junk (Suc k) s = None" using 2 Cons \<open>c = CHR 0x5C\<close> by simp
          moreover have "unescape_loop always junk pending s b \<noteq> Some (Inr b')" for b'
            using 2 Cons \<open>c = CHR 0x5C\<close> True b1(1) by (auto split: sum.splits)
          ultimately show ?thesis by simp
        next
          case False
          obtain b2 where b2: "mem_block_append always 1 b1 buffer = Inr b2" "grown_block 1 b2"
              "block_data 1 b2 = block_data 1 b1 @ buffer"
            by (rule json_append_always [OF b1(2), of buffer]) (use Suc.prems(2) b1(3) len False Cons in auto)
          have "case string_text junk k (drop n r) of
              Some t \<Rightarrow> \<exists>b'. unescape_loop always junk [] (drop n r) b2 = Some (Inr b') \<and> block_data 1 b' = block_data 1 b2 @ [] @ t @ [NUL]
            | None \<Rightarrow> \<forall>b'. unescape_loop always junk [] (drop n r) b2 \<noteq> Some (Inr b')"
            using Suc.prems Cons b2 b1(3) len False by (intro Suc.IH) auto
          with 2 b1 b2 Cons \<open>c = CHR 0x5C\<close> False show ?thesis by (auto split: option.splits)
        qed
      qed
    qed
  qed
qed simp

lemma sim_token_text:
  assumes ok: "heap_ok h {} E" and len: "length (string_token_text tokP) < BLOCK_ALLOC_MAX"
  shows "simulates False (stays E h) (\<lambda>h' p s. made E h h' p (XString s))
    (change_token_fault tokP g (makeUtf8String always junk (string_token_text tokP)) h) (token_text junk tokP)"
proof -
  let ?s = "string_token_text tokP"
  obtain b :: "char mem_block" where b: "mem_block_init always 1 0 = Inr b" "grown_block 1 b" "block_data 1 b = []"
    by (rule init_cases [of 1 always]) (auto simp: always_def)
  have made_text: "case string_text junk (length ?s + 1) ?s of
      Some t \<Rightarrow> \<exists>b'. unescape_loop always junk [] ?s b = Some (Inr b') \<and> block_data 1 b' = block_data 1 b @ [] @ t @ [NUL]
    | None \<Rightarrow> \<forall>b'. unescape_loop always junk [] ?s b \<noteq> Some (Inr b')"
    by (rule unescape_text [OF b(2)]) (use len b(3) in auto)
  have mv: "xmlrpc_createXmlrpcValue always = Inr ()" by (simp add: xmlrpc_createXmlrpcValue_def always_def)
  show ?thesis
  proof (cases "string_text junk (length ?s + 1) ?s")
    case None
    then have "makeUtf8String always junk ?s h = None"
      using made_text b(1) mv
      by (auto simp: makeUtf8String_def hbind_def hresult_def unescapeString_def split: option.splits sum.splits)
    then show ?thesis using None by (simp add: change_token_fault_def simulates_def token_text_def)
  next
    case (Some t)
    then obtain b' where b': "unescape_loop always junk [] ?s b = Some (Inr b')" "block_data 1 b' = t @ [NUL]"
      using made_text b(3) by auto
    have "makeUtf8String always junk ?s h = new_scalar (Inr (XString t)) h"
      using b b' mv by (simp add: makeUtf8String_def hbind_def hresult_def unescapeString_def new_scalar_def)
    moreover have "simulates False (stays E h) (made E h) (new_scalar (Inr (XString t)) h) (Some (Inr (XString t)))"
    proof -
      have "new_scalar (Inr v) = hbind (hoption (Some (Inr v))) (\<lambda>v. new_cell (Scalar v))" for v :: "'a xvalue"
        by (simp add: new_scalar_def hbind_def hresult_def hoption_def fun_eq_iff)
      then show ?thesis
        using sim_scalar [OF ok, of "Some (Inr (XString t))" "Some (Inr (XString t))" False]
        by (simp add: agrees_option_def agrees_def scalar_def)
    qed
    ultimately show ?thesis
      using Some by (auto simp: change_token_fault_def simulates_def token_text_def split: option.splits sum.splits)
  qed
qed

section \<open>Tokens move on\<close>

text \<open>A tokenizer of a text of at most \<open>M\<close> characters.\<close>

definition tok_ok :: "nat \<Rightarrow> tokenizer \<Rightarrow> bool" where
  "tok_ok M tokP \<longleftrightarrow> length (tok_begin tokP) \<le> M \<and> length (tok_end tokP) \<le> M"

lemma next_token_le: "length (advanceToNextToken s) \<le> length s"
proof (induction s rule: advanceToNextToken.induct)
  case (1 s)
  then show ?case
    using past_comments_le [of "advancePastWhiteSpace s"] past_space_le [of s]
    by (subst advanceToNextToken.simps) auto
qed

lemma string_token_end_less: "string_token_end tokP s = Inr e \<Longrightarrow> length e < length s"
proof (induction tokP s rule: string_token_end.induct)
  case (2 tokP c s)
  consider "c = CHR 0x22" | "c = CHR 0x5C" | "c \<noteq> CHR 0x22" "c \<noteq> CHR 0x5C" by blast
  then show ?case
  proof cases
    case 2
    note bs = this
    obtain d r where s: "s = d # r" using "2.prems" bs by (cases s) auto
    consider "string_token_end tokP r = Inr e" | "string_token_end tokP (drop 4 r) = Inr e"
      using "2.prems" bs s by (auto simp: Let_def split: if_splits)
    then show ?thesis
    proof cases
      case 1
      show ?thesis
      proof (cases "d \<in> {CHR 0x22, CHR 0x5C, CHR ''/'', CHR ''b'', CHR ''f'', CHR ''n'', CHR ''r'', CHR ''t''}")
        case True
        then show ?thesis using "2.IH"(1) [OF _ bs s] 1 s bs by simp
      next
        case False
        then have "string_token_end tokP (drop 4 r) = Inr e" "d = CHR ''u''" "\<not> length (takeWhile isxdigit (take 4 r)) < 4"
          using "2.prems" bs s by (auto simp: Let_def split: if_splits)
        then show ?thesis using "2.IH"(2) [OF _ bs s False] s bs by simp
      qed
    next
      case 2
      show ?thesis
      proof (cases "d \<in> {CHR 0x22, CHR 0x5C, CHR ''/'', CHR ''b'', CHR ''f'', CHR ''n'', CHR ''r'', CHR ''t''}")
        case True
        then have "string_token_end tokP r = Inr e" using "2.prems" bs s by auto
        then show ?thesis using "2.IH"(1) [OF _ bs s True] s bs by simp
      next
        case False
        then have "d = CHR ''u''" "\<not> length (takeWhile isxdigit (take 4 r)) < 4"
          using "2.prems" bs s by (auto simp: Let_def split: if_splits)
        then show ?thesis using "2.IH"(2) [OF _ bs s False] 2 s bs by simp
      qed
    qed
  qed (use "2.prems" "2.IH"(3) in auto)
qed simp

lemma getToken_cases:
  assumes "getToken tokP = Inr t"
  defines "b \<equiv> advanceToNextToken (tok_end tokP)"
  shows "tok_begin t = b \<and> original t = original tokP \<and>
    (if b = [] then tok_end t = [] \<and> tok_type t = typeEof
     else (tok_end t = tl b \<or> tok_end t = dropWhile isWordChar (tl b) \<or>
           (\<exists>u. string_token_end u (tl b) = Inr (tok_end t))))"
  using assms(1) unfolding b_def
  by (cases "advanceToNextToken (tok_end tokP)")
    (auto simp: getToken_def Let_def finishDelimiterToken_def finishStringToken_def wordToken_def
        finishAlphanumericWordToken_def bindE_Inr_conv split: if_splits)

lemma getToken_less:
  assumes "getToken tokP = Inr t"
  shows "length (tok_end t) \<le> length (tok_begin t)" "length (tok_begin t) \<le> length (tok_end tokP)"
    "tok_type t \<noteq> typeEof \<Longrightarrow> length (tok_end t) < length (tok_begin t)" "original t = original tokP"
proof -
  let ?b = "advanceToNextToken (tok_end tokP)"
  have "length (tok_end t) < length ?b" if "?b \<noteq> []"
    using getToken_cases [OF assms] that string_token_end_less [of _ "tl ?b" "tok_end t"] length_dropWhile_le [of isWordChar "tl ?b"]
    by (cases ?b) (fastforce simp: less_Suc_eq_le)+
  then show "length (tok_end t) \<le> length (tok_begin t)" "length (tok_begin t) \<le> length (tok_end tokP)"
    "tok_type t \<noteq> typeEof \<Longrightarrow> length (tok_end t) < length (tok_begin t)" "original t = original tokP"
    using getToken_cases [OF assms] next_token_le [of "tok_end tokP"] by (auto split: if_splits)
qed

lemma getToken_ok: "getToken tokP = Inr t \<Longrightarrow> tok_ok M tokP \<Longrightarrow> tok_ok M t"
  using getToken_less [of tokP t] by (auto simp: tok_ok_def)

section \<open>The parser against the reader\<close>

lemma hfinally_pure: "hfinally (hbind m (\<lambda>x. hresult (q x))) fin = hbind (hfinally m fin) (\<lambda>x. hresult (q x))"
  by (auto simp: hfinally_def hbind_def hresult_def fun_eq_iff split: option.split sum.split)

lemma hfinally_bind: "hfinally (hbind m k) fin = hbind (hcleanup m fin) (\<lambda>x. hfinally (k x) fin)"
  by (auto simp: hfinally_def hbind_def hcleanup_def fun_eq_iff split: option.split sum.split)

lemma hresult_ret: "hret x = hresult (Inr x)" "hfail f = hresult (Inl f)"
  by (simp_all add: hret_def hfail_def hresult_def fun_eq_iff)

lemma hresult_bind: "hbind (hresult r) (\<lambda>x. hresult (q x)) = hresult (bindE r q)"
  by (cases r) (simp_all add: hbind_def hresult_def fun_eq_iff)

lemma hbind_assoc: "hbind (hbind m k) k' = hbind m (\<lambda>x. hbind (k x) k')"
  by (auto simp: hbind_def fun_eq_iff split: option.split sum.split)

definition list_separator :: "tokenizer \<Rightarrow> (bool \<times> tokenizer) result" where
  "list_separator tok1 =
     bindE (getToken tok1) (\<lambda>tok2.
       if tok_type tok2 = typeComma then Inr (False, tok2)
       else if tok_type tok2 = typeCloseBracket then Inr (True, tok2)
       else Inl (need_array_separator tok2))"

lemma parseListElement_split:
  fixes parse :: "tokenizer \<Rightarrow> (nat \<times> tokenizer, 'd) heap_op"
  shows "parseListElement mok parse a tokP =
     hbind (parse tokP) (\<lambda>(itemP, tok1).
     hbind (hfinally (xmlrpc_array_append_item mok a itemP) (xmlrpc_DECREF itemP)) (\<lambda>_. hresult (list_separator tok1)))"
proof -
  have "hbind (next_token tok1) (\<lambda>tok2.
      if tok_type tok2 = typeComma then hret (False, tok2)
      else if tok_type tok2 = typeCloseBracket then hret (True, tok2)
      else hfail (need_array_separator tok2)) = (hresult (list_separator tok1) :: (bool \<times> tokenizer, 'd heap) op)" for tok1
    unfolding next_token_def hresult_ret list_separator_def hresult_bind [symmetric]
    by (rule arg_cong [where f = "hbind _"]) auto
  then show ?thesis by (simp add: parseListElement_def hfinally_pure)
qed

text \<open>A new value, with the tokenizer that both have reached.\<close>

definition token_made ::
    "nat \<Rightarrow> nat multiset \<Rightarrow> 'd heap \<Rightarrow> 'd heap \<Rightarrow> nat \<times> tokenizer \<Rightarrow> 'd xvalue \<times> tokenizer \<Rightarrow> bool" where
  "token_made M E h h' r s \<longleftrightarrow> made E h h' (fst r) (fst s) \<and> snd r = snd s \<and> tok_ok M (snd r)"

lemma list_separator_ok: "list_separator tok1 = Inr (b, tok2) \<Longrightarrow> tok_ok M tok1 \<Longrightarrow> tok_ok M tok2"
  using getToken_ok [of tok1] by (auto simp: list_separator_def bindE_Inr_conv split: if_splits)

lemma sim_list_loop:
  assumes ok: "heap_ok h0 {} E" and fits: "SIZEOF_STRUCT_MEMBER * N \<le> BLOCK_ALLOC_MAX"
    and child: "\<And>h E tokP. heap_ok h {} E \<Longrightarrow> tok_ok M tokP \<Longrightarrow>
      simulates False (stays E h) (token_made M E h) (parse tokP h) (read tokP)"
  shows "filling_array E h0 k h vs \<Longrightarrow> k + n \<le> N \<Longrightarrow> tok_ok M tokP \<Longrightarrow>
    simulates False (stays (add_mset (fresh h0) E) h0)
      (\<lambda>h' t r. t = snd r \<and> tok_ok M t \<and> filling_array E h0 (length (fst r)) h' (fst r))
      (list_loop n always parse (fresh h0) tokP h) (read_list n read vs tokP)"
proof (induction n arbitrary: k h vs tokP)
  case 0
  then show ?case by (simp add: simulates_def)
next
  case (Suc n)
  let ?a = "fresh h0" and ?E = "add_mset (fresh h0) E"
  let ?J = "stays ?E h0" and ?I = "\<lambda>h' t r. t = snd r \<and> tok_ok M t \<and> filling_array E h0 (length (fst r)) h' (fst r)"
  have h: "heap_ok h {} ?E" "extends h0 h" "length vs = k" using Suc.prems(1) by (simp_all add: filling_array_def)
  have item: "simulates False ?J ?I
      (hbind (parseListElement always parse ?a tok1) (\<lambda>(endOfList, tok2).
           if endOfList then hret tok2 else list_loop n always parse ?a tok2) h)
      (bindO (read tok1) (\<lambda>(v, tok2).
         bindO (Some (getToken tok2)) (\<lambda>tok3.
           if tok_type tok3 = typeComma then read_list n read (vs @ [v]) tok3
           else if tok_type tok3 = typeCloseBracket then Some (Inr (vs @ [v], tok3))
           else Some (Inl (need_array_separator tok3)))))"
    if tok1: "tok_ok M tok1" for tok1
    unfolding parseListElement_split hbind_assoc
  proof (rule sim_bind)
    show "simulates False ?J (token_made M ?E h) (parse tok1 h) (read tok1)"
      by (rule sim_mono [OF child [OF h(1) tok1]]) (use extends_trans [OF h(2)] in auto)
    fix r h1 s assume made: "token_made M ?E h h1 r s"
    obtain p tok2 where r: "r = (p, tok2)" by force
    obtain v where s: "s = (v, tok2)" "made ?E h h1 p v" "tok_ok M tok2" using made r by (cases s) (auto simp: token_made_def)
    have put: "simulates False ?J (\<lambda>h' _ vs'. vs' = vs @ [v] \<and> filling_array E h0 (Suc k) h' vs')
        (hfinally (xmlrpc_array_append_item always ?a p) (xmlrpc_DECREF p) h1) (Some (Inr (vs @ [v])))"
      using sim_array_item [OF ok _ _ Suc.prems(1) s(2), of False always] fits Suc.prems(2)
      by (auto simp: simulates_def split: option.splits sum.splits)
    have "simulates False ?J ?I
        (hbind (hfinally (xmlrpc_array_append_item always ?a p) (xmlrpc_DECREF p)) (\<lambda>_.
           hbind (hresult (list_separator tok2)) (\<lambda>(endOfList, tok3).
             if endOfList then hret tok3 else list_loop n always parse ?a tok3)) h1)
        (bindO (Some (Inr (vs @ [v]))) (\<lambda>ws. bindO (Some (list_separator tok2)) (\<lambda>(endOfList, tok3).
           if endOfList then Some (Inr (ws, tok3)) else read_list n read ws tok3)))"
    proof (rule sim_bind, rule put, rule sim_bind_result)
      fix h2 ws and u :: unit assume ws: "ws = vs @ [v] \<and> filling_array E h0 (Suc k) h2 ws"
      then show "?J h2" by (simp add: filling_array_def)
      fix x assume x: "list_separator tok2 = Inr x"
      obtain b tok3 where b: "x = (b, tok3)" by force
      have tok3: "tok_ok M tok3" using list_separator_ok [of tok2 b tok3] x b s(3) by simp
      have len: "length ws = Suc k" using ws h(3) by simp
      show "simulates False ?J ?I
          ((case x of (endOfList, tok3) \<Rightarrow> if endOfList then hret tok3 else list_loop n always parse ?a tok3) h2)
          (case x of (endOfList, tok3) \<Rightarrow> if endOfList then Some (Inr (ws, tok3)) else read_list n read ws tok3)"
      proof (cases b)
        case True
        have "?I h2 tok3 (ws, tok3)" using tok3 conjunct2 [OF ws] by (simp add: len)
        then show ?thesis using True b by (simp add: sim_ret)
      next
        case False
        then show ?thesis using Suc.IH [OF conjunct2 [OF ws] _ tok3] Suc.prems(2) b by simp
      qed
    qed
    moreover have "bindO (Some (list_separator tok2)) (\<lambda>(endOfList, tok3).
           if endOfList then Some (Inr (ws, tok3)) else read_list n read ws tok3) =
        bindO (Some (getToken tok2)) (\<lambda>tok3.
           if tok_type tok3 = typeComma then read_list n read ws tok3
           else if tok_type tok3 = typeCloseBracket then Some (Inr (ws, tok3))
           else Some (Inl (need_array_separator tok3)))" for ws
      by (cases "getToken tok2") (simp_all add: list_separator_def)
    ultimately show "simulates False ?J ?I
        (hbind (case r of (itemP, tok1) \<Rightarrow>
              hbind (hfinally (xmlrpc_array_append_item always ?a itemP) (xmlrpc_DECREF itemP))
                (\<lambda>_. hresult (list_separator tok1)))
            (\<lambda>(endOfList, tok2). if endOfList then hret tok2 else list_loop n always parse ?a tok2) h1)
        (case s of (v, tok2) \<Rightarrow> bindO (Some (getToken tok2)) (\<lambda>tok3.
           if tok_type tok3 = typeComma then read_list n read (vs @ [v]) tok3
           else if tok_type tok3 = typeCloseBracket then Some (Inr (vs @ [v], tok3))
           else Some (Inl (need_array_separator tok3))))"
      by (simp add: r s(1) hbind_assoc)
  qed
  show ?case
    unfolding list_loop.simps read_list.simps next_token_def
  proof (rule sim_bind_result)
    show "?J h" using h by simp
    fix tok1 assume "getToken tokP = Inr tok1"
    then have tok1: "tok_ok M tok1" using getToken_ok Suc.prems(3) by blast
    have "?I h tok1 (vs, tok1)" using tok1 Suc.prems(1) h(3) by simp
    then show "simulates False ?J ?I
        ((if tok_type tok1 = typeEof then hret tok1
          else if tok_type tok1 = typeCloseBracket then hret tok1
          else hbind (parseListElement always parse ?a tok1)
                 (\<lambda>(endOfList, tok2). if endOfList then hret tok2 else list_loop n always parse ?a tok2)) h)
        (if tok_type tok1 = typeEof \<or> tok_type tok1 = typeCloseBracket then Some (Inr (vs, tok1))
         else bindO (read tok1) (\<lambda>(v, tok2).
           bindO (Some (getToken tok2)) (\<lambda>tok3.
             if tok_type tok3 = typeComma then read_list n read (vs @ [v]) tok3
             else if tok_type tok3 = typeCloseBracket then Some (Inr (vs @ [v], tok3))
             else Some (Inl (need_array_separator tok3)))))"
      using item [OF tok1] by (simp add: sim_ret)
  qed
qed

lemma sim_parseList:
  assumes ok: "heap_ok h {} E" and fits: "SIZEOF_STRUCT_MEMBER * N \<le> BLOCK_ALLOC_MAX" "n \<le> N" and tok: "tok_ok M tokP"
    and child: "\<And>h E tokP. heap_ok h {} E \<Longrightarrow> tok_ok M tokP \<Longrightarrow>
      simulates False (stays E h) (token_made M E h) (parse tokP h) (read tokP)"
  shows "simulates False (stays E h) (token_made M E h) (parseList n always parse tokP h)
    (bindO (read_list n read [] tokP) (\<lambda>(vs, t). Some (Inr (XArray vs, t))))"
  unfolding parseList_def xmlrpc_array_new_def [abs_def]
proof (rule sim_new_container [OF ok, where mk = ArrayBody])
  show "body_ok h (ArrayBody b) \<and> body_refs (ArrayBody b) = []"
    if "grown_block SIZEOF_VALUE_PTR b" "block_data SIZEOF_VALUE_PTR b = []" for b
    using that by (simp add: grown_block_def)
  fix b h1
  assume b: "grown_block SIZEOF_VALUE_PTR b" "block_data SIZEOF_VALUE_PTR b = []"
    and h1: "heap_ok h1 {} (add_mset (fresh h) E)" "extends h h1" "body_at h1 (fresh h) = Some (ArrayBody b)"
  let ?a = "fresh h"
  have "filling_array E h 0 h1 []" using h1 b by (auto simp: filling_array_def array_at_def)
  from sim_list_loop [OF ok fits(1) child this _ tok] fits(2)
  have "simulates False (stays (add_mset ?a E) h) (\<lambda>h' t r. t = snd r \<and> tok_ok M t \<and> filling_array E h (length (fst r)) h' (fst r))
      (list_loop n always parse ?a tokP h1) (read_list n read [] tokP)" by simp
  then show "simulates False (stays (add_mset ?a E) h) (token_made M E h)
      (hbind (list_loop n always parse ?a tokP) (\<lambda>tok1. hret (?a, tok1)) h1)
      (bindO (read_list n read [] tokP) (\<lambda>(vs, t). Some (Inr (XArray vs, t))))"
    by (rule sim_bind) (auto simp: filling_array_def made_def token_made_def intro!: sim_ret array_at_repr)
qed simp_all

text \<open>Objects.\<close>

definition colon_value :: "(tokenizer \<Rightarrow> (nat \<times> tokenizer, 'd) heap_op) \<Rightarrow> tokenizer \<Rightarrow> (nat \<times> tokenizer, 'd) heap_op" where
  "colon_value parse tokP =
     hbind (next_token tokP) (\<lambda>tok1.
       if tok_type tok1 = typeColon then hbind (next_token tok1) parse else hfail (need_colon tok1))"

definition read_colon_value ::
    "(tokenizer \<Rightarrow> ('d xvalue \<times> tokenizer) result option) \<Rightarrow> tokenizer \<Rightarrow> ('d xvalue \<times> tokenizer) result option" where
  "read_colon_value read tokP =
     bindO (Some (getToken tokP)) (\<lambda>tok1.
       if tok_type tok1 = typeColon then bindO (Some (getToken tok1)) read else Some (Inl (need_colon tok1)))"

lemma parseObjectMember_split:
  fixes parse :: "tokenizer \<Rightarrow> (nat \<times> tokenizer, 'd) heap_op"
  shows "parseObjectMember mok junk parse s tokP =
    hbind (change_token_fault tokP
             (\<lambda>f. [Txt ''Error in what is supposed to be '', Txt ''the key of a member of an object: '', PctS (text_of f)])
             (makeUtf8String mok junk (string_token_text tokP))) (\<lambda>k.
    hbind (hcleanup (colon_value parse tokP) (xmlrpc_DECREF k)) (\<lambda>(p, tok2).
    hbind (hfinally (hfinally (xmlrpc_struct_set_value_v mok s k p) (xmlrpc_DECREF p)) (xmlrpc_DECREF k)) (\<lambda>_. hresult (Inr tok2))))"
proof -
  have fail: "hbind (hfail f) k = hfail f" for f and k :: "'x \<Rightarrow> ('y, 'd heap) op"
    by (simp add: hbind_def hfail_def fun_eq_iff)
  have "hbind (next_token tokP) (\<lambda>tok1.
      if tok_type tok1 = typeColon then parseObjectMemberValue mok parse k s tok1 else hfail (need_colon tok1)) =
    hbind (colon_value parse tokP) (\<lambda>(p, tok2).
      hfinally (hbind (xmlrpc_struct_set_value_v mok s k p) (\<lambda>_. hret tok2)) (xmlrpc_DECREF p))" for k
    unfolding colon_value_def hbind_assoc parseObjectMemberValue_def
    by (rule arg_cong [where f = "hbind _"]) (auto simp: fail hbind_assoc)
  moreover have "hfinally (hbind (colon_value parse tokP) (\<lambda>(p, tok2).
        hfinally (hbind (xmlrpc_struct_set_value_v mok s k p) (\<lambda>_. hret tok2)) (xmlrpc_DECREF p))) (xmlrpc_DECREF k) =
      hbind (hcleanup (colon_value parse tokP) (xmlrpc_DECREF k)) (\<lambda>(p, tok2).
        hbind (hfinally (hfinally (xmlrpc_struct_set_value_v mok s k p) (xmlrpc_DECREF p)) (xmlrpc_DECREF k)) (\<lambda>_. hresult (Inr tok2)))" for k
    by (simp only: hfinally_bind [of "colon_value parse tokP"] hresult_ret hfinally_pure split_def)
  ultimately show ?thesis by (simp add: parseObjectMember_def)
qed

lemma sim_colon_value:
  assumes ok: "heap_ok h {} E" and made1: "made E h h1 k (XString s)" and tok: "tok_ok M tokP"
    and child: "\<And>h E tokP. heap_ok h {} E \<Longrightarrow> tok_ok M tokP \<Longrightarrow>
      simulates False (stays E h) (token_made M E h) (parse tokP h) (read tokP)"
  shows "simulates False (stays E h) (\<lambda>h' r q. member_made E h h' (k, fst r) (s, fst q) \<and> snd r = snd q \<and> tok_ok M (snd r))
    (hcleanup (colon_value parse tokP) (xmlrpc_DECREF k) h1) (read_colon_value read tokP)"
proof (rule sim_cleanup)
  note k = madeD [OF ok made1]
  let ?J = "stays (add_mset k E) h"
    and ?I = "\<lambda>h' r q. member_made E h h' (k, fst r) (s, fst q) \<and> snd r = snd q \<and> tok_ok M (snd r)"
  show "\<exists>h''. xmlrpc_DECREF k h' = Some h'' \<and> stays E h h''" if "?J h'" for h'
    using that give_up [OF ok] k(1) by (metis order_refl)
  have J: "?J h1" using k by simp
  show "simulates False ?J ?I (colon_value parse tokP h1) (read_colon_value read tokP)"
    unfolding colon_value_def read_colon_value_def next_token_def
  proof (rule sim_bind_result, rule J)
    fix tok1 assume tok1: "getToken tokP = Inr tok1"
    have "simulates False ?J ?I (hbind (hresult (getToken tok1)) parse h1) (bindO (Some (getToken tok1)) read)"
    proof (rule sim_bind_result, rule J)
      fix tok2 assume "getToken tok1 = Inr tok2"
      then have "tok_ok M tok2" using getToken_ok tok1 tok by blast
      then show "simulates False ?J ?I (parse tok2 h1) (read tok2)"
        by (rule sim_mono [OF child [OF k(2)]])
          (use extends_trans [OF k(3)] made_member [OF ok made1] in \<open>auto simp: token_made_def\<close>)
    qed
    then show "simulates False ?J ?I
        ((if tok_type tok1 = typeColon then hbind (hresult (getToken tok1)) parse else hfail (need_colon tok1)) h1)
        (if tok_type tok1 = typeColon then bindO (Some (getToken tok1)) read else Some (Inl (need_colon tok1)))"
      using J by (simp add: sim_fail)
  qed
qed

lemma string_token_short: "tok_ok M tokP \<Longrightarrow> length (string_token_text tokP) \<le> M"
  by (auto simp: tok_ok_def string_token_text_def)

lemma sim_parseObjectMember:
  assumes ok: "heap_ok h0 {} E" and fits: "SIZEOF_STRUCT_MEMBER * (n + 1) \<le> BLOCK_ALLOC_MAX" "M < BLOCK_ALLOC_MAX"
    and fill: "filling_struct E h0 n h kvs" and tok: "tok_ok M tokP"
    and child: "\<And>h E tokP. heap_ok h {} E \<Longrightarrow> tok_ok M tokP \<Longrightarrow>
      simulates False (stays E h) (token_made M E h) (parse tokP h) (read tokP)"
  shows "simulates False (stays (add_mset (fresh h0) E) h0)
      (\<lambda>h' t r. t = snd r \<and> tok_ok M t \<and> filling_struct E h0 (Suc n) h' (fst r))
      (parseObjectMember always junk parse (fresh h0) tokP h)
      (bindO (token_text junk tokP) (\<lambda>key. bindO (read_colon_value read tokP) (\<lambda>(v, t). Some (Inr (put_member key v kvs, t)))))"
  unfolding parseObjectMember_split
proof (rule sim_bind)
  let ?s = "fresh h0" and ?E = "add_mset (fresh h0) E"
  let ?J = "stays ?E h0" and ?I = "\<lambda>h' t r. t = snd r \<and> tok_ok M t \<and> filling_struct E h0 (Suc n) h' (fst r)"
  have h: "heap_ok h {} ?E" "extends h0 h" using fill by (simp_all add: filling_struct_def)
  have "length (string_token_text tokP) < BLOCK_ALLOC_MAX" using string_token_short [OF tok] fits(2) by simp
  note key = sim_token_text [OF h(1) this]
  show "simulates False ?J (\<lambda>h' p s. made ?E h h' p (XString s))
      (change_token_fault tokP
        (\<lambda>f. [Txt ''Error in what is supposed to be '', Txt ''the key of a member of an object: '', PctS (text_of f)])
        (makeUtf8String always junk (string_token_text tokP)) h) (token_text junk tokP)"
    by (rule sim_mono [OF key]) (use extends_trans [OF h(2)] in auto)
  fix k h1 x assume made1: "made ?E h h1 k (XString x)"
  show "simulates False ?J ?I
      (hbind (hcleanup (colon_value parse tokP) (xmlrpc_DECREF k)) (\<lambda>(p, tok2).
         hbind (hfinally (hfinally (xmlrpc_struct_set_value_v always ?s k p) (xmlrpc_DECREF p)) (xmlrpc_DECREF k))
           (\<lambda>_. hresult (Inr tok2))) h1)
      (bindO (read_colon_value read tokP) (\<lambda>(v, t). Some (Inr (put_member x v kvs, t))))"
  proof (rule sim_bind)
    show "simulates False ?J (\<lambda>h' r q. member_made ?E h h' (k, fst r) (x, fst q) \<and> snd r = snd q \<and> tok_ok M (snd r))
        (hcleanup (colon_value parse tokP) (xmlrpc_DECREF k) h1) (read_colon_value read tokP)"
      by (rule sim_mono [OF sim_colon_value [OF h(1) made1 tok child]]) (use extends_trans [OF h(2)] in auto)
    fix r h2 q assume made: "member_made ?E h h2 (k, fst r) (x, fst q) \<and> snd r = snd q \<and> tok_ok M (snd r)"
    obtain p t v where rq: "r = (p, t)" "q = (v, t)" using made by (cases r; cases q) simp
    have put: "simulates False ?J (\<lambda>h' _ kvs'. filling_struct E h0 (Suc n) h' kvs')
        (hfinally (hfinally (xmlrpc_struct_set_value_v always ?s k p) (xmlrpc_DECREF p)) (xmlrpc_DECREF k) h2)
        (Some (Inr (put_member x v kvs)))"
      by (rule sim_struct_put [OF ok fits(1) fill]) (use made rq in simp)
    have "simulates False ?J ?I
        (hbind (hfinally (hfinally (xmlrpc_struct_set_value_v always ?s k p) (xmlrpc_DECREF p)) (xmlrpc_DECREF k))
          (\<lambda>_. hret t) h2) (bindO (Some (Inr (put_member x v kvs))) (\<lambda>kvs'. Some (Inr (kvs', t))))"
      by (rule sim_bind, rule put, rule sim_ret) (use made rq in simp)
    then show "simulates False ?J ?I
        ((case r of (p, tok2) \<Rightarrow>
           hbind (hfinally (hfinally (xmlrpc_struct_set_value_v always ?s k p) (xmlrpc_DECREF p)) (xmlrpc_DECREF k))
             (\<lambda>_. hresult (Inr tok2))) h2)
        (case q of (v, t) \<Rightarrow> Some (Inr (put_member x v kvs, t)))"
      by (simp add: rq hresult_ret)
  qed
qed

lemma sim_object_loop:
  assumes ok: "heap_ok h0 {} E" and fits: "SIZEOF_STRUCT_MEMBER * N \<le> BLOCK_ALLOC_MAX" "M < BLOCK_ALLOC_MAX"
    and child: "\<And>h E tokP. heap_ok h {} E \<Longrightarrow> tok_ok M tokP \<Longrightarrow>
      simulates False (stays E h) (token_made M E h) (parse tokP h) (read tokP)"
  shows "filling_struct E h0 k h kvs \<Longrightarrow> k + n \<le> N \<Longrightarrow> tok_ok M tokP \<Longrightarrow>
    simulates False (stays (add_mset (fresh h0) E) h0)
      (\<lambda>h' t r. t = snd r \<and> tok_ok M t \<and> filling_struct E h0 N h' (fst r))
      (object_loop n always junk parse (fresh h0) tokP h) (read_object n junk read kvs tokP)"
proof (induction n arbitrary: k h kvs tokP)
  case 0
  then show ?case by (simp add: simulates_def)
next
  case (Suc n)
  let ?s = "fresh h0" and ?E = "add_mset (fresh h0) E"
  let ?J = "stays ?E h0" and ?I = "\<lambda>h' t r. t = snd r \<and> tok_ok M t \<and> filling_struct E h0 N h' (fst r)"
  have up: "filling_struct E h0 N h' kvs'" if "filling_struct E h0 m h' kvs'" "m \<le> N" for m h' kvs'
    using that by (simp add: filling_struct_def)
  have h: "heap_ok h {} ?E" "extends h0 h" using Suc.prems(1) by (simp_all add: filling_struct_def)
  have member: "simulates False ?J ?I
      (hbind (parseObjectMember always junk parse ?s tok1) (\<lambda>tok2.
         hbind (next_token tok2) (\<lambda>tok3.
           if tok_type tok3 = typeComma then object_loop n always junk parse ?s tok3
           else if tok_type tok3 = typeCloseBrace then hret tok3
           else hfail (need_object_separator tok3))) h)
      (bindO (bindO (token_text junk tok1) (\<lambda>key. bindO (read_colon_value read tok1) (\<lambda>(v, t). Some (Inr (put_member key v kvs, t)))))
         (\<lambda>(kvs', tok3). bindO (Some (getToken tok3)) (\<lambda>tok4.
           if tok_type tok4 = typeComma then read_object n junk read kvs' tok4
           else if tok_type tok4 = typeCloseBrace then Some (Inr (kvs', tok4))
           else Some (Inl (need_object_separator tok4)))))"
    if tok1: "tok_ok M tok1" for tok1
  proof (rule sim_bind)
    have "SIZEOF_STRUCT_MEMBER * (k + 1) \<le> BLOCK_ALLOC_MAX" using fits(1) Suc.prems(2) by simp
    then show "simulates False ?J (\<lambda>h' t r. t = snd r \<and> tok_ok M t \<and> filling_struct E h0 (Suc k) h' (fst r))
        (parseObjectMember always junk parse ?s tok1 h)
        (bindO (token_text junk tok1) (\<lambda>key. bindO (read_colon_value read tok1) (\<lambda>(v, t). Some (Inr (put_member key v kvs, t)))))"
      by (rule sim_parseObjectMember [OF ok _ fits(2) Suc.prems(1) tok1 child])
    fix tok2 h2 r assume r: "tok2 = snd r \<and> tok_ok M tok2 \<and> filling_struct E h0 (Suc k) h2 (fst r)"
    obtain kvs' where kvs': "r = (kvs', tok2)" using r by (cases r) simp
    have fill: "filling_struct E h0 (Suc k) h2 kvs'" using r kvs' by simp
    have "simulates False ?J ?I
        (hbind (hresult (getToken tok2)) (\<lambda>tok3.
           if tok_type tok3 = typeComma then object_loop n always junk parse ?s tok3
           else if tok_type tok3 = typeCloseBrace then hret tok3
           else hfail (need_object_separator tok3)) h2)
        (bindO (Some (getToken tok2)) (\<lambda>tok4.
           if tok_type tok4 = typeComma then read_object n junk read kvs' tok4
           else if tok_type tok4 = typeCloseBrace then Some (Inr (kvs', tok4))
           else Some (Inl (need_object_separator tok4))))"
    proof (rule sim_bind_result)
      show J2: "?J h2" using fill by (simp add: filling_struct_def)
      fix tok3 assume "getToken tok2 = Inr tok3"
      then have tok3: "tok_ok M tok3" using getToken_ok r by blast
      have "?I h2 tok3 (kvs', tok3)" using tok3 up [OF fill] Suc.prems(2) by simp
      moreover have "simulates False ?J ?I (object_loop n always junk parse ?s tok3 h2) (read_object n junk read kvs' tok3)"
        by (rule Suc.IH [OF fill _ tok3]) (use Suc.prems(2) in simp)
      ultimately show "simulates False ?J ?I
          ((if tok_type tok3 = typeComma then object_loop n always junk parse ?s tok3
            else if tok_type tok3 = typeCloseBrace then hret tok3
            else hfail (need_object_separator tok3)) h2)
          (if tok_type tok3 = typeComma then read_object n junk read kvs' tok3
           else if tok_type tok3 = typeCloseBrace then Some (Inr (kvs', tok3))
           else Some (Inl (need_object_separator tok3)))"
        using J2 by (simp add: sim_ret sim_fail)
    qed
    then show "simulates False ?J ?I
        (hbind (next_token tok2) (\<lambda>tok3.
           if tok_type tok3 = typeComma then object_loop n always junk parse ?s tok3
           else if tok_type tok3 = typeCloseBrace then hret tok3
           else hfail (need_object_separator tok3)) h2)
        (case r of (kvs', tok3) \<Rightarrow> bindO (Some (getToken tok3)) (\<lambda>tok4.
           if tok_type tok4 = typeComma then read_object n junk read kvs' tok4
           else if tok_type tok4 = typeCloseBrace then Some (Inr (kvs', tok4))
           else Some (Inl (need_object_separator tok4))))"
      by (simp add: kvs' next_token_def)
  qed
  show ?case
    unfolding object_loop.simps read_object.simps next_token_def
  proof (rule sim_bind_result)
    show J1: "?J h" using h by simp
    fix tok1 assume "getToken tokP = Inr tok1"
    then have tok1: "tok_ok M tok1" using getToken_ok Suc.prems(3) by blast
    have "?I h tok1 (kvs, tok1)" using tok1 up [OF Suc.prems(1)] Suc.prems(2) by simp
    then show "simulates False ?J ?I
        ((if tok_type tok1 = typeCloseBrace then hret tok1
          else if tok_type tok1 = typeString
          then hbind (parseObjectMember always junk parse ?s tok1) (\<lambda>tok2.
                 hbind (hresult (getToken tok2)) (\<lambda>tok3.
                   if tok_type tok3 = typeComma then object_loop n always junk parse ?s tok3
                   else if tok_type tok3 = typeCloseBrace then hret tok3
                   else hfail (need_object_separator tok3)))
          else hfail (need_key tok1)) h)
        (if tok_type tok1 = typeCloseBrace then Some (Inr (kvs, tok1))
         else if tok_type tok1 = typeString
         then bindO (token_text junk tok1) (\<lambda>key.
              bindO (Some (getToken tok1)) (\<lambda>tok2.
              bindO (if tok_type tok2 = typeColon then bindO (Some (getToken tok2)) read else Some (Inl (need_colon tok2)))
                (\<lambda>(v, tok3).
              bindO (Some (getToken tok3)) (\<lambda>tok4.
                if tok_type tok4 = typeComma then read_object n junk read (put_member key v kvs) tok4
                else if tok_type tok4 = typeCloseBrace then Some (Inr (put_member key v kvs, tok4))
                else Some (Inl (need_object_separator tok4))))))
         else Some (Inl (need_key tok1)))"
      using member [OF tok1] J1
      by (simp add: sim_ret sim_fail next_token_def bindO_assoc read_colon_value_def split_def cong del: if_weak_cong)
  qed
qed

lemma sim_parseObject:
  assumes ok: "heap_ok h {} E" and fits: "SIZEOF_STRUCT_MEMBER * N \<le> BLOCK_ALLOC_MAX" "n \<le> N" "M < BLOCK_ALLOC_MAX"
    and tok: "tok_ok M tokP"
    and child: "\<And>h E tokP. heap_ok h {} E \<Longrightarrow> tok_ok M tokP \<Longrightarrow>
      simulates False (stays E h) (token_made M E h) (parse tokP h) (read tokP)"
  shows "simulates False (stays E h) (token_made M E h) (parseObject n always junk parse tokP h)
    (bindO (read_object n junk read [] tokP) (\<lambda>(kvs, t). Some (Inr (XStruct kvs, t))))"
  unfolding parseObject_def xmlrpc_struct_new_def [abs_def]
proof (rule sim_new_container [OF ok, where mk = StructBody])
  show "body_ok h (StructBody b) \<and> body_refs (StructBody b) = []"
    if "grown_block SIZEOF_STRUCT_MEMBER b" "block_data SIZEOF_STRUCT_MEMBER b = []" for b
    using that by (simp add: grown_block_def)
  fix b h1
  assume b: "grown_block SIZEOF_STRUCT_MEMBER b" "block_data SIZEOF_STRUCT_MEMBER b = []"
    and h1: "heap_ok h1 {} (add_mset (fresh h) E)" "extends h h1" "body_at h1 (fresh h) = Some (StructBody b)"
  let ?s = "fresh h"
  have "filling_struct E h 0 h1 []" using h1 b by (auto simp: filling_struct_def struct_at_def)
  from sim_object_loop [OF ok fits(1,3) child this _ tok] fits(2)
  have "simulates False (stays (add_mset ?s E) h) (\<lambda>h' t r. t = snd r \<and> tok_ok M t \<and> filling_struct E h N h' (fst r))
      (object_loop n always junk parse ?s tokP h1) (read_object n junk read [] tokP)" by simp
  then show "simulates False (stays (add_mset ?s E) h) (token_made M E h)
      (hbind (object_loop n always junk parse ?s tokP) (\<lambda>tok1. hret (?s, tok1)) h1)
      (bindO (read_object n junk read [] tokP) (\<lambda>(kvs, t). Some (Inr (XStruct kvs, t))))"
    by (rule sim_bind) (auto simp: filling_struct_def made_def token_made_def intro!: sim_ret struct_at_repr)
qed simp_all

lemma sim_with_token:
  assumes "simulates False (stays E h) (made E h) (m h) (Some r)" "tok_ok M tokP"
  shows "simulates False (stays E h) (token_made M E h) (with_token tokP m h) (Some (bindE r (\<lambda>v. Inr (v, tokP))))"
proof -
  have "simulates False (stays E h) (token_made M E h) (with_token tokP m h) (bindO (Some r) (\<lambda>v. Some (Inr (v, tokP))))"
    unfolding with_token_def by (rule sim_bind, rule assms(1), rule sim_ret) (simp add: token_made_def assms(2))
  moreover have "bindO (Some r) (\<lambda>v. Some (Inr (v, tokP))) = Some (bindE r (\<lambda>v. Inr (v, tokP)))"
    by (cases r) simp_all
  ultimately show ?thesis by simp
qed

lemma sim_new_value:
  assumes "heap_ok h {} E" "r = Inr v" "scalar v"
  shows "simulates False (stays E h) (made E h) (new_scalar r h) (Some (Inr v))"
proof -
  have "new_scalar r = hbind (hoption (Some r)) (\<lambda>v. new_cell (Scalar v))"
    by (simp add: new_scalar_def hbind_def hresult_def hoption_def fun_eq_iff)
  then show ?thesis
    using sim_scalar [OF assms(1), of "Some r" "Some r" False] assms(2,3) by (simp add: agrees_option_def agrees_def)
qed

lemma sim_integer:
  assumes "heap_ok h {} E"
  shows "simulates False (stays E h) (made E h) (integerTokenValue always tokP h) (Some (read_integer tokP))"
proof (cases "xmlrpc_parse_int64 (take (tok_size tokP) (tok_begin tokP))")
  case (Inl f)
  then show ?thesis using assms extends_refl [OF assms] by (simp add: integerTokenValue_def read_integer_def sim_fail)
next
  case (Inr i)
  have "xmlrpc_i8_new always (word_of_int i) = Inr (XI8 (word_of_int i))"
    by (simp add: xmlrpc_i8_new_def xmlrpc_createXmlrpcValue_def always_def)
  from sim_new_value [OF assms this] show ?thesis
    using Inr by (simp add: integerTokenValue_def read_integer_def scalar_def)
qed

lemma sim_parse_json_value:
  fixes pf :: "('d, 'a) platform_scheme"
  assumes fits: "SIZEOF_STRUCT_MEMBER * N \<le> BLOCK_ALLOC_MAX" "M < BLOCK_ALLOC_MAX"
  shows "n \<le> N \<Longrightarrow> heap_ok h {} E \<Longrightarrow> tok_ok M tokP \<Longrightarrow>
    simulates False (stays E h) (token_made M E h) (parseValue n always pf junk tokP h) (read_json n pf junk tokP)"
proof (induction n arbitrary: h E tokP)
  case 0
  then show ?case by (simp add: simulates_def)
next
  case (Suc n)
  have child: "simulates False (stays E h) (token_made M E h) (parseValue n always pf junk tokP h) (read_json n pf junk tokP)"
    if "heap_ok h {} E" "tok_ok M tokP" for h E tokP
    using Suc.IH that Suc.prems(1) by simp
  have made_value: "simulates False (stays E h) (token_made M E h) (with_token tokP (new_scalar r) h) (Some (Inr (v, tokP)))"
    if "r = Inr v" "scalar v" for r v
  proof -
    have "simulates False (stays E h) (token_made M E h) (with_token tokP (new_scalar r) h) (Some (bindE (Inr v) (\<lambda>v. Inr (v, tokP))))"
      by (rule sim_with_token, rule sim_new_value [OF Suc.prems(2) that], rule Suc.prems(3))
    then show ?thesis by simp
  qed
  have int: "simulates False (stays E h) (token_made M E h) (with_token tokP (integerTokenValue always tokP) h)
      (Some (bindE (read_integer tokP) (\<lambda>v. Inr (v, tokP))))"
    by (rule sim_with_token, rule sim_integer [OF Suc.prems(2)], rule Suc.prems(3))
  have new: "xmlrpc_nil_new always = Inr (XNil :: 'd xvalue)" "xmlrpc_bool_new always b = Inr (XBool b :: 'd xvalue)"
      "xmlrpc_double_new always d = Inr (XDouble d)" for b d
    by (simp_all add: xmlrpc_nil_new_def xmlrpc_bool_new_def xmlrpc_double_new_def xmlrpc_createXmlrpcValue_def always_def)
  have sc: "scalar XNil" "scalar (XBool b)" "scalar (XDouble d)" for b d by (simp_all add: scalar_def)
  have "length (string_token_text tokP) < BLOCK_ALLOC_MAX" using string_token_short [OF Suc.prems(3)] fits(2) by simp
  note string = sim_token_text [OF Suc.prems(2) this]
  have str: "simulates False (stays E h) (token_made M E h) (with_token tokP (stringTokenValue always junk tokP) h)
      (bindO (token_text junk tokP) (\<lambda>s. Some (Inr (XString s, tokP))))"
    unfolding with_token_def stringTokenValue_def
    by (rule sim_bind, rule string, rule sim_ret) (simp add: token_made_def Suc.prems(3))
  have fail: "simulates False (stays E h) (token_made M E h) (hfail f h) (Some (Inl f))" for f
    using Suc.prems(2) extends_refl by (intro sim_fail) blast
  note parts = sim_parseList [OF Suc.prems(2) fits(1) Suc.prems(1,3), of "parseValue n always pf junk" "read_json n pf junk", OF child]
    sim_parseObject [OF Suc.prems(2) fits(1) Suc.prems(1) fits(2) Suc.prems(3), of "parseValue n always pf junk" "read_json n pf junk", OF child]
  show ?case
    unfolding parseValue.simps read_json.simps value_of_token_def
    by (cases "tok_type tokP"; simp only: ttype.case)
      (assumption | rule parts str int fail made_value new sc)+
qed

lemma sim_parse_json:
  assumes ok: "heap_ok h {} E" and fits: "SIZEOF_STRUCT_MEMBER * (length (c_str str) + 1) \<le> BLOCK_ALLOC_MAX"
  shows "simulates False (stays E h) (made E h) (xmlrpc_parse_json always pf junk str h) (json_value pf junk (c_str str))"
  unfolding xmlrpc_parse_json_def json_value_def next_token_def
proof (rule sim_bind_result)
  let ?M = "length (c_str str)"
  let ?t = "initializeTokenizer (c_str str)"
  show start: "stays E h h" using ok extends_refl [OF ok] by simp
  fix tok1 assume "getToken ?t = Inr tok1"
  then have tok1: "tok_ok ?M tok1" using getToken_ok [of ?t] by (simp add: tok_ok_def initializeTokenizer_def)
  show "simulates False (stays E h) (made E h)
      (hbind (parseValue (?M + 1) always pf junk tok1) (\<lambda>(retval, tok2).
         hcleanup
           (hbind (hresult (getToken tok2)) (\<lambda>tok3. if tok_type tok3 \<noteq> typeEof then hfail (junk_after_value tok3) else hret retval))
           (xmlrpc_DECREF retval)) h)
      (bindO (read_json (?M + 1) pf junk tok1) (\<lambda>(v, tok2).
       bindO (Some (getToken tok2)) (\<lambda>tok3. if tok_type tok3 \<noteq> typeEof then Some (Inl (junk_after_value tok3)) else Some (Inr v))))"
  proof (rule sim_bind)
    have "?M < BLOCK_ALLOC_MAX" using fits by simp
    then show "simulates False (stays E h) (token_made ?M E h) (parseValue (?M + 1) always pf junk tok1 h) (read_json (?M + 1) pf junk tok1)"
      by (rule sim_parse_json_value [OF fits _ order_refl ok tok1])
    fix r h1 s assume r: "token_made ?M E h h1 r s"
    obtain p t v where rs: "r = (p, t)" "s = (v, t)" "made E h h1 p v"
      using r by (cases r; cases s) (auto simp: token_made_def)
    note p = madeD [OF ok rs(3)]
    have "simulates False (stays (add_mset p E) h) (made E h)
        (hbind (hresult (getToken t)) (\<lambda>tok3. if tok_type tok3 \<noteq> typeEof then hfail (junk_after_value tok3) else hret p) h1)
        (bindO (Some (getToken t)) (\<lambda>tok3. if tok_type tok3 \<noteq> typeEof then Some (Inl (junk_after_value tok3)) else Some (Inr v)))"
      using p(2,3) rs(3) by (intro sim_bind_result) (auto intro: sim_fail sim_ret)
    then have "simulates False (stays E h) (made E h)
        (hcleanup (hbind (hresult (getToken t)) (\<lambda>tok3. if tok_type tok3 \<noteq> typeEof then hfail (junk_after_value tok3) else hret p))
          (xmlrpc_DECREF p) h1)
        (bindO (Some (getToken t)) (\<lambda>tok3. if tok_type tok3 \<noteq> typeEof then Some (Inl (junk_after_value tok3)) else Some (Inr v)))"
      by (rule sim_cleanup) (use give_up [OF ok] p(1) in \<open>metis order_refl\<close>)
    then show "simulates False (stays E h) (made E h)
        ((case r of (retval, tok2) \<Rightarrow>
           hcleanup
             (hbind (hresult (getToken tok2)) (\<lambda>tok3. if tok_type tok3 \<noteq> typeEof then hfail (junk_after_value tok3) else hret retval))
             (xmlrpc_DECREF retval)) h1)
        (case s of (v, tok2) \<Rightarrow> bindO (Some (getToken tok2)) (\<lambda>tok3.
           if tok_type tok3 \<noteq> typeEof then Some (Inl (junk_after_value tok3)) else Some (Inr v)))"
      by (simp add: rs)
  qed
qed

section \<open>The parser returns\<close>

lemma string_token_text_ok:
  assumes "string_token_end u s = Inr e" "\<not> isxdigit junk"
  shows "\<exists>body. s = body @ CHR 0x22 # e \<and> (\<forall>k > length body. string_text junk k body \<noteq> None)"
  using assms(1)
proof (induction u s rule: string_token_end.induct)
  case (2 u c s)
  consider "c = CHR 0x22" | "c = CHR 0x5C" | "c \<noteq> CHR 0x22" "c \<noteq> CHR 0x5C" by blast
  then show ?case
  proof cases
    case 1
    then show ?thesis using "2.prems" by (intro exI [of _ "[]"]) (auto simp: gr0_conv_Suc)
  next
    case 2
    note bs = this
    obtain d r where s: "s = d # r" using "2.prems" bs by (cases s) auto
    show ?thesis
    proof (cases "d \<in> {CHR 0x22, CHR 0x5C, CHR ''/'', CHR ''b'', CHR ''f'', CHR ''n'', CHR ''r'', CHR ''t''}")
      case True
      then have "string_token_end u r = Inr e" using "2.prems" bs s by auto
      from "2.IH"(1) [OF _ bs s True this] bs obtain body where
        body: "r = body @ CHR 0x22 # e" "\<forall>k > length body. string_text junk k body \<noteq> None" by auto
      have "string_text junk k (c # d # body) \<noteq> None" if "length (c # d # body) < k" for k
      proof -
        obtain k' where k: "k = Suc k'" using \<open>length (c # d # body) < k\<close> by (cases k) auto
        have "\<exists>x. getBackslashSequence junk (d # body) = Some (Inr ([x], 1))"
          using True by (auto simp: getBackslashSequence_def)
        then show ?thesis using body(2) that k bs by auto
      qed
      then show ?thesis using body(1) s by (intro exI [of _ "c # d # body"]) simp
    next
      case False
      then have u: "d = CHR ''u''" "\<not> length (takeWhile isxdigit (take 4 r)) < 4" "string_token_end u (drop 4 r) = Inr e"
        using "2.prems" bs s by (auto simp: Let_def split: if_splits)
      from "2.IH"(2) [OF _ bs s False u(1) refl u(2,3)] bs obtain body where
        body: "drop 4 r = body @ CHR 0x22 # e" "\<forall>k > length body. string_text junk k body \<noteq> None" by auto
      have ds: "length (take 4 r) = 4" "list_all isxdigit (take 4 r)"
      proof -
        have "4 \<le> length (takeWhile isxdigit (take 4 r))" using u(2) by simp
        moreover have "length (takeWhile isxdigit (take 4 r)) \<le> length (take 4 r)" by (rule length_takeWhile_le)
        ultimately have "length (take 4 r) = 4" "length (takeWhile isxdigit (take 4 r)) = length (take 4 r)" by simp_all
        then have "takeWhile isxdigit (take 4 r) = take 4 r"
          by (metis takeWhile_eq_take take_all_iff order_refl)
        then show "length (take 4 r) = 4" "list_all isxdigit (take 4 r)"
          using \<open>length (take 4 r) = 4\<close> by (simp_all add: takeWhile_eq_all_conv list_all_iff)
      qed
      have r: "r = take 4 r @ body @ CHR 0x22 # e" using body(1) by (metis append_take_drop_id)
      have "string_text junk k (c # d # take 4 r @ body) \<noteq> None" if "length (c # d # take 4 r @ body) < k" for k
      proof -
        obtain k' where k: "k = Suc k'" using \<open>length (c # d # take 4 r @ body) < k\<close> by (cases k) auto
        have take: "take 4 (take 4 r @ body) = take 4 r" "drop 4 (take 4 r @ body) = body" using ds(1) by simp_all
        have "\<exists>x. getBackslashSequence junk (d # take 4 r @ body) = Some (Inr (x, 5))"
          using u(1) ds assms(2) take by (simp add: getBackslashSequence_def)
        then obtain x where "getBackslashSequence junk (d # take 4 r @ body) = Some (Inr (x, 5))" by blast
        moreover have "drop 5 (d # take 4 r @ body) = body" using take(2) by (simp add: numeral_eq_Suc)
        ultimately show ?thesis using body(2) that k bs ds(1) by simp
      qed
      then show ?thesis using r s by (intro exI [of _ "c # d # take 4 r @ body"]) (metis append_Cons append_assoc)
    qed
  next
    case 3
    then have "string_token_end u s = Inr e" using "2.prems" by simp
    from "2.IH"(3) [OF 3 this] obtain body where
      body: "s = body @ CHR 0x22 # e" "\<forall>k > length body. string_text junk k body \<noteq> None" by auto
    have "string_text junk k (c # body) \<noteq> None" if "length (c # body) < k" for k
      using that body(2) 3 by (cases k) auto
    then show ?thesis using body(1) by (intro exI [of _ "c # body"]) simp
  qed
qed simp

definition readable :: "char \<Rightarrow> tokenizer \<Rightarrow> bool" where
  "readable junk tokP \<longleftrightarrow> (tok_type tokP = typeString \<longrightarrow> token_text junk tokP \<noteq> None)"

lemma getToken_readable:
  assumes "getToken tokP = Inr t" "\<not> isxdigit junk"
  shows "readable junk t"
  unfolding readable_def
proof
  assume str: "tok_type t = typeString"
  let ?b = "advanceToNextToken (tok_end tokP)"
  obtain r u where b: "?b = CHR 0x22 # r" "tok_begin t = ?b" "string_token_end u r = Inr (tok_end t)"
    using assms(1) str
    by (cases ?b) (auto simp: getToken_def Let_def finishDelimiterToken_def finishStringToken_def wordToken_def
        finishAlphanumericWordToken_def bindE_Inr_conv split: if_splits)
  obtain body where body: "r = body @ CHR 0x22 # tok_end t" "\<forall>k > length body. string_text junk k body \<noteq> None"
    using string_token_text_ok [OF b(3) assms(2)] by blast
  have "string_token_text t = body" by (simp add: string_token_text_def b(1,2) body(1))
  then show "token_text junk t \<noteq> None" using body(2) by (simp add: token_text_def)
qed

text \<open>A reader that returns for all tokens with less than \<open>m\<close> characters after them, and never goes back.\<close>

definition returns_below :: "nat \<Rightarrow> char \<Rightarrow> (tokenizer \<Rightarrow> ('v \<times> tokenizer) result option) \<Rightarrow> bool" where
  "returns_below m junk read \<longleftrightarrow>
     (\<forall>t. readable junk t \<and> length (tok_end t) < m \<longrightarrow>
        (\<exists>r. read t = Some r \<and> (\<forall>v t'. r = Inr (v, t') \<longrightarrow> length (tok_end t') \<le> length (tok_end t))))"

lemma returns_belowE:
  assumes "returns_below m junk read" "readable junk t" "length (tok_end t) < m"
  obtains (fault) f where "read t = Some (Inl f)" | (parsed) v t' where "read t = Some (Inr (v, t'))" "length (tok_end t') \<le> length (tok_end t)"
  using assms unfolding returns_below_def by (metis sum.exhaust prod.exhaust)

lemma read_list_returns:
  assumes junk: "\<not> isxdigit junk" and read: "returns_below m junk read"
  shows "length (tok_end tokP) \<le> m \<Longrightarrow> length (tok_end tokP) < n \<Longrightarrow>
    \<exists>r. read_list n read vs tokP = Some r \<and> (\<forall>v t'. r = Inr (v, t') \<longrightarrow> length (tok_end t') \<le> length (tok_end tokP))"
proof (induction n arbitrary: vs tokP)
  case (Suc n)
  show ?case
  proof (cases "getToken tokP")
    case (Inr t1)
    note t1 = getToken_less [OF Inr] getToken_readable [OF Inr junk]
    show ?thesis
    proof (cases "tok_type t1 = typeEof \<or> tok_type t1 = typeCloseBracket")
      case True
      then show ?thesis using Inr t1 by auto
    next
      case False
      then have "length (tok_end t1) < m" using t1 Suc.prems by auto
      with read t1(5) show ?thesis
      proof (cases rule: returns_belowE)
        case (parsed v t2)
        show ?thesis
        proof (cases "getToken t2")
          case (Inr t3)
          note t3 = getToken_less [OF Inr]
          have "length (tok_end t3) \<le> length (tok_end tokP)" using t1(1,2) t3(1,2) parsed(2) by linarith
          moreover have "read_list (Suc n) read vs tokP =
              (if tok_type t3 = typeComma then read_list n read (vs @ [v]) t3
               else if tok_type t3 = typeCloseBracket then Some (Inr (vs @ [v], t3)) else Some (Inl (need_array_separator t3)))"
            using \<open>getToken tokP = Inr t1\<close> False parsed(1) Inr by simp
          ultimately show ?thesis
          proof (cases "tok_type t3 = typeComma")
            case True
            have less: "length (tok_end t3) < length (tok_end tokP)" using t1(2,3) t3(1,2) parsed(2) False by linarith
            have "length (tok_end t3) \<le> m" "length (tok_end t3) < n" using less Suc.prems by simp_all
            from Suc.IH [OF this, of "vs @ [v]"] True less show ?thesis
              using \<open>read_list (Suc n) read vs tokP = _\<close> by fastforce
          qed auto
        qed (use Inr False parsed in simp)
      qed (use Inr False in simp)
    qed
  qed simp
qed simp

lemma read_object_returns:
  assumes junk: "\<not> isxdigit junk" and read: "returns_below m junk read"
  shows "length (tok_end tokP) \<le> m \<Longrightarrow> length (tok_end tokP) < n \<Longrightarrow>
    \<exists>r. read_object n junk read kvs tokP = Some r \<and> (\<forall>v t'. r = Inr (v, t') \<longrightarrow> length (tok_end t') \<le> length (tok_end tokP))"
proof (induction n arbitrary: kvs tokP)
  case (Suc n)
  show ?case
  proof (cases "getToken tokP")
    case (Inr t1)
    note t1 = getToken_less [OF Inr] getToken_readable [OF Inr junk]
    show ?thesis
    proof (cases "tok_type t1 = typeString")
      case False
      then show ?thesis using Inr t1 by auto
    next
      case True
      then obtain key where key: "token_text junk t1 = Some (Inr key)"
        using t1(5) by (auto simp: readable_def token_text_def)
      have less1: "length (tok_end t1) < length (tok_end tokP)" using t1 True by fastforce
      show ?thesis
      proof (cases "getToken t1")
        case (Inr t2)
        note t2 = getToken_less [OF Inr]
        show ?thesis
        proof (cases "tok_type t2 = typeColon")
          case True
          note colon = this
          show ?thesis
          proof (cases "getToken t2")
            case (Inr t3)
            note t3 = getToken_less [OF Inr] getToken_readable [OF Inr junk]
            have less3: "length (tok_end t3) < length (tok_end tokP)" using t3(1,2) t2(1,2) less1 by linarith
            then have "length (tok_end t3) < m" using Suc.prems by simp
            with read t3(5) show ?thesis
            proof (cases rule: returns_belowE)
              case (parsed v t4)
              show ?thesis
              proof (cases "getToken t4")
                case (Inr t5)
                note t5 = getToken_less [OF Inr]
                have "length (tok_end t5) < length (tok_end tokP)" using t5(1,2) parsed(2) less3 by linarith
                then have "length (tok_end t5) \<le> m" "length (tok_end t5) < n" using Suc.prems by simp_all
                note rest = Suc.IH [OF this, of "put_member key v kvs"]
                have "read_object (Suc n) junk read kvs tokP =
                  (if tok_type t5 = typeComma then read_object n junk read (put_member key v kvs) t5
                   else if tok_type t5 = typeCloseBrace then Some (Inr (put_member key v kvs, t5))
                   else Some (Inl (need_object_separator t5)))"
                  using \<open>getToken tokP = Inr t1\<close> \<open>getToken t1 = Inr t2\<close> \<open>getToken t2 = Inr t3\<close> Inr parsed(1)
                    \<open>tok_type t1 = typeString\<close> key colon by simp
                with rest \<open>length (tok_end t5) < length (tok_end tokP)\<close> show ?thesis
                  by (cases "tok_type t5 = typeComma") (auto intro: order.trans [OF _ less_imp_le])
              qed (use \<open>getToken tokP = Inr t1\<close> \<open>getToken t1 = Inr t2\<close> Inr parsed \<open>tok_type t1 = typeString\<close> key colon in simp)
            qed (use \<open>getToken tokP = Inr t1\<close> \<open>getToken t1 = Inr t2\<close> Inr \<open>tok_type t1 = typeString\<close> key colon in simp)
          qed (use \<open>getToken tokP = Inr t1\<close> Inr \<open>tok_type t1 = typeString\<close> key colon in simp)
        qed (use \<open>getToken tokP = Inr t1\<close> Inr True key in simp)
      qed (use Inr True key in simp)
    qed
  qed simp
qed simp

lemma read_json_returns:
  assumes junk: "\<not> isxdigit junk"
  shows "returns_below n junk (read_json n pf junk)"
proof (induction n)
  case 0
  then show ?case by (simp add: returns_below_def)
next
  case (Suc n)
  show ?case
    unfolding returns_below_def
  proof (intro allI impI, elim conjE)
    fix t assume t: "readable junk t" "length (tok_end t) < Suc n"
    obtain rl where rl: "read_list (Suc n) (read_json n pf junk) [] t = Some rl"
        "\<And>v t'. rl = Inr (v, t') \<Longrightarrow> length (tok_end t') \<le> length (tok_end t)"
      using read_list_returns [OF junk Suc.IH, of t "Suc n" "[]"] t(2) by auto
    obtain ro where ro: "read_object (Suc n) junk (read_json n pf junk) [] t = Some ro"
        "\<And>v t'. ro = Inr (v, t') \<Longrightarrow> length (tok_end t') \<le> length (tok_end t)"
      using read_object_returns [OF junk Suc.IH, of t "Suc n" "[]"] t(2) by auto
    obtain s where s: "tok_type t = typeString \<Longrightarrow> token_text junk t = Some (Inr s)"
      using t(1) by (auto simp: readable_def token_text_def)
    show "\<exists>r. read_json (Suc n) pf junk t = Some r \<and> (\<forall>v t'. r = Inr (v, t') \<longrightarrow> length (tok_end t') \<le> length (tok_end t))"
    proof (cases "tok_type t")
      case typeOpenBracket
      then show ?thesis using rl by (cases rl) (auto simp del: read_list.simps)
    next
      case typeOpenBrace
      then show ?thesis using ro by (cases ro) (auto simp del: read_object.simps)
    next
      case typeInteger
      then show ?thesis by (cases "read_integer t :: 'a xvalue result") auto
    qed (use s in auto)
  qed
qed

lemma json_value_returns:
  assumes "\<not> isxdigit junk"
  shows "json_value pf junk str \<noteq> None"
proof (cases "getToken (initializeTokenizer str)")
  case (Inr t)
  have "length (tok_end t) < length str + 1"
    using getToken_less [OF Inr] by (simp add: initializeTokenizer_def)
  with read_json_returns [OF assms, of "length str + 1" pf] getToken_readable [OF Inr assms] show ?thesis
  proof (cases rule: returns_belowE)
    case (parsed v t')
    then show ?thesis using Inr by (cases "getToken t'") (simp_all add: json_value_def)
  qed (use Inr in \<open>simp add: json_value_def\<close>)
qed (simp add: json_value_def)

section \<open>Properties\<close>

text \<open>C11: the parser of JSON text builds, in the reference-counted heap, exactly the value that the reader
  without a heap reads from the text, and changes nothing that was there; when it faults, it has the same
  fault and nothing is left behind.  It returns on every text, unless the byte on the stack after the four
  digits of a Unicode escape happens to be a digit as well.\<close>
theorem parse_json_refines_reader:
  assumes "heap_ok h {} E" "SIZEOF_STRUCT_MEMBER * (length (c_str str) + 1) \<le> BLOCK_ALLOC_MAX"
  shows "(case xmlrpc_parse_json always pf junk str h of
      None \<Rightarrow> json_value pf junk (c_str str) = None \<and> isxdigit junk
    | Some (Inl f, h') \<Rightarrow>
        json_value pf junk (c_str str) = Some (Inl f) \<and> heap_ok h' {} E \<and> cells h' = cells h
    | Some (Inr p, h') \<Rightarrow>
        heap_ok h' {} (add_mset p E) \<and> p \<notin> dom (cells h) \<and> (\<forall>q \<in> dom (cells h). body_at h' q = body_at h q) \<and>
        (\<exists>v. json_value pf junk (c_str str) = Some (Inr v) \<and> repr h' p v))"
  using sim_parse_json [OF assms, of pf junk] json_value_returns [of junk pf "c_str str"]
    extends_back [OF assms(1)] madeD [OF assms(1)] extends_live
  by (fastforce simp: simulates_def split: option.splits sum.splits)

lemma parse_json_refines_reader_witness:
  "\<exists>p h'. xmlrpc_parse_json always sample_platform NUL ''{}'' no_cells = Some (Inr p, h') \<and> repr h' p (XStruct [])"
proof -
  have str: "c_str ''{}'' = ''{}''" by code_simp
  have v: "json_value sample_platform NUL ''{}'' = Some (Inr (XStruct []))" by code_simp
  have "SIZEOF_STRUCT_MEMBER * (length (c_str ''{}'') + 1) \<le> BLOCK_ALLOC_MAX" by (simp add: str)
  note ref = parse_json_refines_reader [OF no_cells_ok this, of sample_platform NUL, unfolded str v]
  show ?thesis
  proof (cases "xmlrpc_parse_json always sample_platform NUL ''{}'' no_cells")
    case None
    then show ?thesis using ref by simp
  next
    case (Some out)
    then show ?thesis using ref by (cases out; cases "fst out") auto
  qed
qed

end
