(* ===== verification/Json_Words.thy ===== *)
theory Json_Words
  imports Json
begin

text \<open>
  What the tokenizer of \<open>src/json.c\<close> takes a word for (\<open>isInteger\<close>, \<open>isFloat\<close> and the comparisons with the
  literals in \<open>getToken\<close>), against a description of the words that does not mention the code.
\<close>

section \<open>Words\<close>

text \<open>The words that the grammar in the code's comments names, said without the code.\<close>

definition digits :: "string \<Rightarrow> bool" where
  "digits ds \<longleftrightarrow> set ds \<subseteq> set ''0123456789''"

definition integer_word :: "string \<Rightarrow> bool" where
  "integer_word w \<longleftrightarrow> (\<exists>sign ds. w = sign @ ds \<and> sign \<in> {[], ''-''} \<and> digits ds)"

definition fraction :: "string \<Rightarrow> bool" where
  "fraction s \<longleftrightarrow> (\<exists>ds es. s = ds @ ''.'' @ es \<and> digits ds \<and> digits es \<and> ds @ es \<noteq> [])"

definition decimal_word :: "string \<Rightarrow> bool" where
  "decimal_word w \<longleftrightarrow> (\<exists>sign s. w = sign @ s \<and> sign \<in> {[], ''-''} \<and> fraction s)"

definition begins :: "string \<Rightarrow> string \<Rightarrow> bool" where
  "begins literal w \<longleftrightarrow> (\<exists>z. literal = w @ z)"

lemma begins_take: "begins literal w \<longleftrightarrow> w = take (length w) literal"
proof
  assume "w = take (length w) literal"
  then have "literal = w @ drop (length w) literal" by (metis append_take_drop_id)
  then show "begins literal w" unfolding begins_def by blast
qed (auto simp: begins_def)

lemma isdigit_member: "isdigit c \<longleftrightarrow> c \<in> set ''0123456789''"
proof
  assume c: "isdigit c"
  have codes: "map uchar ''0123456789'' = [48, 49, 50, 51, 52, 53, 54, 55, 56, 57]" by (simp add: uchar_def)
  have "uchar c \<in> set [48, 49, 50, 51, 52, 53, 54, 55, 56, 57]" using c unfolding isdigit_def by simp presburger
  then have "uchar c \<in> uchar ` set ''0123456789''" unfolding codes [symmetric] set_map .
  then show "c \<in> set ''0123456789''" by (metis imageE uchar_inject)
qed (auto simp: isdigit_def uchar_def)

lemma digits_isdigit: "digits ds \<longleftrightarrow> list_all isdigit ds"
  unfolding digits_def list_all_iff subset_iff isdigit_member by blast

lemma not_digits: "\<not> isdigit (CHR ''-'')" "\<not> isdigit (CHR ''.'')" "\<not> isdigit (CHR ''e'')"
  by (simp_all add: isdigit_def uchar_def)

lemma with_sign:
  "(\<exists>sign s. w = sign @ s \<and> sign \<in> {[], ''-''} \<and> P s) \<longleftrightarrow> P w \<or> (\<exists>s. w = ''-'' @ s \<and> P s)"
  by (metis append_Nil insert_iff singletonD)

lemma no_exponent: "isInteger (CHR ''e'' # s) \<longleftrightarrow> False"
  using not_digits by (simp add: isInteger_def)

lemma float_chars_after_period: "float_chars True seen s \<longleftrightarrow> list_all isdigit s \<and> (seen \<or> s \<noteq> [])"
proof (induction s arbitrary: seen)
  case (Cons c s)
  then show ?case using not_digits no_exponent by auto
qed simp

text \<open>A fraction from where \<open>float_chars\<close> stands, which has seen a digit or not.\<close>

definition fraction_from :: "bool \<Rightarrow> string \<Rightarrow> bool" where
  "fraction_from seen s \<longleftrightarrow> (\<exists>ds es. s = ds @ ''.'' @ es \<and> digits ds \<and> digits es \<and> (seen \<or> ds @ es \<noteq> []))"

lemma fraction_from_Cons:
  "fraction_from seen (c # s) \<longleftrightarrow>
   (if c = CHR ''.'' then digits s \<and> (seen \<or> s \<noteq> []) else isdigit c \<and> fraction_from True s)"
proof (cases "c = CHR ''.''")
  case True
  have "ds = []" if "c # s = ds @ ''.'' @ es" "digits ds" for ds es
    using that True not_digits(2) by (cases ds) (auto simp: digits_isdigit)
  then have "fraction_from seen (c # s) \<longleftrightarrow> (\<exists>es. c # s = ''.'' @ es \<and> digits es \<and> (seen \<or> es \<noteq> []))"
    unfolding fraction_from_def by (metis append_Nil digits_isdigit list.pred_inject(1))
  then show ?thesis using True by simp
next
  case False
  have split: "\<exists>ds'. ds = c # ds' \<and> isdigit c \<and> s = ds' @ ''.'' @ es" if "c # s = ds @ ''.'' @ es" "digits ds" for ds es
    using that False by (cases ds) (auto simp: digits_isdigit)
  have "isdigit c \<and> fraction_from True s" if "fraction_from seen (c # s)"
  proof -
    obtain ds es where ds: "c # s = ds @ ''.'' @ es" "digits ds" "digits es"
      using \<open>fraction_from seen (c # s)\<close> unfolding fraction_from_def by blast
    obtain ds' where "ds = c # ds'" "isdigit c" "s = ds' @ ''.'' @ es" using split [OF ds(1,2)] by blast
    moreover from this have "digits ds'" using ds(2) by (simp add: digits_isdigit)
    ultimately show ?thesis using ds(3) unfolding fraction_from_def by blast
  qed
  moreover have "fraction_from seen (c # s)" if "isdigit c" "fraction_from True s"
  proof -
    obtain ds es where "s = ds @ ''.'' @ es" "digits ds" "digits es" using \<open>fraction_from True s\<close> by (auto simp: fraction_from_def)
    then have "c # s = (c # ds) @ ''.'' @ es" "digits (c # ds)" "digits es" "(c # ds) @ es \<noteq> []"
      using \<open>isdigit c\<close> by (simp_all add: digits_isdigit)
    then show ?thesis unfolding fraction_from_def by blast
  qed
  ultimately show ?thesis using False by auto
qed

lemma float_chars_exact:
  "float_chars False seen s \<longleftrightarrow> digits s \<and> (seen \<or> s \<noteq> []) \<or> fraction_from seen s"
proof (induction s arbitrary: seen)
  case Nil
  then show ?case by (simp add: fraction_from_def digits_isdigit)
next
  case (Cons c s)
  then show ?case
    using not_digits no_exponent by (auto simp: fraction_from_Cons digits_isdigit float_chars_after_period)
qed

lemma fraction_has_period: "fraction s \<Longrightarrow> \<not> digits s"
  using not_digits(2) by (auto simp: fraction_def digits_isdigit)

lemma unsigned:
  "s \<noteq> [] \<Longrightarrow> hd s = CHR ''-'' \<Longrightarrow> \<not> digits s" "s \<noteq> [] \<Longrightarrow> hd s = CHR ''-'' \<Longrightarrow> \<not> fraction s"
proof -
  assume s: "s \<noteq> []" "hd s = CHR ''-''"
  show "\<not> digits s" using s not_digits(1) by (cases s) (auto simp: digits_isdigit)
  have "\<not> fraction_from False s" using s not_digits(1) by (cases s) (auto simp: fraction_from_Cons)
  then show "\<not> fraction s" by (simp add: fraction_def fraction_from_def)
qed

lemma integer_word_exact: "w \<noteq> [] \<Longrightarrow> isInteger w \<longleftrightarrow> integer_word w"
  using unsigned(1) [of w] unfolding integer_word_def with_sign
  by (cases w) (auto simp: isInteger_def digits_isdigit)

lemma isFloat_exact: "isFloat w \<and> \<not> isInteger w \<longleftrightarrow> decimal_word w"
proof -
  have from0: "fraction_from False s \<longleftrightarrow> fraction s" for s by (simp add: fraction_def fraction_from_def)
  show ?thesis
  proof (cases "w \<noteq> [] \<and> hd w = CHR ''-''")
    case True
    then obtain s where w: "w = CHR ''-'' # s" by (cases w) auto
    have "decimal_word w \<longleftrightarrow> fraction s" using unsigned(2) [of w] True w unfolding decimal_word_def with_sign by auto
    moreover have "isFloat w \<longleftrightarrow> digits s \<and> s \<noteq> [] \<or> fraction s" "isInteger w \<longleftrightarrow> digits s"
      using w by (simp_all add: isFloat_def isInteger_def float_chars_exact from0 digits_isdigit)
    ultimately show ?thesis using fraction_has_period [of s] by blast
  next
    case False
    then have "decimal_word w \<longleftrightarrow> fraction w" unfolding decimal_word_def with_sign by auto
    moreover have "isFloat w \<longleftrightarrow> float_chars False False w" "isInteger w \<longleftrightarrow> w \<noteq> [] \<and> digits w"
      using False by (auto simp: isFloat_def isInteger_def digits_isdigit)
    moreover have "float_chars False False w \<longleftrightarrow> digits w \<and> w \<noteq> [] \<or> fraction w"
      by (simp add: float_chars_exact from0)
    ultimately show ?thesis using fraction_has_period [of w] by blast
  qed
qed

lemma strneq_word:
  assumes "NUL \<notin> set w"
  shows "strneq (w @ r) literal (length w) \<longleftrightarrow> begins literal w"
proof -
  have "strneq (w @ r) literal (length w) \<longleftrightarrow> w = take (length w) (literal @ [NUL])"
    by (simp add: strneq_def)
  also have "\<dots> \<longleftrightarrow> w = take (length w) literal"
  proof (cases "length w \<le> length literal")
    case False
    then have "take (length w) (literal @ [NUL]) = literal @ [NUL]" by simp
    moreover have "w \<noteq> literal @ [NUL]" using assms by auto
    moreover have "w \<noteq> take (length w) literal" using False by (metis length_take min.cobounded1)
    ultimately show ?thesis by simp
  qed simp
  finally show ?thesis unfolding begins_take .
qed

lemma word_ends:
  assumes "list_all isWordChar w" "r = [] \<or> \<not> isWordChar (hd r)"
  shows "dropWhile isWordChar (w @ r) = r"
  using assms by (induction w) (auto simp: dropWhile_eq_self_iff)

lemma first_char:
  "integer_word w \<Longrightarrow> w \<noteq> [] \<Longrightarrow> hd w = CHR ''-'' \<or> isdigit (hd w)"
  "decimal_word w \<Longrightarrow> hd w = CHR ''-'' \<or> hd w = CHR ''.'' \<or> isdigit (hd w)"
  "begins literal w \<Longrightarrow> w \<noteq> [] \<Longrightarrow> hd w = hd literal"
proof -
  show "integer_word w \<Longrightarrow> w \<noteq> [] \<Longrightarrow> hd w = CHR ''-'' \<or> isdigit (hd w)"
    unfolding integer_word_def with_sign by (cases w) (auto simp: digits_isdigit)
  have "hd s = CHR ''.'' \<or> isdigit (hd s)" if "fraction s" for s
  proof (cases s)
    case (Cons c s')
    have "fraction_from False (c # s')" using that Cons by (simp add: fraction_def fraction_from_def)
    then show ?thesis using Cons unfolding fraction_from_Cons by (simp split: if_splits)
  qed (use that in \<open>simp add: fraction_def\<close>)
  then show "decimal_word w \<Longrightarrow> hd w = CHR ''-'' \<or> hd w = CHR ''.'' \<or> isdigit (hd w)"
    unfolding decimal_word_def with_sign by auto
  show "begins literal w \<Longrightarrow> w \<noteq> [] \<Longrightarrow> hd w = hd literal"
    by (auto simp: begins_def)
qed

text \<open>C29: what a word of JSON text is taken for, for every word of letters, digits, periods and minus signs,
  whatever stands after it.  It is an integer exactly when it is digits after an optional minus sign (none at
  all, too, after the sign), a number with a fraction exactly when one period stands among digits, so never
  with an exponent, which the comment in the code promises and JSON has; it is one of the four literals
  exactly when the literal begins with it; and every other word is refused.\<close>
theorem word_token_exact:
  assumes "tok_begin tokP = w @ r" "tok_end tokP = w @ r"
    and "w \<noteq> []" "list_all isWordChar w" "r = [] \<or> \<not> isWordChar (hd r)"
  shows "case wordToken tokP of
      Inl f \<Rightarrow> code_of f = XMLRPC_PARSE_ERROR \<and> \<not> integer_word w \<and> \<not> decimal_word w \<and>
        \<not> begins ''null'' w \<and> \<not> begins ''undefined'' w \<and> \<not> begins ''false'' w \<and> \<not> begins ''true'' w
    | Inr tok \<Rightarrow> tok_begin tok = w @ r \<and> tok_end tok = r \<and> tok_size tok = length w \<and>
        tok_type tok \<in> {typeInteger, typeFloat, typeNull, typeUndefined, typeFalse, typeTrue} \<and>
        (tok_type tok = typeInteger \<longleftrightarrow> integer_word w) \<and> (tok_type tok = typeFloat \<longleftrightarrow> decimal_word w) \<and>
        (tok_type tok = typeNull \<longleftrightarrow> begins ''null'' w) \<and> (tok_type tok = typeUndefined \<longleftrightarrow> begins ''undefined'' w) \<and>
        (tok_type tok = typeFalse \<longleftrightarrow> begins ''false'' w) \<and> (tok_type tok = typeTrue \<longleftrightarrow> begins ''true'' w)"
proof -
  let ?tok = "finishAlphanumericWordToken tokP"
  have "list_all isWordChar (tl w)" using assms(3,4) by (cases w) auto
  then have "dropWhile isWordChar (tl (w @ r)) = r" using word_ends [OF _ assms(5)] assms(3) by simp
  then have tok: "tok_begin ?tok = w @ r" "tok_end ?tok = r" "tok_size ?tok = length w"
    using assms(1,2) by (simp_all add: finishAlphanumericWordToken_def)
  have "\<not> isWordChar NUL" by (simp add: isWordChar_def isalnum_def isdigit_def uchar_def)
  then have "NUL \<notin> set w" using assms(4) by (auto simp: list_all_iff)
  note lit = strneq_word [OF this]
  have plain: "\<not> isdigit (CHR ''n'')" "\<not> isdigit (CHR ''u'')" "\<not> isdigit (CHR ''f'')" "\<not> isdigit (CHR ''t'')"
    by (simp_all add: isdigit_def uchar_def)
  have int: "isInteger w \<longleftrightarrow> integer_word w" by (rule integer_word_exact [OF assms(3)])
  have dec: "isFloat w \<longleftrightarrow> decimal_word w" if "\<not> integer_word w" using isFloat_exact [of w] that int by simp
  have not_both: "\<not> (decimal_word w \<and> integer_word w)" using isFloat_exact [of w] int by auto
  have cases: "\<not> integer_word w \<and> \<not> decimal_word w" if "begins literal w" "literal \<in> {''null'', ''undefined'', ''false'', ''true''}" for literal
    using first_char(1,2) [of w] first_char(3) [OF that(1) assms(3)] assms(3) that(2) plain by auto
  have other: "literal = literal'" if "begins literal w" "begins literal' w"
      "literal \<in> {''null'', ''undefined'', ''false'', ''true''}" "literal' \<in> {''null'', ''undefined'', ''false'', ''true''}" for literal literal'
    using first_char(3) [OF that(1) assms(3)] first_char(3) [OF that(2) assms(3)] that(3,4) by auto
  show ?thesis
    unfolding wordToken_def Let_def tok
    using tok dec not_both cases [of "''null''"] cases [of "''undefined''"] cases [of "''false''"] cases [of "''true''"]
      other [of "''null''" "''undefined''"] other [of "''null''" "''false''"] other [of "''null''" "''true''"]
      other [of "''undefined''" "''false''"] other [of "''undefined''" "''true''"] other [of "''false''" "''true''"]
    by (simp add: int lit setParseErr_def case_prod_beta) blast
qed

text \<open>One letter is a literal; a number with an exponent is refused.\<close>

lemma word_token_exact_witness:
  "(\<exists>tok. wordToken (initializeTokenizer ''t]'') = Inr tok \<and> tok_type tok = typeTrue \<and> tok_end tok = '']'') \<and>
   (\<exists>f. wordToken (initializeTokenizer ''1.5e3,'') = Inl f \<and> code_of f = XMLRPC_PARSE_ERROR)"
proof -
  have word: "isWordChar (CHR ''t'')" "list_all isWordChar ''1.5e3''" "\<not> isWordChar (CHR '']'')" "\<not> isWordChar (CHR '','')"
    by (simp_all add: isWordChar_def isalnum_def isdigit_def uchar_def)
  have t: "begins ''true'' ''t''" by (simp add: begins_def)
  have n: "\<not> integer_word ''1.5e3''" "\<not> decimal_word ''1.5e3''"
    "\<not> begins ''null'' ''1.5e3''" "\<not> begins ''undefined'' ''1.5e3''" "\<not> begins ''false'' ''1.5e3''" "\<not> begins ''true'' ''1.5e3''"
    using isFloat_exact [of "''1.5e3''"] integer_word_exact [of "''1.5e3''"]
    by (simp_all add: begins_def isFloat_def isInteger_def isdigit_def uchar_def)
  have "\<exists>tok. wordToken (initializeTokenizer ''t]'') = Inr tok \<and> tok_type tok = typeTrue \<and> tok_end tok = '']''"
    using word_token_exact [of "initializeTokenizer ''t]''" "''t''" "'']''"] word t
    by (auto simp: initializeTokenizer_def split: sum.splits)
  moreover have "\<exists>f. wordToken (initializeTokenizer ''1.5e3,'') = Inl f \<and> code_of f = XMLRPC_PARSE_ERROR"
    using word_token_exact [of "initializeTokenizer ''1.5e3,''" "''1.5e3''" "'',''"] word n
    by (auto simp: initializeTokenizer_def split: sum.splits)
  ultimately show ?thesis by blast
qed

end
