(* ===== verification/Json_Text.thy ===== *)
theory Json_Text
  imports Json
begin

text \<open>
  JSON text from values (\<open>src/json.c\<close>, second half), and the round trip.  The output block is passed from
  step to step.  Where the code goes on after a fault, the next step trips its assertion that there is none
  (\<open>asserting\<close>).  \<open>fmt_e\<close> is the text of a double by \<open>%e\<close>.
\<close>

section \<open>Steps of output\<close>

type_synonym json_step = "char mem_block \<Rightarrow> char mem_block result option"

definition asserting :: "json_step \<Rightarrow> json_step \<Rightarrow> json_step" where
  "asserting m k b = (case m b of Some (Inr b') \<Rightarrow> k b' | _ \<Rightarrow> None)"

definition append_text :: "(nat \<Rightarrow> bool) \<Rightarrow> string \<Rightarrow> json_step" where
  "append_text mok t b = Some (mem_block_append mok 1 b t)"

text \<open>The buffer has 1024 characters; a text of 1023 or more is taken as an overflow.\<close>

definition json_formatOut :: "(nat \<Rightarrow> bool) \<Rightarrow> piece list \<Rightarrow> json_step" where
  "json_formatOut mok format outputP =
     (let formatted = vformat format in
      if 1024 \<le> length formatted + 1
      then Some (Inl (faultf [Txt ''formatOut() overflowed internal buffer'']))
      else append_text mok formatted outputP)"

text \<open>The level is an unsigned 32-bit number.\<close>

definition indent :: "(nat \<Rightarrow> bool) \<Rightarrow> nat \<Rightarrow> json_step" where
  "indent mok level outP = foldO (\<lambda>b t. append_text mok t b) outP (replicate (level * 2 mod 2 ^ 32) '' '')"

section \<open>Strings\<close>

definition slash_char :: "char \<Rightarrow> char option" where
  "slash_char c =
     (if c = CHR 0x22 then Some (CHR 0x22)
      else if c = CHR 0x5C then Some (CHR 0x5C)
      else if c = CHR 0x08 then Some (CHR ''b'')
      else if c = CHR 0x0C then Some (CHR ''f'')
      else if c = LF then Some (CHR ''n'')
      else if c = CR then Some (CHR ''r'')
      else if c = TAB then Some (CHR ''t'')
      else None)"

text \<open>What \<open>sprintf\<close> writes to a place where \<open>room\<close> characters are left, its NUL among them; a longer text is
  written past the end.\<close>

definition sprintf_into :: "nat \<Rightarrow> piece list \<Rightarrow> string option" where
  "sprintf_into room format = (if length (vformat format) + 1 \<le> room then Some (vformat format) else None)"

abbreviation SIZEOF_ESCAPE_BUFFER :: nat where "SIZEOF_ESCAPE_BUFFER \<equiv> 6"

text \<open>The part of the buffer that is appended: the backslash and the character after it, and where that is a
  \<open>u\<close> (\<open>None\<close>) what \<open>sprintf\<close> puts from the third place on.\<close>

definition escape_sequence :: "char \<Rightarrow> string option" where
  "escape_sequence c =
     (case slash_char c of
        Some slashChar \<Rightarrow> Some [CHR 0x5C, slashChar]
      | None \<Rightarrow> map_option (\<lambda>t. take 6 ([CHR 0x5C, CHR ''u''] @ t))
                  (sprintf_into (SIZEOF_ESCAPE_BUFFER - 2) [PctX 4 (uchar c)]))"

definition appendEscapeSeq :: "(nat \<Rightarrow> bool) \<Rightarrow> char \<Rightarrow> json_step" where
  "appendEscapeSeq mok c outP =
     (case escape_sequence c of None \<Rightarrow> None | Some buffer \<Rightarrow> append_text mok buffer outP)"

definition needs_escape :: "char \<Rightarrow> bool" where
  "needs_escape c \<longleftrightarrow> uchar c < 0x1F \<or> c = CHR 0x22 \<or> c = CHR 0x5C"

text \<open>\<open>pending\<close> is the text from \<open>last\<close> to \<open>cur\<close>; after a fault it is appended all the same.
  The block is given back after a fault; a fault has no block here.\<close>

fun json_string_loop :: "(nat \<Rightarrow> bool) \<Rightarrow> string \<Rightarrow> string \<Rightarrow> json_step" where
  "json_string_loop mok pending [] outP =
     (if pending \<noteq> [] then append_text mok pending outP else Some (Inr outP))"
| "json_string_loop mok pending (c # s) outP =
     (if needs_escape c
      then
        (case append_text mok pending outP of
           None \<Rightarrow> None
         | Some (Inl f) \<Rightarrow> if pending \<noteq> [] then None else Some (Inl f)
         | Some (Inr b) \<Rightarrow> bindO (appendEscapeSeq mok c b) (json_string_loop mok [] s))
      else json_string_loop mok (pending @ [c]) s outP)"

definition makeJsonString :: "(nat \<Rightarrow> bool) \<Rightarrow> string \<Rightarrow> json_step" where
  "makeJsonString mok value outP = json_string_loop mok [] value outP"

definition makeJsonStringFromXmlRpc :: "(nat \<Rightarrow> bool) \<Rightarrow> 'd xvalue \<Rightarrow> json_step" where
  "makeJsonStringFromXmlRpc mok valP outP =
     bindO (Some (xmlrpc_read_string_lp mok valP)) (\<lambda>(n, value). makeJsonString mok (take n value) outP)"

definition QUOTE :: string where
  "QUOTE = [CHR 0x22]"

section \<open>Simple values\<close>

definition serializeInt :: "(nat \<Rightarrow> bool) \<Rightarrow> 32 word \<Rightarrow> json_step" where
  "serializeInt mok value = json_formatOut mok [PctD (sint value)]"

definition serializeI8 :: "(nat \<Rightarrow> bool) \<Rightarrow> 64 word \<Rightarrow> json_step" where
  "serializeI8 mok value = json_formatOut mok [PctD (sint value)]"

definition serializeBool :: "(nat \<Rightarrow> bool) \<Rightarrow> 32 word \<Rightarrow> json_step" where
  "serializeBool mok value = json_formatOut mok [PctS (if value \<noteq> 0 then ''true'' else ''false'')]"

definition serializeDouble :: "('d \<Rightarrow> string) \<Rightarrow> (nat \<Rightarrow> bool) \<Rightarrow> 'd \<Rightarrow> json_step" where
  "serializeDouble fmt_e mok value = json_formatOut mok [PctS (fmt_e value)]"

definition json_datetime :: "xmlrpc_datetime \<Rightarrow> string" where
  "json_datetime dt =
     dec_digits (dt_Y dt) @ pad_u 2 (dt_M dt) @ pad_u 2 (dt_D dt) @ ''T'' @
     pad_u 2 (dt_h dt) @ '':'' @ pad_u 2 (dt_m dt) @ '':'' @ pad_u 2 (dt_s dt)"

definition json_serializeDatetime :: "(nat \<Rightarrow> bool) \<Rightarrow> xmlrpc_datetime \<Rightarrow> json_step" where
  "json_serializeDatetime mok dt = json_formatOut mok [Txt QUOTE, Txt (json_datetime dt), Txt QUOTE]"

definition serializeString :: "(nat \<Rightarrow> bool) \<Rightarrow> 'd xvalue \<Rightarrow> json_step" where
  "serializeString mok valP =
     asserting (asserting (json_formatOut mok [Txt QUOTE]) (makeJsonStringFromXmlRpc mok valP)) (json_formatOut mok [Txt QUOTE])"

definition serializeBitstring :: "(nat \<Rightarrow> bool) \<Rightarrow> 'd xvalue \<Rightarrow> json_step" where
  "serializeBitstring mok valP outP =
     bindO (Some (xmlrpc_read_base64 mok valP)) (\<lambda>(size, bytes).
     bindO (Some (xmlrpc_base64_encode mok bytes)) (\<lambda>base64P.
     bindO (asserting (json_formatOut mok [Txt QUOTE]) (append_text mok (block_data 1 base64P)) outP)
       (json_formatOut mok [Txt QUOTE])))"

section \<open>Arrays and structs\<close>

text \<open>\<open>serialize\<close> is \<open>serializeValue\<close> for a part, one level down.\<close>

fun array_items_out :: "(nat \<Rightarrow> bool) \<Rightarrow> ('v \<Rightarrow> json_step) \<Rightarrow> 'v list \<Rightarrow> json_step" where
  "array_items_out mok serialize [] outP = Some (Inr outP)"
| "array_items_out mok serialize [v] outP = serialize v outP"
| "array_items_out mok serialize (v # vs) outP =
     bindO (asserting (serialize v) (append_text mok ('','' @ [LF])) outP) (array_items_out mok serialize vs)"

definition json_serializeArray :: "(nat \<Rightarrow> bool) \<Rightarrow> nat \<Rightarrow> ('v \<Rightarrow> json_step) \<Rightarrow> 'v list \<Rightarrow> json_step" where
  "json_serializeArray mok level serialize items outP =
     bindO (json_formatOut mok [Txt (''['' @ [LF])] outP) (\<lambda>b1.
     bindO (array_items_out mok serialize items b1) (\<lambda>b2.
     bindO (append_text mok [LF] b2) (\<lambda>b3.
     bindO (indent mok level b3)
       (append_text mok '']''))))"

text \<open>A key is a string value, and serialized like one.\<close>

definition serialize_key :: "(nat \<Rightarrow> bool) \<Rightarrow> nat \<Rightarrow> string \<Rightarrow> json_step" where
  "serialize_key mok level k = asserting (indent mok level) (serializeString mok (XString k :: unit xvalue))"

definition json_serializeStructMember :: "(nat \<Rightarrow> bool) \<Rightarrow> nat \<Rightarrow> ('v \<Rightarrow> json_step) \<Rightarrow> string \<times> 'v \<Rightarrow> json_step" where
  "json_serializeStructMember mok level serialize kv outP =
     bindO (serialize_key mok level (fst kv) outP) (\<lambda>b1.
     bindO (json_formatOut mok [Txt '':''] b1)
       (serialize (snd kv)))"

fun struct_members_out :: "(nat \<Rightarrow> bool) \<Rightarrow> nat \<Rightarrow> ('v \<Rightarrow> json_step) \<Rightarrow> (string \<times> 'v) list \<Rightarrow> json_step" where
  "struct_members_out mok level serialize [] outP = Some (Inr outP)"
| "struct_members_out mok level serialize [kv] outP = json_serializeStructMember mok level serialize kv outP"
| "struct_members_out mok level serialize (kv # kvs) outP =
     bindO (json_serializeStructMember mok level serialize kv outP) (\<lambda>b1.
     bindO (append_text mok ('','' @ [LF]) b1)
       (struct_members_out mok level serialize kvs))"

definition json_serializeStruct :: "(nat \<Rightarrow> bool) \<Rightarrow> nat \<Rightarrow> ('v \<Rightarrow> json_step) \<Rightarrow> (string \<times> 'v) list \<Rightarrow> json_step" where
  "json_serializeStruct mok level serialize members outP =
     bindO (json_formatOut mok [Txt (''{'' @ [LF])] outP) (\<lambda>b1.
     bindO (struct_members_out mok (level + 1) serialize members b1)
       (asserting
          (\<lambda>b2. bindO (append_text mok [LF] b2) (indent mok level))
          (append_text mok ''}'')))"

lemma array_items_out_cong [fundef_cong]:
  assumes "items = items'" "outP = outP'" and "\<And>v b. v \<in> set items' \<Longrightarrow> ser v b = ser' v b"
  shows "array_items_out mok ser items outP = array_items_out mok ser' items' outP'"
proof -
  have "array_items_out mok ser items' b = array_items_out mok ser' items' b" for b
    using assms(3)
  proof (induction items' arbitrary: b rule: induct_list012)
    case (3 v w vs)
    have "array_items_out mok ser (w # vs) = array_items_out mok ser' (w # vs)"
      using 3 by (intro ext) simp
    moreover have "asserting (ser v) k = asserting (ser' v) k" for k
      using 3(3) by (simp add: asserting_def fun_eq_iff)
    ultimately show ?case by simp
  qed simp_all
  with assms show ?thesis by simp
qed

lemma json_serializeArray_cong [fundef_cong]:
  assumes "items = items'" "outP = outP'" and "\<And>v b. v \<in> set items' \<Longrightarrow> ser v b = ser' v b"
  shows "json_serializeArray mok level ser items outP = json_serializeArray mok level ser' items' outP'"
  using array_items_out_cong [OF assms(1) refl assms(3)] assms(2) by (simp add: json_serializeArray_def)

lemma json_serializeStruct_cong [fundef_cong]:
  assumes "members = members'" "outP = outP'" and "\<And>k v b. (k, v) \<in> set members' \<Longrightarrow> ser v b = ser' v b"
  shows "json_serializeStruct mok level ser members outP = json_serializeStruct mok level ser' members' outP'"
proof -
  have "struct_members_out mok n ser members' b = struct_members_out mok n ser' members' b" for n b
    using assms(3)
  proof (induction members' arbitrary: b rule: induct_list012)
    case 1
    then show ?case by simp
  next
    case (2 kv)
    have "ser (snd kv) = ser' (snd kv)" using 2 [of "fst kv" "snd kv"] by (simp add: fun_eq_iff)
    then show ?case by (simp add: json_serializeStructMember_def)
  next
    case (3 kv kw kvs)
    have "struct_members_out mok n ser (kw # kvs) b = struct_members_out mok n ser' (kw # kvs) b" for b
      by (rule 3(2), rule 3(3)) auto
    then have "struct_members_out mok n ser (kw # kvs) = struct_members_out mok n ser' (kw # kvs)" by blast
    moreover have "ser (snd kv) = ser' (snd kv)" using 3(3) [of "fst kv" "snd kv"] by (simp add: fun_eq_iff)
    ultimately show ?case by (simp add: json_serializeStructMember_def)
  qed
  with assms(1,2) show ?thesis by (simp add: json_serializeStruct_def)
qed

text \<open>
  Only three of the cases look at the environment before they use it: after a fault in the indentation, a
  struct and a byte string are skipped, and a C pointer replaces the fault.
\<close>

fun serializeValue :: "('d \<Rightarrow> string) \<Rightarrow> (nat \<Rightarrow> bool) \<Rightarrow> nat \<Rightarrow> 'd xvalue \<Rightarrow> json_step" where
  "serializeValue fmt_e mok level (XInt i) outP = asserting (indent mok level) (serializeInt mok i) outP"
| "serializeValue fmt_e mok level (XI8 i) outP = asserting (indent mok level) (serializeI8 mok i) outP"
| "serializeValue fmt_e mok level (XBool b) outP = asserting (indent mok level) (serializeBool mok b) outP"
| "serializeValue fmt_e mok level (XDouble d) outP = asserting (indent mok level) (serializeDouble fmt_e mok d) outP"
| "serializeValue fmt_e mok level (XDatetime dt) outP = asserting (indent mok level) (json_serializeDatetime mok dt) outP"
| "serializeValue fmt_e mok level (XString s) outP =
     asserting (indent mok level) (serializeString mok (XString s :: 'd xvalue)) outP"
| "serializeValue fmt_e mok level (XBase64 bytes) outP =
     bindO (indent mok level outP) (serializeBitstring mok (XBase64 bytes :: 'd xvalue))"
| "serializeValue fmt_e mok level (XArray vs) outP =
     (case indent mok level outP of
        Some (Inr b) \<Rightarrow> json_serializeArray mok level (\<lambda>v. serializeValue fmt_e mok (level + 1) v) vs b
      | _ \<Rightarrow> None)"
| "serializeValue fmt_e mok level (XStruct kvs) outP =
     (case indent mok level outP of
        Some (Inr b) \<Rightarrow> json_serializeStruct mok level (\<lambda>v. serializeValue fmt_e mok (level + 1) v) kvs b
      | r \<Rightarrow> r)"
| "serializeValue fmt_e mok level (XCptr p) outP =
     Some (Inl (faultf [Txt ''Tried to serialize a C pointer value.'']))"
| "serializeValue fmt_e mok level XNil outP = asserting (indent mok level) (json_formatOut mok [Txt ''null'']) outP"

definition xmlrpc_serialize_json :: "('d \<Rightarrow> string) \<Rightarrow> (nat \<Rightarrow> bool) \<Rightarrow> 'd xvalue \<Rightarrow> json_step" where
  "xmlrpc_serialize_json fmt_e mok valP outP = serializeValue fmt_e mok 0 valP outP"


section \<open>The text\<close>

definition json_char :: "char \<Rightarrow> string" where
  "json_char c = (if needs_escape c then (case slash_char c of None \<Rightarrow> [] | Some e \<Rightarrow> [CHR 0x5C, e]) else [c])"

definition json_chars :: "string \<Rightarrow> string" where
  "json_chars s = concat (map json_char s)"

definition spaces :: "nat \<Rightarrow> string" where
  "spaces level = replicate (level * 2 mod 2 ^ 32) (CHR '' '')"

definition quoted :: "string \<Rightarrow> string" where
  "quoted s = QUOTE @ s @ QUOTE"

fun separated :: "string list \<Rightarrow> string" where
  "separated [] = []"
| "separated [t] = t"
| "separated (t # ts) = t @ '','' @ [LF] @ separated ts"

definition bracketed :: "nat \<Rightarrow> char \<Rightarrow> string list \<Rightarrow> char \<Rightarrow> string" where
  "bracketed level a ts z = [a, LF] @ separated ts @ [LF] @ spaces level @ [z]"

text \<open>A value without its indentation.\<close>

fun json_body :: "('d \<Rightarrow> string) \<Rightarrow> nat \<Rightarrow> 'd xvalue \<Rightarrow> string" where
  "json_body fmt_e level (XInt i) = show_d (sint i)"
| "json_body fmt_e level (XI8 i) = show_d (sint i)"
| "json_body fmt_e level (XBool b) = (if b \<noteq> 0 then ''true'' else ''false'')"
| "json_body fmt_e level (XDouble d) = fmt_e d"
| "json_body fmt_e level (XDatetime dt) = quoted (json_datetime dt)"
| "json_body fmt_e level (XString s) = quoted (json_chars s)"
| "json_body fmt_e level (XBase64 bytes) = quoted (base64_lines bytes)"
| "json_body fmt_e level (XArray vs) =
     bracketed level (CHR ''['') (map (\<lambda>v. spaces (level + 1) @ json_body fmt_e (level + 1) v) vs) (CHR '']'')"
| "json_body fmt_e level (XStruct kvs) =
     bracketed level (CHR ''{'')
       (map (\<lambda>(k, v). spaces (level + 1) @ quoted (json_chars k) @ '':'' @ spaces (level + 1) @ json_body fmt_e (level + 1) v) kvs)
       (CHR ''}'')"
| "json_body fmt_e level (XCptr p) = []"
| "json_body fmt_e level XNil = ''null''"

definition json_text :: "('d \<Rightarrow> string) \<Rightarrow> nat \<Rightarrow> 'd xvalue \<Rightarrow> string" where
  "json_text fmt_e level v = spaces level @ json_body fmt_e level v"

text \<open>What can be written at all: no character that needs a Unicode escape, no C pointer, and no text that
  overflows the buffer.\<close>

lemma pad_x_length: "w \<le> length (pad_x w i)"
  by (simp add: pad_x_def Let_def)

text \<open>Four hexadecimal digits and a NUL do not fit the four characters left in the buffer.\<close>

lemma escape_sequence_slash: "escape_sequence c = map_option (\<lambda>e. [CHR 0x5C, e]) (slash_char c)"
  using pad_x_length [of 4 "uchar c"]
  by (simp add: escape_sequence_def sprintf_into_def vformat_def split: option.split)

definition escapable :: "string \<Rightarrow> bool" where
  "escapable s \<longleftrightarrow> (\<forall>c \<in> set s. needs_escape c \<longrightarrow> slash_char c \<noteq> None)"

fun json_writable :: "('d \<Rightarrow> string) \<Rightarrow> 'd xvalue \<Rightarrow> bool" where
  "json_writable fmt_e (XDouble d) \<longleftrightarrow> length (fmt_e d) < 1023"
| "json_writable fmt_e (XDatetime dt) \<longleftrightarrow> length (json_datetime dt) < 1021"
| "json_writable fmt_e (XString s) \<longleftrightarrow> escapable s"
| "json_writable fmt_e (XArray vs) \<longleftrightarrow> (\<forall>v \<in> set vs. json_writable fmt_e v)"
| "json_writable fmt_e (XStruct kvs) \<longleftrightarrow> (\<forall>(k, v) \<in> set kvs. escapable k \<and> json_writable fmt_e v)"
| "json_writable fmt_e (XCptr p) \<longleftrightarrow> False"
| "json_writable fmt_e _ \<longleftrightarrow> True"

section \<open>The serializer writes the text\<close>

text \<open>
  What a step adds to a block when it succeeds; a strict step succeeds while the text fits a block.  Writing
  with whatever memory there is follows the first part, writing with memory at hand both.
\<close>

definition json_writes :: "bool \<Rightarrow> json_step \<Rightarrow> string \<Rightarrow> bool" where
  "json_writes strict m t \<longleftrightarrow>
     (\<forall>b. grown_block 1 b \<longrightarrow>
        (case m b of
           Some (Inr b') \<Rightarrow> grown_block 1 b' \<and> block_data 1 b' = block_data 1 b @ t
         | _ \<Rightarrow> strict \<longrightarrow> BLOCK_ALLOC_MAX < length (block_data 1 b) + length t))"

lemma json_writes_Some:
  "json_writes strict m t \<Longrightarrow> grown_block 1 b \<Longrightarrow> m b = Some (Inr b') \<Longrightarrow>
   grown_block 1 b' \<and> block_data 1 b' = block_data 1 b @ t"
  unfolding json_writes_def by fastforce

lemma json_writes_fits:
  assumes "json_writes True m t" "grown_block 1 b" "length (block_data 1 b) + length t \<le> BLOCK_ALLOC_MAX"
  obtains b' where "m b = Some (Inr b')" "grown_block 1 b'" "block_data 1 b' = block_data 1 b @ t"
  using assms unfolding json_writes_def by (fastforce split: option.splits sum.splits)

lemma json_writesI:
  assumes "\<And>b b'. grown_block 1 b \<Longrightarrow> m b = Some (Inr b') \<Longrightarrow> grown_block 1 b' \<and> block_data 1 b' = block_data 1 b @ t"
    and "\<And>b. strict \<Longrightarrow> grown_block 1 b \<Longrightarrow> length (block_data 1 b) + length t \<le> BLOCK_ALLOC_MAX \<Longrightarrow> \<exists>b'. m b = Some (Inr b')"
  shows "json_writes strict m t"
  unfolding json_writes_def
proof (intro allI impI)
  fix b :: "char mem_block" assume b: "grown_block 1 b"
  show "case m b of Some (Inr b') \<Rightarrow> grown_block 1 b' \<and> block_data 1 b' = block_data 1 b @ t
      | _ \<Rightarrow> strict \<longrightarrow> BLOCK_ALLOC_MAX < length (block_data 1 b) + length t"
  proof (cases "\<exists>b'. m b = Some (Inr b')")
    case True
    then show ?thesis using assms(1) [OF b] by auto
  next
    case False
    then have "strict \<longrightarrow> BLOCK_ALLOC_MAX < length (block_data 1 b) + length t"
      using assms(2) [OF _ b] by (meson not_le)
    with False show ?thesis by (auto split: option.split sum.split)
  qed
qed

lemma json_writes_skip: "json_writes strict (\<lambda>b. Some (Inr b)) []"
  by (simp add: json_writes_def)

lemma json_writes_eq: "json_writes strict m t \<Longrightarrow> t = t' \<Longrightarrow> json_writes strict m t'"
  by simp

lemma json_writes_never: "\<not> strict \<Longrightarrow> (\<And>b b'. m b \<noteq> Some (Inr b')) \<Longrightarrow> json_writes strict m t"
  by (simp add: json_writes_def split: option.split sum.split)

lemma json_writes_bind:
  assumes m: "json_writes strict m s" and k: "json_writes strict k t"
  shows "json_writes strict (\<lambda>b. bindO (m b) k) (s @ t)"
proof (rule json_writesI)
  fix b b' :: "char mem_block" assume b: "grown_block 1 b" "bindO (m b) k = Some (Inr b')"
  then obtain b1 where b1: "m b = Some (Inr b1)" "k b1 = Some (Inr b')"
    by (auto simp: bindO_def split: option.splits sum.splits)
  note first = json_writes_Some [OF m b(1) b1(1)]
  have "grown_block 1 b' \<and> block_data 1 b' = block_data 1 b1 @ t"
    by (rule json_writes_Some [OF k _ b1(2)]) (use first in blast)
  then show "grown_block 1 b' \<and> block_data 1 b' = block_data 1 b @ s @ t"
    using first by simp
next
  fix b :: "char mem_block" assume strict and b: "grown_block 1 b" "length (block_data 1 b) + length (s @ t) \<le> BLOCK_ALLOC_MAX"
  then have m: "json_writes True m s" and k: "json_writes True k t" using m k by simp_all
  have "length (block_data 1 b) + length s \<le> BLOCK_ALLOC_MAX" using b(2) by simp
  then obtain b1 where b1: "m b = Some (Inr b1)" "grown_block 1 b1" "block_data 1 b1 = block_data 1 b @ s"
    using json_writes_fits [OF m b(1)] by blast
  moreover have "length (block_data 1 b1) + length t \<le> BLOCK_ALLOC_MAX" using b(2) b1(3) by simp
  then obtain b2 where "k b1 = Some (Inr b2)" using json_writes_fits [OF k b1(2)] by blast
  ultimately show "\<exists>b'. bindO (m b) k = Some (Inr b')" by simp
qed

text \<open>When the first step succeeds, going on with or without a look at the environment is the same.\<close>

lemma json_writes_same_success:
  assumes "json_writes strict m t" "\<And>b b'. m' b = Some (Inr b') \<longleftrightarrow> m b = Some (Inr b')"
  shows "json_writes strict m' t"
proof (rule json_writesI)
  fix b b' :: "char mem_block" assume "grown_block 1 b" "m' b = Some (Inr b')"
  then show "grown_block 1 b' \<and> block_data 1 b' = block_data 1 b @ t"
    using json_writes_Some [OF assms(1)] assms(2) by blast
next
  fix b :: "char mem_block" assume strict "grown_block 1 b" "length (block_data 1 b) + length t \<le> BLOCK_ALLOC_MAX"
  then obtain b' where "m b = Some (Inr b')" using assms(1) by (auto elim: json_writes_fits)
  then show "\<exists>b'. m' b = Some (Inr b')" using assms(2) by blast
qed

lemma json_writes_asserting:
  assumes "json_writes strict m s" "json_writes strict k t"
  shows "json_writes strict (asserting m k) (s @ t)"
  by (rule json_writes_same_success [OF json_writes_bind [OF assms]])
    (simp add: asserting_def bindO_def split: option.split sum.split)

lemma json_writes_after:
  assumes "\<And>x. r = Inr x \<Longrightarrow> json_writes strict (k x) t" "strict \<Longrightarrow> length t \<le> BLOCK_ALLOC_MAX \<Longrightarrow> \<exists>x. r = Inr x"
  shows "json_writes strict (\<lambda>b. bindO (Some r) (\<lambda>x. k x b)) t"
proof (cases r)
  case (Inl f)
  with assms(2) show ?thesis by (auto intro!: json_writesI)
qed (use assms(1) in simp)

locale json_writer =
  fixes mok :: "nat \<Rightarrow> bool" and strict :: bool
  assumes enough: "strict \<Longrightarrow> mok = always"
begin

lemma append: "json_writes strict (append_text mok t) t"
proof (rule json_writesI)
  fix b b' :: "char mem_block" assume "grown_block 1 b" "append_text mok t b = Some (Inr b')"
  then show "grown_block 1 b' \<and> block_data 1 b' = block_data 1 b @ t"
    using mem_block_append_grown [of 1 b mok t b'] by (simp add: append_text_def)
next
  fix b :: "char mem_block" assume strict "grown_block 1 b" "length (block_data 1 b) + length t \<le> BLOCK_ALLOC_MAX"
  then show "\<exists>b'. append_text mok t b = Some (Inr b')"
    using memblock_roomy.append_fits [of b t] enough by (auto simp: append_text_def)
qed

lemma format:
  assumes "strict \<longrightarrow> length (vformat ps) < 1023"
  shows "json_writes strict (json_formatOut mok ps) (vformat ps)"
proof (cases "1024 \<le> length (vformat ps) + 1")
  case True
  then have "json_formatOut mok ps = (\<lambda>b. Some (Inl (faultf [Txt ''formatOut() overflowed internal buffer''])))"
    by (simp add: json_formatOut_def fun_eq_iff)
  then show ?thesis using True assms by (auto intro: json_writes_never)
next
  case False
  then have "json_formatOut mok ps = append_text mok (vformat ps)" by (simp add: json_formatOut_def fun_eq_iff)
  then show ?thesis by (simp add: append)
qed

lemma format_short: "length (vformat ps) < 1023 \<Longrightarrow> vformat ps = t \<Longrightarrow> json_writes strict (json_formatOut mok ps) t"
  using format [of ps] by simp

lemma fold:
  assumes "\<And>x. x \<in> set xs \<Longrightarrow> json_writes strict (\<lambda>b. f b x) (g x)"
  shows "json_writes strict (\<lambda>b. foldO f b xs) (concat (map g xs))"
  using assms
proof (induction xs)
  case (Cons x xs)
  then have "json_writes strict (\<lambda>b. bindO (f b x) (\<lambda>b'. foldO f b' xs)) (g x @ concat (map g xs))"
    by (intro json_writes_bind) simp_all
  then show ?case by simp
qed (simp add: json_writes_skip)

lemma indent: "json_writes strict (indent mok level) (spaces level)"
proof -
  have "json_writes strict (\<lambda>b. foldO (\<lambda>b t. append_text mok t b) b (replicate (level * 2 mod 2 ^ 32) '' ''))
      (concat (map id (replicate (level * 2 mod 2 ^ 32) '' '')))"
    by (rule fold) (simp add: append)
  moreover have "concat (replicate n '' '') = replicate n (CHR '' '')" for n by (induction n) simp_all
  ultimately show ?thesis by (simp add: indent_def [abs_def] spaces_def)
qed

lemma string_loop:
  assumes "strict \<longrightarrow> escapable s"
  shows "json_writes strict (json_string_loop mok pending s) (pending @ json_chars s)"
  using assms
proof (induction s arbitrary: pending)
  case Nil
  then show ?case
  proof (cases "pending = []")
    case True
    then show ?thesis using json_writes_skip by (simp add: json_chars_def json_string_loop.simps(1) [abs_def])
  next
    case False
    then show ?thesis using append [of pending] by (simp add: json_chars_def json_string_loop.simps(1) [abs_def])
  qed
next
  case (Cons c s)
  show ?case
  proof (cases "needs_escape c")
    case False
    then show ?thesis using Cons.IH [of "pending @ [c]"] Cons.prems
      by (simp add: json_chars_def json_char_def escapable_def json_string_loop.simps(2) [abs_def])
  next
    case True
    have rest: "json_writes strict (json_string_loop mok [] s) ([] @ json_chars s)"
      by (rule Cons.IH) (use Cons.prems in \<open>simp add: escapable_def\<close>)
    have esc: "json_writes strict (appendEscapeSeq mok c) (json_char c)"
    proof (cases "slash_char c")
      case None
      then have "\<not> strict" using True Cons.prems by (auto simp: escapable_def)
      with None show ?thesis by (intro json_writes_never) (simp_all add: appendEscapeSeq_def escape_sequence_slash)
    next
      case (Some e)
      with True show ?thesis using append [of "[CHR 0x5C, e]"] by (simp add: appendEscapeSeq_def [abs_def] escape_sequence_slash json_char_def)
    qed
    have "json_writes strict
        (\<lambda>b. bindO (append_text mok pending b) (\<lambda>b. bindO (appendEscapeSeq mok c b) (json_string_loop mok [] s)))
        (pending @ json_char c @ json_chars s)"
      using rest by (intro json_writes_bind append esc) simp
    then have "json_writes strict (json_string_loop mok pending (c # s)) (pending @ json_char c @ json_chars s)"
      by (rule json_writes_same_success)
        (simp add: True bindO_def split: option.split sum.split)
    then show ?thesis by (simp add: json_chars_def del: json_string_loop.simps)
  qed
qed

lemma quote: "json_writes strict (json_formatOut mok [Txt QUOTE]) QUOTE"
  by (rule format_short) (simp_all add: vformat_def QUOTE_def)

lemma string:
  assumes "strict \<longrightarrow> escapable s"
  shows "json_writes strict (serializeString mok (XString s)) (quoted (json_chars s))"
proof -
  have body: "json_writes strict (makeJsonStringFromXmlRpc mok (XString s)) (json_chars s)"
    unfolding makeJsonStringFromXmlRpc_def [abs_def] case_prod_beta'
  proof (rule json_writes_after)
    fix x assume "xmlrpc_read_string_lp mok (XString s) = Inr x"
    then have "x = (length s, s @ [NUL])"
      by (auto simp: xmlrpc_read_string_lp_def validateStringType_def string_block_def bindE_Inr_conv Let_def split: if_splits)
    then show "json_writes strict (makeJsonString mok (take (fst x) (snd x))) (json_chars s)"
      using string_loop [OF assms, of "[]"] by (simp add: makeJsonString_def [abs_def])
  next
    assume strict
    then show "\<exists>x. xmlrpc_read_string_lp mok (XString s) = Inr x"
      using enough by (simp add: xmlrpc_read_string_lp_def validateStringType_def always_def Let_def)
  qed
  show ?thesis
    unfolding serializeString_def
    by (rule json_writes_eq [OF json_writes_asserting [OF json_writes_asserting [OF quote body] quote]])
      (simp add: quoted_def)
qed

end


context json_writer begin

lemma bitstring: "json_writes strict (serializeBitstring mok (XBase64 bytes)) (quoted (base64_lines bytes))"
  unfolding serializeBitstring_def [abs_def] case_prod_beta'
proof (rule json_writes_after)
  fix x assume "xmlrpc_read_base64 mok (XBase64 bytes) = Inr x"
  then have x: "snd x = bytes"
    by (auto simp: xmlrpc_read_base64_def bindE_Inr_conv Let_def split: if_splits)
  show "json_writes strict
      (\<lambda>outP. bindO (Some (xmlrpc_base64_encode mok (snd x)))
         (\<lambda>e. bindO (asserting (json_formatOut mok [Txt QUOTE]) (append_text mok (block_data 1 e)) outP)
            (json_formatOut mok [Txt QUOTE]))) (quoted (base64_lines bytes))"
    unfolding x
  proof (rule json_writes_after)
    fix e assume "xmlrpc_base64_encode mok bytes = Inr e"
    then have "block_data 1 e = base64_lines bytes" by (rule base64_data)
    then show "json_writes strict
        (\<lambda>outP. bindO (asserting (json_formatOut mok [Txt QUOTE]) (append_text mok (block_data 1 e)) outP)
           (json_formatOut mok [Txt QUOTE])) (quoted (base64_lines bytes))"
      by (intro json_writes_eq [OF json_writes_bind [OF json_writes_asserting [OF quote append] quote]]) (simp add: quoted_def)
  next
    assume strict "length (quoted (base64_lines bytes)) \<le> BLOCK_ALLOC_MAX"
    then show "\<exists>e. xmlrpc_base64_encode mok bytes = Inr e"
      using base64_always [of bytes] enough by (simp add: quoted_def)
  qed
next
  assume strict
  then show "\<exists>x. xmlrpc_read_base64 mok (XBase64 bytes) = Inr x"
    using enough by (simp add: xmlrpc_read_base64_def validateType_def always_def Let_def)
qed

lemma array_items:
  assumes "\<And>v. v \<in> set vs \<Longrightarrow> json_writes strict (ser v) (t v)"
  shows "json_writes strict (array_items_out mok ser vs) (separated (map t vs))"
  using assms
proof (induction vs rule: induct_list012)
  case 1
  then show ?case by (simp add: json_writes_skip array_items_out.simps(1) [abs_def])
next
  case (2 v)
  then show ?case by (simp add: array_items_out.simps(2) [abs_def])
next
  case (3 v w vs)
  have "json_writes strict
      (\<lambda>b. bindO (asserting (ser v) (append_text mok ('','' @ [LF])) b) (array_items_out mok ser (w # vs)))
      ((t v @ '','' @ [LF]) @ separated (map t (w # vs)))"
    by (intro json_writes_bind json_writes_asserting append 3) (use 3(3) in auto)
  then show ?case by (simp add: array_items_out.simps(3) [abs_def] del: array_items_out.simps(2))
qed

lemma array:
  assumes "\<And>v. v \<in> set vs \<Longrightarrow> json_writes strict (ser v) (t v)"
  shows "json_writes strict (json_serializeArray mok level ser vs) (bracketed level (CHR ''['') (map t vs) (CHR '']''))"
proof -
  have start: "json_writes strict (json_formatOut mok [Txt (''['' @ [LF])]) (''['' @ [LF])"
    by (rule format_short) (simp_all add: vformat_def)
  show ?thesis
    unfolding json_serializeArray_def [abs_def]
    by (rule json_writes_eq [OF json_writes_bind [OF start json_writes_bind [OF array_items [OF assms]
          json_writes_bind [OF append json_writes_bind [OF indent append]]]]]) (simp_all add: bracketed_def)
qed

lemma key: "strict \<longrightarrow> escapable k \<Longrightarrow> json_writes strict (serialize_key mok level k) (spaces level @ quoted (json_chars k))"
  unfolding serialize_key_def by (rule json_writes_asserting [OF indent string])

lemma struct_member:
  assumes "strict \<longrightarrow> escapable (fst kv)" "json_writes strict (ser (snd kv)) t"
  shows "json_writes strict (json_serializeStructMember mok level ser kv) (spaces level @ quoted (json_chars (fst kv)) @ '':'' @ t)"
proof -
  have colon: "json_writes strict (json_formatOut mok [Txt '':'']) '':''"
    by (rule format_short) (simp_all add: vformat_def)
  show ?thesis
    unfolding json_serializeStructMember_def [abs_def]
    by (rule json_writes_eq [OF json_writes_bind [OF key [OF assms(1)] json_writes_bind [OF colon assms(2)]]]) simp
qed

lemma struct_members:
  assumes "\<And>kv. kv \<in> set kvs \<Longrightarrow> json_writes strict (json_serializeStructMember mok level ser kv) (t kv)"
  shows "json_writes strict (struct_members_out mok level ser kvs) (separated (map t kvs))"
  using assms
proof (induction kvs rule: induct_list012)
  case 1
  then show ?case by (simp add: json_writes_skip struct_members_out.simps(1) [abs_def])
next
  case (2 kv)
  then show ?case by (simp add: struct_members_out.simps(2) [abs_def])
next
  case (3 kv kw kvs)
  have "json_writes strict
      (\<lambda>b. bindO (json_serializeStructMember mok level ser kv b) (\<lambda>b1.
           bindO (append_text mok ('','' @ [LF]) b1) (struct_members_out mok level ser (kw # kvs))))
      (t kv @ ('','' @ [LF]) @ separated (map t (kw # kvs)))"
    by (intro json_writes_bind append 3) (use 3(3) in auto)
  then show ?case by (simp add: struct_members_out.simps(3) [abs_def] del: struct_members_out.simps(2))
qed

lemma struct:
  assumes "\<And>k v. (k, v) \<in> set kvs \<Longrightarrow> (strict \<longrightarrow> escapable k) \<and> json_writes strict (ser v) (t v)"
  shows "json_writes strict (json_serializeStruct mok level ser kvs)
    (bracketed level (CHR ''{'') (map (\<lambda>(k, v). spaces (level + 1) @ quoted (json_chars k) @ '':'' @ t v) kvs) (CHR ''}''))"
proof -
  have start: "json_writes strict (json_formatOut mok [Txt (''{'' @ [LF])]) (''{'' @ [LF])"
    by (rule format_short) (simp_all add: vformat_def)
  have "json_writes strict (json_serializeStructMember mok (level + 1) ser kv)
      ((\<lambda>(k, v). spaces (level + 1) @ quoted (json_chars k) @ '':'' @ t v) kv)" if "kv \<in> set kvs" for kv
    using assms [of "fst kv" "snd kv"] that struct_member [of kv ser "t (snd kv)" "level + 1"] by (simp add: case_prod_beta')
  note members = struct_members [of kvs, OF this]
  show ?thesis
    unfolding json_serializeStruct_def [abs_def]
    by (rule json_writes_eq [OF json_writes_bind [OF start json_writes_bind [OF members
          json_writes_asserting [OF json_writes_bind [OF append indent] append]]]]) (simp_all add: bracketed_def)
qed

lemma indented_array:
  assumes "json_writes strict k t"
  shows "json_writes strict (\<lambda>b. case indent mok level b of Some (Inr b) \<Rightarrow> k b | _ \<Rightarrow> None) (spaces level @ t)"
  using json_writes_asserting [OF indent [of level] assms] by (simp add: asserting_def [abs_def])

lemma indented_struct:
  assumes "json_writes strict k t"
  shows "json_writes strict (\<lambda>b. case indent mok level b of Some (Inr b) \<Rightarrow> k b | r \<Rightarrow> r) (spaces level @ t)"
  by (rule json_writes_same_success [OF json_writes_bind [OF indent [of level] assms]])
    (simp add: bindO_def split: option.split sum.split)

lemma show_word_format:
  fixes i :: "'w :: len word"
  assumes "LENGTH('w) \<le> 64"
  shows "json_writes strict (json_formatOut mok [PctD (sint i)]) (show_d (sint i))"
  by (rule format_short) (use show_word_length [OF assms, of i] in \<open>simp_all add: vformat_def\<close>)

lemma value_written:
  "strict \<longrightarrow> json_writable fmt_e v \<Longrightarrow> json_writes strict (serializeValue fmt_e mok level v) (json_text fmt_e level v)"
proof (induction v arbitrary: level rule: xvalue.induct)
  case (XInt i)
  show ?case
    unfolding serializeValue.simps serializeInt_def json_text_def json_body.simps
    by (intro json_writes_asserting indent show_word_format) simp
next
  case (XI8 i)
  show ?case
    unfolding serializeValue.simps serializeI8_def json_text_def json_body.simps
    by (intro json_writes_asserting indent show_word_format) simp
next
  case (XBool b)
  show ?case
    unfolding serializeValue.simps serializeBool_def json_text_def json_body.simps
    by (intro json_writes_asserting indent format_short) (simp_all add: vformat_def)
next
  case (XDouble d)
  then show ?case
    unfolding serializeValue.simps serializeDouble_def json_text_def json_body.simps
    using format [of "[PctS (fmt_e d)]"] by (intro json_writes_asserting indent) (simp add: vformat_def)
next
  case (XDatetime dt)
  then show ?case
    unfolding serializeValue.simps json_serializeDatetime_def json_text_def json_body.simps
    using format [of "[Txt QUOTE, Txt (json_datetime dt), Txt QUOTE]"]
    by (intro json_writes_asserting indent) (simp add: vformat_def quoted_def QUOTE_def)
next
  case (XString s)
  then show ?case
    unfolding serializeValue.simps json_text_def json_body.simps
    by (intro json_writes_asserting indent string) simp
next
  case (XBase64 bytes)
  show ?case
    unfolding serializeValue.simps json_text_def json_body.simps
    by (intro json_writes_bind indent bitstring)
next
  case (XArray vs)
  have "json_writes strict (json_serializeArray mok level (serializeValue fmt_e mok (level + 1)) vs)
      (bracketed level (CHR ''['') (map (json_text fmt_e (level + 1)) vs) (CHR '']''))"
    by (rule array, rule XArray.IH) (use XArray.prems in auto)
  from indented_array [OF this] show ?case
    by (simp add: json_text_def [abs_def] serializeValue.simps [abs_def] cong: option.case_cong sum.case_cong)
next
  case (XStruct kvs)
  have "json_writes strict (json_serializeStruct mok level (serializeValue fmt_e mok (level + 1)) kvs)
      (bracketed level (CHR ''{'') (map (\<lambda>(k, v). spaces (level + 1) @ quoted (json_chars k) @ '':'' @ json_text fmt_e (level + 1) v) kvs) (CHR ''}''))"
    by (rule struct) (use XStruct in fastforce)
  from indented_struct [OF this] show ?case
    by (simp add: json_text_def [abs_def])
next
  case (XCptr p)
  then show ?case by (intro json_writes_never) simp_all
next
  case XNil
  show ?case
    unfolding serializeValue.simps json_text_def json_body.simps
    by (intro json_writes_asserting indent format_short) (simp_all add: vformat_def)
qed

end

interpretation json_any_memory: json_writer mok False for mok
  by unfold_locales simp

interpretation json_memory: json_writer always True
  by unfold_locales simp


section \<open>Tokens of written text\<close>

lemma isWordChar_not_space: "isWordChar c \<Longrightarrow> \<not> isspace c \<and> c \<noteq> CHR ''/'' \<and> c \<notin> {CHR ''{'', CHR ''}'', CHR ''['', CHR '']'', CHR '':'', CHR '','', CHR 0x22}"
  by (auto simp: isWordChar_def isalnum_def isdigit_def isspace_def uchar_def)

lemma advance_stop:
  assumes "\<not> isspace c" "c \<noteq> CHR ''/''"
  shows "advanceToNextToken (c # s) = c # s"
  using assms by (subst advanceToNextToken.simps) (simp add: atComment_def)

lemma advance_space:
  assumes "isspace c"
  shows "advanceToNextToken (c # s) = advanceToNextToken s"
proof -
  have "advanceToNextToken (c # s) = advanceToNextToken (advancePastComments (dropWhile isspace s))"
    using assms by (subst advanceToNextToken.simps) (simp add: advancePastWhiteSpace_def)
  also have "\<dots> = advanceToNextToken s"
  proof (cases "s \<noteq> [] \<and> (isspace (hd s) \<or> atComment s)")
    case True
    then show ?thesis by (subst (2) advanceToNextToken.simps) (simp add: advancePastWhiteSpace_def)
  next
    case False
    then have "dropWhile isspace s = s" "\<not> atComment s" by (cases s; auto simp: atComment_def)+
    then show ?thesis by (subst advancePastComments.simps) simp
  qed
  finally show ?thesis .
qed

lemma advance_spaces: "list_all isspace ws \<Longrightarrow> advanceToNextToken (ws @ s) = advanceToNextToken s"
  by (induction ws) (simp_all add: advance_space)

lemma space_chars [simp]: "isspace LF" "isspace (CHR '' '')" "list_all isspace (spaces level)"
  by (simp_all add: isspace_def spaces_def list_all_iff)

lemma get_end: "advanceToNextToken (tok_end t) = [] \<Longrightarrow> \<exists>t1. getToken t = Inr t1 \<and> tok_type t1 = typeEof"
  by (simp add: getToken_def Let_def)

definition delimiter :: "char \<Rightarrow> ttype" where
  "delimiter c =
     (if c = CHR ''{'' then typeOpenBrace else if c = CHR ''}'' then typeCloseBrace
      else if c = CHR ''['' then typeOpenBracket else if c = CHR '']'' then typeCloseBracket
      else if c = CHR '':'' then typeColon else if c = CHR '','' then typeComma else typeNone)"

lemma get_delimiter:
  assumes "advanceToNextToken (tok_end t) = c # s" "delimiter c \<noteq> typeNone"
  obtains t1 where "getToken t = Inr t1" "tok_type t1 = delimiter c" "tok_end t1 = s"
  using assms by (auto simp: getToken_def Let_def finishDelimiterToken_def delimiter_def split: if_splits)

text \<open>\<open>stands_for e s\<close>: between quotation marks, \<open>e\<close> is read as \<open>s\<close>.\<close>

definition stands_for :: "string \<Rightarrow> string \<Rightarrow> bool" where
  "stands_for e s \<longleftrightarrow>
     (\<forall>tokP r. string_token_end tokP (e @ CHR 0x22 # r) = Inr r) \<and>
     (\<forall>junk k. length e < k \<longrightarrow> string_text junk k e = Some s)"

lemma get_string:
  assumes "advanceToNextToken (tok_end t) = quoted e @ rest" "stands_for e s"
  obtains t1 where "getToken t = Inr t1" "tok_type t1 = typeString" "tok_end t1 = rest" "token_text junk t1 = Some (Inr s)"
proof -
  have b: "advanceToNextToken (tok_end t) = CHR 0x22 # e @ CHR 0x22 # rest" using assms(1) by (simp add: quoted_def QUOTE_def)
  have "\<exists>t1. getToken t = Inr t1 \<and> tok_type t1 = typeString \<and> tok_end t1 = rest \<and> string_token_text t1 = e"
    using assms(2) by (simp add: getToken_def b Let_def finishStringToken_def stands_for_def string_token_text_def)
  then obtain t1 where t1: "getToken t = Inr t1" "tok_type t1 = typeString" "tok_end t1 = rest" "string_token_text t1 = e"
    by blast
  show thesis
    by (rule that [OF t1(1-3)]) (use assms(2) in \<open>simp add: token_text_def t1(4) stands_for_def\<close>)
qed

lemma stands_for_plain: "CHR 0x22 \<notin> set s \<Longrightarrow> CHR 0x5C \<notin> set s \<Longrightarrow> stands_for s s"
proof -
  assume s: "CHR 0x22 \<notin> set s" "CHR 0x5C \<notin> set s"
  have "string_token_end tokP (s @ CHR 0x22 # r) = Inr r" for tokP r
    using s by (induction s) auto
  moreover have "length s < k \<longrightarrow> string_text junk k s = Some s" for junk k
    using s
  proof (induction s arbitrary: k)
    case Nil
    then show ?case by (cases k) auto
  next
    case (Cons c s)
    then show ?case by (cases k) auto
  qed
  ultimately show ?thesis by (simp add: stands_for_def)
qed

lemma json_char_cases:
  assumes "needs_escape c \<longrightarrow> slash_char c \<noteq> None"
  obtains "json_char c = [c]" "c \<noteq> CHR 0x22" "c \<noteq> CHR 0x5C"
  | e where "json_char c = [CHR 0x5C, e]" "slash_char c = Some e"
proof (cases "needs_escape c")
  case True
  with assms show ?thesis using that(2) by (auto simp: json_char_def)
next
  case False
  with assms show ?thesis using that(1) by (auto simp: json_char_def needs_escape_def)
qed

lemma slash_char_read:
  assumes "slash_char c = Some e"
  shows "e \<in> {CHR 0x22, CHR 0x5C, CHR ''/'', CHR ''b'', CHR ''f'', CHR ''n'', CHR ''r'', CHR ''t''}"
    "getBackslashSequence junk (e # s) = Some (Inr ([c], 1))"
  using assms by (auto simp: slash_char_def getBackslashSequence_def Let_def split: if_splits)

lemma stands_for_chars: "escapable s \<Longrightarrow> stands_for (json_chars s) s"
proof (induction s)
  case Nil
  then show ?case using stands_for_plain [of "[]"] by (simp add: json_chars_def)
next
  case (Cons c s)
  then have s: "stands_for (json_chars s) s" and c: "needs_escape c \<longrightarrow> slash_char c \<noteq> None"
    by (simp_all add: escapable_def)
  have chars: "json_chars (c # s) = json_char c @ json_chars s" by (simp add: json_chars_def)
  from c show ?case
  proof (cases rule: json_char_cases)
    case 1
    have "length (c # json_chars s) < k \<longrightarrow> string_text junk k (c # json_chars s) = Some (c # s)" for junk k
      using s 1 by (cases k) (auto simp: stands_for_def)
    with s 1 show ?thesis by (simp add: chars stands_for_def)
  next
    case (2 e)
    note e = slash_char_read [OF 2(2)]
    have "string_token_end tokP (CHR 0x5C # e # json_chars s @ CHR 0x22 # r) = Inr r" for tokP r
      using s e(1) by (simp add: stands_for_def)
    moreover have "length (CHR 0x5C # e # json_chars s) < k \<longrightarrow> string_text junk k (CHR 0x5C # e # json_chars s) = Some (c # s)" for junk k
      using s e(2) [of junk "json_chars s"] by (cases k) (auto simp: stands_for_def)
    ultimately show ?thesis by (simp add: chars 2(1) stands_for_def)
  qed
qed

definition stops :: "string \<Rightarrow> bool" where
  "stops rest \<longleftrightarrow> rest = [] \<or> \<not> isWordChar (hd rest)"

lemma get_word:
  assumes "advanceToNextToken (tok_end t) = w @ rest" "w \<noteq> []" "list_all isWordChar w" "stops rest"
  shows "getToken t = wordToken (t\<lparr>tok_begin := w @ rest, tok_end := w @ rest\<rparr>)"
    "finishAlphanumericWordToken (t\<lparr>tok_begin := w @ rest, tok_end := w @ rest\<rparr>) =
       t\<lparr>tok_begin := w @ rest, tok_end := rest, tok_size := length w\<rparr>"
proof -
  obtain c w' where w: "w = c # w'" using assms(2) by (cases w) auto
  have c: "isWordChar c" using assms(3) w by simp
  show "getToken t = wordToken (t\<lparr>tok_begin := w @ rest, tok_end := w @ rest\<rparr>)"
    using isWordChar_not_space [OF c] c by (simp add: getToken_def assms(1) w)
  have "dropWhile isWordChar (w' @ rest) = rest"
    using assms(3,4) by (cases rest) (auto simp: w stops_def list_all_iff dropWhile_append)
  then show "finishAlphanumericWordToken (t\<lparr>tok_begin := w @ rest, tok_end := w @ rest\<rparr>) =
      t\<lparr>tok_begin := w @ rest, tok_end := rest, tok_size := length w\<rparr>"
    by (simp add: finishAlphanumericWordToken_def w)
qed


section \<open>Reading what was written\<close>

text \<open>What a value is read back as: JSON has one type of integers, and neither dates nor byte strings.\<close>

fun json_image :: "'d xvalue \<Rightarrow> 'd xvalue" where
  "json_image (XInt i) = XI8 (word_of_int (sint i))"
| "json_image (XBool b) = XBool (if b \<noteq> 0 then 1 else 0)"
| "json_image (XDatetime dt) = XString (json_datetime dt)"
| "json_image (XBase64 bytes) = XString (base64_lines bytes)"
| "json_image (XArray vs) = XArray (map json_image vs)"
| "json_image (XStruct kvs) = XStruct (map (\<lambda>(k, v). (k, json_image v)) kvs)"
| "json_image v = v"

fun json_readable :: "'d xvalue \<Rightarrow> bool" where
  "json_readable (XDouble d) \<longleftrightarrow> False"
| "json_readable (XCptr p) \<longleftrightarrow> False"
| "json_readable (XString s) \<longleftrightarrow> escapable s"
| "json_readable (XArray vs) \<longleftrightarrow> (\<forall>v \<in> set vs. json_readable v)"
| "json_readable (XStruct kvs) \<longleftrightarrow> distinct (map fst kvs) \<and> (\<forall>(k, v) \<in> set kvs. escapable k \<and> json_readable v)"
| "json_readable _ \<longleftrightarrow> True"

definition starts :: "string \<Rightarrow> bool" where
  "starts s \<longleftrightarrow> s \<noteq> [] \<and> \<not> isspace (hd s) \<and> hd s \<noteq> CHR ''/''"

lemma advance_starts: "starts s \<Longrightarrow> advanceToNextToken (spaces n @ s @ r) = s @ r"
  by (cases s) (simp_all add: advance_spaces starts_def advance_stop)

definition reads_as :: "(tokenizer \<Rightarrow> ('d xvalue \<times> tokenizer) result option) \<Rightarrow> string \<Rightarrow> 'd xvalue \<Rightarrow> bool" where
  "reads_as read s v \<longleftrightarrow>
     starts s \<and>
     (\<forall>t rest. advanceToNextToken (tok_end t) = s @ rest \<longrightarrow> stops rest \<longrightarrow>
        (\<exists>t1 t2. getToken t = Inr t1 \<and> tok_type t1 \<noteq> typeEof \<and> tok_type t1 \<noteq> typeCloseBracket \<and>
                 read t1 = Some (Inr (v, t2)) \<and> tok_end t2 = rest))"

lemma reads_asI:
  assumes "starts s"
    and "\<And>t rest. advanceToNextToken (tok_end t) = s @ rest \<Longrightarrow> stops rest \<Longrightarrow>
      \<exists>t1 t2. getToken t = Inr t1 \<and> tok_type t1 \<noteq> typeEof \<and> tok_type t1 \<noteq> typeCloseBracket \<and>
              read t1 = Some (Inr (v, t2)) \<and> tok_end t2 = rest"
  shows "reads_as read s v"
  using assms unfolding reads_as_def by blast

lemma reads_asE:
  assumes "reads_as read s v" "advanceToNextToken (tok_end t) = advanceToNextToken (spaces n @ s @ rest)" "stops rest"
  obtains t1 t2 where "getToken t = Inr t1" "tok_type t1 \<noteq> typeEof" "tok_type t1 \<noteq> typeCloseBracket"
    "read t1 = Some (Inr (v, t2))" "tok_end t2 = rest"
  using assms advance_starts [of s n rest] unfolding reads_as_def by metis

subsection \<open>Simple values\<close>

lemma show_d_word: "list_all isWordChar (show_d i)" "show_d i \<noteq> []" "isInteger (show_d i)"
proof -
  have digits: "list_all isdigit (dec_digits n)" for n
    using isdigit_dec_digits by (auto simp: list_all_iff)
  then have words: "list_all isWordChar (dec_digits n)" for n
    by (auto simp: list_all_iff isWordChar_def isalnum_def)
  have "hd (dec_digits n) \<noteq> CHR ''-''" for n
    using digits [of n] dec_digits_nonempty [of n] by (cases "dec_digits n") (auto simp: isdigit_def uchar_def)
  then show "isInteger (show_d i)" using digits by (simp add: isInteger_def show_d_def)
  show "list_all isWordChar (show_d i)" using words by (simp add: show_d_def isWordChar_def)
  show "show_d i \<noteq> []" by (simp add: show_d_def)
qed

lemma word_starts: "list_all isWordChar w \<Longrightarrow> w \<noteq> [] \<Longrightarrow> starts w"
  using isWordChar_not_space by (cases w) (auto simp: starts_def)

lemma integer_reads:
  fixes i :: "'w :: len word"
  assumes "LENGTH('w) \<le> 64"
  shows "reads_as (read_json (Suc n) pf junk) (show_d (sint i)) (XI8 (word_of_int (sint i)))"
proof (rule reads_asI)
  show "starts (show_d (sint i))" by (intro word_starts show_d_word)
  fix t :: tokenizer and rest assume t: "advanceToNextToken (tok_end t) = show_d (sint i) @ rest" "stops rest"
  note word = get_word [OF t(1) show_d_word(2) show_d_word(1) t(2)]
  have range: "XMLRPC_INT64_MIN \<le> sint i" "sint i \<le> XMLRPC_INT64_MAX"
  proof -
    have "(2 :: int) ^ (LENGTH('w) - 1) \<le> 2 ^ 63" by (rule power_increasing) (use assms in auto)
    then show "XMLRPC_INT64_MIN \<le> sint i" "sint i \<le> XMLRPC_INT64_MAX"
      using sint_lt [of i] sint_ge [of i] by simp_all
  qed
  show "\<exists>t1 t2. getToken t = Inr t1 \<and> tok_type t1 \<noteq> typeEof \<and> tok_type t1 \<noteq> typeCloseBracket \<and>
      read_json (Suc n) pf junk t1 = Some (Inr (XI8 (word_of_int (sint i)), t2)) \<and> tok_end t2 = rest"
    using parse_int64_show [OF range]
    by (simp add: word wordToken_def Let_def show_d_word(3) read_integer_def)
qed

lemma get_literal:
  assumes "advanceToNextToken (tok_end t) = w @ rest" "stops rest"
    and "(w, ty) \<in> {(''null'', typeNull), (''true'', typeTrue), (''false'', typeFalse)}"
  obtains t1 where "getToken t = Inr t1" "tok_type t1 = ty" "tok_end t1 = rest"
proof -
  have w: "list_all isWordChar w" "w \<noteq> []" "\<not> isInteger w" "\<not> isFloat w" using assms(3) by (auto; code_simp)+
  note word = get_word [OF assms(1) w(2) w(1) assms(2)]
  have "\<exists>t1. getToken t = Inr t1 \<and> tok_type t1 = ty \<and> tok_end t1 = rest"
    using assms(3) w(3,4) unfolding word(1) wordToken_def Let_def word(2) by (auto simp: strneq_def)
  then show thesis using that by blast
qed

lemma literal_reads:
  assumes "(w, ty) \<in> {(''null'', typeNull), (''true'', typeTrue), (''false'', typeFalse)}"
    and "\<And>t. tok_type t = ty \<Longrightarrow> read t = Some (Inr (v, t))"
  shows "reads_as read w v"
proof (rule reads_asI)
  show "starts w" using assms(1) by (auto simp: starts_def isspace_def uchar_def)
  fix t :: tokenizer and rest assume "advanceToNextToken (tok_end t) = w @ rest" "stops rest"
  then obtain t1 where "getToken t = Inr t1" "tok_type t1 = ty" "tok_end t1 = rest"
    using assms(1) by (rule get_literal)
  then show "\<exists>t1 t2. getToken t = Inr t1 \<and> tok_type t1 \<noteq> typeEof \<and> tok_type t1 \<noteq> typeCloseBracket \<and>
      read t1 = Some (Inr (v, t2)) \<and> tok_end t2 = rest"
    using assms by auto
qed

lemma starts_quoted: "starts (quoted e)"
  by (simp add: starts_def quoted_def QUOTE_def isspace_def uchar_def)

lemma string_reads:
  assumes "stands_for e s"
  shows "reads_as (read_json (Suc n) pf junk) (quoted e) (XString s)"
proof (rule reads_asI [OF starts_quoted])
  fix t :: tokenizer and rest assume "advanceToNextToken (tok_end t) = quoted e @ rest"
  then obtain t1 where "getToken t = Inr t1" "tok_type t1 = typeString" "tok_end t1 = rest" "token_text junk t1 = Some (Inr s)"
    using assms by (rule get_string)
  then show "\<exists>t1 t2. getToken t = Inr t1 \<and> tok_type t1 \<noteq> typeEof \<and> tok_type t1 \<noteq> typeCloseBracket \<and>
      read_json (Suc n) pf junk t1 = Some (Inr (XString s, t2)) \<and> tok_end t2 = rest"
    by simp
qed

lemma base64_lines_chars: "set (base64_lines bytes) \<subseteq> {CR, LF} \<union> set b64_chars"
proof -
  have "set (concat (chunk_texts True bytes)) \<subseteq> {CR, LF} \<union> set b64_chars"
  proof (induction True bytes rule: chunk_texts.induct)
    case (1 bytes)
    then show ?case
      using b64_in_chars [of "take BASE64_MAXBIN bytes"]
      by (cases "bytes = []") (auto simp: chunk_texts_step encode_line_b64)
  qed
  then show ?thesis by (auto simp: base64_lines_def)
qed

lemma base64_stands: "stands_for (base64_lines bytes) (base64_lines bytes)"
proof -
  have "CHR 0x22 \<notin> set (CR # LF # b64_chars)" "CHR 0x5C \<notin> set (CR # LF # b64_chars)" by code_simp+
  then show ?thesis using base64_lines_chars [of bytes] by (intro stands_for_plain) auto
qed

lemma datetime_stands: "stands_for (json_datetime dt) (json_datetime dt)"
proof -
  have "c \<in> set (json_datetime dt) \<Longrightarrow> isdigit c \<or> c = CHR ''T'' \<or> c = CHR '':''" for c
    by (auto simp: json_datetime_def dest: isdigit_dec_digits isdigit_pad_u)
  moreover have "\<not> isdigit (CHR 0x22)" "\<not> isdigit (CHR 0x5C)" by (simp_all add: isdigit_def uchar_def)
  ultimately show ?thesis by (intro stands_for_plain) force+
qed

subsection \<open>Arrays and objects\<close>

lemma stops_chars: "stops (LF # r)" "stops ('','' @ r)" "stops (CHR '','' # r)"
  by (simp_all add: stops_def isWordChar_def isalnum_def isdigit_def uchar_def)

lemma get_closing:
  assumes "advanceToNextToken (tok_end t) = advanceToNextToken (LF # spaces n @ c # rest)" "c = CHR '']'' \<or> c = CHR ''}''"
  obtains t1 where "getToken t = Inr t1" "tok_type t1 = delimiter c" "tok_end t1 = rest"
proof -
  have "\<not> isspace c" "c \<noteq> CHR ''/''" "delimiter c \<noteq> typeNone"
    using assms(2) by (auto simp: isspace_def uchar_def delimiter_def)
  then have "advanceToNextToken (tok_end t) = c # rest" "delimiter c \<noteq> typeNone"
    using assms(1) by (simp_all add: advance_space advance_spaces advance_stop)
  then show thesis using that by (rule get_delimiter)
qed

lemma get_comma:
  assumes "tok_end t = CHR '','' # LF # s"
  obtains t1 where "getToken t = Inr t1" "tok_type t1 = typeComma" "advanceToNextToken (tok_end t1) = advanceToNextToken s"
proof -
  have "advanceToNextToken (tok_end t) = CHR '','' # LF # s" "delimiter (CHR '','') \<noteq> typeNone"
    by (simp_all add: assms advance_stop isspace_def uchar_def delimiter_def)
  then obtain t1 where "getToken t = Inr t1" "tok_type t1 = delimiter (CHR '','')" "tok_end t1 = LF # s"
    by (rule get_delimiter)
  then show thesis using that [of t1] by (simp add: delimiter_def advance_space)
qed

lemma list_reads:
  assumes "\<And>v. v \<in> set vs \<Longrightarrow> reads_as read (s v) (img v)" "length vs < k"
    and "advanceToNextToken (tok_end t) =
      advanceToNextToken (separated (map (\<lambda>v. spaces n @ s v) vs) @ LF # spaces m @ CHR '']'' # rest)"
  shows "\<exists>t1. read_list k read acc t = Some (Inr (acc @ map img vs, t1)) \<and> tok_end t1 = rest"
  using assms
proof (induction vs arbitrary: k t acc rule: induct_list012)
  case 1
  then obtain k' where "k = Suc k'" by (cases k) auto
  moreover obtain t1 where "getToken t = Inr t1" "tok_type t1 = delimiter (CHR '']'')" "tok_end t1 = rest"
    by (rule get_closing [of t m "CHR '']''" rest]) (use 1 in auto)
  ultimately show ?case by (simp add: delimiter_def)
next
  case (2 v)
  then obtain k' where k: "k = Suc k'" by (cases k) auto
  obtain t1 t2 where t: "getToken t = Inr t1" "tok_type t1 \<noteq> typeEof" "tok_type t1 \<noteq> typeCloseBracket"
      "read t1 = Some (Inr (img v, t2))" "tok_end t2 = LF # spaces m @ CHR '']'' # rest"
    by (rule reads_asE [of read "s v" "img v" t n "LF # spaces m @ CHR '']'' # rest"]) (use 2 stops_chars in auto)
  moreover obtain t3 where "getToken t2 = Inr t3" "tok_type t3 = delimiter (CHR '']'')" "tok_end t3 = rest"
    by (rule get_closing [of t2 m "CHR '']''" rest]) (use t in auto)
  ultimately show ?case by (simp add: k delimiter_def)
next
  case (3 v w vs)
  then obtain k' where k: "k = Suc k'" "length (w # vs) < k'" by (cases k) auto
  let ?more = "separated (map (\<lambda>v. spaces n @ s v) (w # vs)) @ LF # spaces m @ CHR '']'' # rest"
  obtain t1 t2 where t: "getToken t = Inr t1" "tok_type t1 \<noteq> typeEof" "tok_type t1 \<noteq> typeCloseBracket"
      "read t1 = Some (Inr (img v, t2))" "tok_end t2 = CHR '','' # LF # ?more"
    by (rule reads_asE [of read "s v" "img v" t n "CHR '','' # LF # ?more"]) (use 3(3,5) stops_chars in auto)
  obtain t3 where t3: "getToken t2 = Inr t3" "tok_type t3 = typeComma" "advanceToNextToken (tok_end t3) = advanceToNextToken ?more"
    using t(5) by (rule get_comma)
  have "\<exists>t1. read_list k' read (acc @ [img v]) t3 = Some (Inr ((acc @ [img v]) @ map img (w # vs), t1)) \<and> tok_end t1 = rest"
    using 3(3) k(2) t3(3) by (intro "3.IH"(2)) auto
  with t t3 show ?case by (simp add: k)
qed


lemma member_reads:
  assumes "escapable k" "reads_as read b v" "stops rest"
    and "advanceToNextToken (tok_end t) = advanceToNextToken (spaces n @ quoted (json_chars k) @ '':'' @ spaces n @ b @ rest)"
  obtains tok3 where "tok_end tok3 = rest"
    "\<And>acc n. read_object (Suc n) junk read acc t = bindO (Some (getToken tok3)) (\<lambda>tok4.
         if tok_type tok4 = typeComma then read_object n junk read (put_member k v acc) tok4
         else if tok_type tok4 = typeCloseBrace then Some (Inr (put_member k v acc, tok4))
         else Some (Inl (need_object_separator tok4)))"
proof -
  have "advanceToNextToken (tok_end t) = quoted (json_chars k) @ CHR '':'' # spaces n @ b @ rest"
    using assms(4) by (simp add: advance_starts starts_quoted)
  then obtain tok1 where t1: "getToken t = Inr tok1" "tok_type tok1 = typeString"
      "tok_end tok1 = CHR '':'' # spaces n @ b @ rest" "token_text junk tok1 = Some (Inr k)"
    using stands_for_chars [OF assms(1)] by (rule get_string)
  have "advanceToNextToken (tok_end tok1) = CHR '':'' # spaces n @ b @ rest" "delimiter (CHR '':'') \<noteq> typeNone"
    by (simp_all add: t1(3) advance_stop isspace_def uchar_def delimiter_def)
  then obtain tok2 where t2: "getToken tok1 = Inr tok2" "tok_type tok2 = delimiter (CHR '':'')"
      "tok_end tok2 = spaces n @ b @ rest"
    by (rule get_delimiter)
  obtain tok2' tok3 where t3: "getToken tok2 = Inr tok2'" "read tok2' = Some (Inr (v, tok3))" "tok_end tok3 = rest"
    by (rule reads_asE [of read b v tok2 n rest]) (use assms(2,3) t2(3) in auto)
  show thesis
    by (rule that [of tok3]) (use t1 t2 t3 in \<open>simp_all add: delimiter_def\<close>)
qed

definition member_text :: "nat \<Rightarrow> ('v \<Rightarrow> string) \<Rightarrow> string \<times> 'v \<Rightarrow> string" where
  "member_text n s = (\<lambda>(k, v). spaces n @ quoted (json_chars k) @ '':'' @ spaces n @ s v)"

lemma object_reads:
  assumes "\<And>k v. (k, v) \<in> set kvs \<Longrightarrow> escapable k \<and> reads_as read (s v) (img v)" "length kvs < n"
    and "distinct (map fst (acc @ kvs))"
    and "advanceToNextToken (tok_end t) =
      advanceToNextToken (separated (map (member_text l s) kvs) @ LF # spaces m @ CHR ''}'' # rest)"
  shows "\<exists>t1. read_object n junk read acc t = Some (Inr (acc @ map (\<lambda>(k, v). (k, img v)) kvs, t1)) \<and> tok_end t1 = rest"
  using assms
proof (induction kvs arbitrary: n t acc rule: induct_list012)
  case 1
  then obtain n' where "n = Suc n'" by (cases n) auto
  moreover obtain t1 where "getToken t = Inr t1" "tok_type t1 = delimiter (CHR ''}'')" "tok_end t1 = rest"
    by (rule get_closing [of t m "CHR ''}''" rest]) (use 1 in auto)
  ultimately show ?case by (simp add: delimiter_def)
next
  case (2 kv)
  obtain k v where kv: "kv = (k, v)" by (cases kv)
  obtain n' where n: "n = Suc n'" using 2(2) by (cases n) auto
  have kvok: "escapable k" "reads_as read (s v) (img v)" using 2(1) [of k v] by (simp_all add: kv)
  have here: "advanceToNextToken (tok_end t) =
      advanceToNextToken (spaces l @ quoted (json_chars k) @ '':'' @ spaces l @ s v @ LF # spaces m @ CHR ''}'' # rest)"
    using 2(4) by (simp add: kv member_text_def)
  obtain tok3 where t: "tok_end tok3 = LF # spaces m @ CHR ''}'' # rest"
    "\<And>acc n. read_object (Suc n) junk read acc t = bindO (Some (getToken tok3)) (\<lambda>tok4.
         if tok_type tok4 = typeComma then read_object n junk read (put_member k (img v) acc) tok4
         else if tok_type tok4 = typeCloseBrace then Some (Inr (put_member k (img v) acc, tok4))
         else Some (Inl (need_object_separator tok4)))"
    using member_reads [OF kvok stops_chars(1) here, of junk] by blast
  obtain t4 where "getToken tok3 = Inr t4" "tok_type t4 = delimiter (CHR ''}'')" "tok_end t4 = rest"
    by (rule get_closing [of tok3 m "CHR ''}''" rest]) (use t in auto)
  moreover have "put_member k (img v) acc = acc @ [(k, img v)]"
    by (rule put_member_new) (use 2(3) kv in auto)
  ultimately show ?case by (simp add: n kv t(2) delimiter_def del: read_object.simps)
next
  case (3 kv kw kvs)
  obtain k v where kv: "kv = (k, v)" by (cases kv)
  obtain n' where n: "n = Suc n'" "length (kw # kvs) < n'" using 3(4) by (cases n) auto
  have kvok: "escapable k" "reads_as read (s v) (img v)" using 3(3) [of k v] by (simp_all add: kv)
  let ?more = "separated (map (member_text l s) (kw # kvs)) @ LF # spaces m @ CHR ''}'' # rest"
  have here: "advanceToNextToken (tok_end t) =
      advanceToNextToken (spaces l @ quoted (json_chars k) @ '':'' @ spaces l @ s v @ CHR '','' # LF # ?more)"
    using 3(6) by (simp add: kv member_text_def)
  obtain tok3 where t: "tok_end tok3 = CHR '','' # LF # ?more"
    "\<And>acc n. read_object (Suc n) junk read acc t = bindO (Some (getToken tok3)) (\<lambda>tok4.
         if tok_type tok4 = typeComma then read_object n junk read (put_member k (img v) acc) tok4
         else if tok_type tok4 = typeCloseBrace then Some (Inr (put_member k (img v) acc, tok4))
         else Some (Inl (need_object_separator tok4)))"
    using member_reads [OF kvok stops_chars(3) here, of junk] by blast
  obtain t4 where t4: "getToken tok3 = Inr t4" "tok_type t4 = typeComma"
      "advanceToNextToken (tok_end t4) = advanceToNextToken ?more"
    using t(1) by (rule get_comma)
  have put: "put_member k (img v) acc = acc @ [(k, img v)]"
    by (rule put_member_new) (use 3(5) kv in auto)
  have "\<exists>t1. read_object n' junk read (acc @ [(k, img v)]) t4 =
      Some (Inr ((acc @ [(k, img v)]) @ map (\<lambda>(k, v). (k, img v)) (kw # kvs), t1)) \<and> tok_end t1 = rest"
    using 3(3,5) n(2) t4(3) kv by (intro "3.IH"(2)) auto
  then show ?case using t4(1,2) put by (simp add: n(1) kv t(2) del: read_object.simps)
qed

section \<open>Values\<close>

lemma separated_length:
  "t \<in> set ts \<Longrightarrow> length t \<le> length (separated ts)" "\<forall>t \<in> set ts. t \<noteq> [] \<Longrightarrow> length ts \<le> length (separated ts)"
proof -
  show "t \<in> set ts \<Longrightarrow> length t \<le> length (separated ts)"
    by (induction ts rule: induct_list012) auto
  show "\<forall>t \<in> set ts. t \<noteq> [] \<Longrightarrow> length ts \<le> length (separated ts)"
  proof (induction ts rule: induct_list012)
    case (2 t)
    then show ?case by (cases t) auto
  qed auto
qed

lemma get_bracketed:
  assumes "advanceToNextToken (tok_end t) = bracketed m a ts z @ rest" "delimiter a \<noteq> typeNone"
  obtains t1 where "getToken t = Inr t1" "tok_type t1 = delimiter a"
    "advanceToNextToken (tok_end t1) = advanceToNextToken (separated ts @ LF # spaces m @ z # rest)"
proof -
  have "advanceToNextToken (tok_end t) = a # LF # separated ts @ LF # spaces m @ z # rest"
    using assms(1) by (simp add: bracketed_def)
  then obtain t1 where "getToken t = Inr t1" "tok_type t1 = delimiter a" "tok_end t1 = LF # separated ts @ LF # spaces m @ z # rest"
    using assms(2) by (rule get_delimiter)
  then show thesis using that [of t1] by (simp add: advance_space)
qed

lemma bracketed_length:
  "length (separated ts) + 4 \<le> length (bracketed m a ts z)"
  by (simp add: bracketed_def)

lemma json_reads:
  assumes "json_readable v" "length (json_body fmt_e level v) < n"
  shows "reads_as (read_json n pf junk) (json_body fmt_e level v) (json_image v)"
  using assms
proof (induction v arbitrary: level n rule: xvalue.induct)
  case (XArray vs)
  obtain m where n: "n = Suc m" using XArray.prems(2) by (cases n) auto
  let ?s = "json_body fmt_e (level + 1)"
  let ?ts = "map (\<lambda>v. spaces (level + 1) @ ?s v) vs"
  have len: "length (separated ?ts) + 4 < n"
    using XArray.prems(2) bracketed_length [of ?ts level "CHR ''[''" "CHR '']''"] by simp
  have items: "reads_as (read_json m pf junk) (?s v) (json_image v)" if v: "v \<in> set vs" for v
  proof (rule XArray.IH [OF v])
    show "json_readable v" using XArray.prems(1) v by simp
    have "length (spaces (level + 1) @ ?s v) \<le> length (separated ?ts)" by (rule separated_length(1)) (use v in simp)
    then show "length (?s v) < m" using len n by simp
  qed
  then have "\<forall>t \<in> set ?ts. t \<noteq> []" by (auto simp: reads_as_def starts_def)
  from separated_length(2) [OF this] have short: "length vs < Suc m" using len n by simp
  show ?case
  proof (rule reads_asI)
    show "starts (json_body fmt_e level (XArray vs))" by (simp add: bracketed_def starts_def isspace_def uchar_def)
    fix t :: tokenizer and rest assume t: "advanceToNextToken (tok_end t) = json_body fmt_e level (XArray vs) @ rest"
    obtain t1 where t1: "getToken t = Inr t1" "tok_type t1 = delimiter (CHR ''['')"
      "advanceToNextToken (tok_end t1) = advanceToNextToken (separated ?ts @ LF # spaces level @ CHR '']'' # rest)"
      by (rule get_bracketed [of t level "CHR ''[''" ?ts "CHR '']''" rest]) (use t in \<open>simp_all add: delimiter_def\<close>)
    from list_reads [OF items short t1(3), of "[]"] obtain t2
      where "read_list (Suc m) (read_json m pf junk) [] t1 = Some (Inr (map json_image vs, t2))" "tok_end t2 = rest"
      by auto
    with t1 show "\<exists>t1 t2. getToken t = Inr t1 \<and> tok_type t1 \<noteq> typeEof \<and> tok_type t1 \<noteq> typeCloseBracket \<and>
        read_json n pf junk t1 = Some (Inr (json_image (XArray vs), t2)) \<and> tok_end t2 = rest"
      by (simp add: n delimiter_def del: read_list.simps)
  qed
next
  case (XStruct kvs)
  obtain m where n: "n = Suc m" using XStruct.prems(2) by (cases n) auto
  let ?s = "json_body fmt_e (level + 1)"
  let ?ts = "map (member_text (level + 1) ?s) kvs"
  have body: "json_body fmt_e level (XStruct kvs) = bracketed level (CHR ''{'') ?ts (CHR ''}'')"
    by (simp add: member_text_def)
  have len: "length (separated ?ts) + 4 < n"
    using XStruct.prems(2) bracketed_length [of ?ts level "CHR ''{''" "CHR ''}''"] unfolding body by simp
  have items: "escapable k \<and> reads_as (read_json m pf junk) (?s v) (json_image v)" if kv: "(k, v) \<in> set kvs" for k v
  proof
    show "escapable k" using XStruct.prems(1) kv by auto
    show "reads_as (read_json m pf junk) (?s v) (json_image v)"
    proof (rule XStruct.IH [OF kv])
      show "v \<in> Basic_BNFs.snds (k, v)" by simp
      show "json_readable v" using XStruct.prems(1) kv by auto
      have "length (member_text (level + 1) ?s (k, v)) \<le> length (separated ?ts)"
        by (rule separated_length(1)) (use kv in force)
      then show "length (?s v) < m" using len n by (simp add: member_text_def)
    qed
  qed
  have "\<forall>t \<in> set ?ts. t \<noteq> []" by (auto simp: member_text_def quoted_def QUOTE_def)
  from separated_length(2) [OF this] have short: "length kvs < Suc m" using len n by simp
  have keys: "distinct (map fst ([] @ kvs))" using XStruct.prems(1) by simp
  show ?case
  proof (rule reads_asI)
    show "starts (json_body fmt_e level (XStruct kvs))" by (simp add: bracketed_def starts_def isspace_def uchar_def)
    fix t :: tokenizer and rest assume t: "advanceToNextToken (tok_end t) = json_body fmt_e level (XStruct kvs) @ rest"
    obtain t1 where t1: "getToken t = Inr t1" "tok_type t1 = delimiter (CHR ''{'')"
      "advanceToNextToken (tok_end t1) = advanceToNextToken (separated ?ts @ LF # spaces level @ CHR ''}'' # rest)"
      by (rule get_bracketed [of t level "CHR ''{''" ?ts "CHR ''}''" rest]) (use t body in \<open>simp_all add: delimiter_def\<close>)
    from object_reads [OF items short keys t1(3), of junk] obtain t2
      where "read_object (Suc m) junk (read_json m pf junk) [] t1 = Some (Inr (map (\<lambda>(k, v). (k, json_image v)) kvs, t2))"
        "tok_end t2 = rest"
      by auto
    with t1 show "\<exists>t1 t2. getToken t = Inr t1 \<and> tok_type t1 \<noteq> typeEof \<and> tok_type t1 \<noteq> typeCloseBracket \<and>
        read_json n pf junk t1 = Some (Inr (json_image (XStruct kvs), t2)) \<and> tok_end t2 = rest"
      by (simp add: n delimiter_def del: read_object.simps)
  qed
next
  case (XInt i)
  then show ?case using integer_reads [where i = i and n = "n - 1"] by (cases n) (simp_all del: read_json.simps)
next
  case (XI8 i)
  then show ?case using integer_reads [where i = i and n = "n - 1"] by (cases n) (simp_all del: read_json.simps)
next
  case (XBool b)
  obtain m where n: "n = Suc m" using XBool.prems(2) by (cases n) auto
  have "reads_as (read_json n pf junk) ''true'' (XBool 1)" "reads_as (read_json n pf junk) ''false'' (XBool 0)"
    by (rule literal_reads [of _ typeTrue] literal_reads [of _ typeFalse]; simp add: n)+
  then show ?case by simp
next
  case XNil
  then obtain m where n: "n = Suc m" by (cases n) auto
  have "reads_as (read_json n pf junk) ''null'' XNil" by (rule literal_reads [of _ typeNull]; simp add: n)
  then show ?case by simp
next
  case (XString s)
  then show ?case using string_reads [OF stands_for_chars] by (cases n) (simp_all del: read_json.simps)
next
  case (XDatetime dt)
  then show ?case using string_reads [OF datetime_stands] by (cases n) (simp_all del: read_json.simps)
next
  case (XBase64 bytes)
  then show ?case using string_reads [OF base64_stands] by (cases n) (simp_all del: read_json.simps)
qed simp_all


lemma json_value_back:
  assumes "json_readable v"
  shows "json_value pf junk (json_text fmt_e 0 v) = Some (Inr (json_image v))"
proof -
  let ?s = "json_text fmt_e 0 v"
  have s: "?s = json_body fmt_e 0 v" by (simp add: json_text_def spaces_def)
  have "reads_as (read_json (length ?s + 1) pf junk) ?s (json_image v)"
    unfolding s by (rule json_reads [OF assms]) simp
  moreover have "starts ?s" using calculation by (simp add: reads_as_def)
  then have "advanceToNextToken ?s = ?s" using advance_starts [of ?s 0 "[]"] by (simp add: spaces_def)
  then have "advanceToNextToken (tok_end (initializeTokenizer ?s)) = advanceToNextToken (spaces 0 @ ?s @ [])"
    by (simp add: initializeTokenizer_def spaces_def)
  ultimately obtain t1 t2 where t: "getToken (initializeTokenizer ?s) = Inr t1"
      "read_json (length ?s + 1) pf junk t1 = Some (Inr (json_image v, t2))" "tok_end t2 = []"
    by (rule reads_asE) (simp_all add: stops_def)
  obtain t3 where "getToken t2 = Inr t3" "tok_type t3 = typeEof"
    using get_end [of t2] t(3) by (auto simp: advanceToNextToken.simps [of "[]"])
  with t show ?thesis by (simp add: json_value_def del: read_json.simps)
qed

lemma json_char_not_NUL: "NUL \<notin> set (json_char c)"
proof (cases "needs_escape c")
  case True
  then show ?thesis by (auto simp: json_char_def slash_char_def)
next
  case False
  then have "c \<noteq> NUL" by (auto simp: needs_escape_def uchar_def)
  with False show ?thesis by (simp add: json_char_def)
qed

lemma json_chars_not_NUL: "NUL \<notin> set (json_chars s)"
  using json_char_not_NUL by (simp add: json_chars_def)

lemma spaces_not_NUL: "NUL \<notin> set (spaces n)"
  by (simp add: spaces_def)

lemma separated_not_NUL: "(\<And>t. t \<in> set ts \<Longrightarrow> NUL \<notin> set t) \<Longrightarrow> NUL \<notin> set (separated ts)"
  by (induction ts rule: induct_list012) auto

lemma bracketed_not_NUL:
  "(\<And>t. t \<in> set ts \<Longrightarrow> NUL \<notin> set t) \<Longrightarrow> a \<noteq> NUL \<Longrightarrow> z \<noteq> NUL \<Longrightarrow> NUL \<notin> set (bracketed m a ts z)"
  using separated_not_NUL [of ts] by (simp add: bracketed_def spaces_def)

lemma stands_not_NUL: "NUL \<notin> set (json_datetime dt)" "NUL \<notin> set (base64_lines bytes)" "NUL \<notin> set (show_d i)"
proof -
  have "\<not> isdigit NUL" by simp
  then show "NUL \<notin> set (json_datetime dt)" "NUL \<notin> set (show_d i)"
    by (auto simp: json_datetime_def show_d_def dest: isdigit_dec_digits isdigit_pad_u)
  have "NUL \<notin> set (CR # LF # b64_chars)" by code_simp
  then show "NUL \<notin> set (base64_lines bytes)" using base64_lines_chars [of bytes] by auto
qed

lemma json_body_not_NUL: "json_readable v \<Longrightarrow> NUL \<notin> set (json_body fmt_e level v)"
proof (induction v arbitrary: level rule: xvalue.induct)
  case (XArray vs)
  then show ?case unfolding json_body.simps by (intro bracketed_not_NUL) (auto simp: spaces_not_NUL)
next
  case (XStruct kvs)
  then show ?case unfolding json_body.simps
    by (intro bracketed_not_NUL) (auto simp: spaces_not_NUL quoted_def QUOTE_def json_chars_not_NUL)
qed (auto simp: quoted_def QUOTE_def json_chars_not_NUL stands_not_NUL)

section \<open>Properties\<close>

text \<open>C40: the serializer of JSON, whatever memory there is, writes nothing but the text of the value; and with
  memory at hand it writes the text of every value that can be written and fits a block.\<close>
theorem serialize_json_exact:
  assumes "grown_block 1 b"
  shows "(\<forall>b'. xmlrpc_serialize_json fmt_e mok v b = Some (Inr b') \<longrightarrow>
            grown_block 1 b' \<and> block_data 1 b' = block_data 1 b @ json_text fmt_e 0 v) \<and>
         (json_writable fmt_e v \<longrightarrow> length (block_data 1 b) + length (json_text fmt_e 0 v) \<le> BLOCK_ALLOC_MAX \<longrightarrow>
            (\<exists>b'. xmlrpc_serialize_json fmt_e always v b = Some (Inr b')))"
proof (intro conjI allI impI)
  fix b' assume "xmlrpc_serialize_json fmt_e mok v b = Some (Inr b')"
  then show "grown_block 1 b'" "block_data 1 b' = block_data 1 b @ json_text fmt_e 0 v"
    using json_writes_Some [OF json_any_memory.value_written assms, of fmt_e v mok 0 b']
    by (simp_all add: xmlrpc_serialize_json_def del: One_nat_def)
next
  assume "json_writable fmt_e v" "length (block_data 1 b) + length (json_text fmt_e 0 v) \<le> BLOCK_ALLOC_MAX"
  then show "\<exists>b'. xmlrpc_serialize_json fmt_e always v b = Some (Inr b')"
    using json_writes_fits [OF json_memory.value_written assms] by (metis xmlrpc_serialize_json_def)
qed


lemma serialize_json_exact_witness:
  "\<exists>b b'. xmlrpc_serialize_json (\<lambda>_ :: unit. []) always (XArray [XNil, XInt 5]) b = Some (Inr b') \<and>
     block_data 1 b' = json_text (\<lambda>_ :: unit. []) 0 (XArray [XNil, XInt 5])"
proof -
  obtain b0 :: "char mem_block" where b0: "mem_block_new always 1 0 = Inr b0"
    using mem_block_new_ok [of 1 always 0] by (auto simp: always_def)
  note empty = mem_block_new_empty [OF b0]
  let ?v = "XArray [XNil, XInt 5] :: unit xvalue"
  have "json_writable (\<lambda>_. []) ?v" "length (block_data 1 b0) + length (json_text (\<lambda>_. []) 0 ?v) \<le> BLOCK_ALLOC_MAX"
    by (simp_all add: empty(2) json_text_def bracketed_def spaces_def show_d_def del: One_nat_def)
  then show ?thesis
    using serialize_json_exact [OF empty(1), of "\<lambda>_. []" always ?v] empty(2) by (metis append_Nil)
qed

lemma parse_json_back:
  assumes "heap_ok h {} E" "SIZEOF_STRUCT_MEMBER * (length s + 1) \<le> BLOCK_ALLOC_MAX" "NUL \<notin> set s"
    and "json_value pf junk s = Some (Inr v)"
  shows "\<exists>p h'. xmlrpc_parse_json always pf junk (s @ [NUL]) h = Some (Inr p, h') \<and> heap_ok h' {} (add_mset p E) \<and> repr h' p v"
proof -
  have s: "c_str (s @ [NUL]) = s" using assms(3) by (induction s) (auto simp: c_str_def)
  have "simulates False (stays E h) (made E h) (xmlrpc_parse_json always pf junk (s @ [NUL]) h) (Some (Inr v))"
    using sim_parse_json [of h E "s @ [NUL]" pf junk] assms(1,2,4) by (simp add: s)
  then obtain p h' where "xmlrpc_parse_json always pf junk (s @ [NUL]) h = Some (Inr p, h')" "made E h h' p v"
    by (cases "xmlrpc_parse_json always pf junk (s @ [NUL]) h"; cases "fst (the (xmlrpc_parse_json always pf junk (s @ [NUL]) h))")
      (auto simp: simulates_def)
  with madeD [OF assms(1)] show ?thesis by blast
qed

text \<open>C10: what is written as JSON is read back.  The text of a value that has no doubles, C pointers,
  characters that need a Unicode escape or repeated keys, parsed again, gives a new value in the heap that is the value
  written, up to what JSON does not tell apart: integers have 64 bits, and a date or a byte string is the
  string of its text.\<close>
theorem json_roundtrip:
  assumes "grown_block 1 b" "block_data 1 b = []" "xmlrpc_serialize_json fmt_e mok v b = Some (Inr b')"
    and "json_readable v" "heap_ok h {} E"
    and "SIZEOF_STRUCT_MEMBER * (length (json_text fmt_e 0 v) + 1) \<le> BLOCK_ALLOC_MAX"
  shows "\<exists>p h'. xmlrpc_parse_json always pf junk (block_data 1 b' @ [NUL]) h = Some (Inr p, h') \<and>
    heap_ok h' {} (add_mset p E) \<and> repr h' p (json_image v)"
proof -
  have "block_data 1 b' = json_text fmt_e 0 v"
    using json_writes_Some [OF json_any_memory.value_written assms(1), of fmt_e v mok 0 b'] assms(2,3)
    by (simp add: xmlrpc_serialize_json_def del: One_nat_def)
  moreover have "NUL \<notin> set (json_text fmt_e 0 v)"
    using json_body_not_NUL [OF assms(4)] spaces_not_NUL by (simp add: json_text_def)
  ultimately show ?thesis
    using parse_json_back [OF assms(5,6) _ json_value_back [OF assms(4)]] by simp
qed

lemma json_roundtrip_witness:
  "\<exists>b b' p h'. xmlrpc_serialize_json (\<lambda>_ :: unit. []) always (XStruct [(''a'', XInt 5)]) b = Some (Inr b') \<and>
     xmlrpc_parse_json always sample_platform NUL (block_data 1 b' @ [NUL]) no_cells = Some (Inr p, h') \<and>
     repr h' p (XStruct [(''a'', XI8 5)])"
proof -
  obtain b0 :: "char mem_block" where b0: "mem_block_new always 1 0 = Inr b0"
    using mem_block_new_ok [of 1 always 0] by (auto simp: always_def)
  note empty = mem_block_new_empty [OF b0]
  let ?v = "XStruct [(''a'', XInt 5)] :: unit xvalue"
  have a: "escapable ''a''" by code_simp
  then have ok: "json_writable (\<lambda>_. []) ?v" "json_readable ?v" by simp_all
  have len: "length (json_text (\<lambda>_. []) 0 ?v) \<le> 30"
    by (simp add: json_text_def bracketed_def spaces_def show_d_def quoted_def QUOTE_def json_chars_def json_char_def needs_escape_def uchar_def)
  then have "length (block_data 1 b0) + length (json_text (\<lambda>_. []) 0 ?v) \<le> BLOCK_ALLOC_MAX"
    by (simp add: empty(2) del: One_nat_def)
  from json_writes_fits [OF json_memory.value_written empty(1) this] ok(1)
  obtain b' where b': "xmlrpc_serialize_json (\<lambda>_. []) always ?v b0 = Some (Inr b')"
    by (auto simp: xmlrpc_serialize_json_def)
  have "SIZEOF_STRUCT_MEMBER * (length (json_text (\<lambda>_. []) 0 ?v) + 1) \<le> BLOCK_ALLOC_MAX"
    using len by simp
  from json_roundtrip [OF empty(1,2) b' ok(2) no_cells_ok this, of sample_platform NUL] b'
  show ?thesis by (auto simp del: One_nat_def)
qed

subsection \<open>Escapes\<close>

text \<open>The characters that JSON escapes with a backslash and one character.\<close>

definition json_escapes :: "(char \<times> char) list" where
  "json_escapes =
     [(CHR 0x22, CHR 0x22), (CHR 0x5C, CHR 0x5C), (CHR 0x08, CHR ''b''), (CHR 0x0C, CHR ''f''),
      (CHR 0x0A, CHR ''n''), (CHR 0x0D, CHR ''r''), (CHR 0x09, CHR ''t'')]"

definition escaped :: "char \<Rightarrow> string" where
  "escaped c = (case map_of json_escapes c of Some e \<Rightarrow> [CHR 0x5C, e] | None \<Rightarrow> [c])"

definition other_control :: "char \<Rightarrow> bool" where
  "other_control c \<longleftrightarrow> uchar c < 31 \<and> map_of json_escapes c = None"

lemma slash_char_table: "slash_char c = map_of json_escapes c"
  by (simp add: slash_char_def json_escapes_def)

lemma escapes_needed: "map_of json_escapes c = Some e \<Longrightarrow> needs_escape c"
  by (auto simp: json_escapes_def needs_escape_def uchar_def split: if_splits)

lemma other_control_needs: "other_control c \<longleftrightarrow> needs_escape c \<and> slash_char c = None"
  by (auto simp: other_control_def slash_char_table needs_escape_def json_escapes_def)

lemma escapable_exact: "escapable s \<longleftrightarrow> (\<forall>c \<in> set s. \<not> other_control c)"
  by (auto simp: escapable_def other_control_needs)

lemma json_char_escaped: "\<not> other_control c \<Longrightarrow> json_char c = escaped c"
  using escapes_needed [of c]
  by (auto simp: json_char_def escaped_def other_control_needs slash_char_table split: option.split)

lemma json_chars_escaped: "escapable s \<Longrightarrow> json_chars s = concat (map escaped s)"
  unfolding escapable_exact json_chars_def
  by (induction s) (auto simp: json_char_escaped)

lemma json_chars_length: "escapable s \<Longrightarrow> length (json_chars s) \<le> 2 * length s"
proof (induction s)
  case (Cons c s)
  have "length (json_char c) \<le> 2" by (simp add: json_char_def split: option.split)
  then show ?case using Cons by (simp add: json_chars_def escapable_def)
qed (simp add: json_chars_def)

lemma append_text_fits:
  assumes "grown_block 1 b" "length (block_data 1 b) + length t \<le> BLOCK_ALLOC_MAX"
  obtains b' where "append_text always t b = Some (Inr b')" "grown_block 1 b'" "block_data 1 b' = block_data 1 b @ t"
  using json_writes_fits [OF json_memory.append assms] by blast

lemma string_loop_overflow:
  assumes "grown_block 1 b" "length (block_data 1 b) + length pending + 2 * length s \<le> BLOCK_ALLOC_MAX"
    and "c \<in> set s" "other_control c"
  shows "json_string_loop always pending s b = None"
  using assms
proof (induction s arbitrary: pending b)
  case (Cons d s)
  show ?case
  proof (cases "needs_escape d")
    case False
    then have "c \<in> set s" using Cons.prems(3,4) by (auto simp: other_control_needs)
    then show ?thesis using False Cons.IH [of b "pending @ [d]"] Cons.prems by simp
  next
    case True
    obtain b1 where b1: "append_text always pending b = Some (Inr b1)" "grown_block 1 b1" "block_data 1 b1 = block_data 1 b @ pending"
      by (rule append_text_fits [OF Cons.prems(1), of pending]) (use Cons.prems(2) in simp)
    show ?thesis
    proof (cases "slash_char d")
      case None
      then show ?thesis using True b1(1) by (simp add: appendEscapeSeq_def escape_sequence_slash)
    next
      case (Some e)
      then have "c \<in> set s" using Cons.prems(3,4) by (auto simp: other_control_needs)
      moreover obtain b2 where b2: "append_text always [CHR 0x5C, e] b1 = Some (Inr b2)" "grown_block 1 b2"
          "block_data 1 b2 = block_data 1 b1 @ [CHR 0x5C, e]"
        by (rule append_text_fits [OF b1(2), of "[CHR 0x5C, e]"]) (use Cons.prems(2) b1(3) in simp)
      moreover have "length (block_data 1 b2) + length ([] :: string) + 2 * length s \<le> BLOCK_ALLOC_MAX"
        using Cons.prems(2) b1(3) b2(3) by simp
      ultimately have "json_string_loop always [] s b2 = None" using Cons.IH [of b2 "[]"] Cons.prems(4) by blast
      then show ?thesis using True Some b1(1) b2(1) by (simp add: appendEscapeSeq_def escape_sequence_slash)
    qed
  qed
qed simp

text \<open>C30: what the writer of JSON strings does with each string, when there is room in the output.  It writes the
  characters, with a backslash and one character for those that have such an escape, and it never reports a
  fault; but it writes past the end of the buffer of an escape exactly when the string has another
  control character below 31, whatever stands around it.\<close>
theorem json_string_exact:
  assumes "grown_block 1 b" "length (block_data 1 b) + 2 * length s \<le> BLOCK_ALLOC_MAX"
  shows "case makeJsonString always s b of
      None \<Rightarrow> \<exists>c \<in> set s. other_control c
    | Some (Inl f) \<Rightarrow> False
    | Some (Inr b') \<Rightarrow> (\<forall>c \<in> set s. \<not> other_control c) \<and> grown_block 1 b' \<and>
        block_data 1 b' = block_data 1 b @ concat (map escaped s)"
proof (cases "escapable s")
  case True
  have "length (block_data 1 b) + length (json_chars s) \<le> BLOCK_ALLOC_MAX"
    using assms(2) json_chars_length [OF True] by simp
  moreover have "json_writes True (makeJsonString always s) (json_chars s)"
    using json_memory.string_loop [of s "[]"] True by (simp add: makeJsonString_def [abs_def])
  ultimately obtain b' where "makeJsonString always s b = Some (Inr b')" "grown_block 1 b'"
      "block_data 1 b' = block_data 1 b @ json_chars s"
    using json_writes_fits [OF _ assms(1)] by blast
  then show ?thesis using True json_chars_escaped [OF True] by (simp add: escapable_exact del: One_nat_def)
next
  case False
  then obtain c where c: "c \<in> set s" "other_control c" by (auto simp: escapable_exact)
  then have "makeJsonString always s b = None"
    using string_loop_overflow [OF assms(1) _ c, of "[]"] assms(2) by (simp add: makeJsonString_def)
  then show ?thesis using c by auto
qed

text \<open>An escape character after a line feed is one; without it the string is written.\<close>

lemma json_string_exact_witness:
  "\<exists>b0. mem_block_new always 1 0 = Inr b0 \<and> makeJsonString always [CHR ''a'', LF, CHR 0x1B] b0 = None \<and>
     (\<exists>b'. makeJsonString always [CHR ''a'', LF] b0 = Some (Inr b') \<and> block_data 1 b' = [CHR ''a'', CHR 0x5C, CHR ''n''])"
proof -
  obtain b0 :: "char mem_block" where b0: "mem_block_new always 1 0 = Inr b0"
    using mem_block_new_ok [of 1 always 0] by (auto simp: always_def)
  note empty = mem_block_new_empty [OF b0]
  have esc: "other_control (CHR 0x1B)" "\<not> other_control (CHR ''a'')" "\<not> other_control LF"
    "escaped (CHR ''a'') = ''a''" "escaped LF = [CHR 0x5C, CHR ''n'']"
    by (simp_all add: other_control_def escaped_def json_escapes_def uchar_def)
  have room: "length (block_data 1 b0) + 2 * length s \<le> BLOCK_ALLOC_MAX" if "length s \<le> 3" for s :: string
    using empty(2) that by (simp del: One_nat_def)
  have "makeJsonString always [CHR ''a'', LF, CHR 0x1B] b0 = None"
    using json_string_exact [OF empty(1) room, of "[CHR ''a'', LF, CHR 0x1B]"] esc
    by (auto split: option.splits sum.splits)
  moreover have "\<exists>b'. makeJsonString always [CHR ''a'', LF] b0 = Some (Inr b') \<and> block_data 1 b' = [CHR ''a'', CHR 0x5C, CHR ''n'']"
    using json_string_exact [OF empty(1) room, of "[CHR ''a'', LF]"] esc empty(2)
    by (auto simp del: One_nat_def split: option.splits sum.splits)
  ultimately show ?thesis using b0 by blast
qed

end
