(* ===== verification/Abyss_Data.thy ===== *)
theory Abyss_Data
  imports Method Values "HOL-Library.Multiset"
begin

text \<open>
  The tables of the HTTP server (\<open>lib/abyss/src/data.c\<close>) and its tokens (\<open>token.c\<close>).  A pointer into a
  text is the rest of the text.  A number of items is the length of the list; the capacity is the 16-bit
  number of the code.
\<close>

section \<open>Tokens\<close>

definition is_blank :: "char \<Rightarrow> bool" where
  "is_blank c \<longleftrightarrow> c = TAB \<or> c = CHR '' ''"

definition ends_token :: "char \<Rightarrow> bool" where
  "ends_token c \<longleftrightarrow> c = TAB \<or> c = CHR '' '' \<or> c = CR \<or> c = LF \<or> c = NUL"

definition NextToken :: "string \<Rightarrow> string" where
  "NextToken p = dropWhile is_blank p"

text \<open>The token and what follows the character that ends it, which the code overwrites with a NUL.\<close>

definition GetToken :: "string \<Rightarrow> (string \<times> string) option" where
  "GetToken p =
     (let t = takeWhile (\<lambda>c. \<not> ends_token c) p; r = dropWhile (\<lambda>c. \<not> ends_token c) p in
      if t = [] then None else Some (t, tl r))"

lemma GetToken_shrinks: "GetToken p = Some (t, r) \<Longrightarrow> length r < length p"
proof -
  assume "GetToken p = Some (t, r)"
  then have t: "t = takeWhile (\<lambda>c. \<not> ends_token c) p" "t \<noteq> []" "r = tl (dropWhile (\<lambda>c. \<not> ends_token c) p)"
    by (auto simp: GetToken_def Let_def split: if_splits)
  have "length p = length t + length (dropWhile (\<lambda>c. \<not> ends_token c) p)"
    unfolding t(1) by (metis length_append takeWhile_dropWhile_id)
  then show ?thesis using t(2,3) by (cases t) auto
qed

section \<open>Hashes\<close>

definition Hash16 :: "string \<Rightarrow> 16 word" where
  "Hash16 start = foldl (\<lambda>i c. i * 37 + word_of_int (schar c)) 0 start"

section \<open>Tables\<close>

text \<open>The copies of the name and the value are not checked for a null pointer.\<close>

record table_item =
  item_name :: "string option"
  item_value :: "string option"
  item_hash :: "16 word"

record ttable =
  table_items :: "table_item list"
  table_maxsize :: "16 word"

definition SIZEOF_TABLE_ITEM :: nat where
  "SIZEOF_TABLE_ITEM = 24"

definition strdup :: "(nat \<Rightarrow> bool) \<Rightarrow> string \<Rightarrow> string option" where
  "strdup mok s = (if mok (length s + 1) then Some s else None)"

definition TableInit :: ttable where
  "TableInit = \<lparr>table_items = [], table_maxsize = 0\<rparr>"

text \<open>Comparing a name that is a null pointer is undefined.\<close>

fun find_index_from :: "16 word \<Rightarrow> string \<Rightarrow> nat \<Rightarrow> table_item list \<Rightarrow> nat option option" where
  "find_index_from hash name i [] = Some None"
| "find_index_from hash name i (x # xs) =
     (if hash = item_hash x
      then
        (case item_name x of
           None \<Rightarrow> None
         | Some n \<Rightarrow> if n = name then Some (Some i) else find_index_from hash name (i + 1) xs)
      else find_index_from hash name (i + 1) xs)"

definition TableFindIndex :: "ttable \<Rightarrow> string \<Rightarrow> nat \<Rightarrow> nat option option" where
  "TableFindIndex t name index =
     (if index < length (table_items t) then find_index_from (Hash16 name) name index (drop index (table_items t)) else Some None)"

text \<open>When the capacity wraps around to zero, the items are given back and the table keeps their address.\<close>

definition TableAdd :: "(nat \<Rightarrow> bool) \<Rightarrow> ttable \<Rightarrow> string \<Rightarrow> string \<Rightarrow> (bool \<times> ttable) option" where
  "TableAdd mok t name value =
     (let put = (\<lambda>t. Some (True, t\<lparr>table_items := table_items t @
                   [\<lparr>item_name = strdup mok name, item_value = strdup mok value, item_hash = Hash16 name\<rparr>]\<rparr>)) in
      if unat (table_maxsize t) \<le> length (table_items t)
      then
        (let newmax = table_maxsize t + 16 in
         if newmax = 0 then None
         else if mok (unat newmax * SIZEOF_TABLE_ITEM) then put (t\<lparr>table_maxsize := newmax\<rparr>)
         else Some (False, t))
      else put t)"

text \<open>A missing value removes the item, and the last one takes its place; if there is no item, the missing
  value is copied.\<close>

definition TableAddReplace :: "(nat \<Rightarrow> bool) \<Rightarrow> ttable \<Rightarrow> string \<Rightarrow> string option \<Rightarrow> (bool \<times> ttable) option" where
  "TableAddReplace mok t name value =
     (case TableFindIndex t name 0 of
        None \<Rightarrow> None
      | Some (Some i) \<Rightarrow>
          (case value of
             Some v \<Rightarrow> Some (True, t\<lparr>table_items := (table_items t)[i := (table_items t ! i)\<lparr>item_value := strdup mok v\<rparr>]\<rparr>)
           | None \<Rightarrow> Some (True, t\<lparr>table_items := butlast ((table_items t)[i := last (table_items t)])\<rparr>))
      | Some None \<Rightarrow> (case value of Some v \<Rightarrow> TableAdd mok t name v | None \<Rightarrow> None))"

definition TableFind :: "ttable \<Rightarrow> string \<Rightarrow> string option option" where
  "TableFind t name =
     (case TableFindIndex t name 0 of
        None \<Rightarrow> None
      | Some None \<Rightarrow> Some None
      | Some (Some i) \<Rightarrow> Some (item_value (table_items t ! i)))"

subsection \<open>A table is a list of fields\<close>

definition item_ok :: "table_item \<Rightarrow> bool" where
  "item_ok x \<longleftrightarrow> (\<exists>n v. item_name x = Some n \<and> item_value x = Some v \<and> item_hash x = Hash16 n)"

definition table_ok :: "ttable \<Rightarrow> bool" where
  "table_ok t \<longleftrightarrow> (\<forall>x \<in> set (table_items t). item_ok x) \<and> length (table_items t) \<le> unat (table_maxsize t) \<and> 16 dvd unat (table_maxsize t)"

definition item_field :: "table_item \<Rightarrow> string \<times> string" where
  "item_field x = (the (item_name x), the (item_value x))"

definition table_fields :: "ttable \<Rightarrow> (string \<times> string) list" where
  "table_fields t = map item_field (table_items t)"

lemma item_okD:
  assumes "item_ok x"
  shows "item_name x = Some (fst (item_field x))" "item_value x = Some (snd (item_field x))"
    "item_hash x = Hash16 (fst (item_field x))"
  using assms by (auto simp: item_ok_def item_field_def)

lemma find_index:
  assumes "\<forall>x \<in> set xs. item_ok x"
  shows "find_index_from (Hash16 name) name i xs =
    Some (if name \<in> fst ` item_field ` set xs then Some (i + length (takeWhile (\<lambda>x. fst (item_field x) \<noteq> name) xs)) else None)"
  using assms by (induction xs arbitrary: i) (auto simp: item_okD)

lemma TableFindIndex_field:
  assumes "table_ok t"
  shows "TableFindIndex t name 0 =
    Some (if name \<in> fst ` set (table_fields t)
          then Some (length (takeWhile (\<lambda>x. fst (item_field x) \<noteq> name) (table_items t))) else None)"
  using assms find_index [of "table_items t" name 0]
  by (auto simp: TableFindIndex_def table_ok_def table_fields_def)

lemma first_field:
  assumes "name \<in> fst ` set (map f xs)"
  shows "\<exists>ys x zs. xs = ys @ x # zs \<and> fst (f x) = name \<and> name \<notin> fst ` set (map f ys) \<and>
    length (takeWhile (\<lambda>x. fst (f x) \<noteq> name) xs) = length ys"
proof -
  from assms have "\<exists>x \<in> set xs. fst (f x) = name" by auto
  then obtain ys x zs where xs: "xs = ys @ x # zs" "fst (f x) = name" "\<forall>y \<in> set ys. fst (f y) \<noteq> name"
    by (rule split_list_first_propE)
  moreover have "takeWhile (\<lambda>x. fst (f x) \<noteq> name) xs = ys" using xs by (simp add: takeWhile_append)
  moreover have "name \<notin> fst ` set (map f ys)" using xs(3) by (auto simp: image_image)
  ultimately show ?thesis by auto
qed

lemma map_of_first: "name \<notin> fst ` set ys \<Longrightarrow> map_of (ys @ (name, v) # zs) name = Some v"
  by (induction ys) auto

lemma TableFind_field:
  assumes "table_ok t"
  shows "TableFind t name = Some (map_of (table_fields t) name)"
proof (cases "name \<in> fst ` set (table_fields t)")
  case True
  then obtain ys x zs where x: "table_items t = ys @ x # zs" "fst (item_field x) = name"
      "name \<notin> fst ` set (map item_field ys)"
      "length (takeWhile (\<lambda>x. fst (item_field x) \<noteq> name) (table_items t)) = length ys"
    unfolding table_fields_def using first_field [of name item_field "table_items t"] by blast
  have "item_ok x" using assms x(1) by (simp add: table_ok_def)
  note item_okD(2) [OF this]
  moreover have "table_fields t = map item_field ys @ (name, snd (item_field x)) # map item_field zs"
    using x(1,2) by (simp add: table_fields_def prod_eq_iff)
  then have "map_of (table_fields t) name = Some (snd (item_field x))" using map_of_first [OF x(3)] by simp
  ultimately show ?thesis using TableFindIndex_field [OF assms, of name] True x(4) by (simp add: TableFind_def x(1))
next
  case False
  then have "map_of (table_fields t) name = None" by (simp add: map_of_eq_None_iff)
  with False show ?thesis using TableFindIndex_field [OF assms, of name] by (simp add: TableFind_def)
qed

lemma table_init_ok: "table_ok TableInit" "table_fields TableInit = []"
  by (simp_all add: table_ok_def TableInit_def table_fields_def)

lemma capacity_grows:
  fixes m :: "16 word"
  assumes "unat m < 65520"
  shows "unat (m + 16) = unat m + 16" "m + 16 \<noteq> 0"
proof -
  show eq: "unat (m + 16) = unat m + 16" using assms by (subst unat_add_lem [THEN iffD1]) simp_all
  then show "m + 16 \<noteq> 0" by (metis add_is_0 unat_0 zero_neq_numeral)
qed

lemma TableAdd_field:
  assumes "table_ok t" "length (table_items t) < 65520"
  shows "\<exists>t'. TableAdd always t name value = Some (True, t') \<and> table_ok t' \<and> table_fields t' = table_fields t @ [(name, value)]"
proof -
  let ?x = "\<lparr>item_name = Some name, item_value = Some value, item_hash = Hash16 name\<rparr>"
  have ok: "\<forall>x \<in> set (table_items t @ [?x]). item_ok x" and cap: "length (table_items t) \<le> unat (table_maxsize t)"
    and dvd: "16 dvd unat (table_maxsize t)"
    using assms(1) by (auto simp: table_ok_def item_ok_def)
  have field: "map item_field (table_items t @ [?x]) = table_fields t @ [(name, value)]"
    by (simp add: item_field_def table_fields_def)
  show ?thesis
  proof (cases "unat (table_maxsize t) \<le> length (table_items t)")
    case True
    then have "unat (table_maxsize t) < 65520" using assms(2) by simp
    note grown = capacity_grows [OF this]
    have "table_ok (t\<lparr>table_maxsize := table_maxsize t + 16, table_items := table_items t @ [?x]\<rparr>)"
      using ok cap dvd grown(1) by (simp add: table_ok_def)
    then show ?thesis using True grown(2) field
      by (simp add: TableAdd_def Let_def strdup_def always_def table_fields_def)
  next
    case False
    have "table_ok (t\<lparr>table_items := table_items t @ [?x]\<rparr>)" using ok dvd False by (simp add: table_ok_def)
    then show ?thesis using False field by (simp add: TableAdd_def Let_def strdup_def always_def table_fields_def)
  qed
qed

lemma TableAddReplace_field:
  assumes "table_ok t" "length (table_items t) < 65520"
  shows "\<exists>t'. TableAddReplace always t name (Some value) = Some (True, t') \<and> table_ok t' \<and>
    map_of (table_fields t') = (map_of (table_fields t))(name \<mapsto> value)"
proof (cases "name \<in> fst ` set (table_fields t)")
  case True
  then obtain ys x zs where x: "table_items t = ys @ x # zs" "fst (item_field x) = name"
      "name \<notin> fst ` set (map item_field ys)"
      "length (takeWhile (\<lambda>x. fst (item_field x) \<noteq> name) (table_items t)) = length ys"
    unfolding table_fields_def using first_field [of name item_field "table_items t"] by blast
  let ?x = "x\<lparr>item_value := Some value\<rparr>" and ?t = "t\<lparr>table_items := ys @ x\<lparr>item_value := Some value\<rparr> # zs\<rparr>"
  have "TableAddReplace always t name (Some value) = Some (True, ?t)"
    using TableFindIndex_field [OF assms(1), of name] True x(4)
    by (simp add: TableAddReplace_def x(1) strdup_def always_def)
  moreover have "table_ok ?t" using assms(1) x(1) by (auto simp: table_ok_def item_ok_def)
  moreover have "map_of (table_fields ?t) m = ((map_of (table_fields t))(name \<mapsto> value)) m" for m
  proof -
    have "table_fields t = map item_field ys @ (name, snd (item_field x)) # map item_field zs"
      "table_fields ?t = map item_field ys @ (name, value) # map item_field zs"
      using x(1,2) by (simp_all add: table_fields_def item_field_def prod_eq_iff)
    then show ?thesis using x(3) map_of_first [OF x(3)]
      by (cases "m = name") (auto simp: map_add_def split: option.split)
  qed
  ultimately show ?thesis by blast
next
  case False
  then have none: "TableFindIndex t name 0 = Some None" "name \<notin> dom (map_of (table_fields t))"
    using TableFindIndex_field [OF assms(1), of name] by (auto simp: dom_map_of_conv_image_fst)
  from TableAdd_field [OF assms, of name "value"] obtain t' where t': "TableAdd always t name value = Some (True, t')"
      "table_ok t'" "table_fields t' = table_fields t @ [(name, value)]"
    by blast
  have "map_of (table_fields t') = (map_of (table_fields t))(name \<mapsto> value)"
    using none(2) by (auto simp: t'(3) fun_eq_iff map_add_def split: option.split)
  with none(1) t' show ?thesis by (simp add: TableAddReplace_def)
qed

lemma TableAddReplace_removes:
  assumes "table_ok t" "distinct (map fst (table_fields t))" "name \<in> fst ` set (table_fields t)"
  shows "\<exists>t'. TableAddReplace mok t name None = Some (True, t') \<and> table_ok t' \<and>
    distinct (map fst (table_fields t')) \<and> map_of (table_fields t') = (map_of (table_fields t))(name := None)"
proof -
  obtain ys x zs where x: "table_items t = ys @ x # zs" "fst (item_field x) = name"
      "name \<notin> fst ` set (map item_field ys)"
      "length (takeWhile (\<lambda>x. fst (item_field x) \<noteq> name) (table_items t)) = length ys"
    using assms(3) unfolding table_fields_def using first_field [of name item_field "table_items t"] by blast
  let ?rest = "butlast ((table_items t)[length ys := last (table_items t)])"
  let ?t = "t\<lparr>table_items := ?rest\<rparr>"
  have rest: "mset ?rest = mset (ys @ zs)"
    by (cases zs rule: rev_cases) (simp_all add: x(1) list_update_append butlast_append)
  have t: "TableAddReplace mok t name None = Some (True, ?t)"
    using TableFindIndex_field [OF assms(1), of name] assms(3) x(4) by (simp add: TableAddReplace_def)
  have "set ?rest = set (ys @ zs)" "length ?rest = length (ys @ zs)"
    using rest by (metis mset_eq_setD, metis mset_eq_length)
  then have ok: "table_ok ?t" using assms(1) by (simp add: table_ok_def x(1))
  have fields: "mset (table_fields ?t) = mset (map item_field (ys @ zs))"
    using rest by (simp add: table_fields_def)
  have perm: "map_of xs = map_of ys" if "mset xs = mset ys" "distinct (map fst ys)" for xs ys :: "(string \<times> string) list"
  proof -
    have "set xs = set ys" "distinct (map fst xs)"
      using that by (metis mset_eq_setD, metis mset_eq_imp_distinct_iff mset_map)
    then have "map_of xs k = Some v \<longleftrightarrow> map_of ys k = Some v" for k v using that(2) by simp
    then show ?thesis by (intro ext) (metis option.exhaust)
  qed
  have old: "table_fields t = map item_field ys @ (name, snd (item_field x)) # map item_field zs"
    using x(1,2) by (simp add: table_fields_def prod_eq_iff)
  then have d: "distinct (map fst (map item_field (ys @ zs)))" using assms(2) by auto
  then have d': "distinct (map fst (table_fields ?t))" using fields by (metis mset_eq_imp_distinct_iff mset_map)
  have "name \<notin> fst ` set (map item_field zs)" using assms(2) old by auto
  then have gone: "map_of (map item_field zs) name = None" "map_of (map item_field ys) name = None"
    using x(3) by (simp_all add: map_of_eq_None_iff)
  have "map_of (table_fields ?t) = map_of (map item_field (ys @ zs))" by (rule perm [OF fields d])
  also have "\<dots> = (map_of (table_fields t))(name := None)"
    using gone by (auto simp: old fun_eq_iff map_add_def split: option.split)
  finally show ?thesis using t ok d' by blast
qed

subsection \<open>The interface of a store of fields\<close>

locale field_store =
  fixes store_ok :: "'t \<Rightarrow> bool" and fields :: "'t \<Rightarrow> (string \<times> string) list"
    and add :: "'t \<Rightarrow> string \<Rightarrow> string \<Rightarrow> 't option" and look :: "'t \<Rightarrow> string \<Rightarrow> string option option"
    and room :: nat
  assumes look_field: "store_ok t \<Longrightarrow> look t n = Some (map_of (fields t) n)"
    and add_field: "store_ok t \<Longrightarrow> length (fields t) < room \<Longrightarrow>
      \<exists>t'. add t n v = Some t' \<and> store_ok t' \<and> fields t' = fields t @ [(n, v)]"
begin

fun add_fields :: "'t \<Rightarrow> (string \<times> string) list \<Rightarrow> 't option" where
  "add_fields t [] = Some t"
| "add_fields t ((n, v) # fs) = (case add t n v of None \<Rightarrow> None | Some t' \<Rightarrow> add_fields t' fs)"

lemma add_fields_ok:
  "store_ok t \<Longrightarrow> length (fields t) + length fs \<le> room \<Longrightarrow>
   \<exists>t'. add_fields t fs = Some t' \<and> store_ok t' \<and> fields t' = fields t @ fs"
proof (induction fs arbitrary: t)
  case (Cons f fs)
  obtain n v where f: "f = (n, v)" by (cases f)
  from Cons.prems add_field [of t n v] obtain t1
    where t1: "add t n v = Some t1" "store_ok t1" "fields t1 = fields t @ [(n, v)]" by auto
  moreover have "length (fields t1) + length fs \<le> room" using Cons.prems t1 by simp
  ultimately obtain t2 where "add_fields t1 fs = Some t2" "store_ok t2" "fields t2 = fields t1 @ fs"
    using Cons.IH by blast
  with t1 show ?case by (simp add: f)
qed simp

lemma look_first_added:
  "store_ok t \<Longrightarrow> fields t = [] \<Longrightarrow> length fs \<le> room \<Longrightarrow>
   \<exists>t'. add_fields t fs = Some t' \<and> store_ok t' \<and> (\<forall>n. look t' n = Some (map_of fs n))"
  using add_fields_ok [of t fs] look_field by fastforce

end

definition add_to_table :: "ttable \<Rightarrow> string \<Rightarrow> string \<Rightarrow> ttable option" where
  "add_to_table t n v = map_option snd (TableAdd always t n v)"

lemma field_count: "length (table_fields t) = length (table_items t)"
  by (simp add: table_fields_def)

interpretation table_store: field_store table_ok table_fields add_to_table TableFind 65520
proof unfold_locales
  show "table_ok t \<Longrightarrow> TableFind t n = Some (map_of (table_fields t) n)" for t n by (rule TableFind_field)
  show "table_ok t \<Longrightarrow> length (table_fields t) < 65520 \<Longrightarrow>
      \<exists>t'. add_to_table t n v = Some t' \<and> table_ok t' \<and> table_fields t' = table_fields t @ [(n, v)]" for t n v
    using TableAdd_field [of t n v] by (auto simp: add_to_table_def field_count)
qed

section \<open>What a table holds\<close>

text \<open>Adding fields one after the other keeps the table, and looking for a name finds the value of the first field
  of that name, or nothing.\<close>
theorem table_finds_first_field:
  assumes "length fs \<le> 65520"
  shows "\<exists>t. table_store.add_fields TableInit fs = Some t \<and> table_ok t \<and> (\<forall>n. TableFind t n = Some (map_of fs n))"
  by (rule table_store.look_first_added [OF table_init_ok assms])

text \<open>Replacing in a table is updating a map; without a value the first field of the name goes, and the last one
  takes its place.\<close>
theorem table_replace_updates:
  assumes "table_ok t" "length (table_items t) < 65520"
  shows "(\<exists>t'. TableAddReplace always t name (Some v) = Some (True, t') \<and> table_ok t' \<and>
            map_of (table_fields t') = (map_of (table_fields t))(name \<mapsto> v)) \<and>
         (distinct (map fst (table_fields t)) \<longrightarrow> name \<in> fst ` set (table_fields t) \<longrightarrow>
            (\<exists>t'. TableAddReplace always t name None = Some (True, t') \<and> table_ok t' \<and>
              distinct (map fst (table_fields t')) \<and> map_of (table_fields t') = (map_of (table_fields t))(name := None)))"
  using TableAddReplace_field [OF assms, of name v] TableAddReplace_removes [OF assms(1), of name always] by blast

end
