(* ===== verification/Abyss_Http.thy ===== *)
theory Abyss_Http
  imports Abyss_Data
begin

text \<open>
  What the HTTP server makes of the first line of a request, and which paths it serves
  (\<open>lib/abyss/src/http.c\<close>).  A component function reports an error as a text, \<open>Inl\<close>; the memory for that
  text is taken to be there.  \<open>None\<close> around a result is undefined behaviour (a version number that does not
  fit an \<open>int\<close>).  A pointer into a text is the rest of the text.
\<close>

section \<open>Components of a URI\<close>

type_synonym 'a parsed = "string + 'a"

definition tolower :: "char \<Rightarrow> char" where
  "tolower c = (if 65 \<le> uchar c \<and> uchar c \<le> 90 then chr (uchar c + 32) else c)"

definition hexDigitValue :: "char \<Rightarrow> nat parsed" where
  "hexDigitValue digit =
     (if digit = NUL then Inl ''string ends in the middle of a % escape sequence''
      else
        (let digitLc = tolower digit in
         if 48 \<le> uchar digitLc \<and> uchar digitLc \<le> 57 then Inr (nat (uchar digitLc - 48))
         else if 97 \<le> uchar digitLc \<and> uchar digitLc \<le> 102 then Inr (nat (10 + uchar digitLc - 97))
         else Inl (vformat [Txt ''Non-hexadecimal digit '', Txt [CHR 0x27], PctC digit, Txt [CHR 0x27], Txt '' in '',
                            Txt ''%HH escape sequence''])))"

text \<open>The first argument is what has been written.  The character read as the first digit is the percent sign
  itself.\<close>

fun unescape_chars :: "string \<Rightarrow> string \<Rightarrow> string parsed" where
  "unescape_chars dst [] = Inr dst"
| "unescape_chars dst (c # src) =
     (if c = CHR ''%''
      then bindE (hexDigitValue c) (\<lambda>digit0.
           bindE (hexDigitValue (peek src)) (\<lambda>digit1.
             unescape_chars (dst @ [chr (int (digit0 * 16 + digit1))]) (tl src)))
      else unescape_chars (dst @ [c]) src)"

definition unescapeUri :: "(nat \<Rightarrow> bool) \<Rightarrow> string \<Rightarrow> string parsed" where
  "unescapeUri mok uriComponent =
     (case strdup mok uriComponent of
        None \<Rightarrow> Inl (''Couldn'' @ [CHR 0x27] @ ''t get memory for URI unescape buffer'')
      | Some buffer \<Rightarrow> bindE (unescape_chars [] buffer) (\<lambda>dst. Inr (c_str dst)))"

text \<open>\<open>strchr\<close> and \<open>strrchr\<close>, with the text before the place they find and the text after it.\<close>

definition strchr :: "char \<Rightarrow> string \<Rightarrow> (string \<times> string) option" where
  "strchr c s =
     (if c \<in> set s then Some (takeWhile (\<lambda>x. x \<noteq> c) s, tl (dropWhile (\<lambda>x. x \<noteq> c) s)) else None)"

definition strrchr :: "char \<Rightarrow> string \<Rightarrow> (string \<times> string) option" where
  "strrchr c s = map_option (\<lambda>(after, before). (rev before, rev after)) (strchr c (rev s))"

text \<open>The loop ends when the number has reached 65535; what it then is, is cut to 16 bits.\<close>

fun port_digits :: "nat \<Rightarrow> string \<Rightarrow> nat \<times> string" where
  "port_digits port [] = (port, [])"
| "port_digits port (c # p) =
     (if isdigit c \<and> port < 65535 then port_digits (port * 10 + digit_val c) p else (port, c # p))"

definition parseHostPort :: "(nat \<Rightarrow> bool) \<Rightarrow> string \<Rightarrow> (string \<times> 16 word) parsed" where
  "parseHostPort mok hostport =
     (case strdup mok hostport of
        None \<Rightarrow> Inl (''Couldn'' @ [CHR 0x27] @ ''t get memory for host/port buffer'')
      | Some buffer \<Rightarrow>
          (case strrchr (CHR '':'') buffer of
             Some (host, rest) \<Rightarrow>
               (let (port, p) = port_digits 0 rest in
                if p \<noteq> [] \<or> port = 0
                then Inl (vformat [Txt ''There is nothing, or something '', Txt ''non-numeric for the port number after the '',
                                   Txt ''colon in '', Txt [CHR 0x27], PctS hostport, Txt [CHR 0x27]])
                else Inr (xmlrpc_strdupsol mok host, of_nat port))
           | None \<Rightarrow> Inr (xmlrpc_strdupsol mok buffer, 80)))"

definition splitUriQuery :: "(nat \<Rightarrow> bool) \<Rightarrow> string \<Rightarrow> (string option \<times> string) parsed" where
  "splitUriQuery mok requestUri =
     (case strdup mok requestUri of
        None \<Rightarrow> Inl (''Couldn'' @ [CHR 0x27] @ ''t get memory for URI buffer'')
      | Some buffer \<Rightarrow>
          (case strchr (CHR ''?'') buffer of
             Some (noQuery, query) \<Rightarrow> Inr (Some (xmlrpc_strdupsol mok query), noQuery)
           | None \<Rightarrow> Inr (None, buffer)))"

text \<open>The copy of the star is not checked.\<close>

definition parseHttpHostPortPath :: "(nat \<Rightarrow> bool) \<Rightarrow> string \<Rightarrow> (string \<times> 16 word \<times> string option) parsed" where
  "parseHttpHostPortPath mok hostportpath =
     (case strdup mok hostportpath of
        None \<Rightarrow> Inl (''Couldn'' @ [CHR 0x27] @ ''t get memory for host/port/path buffer'')
      | Some buffer \<Rightarrow>
          (let (hostport, path) =
             (case strchr (CHR ''/'') buffer of
                Some (hostport, r) \<Rightarrow> (hostport, Some (xmlrpc_strdupsol mok (CHR ''/'' # r)))
              | None \<Rightarrow> (buffer, strdup mok ''*''))
           in bindE (parseHostPort mok hostport) (\<lambda>(host, port). Inr (host, port, path))))"

definition unescape_component :: "(nat \<Rightarrow> bool) \<Rightarrow> string option \<Rightarrow> string option parsed" where
  "unescape_component mok component =
     (case component of None \<Rightarrow> Inr None | Some s \<Rightarrow> bindE (unescapeUri mok s) (\<lambda>u. Inr (Some u)))"

definition unescapeHostPathQuery ::
    "(nat \<Rightarrow> bool) \<Rightarrow> string option \<Rightarrow> string option \<Rightarrow> string option \<Rightarrow>
     (string option \<times> string option \<times> string option) parsed" where
  "unescapeHostPathQuery mok host path query =
     bindE (unescape_component mok host) (\<lambda>h.
     bindE (unescape_component mok path) (\<lambda>p.
     bindE (unescape_component mok query) (\<lambda>q. Inr (h, p, q))))"

definition parseRequestUri ::
    "(nat \<Rightarrow> bool) \<Rightarrow> string \<Rightarrow> (string option \<times> 16 word \<times> string option \<times> string option) parsed" where
  "parseRequestUri mok requestUri =
     bindE (splitUriQuery mok requestUri) (\<lambda>(query, requestUriNoQuery).
     bindE (if peek requestUriNoQuery = CHR ''/''
            then Inr (None, 80, Some (xmlrpc_strdupsol mok requestUriNoQuery))
            else if take 7 requestUriNoQuery \<noteq> ''http://'' then Inl ''Scheme is not http://''
            else bindE (parseHttpHostPortPath mok (drop 7 requestUriNoQuery)) (\<lambda>(host, port, path). Inr (Some host, port, path)))
       (\<lambda>(host, port, path).
     bindE (unescapeHostPathQuery mok host path query) (\<lambda>(h, p, q). Inr (h, port, p, q))))"

section \<open>The request line\<close>

datatype TMethod = m_unknown | m_get | m_put | m_head | m_post | m_delete | m_trace | m_options

definition method_of_name :: "string \<Rightarrow> TMethod" where
  "method_of_name httpMethodName =
     (if httpMethodName = ''GET'' then m_get
      else if httpMethodName = ''PUT'' then m_put
      else if httpMethodName = ''OPTIONS'' then m_options
      else if httpMethodName = ''DELETE'' then m_delete
      else if httpMethodName = ''POST'' then m_post
      else if httpMethodName = ''TRACE'' then m_trace
      else if httpMethodName = ''HEAD'' then m_head
      else m_unknown)"

text \<open>\<open>%d\<close> of \<open>sscanf\<close>: nothing converted (\<open>Some None\<close>), or the number and the rest.  A number that does not fit
  is undefined.\<close>

definition scan_d :: "string \<Rightarrow> (int \<times> string) option option" where
  "scan_d s =
     (let (erange, v, tail) = strtol (- (2 ^ 31)) (2 ^ 31 - 1) s in
      if tail = s then Some None else if erange then None else Some (Some (v, tail)))"

definition scan_http_version :: "string \<Rightarrow> (int \<times> int) option option" where
  "scan_http_version v =
     (if take 5 v \<noteq> ''HTTP/'' then Some None
      else
        (case scan_d (drop 5 v) of
           None \<Rightarrow> None
         | Some None \<Rightarrow> Some None
         | Some (Some (vmaj, r)) \<Rightarrow>
             if peek r \<noteq> CHR ''.'' then Some None
             else
               (case scan_d (tl r) of
                  None \<Rightarrow> None
                | Some None \<Rightarrow> Some None
                | Some (Some (vmin, _)) \<Rightarrow> Some (Some (vmaj, vmin)))))"

text \<open>Without a version there are no more lines, and the version that was there before stays.\<close>

record request_line =
  rl_method :: TMethod
  rl_version :: "(8 word \<times> 8 word) option"
  rl_host :: "string option"
  rl_port :: "16 word"
  rl_path :: "string option"
  rl_query :: "string option"
  rl_moreLines :: bool

text \<open>An error is the HTTP error code.\<close>

definition parseRequestLine :: "(nat \<Rightarrow> bool) \<Rightarrow> string \<Rightarrow> (nat + request_line) option" where
  "parseRequestLine mok requestLine =
     (case GetToken (NextToken requestLine) of
        None \<Rightarrow> Some (Inl 400)
      | Some (httpMethodName, p1) \<Rightarrow>
          (case GetToken (NextToken p1) of
             None \<Rightarrow> Some (Inl 400)
           | Some (requestUri, p2) \<Rightarrow>
               (case parseRequestUri mok requestUri of
                  Inl error \<Rightarrow> Some (Inl 400)
                | Inr (host, port, path, query) \<Rightarrow>
                    (let line = \<lparr>rl_method = method_of_name httpMethodName, rl_version = None, rl_host = host, rl_port = port,
                                 rl_path = path, rl_query = query, rl_moreLines = False\<rparr> in
                     case GetToken (NextToken p2) of
                       None \<Rightarrow> Some (Inr line)
                     | Some (httpVersion, _) \<Rightarrow>
                         (case scan_http_version httpVersion of
                            None \<Rightarrow> None
                          | Some None \<Rightarrow> Some (Inl 400)
                          | Some (Some (vmaj, vmin)) \<Rightarrow>
                              Some (Inr (line\<lparr>rl_version := Some (of_int vmaj, of_int vmin), rl_moreLines := True\<rparr>)))))))"

section \<open>Which paths are served\<close>

definition RequestValidURI :: "string option \<Rightarrow> TMethod \<Rightarrow> bool" where
  "RequestValidURI uri m =
     (case uri of
        None \<Rightarrow> False
      | Some u \<Rightarrow> if u = ''*'' then m \<noteq> m_options else CHR ''*'' \<notin> set u)"

text \<open>The loop of \<open>RequestValidURIPath\<close>: \<open>i\<close> is one more than the depth below the root.\<close>

function path_loop :: "32 word \<Rightarrow> string \<Rightarrow> bool" where
  "path_loop i [] \<longleftrightarrow> 0 < i"
| "path_loop i (c # p) \<longleftrightarrow>
     (if c \<noteq> CHR ''/'' then path_loop i p
      else if peek p = CHR ''/'' then False
      else if take 2 p = ''./'' \<or> p = ''.'' then path_loop i (tl p)
      else if take 3 p = ''../'' \<or> p = ''..''
      then (let i' = i - 1; p' = drop 2 p in if i' = 0 then p' = [] \<and> 0 < i' else path_loop i' p')
      else if peek p = CHR ''.'' then False
      else path_loop (if p \<noteq> [] then i + 1 else i) p)"
  by pat_completeness auto
termination by (relation "measure (\<lambda>(_, p). length p)") auto

definition RequestValidURIPath :: "string \<Rightarrow> bool" where
  "RequestValidURIPath uri = (peek uri = CHR ''/'' \<and> path_loop 1 uri)"

section \<open>What a path leads to\<close>

text \<open>A path as its components; following them from the root, the innermost directory first in the list.  An
  empty component may only be the last one, and no name may begin with a period.\<close>

definition path_text :: "string list \<Rightarrow> string" where
  "path_text cs = concat (map (Cons (CHR ''/'')) cs)"

fun resolve :: "string list \<Rightarrow> string list \<Rightarrow> string list option" where
  "resolve dirs [] = Some dirs"
| "resolve dirs (c # cs) =
     (if c = [] then (if cs = [] then Some dirs else None)
      else if c = ''.'' then resolve dirs cs
      else if c = ''..'' then (case dirs of [] \<Rightarrow> None | _ # up \<Rightarrow> resolve up cs)
      else if hd c = CHR ''.'' then None
      else resolve (c # dirs) cs)"

definition component :: "string \<Rightarrow> bool" where
  "component c \<longleftrightarrow> CHR ''/'' \<notin> set c"

lemma path_text_simps [simp]: "path_text [] = []" "path_text (c # cs) = CHR ''/'' # c @ path_text cs"
  by (simp_all add: path_text_def)

lemma path_components:
  "peek uri = CHR ''/'' \<Longrightarrow> \<exists>cs. uri = path_text cs \<and> cs \<noteq> [] \<and> list_all component cs"
proof (induction "length uri" arbitrary: uri rule: less_induct)
  case less
  then obtain s where uri: "uri = CHR ''/'' # s" by (cases uri) auto
  let ?c = "takeWhile (\<lambda>x. x \<noteq> CHR ''/'') s" and ?r = "dropWhile (\<lambda>x. x \<noteq> CHR ''/'') s"
  have c: "component ?c" by (auto simp: component_def dest: set_takeWhileD)
  show ?case
  proof (cases "?r = []")
    case True
    then have "s = ?c" by (metis append_Nil2 takeWhile_dropWhile_id)
    with uri c show ?thesis by (intro exI [of _ "[?c]"]) simp
  next
    case False
    then have "peek ?r = CHR ''/''" using hd_dropWhile [of "\<lambda>x. x \<noteq> CHR ''/''" s] by (cases ?r) auto
    moreover have "length ?r < length uri" using uri length_dropWhile_le [of "\<lambda>x. x \<noteq> CHR ''/''" s] by simp
    ultimately obtain cs where "?r = path_text cs" "list_all component cs" using less.hyps by blast
    with uri c show ?thesis
      by (intro exI [of _ "?c # cs"]) (simp, metis takeWhile_dropWhile_id)
  qed
qed

lemma path_loop_name: "component c \<Longrightarrow> path_loop i (c @ r) = path_loop i r"
  by (induction c) (auto simp: component_def)

lemma depth_word:
  assumes "n + 1 < 2 ^ 32"
  shows "(0 :: 32 word) < word_of_nat (Suc n)" "(word_of_nat (Suc n) :: 32 word) - 1 = word_of_nat n"
    "(word_of_nat n :: 32 word) = 0 \<longleftrightarrow> n = 0"
proof -
  have u: "unat (word_of_nat (Suc n) :: 32 word) = Suc n" "unat (word_of_nat n :: 32 word) = n"
    using assms by (simp_all add: unat_of_nat take_bit_nat_eq_self del: of_nat_Suc)
  show "(0 :: 32 word) < word_of_nat (Suc n)" using u(1) by (simp add: word_less_nat_alt del: of_nat_Suc)
  show "(word_of_nat (Suc n) :: 32 word) - 1 = word_of_nat n" by simp
  show "(word_of_nat n :: 32 word) = 0 \<longleftrightarrow> n = 0"
  proof
    assume "(word_of_nat n :: 32 word) = 0"
    then show "n = 0" using u(2) by (simp only: unat_0)
  qed simp
qed

lemma at_slash: "path_text cs = [] \<or> peek (path_text cs) = CHR ''/''"
  by (cases cs) simp_all

lemma path_loop_resolve:
  assumes "list_all component cs" "length dirs + length (path_text cs) + 1 < 2 ^ 32"
  shows "path_loop (word_of_nat (Suc (length dirs))) (path_text cs) \<longleftrightarrow> resolve dirs cs \<noteq> None"
  using assms
proof (induction cs arbitrary: dirs)
  case Nil
  then show ?case using depth_word(1) [of "length dirs"] by (simp del: of_nat_Suc)
next
  case (Cons c cs)
  let ?i = "word_of_nat (Suc (length dirs)) :: 32 word" and ?r = "path_text cs"
  have c: "component c" and cs: "list_all component cs" using Cons.prems(1) by simp_all
  have len: "length dirs + 1 < 2 ^ 32" using Cons.prems(2) by simp
  consider "c = []" | "c = ''.''" | "c = ''..''" | d where "c = CHR ''.'' # d" "d \<noteq> []" "d \<noteq> ''.''"
    | "c \<noteq> []" "hd c \<noteq> CHR ''.''"
    by (cases c) auto
  then show ?case
  proof cases
    case 1
    then show ?thesis using depth_word(1) [OF len] by (cases cs) (simp_all del: of_nat_Suc)
  next
    case 2
    have "take 2 (''.'' @ ?r) = ''./'' \<or> ''.'' @ ?r = ''.''" by (cases cs) simp_all
    then show ?thesis using 2 Cons.IH [OF cs, of dirs] Cons.prems(2) by (simp del: of_nat_Suc)
  next
    case 3
    have "take 3 (''..'' @ ?r) = ''../'' \<or> ''..'' @ ?r = ''..''" by (cases cs) simp_all
    moreover have "take 2 (''..'' @ ?r) \<noteq> ''./''" by simp
    ultimately have step: "path_loop ?i (path_text (c # cs)) \<longleftrightarrow>
        (if ?i - 1 = 0 then False else path_loop (?i - 1) ?r)"
      using 3 by (simp add: Let_def numeral_3_eq_3 del: of_nat_Suc)
    show ?thesis
    proof (cases dirs)
      case Nil
      then show ?thesis unfolding step using 3 by simp
    next
      case dirs: (Cons d up)
      have up: "?i - 1 = word_of_nat (Suc (length up))" using depth_word(2) [OF len] dirs by simp
      moreover have "word_of_nat (Suc (length up)) \<noteq> (0 :: 32 word)"
        using depth_word(3) [of "Suc (length up)"] len dirs by (simp del: of_nat_Suc)
      ultimately show ?thesis
        unfolding step using 3 Cons.IH [OF cs, of up] Cons.prems(2) dirs by (simp del: of_nat_Suc)
    qed
  next
    case (4 d)
    have d: "CHR ''/'' \<notin> set d" using 4 c by (auto simp: component_def)
    obtain x e where e: "d = x # e" "x \<noteq> CHR ''/''" using 4 d by (cases d) auto
    have "take 2 (c @ ?r) \<noteq> ''./''" "c @ ?r \<noteq> ''.''" using 4 d e by simp_all
    moreover have "take 3 (c @ ?r) \<noteq> ''../''" "c @ ?r \<noteq> ''..''"
    proof -
      have "x \<noteq> CHR ''.'' \<or> (\<exists>y e'. e = y # e' \<and> y \<noteq> CHR ''/'')"
        using 4 d e by (cases e) auto
      then show "take 3 (c @ ?r) \<noteq> ''../''" "c @ ?r \<noteq> ''..''" using 4(1) e(1) by auto
    qed
    ultimately show ?thesis using 4 by (simp del: of_nat_Suc)
  next
    case 5
    obtain x e where e: "c = x # e" "x \<noteq> CHR ''.''" "x \<noteq> CHR ''/''"
      using 5 c by (cases c) (auto simp: component_def)
    have "path_loop ?i (path_text (c # cs)) \<longleftrightarrow> path_loop (?i + 1) (c @ ?r)"
      using e by (simp del: of_nat_Suc)
    also have "\<dots> \<longleftrightarrow> path_loop (?i + 1) ?r" by (rule path_loop_name [OF c])
    also have "?i + 1 = word_of_nat (Suc (length (c # dirs)))" by simp
    also have "path_loop (word_of_nat (Suc (length (c # dirs)))) ?r \<longleftrightarrow> resolve (c # dirs) cs \<noteq> None"
      by (rule Cons.IH [OF cs]) (use Cons.prems(2) e in simp)
    finally show ?thesis using 5 e by simp
  qed
qed

lemma resolve_below:
  "resolve dirs cs = Some below \<Longrightarrow> list_all component (cs @ dirs) \<Longrightarrow>
   list_all (\<lambda>c. c \<noteq> [] \<and> hd c \<noteq> CHR ''.'') dirs \<Longrightarrow>
   list_all (\<lambda>c. component c \<and> c \<noteq> [] \<and> hd c \<noteq> CHR ''.'') below"
proof (induction dirs cs rule: resolve.induct)
  case (1 dirs)
  then show ?case by (auto simp: list_all_iff)
next
  case (2 dirs c cs)
  consider "c = []" | "c = ''.''" | "c = ''..''" | "c \<noteq> []" "c \<noteq> ''.''" "c \<noteq> ''..''" by blast
  then show ?case
  proof cases
    case 1
    then show ?thesis using 2(4-6) by (auto simp: list_all_iff split: if_splits)
  next
    case dot: 2
    then show ?thesis using 2 by simp
  next
    case 3
    then obtain d up where "dirs = d # up" "resolve up cs = Some below" using 2(4) by (cases dirs) auto
    then show ?thesis using 3 2(2) [of d up] 2(5,6) by simp
  next
    case 4
    then have "hd c \<noteq> CHR ''.''" "resolve (c # dirs) cs = Some below" using 2(4) by (auto split: if_splits)
    then show ?thesis using 4 2(3) 2(5,6) by simp
  qed
qed

section \<open>What a request line says\<close>

text \<open>The target of a request: a path of the server, or a URL; each may have a query.\<close>

datatype target =
    PathTarget string "string option"
  | UrlTarget string "nat option" "string option" "string option"

fun query_text :: "string option \<Rightarrow> string" where
  "query_text None = []"
| "query_text (Some q) = CHR ''?'' # q"

fun port_text :: "nat option \<Rightarrow> string" where
  "port_text None = []"
| "port_text (Some n) = CHR '':'' # dec_digits n"

fun target_text :: "target \<Rightarrow> string" where
  "target_text (PathTarget path query) = path @ query_text query"
| "target_text (UrlTarget host port path query) =
     ''http://'' @ host @ port_text port @ (case path of None \<Rightarrow> [] | Some p \<Rightarrow> p) @ query_text query"

definition path_ok :: "string \<Rightarrow> bool" where
  "path_ok path \<longleftrightarrow> peek path = CHR ''/'' \<and> CHR ''?'' \<notin> set path"

text \<open>A host with a colon needs a port.  The number of the port may be too large for its 16 bits.\<close>

fun target_ok :: "target \<Rightarrow> bool" where
  "target_ok (PathTarget path query) \<longleftrightarrow> path_ok path"
| "target_ok (UrlTarget host port path query) \<longleftrightarrow>
     CHR ''/'' \<notin> set host \<and> CHR ''?'' \<notin> set host \<and>
     (case port of None \<Rightarrow> CHR '':'' \<notin> set host | Some n \<Rightarrow> 0 < n \<and> n < 655350) \<and>
     (case path of None \<Rightarrow> True | Some p \<Rightarrow> path_ok p)"

fun target_parts :: "target \<Rightarrow> string option \<times> 16 word \<times> string option \<times> string option" where
  "target_parts (PathTarget path query) = (None, 80, Some path, query)"
| "target_parts (UrlTarget host port path query) =
     (Some host, (case port of None \<Rightarrow> 80 | Some n \<Rightarrow> word_of_nat n),
      Some (case path of None \<Rightarrow> ''*'' | Some p \<Rightarrow> p), query)"

subsection \<open>Splitting\<close>

lemma strdup_always [simp]: "strdup always s = Some s" "xmlrpc_strdupsol always s = s"
  by (simp_all add: strdup_def xmlrpc_strdupsol_def always_def)

lemma strchr_none: "c \<notin> set s \<Longrightarrow> strchr c s = None"
  by (simp add: strchr_def)

lemma strchr_first: "c \<notin> set a \<Longrightarrow> strchr c (a @ c # b) = Some (a, b)"
  unfolding strchr_def by (induction a) auto

lemma strrchr_none: "c \<notin> set s \<Longrightarrow> strrchr c s = None"
  by (simp add: strrchr_def strchr_none)

lemma strrchr_last: "c \<notin> set b \<Longrightarrow> strrchr c (a @ c # b) = Some (a, b)"
  using strchr_first [of c "rev b" "rev a"] by (simp add: strrchr_def)

lemma split_query:
  assumes "CHR ''?'' \<notin> set s"
  shows "splitUriQuery always (s @ query_text query) = Inr (query, s)"
  using assms by (cases query) (simp_all add: splitUriQuery_def strchr_none strchr_first)

lemma port_digits_digits:
  "list_all isdigit ds \<Longrightarrow> fst (scan_digits port (butlast ds)) < 65535 \<Longrightarrow>
   port_digits port ds = (fst (scan_digits port ds), [])"
proof (induction ds arbitrary: port)
  case (Cons c ds)
  show ?case
  proof (cases "ds = []")
    case True
    then show ?thesis using Cons.prems by (simp add: mult.commute)
  next
    case False
    have mono: "port \<le> fst (scan_digits port s)" for port s
    proof (induction s arbitrary: port)
      case (Cons d s)
      show ?case
      proof (cases "isdigit d")
        case True
        then show ?thesis using Cons.IH [of "10 * port + digit_val d"] by simp
      qed simp
    qed simp
    have "port < 65535" using Cons.prems(2) mono [of port "butlast (c # ds)"] by linarith
    moreover have "fst (scan_digits (10 * port + digit_val c) (butlast ds)) < 65535"
      using Cons.prems False by simp
    ultimately show ?thesis using Cons.IH [of "10 * port + digit_val c"] Cons.prems(1) by (simp add: mult.commute)
  qed
qed simp

lemma port_digits_number:
  assumes "n < 655350"
  shows "port_digits 0 (dec_digits n) = (n, [])"
proof -
  have all: "list_all isdigit (dec_digits m)" for m using isdigit_dec_digits by (auto simp: list_all_iff)
  have "fst (scan_digits 0 (butlast (dec_digits n))) < 65535"
  proof (cases "n < 10")
    case False
    then have "fst (scan_digits 0 (butlast (dec_digits n))) = n div 10"
      by (simp add: dec_digits_step scan_dec_digits)
    then show ?thesis using assms by simp
  qed simp
  then show ?thesis using port_digits_digits [OF all] by (simp add: scan_dec_digits)
qed

lemma colon_not_digit: "CHR '':'' \<notin> set (dec_digits n)" "CHR ''/'' \<notin> set (dec_digits n)" "CHR ''?'' \<notin> set (dec_digits n)"
  "CHR ''%'' \<notin> set (dec_digits n)"
  using isdigit_dec_digits [of "CHR '':''" n] isdigit_dec_digits [of "CHR ''/''" n] isdigit_dec_digits [of "CHR ''?''" n]
    isdigit_dec_digits [of "CHR ''%''" n]
  by (auto simp: isdigit_def uchar_def)

lemma parse_host_port:
  assumes "case port of None \<Rightarrow> CHR '':'' \<notin> set host | Some n \<Rightarrow> 0 < n \<and> n < 655350"
  shows "parseHostPort always (host @ port_text port) = Inr (host, case port of None \<Rightarrow> 80 | Some n \<Rightarrow> word_of_nat n)"
  using assms
  by (cases port) (simp_all add: parseHostPort_def strrchr_none strrchr_last colon_not_digit port_digits_number)

lemma parse_host_port_path:
  assumes "target_ok (UrlTarget host port path query)"
  shows "parseHttpHostPortPath always (host @ port_text port @ (case path of None \<Rightarrow> [] | Some p \<Rightarrow> p)) =
    Inr (host, case port of None \<Rightarrow> 80 | Some n \<Rightarrow> word_of_nat n, Some (case path of None \<Rightarrow> ''*'' | Some p \<Rightarrow> p))"
proof -
  have slash: "CHR ''/'' \<notin> set (host @ port_text port)"
    using assms colon_not_digit by (cases port) auto
  have hp: "parseHostPort always (host @ port_text port) = Inr (host, case port of None \<Rightarrow> 80 | Some n \<Rightarrow> word_of_nat n)"
    by (rule parse_host_port) (use assms in simp)
  show ?thesis
  proof (cases path)
    case None
    then show ?thesis using hp slash by (simp add: parseHttpHostPortPath_def strchr_none)
  next
    case (Some p)
    then obtain r where "p = CHR ''/'' # r" using assms by (cases p) (auto simp: path_ok_def)
    then show ?thesis using hp Some strchr_first [OF slash, of r] by (simp add: parseHttpHostPortPath_def)
  qed
qed

subsection \<open>Percent signs\<close>

lemma percent_refused: "\<exists>e. hexDigitValue (CHR ''%'') = Inl e"
  by (simp add: hexDigitValue_def tolower_def uchar_def Let_def)

lemma unescape_chars_plain: "CHR ''%'' \<notin> set s \<Longrightarrow> unescape_chars dst s = Inr (dst @ s)"
  by (induction s arbitrary: dst) auto

lemma unescape_chars_percent: "CHR ''%'' \<in> set s \<Longrightarrow> \<exists>e. unescape_chars dst s = Inl e"
proof (induction s arbitrary: dst)
  case (Cons c s)
  then show ?case using percent_refused by (cases "c = CHR ''%''") auto
qed simp

lemma unescape_component_exact:
  assumes "\<forall>s. part = Some s \<longrightarrow> NUL \<notin> set s"
  shows "if \<exists>s. part = Some s \<and> CHR ''%'' \<in> set s then \<exists>e. unescape_component always part = Inl e
    else unescape_component always part = Inr part"
proof (cases part)
  case (Some s)
  show ?thesis
  proof (cases "CHR ''%'' \<in> set s")
    case True
    then show ?thesis using Some unescape_chars_percent [OF True, of "[]"] by (auto simp: unescape_component_def unescapeUri_def)
  next
    case False
    then show ?thesis using Some assms by (simp add: unescape_component_def unescapeUri_def unescape_chars_plain c_str_id)
  qed
qed (simp add: unescape_component_def)

lemma unescape_parts:
  assumes "NUL \<notin> \<Union> (set ` (set_option h \<union> set_option p \<union> set_option q))"
  shows "if CHR ''%'' \<in> \<Union> (set ` (set_option h \<union> set_option p \<union> set_option q))
    then \<exists>e. unescapeHostPathQuery always h p q = Inl e
    else unescapeHostPathQuery always h p q = Inr (h, p, q)"
proof -
  have nul: "\<forall>s. part = Some s \<longrightarrow> NUL \<notin> set s" if "part \<in> {h, p, q}" for part
    using assms that by (auto simp: elem_set)
  note part = unescape_component_exact [OF nul]
  show ?thesis
    using part [of h] part [of p] part [of q]
    by (cases h; cases p; cases q) (auto simp: unescapeHostPathQuery_def split: if_splits)
qed

lemma parse_target:
  assumes "target_ok t" "NUL \<notin> set (target_text t)"
  shows "if CHR ''%'' \<in> set (target_text t) then \<exists>e. parseRequestUri always (target_text t) = Inl e
    else parseRequestUri always (target_text t) = Inr (target_parts t)"
proof (cases t)
  case (PathTarget path query)
  have path: "peek path = CHR ''/''" "CHR ''?'' \<notin> set path" using assms(1) PathTarget by (simp_all add: path_ok_def)
  have uri: "parseRequestUri always (target_text t) =
      bindE (unescapeHostPathQuery always None (Some path) query) (\<lambda>(h, p, q). Inr (h, 80, p, q))"
    using split_query [OF path(2), of query] path(1) PathTarget by (simp add: parseRequestUri_def)
  show ?thesis
    using unescape_parts [of None "Some path" query] assms(2) PathTarget unfolding uri
    by (cases query) (auto split: if_splits)
next
  case (UrlTarget host port path query)
  let ?s = "host @ port_text port @ (case path of None \<Rightarrow> [] | Some p \<Rightarrow> p)"
  have ok: "target_ok (UrlTarget host port path query)" using assms(1) UrlTarget by simp
  have noq: "CHR ''?'' \<notin> set (''http://'' @ ?s)"
    using ok colon_not_digit by (cases port; cases path) (auto simp: path_ok_def)
  let ?p = "case path of None \<Rightarrow> ''*'' | Some p \<Rightarrow> p"
  have "splitUriQuery always (target_text t) = Inr (query, ''http://'' @ ?s)"
    using split_query [OF noq, of query] UrlTarget by simp
  then have uri: "parseRequestUri always (target_text t) =
      bindE (unescapeHostPathQuery always (Some host) (Some ?p) query)
        (\<lambda>(h, p, q). Inr (h, case port of None \<Rightarrow> 80 | Some n \<Rightarrow> word_of_nat n, p, q))"
    using parse_host_port_path [OF ok] by (simp add: parseRequestUri_def)
  have percent: "CHR ''%'' \<in> set (target_text t) \<longleftrightarrow>
      CHR ''%'' \<in> \<Union> (set ` (set_option (Some host) \<union> set_option (Some ?p) \<union> set_option query))"
    using UrlTarget colon_not_digit by (cases port; cases path; cases query) auto
  have "NUL \<notin> \<Union> (set ` (set_option (Some host) \<union> set_option (Some ?p) \<union> set_option query))"
    using assms(2) UrlTarget by (cases path; cases query) auto
  from unescape_parts [OF this] show ?thesis
    unfolding uri percent using UrlTarget by (auto split: if_splits)
qed

subsection \<open>Tokens of the line\<close>

definition blanks :: "string \<Rightarrow> bool" where
  "blanks s \<longleftrightarrow> list_all is_blank s"

definition token :: "string \<Rightarrow> bool" where
  "token s \<longleftrightarrow> s \<noteq> [] \<and> list_all (\<lambda>c. \<not> ends_token c) s"

lemma blank_ends: "is_blank c \<Longrightarrow> ends_token c"
  by (auto simp: is_blank_def ends_token_def)

lemma skip_blanks: "blanks s \<Longrightarrow> NextToken (s @ r) = NextToken r"
  by (induction s) (auto simp: blanks_def NextToken_def)

lemma next_is_token: "token t \<Longrightarrow> NextToken (t @ r) = t @ r"
  using blank_ends by (cases t) (auto simp: token_def NextToken_def)

lemma get_token:
  assumes "token t" "r = [] \<or> ends_token (hd r)"
  shows "GetToken (t @ r) = Some (t, tl r)"
proof -
  have "takeWhile (\<lambda>c. \<not> ends_token c) (t @ r) = t" "dropWhile (\<lambda>c. \<not> ends_token c) (t @ r) = r"
    using assms by (auto simp: token_def list_all_iff takeWhile_append dropWhile_append takeWhile_eq_Nil_iff dropWhile_eq_self_iff)
  then show ?thesis using assms(1) by (simp add: GetToken_def token_def)
qed

lemma next_token:
  assumes "blanks s" "token t" "r = [] \<or> ends_token (hd r)"
  shows "GetToken (NextToken (s @ t @ r)) = Some (t, tl r)"
  using assms by (simp add: skip_blanks next_is_token get_token)

text \<open>The blanks between two tokens: the first one ends the token before.\<close>

lemma next_token_after:
  assumes "blanks s" "token t" "r = [] \<or> ends_token (hd r)" "s \<noteq> []"
  shows "GetToken (NextToken (tl (s @ t @ r))) = Some (t, tl r)"
proof -
  have "tl (s @ t @ r) = tl s @ t @ r" "blanks (tl s)" using assms(1,4) by (cases s; simp add: blanks_def)+
  then show ?thesis using next_token [OF _ assms(2,3)] by simp
qed

lemma scan_number:
  assumes "n < 2 ^ 31" "\<not> isdigit (peek r)"
  shows "scan_d (dec_digits n @ r) = Some (Some (int n, r))"
proof -
  have "strtol (- (2 ^ 31)) (2 ^ 31 - 1) (dec_digits n @ r) = (False, int n, r)"
    by (rule strtol_digits) (use assms in simp_all)
  then show ?thesis by (simp add: scan_d_def)
qed

lemma scan_version:
  assumes "major < 2 ^ 31" "minor < 2 ^ 31"
  shows "scan_http_version (''HTTP/'' @ dec_digits major @ ''.'' @ dec_digits minor) = Some (Some (int major, int minor))"
  using scan_number [OF assms(1), of "''.'' @ dec_digits minor"] scan_number [OF assms(2), of "[]"]
  by (simp add: scan_http_version_def isdigit_def uchar_def)

lemma version_token: "token (''HTTP/'' @ dec_digits major @ ''.'' @ dec_digits minor)"
proof -
  have "\<not> ends_token c" if "isdigit c" for c
    using that by (auto simp: isdigit_def ends_token_def uchar_def)
  then have "list_all (\<lambda>c. \<not> ends_token c) (dec_digits n)" for n
    using isdigit_dec_digits [of _ n] by (auto simp: list_all_iff)
  then show ?thesis by (simp add: token_def ends_token_def)
qed

text \<open>The names of the methods.\<close>

definition http_methods :: "(string \<times> TMethod) list" where
  "http_methods =
     [(''GET'', m_get), (''PUT'', m_put), (''HEAD'', m_head), (''POST'', m_post), (''DELETE'', m_delete),
      (''TRACE'', m_trace), (''OPTIONS'', m_options)]"

lemma method_of_name_table: "method_of_name m = (case map_of http_methods m of None \<Rightarrow> m_unknown | Some x \<Rightarrow> x)"
  by (simp add: method_of_name_def http_methods_def)


section \<open>Properties\<close>

text \<open>C15: the paths that are served are exactly those that can be followed from the root without ever leaving it:
  at no point does a path go up more often than it went down, no component but the last is empty, and none
  is the name of a hidden file.  What a served path names is below the root.\<close>
theorem request_path_stays_below_root:
  assumes "length uri < 2 ^ 32 - 1"
  shows "(RequestValidURIPath uri \<longleftrightarrow>
            (\<exists>cs. uri = path_text cs \<and> cs \<noteq> [] \<and> list_all component cs \<and> resolve [] cs \<noteq> None)) \<and>
         (list_all component cs \<longrightarrow> resolve [] cs = Some below \<longrightarrow>
            list_all (\<lambda>c. component c \<and> c \<noteq> [] \<and> hd c \<noteq> CHR ''.'') below)"
proof
  show "RequestValidURIPath uri \<longleftrightarrow>
      (\<exists>cs. uri = path_text cs \<and> cs \<noteq> [] \<and> list_all component cs \<and> resolve [] cs \<noteq> None)"
  proof
    assume valid: "RequestValidURIPath uri"
    then obtain cs where cs: "uri = path_text cs" "cs \<noteq> []" "list_all component cs"
      using path_components unfolding RequestValidURIPath_def by blast
    have "resolve [] cs \<noteq> None"
      using path_loop_resolve [OF cs(3), of "[]"] valid assms cs(1) by (simp add: RequestValidURIPath_def)
    with cs show "\<exists>cs. uri = path_text cs \<and> cs \<noteq> [] \<and> list_all component cs \<and> resolve [] cs \<noteq> None" by blast
  next
    assume "\<exists>cs. uri = path_text cs \<and> cs \<noteq> [] \<and> list_all component cs \<and> resolve [] cs \<noteq> None"
    then obtain cs where cs: "uri = path_text cs" "cs \<noteq> []" "list_all component cs" "resolve [] cs \<noteq> None" by blast
    then have "peek uri = CHR ''/''" using at_slash [of cs] by (cases cs) auto
    then show "RequestValidURIPath uri"
      using path_loop_resolve [OF cs(3), of "[]"] cs assms by (simp add: RequestValidURIPath_def)
  qed
  show "list_all component cs \<longrightarrow> resolve [] cs = Some below \<longrightarrow>
      list_all (\<lambda>c. component c \<and> c \<noteq> [] \<and> hd c \<noteq> CHR ''.'') below"
    using resolve_below [of "[]" cs below] by simp
qed

lemma request_path_stays_below_root_witness:
  "RequestValidURIPath ''/a/../b'' \<and> \<not> RequestValidURIPath ''/..''"
proof -
  have a: "''/a/../b'' = path_text [''a'', ''..'', ''b'']" "resolve [] [''a'', ''..'', ''b''] \<noteq> None"
    "list_all component [''a'', ''..'', ''b'']"
    by (simp_all add: component_def)
  have "\<exists>cs. ''/a/../b'' = path_text cs \<and> cs \<noteq> [] \<and> list_all component cs \<and> resolve [] cs \<noteq> None"
    by (rule exI [of _ "[''a'', ''..'', ''b'']"]) (intro conjI a, simp)
  then have "RequestValidURIPath ''/a/../b''"
    using request_path_stays_below_root [of "''/a/../b''", THEN conjunct1] by simp
  moreover have "\<not> RequestValidURIPath ''/..''"
  proof
    assume "RequestValidURIPath ''/..''"
    then obtain cs where cs: "''/..'' = path_text cs" "cs \<noteq> []" "list_all component cs" "resolve [] cs \<noteq> None"
      using request_path_stays_below_root [of "''/..''", THEN conjunct1] by auto
    then obtain c cs' where c: "cs = c # cs'" "''..'' = c @ path_text cs'" by (cases cs) auto
    have "cs' = []"
    proof (rule ccontr)
      assume "cs' \<noteq> []"
      then have "CHR ''/'' \<in> set (path_text cs')" by (cases cs') auto
      then have "CHR ''/'' \<in> set (c @ path_text cs')" by simp
      then show False unfolding c(2) [symmetric] by simp
    qed
    then have "cs = [''..'']" using c by simp
    then show False using cs(4) by simp
  qed
  ultimately show ?thesis by blast
qed

text \<open>C19: what the server reads from the first line of a request: whatever blanks stand between its parts, it finds
  the method, the host, the port, the path and the query of the target, and the version; the port and the numbers of
  the version are cut to 16 and to 8 bits.  But it refuses every line whose target has a percent sign, because the
  decoder takes the sign itself for the first digit.\<close>
theorem request_line_read:
  assumes "target_ok t" "token (target_text t)" "token m" "blanks s0" "blanks s1" "blanks s2" "s1 \<noteq> []" "s2 \<noteq> []"
    and "major < 2 ^ 31" "minor < 2 ^ 31" "r = [] \<or> ends_token (hd r)"
  shows "parseRequestLine always
      (s0 @ m @ s1 @ target_text t @ s2 @ (''HTTP/'' @ dec_digits major @ ''.'' @ dec_digits minor) @ r) =
    Some (if CHR ''%'' \<in> set (target_text t) then Inl 400
      else case target_parts t of (host, port, path, query) \<Rightarrow>
        Inr \<lparr>rl_method = (case map_of http_methods m of None \<Rightarrow> m_unknown | Some x \<Rightarrow> x),
             rl_version = Some (word_of_nat major, word_of_nat minor),
             rl_host = host, rl_port = port, rl_path = path, rl_query = query, rl_moreLines = True\<rparr>)"
proof -
  define version where "version = ''HTTP/'' @ dec_digits major @ ''.'' @ dec_digits minor"
  have v_token: "token version" unfolding version_def by (rule version_token)
  have v_scan: "scan_http_version version = Some (Some (int major, int minor))"
    unfolding version_def by (rule scan_version [OF assms(9,10)])
  have ends: "ends_token (hd (s @ w))" if "blanks s" "s \<noteq> []" for s w
    using that blank_ends by (cases s) (auto simp: blanks_def)
  have m: "GetToken (NextToken (s0 @ m @ s1 @ target_text t @ s2 @ version @ r)) = Some (m, tl (s1 @ target_text t @ s2 @ version @ r))"
    by (rule next_token [OF assms(4,3)]) (use ends [OF assms(5,7)] in blast)
  have t: "GetToken (NextToken (tl (s1 @ target_text t @ s2 @ version @ r))) = Some (target_text t, tl (s2 @ version @ r))"
    by (rule next_token_after [OF assms(5,2) _ assms(7)]) (use ends [OF assms(6,8)] in blast)
  have v: "GetToken (NextToken (tl (s2 @ version @ r))) = Some (version, tl r)"
    by (rule next_token_after [OF assms(6) v_token assms(11,8)])
  have "NUL \<notin> set (target_text t)" using assms(2) by (auto simp: token_def list_all_iff ends_token_def)
  note target = parse_target [OF assms(1) this]
  show ?thesis
  proof (cases "CHR ''%'' \<in> set (target_text t)")
    case True
    then obtain e where "parseRequestUri always (target_text t) = Inl e" using target by auto
    then show ?thesis using True unfolding version_def [symmetric] parseRequestLine_def by (simp add: m t)
  next
    case False
    obtain host port path query where parts: "target_parts t = (host, port, path, query)" by (cases "target_parts t")
    have "parseRequestUri always (target_text t) = Inr (host, port, path, query)" using target False parts by simp
    then show ?thesis
      using False parts unfolding version_def [symmetric] parseRequestLine_def
      by (simp add: m t v v_scan method_of_name_table Let_def)
  qed
qed

lemma request_line_read_witness:
  "parseRequestLine always ''POST /RPC2?x HTTP/1.1'' =
     Some (Inr \<lparr>rl_method = m_post, rl_version = Some (1, 1), rl_host = None, rl_port = 80, rl_path = Some ''/RPC2'',
                rl_query = Some ''x'', rl_moreLines = True\<rparr>) \<and>
   parseRequestLine always ''GET /a%20b HTTP/1.1'' = Some (Inl 400)"
proof -
  have ok: "target_ok (PathTarget ''/RPC2'' (Some ''x''))" "target_ok (PathTarget ''/a%20b'' None)"
    by (simp_all add: path_ok_def)
  have tok: "token ''/RPC2?x''" "token ''/a%20b''" "token ''POST''" "token ''GET''" "blanks []" "blanks '' ''"
    by (simp_all add: token_def ends_token_def blanks_def is_blank_def)
  have one: "digit_char (Suc 0) = CHR ''1''" by code_simp
  show ?thesis
    using request_line_read [OF ok(1), of "''POST''" "[]" "'' ''" "'' ''" 1 1 "[]"]
      request_line_read [OF ok(2), of "''GET''" "[]" "'' ''" "'' ''" 1 1 "[]"] tok
    by (simp add: one http_methods_def)
qed

end
