(* ===== verification/Spec2Isabelle.thy ===== *)
theory Spec2Isabelle
  imports Textutil Server Json_Words Json_Text Abyss_Http
begin

text \<open>
  A verification library for the core of Xmlrpc-c: the values of XML-RPC, their text on the wire in
  both directions, and what a server knows about its methods.  Paths are under \<open>src/xmlrpc-c\<close>.

  The program.  A client builds values (\<open>src/xmlrpc_build.c\<close> or the constructors), writes a call
  (\<open>src/xmlrpc_serialize.c\<close>) and parses the response (\<open>src/xmlrpc_parse.c\<close>); a server parses the call,
  finds the method in its list (\<open>src/method.c\<close>, \<open>src/registry.c\<close>), calls it, and writes the response or a fault.  All of it works on
  reference-counted values (\<open>src/xmlrpc_data.c\<close>, \<open>src/xmlrpc_array.c\<close>, \<open>src/xmlrpc_struct.c\<close>,
  \<open>src/xmlrpc_string.c\<close>, \<open>src/xmlrpc_datetime.c\<close>) made of growable memory blocks, and reports errors
  through an environment (\<open>lib/libutil\<close>).

  Conventions.
  A fallible function returns \<open>fault + 'a\<close>; \<open>None\<close> around it, where it appears, is undefined behaviour of
  the C code: memory that is not owned, a read or write out of bounds, a failed assertion, or the end of
  the fuel.  A run of the XML serializer is a \<open>fault option + 'a\<close>, where \<open>Inl None\<close> is such behaviour.
  \<open>malloc\<close> is a parameter \<open>mok\<close> that says which requests succeed; \<open>always\<close> never fails, and a
  request above \<open>BLOCK_ALLOC_MAX\<close> bytes is never made.  Characters are bytes; the integers of the code are
  words of their width where they may wrap around.  Code on values of the heap is a function of the heap
  (\<open>('a, 'd) heap_op\<close>), composed with \<open>hbind\<close>; the cleanups of the C code are \<open>hcleanup\<close> (when it failed)
  and \<open>hfinally\<close> (always).  Doubles are an abstract type with the operations the code uses as parameters.

  The theories.
  \<^item> \<open>Prelude\<close>, \<open>Text_Format\<close>: bytes as integers, masks as arithmetic, C strings, the printf conversions.
  \<^item> \<open>Utf8\<close>, \<open>Utf8_Codec\<close>: \<open>utf8.c\<close>.  The decoder accepts exactly shortest-form UTF-8; encoding and
    decoding are inverse; the repair passes give UTF-8 of XML characters.
  \<^item> \<open>Env_Fault\<close>: \<open>error.c\<close>.  Every fault string is text that XML can carry.
  \<^item> \<open>Memblock\<close>: \<open>memblock.c\<close>.  Blocks as written and unwritten cells with a capacity.  The locales
    \<open>out_buffer\<close> and \<open>roomy_buffer\<close> are the interface the writers use, interpreted on the blocks.
  \<^item> \<open>Base64\<close>, \<open>Textutil\<close>, \<open>Time_Util\<close>: \<open>base64.c\<close>, \<open>make_printable.c\<close>, \<open>string_number.c\<close>, \<open>time.c\<close>: round
    trips, buffer bounds, equality with reference definitions.
  \<^item> \<open>Datetime\<close>: the wire text, Unix time, and where the code wraps around or aborts.
  \<^item> \<open>Values\<close>, \<open>Strings\<close>: values as trees (\<open>xvalue\<close>), constructors and readers.
  \<^item> \<open>Value_Heap\<close>: values as cells with counts.  \<open>heap_ok h D E\<close>: every count is the number of
    references, from other cells and from the owners \<open>E\<close>; \<open>D\<close> are cells being destroyed.  \<open>repr h p v\<close>: the
    cell \<open>p\<close> stands for the tree \<open>v\<close>.  A release is safe, ends, and keeps the invariant; arrays refine lists
    and structs refine maps.
  \<^item> \<open>Serialize\<close>: from trees to text, against a specification of the text (locale \<open>text_writer\<close>,
    interpreted for what is written and for writing that fits the memory).
  \<^item> \<open>Xml_Element\<close>: the handlers of \<open>xmlrpc_expat.c\<close> on a list of events, against the tree of the document.
  \<^item> \<open>Parse_Scalar\<close>, \<open>Owned_Heap\<close>, \<open>Parse_Value\<close>, \<open>Parse_Xml\<close>, \<open>Xml_Messages\<close>: the parsers.  \<open>simulates\<close> relates a
    run on the heap to a reader without a heap: same result, or the same fault with nothing left behind.
  \<^item> \<open>Xml_Text\<close>, \<open>Roundtrip\<close>: the XML subset the serializer writes, and the round trips of calls and
    responses for every XML parser that reads this subset.
  \<^item> \<open>Method\<close>: \<open>method.c\<close>: signature strings, the list of methods as a map.
  \<^item> \<open>Build\<close>, \<open>Decompose\<close>: \<open>xmlrpc_build.c\<close> and \<open>xmlrpc_decompose.c\<close>: format strings and argument lists,
    against descriptions of values.  The pointers of the caller are numbers, \<open>vars\<close> what is stored there.
  \<^item> \<open>Registry\<close>: what a server knows (\<open>registry.c\<close>).  The locale \<open>method_table\<close> is what a program relies on when
    it adds methods; \<open>registry_table\<close> interprets it on the registry.
  \<^item> \<open>System_Method\<close>: the built-in methods (\<open>system_method.c\<close>) and the dispatch of a call to its method.
  \<^item> \<open>Server\<close>: \<open>xmlrpc_registry_process_call2\<close>.  \<open>implements m F\<close>: the function \<open>m\<close> on the heap computes \<open>F\<close>
    on values.  A call that a client writes, a server answers and the client reads is an application of \<open>F\<close>.
  \<^item> \<open>Json\<close>: the tokenizer and the parser of JSON text (\<open>json.c\<close>), against a reader without a heap.  A pointer
    into the text is the rest of the text; \<open>junk\<close> is what the stack holds behind the digits of an escape.
  \<^item> \<open>Json_Words\<close>: what the tokenizer takes a word for, against a description of numbers and literals.
  \<^item> \<open>Json_Text\<close>: the serializer of JSON text, against a specification of the text (locale \<open>json_writer\<close>), and
    the round trip through the parser.
  \<^item> \<open>Abyss_Data\<close>, \<open>Abyss_Http\<close>: of the HTTP server \<open>lib/abyss\<close>, the tables of header fields (\<open>data.c\<close>) as lists of
    fields (locale \<open>field_store\<close>), the tokens of a line (\<open>token.c\<close>), the parser of the request line, and the check
    of the path, which lets no path leave the root (\<open>http.c\<close>).

  Bounds and fuel.  The parser of values is bounded by the nesting limit, which the code itself counts
  down.  \<open>DECREF_all\<close> and \<open>values_at\<close> may run forever, which is \<open>None\<close>; \<open>decref_exact\<close> shows that a release returns.
  \<open>getValue\<close> and \<open>createDecompTreeNext\<close> have one unit of fuel for each character of the format string and
  one more at most.  What \<open>getValue\<close> and its loops do at the end of their fuel is an argument of theirs,
  \<open>stuck\<close>; \<open>build_value_terminates\<close> shows that it makes no difference, so that the end is never reached.  A call is dispatched to a depth of two, because
  \<open>system.multicall\<close> may not call itself; \<open>dispatch_depth_enough\<close> shows that no call goes deeper.  The JSON
  parser has one unit of fuel more than the text has characters, and every round of it takes one at least;
  \<open>parse_json_refines_reader\<close> says that it returns.

  Not modelled.  Expat and libxml2 are parameters (a list of events), as are \<open>strtod\<close> and the regular
  expressions of the C library.  \<open>double.c\<close> works with the arithmetic of doubles, which HOL does not have: the
  text of a double is a parameter of the serializer.  The HTTP transports (\<open>lib/curl_transport\<close> and its
  siblings), the Abyss server's connections, sockets, threads and files, and the front ends are input and output around the
  modelled core.  The manifest lists these parts one by one.
\<close>

end
